(* ===== verification/StringUtils.thy ===== *)
theory StringUtils
  imports Prelude
begin

text \<open>
  StringUtils.cpp: the string helpers the option and probability parsers are built from.
  A \<open>std::string\<close> is a \<open>string\<close>; reading position \<open>length s\<close> gives the null character, as
  \<open>operator[]\<close> does, and \<open>npos\<close> is \<open>None\<close>.  Each scanning loop of the source is a recursion on
  the position; the lemmas relate the loops to list functions on the unread suffix and prove
  that \<open>split_string\<close> inverts joining.
\<close>

definition str_at :: "string \<Rightarrow> nat \<Rightarrow> char" where
  "str_at s i = (if i < length s then s ! i else CHR 0x00)"

definition is_space :: "char \<Rightarrow> bool" where
  "is_space c \<longleftrightarrow> c = CHR '' '' \<or> c = CHR 0x09 \<or> c = CHR 0x0A"

definition empty_line :: "string \<Rightarrow> bool" where
  "empty_line line \<longleftrightarrow> (if line = [] then True
     else list_all (\<lambda>c. c = CHR 0x09 \<or> c = CHR 0x0A \<or> c = CHR '' '') line)"

function ignore_spaces :: "string \<Rightarrow> nat \<Rightarrow> nat" where
  "ignore_spaces s pos = (if is_space (str_at s pos) then ignore_spaces s (Suc pos) else pos)"
  by pat_completeness auto
termination
  by (relation "measure (\<lambda>(s, pos). length s - pos)")
    (auto simp: str_at_def is_space_def split: if_splits)

declare ignore_spaces.simps [simp del]

text \<open>The forward scan behind \<open>find_first_of\<close>, \<open>find_first_not_of\<close> and \<open>find_any_char\<close>.\<close>

function find_from :: "(char \<Rightarrow> bool) \<Rightarrow> string \<Rightarrow> nat \<Rightarrow> nat option" where
  "find_from P s pos = (if pos < length s
     then if P (s ! pos) then Some pos else find_from P s (Suc pos) else None)"
  by pat_completeness auto
termination
  by (relation "measure (\<lambda>(P, s, pos). length s - pos)") auto

declare find_from.simps [simp del]

definition find_any_char :: "string \<Rightarrow> nat \<Rightarrow> string \<Rightarrow> nat option" where
  "find_any_char s pos to_match =
     (if s = [] \<or> to_match = [] then None else find_from (\<lambda>c. c \<in> set to_match) s pos)"

text \<open>\<open>s.substr(a, n)\<close>; \<open>n = None\<close> is \<open>npos\<close> and takes the rest.\<close>

definition substr :: "string \<Rightarrow> nat \<Rightarrow> nat option \<Rightarrow> string" where
  "substr s a n = (case n of None \<Rightarrow> drop a s | Some k \<Rightarrow> take k (drop a s))"

definition get_substring_before :: "string \<Rightarrow> nat \<Rightarrow> char \<Rightarrow> string" where
  "get_substring_before s pos close_delim =
     (case find_from (\<lambda>c. c = close_delim) s pos of
        None \<Rightarrow> []
      | Some e \<Rightarrow> if e = pos then [] else substr s pos (Some (e - pos)))"

definition get_substring :: "string \<Rightarrow> char \<Rightarrow> char \<Rightarrow> string" where
  "get_substring s open_delim close_delim =
     (if s = [] then []
      else let pos = ignore_spaces s 0 in
        if str_at s pos \<noteq> open_delim then []
        else get_substring_before s (Suc pos) close_delim)"

definition first_nonspace_char :: "string \<Rightarrow> char" where
  "first_nonspace_char s = (if s = [] then CHR 0x00 else str_at s (ignore_spaces s 0))"

text \<open>The loop of the three \<open>split_string\<close> variants, the search for the next separator being
  the parameter; a piece is recorded when it is not empty.\<close>

lemma find_from_SomeD:
  "find_from P s pos = Some i \<Longrightarrow> pos \<le> i \<and> i < length s \<and> P (s ! i) \<and> (\<forall>j. pos \<le> j \<and> j < i \<longrightarrow> \<not> P (s ! j))"
proof (induction P s pos arbitrary: i rule: find_from.induct)
  case (1 P s pos)
  note pr = "1.prems"
  show ?case
  proof (cases "pos < length s \<and> \<not> P (s ! pos)")
    case True
    then have "find_from P s (Suc pos) = Some i"
      using pr by (subst (asm) find_from.simps) simp
    from "1.IH"[OF _ _ this] True show ?thesis
      by (metis Suc_leD Suc_leI le_neq_implies_less)
  next
    case False
    then show ?thesis using pr by (subst (asm) find_from.simps) (auto split: if_splits)
  qed
qed

lemma ignore_spaces_ge: "pos \<le> ignore_spaces s pos"
  by (induction s pos rule: ignore_spaces.induct)
    (metis Suc_leD ignore_spaces.simps order_refl)

function split_loop :: "(char \<Rightarrow> bool) \<Rightarrow> string \<Rightarrow> nat \<Rightarrow> string list" where
  "split_loop P s pos =
    (let start_pos = ignore_spaces s pos;
         next_sep = find_from P s start_pos;
         piece = substr s start_pos (map_option (\<lambda>p. p - start_pos) next_sep);
         rest = (case next_sep of None \<Rightarrow> [] | Some p \<Rightarrow> split_loop P s (Suc p))
     in if piece \<noteq> [] then piece # rest else rest)"
  by pat_completeness auto
termination
proof (relation "measure (\<lambda>(P, s, pos). length s - pos)", goal_cases)
  case (2 P s pos x xa xb x2)
  then have "ignore_spaces s pos \<le> x2 \<and> x2 < length s" using find_from_SomeD by metis
  then have "pos \<le> x2 \<and> x2 < length s" using ignore_spaces_ge le_trans by blast
  then show ?case by (simp, linarith)
qed simp

declare split_loop.simps [simp del]

definition split_string :: "string \<Rightarrow> char \<Rightarrow> string list" where
  "split_string s sep_char = split_loop (\<lambda>c. c = sep_char) s 0"

definition split_string_any :: "string \<Rightarrow> string \<Rightarrow> string list" where
  "split_string_any s sep_chars = split_loop (\<lambda>c. c \<in> set sep_chars) s 0"

text \<open>\<open>str2int\<close>: the parentheses are stripped here; \<open>parse_dec\<close> and \<open>parse_hex\<close> stand for
  the stream extraction \<open>ss >> i\<close> and \<open>ss >> std::hex >> i\<close> of the standard library.
  An unbalanced parenthesis fails the assertion.\<close>

lemma substr_inner_length: "s \<noteq> [] \<Longrightarrow> length (take (length s - 2) (drop 1 s)) < length s"
  by (cases s) auto

fun has_hex_prefix :: "string \<Rightarrow> bool" where
  "has_hex_prefix s \<longleftrightarrow> take 2 s = ''0x''"

function str2int :: "(string \<Rightarrow> int) \<Rightarrow> (string \<Rightarrow> int) \<Rightarrow> string \<Rightarrow> int option" where
  "str2int parse_dec parse_hex s =
    (if s \<noteq> [] \<and> s ! 0 = CHR ''('' then
       do { assert_that (s ! (length s - 1) = CHR '')'');
            str2int parse_dec parse_hex (take (length s - 2) (drop 1 s)) }
     else Some (if has_hex_prefix s then parse_hex s else parse_dec s))"
  by pat_completeness auto
termination
  by (relation "measure (\<lambda>(d, h, s). length s)") (auto simp: substr_inner_length)

declare str2int.simps [simp del]

definition split_int_string :: "(string \<Rightarrow> int) \<Rightarrow> (string \<Rightarrow> int) \<Rightarrow> string \<Rightarrow> string \<Rightarrow> int list option" where
  "split_int_string parse_dec parse_hex s sep_chars =
     mapM (str2int parse_dec parse_hex) (split_string_any s sep_chars)"

text \<open>The hand-written hexadecimal branch of \<open>str2longlong\<close>, in 64-bit arithmetic.\<close>

fun hex_digits_value :: "string \<Rightarrow> 64 word \<Rightarrow> 64 word" where
  "hex_digits_value [] i = i"
| "hex_digits_value (c # cs) i =
    (if of_char c \<in> {48..57::nat}
       then hex_digits_value cs (i * 16 + of_nat (of_char c - 48))
     else if of_char c \<in> {65..70::nat}
       then hex_digits_value cs (i * 16 + of_nat (10 + of_char c - 65))
     else i)"

definition str2longlong :: "(string \<Rightarrow> 64 word) \<Rightarrow> string \<Rightarrow> 64 word" where
  "str2longlong parse_dec s =
     (if has_hex_prefix s then hex_digits_value (drop 2 s) 0 else parse_dec s)"

text \<open>\<open>chop\<close> strips blanks (not newlines) at both ends.  On a string of blanks only, the second
  loop starts from \<open>str[npos]\<close>, which is undefined: \<open>None\<close>.\<close>

definition is_blank :: "char \<Rightarrow> bool" where
  "is_blank c \<longleftrightarrow> c = CHR 0x09 \<or> c = CHR '' ''"

fun chop_front :: "string \<Rightarrow> string" where
  "chop_front [] = []"
| "chop_front (c # cs) = (if is_blank c then chop_front cs else c # cs)"

function chop_back :: "string \<Rightarrow> string option" where
  "chop_back s = (if s = [] then None
     else if is_blank (s ! (length s - 1)) then chop_back (take (length s - 1) s)
     else Some s)"
  by pat_completeness auto
termination
  by (relation "measure length") auto

declare chop_back.simps [simp del]

definition chop :: "string \<Rightarrow> string option" where
  "chop s = chop_back (chop_front s)"

definition breakup_assigns :: "string \<Rightarrow> (string list \<times> string list) option" where
  "breakup_assigns assigns =
     do { prs \<leftarrow> mapM (\<lambda>t. do {
              let pair = split_string t (CHR ''='');
              assert_that (length pair = 2);
              a \<leftarrow> chop (pair ! 0);
              b \<leftarrow> chop (pair ! 1);
              Some (a, b) }) (split_string assigns (CHR '';''));
          Some (map fst prs, map snd prs) }"

definition end_with :: "string \<Rightarrow> string \<Rightarrow> bool" where
  "end_with s tail = ((if length tail < length s then drop (length s - length tail) s else s) = tail)"

section \<open>The scanning loops as list functions\<close>

lemma ignore_spaces_drop:
  "pos \<le> length s \<Longrightarrow> ignore_spaces s pos \<le> length s \<and>
     drop (ignore_spaces s pos) s = dropWhile is_space (drop pos s)"
proof (induction s pos rule: ignore_spaces.induct)
  case (1 s pos)
  show ?case
  proof (cases "pos < length s")
    case True
    then have "drop pos s = s ! pos # drop (Suc pos) s" by (simp add: Cons_nth_drop_Suc)
    then show ?thesis using 1 True
      by (subst (1 2) ignore_spaces.simps) (auto simp: str_at_def)
  next
    case False
    then show ?thesis using "1.prems"
      by (subst (1 2) ignore_spaces.simps) (auto simp: str_at_def is_space_def)
  qed
qed

lemma find_from_drop:
  "find_from P s pos =
     (let ys = dropWhile (\<lambda>c. \<not> P c) (drop pos s)
      in if ys = [] then None else Some (length s - length ys))"
proof (induction P s pos rule: find_from.induct)
  case (1 P s pos)
  show ?case
  proof (cases "pos < length s")
    case True
    then have d: "drop pos s = s ! pos # drop (Suc pos) s" by (simp add: Cons_nth_drop_Suc)
    have "length s - length (s ! pos # drop (Suc pos) s) = pos" using True by simp
    then show ?thesis using 1 True d
      by (subst find_from.simps) (auto simp: Let_def)
  next
    case False
    then show ?thesis by (subst find_from.simps) simp
  qed
qed

lemma dropWhile_takeWhile_length: "length (dropWhile P xs) = length xs - length (takeWhile P xs)"
  by (metis add_diff_cancel_left' length_append takeWhile_dropWhile_id)

lemma drop_found:
  assumes "find_from P s pos = Some i"
  shows "take (i - pos) (drop pos s) = takeWhile (\<lambda>c. \<not> P c) (drop pos s)"
    and "s ! i # drop (Suc i) s = dropWhile (\<lambda>c. \<not> P c) (drop pos s)"
proof -
  let ?xs = "drop pos s" let ?w = "takeWhile (\<lambda>c. \<not> P c) ?xs" let ?r = "dropWhile (\<lambda>c. \<not> P c) ?xs"
  have r: "?r \<noteq> []" "i = length s - length ?r"
    using assms by (auto simp: find_from_drop Let_def split: if_splits)
  have "length ?r \<le> length ?xs" by (metis length_dropWhile_le)
  moreover have "length ?w + length ?r = length ?xs"
    by (metis length_append takeWhile_dropWhile_id)
  moreover have "length ?xs = length s - pos" by simp
  moreover have "pos \<le> i" "i < length s" using find_from_SomeD[OF assms] by simp_all
  ultimately have lw: "length ?w = i - pos" using r(2) by linarith
  show "take (i - pos) ?xs = ?w"
    using lw by (metis takeWhile_eq_take)
  have "?r = drop (length ?w) ?xs" by (rule dropWhile_eq_drop)
  also have "\<dots> = drop i s" using lw \<open>pos \<le> i\<close> by simp
  finally show "s ! i # drop (Suc i) s = ?r" using \<open>i < length s\<close> by (simp add: Cons_nth_drop_Suc)
qed

lemma not_found:
  "find_from P s pos = None \<Longrightarrow> takeWhile (\<lambda>c. \<not> P c) (drop pos s) = drop pos s"
  "find_from P s pos = None \<Longrightarrow> dropWhile (\<lambda>c. \<not> P c) (drop pos s) = []"
  by (auto simp: find_from_drop Let_def split: if_splits)

text \<open>The pieces of a string, without positions: skip spaces, take up to the next separator.\<close>

function pieces :: "(char \<Rightarrow> bool) \<Rightarrow> string \<Rightarrow> string list" where
  "pieces P xs =
    (let ys = dropWhile is_space xs;
         w = takeWhile (\<lambda>c. \<not> P c) ys;
         rest = (case dropWhile (\<lambda>c. \<not> P c) ys of [] \<Rightarrow> [] | _ # r \<Rightarrow> pieces P r)
     in if w \<noteq> [] then w # rest else rest)"
  by pat_completeness auto
termination
proof (relation "measure (length \<circ> snd)", goal_cases)
  case (2 P xs x xa x21 x22)
  then have "Suc (length x22) \<le> length (dropWhile is_space xs)"
    by (metis length_Cons length_dropWhile_le)
  then show ?case using length_dropWhile_le[of is_space xs] by simp
qed simp

declare pieces.simps [simp del]

lemma split_loop_pieces: "pos \<le> length s \<Longrightarrow> split_loop P s pos = pieces P (drop pos s)"
proof (induction P s pos rule: split_loop.induct)
  case (1 P s pos)
  let ?p = "ignore_spaces s pos"
  have p: "?p \<le> length s" "drop ?p s = dropWhile is_space (drop pos s)"
    using ignore_spaces_drop[OF "1.prems"] by simp_all
  show ?case
  proof (cases "find_from P s ?p")
    case None
    then show ?thesis
      by (subst split_loop.simps, subst pieces.simps)
        (simp only: Let_def substr_def option.map option.case list.case not_found[OF None] flip: p(2))
  next
    case (Some i)
    have "Suc i \<le> length s" using find_from_SomeD[OF Some] by simp
    from "1.IH"[OF refl refl refl Some this]
    have "split_loop P s (Suc i) = pieces P (drop (Suc i) s)" by simp
    moreover have "takeWhile (\<lambda>c. \<not> P c) (dropWhile is_space (drop pos s)) = take (i - ?p) (drop ?p s)"
      "dropWhile (\<lambda>c. \<not> P c) (dropWhile is_space (drop pos s)) = s ! i # drop (Suc i) s"
      using drop_found[OF Some] p(2) by simp_all
    ultimately show ?thesis
      by (simp only: split_loop.simps[of P s pos] pieces.simps[of P "drop pos s"] Let_def Some
          substr_def option.map option.case list.case)
  qed
qed

text \<open>Joining words with a separator, the inverse of splitting.\<close>

fun join_with :: "char \<Rightarrow> string list \<Rightarrow> string" where
  "join_with c [] = []"
| "join_with c [w] = w"
| "join_with c (w # ws) = w @ c # join_with c ws"

definition good_word :: "(char \<Rightarrow> bool) \<Rightarrow> string \<Rightarrow> bool" where
  "good_word P w \<longleftrightarrow> w \<noteq> [] \<and> (\<forall>c \<in> set w. \<not> P c) \<and> \<not> is_space (hd w)"

lemma pieces_word_end:
  assumes "good_word P w"
  shows "pieces P w = [w]"
proof -
  have 1: "dropWhile is_space w = w" "w \<noteq> []"
    using assms by (cases w; auto simp: good_word_def)+
  have 2: "takeWhile (\<lambda>c. \<not> P c) w = w" "dropWhile (\<lambda>c. \<not> P c) w = []"
    using assms by (auto simp: good_word_def takeWhile_eq_all_conv)
  show ?thesis by (subst pieces.simps) (simp only: 1 2 Let_def list.case if_True simp_thms not_False_eq_True)
qed

lemma pieces_word_sep:
  assumes "good_word P w" "P c"
  shows "pieces P (w @ c # xs) = w # pieces P xs"
proof -
  have 1: "dropWhile is_space (w @ c # xs) = w @ c # xs" "w \<noteq> []"
    using assms(1) by (cases w; auto simp: good_word_def)+
  have 2: "takeWhile (\<lambda>c. \<not> P c) (w @ c # xs) = w" "dropWhile (\<lambda>c. \<not> P c) (w @ c # xs) = c # xs"
    using assms by (auto simp: good_word_def takeWhile_append dropWhile_append takeWhile_eq_all_conv)
  show ?thesis by (subst pieces.simps) (simp only: 1 2 Let_def list.case if_True simp_thms)
qed

lemma pieces_join:
  "(\<forall>w \<in> set ws. good_word P w) \<Longrightarrow> P c \<Longrightarrow> pieces P (join_with c ws) = ws"
proof (induction c ws rule: join_with.induct)
  case (1 c)
  then show ?case by (subst pieces.simps) simp
qed (simp_all add: pieces_word_end pieces_word_sep)

lemma takeWhile_hd: "takeWhile P zs \<noteq> [] \<Longrightarrow> hd (takeWhile P zs) = hd zs"
  by (cases zs) auto

text \<open>What splitting returns: non-empty pieces free of separators and of leading spaces.\<close>

lemma pieces_good:
  "w \<in> set (pieces P xs) \<Longrightarrow> good_word P w"
proof (induction P xs rule: pieces.induct)
  case (1 P xs)
  let ?ys = "dropWhile is_space xs" let ?w = "takeWhile (\<lambda>c. \<not> P c) ?ys"
  have g: "good_word P ?w" if "?w \<noteq> []"
  proof -
    have "?ys \<noteq> []" using that by (metis takeWhile.simps(1))
    then have "\<not> is_space (hd ?ys)" by (rule hd_dropWhile)
    then show ?thesis using that takeWhile_hd[OF that]
      by (auto simp: good_word_def dest: set_takeWhileD)
  qed
  define d where "d = dropWhile (\<lambda>c. \<not> P c) ?ys"
  have "pieces P xs = (if ?w \<noteq> [] then ?w # (case d of [] \<Rightarrow> [] | _ # r \<Rightarrow> pieces P r)
      else (case d of [] \<Rightarrow> [] | _ # r \<Rightarrow> pieces P r))"
    unfolding pieces.simps[of P xs] Let_def d_def ..
  then have "w \<in> set (case d of [] \<Rightarrow> [] | _ # r \<Rightarrow> pieces P r) \<or> (?w \<noteq> [] \<and> w = ?w)"
    using "1.prems" by (metis set_ConsD)
  then show ?case
  proof
    assume "w \<in> set (case d of [] \<Rightarrow> [] | _ # r \<Rightarrow> pieces P r)"
    then obtain c r where r: "d = c # r" "w \<in> set (pieces P r)" by (cases d) auto
    then show ?thesis using "1.IH"[OF refl refl] unfolding d_def by blast
  qed (use g in blast)
qed

section \<open>Trimming and assignments\<close>

lemma chop_front_spec: "\<exists>p. s = p @ chop_front s \<and> list_all is_blank p"
proof (induction s)
  case (Cons c cs)
  then obtain p where "cs = p @ chop_front cs" "list_all is_blank p" by blast
  then show ?case
    by (cases "is_blank c") (metis append_Cons chop_front.simps(2) list.pred_inject(2), simp)
qed simp

lemma chop_front_hd: "chop_front s \<noteq> [] \<Longrightarrow> \<not> is_blank (hd (chop_front s))"
  by (induction s) auto

lemma chop_front_Nil: "chop_front s = [] \<longleftrightarrow> list_all is_blank s"
  by (induction s) auto

lemma chop_back_spec:
  "chop_back s = Some t \<Longrightarrow> t \<noteq> [] \<and> \<not> is_blank (last t) \<and> (\<exists>q. s = t @ q \<and> list_all is_blank q)"
proof (induction s arbitrary: t rule: chop_back.induct)
  case (1 s)
  from "1.prems" have ne: "s \<noteq> []" by (subst (asm) chop_back.simps) (auto split: if_splits)
  show ?case
  proof (cases "is_blank (last s)")
    case True
    then have "chop_back (butlast s) = Some t"
      using "1.prems" ne by (subst (asm) chop_back.simps) (simp add: last_conv_nth butlast_conv_take)
    then obtain q where "t \<noteq> []" "\<not> is_blank (last t)" "butlast s = t @ q" "list_all is_blank q"
      using "1.IH" True ne by (auto simp: last_conv_nth butlast_conv_take)
    moreover have "s = butlast s @ [last s]" using ne by simp
    ultimately have "s = t @ (q @ [last s])" by (metis append.assoc)
    moreover have "list_all is_blank (q @ [last s])" using True \<open>list_all is_blank q\<close> by simp
    moreover note \<open>t \<noteq> []\<close> \<open>\<not> is_blank (last t)\<close>
    ultimately
show ?thesis by blast
  next
    case False
    then show ?thesis
      using "1.prems" ne by (subst (asm) chop_back.simps) (auto simp: last_conv_nth)
  qed
qed

lemma chop_back_total: "s \<noteq> [] \<Longrightarrow> \<not> is_blank (hd s) \<Longrightarrow> \<exists>t. chop_back s = Some t"
proof (induction s rule: chop_back.induct)
  case (1 s)
  show ?case
  proof (cases "is_blank (last s)")
    case True
    then have "2 \<le> length s" using "1.prems" by (cases s; cases "tl s"; auto)
    then have "butlast s \<noteq> []" "hd (butlast s) = hd s" by (cases s; auto; cases "tl s"; auto)+
    then show ?thesis using 1 True
      by (subst chop_back.simps) (simp add: last_conv_nth butlast_conv_take)
  next
    case False
    then show ?thesis using "1.prems" by (subst chop_back.simps) (simp add: last_conv_nth)
  qed
qed

lemma chop_SomeD:
  assumes "chop s = Some t"
  shows "\<exists>p q. s = p @ t @ q \<and> list_all is_blank p \<and> list_all is_blank q \<and>
     t \<noteq> [] \<and> \<not> is_blank (hd t) \<and> \<not> is_blank (last t)"
proof -
  obtain p where p: "s = p @ chop_front s" "list_all is_blank p" using chop_front_spec by blast
  obtain q where q: "t \<noteq> []" "\<not> is_blank (last t)" "chop_front s = t @ q" "list_all is_blank q"
    using chop_back_spec assms unfolding chop_def by blast
  have "\<not> is_blank (hd t)" using chop_front_hd[of s] q by (metis Nil_is_append_conv hd_append2)
  then show ?thesis using p q by metis
qed

lemma chop_eq_None: "chop s = None \<longleftrightarrow> list_all is_blank s"
proof
  assume "chop s = None"
  then show "list_all is_blank s"
    using chop_back_total chop_front_hd chop_front_Nil unfolding chop_def by (metis option.distinct(1))
next
  assume "list_all is_blank s"
  then have "chop_front s = []" by (simp add: chop_front_Nil)
  then show "chop s = None" unfolding chop_def by (subst chop_back.simps) simp
qed

section \<open>Properties\<close>

text \<open>Splitting inverts joining.  If every word is non-empty, contains no separator and does
  not start with a space, then splitting the joined string at the separator gives back exactly
  the words, in order (the loop skips the spaces before a piece and drops empty pieces, so those
  hypotheses are what a caller has to ensure).\<close>

lemma split_string_join:
  assumes "\<forall>w \<in> set ws. good_word (\<lambda>x. x = c) w"
  shows "split_string (join_with c ws) c = ws"
  using assms by (simp add: split_string_def split_loop_pieces pieces_join)

definition good_token :: "string \<Rightarrow> bool" where
  "good_token w \<longleftrightarrow> w \<noteq> [] \<and> (\<forall>c \<in> set w. c \<noteq> CHR '';'' \<and> c \<noteq> CHR ''='') \<and>
     \<not> is_space (hd w) \<and> \<not> is_blank (last w)"

lemma is_blank_space: "is_blank c \<Longrightarrow> is_space c"
  by (auto simp: is_blank_def is_space_def)

lemma chop_id:
  assumes "w \<noteq> []" "\<not> is_blank (hd w)" "\<not> is_blank (last w)"
  shows "chop w = Some w"
proof -
  have "chop_front w = w" using assms by (cases w) auto
  then show ?thesis using assms unfolding chop_def
    by (subst chop_back.simps) (simp add: last_conv_nth)
qed

fun assign_text :: "string \<times> string \<Rightarrow> string" where
  "assign_text (a, b) = a @ CHR ''='' # b"

lemma good_token_word: "good_token w \<Longrightarrow> good_word (\<lambda>x. x = CHR ''='') w"
  by (auto simp: good_token_def good_word_def)

lemma good_assign_word:
  "good_token a \<Longrightarrow> good_token b \<Longrightarrow> good_word (\<lambda>x. x = CHR '';'') (assign_text (a, b))"
  by (auto simp: good_token_def good_word_def)

lemma split_assign:
  assumes "good_token a" "good_token b"
  shows "split_string (assign_text (a, b)) (CHR ''='') = [a, b]"
proof -
  have "pieces (\<lambda>x. x = CHR ''='') (join_with (CHR ''='') [a, b]) = [a, b]"
    by (rule pieces_join) (use assms good_token_word in auto)
  then show ?thesis by (simp add: split_string_def split_loop_pieces)
qed

text \<open>The parser of assignment strings inverts their printer: on
  a1=b1;a2=b2;... with names and values that contain neither of the two separators and carry no
  outer blanks, \<open>breakup_assigns\<close> passes its assertion and returns the names and the values in
  order.\<close>

lemma breakup_assigns_print:
  assumes "\<forall>(a, b) \<in> set ps. good_token a \<and> good_token b"
  shows "breakup_assigns (join_with (CHR '';'') (map assign_text ps)) = Some (map fst ps, map snd ps)"
proof -
  have "\<forall>w \<in> set (map assign_text ps). good_word (\<lambda>x. x = CHR '';'') w"
    using assms by (auto simp del: assign_text.simps intro: good_assign_word)
  then have sp: "split_string (join_with (CHR '';'') (map assign_text ps)) (CHR '';'') = map assign_text ps"
    unfolding split_string_def by (simp add: split_loop_pieces pieces_join)
  have "chop w = Some w" if "good_token w" for w
    using that by (auto simp: good_token_def intro!: chop_id dest: is_blank_space)
  then have "mapM (\<lambda>t. do { let pair = split_string t (CHR ''='');
      assert_that (length pair = 2); a \<leftarrow> chop (pair ! 0); b \<leftarrow> chop (pair ! 1); Some (a, b) })
      (map assign_text ps) = Some ps"
    using assms by (induction ps) (auto simp: split_assign simp del: assign_text.simps)
  then show ?thesis unfolding breakup_assigns_def sp by simp
qed

end
