(* ===== verification/Util.thy ===== *)
theory Util
  imports Prelude "HOL-Library.Multiset"
begin

text \<open>
  util.cpp: fresh names, permutations of an index vector and the enumeration of the index
  vectors of a multi-dimensional array.  Output helpers of that file only forward to the
  output manager and are not modelled.
\<close>

section \<open>Fresh names\<close>

text \<open>The state is the file-static counter \<open>gensym_count\<close>.\<close>

definition reset_gensym :: "nat \<Rightarrow> nat" where
  "reset_gensym gensym_count = 0"

definition gensym :: "string \<Rightarrow> nat \<Rightarrow> string \<times> nat" where
  "gensym basename gensym_count =
     (let gensym_count = gensym_count + 1 in (basename @ show_nat gensym_count, gensym_count))"

fun gensyms :: "string list \<Rightarrow> nat \<Rightarrow> string list \<times> nat" where
  "gensyms [] n = ([], n)"
| "gensyms (b # bs) n =
    (let (s, n) = gensym b n; (ss, n) = gensyms bs n in (s # ss, n))"

section \<open>Permutations\<close>

definition insert_at :: "nat \<Rightarrow> 'a \<Rightarrow> 'a list \<Rightarrow> 'a list" where
  "insert_at j x xs = take j xs @ x # drop j xs"

fun permute :: "int list \<Rightarrow> int list list" where
  "permute [] = []"
| "permute [x] = [[x]]"
| "permute (head # tail) =
     concat (map (\<lambda>one_tail. map (\<lambda>j. insert_at j head one_tail) [0..<Suc (length one_tail)])
       (permute tail))"

section \<open>Array indices\<close>

text \<open>\<open>limits\<close>: the running products from the right, in \<open>int\<close> arithmetic.  The loop goes from
  the last dimension down; \<open>limits[dimension - 1]\<close> is out of range for no dimension.\<close>

fun limits :: "nat list \<Rightarrow> int list" where
  "limits [] = []"
| "limits [n] = [s32 (int n)]"
| "limits (n # ns) = (let ls = limits ns in s32 (hd ls * int n) # ls)"

fun digits_of :: "int list \<Rightarrow> int \<Rightarrow> int list" where
  "digits_of [] num = [num]"
| "digits_of (l # ls) num = (num sdiv l) # digits_of ls (num smod l)"

definition expand_within_ranges :: "nat list \<Rightarrow> (int \<times> int list list) option" where
  "expand_within_ranges ins =
     (if ins = [] then None
      else let ls = limits ins;
               out = map (digits_of (tl ls)) [0 .. hd ls - 1]
           in Some (s32 (int (length out)), out))"

section \<open>Lemmas\<close>

lemma show_nat_append_inj:
  "\<not> is_digit (last b) \<Longrightarrow> b \<noteq> [] \<Longrightarrow> \<not> is_digit (last c) \<Longrightarrow> c \<noteq> [] \<Longrightarrow>
   b @ show_nat m = c @ show_nat n \<Longrightarrow> b = c \<and> m = n"
proof -
  assume a: "\<not> is_digit (last b)" "b \<noteq> []" "\<not> is_digit (last c)" "c \<noteq> []"
    "b @ show_nat m = c @ show_nat n"
  have tw: "takeWhile is_digit (rev (x @ show_nat k)) = rev (show_nat k)"
    if "\<not> is_digit (last x)" "x \<noteq> []" for x k
  proof -
    have "rev x = last x # rev (butlast x)" using that(2) by (metis append_butlast_last_id rev_eq_Cons_iff rev_rev_ident)
    then have "takeWhile is_digit (rev x) = []" using that(1) by (metis takeWhile.simps(2))
    then show ?thesis
      using show_nat_digits by (auto simp: takeWhile_append)
  qed
  have "rev (show_nat m) = rev (show_nat n)" using a tw by metis
  then show "b = c \<and> m = n" using a(5) by auto
qed

lemma gensyms_counter: "snd (gensyms bs n) = n + length bs"
  by (induction bs n rule: gensyms.induct) (auto simp: gensym_def Let_def split: prod.splits)

lemma gensyms_nth:
  "i < length bs \<Longrightarrow> fst (gensyms bs n) ! i = bs ! i @ show_nat (n + Suc i)"
proof (induction bs arbitrary: n i)
  case (Cons b bs)
  then show ?case by (cases i) (auto simp: gensym_def Let_def split: prod.splits, metis add_Suc fst_conv)
qed simp

lemma gensyms_length: "length (fst (gensyms bs n)) = length bs"
  by (induction bs n rule: gensyms.induct) (auto simp: gensym_def Let_def split: prod.splits)

lemma mset_insert_at [simp]: "mset (insert_at j x xs) = add_mset x (mset xs)"
  unfolding insert_at_def by (metis mset_append mset.simps(2) append_take_drop_id union_mset_add_mset_right)

lemma length_insert_at [simp]: "length (insert_at j x xs) = Suc (length xs)"
  by (simp add: insert_at_def)

lemma permute_step:
  "tail \<noteq> [] \<Longrightarrow> permute (head # tail) =
     concat (map (\<lambda>t. map (\<lambda>j. insert_at j head t) [0..<Suc (length t)]) (permute tail))"
  by (cases tail) auto

lemma permute_sound: "p \<in> set (permute xs) \<Longrightarrow> mset p = mset xs"
  by (induction xs arbitrary: p rule: permute.induct) auto

lemma permute_complete: "xs \<noteq> [] \<Longrightarrow> mset p = mset xs \<Longrightarrow> p \<in> set (permute xs)"
proof (induction xs arbitrary: p rule: permute.induct)
  case (3 head t ts)
  let ?tail = "t # ts"
  have "head \<in> set p" using 3 by (metis list.set_intros(1) mset_eq_setD)
  then obtain us vs where p: "p = us @ head # vs" by (meson split_list)
  then have "mset (us @ vs) = mset ?tail" using "3.prems" by simp
  then have "us @ vs \<in> set (permute ?tail)" using "3.IH" by simp
  moreover have "p = insert_at (length us) head (us @ vs)" by (simp add: p insert_at_def)
  moreover have "length us < Suc (length (us @ vs))" by simp
  ultimately show ?case
    unfolding permute.simps by (fastforce simp del: upt_Suc)
qed auto

lemma permute_length: "xs \<noteq> [] \<Longrightarrow> length (permute xs) = fact (length xs)"
proof (induction xs rule: permute.induct)
  case (3 head t ts)
  have l: "length p = Suc (length ts)" if "p \<in> set (permute (t # ts))" for p
    using permute_sound[OF that] by (metis length_Cons size_mset)
  have "length (permute (head # t # ts)) =
      sum_list (map (\<lambda>p. Suc (length p)) (permute (t # ts)))"
    by (simp add: length_concat comp_def del: upt_Suc)
  also have "\<dots> = sum_list (map (\<lambda>p. Suc (Suc (length ts))) (permute (t # ts)))"
    using l by (intro arg_cong[where f = sum_list] map_cong) auto
  also have "\<dots> = length (permute (t # ts)) * Suc (Suc (length ts))"
    by (simp add: sum_list_triv)
  finally show ?case using 3 by simp
qed auto

text \<open>The index vectors of an array in lexicographic order: the specification of
  \<open>expand_within_ranges\<close>.\<close>

fun index_vectors :: "nat list \<Rightarrow> int list list" where
  "index_vectors [] = [[]]"
| "index_vectors (n # ns) = concat (map (\<lambda>i. map ((#) (int i)) (index_vectors ns)) [0..<n])"

lemma length_index_vectors [simp]: "length (index_vectors ns) = prod_list ns"
  by (induction ns) (simp_all add: length_concat comp_def sum_list_triv)

lemma set_index_vectors:
  "set (index_vectors ns) = {v. list_all2 (\<lambda>x n. 0 \<le> x \<and> x < int n) v ns}"
proof (induction ns)
  case (Cons n ns)
  have "v \<in> set (index_vectors (n # ns)) \<longleftrightarrow> list_all2 (\<lambda>x n. 0 \<le> x \<and> x < int n) v (n # ns)" for v
  proof (cases v)
    case (Cons x xs)
    have "(\<exists>i \<in> {0..<n}. x = int i) \<longleftrightarrow> 0 \<le> x \<and> x < int n"
      by (metis atLeastLessThan_iff nat_0_le of_nat_0_le_iff of_nat_less_iff zero_le)
    then show ?thesis using Cons.IH Cons by auto
  qed auto
  then show ?case by auto
qed simp

lemma distinct_index_vectors: "distinct (index_vectors ns)"
proof (induction ns)
  case (Cons n ns)
  show ?case
  proof (cases "index_vectors ns = []")
    case ne: False
    have "distinct (concat (map (\<lambda>i. map ((#) (int i)) (index_vectors ns)) [0..<n]))"
      by (rule distinct_concat)
        (use Cons ne in \<open>auto simp: distinct_map inj_on_def\<close>)
    then show ?thesis by simp
  next
    case True
    then show ?thesis by (induction n) simp_all
  qed
qed simp

lemma upt_blocks: "map f [0..<n * L] = concat (map (\<lambda>i. map (\<lambda>r. f (i * L + r)) [0..<L]) [0..<n])"
proof (induction n)
  case (Suc n)
  have "[0..<Suc n * L] = [0..<n * L] @ [n * L..<n * L + L]"
    by (metis add.commute le0 mult_Suc upt_add_eq_append)
  moreover have "map f [n * L..<n * L + L] = map (\<lambda>r. f (n * L + r)) [0..<L]"
    by (rule nth_equalityI) auto
  ultimately show ?case using Suc by simp
qed simp

lemma prod_list_pos: "\<forall>n \<in> set ns. (0::nat) < n \<Longrightarrow> 0 < prod_list ns"
  by (induction ns) auto

lemma prod_list_tail_le: "\<forall>n \<in> set (n # ns). 0 < n \<Longrightarrow> int (prod_list ns) \<le> int (prod_list (n # ns))"
  by (cases n) (simp_all add: algebra_simps)

lemma sdiv_nonneg: "0 \<le> a \<Longrightarrow> 0 < b \<Longrightarrow> a sdiv b = a div (b :: int)"
  by (cases "a = 0") (simp_all add: signed_divide_int_def)

lemma smod_nonneg: "0 \<le> a \<Longrightarrow> 0 < b \<Longrightarrow> a smod b = a mod (b :: int)"
  by (cases "a = 0") (simp_all add: signed_modulo_int_def)

lemma limits_hd:
  "ns \<noteq> [] \<Longrightarrow> \<forall>n \<in> set ns. 0 < n \<Longrightarrow> int (prod_list ns) \<le> INT_MAX \<Longrightarrow>
   limits ns \<noteq> [] \<and> hd (limits ns) = int (prod_list ns)"
proof (induction ns rule: limits.induct)
  case (3 n m ms)
  let ?ns = "m # ms"
  have p: "0 < prod_list ?ns" using 3 prod_list_pos[of ?ns] by simp
  have "int (prod_list ?ns) \<le> int (prod_list (n # ?ns))"
    using "3.prems"(2) by (rule prod_list_tail_le)
  then have "int (prod_list ?ns) \<le> INT_MAX" using "3.prems"(3) by linarith
  then have "hd (limits ?ns) = int (prod_list ?ns)" using "3.IH" "3.prems"(2) by (metis list.distinct(1) list.set_intros(2))
  moreover have "int (prod_list (n # ?ns)) = int (prod_list ?ns) * int n" by simp
  moreover have "hd (limits (n # ?ns)) = s32 (hd (limits ?ns) * int n)" "limits (n # ?ns) \<noteq> []"
    by (simp_all add: Let_def)
  moreover have "s32 (int (prod_list (n # ?ns))) = int (prod_list (n # ?ns))"
    using "3.prems"(3) by (intro s32_nonneg) (simp_all only: of_nat_0_le_iff)
  ultimately show ?case by metis
qed (simp_all add: INT_MIN_def)

lemma digits_block:
  assumes "0 < L" "r < L"
  shows "digits_of (int L # ls) (int (i * L + r)) = int i # digits_of ls (int r)"
proof -
  have "int (i * L + r) sdiv int L = int i" "int (i * L + r) smod int L = int r"
    using assms by (simp_all add: sdiv_nonneg smod_nonneg)
  then show ?thesis by simp
qed

lemma digits_index_vectors:
  "ns \<noteq> [] \<Longrightarrow> \<forall>n \<in> set ns. 0 < n \<Longrightarrow> int (prod_list ns) \<le> INT_MAX \<Longrightarrow>
   map (\<lambda>k. digits_of (tl (limits ns)) (int k)) [0..<prod_list ns] = index_vectors ns"
proof (induction ns rule: limits.induct)
  case (2 n)
  show ?case by simp
next
  case (3 n m ms)
  let ?ns = "m # ms" let ?L = "prod_list ?ns"
  have pos: "0 < ?L" using "3.prems" prod_list_pos[of ?ns] by simp
  have le: "int ?L \<le> INT_MAX"
  proof -
    have "int ?L \<le> int (prod_list (n # ?ns))"
      using "3.prems"(2) by (rule prod_list_tail_le)
    then show ?thesis using "3.prems"(3) by linarith
  qed
  then have h: "limits ?ns \<noteq> []" "hd (limits ?ns) = int ?L"
    using limits_hd[of ?ns] "3.prems"(2) by auto
  then have l: "tl (limits (n # ?ns)) = int ?L # tl (limits ?ns)"
    by (cases "limits ?ns") (auto simp: Let_def)
  have ih: "map (\<lambda>k. digits_of (tl (limits ?ns)) (int k)) [0..<?L] = index_vectors ?ns"
    using "3.IH" "3.prems"(2) le by simp
  have "map (\<lambda>k. digits_of (tl (limits (n # ?ns))) (int k)) [0..<prod_list (n # ?ns)] =
      concat (map (\<lambda>i. map (\<lambda>r. digits_of (int ?L # tl (limits ?ns)) (int (i * ?L + r))) [0..<?L]) [0..<n])"
    unfolding l by (subst upt_blocks[symmetric]) (simp only: prod_list.Cons)
  also have "\<dots> = concat (map (\<lambda>i. map (\<lambda>r. int i # digits_of (tl (limits ?ns)) (int r)) [0..<?L]) [0..<n])"
    by (intro arg_cong[where f = concat] map_cong refl digits_block pos) simp
  also have "\<dots> = concat (map (\<lambda>i. map ((#) (int i)) (index_vectors ?ns)) [0..<n])"
    by (simp only: ih[symmetric] map_map comp_def)
  finally show ?case by (simp only: index_vectors.simps)
qed simp

section \<open>Properties\<close>

text \<open>Fresh names.  A sequence of calls to \<open>gensym\<close> never returns the same name twice, whatever
  base names it is given, as long as no base name is empty or ends in a digit (the generator uses
  "func_", "g_", "l_", "p_" and similar).\<close>

lemma gensyms_distinct:
  assumes "\<forall>b \<in> set bs. b \<noteq> [] \<and> \<not> is_digit (last b)"
  shows "distinct (fst (gensyms bs n))"
  unfolding distinct_conv_nth
proof (intro allI impI)
  fix i j
  assume ij: "i < length (fst (gensyms bs n))" "j < length (fst (gensyms bs n))" "i \<noteq> j"
  show "fst (gensyms bs n) ! i \<noteq> fst (gensyms bs n) ! j"
  proof
    assume "fst (gensyms bs n) ! i = fst (gensyms bs n) ! j"
    then have eq: "bs ! i @ show_nat (n + Suc i) = bs ! j @ show_nat (n + Suc j)"
      using ij by (simp only: gensyms_length gensyms_nth)
    have "bs ! i \<in> set bs" "bs ! j \<in> set bs" using ij by (simp_all add: gensyms_length)
    then have "n + Suc i = n + Suc j" using show_nat_append_inj[OF _ _ _ _ eq] assms by blast
    then show False using ij(3) by simp
  qed
qed

text \<open>\<open>permute\<close> returns exactly the rearrangements of its input, n! of them; the empty vector
  has none in the code although it has one in mathematics.\<close>

lemma permute_correct:
  "set (permute xs) = (if xs = [] then {} else {p. mset p = mset xs}) \<and>
   length (permute xs) = (if xs = [] then 0 else fact (length xs))"
proof (cases "xs = []")
  case False
  then have "set (permute xs) = {p. mset p = mset xs}"
    using permute_sound permute_complete by blast
  then show ?thesis using False permute_length by simp
qed simp

text \<open>\<open>expand_within_ranges\<close> enumerates the index vectors of an array in lexicographic order,
  each once, and returns their number, when no dimension is zero and the number of elements fits
  an \<open>int\<close>.\<close>

lemma expand_within_ranges_correct:
  assumes "ins \<noteq> []" "\<forall>n \<in> set ins. 0 < n" "int (prod_list ins) \<le> INT_MAX"
  shows "\<exists>out. expand_within_ranges ins = Some (int (prod_list ins), out) \<and>
    out = index_vectors ins \<and> distinct out \<and>
    set out = {v. list_all2 (\<lambda>x n. 0 \<le> x \<and> x < int n) v ins}"
proof -
  have h: "hd (limits ins) = int (prod_list ins)" using limits_hd assms by blast
  have "[0..int (prod_list ins) - 1] = map int [0..<prod_list ins]"
    by (rule nth_equalityI) auto
  then have "map (digits_of (tl (limits ins))) [0..int (prod_list ins) - 1] = index_vectors ins"
    using digits_index_vectors[OF assms] by (simp add: comp_def)
  then have "expand_within_ranges ins = Some (int (prod_list ins), index_vectors ins)"
    using assms unfolding expand_within_ranges_def Let_def h by (simp add: INT_MIN_def)
  then show ?thesis using set_index_vectors distinct_index_vectors by blast
qed

end
