(* ===== verification/Options.thy ===== *)
theory Options
  imports StringUtils
begin

text \<open>
  CGOptions.cpp and CLSmith/CLOptions.cpp: the generator's options.  The static members of the two
  classes are the records \<open>cgoptions\<close> and \<open>cloptions\<close> (field names as in the source, with the
  prefix opt_ or cl_ instead of the trailing underscore); a setter is a record update.  The platform file and the initialisation
  of the partial expander, the output directory and the delta monitor, which the conflict check calls,
  are arguments of the definitions.
\<close>

section \<open>The option state\<close>

record cgoptions =
  opt_compute_hash :: bool
  opt_depth_protect :: bool
  opt_max_split_files :: int
  opt_split_files_dir :: string
  opt_output_file :: string
  opt_max_funcs :: int
  opt_max_params :: int
  opt_max_block_size :: int
  opt_max_blk_depth :: int
  opt_max_expr_depth :: int
  opt_wrap_volatiles :: bool
  opt_allow_const_volatile :: bool
  opt_avoid_signed_overflow :: bool
  opt_max_struct_fields :: int
  opt_max_union_fields :: int
  opt_max_nested_struct_level :: int
  opt_struct_output :: string
  opt_fixed_struct_fields :: bool
  opt_expand_struct :: bool
  opt_use_struct :: bool
  opt_use_union :: bool
  opt_max_indirect_level :: int
  opt_max_array_dimensions :: int
  opt_max_array_length_per_dimension :: int
  opt_max_array_length :: int
  opt_interested_facts :: int
  opt_paranoid :: bool
  opt_quiet :: bool
  opt_concise :: bool
  opt_nomain :: bool
  opt_random_based :: bool
  opt_dfs_exhaustive :: bool
  opt_dfs_debug_sequence :: string
  opt_max_exhaustive_depth :: int
  opt_compact_output :: bool
  opt_msp :: bool
  opt_func1_max_params :: int
  opt_splat :: bool
  opt_klee :: bool
  opt_crest :: bool
  opt_ccomp :: bool
  opt_coverage_test :: bool
  opt_coverage_test_size :: int
  opt_packed_struct :: bool
  opt_bitfields :: bool
  opt_prefix_name :: bool
  opt_sequence_name_prefix :: bool
  opt_compatible_check :: bool
  opt_partial_expand :: string
  opt_delta_monitor :: string
  opt_delta_output :: string
  opt_go_delta :: string
  opt_delta_input :: string
  opt_no_delta_reduction :: bool
  opt_math64 :: bool
  opt_inline_function :: bool
  opt_math_notmp :: bool
  opt_longlong :: bool
  opt_int8 :: bool
  opt_uint8 :: bool
  opt_pointers :: bool
  opt_arrays :: bool
  opt_loops :: bool
  opt_strict_const_arrays :: bool
  opt_jumps :: bool
  opt_return_structs :: bool
  opt_arg_structs :: bool
  opt_return_unions :: bool
  opt_arg_unions :: bool
  opt_volatiles :: bool
  opt_volatile_pointers :: bool
  opt_const_pointers :: bool
  opt_access_once :: bool
  opt_strict_volatile_rule :: bool
  opt_addr_taken_of_locals :: bool
  opt_fresh_array_ctrl_var_names :: bool
  opt_consts :: bool
  opt_builtins :: bool
  opt_dangling_global_ptrs :: bool
  opt_divs :: bool
  opt_muls :: bool
  opt_gotos :: bool
  opt_array_ops :: bool
  opt_accept_argc :: bool
  opt_random_random :: bool
  opt_stop_by_stmt :: int
  opt_deputy :: bool
  opt_step_hash_by_stmt :: bool
  opt_compound_assignment :: bool
  opt_dump_default_probabilities :: string
  opt_dump_random_probabilities :: string
  opt_probability_configuration :: string
  opt_const_as_condition :: bool
  opt_match_exact_qualifiers :: bool
  opt_blind_check_global :: bool
  opt_no_return_dead_ptr :: bool
  opt_hash_value_printf :: bool
  opt_signed_char_index :: bool
  opt_empty_blocks :: bool
  opt_max_array_num_in_loop :: int
  opt_identify_wrappers :: bool
  opt_mark_mutable_const :: bool
  opt_force_globals_static :: bool
  opt_force_non_uniform_array_init :: bool
  opt_inline_function_prob :: int
  opt_builtin_function_prob :: int
  opt_null_pointer_dereference_prob :: int
  opt_dead_pointer_dereference_prob :: int
  opt_union_read_type_sensitive :: bool
  opt_pre_incr_operator :: bool
  opt_pre_decr_operator :: bool
  opt_post_incr_operator :: bool
  opt_post_decr_operator :: bool
  opt_unary_plus_operator :: bool
  opt_use_embedded_assigns :: bool
  opt_use_comma_exprs :: bool
  opt_take_union_field_addr :: bool
  opt_vol_struct_union_fields :: bool
  opt_lang_cpp :: bool
  opt_int_size :: int
  opt_pointer_size :: int
  opt_safe_math_wrapper_ids :: "int list"
  opt_enabled_builtin_kinds :: "string \<Rightarrow> bool option"
  opt_conflict_msg :: string
  opt_compatible_check_enabled :: bool

text \<open>The static members before any option is set.\<close>

definition cgoptions_zero :: cgoptions where
  "cgoptions_zero = \<lparr>
    opt_compute_hash = False,
    opt_depth_protect = False,
    opt_max_split_files = 0,
    opt_split_files_dir = [],
    opt_output_file = [],
    opt_max_funcs = 0,
    opt_max_params = 0,
    opt_max_block_size = 0,
    opt_max_blk_depth = 0,
    opt_max_expr_depth = 0,
    opt_wrap_volatiles = False,
    opt_allow_const_volatile = False,
    opt_avoid_signed_overflow = False,
    opt_max_struct_fields = 0,
    opt_max_union_fields = 0,
    opt_max_nested_struct_level = 0,
    opt_struct_output = [],
    opt_fixed_struct_fields = False,
    opt_expand_struct = False,
    opt_use_struct = False,
    opt_use_union = False,
    opt_max_indirect_level = 0,
    opt_max_array_dimensions = 0,
    opt_max_array_length_per_dimension = 0,
    opt_max_array_length = 0,
    opt_interested_facts = 0,
    opt_paranoid = False,
    opt_quiet = False,
    opt_concise = False,
    opt_nomain = False,
    opt_random_based = False,
    opt_dfs_exhaustive = False,
    opt_dfs_debug_sequence = [],
    opt_max_exhaustive_depth = 0,
    opt_compact_output = False,
    opt_msp = False,
    opt_func1_max_params = 0,
    opt_splat = False,
    opt_klee = False,
    opt_crest = False,
    opt_ccomp = False,
    opt_coverage_test = False,
    opt_coverage_test_size = 0,
    opt_packed_struct = False,
    opt_bitfields = False,
    opt_prefix_name = False,
    opt_sequence_name_prefix = False,
    opt_compatible_check = False,
    opt_partial_expand = [],
    opt_delta_monitor = [],
    opt_delta_output = [],
    opt_go_delta = [],
    opt_delta_input = [],
    opt_no_delta_reduction = False,
    opt_math64 = False,
    opt_inline_function = False,
    opt_math_notmp = False,
    opt_longlong = False,
    opt_int8 = False,
    opt_uint8 = False,
    opt_pointers = False,
    opt_arrays = False,
    opt_loops = False,
    opt_strict_const_arrays = False,
    opt_jumps = False,
    opt_return_structs = False,
    opt_arg_structs = False,
    opt_return_unions = False,
    opt_arg_unions = False,
    opt_volatiles = False,
    opt_volatile_pointers = False,
    opt_const_pointers = False,
    opt_access_once = False,
    opt_strict_volatile_rule = False,
    opt_addr_taken_of_locals = False,
    opt_fresh_array_ctrl_var_names = False,
    opt_consts = False,
    opt_builtins = False,
    opt_dangling_global_ptrs = False,
    opt_divs = False,
    opt_muls = False,
    opt_gotos = False,
    opt_array_ops = False,
    opt_accept_argc = False,
    opt_random_random = False,
    opt_stop_by_stmt = 0,
    opt_deputy = False,
    opt_step_hash_by_stmt = False,
    opt_compound_assignment = False,
    opt_dump_default_probabilities = [],
    opt_dump_random_probabilities = [],
    opt_probability_configuration = [],
    opt_const_as_condition = False,
    opt_match_exact_qualifiers = False,
    opt_blind_check_global = False,
    opt_no_return_dead_ptr = False,
    opt_hash_value_printf = False,
    opt_signed_char_index = False,
    opt_empty_blocks = False,
    opt_max_array_num_in_loop = 0,
    opt_identify_wrappers = False,
    opt_mark_mutable_const = False,
    opt_force_globals_static = False,
    opt_force_non_uniform_array_init = False,
    opt_inline_function_prob = 0,
    opt_builtin_function_prob = 0,
    opt_null_pointer_dereference_prob = 0,
    opt_dead_pointer_dereference_prob = 0,
    opt_union_read_type_sensitive = False,
    opt_pre_incr_operator = False,
    opt_pre_decr_operator = False,
    opt_post_incr_operator = False,
    opt_post_decr_operator = False,
    opt_unary_plus_operator = False,
    opt_use_embedded_assigns = False,
    opt_use_comma_exprs = False,
    opt_take_union_field_addr = False,
    opt_vol_struct_union_fields = False,
    opt_lang_cpp = False,
    opt_int_size = 0, opt_pointer_size = 0, opt_safe_math_wrapper_ids = [],
    opt_enabled_builtin_kinds = Map.empty, opt_conflict_msg = [], opt_compatible_check_enabled = False\<rparr>"


definition set_default_builtin_kinds :: "cgoptions \<Rightarrow> cgoptions" where
  "set_default_builtin_kinds o1 =
     o1\<lparr>opt_enabled_builtin_kinds := (opt_enabled_builtin_kinds o1)(''generic'' \<mapsto> True, ''x86'' \<mapsto> True)\<rparr>"

section \<open>Platform information\<close>

definition int_str :: string where "int_str = ''integer size = ''"
definition ptr_str :: string where "ptr_str = ''pointer size = ''"

text \<open>\<open>conf\<close> is the content of the configuration file, \<open>None\<close> when it cannot be opened;
  \<open>sizeof_int\<close> and \<open>sizeof_ptr\<close> are the sizes on the machine that runs the generator and
  \<open>num\<close> is \<open>StringUtils::str2int\<close>.  A missing size ends the program.\<close>

definition platform_line :: "(string \<Rightarrow> int option) \<Rightarrow> string \<Rightarrow> cgoptions \<Rightarrow> cgoptions option" where
  "platform_line num line o1 = do {
     o2 \<leftarrow> (if take (length int_str) line = int_str
            then do { s \<leftarrow> chop (drop (length int_str) line); i \<leftarrow> num s; Some (o1\<lparr>opt_int_size := i\<rparr>) }
            else Some o1);
     (if take (length ptr_str) line = ptr_str
      then do { s \<leftarrow> chop (drop (length ptr_str) line); i \<leftarrow> num s; Some (o2\<lparr>opt_pointer_size := i\<rparr>) }
      else Some o2) }"

definition set_platform_specific_options ::
  "(string \<Rightarrow> int option) \<Rightarrow> int \<Rightarrow> int \<Rightarrow> string list option \<Rightarrow> cgoptions \<Rightarrow> cgoptions option" where
  "set_platform_specific_options num sizeof_int sizeof_ptr conf o1 =
     (case conf of
        None \<Rightarrow> Some (o1\<lparr>opt_int_size := sizeof_int, opt_pointer_size := sizeof_ptr\<rparr>)
      | Some lines \<Rightarrow> do {
          o2 \<leftarrow> foldM (platform_line num) lines o1;
          assert_that (opt_int_size o2 \<noteq> 0);
          assert_that (opt_pointer_size o2 \<noteq> 0);
          Some o2 })"

section \<open>Defaults\<close>

text \<open>The body of \<open>set_default_settings\<close> after the platform information has been read.\<close>

definition default_settings :: "cgoptions \<Rightarrow> cgoptions" where
  "default_settings o1 = set_default_builtin_kinds (o1\<lparr>
    opt_compute_hash := True,
    opt_max_funcs := 0,
    opt_max_funcs := 10,
    opt_max_params := 5,
    opt_max_block_size := 4,
    opt_max_blk_depth := 5,
    opt_max_expr_depth := 10,
    opt_max_struct_fields := 10,
    opt_max_union_fields := 5,
    opt_max_nested_struct_level := 3,
    opt_fixed_struct_fields := False,
    opt_expand_struct := False,
    opt_max_array_dimensions := 3,
    opt_max_array_length_per_dimension := 10,
    opt_max_array_length := 256,
    opt_max_exhaustive_depth := - 1,
    opt_max_indirect_level := 2,
    opt_output_file := [],
    opt_interested_facts := 3,
    opt_allow_const_volatile := True,
    opt_avoid_signed_overflow := True,
    opt_paranoid := False,
    opt_quiet := False,
    opt_concise := False,
    opt_nomain := False,
    opt_random_based := True,
    opt_use_struct := True,
    opt_use_union := True,
    opt_compact_output := False,
    opt_msp := False,
    opt_func1_max_params := 3,
    opt_splat := False,
    opt_klee := False,
    opt_crest := False,
    opt_ccomp := False,
    opt_coverage_test := False,
    opt_coverage_test_size := 500,
    opt_packed_struct := True,
    opt_bitfields := True,
    opt_prefix_name := False,
    opt_sequence_name_prefix := False,
    opt_compatible_check := False,
    opt_compound_assignment := True,
    opt_math64 := True,
    opt_inline_function := False,
    opt_math_notmp := False,
    opt_longlong := True,
    opt_int8 := True,
    opt_uint8 := True,
    opt_pointers := True,
    opt_arrays := True,
    opt_loops := True,
    opt_strict_const_arrays := False,
    opt_jumps := True,
    opt_return_structs := True,
    opt_arg_structs := True,
    opt_return_unions := True,
    opt_arg_unions := True,
    opt_volatiles := True,
    opt_volatile_pointers := True,
    opt_const_pointers := True,
    opt_consts := True,
    opt_dangling_global_ptrs := True,
    opt_divs := True,
    opt_muls := True,
    opt_gotos := True,
    opt_array_ops := True,
    opt_accept_argc := True,
    opt_stop_by_stmt := - 1,
    opt_deputy := False,
    opt_step_hash_by_stmt := False,
    opt_const_as_condition := False,
    opt_match_exact_qualifiers := False,
    opt_blind_check_global := False,
    opt_no_return_dead_ptr := True,
    opt_hash_value_printf := True,
    opt_signed_char_index := True,
    opt_empty_blocks := True,
    opt_identify_wrappers := False,
    opt_mark_mutable_const := False,
    opt_force_globals_static := True,
    opt_force_non_uniform_array_init := True,
    opt_max_array_num_in_loop := 4,
    opt_inline_function_prob := 50,
    opt_builtin_function_prob := 50,
    opt_null_pointer_dereference_prob := 0,
    opt_dead_pointer_dereference_prob := 0,
    opt_union_read_type_sensitive := True,
    opt_pre_incr_operator := True,
    opt_pre_decr_operator := True,
    opt_post_incr_operator := True,
    opt_post_decr_operator := True,
    opt_unary_plus_operator := True,
    opt_use_embedded_assigns := True,
    opt_use_comma_exprs := True,
    opt_take_union_field_addr := True,
    opt_vol_struct_union_fields := True,
    opt_addr_taken_of_locals := True,
    opt_lang_cpp := False\<rparr>)"

definition set_default_settings ::
  "(string \<Rightarrow> int option) \<Rightarrow> int \<Rightarrow> int \<Rightarrow> string list option \<Rightarrow> cgoptions \<Rightarrow> cgoptions option" where
  "set_default_settings num sizeof_int sizeof_ptr conf o1 =
     map_option default_settings (set_platform_specific_options num sizeof_int sizeof_ptr conf o1)"

section \<open>Conflicts\<close>

definition has_extension_support :: "cgoptions \<Rightarrow> bool" where
  "has_extension_support o1 \<longleftrightarrow> opt_splat o1 \<or> opt_klee o1 \<or> opt_crest o1 \<or> opt_coverage_test o1"

definition allow_int64 :: "cgoptions \<Rightarrow> bool" where
  "allow_int64 o1 \<longleftrightarrow> \<not> has_extension_support o1 \<and> opt_math64 o1 \<and> opt_longlong o1"

definition has_random_based_conflict :: "cgoptions \<Rightarrow> bool \<times> cgoptions" where
  "has_random_based_conflict o1 =
    (if \<not> opt_random_based o1 then
       if opt_split_files_dir o1 \<noteq> [] then
         (True, o1\<lparr>opt_conflict_msg := ''split_files_dir can only be applied to random mode''\<rparr>)
       else if opt_max_split_files o1 > 0 then
         (True, o1\<lparr>opt_conflict_msg := ''max_split_files can only be applied to random mode''\<rparr>)
       else (False, o1)
     else if opt_sequence_name_prefix o1 then
       (True, o1\<lparr>opt_conflict_msg := ''--sequence-name-prefix option can only be used with --dfs-exhaustive''\<rparr>)
     else (False, o1))"

text \<open>\<open>init_partial\<close> is \<open>PartialExpander::init_partial_expander\<close>.\<close>

definition resolve_exhaustive_options :: "(string \<Rightarrow> bool) \<Rightarrow> cgoptions \<Rightarrow> bool \<times> cgoptions" where
  "resolve_exhaustive_options init_partial o1 =
    (if \<not> opt_dfs_exhaustive o1 then (False, o1)
     else let o2 = (if opt_compatible_check o1 then o1\<lparr>opt_compatible_check_enabled := True\<rparr> else o1) in
       if opt_partial_expand o2 \<noteq> [] \<and> \<not> init_partial (opt_partial_expand o2) then
         (True, o2\<lparr>opt_conflict_msg := ''wrong partial-expand options!''\<rparr>)
       else if opt_max_exhaustive_depth o2 \<le> 0 then
         (True, o2\<lparr>opt_conflict_msg := ''max-exhaustive-depth must be at least 0''\<rparr>)
       else if \<not> opt_use_struct o2 \<and> opt_expand_struct o2 then
         (True, o2\<lparr>opt_conflict_msg := ''expand-struct cannot be used with --no-struct''\<rparr>)
       else if has_extension_support o2 then
         (True, o2\<lparr>opt_conflict_msg := ''exhaustive mode does not support splat|klee|crest|coverage-test extension''\<rparr>)
       else (False, o2\<lparr>opt_fixed_struct_fields := True\<rparr>))"

definition has_delta_conflict :: "cgoptions \<Rightarrow> bool \<times> cgoptions" where
  "has_delta_conflict o1 =
    (if opt_delta_monitor o1 \<noteq> [] \<and> opt_go_delta o1 \<noteq> [] then
       (True, o1\<lparr>opt_conflict_msg := ''you cannot specify --delta-monitor and --go-delta monitor at the same time.''\<rparr>)
     else (False, o1))"

definition has_extension_conflict :: "cgoptions \<Rightarrow> bool \<times> cgoptions" where
  "has_extension_conflict o1 =
    (let count = of_bool (opt_splat o1) + of_bool (opt_klee o1) + of_bool (opt_crest o1) + of_bool (opt_coverage_test o1) :: nat
     in if count > 1 then
       (True, o1\<lparr>opt_conflict_msg := ''You could only specify --splat or --klee or --crest or --coverage-test''\<rparr>)
     else (False, o1))"

text \<open>The services of other components the check calls: the partial expander, the creation of
  the output directory, and the two initialisations of the delta monitor, which return an error
  message when they fail.\<close>

record conflict_env =
  init_partial_expander :: "string \<Rightarrow> bool"
  create_output_dir :: "string \<Rightarrow> bool"
  delta_init :: "string \<Rightarrow> string \<Rightarrow> string option"
  delta_init_for_running :: "string \<Rightarrow> string \<Rightarrow> string \<Rightarrow> bool \<Rightarrow> string option"

definition check_delta_monitor :: "conflict_env \<Rightarrow> cgoptions \<Rightarrow> bool \<times> cgoptions" where
  "check_delta_monitor env o1 =
    (case (if opt_delta_monitor o1 \<noteq> [] then delta_init env (opt_delta_monitor o1) (opt_delta_output o1) else None) of
       Some msg \<Rightarrow> (True, o1\<lparr>opt_conflict_msg := msg\<rparr>)
     | None \<Rightarrow>
      (case (if opt_go_delta o1 \<noteq> [] then delta_init_for_running env (opt_go_delta o1) (opt_delta_output o1)
               (opt_delta_input o1) (opt_no_delta_reduction o1) else None) of
         Some msg \<Rightarrow> (True, o1\<lparr>opt_conflict_msg := msg\<rparr>)
       | None \<Rightarrow> (False, o1)))"

text \<open>Running one check after another, stopping at the first conflict.\<close>

fun first_conflict :: "(cgoptions \<Rightarrow> bool \<times> cgoptions) list \<Rightarrow> cgoptions \<Rightarrow> bool \<times> cgoptions" where
  "first_conflict [] o1 = (False, o1)"
| "first_conflict (c # cs) o1 =
     (let (rv, o2) = c o1 in if rv then (True, o2) else first_conflict cs o2)"

definition fail_if :: "(cgoptions \<Rightarrow> bool) \<Rightarrow> string \<Rightarrow> cgoptions \<Rightarrow> bool \<times> cgoptions" where
  "fail_if P msg o1 = (if P o1 then (True, o1\<lparr>opt_conflict_msg := msg\<rparr>) else (False, o1))"

definition default_split_dir :: "cgoptions \<Rightarrow> bool \<times> cgoptions" where
  "default_split_dir o1 =
     (False, if opt_split_files_dir o1 = [] then o1\<lparr>opt_split_files_dir := ''./output''\<rparr> else o1)"

definition has_conflict :: "conflict_env \<Rightarrow> cgoptions \<Rightarrow> bool \<times> cgoptions" where
  "has_conflict env = first_conflict
    [has_random_based_conflict,
     resolve_exhaustive_options (init_partial_expander env),
     has_extension_conflict,
     has_delta_conflict,
     fail_if (\<lambda>o1. opt_inline_function_prob o1 < 0 \<or> opt_inline_function_prob o1 > 100)
       ''inline-function-prob value must between [0,100]'',
     fail_if (\<lambda>o1. opt_builtin_function_prob o1 < 0 \<or> opt_builtin_function_prob o1 > 100)
       ''builtin-function-prob value must between [0,100]'',
     fail_if (\<lambda>o1. opt_max_funcs o1 < 1) ''max-funcs must be at least 1'',
     fail_if (\<lambda>o1. opt_max_blk_depth o1 < 1) ''max-stmt-depth must be at least 1'',
     fail_if (\<lambda>o1. opt_func1_max_params o1 > opt_max_params o1)
       ''func1_max_params() cannot be larger than max_params()'',
     default_split_dir,
     fail_if (\<lambda>o1. opt_max_split_files o1 > 0 \<and> \<not> create_output_dir env (opt_split_files_dir o1))
       ''cannot create dir for split files!'',
     check_delta_monitor env]"

section \<open>Lists of names and builtin kinds\<close>

function parse_from :: "string \<Rightarrow> nat \<Rightarrow> string list" where
  "parse_from vname pos1 =
    (case find_from (\<lambda>c. c = CHR '','') vname pos1 of
       None \<Rightarrow> [drop pos1 vname]
     | Some pos2 \<Rightarrow> take (pos2 - pos1) (drop pos1 vname) # parse_from vname (Suc pos2))"
  by pat_completeness auto
termination
proof (relation "measure (\<lambda>(s, pos). length s - pos)", goal_cases)
  case (2 vname pos1 x2)
  then have "pos1 \<le> x2 \<and> x2 < length vname" using find_from_SomeD by metis
  then show ?case by (simp, linarith)
qed simp

declare parse_from.simps [simp del]

definition parse_string_options :: "string \<Rightarrow> string list \<Rightarrow> string list" where
  "parse_string_options vname v = (if vname = [] then v else v @ parse_from vname 0)"

definition set_safe_math_wrapper :: "(string \<Rightarrow> int) \<Rightarrow> (string \<Rightarrow> int) \<Rightarrow> string \<Rightarrow> cgoptions \<Rightarrow> cgoptions option" where
  "set_safe_math_wrapper d h ids o1 =
     map_option (\<lambda>vs. o1\<lparr>opt_safe_math_wrapper_ids := opt_safe_math_wrapper_ids o1 @ vs\<rparr>)
       (split_int_string d h ids '','')"

definition safe_math_wrapper :: "int \<Rightarrow> cgoptions \<Rightarrow> bool" where
  "safe_math_wrapper i o1 \<longleftrightarrow> opt_safe_math_wrapper_ids o1 = [] \<or> i \<in> set (opt_safe_math_wrapper_ids o1)"

definition set_builtin_kinds :: "bool \<Rightarrow> string \<Rightarrow> cgoptions \<Rightarrow> cgoptions" where
  "set_builtin_kinds b kinds o1 =
     o1\<lparr>opt_enabled_builtin_kinds :=
       fold (\<lambda>k m. m(k \<mapsto> b)) (split_string_any kinds '','') (opt_enabled_builtin_kinds o1)\<rparr>"

definition disable_builtin_kinds :: "string \<Rightarrow> cgoptions \<Rightarrow> cgoptions" where
  "disable_builtin_kinds kinds = set_builtin_kinds False kinds"

definition enable_builtin_kinds :: "string \<Rightarrow> cgoptions \<Rightarrow> cgoptions" where
  "enable_builtin_kinds kinds = set_builtin_kinds True kinds"

definition enabled_builtin_kind :: "string \<Rightarrow> cgoptions \<Rightarrow> bool" where
  "enabled_builtin_kind kind o1 = (case opt_enabled_builtin_kinds o1 kind of None \<Rightarrow> False | Some b \<Rightarrow> b)"

definition enabled_builtin :: "string \<Rightarrow> cgoptions \<Rightarrow> bool" where
  "enabled_builtin ks o1 = list_ex (\<lambda>k. enabled_builtin_kind k o1) (split_string_any ks ''|'')"

section \<open>The OpenCL options\<close>

record cloptions =
  cl_atomic_reductions :: bool
  cl_atomics :: bool
  cl_barriers :: bool
  cl_divergence :: bool
  cl_embedded :: bool
  cl_emi :: bool
  cl_emi_p_compound :: int
  cl_emi_p_leaf :: int
  cl_emi_p_lift :: int
  cl_fake_divergence :: bool
  cl_group_divergence :: bool
  cl_inter_thread_comm :: bool
  cl_message_passing :: bool
  cl_output :: string
  cl_safe_math :: bool
  cl_small :: bool
  cl_track_divergence :: bool
  cl_vectors :: bool

definition cl_set_default_settings :: cloptions where
  "cl_set_default_settings = \<lparr>
     cl_atomic_reductions = False, cl_atomics = False, cl_barriers = False, cl_divergence = False,
     cl_embedded = False, cl_emi = False, cl_emi_p_compound = 10, cl_emi_p_leaf = 50, cl_emi_p_lift = 10,
     cl_fake_divergence = False, cl_group_divergence = False, cl_inter_thread_comm = False,
     cl_message_passing = False, cl_output = ''CLProg.c'', cl_safe_math = True, cl_small = False,
     cl_track_divergence = False, cl_vectors = False\<rparr>"

definition ResolveCGOptions :: "cloptions \<Rightarrow> cgoptions \<Rightarrow> cgoptions" where
  "ResolveCGOptions cl o1 =
    (let o2 = o1\<lparr>opt_force_globals_static := False, opt_bitfields := False, opt_packed_struct := False,
           opt_hash_value_printf := False, opt_consts := False, opt_union_read_type_sensitive := False,
           opt_empty_blocks := False\<rparr>;
         o3 = (if cl_small cl then o2\<lparr>opt_max_funcs := 3, opt_max_blk_depth := 3, opt_max_expr_depth := 5,
           opt_max_block_size := 20, opt_max_array_dimensions := 3, opt_max_array_length_per_dimension := 5,
           opt_max_array_length := 7\<rparr> else o2);
         o4 = (if cl_track_divergence cl then o3\<lparr>opt_arrays := False, opt_gotos := False\<rparr> else o3);
         o5 = (if cl_vectors cl then o4\<lparr>opt_array_ops := False\<rparr> else o4);
         o6 = (if cl_atomics cl then o5\<lparr>opt_gotos := False\<rparr> else o5)
     in if cl_embedded cl then o6\<lparr>opt_longlong := False, opt_use_struct := False\<rparr> else o6)"

definition Conflict :: "cloptions \<Rightarrow> bool" where
  "Conflict cl =
    (if cl_barriers cl \<and> cl_divergence cl \<and> \<not> cl_track_divergence cl then True
     else if cl_vectors cl \<and> cl_track_divergence cl then True
     else if cl_divergence cl \<and> cl_fake_divergence cl then True
     else if cl_divergence cl \<and> cl_inter_thread_comm cl then True
     else False)"

section \<open>Lemmas\<close>

lemma first_conflict_False:
  "fst (first_conflict (c # cs) o1) = False \<longleftrightarrow>
     fst (c o1) = False \<and> fst (first_conflict cs (snd (c o1))) = False"
  by (auto simp: Let_def split: prod.splits if_splits)

lemma first_conflict_frame:
  assumes "fst (c o1) = fst (c o2)"
    "fst (first_conflict cs (snd (c o1))) = fst (first_conflict cs (snd (c o2)))"
  shows "fst (first_conflict (c # cs) o1) = fst (first_conflict (c # cs) o2)"
  using assms first_conflict_False by blast

lemmas conflict_defs = has_random_based_conflict_def resolve_exhaustive_options_def
  has_extension_conflict_def has_extension_support_def has_delta_conflict_def fail_if_def
  default_split_dir_def check_delta_monitor_def

text \<open>The options the conflict check reads in random mode, and what it concludes from them.\<close>

definition conflict_free :: "conflict_env \<Rightarrow> cgoptions \<Rightarrow> bool" where
  "conflict_free env o1 \<longleftrightarrow>
     (if opt_random_based o1 then \<not> opt_sequence_name_prefix o1
      else opt_split_files_dir o1 = [] \<and> opt_max_split_files o1 \<le> 0) \<and>
     of_bool (opt_splat o1) + of_bool (opt_klee o1) + of_bool (opt_crest o1) + of_bool (opt_coverage_test o1) \<le> (1::nat) \<and>
     (opt_delta_monitor o1 = [] \<or> opt_go_delta o1 = []) \<and>
     opt_inline_function_prob o1 \<in> {0..100} \<and> opt_builtin_function_prob o1 \<in> {0..100} \<and>
     opt_max_funcs o1 \<ge> 1 \<and> opt_max_blk_depth o1 \<ge> 1 \<and> opt_func1_max_params o1 \<le> opt_max_params o1 \<and>
     (opt_max_split_files o1 > 0 \<longrightarrow>
        create_output_dir env (if opt_split_files_dir o1 = [] then ''./output'' else opt_split_files_dir o1)) \<and>
     (opt_delta_monitor o1 \<noteq> [] \<longrightarrow> delta_init env (opt_delta_monitor o1) (opt_delta_output o1) = None) \<and>
     (opt_go_delta o1 \<noteq> [] \<longrightarrow> delta_init_for_running env (opt_go_delta o1) (opt_delta_output o1)
        (opt_delta_input o1) (opt_no_delta_reduction o1) = None)"

lemma has_conflict_iff:
  assumes "\<not> opt_dfs_exhaustive o1"
  shows "\<not> fst (has_conflict env o1) \<longleftrightarrow> conflict_free env o1"
proof -
  have res: "resolve_exhaustive_options p o1 = (False, o1)" for p
    using assms by (simp add: resolve_exhaustive_options_def)
  show ?thesis
    unfolding has_conflict_def conflict_free_def
    by (simp add: res has_random_based_conflict_def has_extension_conflict_def has_delta_conflict_def
        fail_if_def default_split_dir_def check_delta_monitor_def Let_def split: option.splits)
qed

section \<open>Properties\<close>

text \<open>Resolving the options for OpenCL is idempotent and switches off everything OpenCL C
  lacks or the CLSmith passes cannot handle: static globals, bit-fields, packed structs, printf, const
  globals, type-sensitive union reads, empty blocks; with divergence tracking also arrays
  and gotos, with atomics gotos, with vectors array operations, and for the embedded profile 64-bit
  integers and structs.\<close>

lemma ResolveCGOptions_closed:
  "ResolveCGOptions cl (ResolveCGOptions cl o1) = ResolveCGOptions cl o1 \<and>
   \<not> opt_force_globals_static (ResolveCGOptions cl o1) \<and>
   \<not> opt_bitfields (ResolveCGOptions cl o1) \<and> \<not> opt_packed_struct (ResolveCGOptions cl o1) \<and>
   \<not> opt_hash_value_printf (ResolveCGOptions cl o1) \<and> \<not> opt_consts (ResolveCGOptions cl o1) \<and>
   \<not> opt_union_read_type_sensitive (ResolveCGOptions cl o1) \<and> \<not> opt_empty_blocks (ResolveCGOptions cl o1) \<and>
   opt_arrays (ResolveCGOptions cl o1) = (opt_arrays o1 \<and> \<not> cl_track_divergence cl) \<and>
   opt_gotos (ResolveCGOptions cl o1) = (opt_gotos o1 \<and> \<not> cl_track_divergence cl \<and> \<not> cl_atomics cl) \<and>
   opt_array_ops (ResolveCGOptions cl o1) = (opt_array_ops o1 \<and> \<not> cl_vectors cl) \<and>
   allow_int64 (ResolveCGOptions cl o1) = (allow_int64 o1 \<and> \<not> cl_embedded cl) \<and>
   opt_use_struct (ResolveCGOptions cl o1) = (opt_use_struct o1 \<and> \<not> cl_embedded cl)"
  by (cases "cl_small cl"; cases "cl_track_divergence cl"; cases "cl_vectors cl";
      cases "cl_atomics cl"; cases "cl_embedded cl")
    (simp_all add: ResolveCGOptions_def allow_int64_def has_extension_support_def Let_def)

text \<open>Resolving never introduces a conflict outside exhaustive mode: an option set the
  conflict check accepts is still accepted after \<open>ResolveCGOptions\<close>, for every setting of the OpenCL
  options.  (In exhaustive mode it can: the embedded profile switches structs off, which the
  check then rejects together with struct expansion.)\<close>

lemma ResolveCGOptions_no_conflict:
  assumes "\<not> opt_dfs_exhaustive o1" "\<not> fst (has_conflict env o1)"
  shows "\<not> fst (has_conflict env (ResolveCGOptions cl o1))"
proof -
  have "conflict_free env o1" using assms has_conflict_iff by blast
  then have "conflict_free env (ResolveCGOptions cl o1)"
    by (auto simp: conflict_free_def ResolveCGOptions_def Let_def)
  moreover have "\<not> opt_dfs_exhaustive (ResolveCGOptions cl o1)"
    using assms(1) by (simp add: ResolveCGOptions_def Let_def)
  ultimately show ?thesis using has_conflict_iff by blast
qed

definition quiet_env :: conflict_env where
  "quiet_env = \<lparr>init_partial_expander = \<lambda>_. False, create_output_dir = \<lambda>_. False,
     delta_init = \<lambda>_ _. Some ''no'', delta_init_for_running = \<lambda>_ _ _ _. Some ''no''\<rparr>"

lemma default_settings_dfs: "opt_dfs_exhaustive (default_settings o1) = opt_dfs_exhaustive o1"
  by (simp add: default_settings_def set_default_builtin_kinds_def)

lemma default_settings_conflict_free: "conflict_free env (default_settings cgoptions_zero)"
  by (simp add: conflict_free_def default_settings_def set_default_builtin_kinds_def cgoptions_zero_def)

end
