(* ===== verification/Rng.thy ===== *)
theory Rng
  imports Options
begin

text \<open>
  random.cpp, AbsRndNumGenerator.cpp, DefaultRndNumGenerator.cpp and LinearSequence.cpp: random
  choices in the generator's normal (random) mode.  The library generator \<open>lrand48\<close> is the stream
  \<open>draws\<close>, a parameter held in the state with the number of values already consumed; the state
  also has the choice counter, the recorded sequence of choices, the trace string and the global
  error code of Error.cpp.  The retry loop of \<open>rnd_upto\<close> may run forever when the filter rejects
  everything: it is a partial function whose value is then \<open>None\<close>.

  The depth guards of DepthSpec.h return GOOD_DEPTH whenever the mode is not exhaustive, so they
  do not appear in the random-mode definitions of this development.
\<close>

section \<open>The generator state\<close>

record rng =
  draws :: "nat \<Rightarrow> nat"
  drawn :: nat
  rand_depth :: nat
  seq_map :: "nat \<Rightarrow> int option"
  trace_string :: string
  delta_running :: bool
  r_error :: int

definition genrand :: "rng \<Rightarrow> nat \<times> rng" where
  "genrand s = (draws s (drawn s), s\<lparr>drawn := Suc (drawn s)\<rparr>)"

definition seq_add_number :: "int \<Rightarrow> nat \<Rightarrow> rng \<Rightarrow> rng" where
  "seq_add_number v k s = s\<lparr>seq_map := (seq_map s)(k \<mapsto> v)\<rparr>"

definition add_number :: "int \<Rightarrow> nat \<Rightarrow> rng \<Rightarrow> rng" where
  "add_number v k s = (if delta_running s then seq_add_number v k s else s)"

text \<open>A filter is a predicate on the drawn number; \<open>None\<close> is the null pointer.\<close>

type_synonym filter_opt = "(nat \<Rightarrow> bool) option"

definition rejects :: "filter_opt \<Rightarrow> nat \<Rightarrow> bool" where
  "rejects f v = (case f of None \<Rightarrow> False | Some p \<Rightarrow> p v)"

section \<open>Choices\<close>

partial_function (option) retry :: "nat \<Rightarrow> filter_opt \<Rightarrow> nat \<Rightarrow> nat \<Rightarrow> rng \<Rightarrow> (nat \<times> rng) option" where
  "retry n f local_depth v s =
     (if rejects f v then
        (let (x, s1) = genrand (s\<lparr>rand_depth := local_depth + 1\<rparr>)
         in retry n f local_depth (x mod n) s1)
      else Some (v, s))"

definition rnd_upto :: "nat \<Rightarrow> filter_opt \<Rightarrow> string option \<Rightarrow> rng \<Rightarrow> (nat \<times> rng) option" where
  "rnd_upto n f trace_where s =
     (if n = 0 then None
      else let (x, s1) = genrand s;
               local_depth = rand_depth s1;
               s2 = s1\<lparr>rand_depth := local_depth + 1\<rparr>
        in do {
          (v, s3) \<leftarrow> retry n f local_depth (x mod n) s2;
          let s4 = (case trace_where of None \<Rightarrow> s3
                    | Some w \<Rightarrow> s3\<lparr>trace_string := trace_string s3 @ w @ ''->''\<rparr>);
          Some (v, add_number (int v) local_depth s4) })"

definition rnd_flipcoin :: "nat \<Rightarrow> filter_opt \<Rightarrow> rng \<Rightarrow> (bool \<times> rng) option" where
  "rnd_flipcoin p f s =
     do { assert_that (p \<le> 100);
          let local_depth = rand_depth s;
          let s1 = s\<lparr>rand_depth := local_depth + 1\<rparr>;
          if f \<noteq> None \<and> rejects f 0 then Some (True, add_number 1 local_depth s1)
          else if f \<noteq> None \<and> rejects f 1 then Some (False, add_number 0 local_depth s1)
          else let (x, s2) = genrand s1; rv = x mod 100 < p
               in Some (rv, add_number (if rv then 1 else 0) local_depth s2) }"

text \<open>\<open>pure_rnd_upto\<close> and \<open>pure_rnd_flipcoin\<close> in random mode.\<close>

definition pure_rnd_upto :: "nat \<Rightarrow> filter_opt \<Rightarrow> string option \<Rightarrow> rng \<Rightarrow> (nat \<times> rng) option" where
  "pure_rnd_upto n f trace_where s = (if n = 0 then Some (0, s) else rnd_upto n f trace_where s)"

definition pure_rnd_flipcoin :: "nat \<Rightarrow> filter_opt \<Rightarrow> rng \<Rightarrow> (bool \<times> rng) option" where
  "pure_rnd_flipcoin n f s = rnd_flipcoin n f s"

definition hex1 :: string where "hex1 = ''0123456789ABCDEF''"
definition dec1 :: string where "dec1 = ''0123456789''"

fun random_digits :: "string \<Rightarrow> nat \<Rightarrow> nat \<Rightarrow> rng \<Rightarrow> string \<times> rng" where
  "random_digits digits base 0 s = ([], s)"
| "random_digits digits base (Suc num) s =
     (let (x, s1) = genrand s; d = x mod base;
          s2 = seq_add_number (int d) (rand_depth s1) s1;
          s3 = s2\<lparr>rand_depth := rand_depth s2 + 1\<rparr>;
          (str, s4) = random_digits digits base num s3
      in (digits ! d # str, s4))"

definition RandomHexDigits :: "nat \<Rightarrow> rng \<Rightarrow> string \<times> rng" where
  "RandomHexDigits num s = random_digits hex1 16 num s"

definition RandomDigits :: "nat \<Rightarrow> rng \<Rightarrow> string \<times> rng" where
  "RandomDigits num s = random_digits dec1 10 num s"

section \<open>The recorded sequence\<close>

text \<open>\<open>seq_map_[i]\<close> of a \<open>std::map\<close> inserts 0 for a missing key.\<close>

definition get_number_by_pos :: "nat \<Rightarrow> rng \<Rightarrow> int option" where
  "get_number_by_pos pos s =
     (let rv = (case seq_map s pos of None \<Rightarrow> 0 | Some v \<Rightarrow> v)
      in do { assert_that (rv \<ge> 0); Some rv })"

section \<open>Lemmas\<close>

lemma genrand_simps [simp]:
  "fst (genrand s) = draws s (drawn s)" "draws (snd (genrand s)) = draws s"
  "drawn (snd (genrand s)) = Suc (drawn s)" "r_error (snd (genrand s)) = r_error s"
  "rand_depth (snd (genrand s)) = rand_depth s" "delta_running (snd (genrand s)) = delta_running s"
  "seq_map (snd (genrand s)) = seq_map s"
  by (simp_all add: genrand_def)

lemma add_number_simps [simp]:
  "draws (add_number v k s) = draws s" "drawn (add_number v k s) = drawn s"
  "rand_depth (add_number v k s) = rand_depth s" "r_error (add_number v k s) = r_error s"
  by (simp_all add: add_number_def seq_add_number_def)

text \<open>The retry loop returns the first acceptable draw; what it consumes on the way is counted.\<close>

definition retry_post :: "nat \<Rightarrow> filter_opt \<Rightarrow> nat \<Rightarrow> nat \<Rightarrow> rng \<Rightarrow> nat \<times> rng \<Rightarrow> bool" where
  "retry_post n f d v s y \<longleftrightarrow>
     (case y of (w, t) \<Rightarrow> \<not> rejects f w \<and> (v < n \<longrightarrow> w < n) \<and> draws t = draws s \<and> r_error t = r_error s \<and>
       delta_running t = delta_running s \<and> seq_map t = seq_map s \<and>
       (rand_depth s = d + 1 \<longrightarrow> rand_depth t = d + 1) \<and> drawn s \<le> drawn t)"

lemma retry_SomeD:
  assumes "0 < n" "retry n f d v s = Some (w, t)"
  shows "retry_post n f d v s (w, t)"
proof -
  have "0 < n \<longrightarrow> retry_post n f d v s (w, t)"
  proof (rule retry.raw_induct[where P = "\<lambda>n f d v s y. 0 < n \<longrightarrow> retry_post n f d v s y", OF _ assms(2)], goal_cases)
    case (1 retry n f d v s y)
    let ?g = "genrand (s\<lparr>rand_depth := d + 1\<rparr>)"
    show ?case
    proof (cases "rejects f v")
      case True
      then have "retry n f d (fst ?g mod n) (snd ?g) = Some y"
        using 1(2) by (simp add: case_prod_unfold)
      from 1(1)[OF this] show ?thesis by (auto simp: retry_post_def split: prod.splits)
    next
      case False
      then show ?thesis using 1(2) by (auto simp: retry_post_def)
    qed
  qed
  then show ?thesis using assms(1) by simp
qed

lemma retry_reaches:
  assumes "\<not> rejects f (draws s (drawn s + k) mod n)"
  shows "rejects f v \<Longrightarrow> \<exists>w t. retry n f d v s = Some (w, t)"
  using assms
proof (induction k arbitrary: s v)
  case 0
  then show ?case
    by (subst retry.simps) (simp add: case_prod_unfold, subst retry.simps, simp)
next
  case (Suc k)
  let ?g = "genrand (s\<lparr>rand_depth := d + 1\<rparr>)"
  let ?v = "fst ?g mod n"
  show ?case
  proof (cases "rejects f ?v")
    case True
    have "\<not> rejects f (draws (snd ?g) (drawn (snd ?g) + k) mod n)" using Suc.prems by simp
    from Suc.IH[OF True this] show ?thesis
      using Suc.prems(1) by (subst retry.simps) (simp add: case_prod_unfold)
  next
    case False
    then show ?thesis
      using Suc.prems(1) by (subst retry.simps) (simp add: case_prod_unfold, subst retry.simps, simp)
  qed
qed

lemma rnd_upto_SomeD:
  assumes "rnd_upto n f w s = Some (v, t)"
  shows "v < n" "\<not> rejects f v" "draws t = draws s" "r_error t = r_error s"
    "rand_depth t = rand_depth s + 1" "drawn s < drawn t"
proof -
  let ?s1 = "(snd (genrand s))\<lparr>rand_depth := rand_depth s + 1\<rparr>"
  obtain t1 where n: "n \<noteq> 0" and r: "retry n f (rand_depth s) (fst (genrand s) mod n) ?s1 = Some (v, t1)"
    and t: "t = add_number (int v) (rand_depth s) (case w of None \<Rightarrow> t1
        | Some w \<Rightarrow> t1\<lparr>trace_string := trace_string t1 @ w @ ''->''\<rparr>)"
    using assms by (auto simp: rnd_upto_def case_prod_unfold Let_def bind_eq_Some_conv cong: option.case_cong split: if_splits)
  show "v < n" "\<not> rejects f v" "draws t = draws s" "r_error t = r_error s"
    "rand_depth t = rand_depth s + 1" "drawn s < drawn t"
    using retry_SomeD[OF _ r] n unfolding t retry_post_def by (auto split: option.splits)
qed

lemma rnd_upto_total:
  assumes "0 < n" "\<not> rejects f (draws s (drawn s + k) mod n)"
  shows "\<exists>v t. rnd_upto n f w s = Some (v, t)"
proof -
  let ?s1 = "(snd (genrand s))\<lparr>rand_depth := rand_depth s + 1\<rparr>"
  let ?v = "fst (genrand s) mod n"
  have "\<exists>v t. retry n f (rand_depth s) ?v ?s1 = Some (v, t)"
  proof (cases "rejects f ?v")
    case True
    then obtain j where "k = Suc j" using assms(2) by (cases k) auto
    then have "\<not> rejects f (draws ?s1 (drawn ?s1 + j) mod n)" using assms(2) by simp
    then show ?thesis using retry_reaches True by blast
  next
    case False
    then show ?thesis by (subst retry.simps) simp
  qed
  then show ?thesis
    using assms(1) by (auto simp: rnd_upto_def case_prod_unfold Let_def)
qed

lemma rnd_flipcoin_SomeD:
  "rnd_flipcoin p f s = Some (b, t) \<Longrightarrow>
     r_error t = r_error s \<and> draws t = draws s \<and> rand_depth t = rand_depth s + 1 \<and> p \<le> 100 \<and>
     (f = None \<longrightarrow> b = (draws s (drawn s) mod 100 < p) \<and> drawn t = Suc (drawn s))"
  by (auto simp: rnd_flipcoin_def case_prod_unfold Let_def bind_eq_Some_conv split: if_splits)

lemma rnd_flipcoin_total: "p \<le> 100 \<Longrightarrow> \<exists>b t. rnd_flipcoin p f s = Some (b, t)"
  by (auto simp: rnd_flipcoin_def case_prod_unfold Let_def)

section \<open>A source of choices\<close>

text \<open>What the rest of the generator relies on: a choice below a bound is below the bound and
  not rejected, and a coin of probability 0 or 100 is constant.\<close>

locale choice_source =
  fixes upto_n :: "nat \<Rightarrow> filter_opt \<Rightarrow> 's \<Rightarrow> (nat \<times> 's) option"
    and coin :: "nat \<Rightarrow> 's \<Rightarrow> (bool \<times> 's) option"
  assumes upto_bound: "upto_n n f s = Some (v, t) \<Longrightarrow> v < n \<and> \<not> rejects f v"
    and coin_0: "coin 0 s = Some (b, t) \<Longrightarrow> \<not> b"
    and coin_100: "coin 100 s = Some (b, t) \<Longrightarrow> b"
begin

lemma pick_in_list:
  assumes "upto_n (length xs) f s = Some (v, t)"
  shows "vec_at xs v = Some (xs ! v) \<and> xs ! v \<in> set xs"
  using upto_bound[OF assms] by simp

lemma pick_passes:
  assumes "upto_n n (Some P) s = Some (v, t)"
  shows "\<not> P v"
  using upto_bound[OF assms] by (simp add: rejects_def)

end

interpretation rnd: choice_source "\<lambda>n f. rnd_upto n f None" "\<lambda>p. rnd_flipcoin p None"
  by unfold_locales (auto dest: rnd_upto_SomeD rnd_flipcoin_SomeD)

section \<open>Properties\<close>

text \<open>C31: \<open>rnd_upto\<close> is total and correct as soon as some later draw is acceptable: it returns, the
  number is below the bound and passes the filter, exactly one choice is counted whatever the number of
  retries, and the error code is untouched.\<close>

theorem rnd_upto_correct:
  assumes "0 < n" "\<not> rejects f (draws s (drawn s + k) mod n)"
  shows "\<exists>v t. rnd_upto n f w s = Some (v, t) \<and> v < n \<and> \<not> rejects f v \<and>
    rand_depth t = rand_depth s + 1 \<and> r_error t = r_error s \<and> drawn s < drawn t"
  using rnd_upto_total[OF assms] rnd_upto_SomeD by metis

definition rng_of :: "nat list \<Rightarrow> rng" where
  "rng_of xs = \<lparr>draws = \<lambda>i. if i < length xs then xs ! i else 0, drawn = 0, rand_depth = 0,
     seq_map = Map.empty, trace_string = [], delta_running = True, r_error = 0\<rparr>"

lemma rnd_upto_correct_witness:
  "\<exists>v t. rnd_upto 10 (Some (\<lambda>x. x < 5)) None (rng_of [12, 3, 27]) = Some (v, t) \<and> v < 10 \<and>
     \<not> rejects (Some (\<lambda>x. x < 5)) v \<and> rand_depth t = rand_depth (rng_of [12, 3, 27]) + 1 \<and>
     r_error t = r_error (rng_of [12, 3, 27]) \<and> drawn (rng_of [12, 3, 27]) < drawn t"
  by (rule rnd_upto_correct[where k = 2]) (simp_all add: rejects_def rng_of_def)

end
