(* ===== verification/Tables.thy ===== *)
theory Tables
  imports Rng "HOL-Library.Multiset"
begin

text \<open>
  The weighted choice tables: \<open>DistributionTable\<close> (Probabilities.cpp), the filters of Filter.cpp and
  VectorFilter.cpp that draw from it, and the template \<open>ProbabilityTable\<close> (ProbabilityTable.h).
\<close>

section \<open>DistributionTable\<close>

record dist_table =
  max_prob :: int
  dkeys :: "int list"
  probs :: "int list"

definition empty_dist :: dist_table where
  "empty_dist = \<lparr>max_prob = 0, dkeys = [], probs = []\<rparr>"

definition add_entry :: "int \<Rightarrow> int \<Rightarrow> dist_table \<Rightarrow> dist_table" where
  "add_entry key prob t =
     t\<lparr>dkeys := dkeys t @ [key], probs := probs t @ [prob], max_prob := max_prob t + prob\<rparr>"

definition get_max :: "dist_table \<Rightarrow> int" where
  "get_max t = max_prob t"

fun key_to_prob_loop :: "int \<Rightarrow> int list \<Rightarrow> int list \<Rightarrow> int" where
  "key_to_prob_loop key (k # ks) (p # ps) = (if k = key then p else key_to_prob_loop key ks ps)"
| "key_to_prob_loop key _ _ = 0"

definition key_to_prob :: "int \<Rightarrow> dist_table \<Rightarrow> int" where
  "key_to_prob key t = key_to_prob_loop key (dkeys t) (probs t)"

fun rnd_loop :: "int \<Rightarrow> int list \<Rightarrow> int list \<Rightarrow> int option" where
  "rnd_loop rnd (k # ks) (p # ps) = (if rnd < p then Some k else rnd_loop (rnd - p) ks ps)"
| "rnd_loop rnd _ _ = None"

definition rnd_num_to_key :: "int \<Rightarrow> dist_table \<Rightarrow> int option" where
  "rnd_num_to_key rnd t =
     do { assert_that (rnd < max_prob t \<and> rnd \<ge> 0);
          assert_that (length (dkeys t) = length (probs t));
          rnd_loop rnd (dkeys t) (probs t) }"

definition build_dist :: "(int \<times> int) list \<Rightarrow> dist_table" where
  "build_dist es = fold (\<lambda>(k, p). add_entry k p) es empty_dist"

section \<open>Filters\<close>

text \<open>The bits of \<open>kinds_\<close>; testing the out-of-range bit MAX_FILTER_KIND_SIZE throws.\<close>

record filter_kinds =
  fDefault :: bool
  fDFS :: bool

definition valid_filter :: "cgoptions \<Rightarrow> filter_kinds \<Rightarrow> bool option" where
  "valid_filter o1 kinds =
     (if opt_random_based o1 then Some (fDefault kinds)
      else if opt_dfs_exhaustive o1 then Some (fDFS kinds)
      else None)"

datatype filter_kind = FK_Default | FK_DFS

fun filter_set :: "bool \<Rightarrow> filter_kind \<Rightarrow> filter_kinds \<Rightarrow> filter_kinds" where
  "filter_set b FK_Default k = k\<lparr>fDefault := b\<rparr>"
| "filter_set b FK_DFS k = k\<lparr>fDFS := b\<rparr>"

definition filter_enable :: "filter_kind \<Rightarrow> filter_kinds \<Rightarrow> filter_kinds" where
  "filter_enable kind k = filter_set True kind k"

definition filter_disable :: "filter_kind \<Rightarrow> filter_kinds \<Rightarrow> filter_kinds" where
  "filter_disable kind k = filter_set False kind k"

record vector_filter =
  vf_kinds :: filter_kinds
  vs :: "int list"
  ptable :: "dist_table option"
  filter_out :: bool

definition new_vector_filter :: "dist_table option \<Rightarrow> int list \<Rightarrow> bool \<Rightarrow> vector_filter" where
  "new_vector_filter table items fo =
     \<lparr>vf_kinds = \<lparr>fDefault = True, fDFS = True\<rparr>, vs = items, ptable = table, filter_out = fo\<rparr>"

definition vf_lookup :: "cgoptions \<Rightarrow> vector_filter \<Rightarrow> int \<Rightarrow> int option" where
  "vf_lookup o1 f v =
     do { ok \<leftarrow> valid_filter o1 (vf_kinds f);
          case (if ok then ptable f else None) of
            None \<Rightarrow> Some v
          | Some t \<Rightarrow> rnd_num_to_key v t }"

definition vf_filter :: "cgoptions \<Rightarrow> vector_filter \<Rightarrow> int \<Rightarrow> bool option" where
  "vf_filter o1 f v =
     do { ok \<leftarrow> valid_filter o1 (vf_kinds f);
          if \<not> ok then Some False
          else do { k \<leftarrow> vf_lookup o1 f v;
                    let re = u32 k \<in> set (vs f);
                    Some (if filter_out f then re else \<not> re) } }"

definition vf_add :: "int \<Rightarrow> vector_filter \<Rightarrow> vector_filter" where
  "vf_add item f = (if item \<in> set (vs f) then f else f\<lparr>vs := vs f @ [item]\<rparr>)"

definition get_max_prob :: "vector_filter \<Rightarrow> int" where
  "get_max_prob f = (case ptable f of None \<Rightarrow> 100 | Some t \<Rightarrow> get_max t)"

text \<open>The idiom of the callers: draw below \<open>get_max_prob\<close> through the filter, then look the key
  up.  The filter given to the generator is the predicate \<open>vf_filter\<close>; an assertion that fails in it
  counts as a rejection here and is excluded by the lemmas.\<close>

definition vf_pred :: "cgoptions \<Rightarrow> vector_filter \<Rightarrow> nat \<Rightarrow> bool" where
  "vf_pred o1 f v = (case vf_filter o1 f (int v) of None \<Rightarrow> True | Some b \<Rightarrow> b)"

definition choose_key :: "cgoptions \<Rightarrow> vector_filter \<Rightarrow> rng \<Rightarrow> (int \<times> rng) option" where
  "choose_key o1 f s =
     do { (v, s1) \<leftarrow> rnd_upto (nat (get_max_prob f)) (Some (vf_pred o1 f)) None s;
          k \<leftarrow> vf_lookup o1 f (int v);
          Some (k, s1) }"

section \<open>ProbabilityTable\<close>

record 'v prob_table =
  curr_max_key :: int
  table :: "(int \<times> 'v) list"

definition empty_prob_table :: "'v prob_table" where
  "empty_prob_table = \<lparr>curr_max_key = 0, table = []\<rparr>"

fun insert_entry :: "int \<times> 'v \<Rightarrow> (int \<times> 'v) list \<Rightarrow> (int \<times> 'v) list \<times> bool" where
  "insert_entry t [] = ([t], True)"
| "insert_entry t (e # es) =
     (if fst e > fst t then (t # e # es, False)
      else let (es, atend) = insert_entry t es in (e # es, atend))"

definition sorted_insert :: "int \<times> 'v \<Rightarrow> 'v prob_table \<Rightarrow> 'v prob_table" where
  "sorted_insert t pt =
     (let k = fst t; (es, atend) = insert_entry t (table pt)
      in if atend then pt\<lparr>table := es, curr_max_key := k\<rparr> else pt\<lparr>table := es\<rparr>)"

definition add_elem :: "int \<Rightarrow> 'v \<Rightarrow> 'v prob_table \<Rightarrow> 'v prob_table" where
  "add_elem k v pt = sorted_insert (k, v) pt"

definition get_value :: "int \<Rightarrow> 'v prob_table \<Rightarrow> 'v option" where
  "get_value k pt =
     do { assert_that (k < curr_max_key pt);
          e \<leftarrow> List.find (\<lambda>e. fst e > k) (table pt);
          Some (snd e) }"

section \<open>Lemmas on DistributionTable\<close>

definition wf_dist :: "dist_table \<Rightarrow> bool" where
  "wf_dist t \<longleftrightarrow> length (dkeys t) = length (probs t) \<and> max_prob t = sum_list (probs t) \<and>
     (\<forall>p \<in> set (probs t). 0 \<le> p)"

lemma wf_empty_dist: "wf_dist empty_dist"
  by (simp add: wf_dist_def empty_dist_def)

lemma wf_add_entry: "wf_dist t \<Longrightarrow> 0 \<le> p \<Longrightarrow> wf_dist (add_entry k p t)"
  by (auto simp: wf_dist_def add_entry_def)

lemma build_dist_gen:
  "dkeys (fold (\<lambda>(k, p). add_entry k p) es t) = dkeys t @ map fst es \<and>
   probs (fold (\<lambda>(k, p). add_entry k p) es t) = probs t @ map snd es \<and>
   max_prob (fold (\<lambda>(k, p). add_entry k p) es t) = max_prob t + sum_list (map snd es)"
  by (induction es arbitrary: t) (auto simp: add_entry_def)

lemma build_dist_simps [simp]:
  "dkeys (build_dist es) = map fst es" "probs (build_dist es) = map snd es"
  "max_prob (build_dist es) = sum_list (map snd es)"
  using build_dist_gen[of es empty_dist] by (simp_all add: build_dist_def empty_dist_def)

lemma wf_build_dist: "\<forall>(k, p) \<in> set es. 0 \<le> p \<Longrightarrow> wf_dist (build_dist es)"
  by (auto simp: wf_dist_def)

lemma rnd_loop_total:
  "length ks = length ps \<Longrightarrow> \<forall>p \<in> set ps. 0 \<le> p \<Longrightarrow> 0 \<le> r \<Longrightarrow> r < sum_list ps \<Longrightarrow>
   \<exists>k. rnd_loop r ks ps = Some k \<and> k \<in> set ks"
proof (induction r ks ps rule: rnd_loop.induct)
  case (1 r k ks p ps)
  then show ?case by (cases "r < p") auto
qed auto

lemma rnd_loop_pos:
  "rnd_loop r ks ps = Some k \<Longrightarrow> 0 \<le> r \<Longrightarrow> distinct ks \<Longrightarrow> length ks = length ps \<Longrightarrow>
   0 < key_to_prob_loop k ks ps \<and> k \<in> set ks"
proof (induction r ks ps rule: rnd_loop.induct)
  case (1 r k' ks p ps)
  show ?case
  proof (cases "r < p")
    case True
    then show ?thesis using "1.prems" by simp
  next
    case False
    then have "0 < key_to_prob_loop k ks ps \<and> k \<in> set ks" using 1 by simp
    moreover have "k' \<notin> set ks" using "1.prems" by simp
    ultimately show ?thesis by auto
  qed
qed auto

text \<open>How many numbers a key receives.\<close>

lemma rnd_loop_card:
  "length ks = length ps \<Longrightarrow> \<forall>p \<in> set ps. 0 \<le> p \<Longrightarrow> distinct ks \<Longrightarrow>
   card {r. 0 \<le> r \<and> r < sum_list ps \<and> rnd_loop r ks ps = Some key} = nat (key_to_prob_loop key ks ps)"
proof (induction key ks ps rule: key_to_prob_loop.induct)
  case (1 key k ks p ps)
  let ?A = "{r. 0 \<le> r \<and> r < p \<and> k = key}"
  let ?B = "{r. 0 \<le> r \<and> r < sum_list ps \<and> rnd_loop r ks ps = Some key}"
  have nn: "0 \<le> p" "0 \<le> sum_list ps" using "1.prems" by (auto intro: sum_list_nonneg)
  have eq: "{r. 0 \<le> r \<and> r < sum_list (p # ps) \<and> rnd_loop r (k # ks) (p # ps) = Some key} =
      ?A \<union> (+) p ` ?B" (is "?L = ?R")
  proof (rule set_eqI)
    fix r
    have "r \<in> (+) p ` ?B \<longleftrightarrow> r - p \<in> ?B" by (auto simp: image_iff intro: exI[of _ "r - p"])
    then show "r \<in> ?L \<longleftrightarrow> r \<in> ?R" using nn by auto
  qed
  have fin: "finite ?B" by (rule finite_subset[of _ "{0..<sum_list ps}"]) auto
  have disj: "?A \<inter> (+) p ` ?B = {}" by auto
  have cA: "card ?A = (if k = key then nat p else 0)"
  proof -
    have "{r. 0 \<le> r \<and> r < p} = {0..<p}" by auto
    then show ?thesis by simp
  qed
  have fA: "finite ?A" by (rule finite_subset[of _ "{0..<p}"]) auto
  have cB: "card ((+) p ` ?B) = card ?B" by (rule card_image) simp
  have tot: "card ?L = card ?A + card ?B"
    unfolding eq using fA fin disj cB by (simp add: card_Un_disjoint)
  show ?case
  proof (cases "k = key")
    case True
    have "key \<notin> set ks" using "1.prems" True by auto
    have "?B = {}" using rnd_loop_pos \<open>key \<notin> set ks\<close> "1.prems" by fastforce
    then have "card ?B = 0" by (simp only: card.empty)
    then have "card ?L = nat p" using tot cA True by presburger
    then show ?thesis using True by (simp only: key_to_prob_loop.simps if_True refl)
  next
    case False
    then have "card ?L = card ?B" using tot cA by presburger
    moreover have "card ?B = nat (key_to_prob_loop key ks ps)"
      using False "1.prems" by (intro "1.IH") auto
    ultimately show ?thesis using False by (simp only: key_to_prob_loop.simps if_False)
  qed
qed auto

lemma rnd_num_to_key_total:
  "wf_dist t \<Longrightarrow> 0 \<le> r \<Longrightarrow> r < get_max t \<Longrightarrow> \<exists>k. rnd_num_to_key r t = Some k \<and> k \<in> set (dkeys t)"
  using rnd_loop_total[of "dkeys t" "probs t" r]
  by (simp add: wf_dist_def rnd_num_to_key_def get_max_def)

section \<open>Lemmas on the filters\<close>

lemma vf_filter_choice:
  assumes "vf_filter o1 f v = Some False" "valid_filter o1 (vf_kinds f) = Some True" "filter_out f"
    "vf_lookup o1 f v = Some k"
  shows "u32 k \<notin> set (vs f)"
  using assms by (auto simp: vf_filter_def)

section \<open>Lemmas on ProbabilityTable\<close>

definition sorted_keys :: "(int \<times> 'v) list \<Rightarrow> bool" where
  "sorted_keys es \<longleftrightarrow> sorted (map fst es)"

lemma insert_entry_mset: "mset (fst (insert_entry t es)) = add_mset t (mset es)"
  by (induction es) (auto simp: case_prod_unfold Let_def)

lemma insert_entry_set: "set (fst (insert_entry t es)) = insert t (set es)"
  by (induction es) (auto simp: case_prod_unfold Let_def)

lemma insert_entry_sorted: "sorted_keys es \<Longrightarrow> sorted_keys (fst (insert_entry t es))"
proof (induction es)
  case (Cons e es)
  show ?case
  proof (cases "fst e > fst t")
    case True
    then show ?thesis using Cons.prems by (auto simp: sorted_keys_def)
  next
    case False
    obtain fs b where f: "insert_entry t es = (fs, b)" by force
    have "set fs = insert t (set es)" using insert_entry_set[of t es] f by simp
    moreover have "sorted_keys fs" using Cons f by (simp add: sorted_keys_def)
    ultimately show ?thesis using False Cons.prems f by (auto simp: sorted_keys_def)
  qed
qed (simp add: sorted_keys_def)

lemma insert_entry_atend:
  "snd (insert_entry t es) \<longleftrightarrow> (\<forall>e \<in> set es. fst e \<le> fst t)"
  by (induction es) (auto simp: case_prod_unfold Let_def)

definition wf_prob_table :: "'v prob_table \<Rightarrow> bool" where
  "wf_prob_table pt \<longleftrightarrow> sorted_keys (table pt) \<and>
     (table pt \<noteq> [] \<longrightarrow> curr_max_key pt = Max (fst ` set (table pt)))"

lemma wf_add_elem:
  assumes "wf_prob_table pt"
  shows "wf_prob_table (add_elem k v pt)"
proof -
  obtain es b where i: "insert_entry (k, v) (table pt) = (es, b)" by force
  have s: "set es = insert (k, v) (set (table pt))" using insert_entry_set[of "(k, v)"] i by (metis fst_conv)
  have so: "sorted_keys es"
    using insert_entry_sorted[of "table pt" "(k, v)"] assms i by (simp add: wf_prob_table_def)
  have b: "b \<longleftrightarrow> (\<forall>e \<in> set (table pt). fst e \<le> k)" using insert_entry_atend[of "(k, v)" "table pt"] i by simp
  show ?thesis
  proof (cases b)
    case True
    then have "Max (insert k (fst ` set (table pt))) = k" using b by (intro Max_eqI) auto
    then show ?thesis using True i s so
      by (simp add: wf_prob_table_def add_elem_def sorted_insert_def)
  next
    case False
    then have ne: "table pt \<noteq> []" "fst ` set (table pt) \<noteq> {}" using b by auto
    have "k \<le> Max (fst ` set (table pt))"
      using b False by (metis List.finite_set Max_ge finite_imageI image_eqI linorder_not_le nle_le order_trans)
    then have "Max (insert k (fst ` set (table pt))) = Max (fst ` set (table pt))"
      using ne by (simp add: max_def)
    then show ?thesis using False i s so assms ne
      by (simp add: wf_prob_table_def add_elem_def sorted_insert_def)
  qed
qed

definition build_prob_table :: "(int \<times> 'v) list \<Rightarrow> 'v prob_table" where
  "build_prob_table es = fold (\<lambda>(k, v). add_elem k v) es empty_prob_table"

lemma build_prob_table_gen:
  "wf_prob_table pt \<Longrightarrow> wf_prob_table (fold (\<lambda>(k, v). add_elem k v) es pt) \<and>
   set (table (fold (\<lambda>(k, v). add_elem k v) es pt)) = set es \<union> set (table pt)"
proof (induction es arbitrary: pt)
  case (Cons e es)
  obtain k v where e: "e = (k, v)" by force
  have "set (table (add_elem k v pt)) = insert (k, v) (set (table pt))"
    using insert_entry_set[of "(k, v)" "table pt"]
    by (auto simp: add_elem_def sorted_insert_def Let_def split: prod.splits)
  then show ?case using Cons wf_add_elem[of pt k v] e by simp
qed simp

lemma build_prob_table_wf:
  "wf_prob_table (build_prob_table es)" "set (table (build_prob_table es)) = set es"
  using build_prob_table_gen[of empty_prob_table es]
  by (auto simp: build_prob_table_def empty_prob_table_def wf_prob_table_def sorted_keys_def)

lemma find_sorted:
  assumes "sorted_keys es" "List.find (\<lambda>e. fst e > k) es = Some e"
  shows "e \<in> set es \<and> fst e > k \<and> (\<forall>x \<in> set es. fst x > k \<longrightarrow> fst e \<le> fst x)"
  using assms
proof (induction es)
  case (Cons a es)
  then show ?case by (cases "fst a > k") (fastforce simp: sorted_keys_def)+
qed simp

section \<open>Properties\<close>

text \<open>C32: A distribution table really has its distribution.  Built by \<open>add_entry\<close> from distinct
  keys with non-negative weights, \<open>rnd_num_to_key\<close> passes its assertions on every number
  below \<open>get_max\<close>, and exactly as many of those numbers map to a key as the weight the key was given.\<close>

theorem DistributionTable_distribution:
  assumes "distinct (map fst es)" "\<forall>(k, p) \<in> set es. 0 \<le> p"
  shows "(\<forall>r. 0 \<le> r \<and> r < get_max (build_dist es) \<longrightarrow>
            (\<exists>k. rnd_num_to_key r (build_dist es) = Some k \<and> k \<in> fst ` set es)) \<and>
    card {r. 0 \<le> r \<and> r < get_max (build_dist es) \<and> rnd_num_to_key r (build_dist es) = Some key} =
      nat (key_to_prob key (build_dist es))"
proof
  have wf: "wf_dist (build_dist es)" using assms(2) by (rule wf_build_dist)
  show "\<forall>r. 0 \<le> r \<and> r < get_max (build_dist es) \<longrightarrow>
      (\<exists>k. rnd_num_to_key r (build_dist es) = Some k \<and> k \<in> fst ` set es)"
    using rnd_num_to_key_total[OF wf] by auto
  have "{r. 0 \<le> r \<and> r < get_max (build_dist es) \<and> rnd_num_to_key r (build_dist es) = Some key} =
      {r. 0 \<le> r \<and> r < sum_list (map snd es) \<and> rnd_loop r (map fst es) (map snd es) = Some key}"
    by (auto simp: rnd_num_to_key_def get_max_def)
  moreover have "\<forall>p \<in> set (map snd es). 0 \<le> p" using assms(2) by auto
  ultimately show "card {r. 0 \<le> r \<and> r < get_max (build_dist es) \<and> rnd_num_to_key r (build_dist es) = Some key} =
      nat (key_to_prob key (build_dist es))"
    using rnd_loop_card[of "map fst es" "map snd es" key] assms(1) by (simp add: key_to_prob_def)
qed

lemma DistributionTable_distribution_witness:
  "card {r. 0 \<le> r \<and> r < get_max (build_dist [(7, 30), (9, 70)]) \<and>
      rnd_num_to_key r (build_dist [(7, 30), (9, 70)]) = Some 9} = 70"
  using DistributionTable_distribution[of "[(7, 30), (9, 70)]" 9] by (simp add: key_to_prob_def)

text \<open>C33: The weighted choice of the statement and expression generators.  Drawing below
  \<open>get_max_prob\<close> through a filtering-out vector filter over a distribution table and looking the
  number up never fails an assertion, and the key has positive weight and is not in the filter.\<close>

theorem choose_key_correct:
  assumes "opt_random_based o1" "fDefault (vf_kinds f)" "filter_out f" "ptable f = Some t"
    "wf_dist t" "distinct (dkeys t)" "0 < get_max t"
    "\<exists>j. \<not> vf_pred o1 f (draws s (drawn s + j) mod nat (get_max t))"
  shows "\<exists>k s1. choose_key o1 f s = Some (k, s1) \<and> u32 k \<notin> set (vs f) \<and> 0 < key_to_prob k t"
proof -
  let ?n = "nat (get_max_prob f)"
  have n: "get_max_prob f = get_max t" "0 < ?n" using assms(4,7) by (simp_all add: get_max_prob_def)
  obtain j where "\<not> rejects (Some (vf_pred o1 f)) (draws s (drawn s + j) mod ?n)"
    using assms(8) n by (auto simp: rejects_def)
  from rnd_upto_total[OF n(2) this] obtain v s1
    where v: "rnd_upto ?n (Some (vf_pred o1 f)) None s = Some (v, s1)" by blast
  have bnd: "v < ?n" "\<not> vf_pred o1 f v" using rnd_upto_SomeD[OF v] by (simp_all add: rejects_def)
  have valid: "valid_filter o1 (vf_kinds f) = Some True" using assms(1,2) by (simp add: valid_filter_def)
  obtain k where k: "rnd_num_to_key (int v) t = Some k"
    using rnd_num_to_key_total[OF assms(5), of "int v"] bnd(1) n(1)
    by (auto simp: zless_nat_eq_int_zless)
  have l: "vf_lookup o1 f (int v) = Some k" using valid assms(4) k by (simp add: vf_lookup_def)
  have "vf_filter o1 f (int v) = Some False"
    using bnd(2) l valid by (auto simp: vf_pred_def vf_filter_def split: option.splits)
  then have "u32 k \<notin> set (vs f)" using vf_filter_choice valid assms(3) l by blast
  moreover have "0 < key_to_prob k t"
    using k rnd_loop_pos[of "int v" "dkeys t" "probs t" k] assms(5,6)
    by (auto simp: rnd_num_to_key_def key_to_prob_def wf_dist_def bind_eq_Some_conv)
  ultimately show ?thesis using v l by (auto simp: choose_key_def)
qed

text \<open>A probability table answers with the next key.  However its entries were added,
  \<open>get_value\<close> below the greatest key returns the value of an entry with the least key above the
  argument.\<close>

lemma ProbabilityTable_get_value:
  assumes "es \<noteq> []" "k < Max (fst ` set es)"
  shows "\<exists>e \<in> set es. get_value k (build_prob_table es) = Some (snd e) \<and> k < fst e \<and>
    (\<forall>x \<in> set es. k < fst x \<longrightarrow> fst e \<le> fst x)"
proof -
  let ?t = "build_prob_table es"
  have st: "sorted_keys (table ?t)" "set (table ?t) = set es"
    using build_prob_table_wf[of es] by (auto simp: wf_prob_table_def)
  have mx: "curr_max_key ?t = Max (fst ` set es)"
    using build_prob_table_wf[of es] assms(1) by (auto simp: wf_prob_table_def)
  have "Max (fst ` set es) \<in> fst ` set es" using assms(1) by (intro Max_in) auto
  then obtain m where "m \<in> set (table ?t)" "fst m > k" using assms(2) st(2) by auto
  then obtain e where e: "List.find (\<lambda>e. fst e > k) (table ?t) = Some e"
    by (metis (mono_tags, lifting) find_None_iff not_None_eq)
  then show ?thesis using find_sorted[OF st(1) e] st(2) mx assms(2)
    by (intro bexI[of _ e]) (auto simp: get_value_def)
qed

definition sample_table :: dist_table where
  "sample_table = build_dist [(0, 10), (1, 40), (2, 50)]"

definition sample_filter :: vector_filter where
  "sample_filter = vf_add 2 (new_vector_filter (Some sample_table) [] True)"

lemma choose_key_correct_witness:
  "\<exists>k s1. choose_key (default_settings cgoptions_zero) sample_filter (rng_of [75, 30]) = Some (k, s1) \<and>
     u32 k \<notin> set (vs sample_filter) \<and> 0 < key_to_prob k sample_table"
proof (rule choose_key_correct)
  show r: "opt_random_based (default_settings cgoptions_zero)"
    by (simp add: default_settings_def set_default_builtin_kinds_def)
  show "wf_dist sample_table" unfolding sample_table_def by (rule wf_build_dist) simp
  show "\<exists>j. \<not> vf_pred (default_settings cgoptions_zero) sample_filter
      (draws (rng_of [75, 30]) (drawn (rng_of [75, 30]) + j) mod nat (get_max sample_table))"
    using r by (intro exI[of _ 1])
      (simp add: vf_pred_def vf_filter_def vf_lookup_def valid_filter_def sample_filter_def vf_add_def
        new_vector_filter_def sample_table_def rng_of_def rnd_num_to_key_def get_max_def u32_def)
qed (simp_all add: sample_filter_def sample_table_def vf_add_def new_vector_filter_def get_max_def)

end
