(* ===== verification/CVQual.thy ===== *)
theory CVQual
  imports Tables
begin

text \<open>
  CVQualifiers.cpp: the const and volatile qualifiers of a variable or an expression, one pair per
  level of indirection (position 0 is the storage at the bottom of the pointer chain, the last
  position the object itself).  The operations that need the type are in the theory of types.
  The probabilities of the Probabilities singleton that the random operations use are the record
  \<open>qual_probs\<close>; of a \<open>CGContext\<close> they only ask whether the effect context is free of side effects.
\<close>

record cvq =
  wildcard :: bool
  accept_stricter :: bool
  is_consts :: "bool list"
  is_volatiles :: "bool list"

definition cvq_new :: "bool list \<Rightarrow> bool list \<Rightarrow> cvq" where
  "cvq_new cs vs1 = \<lparr>wildcard = False, accept_stricter = False, is_consts = cs, is_volatiles = vs1\<rparr>"

definition cvq_wild :: "bool \<Rightarrow> bool \<Rightarrow> cvq" where
  "cvq_wild w a = \<lparr>wildcard = w, accept_stricter = a, is_consts = [], is_volatiles = []\<rparr>"

datatype access = READ | WRITE

record qual_probs =
  RegularConstProb :: nat
  RegularVolatileProb :: nat
  StricterConstProb :: nat
  LooserConstProb :: nat
  FieldConstProb :: nat
  FieldVolatileProb :: nat

section \<open>Comparison\<close>

text \<open>The loop over the levels, for one qualifier: \<open>mine\<close> and \<open>other\<close> are the remaining levels, so
  \<open>depth - i\<close> is their length.\<close>

fun stricter_levels :: "bool list \<Rightarrow> bool list \<Rightarrow> bool" where
  "stricter_levels (m # ms) (v # vs1) =
     (if length (m # ms) > 2 \<and> m \<noteq> v then False
      else if v \<and> \<not> m then False
      else stricter_levels ms vs1)"
| "stricter_levels _ _ = True"

definition stricter_than :: "cvq \<Rightarrow> cvq \<Rightarrow> bool option" where
  "stricter_than q v = do {
     assert_that (length (is_consts q) = length (is_volatiles q));
     if length (is_consts q) \<noteq> length (is_consts v) \<or> length (is_volatiles q) \<noteq> length (is_volatiles v)
     then Some False
     else if \<not> stricter_levels (is_consts q) (is_consts v) then Some False
     else if length (is_consts q) > 1 \<and> is_volatiles q ! 0 \<noteq> is_volatiles v ! 0 then Some False
     else Some (stricter_levels (is_volatiles q) (is_volatiles v)) }"

definition cvq_match :: "cgoptions \<Rightarrow> cvq \<Rightarrow> cvq \<Rightarrow> bool option" where
  "cvq_match o1 q v =
    (if wildcard q then Some True
     else if opt_match_exact_qualifiers o1 then
       Some (is_consts q = is_consts v \<and> is_volatiles q = is_volatiles v)
     else if length (is_consts q) = length (is_consts v) \<and> length (is_consts q) = 1 then
       do { assert_that (length (is_consts q) = length (is_volatiles q)); Some True }
     else if \<not> accept_stricter q then stricter_than q v
     else stricter_than v q)"

section \<open>Levels\<close>

definition add_qualifiers :: "bool \<Rightarrow> bool \<Rightarrow> cvq \<Rightarrow> cvq" where
  "add_qualifiers c v q = q\<lparr>is_consts := is_consts q @ [c], is_volatiles := is_volatiles q @ [v]\<rparr>"

text \<open>\<open>pop_back\<close> of an empty vector is undefined.\<close>

fun remove_qualifiers :: "nat \<Rightarrow> cvq \<Rightarrow> cvq option" where
  "remove_qualifiers 0 q = Some q"
| "remove_qualifiers (Suc len) q =
     (if is_consts q = [] \<or> is_volatiles q = [] then None
      else remove_qualifiers len
        (q\<lparr>is_consts := butlast (is_consts q), is_volatiles := butlast (is_volatiles q)\<rparr>))"

definition indirect_qualifiers :: "int \<Rightarrow> cvq \<Rightarrow> cvq option" where
  "indirect_qualifiers level q =
    (if level = 0 \<or> wildcard q then Some q
     else if level < 0 then do { assert_that (level = -1); Some (add_qualifiers False False q) }
     else remove_qualifiers (nat level) q)"

definition match_indirect :: "cgoptions \<Rightarrow> cvq \<Rightarrow> cvq \<Rightarrow> bool option" where
  "match_indirect o1 q v =
    (if wildcard q then Some True
     else if length (is_consts q) = length (is_consts v) then cvq_match o1 q v
     else let deref = int (length (is_consts v)) - int (length (is_consts q)) in
       if deref < -1 then Some False
       else do { v' \<leftarrow> indirect_qualifiers deref v; cvq_match o1 q v' })"

definition is_const_after_deref :: "int \<Rightarrow> cvq \<Rightarrow> bool option" where
  "is_const_after_deref deref_level q =
    (if deref_level < 0 then Some False
     else vec_at (rev (is_consts q)) (nat deref_level))"

definition is_volatile_after_deref :: "int \<Rightarrow> cvq \<Rightarrow> bool option" where
  "is_volatile_after_deref deref_level q =
    (if deref_level < 0 then Some False
     else vec_at (rev (is_volatiles q)) (nat deref_level))"

definition cvq_is_const :: "cvq \<Rightarrow> bool option" where
  "cvq_is_const q = is_const_after_deref 0 q"

definition cvq_is_volatile :: "cvq \<Rightarrow> bool option" where
  "cvq_is_volatile q = is_volatile_after_deref 0 q"

definition is_storage_const :: "cvq \<Rightarrow> bool option" where
  "is_storage_const q = vec_at (is_consts q) 0"

definition is_storage_volatile :: "cvq \<Rightarrow> bool option" where
  "is_storage_volatile q = vec_at (is_volatiles q) 0"

text \<open>Writing position \<open>len - pos - 1\<close>; nothing happens for an empty vector, a \<open>pos\<close> beyond the
  length is undefined.\<close>

definition set_from_end :: "bool \<Rightarrow> nat \<Rightarrow> bool list \<Rightarrow> bool list option" where
  "set_from_end b pos bs =
    (if bs = [] then Some bs
     else if pos < length bs then Some (bs[length bs - pos - 1 := b])
     else None)"

definition set_const :: "bool \<Rightarrow> nat \<Rightarrow> cvq \<Rightarrow> cvq option" where
  "set_const b pos q = map_option (\<lambda>cs. q\<lparr>is_consts := cs\<rparr>) (set_from_end b pos (is_consts q))"

definition set_volatile :: "bool \<Rightarrow> nat \<Rightarrow> cvq \<Rightarrow> cvq option" where
  "set_volatile b pos q = map_option (\<lambda>vs1. q\<lparr>is_volatiles := vs1\<rparr>) (set_from_end b pos (is_volatiles q))"

definition cvq_restrict :: "access \<Rightarrow> bool \<Rightarrow> cvq \<Rightarrow> cvq option" where
  "cvq_restrict acc side_effect_free q = do {
     q1 \<leftarrow> (if acc = WRITE then set_const False 0 q else Some q);
     if \<not> side_effect_free then set_volatile False 0 q1 else Some q1 }"

section \<open>Random qualifiers\<close>

definition make_scalar :: "bool \<Rightarrow> bool list \<Rightarrow> bool list" where
  "make_scalar pointers_ok bs =
    (if pointers_ok then bs
     else case bs of [] \<Rightarrow> [] | b # rest \<Rightarrow> b # map (\<lambda>_. False) rest)"

definition make_scalar_volatiles :: "cgoptions \<Rightarrow> bool list \<Rightarrow> bool list" where
  "make_scalar_volatiles o1 vs1 = make_scalar (opt_volatile_pointers o1) vs1"

definition make_scalar_consts :: "cgoptions \<Rightarrow> bool list \<Rightarrow> bool list" where
  "make_scalar_consts o1 cs = make_scalar (opt_const_pointers o1) cs"

text \<open>One loop for the four random variants.  A level is kept as it is, forced to false, or decided
  by a coin of probability \<open>p\<close>; an error raised by the coin ends the loop with the levels so far
  (ERROR_GUARD).\<close>

datatype level_choice = Keep | Force_False | Toss

fun random_levels :: "nat \<Rightarrow> (level_choice \<times> bool) list \<Rightarrow> rng \<Rightarrow> (bool list \<times> rng) option" where
  "random_levels p [] s = Some ([], s)"
| "random_levels p ((c, b) # rest) s =
    (case c of
       Keep \<Rightarrow> do { (bs, s1) \<leftarrow> random_levels p rest s; Some (b # bs, s1) }
     | Force_False \<Rightarrow> do { (bs, s1) \<leftarrow> random_levels p rest s; Some (False # bs, s1) }
     | Toss \<Rightarrow> do {
         (index, s1) \<leftarrow> rnd_flipcoin p None s;
         if r_error s1 \<noteq> 0 then Some ([], s1)
         else do { (bs, s2) \<leftarrow> random_levels p rest s1; Some (index # bs, s2) } })"

fun stricter_const_choices :: "cgoptions \<Rightarrow> bool list \<Rightarrow> bool list \<Rightarrow> (level_choice \<times> bool) list option" where
  "stricter_const_choices o1 [] vs1 = Some []"
| "stricter_const_choices o1 (c # cs) vs1 =
    (if c \<or> length (c # cs) > 2 then
       map_option ((#) (Keep, c)) (stricter_const_choices o1 cs (tl vs1))
     else (case vs1 of
        [] \<Rightarrow> None
      | v # vs2 \<Rightarrow>
        if v \<and> \<not> opt_allow_const_volatile o1
        then map_option ((#) (Force_False, c)) (stricter_const_choices o1 cs vs2)
        else map_option ((#) (Toss, c)) (stricter_const_choices o1 cs vs2)))"

definition random_stricter_consts :: "cgoptions \<Rightarrow> qual_probs \<Rightarrow> cvq \<Rightarrow> rng \<Rightarrow> (bool list \<times> rng) option" where
  "random_stricter_consts o1 pr q s =
    (if opt_match_exact_qualifiers o1 then Some (is_consts q, s)
     else do { ch \<leftarrow> stricter_const_choices o1 (is_consts q) (is_volatiles q);
               random_levels (StricterConstProb pr) ch s })"

text \<open>\<open>locked\<close> is the test \<open>i == 0 \<and> depth > 1\<close>.\<close>

fun stricter_volatile_choices :: "cgoptions \<Rightarrow> bool \<Rightarrow> bool list \<Rightarrow> bool list \<Rightarrow> (level_choice \<times> bool) list option" where
  "stricter_volatile_choices o1 locked [] cs = Some []"
| "stricter_volatile_choices o1 locked (v # vs1) cs =
    (if v \<or> locked \<or> length (v # vs1) > 2 then
       map_option ((#) (Keep, v)) (stricter_volatile_choices o1 False vs1 (tl cs))
     else (case cs of
        [] \<Rightarrow> None
      | c # cs2 \<Rightarrow>
        if c \<and> \<not> opt_allow_const_volatile o1
        then map_option ((#) (Force_False, v)) (stricter_volatile_choices o1 False vs1 cs2)
        else map_option ((#) (Toss, v)) (stricter_volatile_choices o1 False vs1 cs2)))"

definition random_stricter_volatiles :: "cgoptions \<Rightarrow> qual_probs \<Rightarrow> cvq \<Rightarrow> rng \<Rightarrow> (bool list \<times> rng) option" where
  "random_stricter_volatiles o1 pr q s =
    (if opt_match_exact_qualifiers o1 then Some (is_volatiles q, s)
     else do { ch \<leftarrow> stricter_volatile_choices o1 (length (is_volatiles q) > 1) (is_volatiles q) (is_consts q);
               (vs1, s1) \<leftarrow> random_levels (RegularVolatileProb pr) ch s;
               Some (if length vs1 = length ch then make_scalar_volatiles o1 vs1 else vs1, s1) })"

fun looser_choices :: "bool \<Rightarrow> bool list \<Rightarrow> (level_choice \<times> bool) list" where
  "looser_choices locked [] = []"
| "looser_choices locked (b # bs) =
    ((if \<not> b \<or> locked \<or> length (b # bs) > 2 then Keep else Toss), b) # looser_choices False bs"

definition random_looser_consts :: "cgoptions \<Rightarrow> qual_probs \<Rightarrow> cvq \<Rightarrow> rng \<Rightarrow> (bool list \<times> rng) option" where
  "random_looser_consts o1 pr q s =
    (if opt_match_exact_qualifiers o1 then Some (is_consts q, s)
     else random_levels (LooserConstProb pr) (looser_choices False (is_consts q)) s)"

definition random_looser_volatiles :: "cgoptions \<Rightarrow> qual_probs \<Rightarrow> cvq \<Rightarrow> rng \<Rightarrow> (bool list \<times> rng) option" where
  "random_looser_volatiles o1 pr q s =
    (if opt_match_exact_qualifiers o1 then Some (is_volatiles q, s)
     else do { (vs1, s1) \<leftarrow> random_levels (RegularVolatileProb pr)
                 (looser_choices (length (is_volatiles q) > 1) (is_volatiles q)) s;
               Some (if length vs1 = length (is_volatiles q) then make_scalar_volatiles o1 vs1 else vs1, s1) })"

definition set_last_false :: "bool list \<Rightarrow> bool list option" where
  "set_last_false bs = (if bs = [] then None else Some (butlast bs @ [False]))"

text \<open>The common body of \<open>random_qualifiers(no_volatile, access, cg_context)\<close> and
  \<open>random_loose_qualifiers\<close>, which differ in the choice of the stricter or looser levels.\<close>

definition random_qualifiers_with ::
  "(cvq \<Rightarrow> rng \<Rightarrow> (bool list \<times> rng) option) \<Rightarrow> (cvq \<Rightarrow> rng \<Rightarrow> (bool list \<times> rng) option) \<Rightarrow>
   cgoptions \<Rightarrow> bool \<Rightarrow> access \<Rightarrow> bool \<Rightarrow> cvq \<Rightarrow> rng \<Rightarrow> (cvq \<times> rng) option" where
  "random_qualifiers_with rvols rconsts o1 no_volatile acc side_effect_free q s =
    (if wildcard q then Some (cvq_wild True (accept_stricter q), s)
     else do {
       (vols, s1) \<leftarrow> (if no_volatile then Some (map (\<lambda>_. False) (is_volatiles q), s) else rvols q s);
       if r_error s1 \<noteq> 0 then Some (cvq_new [] vols, s1)
       else do {
         vols \<leftarrow> (if \<not> no_volatile \<and> \<not> side_effect_free then set_last_false vols else Some vols);
         let vols = make_scalar_volatiles o1 vols;
         (consts1, s2) \<leftarrow> rconsts q s1;
         let consts1 = make_scalar_consts o1 consts1;
         if r_error s2 \<noteq> 0 then Some (cvq_new consts1 vols, s2)
         else do {
           consts1 \<leftarrow> (if acc = WRITE then set_last_false consts1 else Some consts1);
           Some (cvq_new consts1 vols, s2) } } })"

definition random_qualifiers_like ::
  "cgoptions \<Rightarrow> qual_probs \<Rightarrow> bool \<Rightarrow> access \<Rightarrow> bool \<Rightarrow> cvq \<Rightarrow> rng \<Rightarrow> (cvq \<times> rng) option" where
  "random_qualifiers_like o1 pr no_volatile acc side_effect_free q s =
     random_qualifiers_with
       (\<lambda>q. if \<not> accept_stricter q then random_looser_volatiles o1 pr q else random_stricter_volatiles o1 pr q)
       (\<lambda>q. if \<not> accept_stricter q then random_looser_consts o1 pr q else random_stricter_consts o1 pr q)
       o1 no_volatile acc side_effect_free q s"

definition random_loose_qualifiers ::
  "cgoptions \<Rightarrow> qual_probs \<Rightarrow> bool \<Rightarrow> access \<Rightarrow> bool \<Rightarrow> cvq \<Rightarrow> rng \<Rightarrow> (cvq \<times> rng) option" where
  "random_loose_qualifiers o1 pr no_volatile acc side_effect_free q s =
     random_qualifiers_with (random_looser_volatiles o1 pr) (random_looser_consts o1 pr)
       o1 no_volatile acc side_effect_free q s"

definition random_add_qualifiers :: "cgoptions \<Rightarrow> qual_probs \<Rightarrow> bool \<Rightarrow> cvq \<Rightarrow> rng \<Rightarrow> (cvq \<times> rng) option" where
  "random_add_qualifiers o1 pr no_volatile q s =
    (if opt_match_exact_qualifiers o1 then Some (add_qualifiers False False q, s)
     else do {
       (c, s1) \<leftarrow> (if \<not> opt_const_pointers o1 then Some (False, s) else rnd_flipcoin (RegularConstProb pr) None s);
       if r_error s1 \<noteq> 0 then Some (q, s1)
       else do {
         (v, s2) \<leftarrow> (if no_volatile \<or> \<not> opt_volatile_pointers o1 then Some (False, s1)
                    else rnd_flipcoin (RegularVolatileProb pr) None s1);
         if r_error s2 \<noteq> 0 then Some (q, s2)
         else Some (add_qualifiers c v q, s2) } })"

section \<open>Output\<close>

text \<open>\<open>base_text\<close> is the printed base type.\<close>

fun output_levels :: "cgoptions \<Rightarrow> string \<Rightarrow> nat \<Rightarrow> bool list \<Rightarrow> bool list \<Rightarrow> string option" where
  "output_levels o1 base_text i [] vs1 = Some []"
| "output_levels o1 base_text i (c # cs) [] = None"
| "output_levels o1 base_text i (c # cs) (v # vs1) = do {
     assert_that (c \<longrightarrow> opt_consts o1);
     assert_that (v \<longrightarrow> opt_volatiles o1);
     rest \<leftarrow> output_levels o1 base_text (Suc i) cs vs1;
     Some ((if i > 0 then ''*'' else []) @
           (if c then (if i > 0 then '' '' else []) @ ''const '' else []) @
           (if v then (if i > 0 then '' '' else []) @ ''volatile '' else []) @
           (if i = 0 then base_text @ '' '' else []) @ rest) }"

definition OutputFirstQuals :: "cgoptions \<Rightarrow> cvq \<Rightarrow> string option" where
  "OutputFirstQuals o1 q = do {
     let c = (is_consts q \<noteq> [] \<and> is_consts q ! 0);
     let v = (is_volatiles q \<noteq> [] \<and> is_volatiles q ! 0);
     assert_that (c \<longrightarrow> opt_consts o1);
     assert_that (v \<longrightarrow> opt_volatiles o1);
     Some ((if c then ''const '' else []) @ (if v then ''volatile '' else [])) }"

section \<open>The order on qualifiers\<close>

definition wf_cvq :: "cvq \<Rightarrow> bool" where
  "wf_cvq q \<longleftrightarrow> length (is_consts q) = length (is_volatiles q) \<and> is_consts q \<noteq> []"

lemma stricter_levels_refl [simp]: "stricter_levels bs bs"
  by (induction bs) auto

lemma stricter_levels_Cons:
  "stricter_levels (m # ms) (v # vs1) \<longleftrightarrow>
     (2 \<le> length ms \<longrightarrow> m = v) \<and> (v \<longrightarrow> m) \<and> stricter_levels ms vs1"
  by auto

lemma stricter_levels_trans:
  "length as = length bs \<Longrightarrow> length bs = length cs \<Longrightarrow>
   stricter_levels as bs \<Longrightarrow> stricter_levels bs cs \<Longrightarrow> stricter_levels as cs"
proof (induction as arbitrary: bs cs)
  case (Cons a as)
  obtain b bs' c cs' where "bs = b # bs'" "cs = c # cs'"
    using Cons.prems(1,2) by (cases bs; cases cs; simp)
  then show ?case using Cons.IH[of bs' cs'] Cons.prems by (auto split: if_splits)
qed simp

lemma stricter_levels_antisym:
  "length as = length bs \<Longrightarrow> stricter_levels as bs \<Longrightarrow> stricter_levels bs as \<Longrightarrow> as = bs"
proof (induction as arbitrary: bs)
  case (Cons a as)
  obtain b bs' where b: "bs = b # bs'" using Cons.prems(1) by (cases bs) auto
  have "a = b" "stricter_levels as bs'" "stricter_levels bs' as"
    using Cons.prems(2,3) unfolding b stricter_levels_Cons by blast+
  moreover have "length as = length bs'" using Cons.prems(1) b by simp
  ultimately show ?case using Cons.IH b by blast
qed simp

text \<open>\<open>stricter_than\<close> as a relation on well-formed qualifiers.\<close>

definition stricter_cvq :: "cvq \<Rightarrow> cvq \<Rightarrow> bool" where
  "stricter_cvq q v \<longleftrightarrow>
     length (is_consts q) = length (is_consts v) \<and> length (is_volatiles q) = length (is_volatiles v) \<and>
     stricter_levels (is_consts q) (is_consts v) \<and> stricter_levels (is_volatiles q) (is_volatiles v) \<and>
     (length (is_consts q) > 1 \<longrightarrow> is_volatiles q ! 0 = is_volatiles v ! 0)"

lemma stricter_than_iff:
  "wf_cvq q \<Longrightarrow> stricter_than q v = Some (stricter_cvq q v)"
  by (auto simp: stricter_than_def wf_cvq_def stricter_cvq_def)

section \<open>Random levels\<close>

lemma random_levels_Cons:
  assumes "random_levels p ((c, b) # ch) s = Some (bs, t)" "r_error s = 0"
  shows "\<exists>b' bs' s1. bs = b' # bs' \<and> random_levels p ch s1 = Some (bs', t) \<and> r_error s1 = 0 \<and>
    (c = Keep \<longrightarrow> b' = b) \<and> (c = Force_False \<longrightarrow> \<not> b')"
  using assms by (cases c) (auto simp: bind_eq_Some_conv dest: rnd_flipcoin_SomeD split: if_splits)

lemma random_levels_SomeD:
  "random_levels p ch s = Some (bs, t) \<Longrightarrow> r_error s = 0 \<Longrightarrow> r_error t = 0 \<and> length bs = length ch"
proof (induction ch arbitrary: s bs)
  case (Cons a ch)
  obtain c b where a: "a = (c, b)" by force
  obtain b' bs' s1 where "bs = b' # bs'" "random_levels p ch s1 = Some (bs', t)" "r_error s1 = 0"
    using random_levels_Cons[of p c b ch s bs t] Cons.prems a by blast
  then show ?case using Cons.IH[of s1 bs'] by simp
qed simp

lemma random_levels_total:
  "p \<le> 100 \<Longrightarrow> \<exists>bs t. random_levels p ch s = Some (bs, t)"
proof (induction ch arbitrary: s)
  case (Cons a rest)
  obtain c b where a: "a = (c, b)" by force
  obtain i s1 where f: "rnd_flipcoin p None s = Some (i, s1)" using rnd_flipcoin_total Cons.prems by blast
  obtain bs t where "random_levels p rest s1 = Some (bs, t)" using Cons by blast
  moreover obtain bs2 t2 where "random_levels p rest s = Some (bs2, t2)" using Cons by blast
  ultimately show ?case using a f by (cases c) auto
qed simp

lemma looser_levels:
  "random_levels p (looser_choices locked bs) s = Some (ls, t) \<Longrightarrow> r_error s = 0 \<Longrightarrow>
   length ls = length bs \<and> stricter_levels bs ls \<and> (locked \<and> bs \<noteq> [] \<longrightarrow> ls ! 0 = bs ! 0)"
proof (induction bs arbitrary: locked s ls)
  case (Cons b bs)
  let ?c = "if \<not> b \<or> locked \<or> length (b # bs) > 2 then Keep else Toss"
  obtain b' ls' s1 where l: "ls = b' # ls'" "random_levels p (looser_choices False bs) s1 = Some (ls', t)"
    "r_error s1 = 0" "?c = Keep \<longrightarrow> b' = b"
    using random_levels_Cons[of p ?c b "looser_choices False bs" s ls t] Cons.prems
    by (metis looser_choices.simps(2))
  have "length ls' = length bs" "stricter_levels bs ls'" using Cons.IH[OF l(2,3)] by simp_all
  then show ?case using l(1,4) by (cases b; cases locked; cases "length (b # bs) > 2") auto
qed simp

lemma stricter_volatile_levels:
  "stricter_volatile_choices o1 locked vs1 cs = Some ch \<Longrightarrow>
   random_levels p ch s = Some (ls, t) \<Longrightarrow> r_error s = 0 \<Longrightarrow>
   length ls = length vs1 \<and> stricter_levels ls vs1 \<and> (locked \<and> vs1 \<noteq> [] \<longrightarrow> ls ! 0 = vs1 ! 0)"
proof (induction vs1 arbitrary: locked cs ch s ls)
  case (Cons v vs1)
  define k where "k = (v \<or> locked \<or> length (v # vs1) > 2)"
  obtain c ch' cs' where ch: "ch = (c, v) # ch'" "stricter_volatile_choices o1 False vs1 cs' = Some ch'"
    "k \<longrightarrow> c = Keep" "c = Keep \<longrightarrow> k"
    using Cons.prems(1) by (auto simp: k_def split: if_splits list.splits)
  obtain b' ls' s1 where l: "ls = b' # ls'" "random_levels p ch' s1 = Some (ls', t)" "r_error s1 = 0"
    "c = Keep \<longrightarrow> b' = v"
    using random_levels_Cons[of p c v ch' s ls t] Cons.prems(2,3) ch(1) by blast
  have i: "length ls' = length vs1" "stricter_levels ls' vs1" using Cons.IH[OF ch(2) l(2,3)] by simp_all
  show ?case using i l(1,4) ch(3) by (auto simp: k_def)
qed simp

lemma stricter_const_levels:
  "stricter_const_choices o1 cs vs1 = Some ch \<Longrightarrow>
   random_levels p ch s = Some (ls, t) \<Longrightarrow> r_error s = 0 \<Longrightarrow>
   length ls = length cs \<and> stricter_levels ls cs"
proof (induction cs arbitrary: vs1 ch s ls)
  case (Cons v cs)
  define k where "k = (v \<or> length (v # cs) > 2)"
  obtain c ch' vs' where ch: "ch = (c, v) # ch'" "stricter_const_choices o1 cs vs' = Some ch'"
    "k \<longrightarrow> c = Keep"
    using Cons.prems(1) by (auto simp: k_def split: if_splits list.splits)
  obtain b' ls' s1 where l: "ls = b' # ls'" "random_levels p ch' s1 = Some (ls', t)" "r_error s1 = 0"
    "c = Keep \<longrightarrow> b' = v"
    using random_levels_Cons[of p c v ch' s ls t] Cons.prems(2,3) ch(1) by blast
  have i: "length ls' = length cs" "stricter_levels ls' cs" using Cons.IH[OF ch(2) l(2,3)] by simp_all
  show ?case using i l(1,4) ch(3) by (auto simp: k_def)
qed simp

section \<open>Scalar qualifiers\<close>

definition scalar_ok :: "bool \<Rightarrow> bool list \<Rightarrow> bool" where
  "scalar_ok pointers_ok bs \<longleftrightarrow> pointers_ok \<or> (\<forall>b \<in> set (tl bs). \<not> b)"

lemma length_make_scalar [simp]: "length (make_scalar p bs) = length bs"
  by (simp add: make_scalar_def split: list.splits)

lemma make_scalar_nth0 [simp]: "bs \<noteq> [] \<Longrightarrow> make_scalar p bs ! 0 = bs ! 0"
  by (simp add: make_scalar_def split: list.splits)

lemma all_False_map: "\<forall>b \<in> set bs. \<not> b \<Longrightarrow> map (\<lambda>_. False) bs = bs"
  by (rule map_idI) auto

lemma make_scalar_id: "scalar_ok p bs \<Longrightarrow> make_scalar p bs = bs"
  by (cases bs) (auto simp: make_scalar_def scalar_ok_def all_False_map)

lemma stricter_levels_False:
  "length ls = length bs \<Longrightarrow> stricter_levels bs ls \<Longrightarrow> \<forall>b \<in> set bs. \<not> b \<Longrightarrow> \<forall>b \<in> set ls. \<not> b"
proof (induction bs arbitrary: ls)
  case (Cons b bs)
  then show ?case by (cases ls) (auto split: if_splits)
qed simp

lemma looser_scalar:
  assumes "length ls = length bs" "stricter_levels bs ls" "scalar_ok p bs"
  shows "make_scalar p ls = ls"
proof (rule make_scalar_id)
  show "scalar_ok p ls"
  proof (cases bs)
    case (Cons b bs')
    then obtain l ls' where "ls = l # ls'" using assms(1) by (cases ls) auto
    then show ?thesis using assms Cons stricter_levels_False[of ls' bs']
      by (auto simp: scalar_ok_def split: if_splits)
  qed (use assms in \<open>simp add: scalar_ok_def\<close>)
qed

lemma stricter_all_False: "length ls = length bs \<Longrightarrow> \<forall>b \<in> set bs. \<not> b \<Longrightarrow> stricter_levels (map (\<lambda>_. False) ls) bs"
  by (metis all_False_map map_map length_map map_replicate_const stricter_levels_refl)

lemma stricter_scalar:
  assumes "length ls = length bs" "stricter_levels ls bs" "scalar_ok p bs"
  shows "stricter_levels (make_scalar p ls) bs"
proof (cases "p \<or> bs = []")
  case False
  then obtain b bs' l ls' where c: "bs = b # bs'" "ls = l # ls'"
    using assms(1) by (cases bs; cases ls; auto)
  then have "\<forall>b \<in> set bs'. \<not> b" using assms(3) False by (simp add: scalar_ok_def)
  then show ?thesis using assms c False stricter_all_False[of ls' bs']
    by (auto simp: make_scalar_def split: if_splits)
qed (use assms in \<open>auto simp: make_scalar_def split: list.splits\<close>)

lemma looser_last_False:
  "length ls = length bs \<Longrightarrow> stricter_levels bs ls \<Longrightarrow> stricter_levels bs (butlast ls @ [False]) \<or> bs = []"
proof (induction bs arbitrary: ls)
  case (Cons b bs)
  then obtain l ls' where ls: "ls = l # ls'" by (cases ls) auto
  show ?case
  proof (cases bs)
    case Nil
    then show ?thesis using Cons.prems ls by simp
  next
    case (Cons b2 bs2)
    then show ?thesis using Cons.IH[of ls'] Cons.prems ls by (cases ls') (auto split: if_splits)
  qed
qed simp

section \<open>Random qualifiers match\<close>

text \<open>\<open>dir_levels strict old new\<close>: the levels \<open>new\<close> may stand where \<open>old\<close> is asked for, being
  stricter or looser.\<close>

definition dir_levels :: "bool \<Rightarrow> bool list \<Rightarrow> bool list \<Rightarrow> bool" where
  "dir_levels strict old new \<longleftrightarrow> length new = length old \<and>
     (if strict then stricter_levels new old else stricter_levels old new)"

definition good_probs :: "qual_probs \<Rightarrow> bool" where
  "good_probs pr \<longleftrightarrow> RegularConstProb pr \<le> 100 \<and> RegularVolatileProb pr \<le> 100 \<and> StricterConstProb pr \<le> 100 \<and>
     LooserConstProb pr \<le> 100 \<and> FieldConstProb pr \<le> 100 \<and> FieldVolatileProb pr \<le> 100"

lemma stricter_const_choices_total:
  "length cs \<le> length vs1 \<Longrightarrow> \<exists>ch. stricter_const_choices o1 cs vs1 = Some ch"
proof (induction cs arbitrary: vs1)
  case (Cons c cs)
  then obtain v vs' where v: "vs1 = v # vs'" by (cases vs1) auto
  obtain ch where "stricter_const_choices o1 cs vs' = Some ch" using Cons.IH[of vs'] Cons.prems v by auto
  then show ?case using v by auto
qed simp

lemma stricter_volatile_choices_total:
  "length vs1 \<le> length cs \<Longrightarrow> \<exists>ch. stricter_volatile_choices o1 locked vs1 cs = Some ch"
proof (induction vs1 arbitrary: cs locked)
  case (Cons v vs1)
  then obtain c cs' where c: "cs = c # cs'" by (cases cs) auto
  obtain ch where "stricter_volatile_choices o1 False vs1 cs' = Some ch" using Cons.IH[of cs' False] Cons.prems c by auto
  then show ?case using c by auto
qed simp

text \<open>The four random routines, with their totality.\<close>

lemma random_looser_consts_spec:
  assumes "good_probs pr" "r_error s = 0"
  shows "\<exists>ls t. random_looser_consts o1 pr q s = Some (ls, t) \<and> r_error t = 0 \<and>
    dir_levels False (is_consts q) ls \<and> (opt_match_exact_qualifiers o1 \<longrightarrow> ls = is_consts q)"
proof (cases "opt_match_exact_qualifiers o1")
  case False
  obtain ls t where l: "random_levels (LooserConstProb pr) (looser_choices False (is_consts q)) s = Some (ls, t)"
    using random_levels_total[of "LooserConstProb pr"] assms(1) by (force simp: good_probs_def)
  then show ?thesis using looser_levels[OF l assms(2)] random_levels_SomeD[OF l assms(2)] False
    by (auto simp: random_looser_consts_def dir_levels_def)
qed (use assms in \<open>simp add: random_looser_consts_def dir_levels_def\<close>)

lemma random_stricter_consts_spec:
  assumes "good_probs pr" "r_error s = 0" "wf_cvq q"
  shows "\<exists>ls t. random_stricter_consts o1 pr q s = Some (ls, t) \<and> r_error t = 0 \<and>
    dir_levels True (is_consts q) ls \<and> (opt_match_exact_qualifiers o1 \<longrightarrow> ls = is_consts q)"
proof (cases "opt_match_exact_qualifiers o1")
  case False
  obtain ch where ch: "stricter_const_choices o1 (is_consts q) (is_volatiles q) = Some ch"
    using stricter_const_choices_total assms(3) by (metis order_refl wf_cvq_def)
  obtain ls t where l: "random_levels (StricterConstProb pr) ch s = Some (ls, t)"
    using random_levels_total[of "StricterConstProb pr"] assms(1) by (force simp: good_probs_def)
  then show ?thesis
    using stricter_const_levels[OF ch l assms(2)] random_levels_SomeD[OF l assms(2)] False ch
    by (auto simp: random_stricter_consts_def dir_levels_def)
qed (use assms in \<open>simp add: random_stricter_consts_def dir_levels_def\<close>)

lemma random_looser_volatiles_spec:
  assumes "good_probs pr" "r_error s = 0" "scalar_ok (opt_volatile_pointers o1) (is_volatiles q)"
  shows "\<exists>ls t. random_looser_volatiles o1 pr q s = Some (ls, t) \<and> r_error t = 0 \<and>
    dir_levels False (is_volatiles q) ls \<and> (length ls > 1 \<longrightarrow> ls ! 0 = is_volatiles q ! 0) \<and>
    (opt_match_exact_qualifiers o1 \<longrightarrow> ls = is_volatiles q)"
proof (cases "opt_match_exact_qualifiers o1")
  case False
  let ?lk = "length (is_volatiles q) > 1"
  obtain ls t where l: "random_levels (RegularVolatileProb pr) (looser_choices ?lk (is_volatiles q)) s = Some (ls, t)"
    using random_levels_total[of "RegularVolatileProb pr"] assms(1) by (force simp: good_probs_def)
  note lv = looser_levels[OF l assms(2)]
  then have "make_scalar_volatiles o1 ls = ls"
    using looser_scalar assms(3) by (simp add: make_scalar_volatiles_def)
  then show ?thesis using l lv random_levels_SomeD[OF l assms(2)] False
    by (auto simp: random_looser_volatiles_def dir_levels_def)
qed (use assms in \<open>simp add: random_looser_volatiles_def dir_levels_def\<close>)

lemma random_stricter_volatiles_spec:
  assumes "good_probs pr" "r_error s = 0" "wf_cvq q" "scalar_ok (opt_volatile_pointers o1) (is_volatiles q)"
  shows "\<exists>ls t. random_stricter_volatiles o1 pr q s = Some (ls, t) \<and> r_error t = 0 \<and>
    dir_levels True (is_volatiles q) ls \<and> (length ls > 1 \<longrightarrow> ls ! 0 = is_volatiles q ! 0) \<and>
    (opt_match_exact_qualifiers o1 \<longrightarrow> ls = is_volatiles q)"
proof (cases "opt_match_exact_qualifiers o1")
  case False
  let ?lk = "length (is_volatiles q) > 1"
  obtain ch where ch: "stricter_volatile_choices o1 ?lk (is_volatiles q) (is_consts q) = Some ch"
    using stricter_volatile_choices_total assms(3) by (metis order_refl wf_cvq_def)
  obtain ls t where l: "random_levels (RegularVolatileProb pr) ch s = Some (ls, t)"
    using random_levels_total[of "RegularVolatileProb pr"] assms(1) by (force simp: good_probs_def)
  note lv = stricter_volatile_levels[OF ch l assms(2)]
  have ne: "is_volatiles q \<noteq> []" using assms(3) by (auto simp: wf_cvq_def)
  have "stricter_levels (make_scalar_volatiles o1 ls) (is_volatiles q)"
    using stricter_scalar lv assms(4) by (simp add: make_scalar_volatiles_def)
  moreover have "make_scalar_volatiles o1 ls ! 0 = ls ! 0" "length (make_scalar_volatiles o1 ls) = length ls"
    using lv ne by (auto simp: make_scalar_volatiles_def intro!: make_scalar_nth0)
  ultimately show ?thesis using l lv ch random_levels_SomeD[OF l assms(2)] False ne
    by (auto simp: random_stricter_volatiles_def dir_levels_def)
qed (use assms in \<open>simp add: random_stricter_volatiles_def dir_levels_def\<close>)

lemma dir_levels_last_False:
  assumes "dir_levels strict old new" "old \<noteq> []" "strict \<longrightarrow> \<not> last old"
  shows "dir_levels strict old (butlast new @ [False])"
proof (cases strict)
  case False
  then show ?thesis using assms looser_last_False[of new old]
    by (auto simp: dir_levels_def)
next
  case True
  have "length new = length old" "stricter_levels new old" "\<not> last old"
    using assms True by (simp_all add: dir_levels_def)
  then have "stricter_levels (butlast new @ [False]) old"
    using assms(2)
  proof (induction old arbitrary: new)
    case (Cons b bs)
    obtain l ls where ls: "new = l # ls" using Cons.prems(1) by (cases new) auto
    show ?case
    proof (cases bs)
      case Nil
      then show ?thesis using Cons.prems ls by simp
    next
      case (Cons b2 bs2)
      then obtain l2 ls2 where ls2: "ls = l2 # ls2" using Cons.prems(1) ls by (cases ls) auto
      have "stricter_levels (butlast ls @ [False]) bs"
        using Cons.IH[of ls] Cons.prems ls Cons by (auto split: if_splits)
      then show ?thesis using Cons.prems ls ls2 Cons by (auto split: if_splits)
    qed
  qed simp
  then show ?thesis using True assms by (auto simp: dir_levels_def)
qed

lemma dir_levels_refl [simp]: "dir_levels strict bs bs"
  by (simp add: dir_levels_def)

lemma dir_make_scalar:
  "dir_levels strict old new \<Longrightarrow> scalar_ok p old \<Longrightarrow> dir_levels strict old (make_scalar p new)"
  using looser_scalar[of new old p] stricter_scalar[of new old p]
  by (auto simp: dir_levels_def split: if_splits)

lemma cvq_match_dir:
  assumes "wf_cvq q" "\<not> wildcard q" "\<not> opt_match_exact_qualifiers o1"
    "dir_levels (accept_stricter q) (is_consts q) cs" "dir_levels (accept_stricter q) (is_volatiles q) vs1"
    "length vs1 > 1 \<longrightarrow> vs1 ! 0 = is_volatiles q ! 0"
  shows "cvq_match o1 q (cvq_new cs vs1) = Some True"
proof -
  have w: "wf_cvq (cvq_new cs vs1)" using assms by (auto simp: wf_cvq_def cvq_new_def dir_levels_def)
  show ?thesis
    using assms stricter_than_iff[OF assms(1)] stricter_than_iff[OF w]
    by (auto simp: cvq_match_def dir_levels_def stricter_cvq_def cvq_new_def wf_cvq_def split: if_splits)
qed

text \<open>What a caller of the random routines has to provide: the pointer levels are free of the
  qualifiers the options forbid there, and where the result may not be looser than the original the last
  level is not one the context forces off.\<close>

definition like_ok :: "cgoptions \<Rightarrow> bool \<Rightarrow> access \<Rightarrow> bool \<Rightarrow> cvq \<Rightarrow> bool" where
  "like_ok o1 no_volatile acc side_effect_free q \<longleftrightarrow>
     scalar_ok (opt_volatile_pointers o1) (is_volatiles q) \<and> scalar_ok (opt_const_pointers o1) (is_consts q) \<and>
     (no_volatile \<longrightarrow> (\<forall>v \<in> set (is_volatiles q). \<not> v)) \<and>
     (accept_stricter q \<or> opt_match_exact_qualifiers o1 \<longrightarrow>
        (side_effect_free \<or> \<not> last (is_volatiles q)) \<and> (acc = READ \<or> \<not> last (is_consts q)))"

lemma set_last_false_Some [simp]: "bs \<noteq> [] \<Longrightarrow> set_last_false bs = Some (butlast bs @ [False])"
  by (simp add: set_last_false_def)

lemma butlast_False_id: "bs \<noteq> [] \<Longrightarrow> \<not> last bs \<Longrightarrow> butlast bs @ [False] = bs"
  by (metis (full_types) append_butlast_last_id)

lemma butlast_nth0: "length bs > 1 \<Longrightarrow> (butlast bs @ [b]) ! 0 = bs ! 0"
  by (simp add: nth_append nth_butlast)

text \<open>One of the two halves of \<open>random_qualifiers_with\<close>: the levels before and after the context
  has forced the last one off.\<close>

lemma forced_levels:
  assumes "dir_levels strict old new" "old \<noteq> []" "length new > 1 \<longrightarrow> new ! 0 = old ! 0"
    "scalar_ok p old" "exact \<longrightarrow> new = old" "strict \<or> exact \<longrightarrow> ok \<or> \<not> last old"
  shows "\<exists>new'. (if \<not> ok then set_last_false new else Some new) = Some new' \<and>
     dir_levels strict old (make_scalar p new') \<and>
     (length new' > 1 \<longrightarrow> make_scalar p new' ! 0 = old ! 0) \<and> (exact \<longrightarrow> make_scalar p new' = old) \<and> (\<not> ok \<longrightarrow> \<not> last (make_scalar p new'))"
proof -
  have ne: "new \<noteq> []" using assms(1,2) by (auto simp: dir_levels_def)
  show ?thesis
  proof (cases ok)
    case True
    then show ?thesis using assms dir_make_scalar ne make_scalar_id by (auto simp: make_scalar_nth0)
  next
    case False
    let ?n = "butlast new @ [False]"
    have d: "dir_levels strict old ?n" using dir_levels_last_False assms False by blast
    moreover have "length ?n > 1 \<longrightarrow> ?n ! 0 = old ! 0"
      using assms(3) butlast_nth0[of new False] ne by simp
    moreover have "exact \<longrightarrow> ?n = old" using assms False butlast_False_id ne by auto
    moreover have "\<not> last (make_scalar p ?n)"
      by (cases "butlast new") (auto simp: make_scalar_def last_map)
    ultimately show ?thesis using False ne dir_make_scalar[OF d assms(4)] make_scalar_id assms(4)
      by (auto simp: make_scalar_nth0)
  qed
qed

text \<open>C17: Random qualifiers fit the request they are derived from.  Under \<open>like_ok\<close> the routine
  returns (no assertion, no access out of range), raises no error, keeps the number of levels, and
  the original matches the result, in whichever direction the original accepts; when writing the
  object is not const, and in a context with side effects it is not volatile.\<close>

theorem random_qualifiers_like_match:
  assumes "wf_cvq q" "\<not> wildcard q" "good_probs pr" "r_error s = 0" "like_ok o1 no_volatile acc sef q"
  shows "\<exists>r t. random_qualifiers_like o1 pr no_volatile acc sef q s = Some (r, t) \<and> r_error t = 0 \<and>
    length (is_consts r) = length (is_consts q) \<and> wf_cvq r \<and> cvq_match o1 q r = Some True \<and>
    (acc = WRITE \<longrightarrow> \<not> last (is_consts r)) \<and> (\<not> sef \<longrightarrow> \<not> last (is_volatiles r))"
proof -
  let ?st = "accept_stricter q" let ?ex = "opt_match_exact_qualifiers o1"
  let ?V = "is_volatiles q" let ?C = "is_consts q"
  have ne: "?V \<noteq> []" "?C \<noteq> []" "length ?V = length ?C" using assms(1) by (auto simp: wf_cvq_def)
  have sc: "scalar_ok (opt_volatile_pointers o1) ?V" "scalar_ok (opt_const_pointers o1) ?C"
    using assms(5) by (simp_all add: like_ok_def)
  let ?rv = "if no_volatile then Some (map (\<lambda>_. False) ?V, s)
     else if \<not> ?st then random_looser_volatiles o1 pr q s else random_stricter_volatiles o1 pr q s"
  obtain v1 s1 where v1: "?rv = Some (v1, s1)" "r_error s1 = 0" "dir_levels ?st ?V v1"
      "length v1 > 1 \<longrightarrow> v1 ! 0 = ?V ! 0" "?ex \<longrightarrow> v1 = ?V" "no_volatile \<longrightarrow> v1 = ?V"
  proof (cases no_volatile)
    case True
    then have "map (\<lambda>_. False) ?V = ?V" using assms(5) all_False_map[of ?V] unfolding like_ok_def by blast
    then show ?thesis using that[of ?V s] True assms(4) by simp
  next
    case False
    then show ?thesis
      using that random_looser_volatiles_spec[OF assms(3,4) sc(1)]
        random_stricter_volatiles_spec[OF assms(3,4,1) sc(1)] by (cases ?st) auto
  qed
  have nv: "no_volatile \<longrightarrow> \<not> last ?V" using assms(5) last_in_set[OF ne(1)] unfolding like_ok_def by blast
  obtain v2 where v2: "(if \<not> (no_volatile \<or> sef) then set_last_false v1 else Some v1) = Some v2"
      "dir_levels ?st ?V (make_scalar_volatiles o1 v2)"
      "length v2 > 1 \<longrightarrow> make_scalar_volatiles o1 v2 ! 0 = ?V ! 0" "?ex \<longrightarrow> make_scalar_volatiles o1 v2 = ?V"
      "\<not> (no_volatile \<or> sef) \<longrightarrow> \<not> last (make_scalar_volatiles o1 v2)"
    using forced_levels[OF v1(3) ne(1) v1(4) sc(1) v1(5), of "no_volatile \<or> sef"] assms(5) nv
    unfolding make_scalar_volatiles_def like_ok_def by blast
  have v2l: "no_volatile \<longrightarrow> \<not> last (make_scalar_volatiles o1 v2)"
  proof
    assume no_volatile
    then have "v2 = ?V" using v1(6) v2(1) by simp
    then show "\<not> last (make_scalar_volatiles o1 v2)"
      using nv \<open>no_volatile\<close> sc(1) by (simp add: make_scalar_volatiles_def make_scalar_id)
  qed
  obtain c1 s2 where c1: "(if \<not> ?st then random_looser_consts o1 pr q s1 else random_stricter_consts o1 pr q s1) = Some (c1, s2)"
      "r_error s2 = 0" "dir_levels ?st ?C c1" "?ex \<longrightarrow> c1 = ?C"
    using random_looser_consts_spec[OF assms(3) v1(2), of o1 q]
      random_stricter_consts_spec[OF assms(3) v1(2) assms(1), of o1]
    by (cases ?st) auto
  let ?c2 = "make_scalar_consts o1 c1"
  have c2: "dir_levels ?st ?C ?c2" "?ex \<longrightarrow> ?c2 = ?C"
    using c1 sc(2) dir_make_scalar by (auto simp: make_scalar_consts_def make_scalar_id)
  then have c2ne: "?c2 \<noteq> []" using ne by (auto simp: dir_levels_def)
  obtain c3 where c3: "(if acc = WRITE then set_last_false ?c2 else Some ?c2) = Some c3"
      "dir_levels ?st ?C c3" "?ex \<longrightarrow> c3 = ?C" "acc = WRITE \<longrightarrow> \<not> last c3"
  proof (cases "acc = WRITE")
    case True
    then have "\<not> ?st \<or> \<not> last ?C" "?ex \<longrightarrow> \<not> last ?C" using assms(5) by (auto simp: like_ok_def)
    then show ?thesis using that[of "butlast ?c2 @ [False]"] True c2 c2ne ne dir_levels_last_False[OF c2(1)]
      by (auto simp: butlast_False_id)
  qed (use that c2 in auto)
  let ?r = "cvq_new c3 (make_scalar_volatiles o1 v2)"
  have run: "random_qualifiers_like o1 pr no_volatile acc sef q s = Some (?r, s2)"
    using v1(1,2) v2(1) c1(1,2) c3(1) assms(2)
    by (cases no_volatile; cases ?st) (auto simp: random_qualifiers_like_def random_qualifiers_with_def)
  have m: "cvq_match o1 q ?r = Some True"
  proof (cases ?ex)
    case True
    then show ?thesis using c3(3) v2(4) assms(2) by (simp add: cvq_match_def cvq_new_def)
  next
    case False
    then show ?thesis
      by (rule cvq_match_dir[OF assms(1,2) _ c3(2) v2(2)]) (use v2(3) in \<open>simp add: make_scalar_volatiles_def\<close>)
  qed
  have "wf_cvq ?r" using c3(2) v2(2) ne by (auto simp: wf_cvq_def cvq_new_def dir_levels_def)
  then show ?thesis using run m c1(2) c3 v2(5) v2l by (auto simp: cvq_new_def dir_levels_def)
qed

definition sample_probs :: qual_probs where
  "sample_probs = \<lparr>RegularConstProb = 10, RegularVolatileProb = 50, StricterConstProb = 50,
     LooserConstProb = 50, FieldConstProb = 20, FieldVolatileProb = 30\<rparr>"

lemma random_qualifiers_like_match_witness:
  "\<exists>r t. random_qualifiers_like (default_settings cgoptions_zero) sample_probs False WRITE False
      (cvq_new [True, False] [False, True]) (rng_of [3, 40, 9]) = Some (r, t) \<and> r_error t = 0 \<and>
    length (is_consts r) = 2 \<and> cvq_match (default_settings cgoptions_zero) (cvq_new [True, False] [False, True]) r = Some True"
  using random_qualifiers_like_match[of "cvq_new [True, False] [False, True]" sample_probs "rng_of [3, 40, 9]"
      "default_settings cgoptions_zero" False WRITE False]
  by (auto simp: wf_cvq_def cvq_new_def good_probs_def sample_probs_def rng_of_def like_ok_def scalar_ok_def
      default_settings_def set_default_builtin_kinds_def)

text \<open>\<open>stricter_than\<close> is a partial order on well-formed qualifiers of the same depth: its
  assertion holds there, and it is reflexive, transitive and antisymmetric on the qualifier levels.\<close>

lemma stricter_than_order:
  assumes "wf_cvq a" "wf_cvq b"
  shows "stricter_than a a = Some True \<and>
    (stricter_than a b = Some True \<and> stricter_than b c = Some True \<longrightarrow> stricter_than a c = Some True) \<and>
    (stricter_than a b = Some True \<and> stricter_than b a = Some True \<longrightarrow>
       is_consts a = is_consts b \<and> is_volatiles a = is_volatiles b)"
proof (intro conjI impI)
  show "stricter_than a a = Some True"
    using assms by (simp add: stricter_than_iff stricter_cvq_def)
next
  assume "stricter_than a b = Some True \<and> stricter_than b c = Some True"
  then have ab: "stricter_cvq a b" "stricter_cvq b c" using assms by (simp_all add: stricter_than_iff)
  have "stricter_cvq a c"
    using ab stricter_levels_trans[of "is_consts a" "is_consts b" "is_consts c"]
      stricter_levels_trans[of "is_volatiles a" "is_volatiles b" "is_volatiles c"]
    unfolding stricter_cvq_def by presburger
  then show "stricter_than a c = Some True" using assms by (simp add: stricter_than_iff)
next
  assume "stricter_than a b = Some True \<and> stricter_than b a = Some True"
  then have "stricter_cvq a b" "stricter_cvq b a" using assms by (simp_all add: stricter_than_iff)
  then show "is_consts a = is_consts b" "is_volatiles a = is_volatiles b"
    using stricter_levels_antisym unfolding stricter_cvq_def by blast+
qed

text \<open>The dereferenced qualifiers as list operations.\<close>

lemma remove_qualifiers_take:
  "n \<le> length (is_consts q) \<Longrightarrow> n \<le> length (is_volatiles q) \<Longrightarrow>
   remove_qualifiers n q = Some (q\<lparr>is_consts := take (length (is_consts q) - n) (is_consts q),
     is_volatiles := take (length (is_volatiles q) - n) (is_volatiles q)\<rparr>)"
proof (induction n arbitrary: q)
  case (Suc n)
  then have ne: "is_consts q \<noteq> []" "is_volatiles q \<noteq> []" by auto
  let ?q = "q\<lparr>is_consts := butlast (is_consts q), is_volatiles := butlast (is_volatiles q)\<rparr>"
  have "remove_qualifiers (Suc n) q = remove_qualifiers n ?q" using ne by simp
  moreover have "n \<le> length (is_consts ?q)" "n \<le> length (is_volatiles ?q)" using Suc.prems by simp_all
  moreover have "take (length (butlast xs) - n) (butlast xs) = take (length xs - Suc n) xs" for xs :: "bool list"
    by (simp add: butlast_conv_take min_def)
  ultimately show ?case using Suc.IH[of ?q] by simp
qed simp

text \<open>Address-of and dereference.  Dereferencing what was just addressed gives the qualifiers
  back; dereferencing m and then n levels is dereferencing m + n levels, undefined in the same cases; and
  the constness seen through n dereferences is the constness of the qualifiers after dereferencing n
  levels.\<close>

lemma indirect_qualifiers_laws:
  "(indirect_qualifiers (-1) q \<bind> indirect_qualifiers 1) = Some q \<and>
   (\<not> wildcard q \<longrightarrow> (indirect_qualifiers (int m) q \<bind> indirect_qualifiers (int n)) = indirect_qualifiers (int (m + n)) q) \<and>
   (\<not> wildcard q \<and> length (is_consts q) = length (is_volatiles q) \<and> n < length (is_consts q) \<longrightarrow>
      (indirect_qualifiers (int n) q \<bind> cvq_is_const) = is_const_after_deref (int n) q)"
proof (intro conjI impI)
  show "(indirect_qualifiers (-1) q \<bind> indirect_qualifiers 1) = Some q"
    by (simp add: indirect_qualifiers_def add_qualifiers_def)
next
  assume w: "\<not> wildcard q"
  have i: "indirect_qualifiers (int k) q' = remove_qualifiers k q'" if "\<not> wildcard q'" for k q'
    using that by (cases "k = 0") (simp_all add: indirect_qualifiers_def)
  show "(indirect_qualifiers (int m) q \<bind> indirect_qualifiers (int n)) = indirect_qualifiers (int (m + n)) q"
    unfolding i[OF w] using w
  proof (induction m arbitrary: q)
    case 0
    then show ?case using i[of q n] by simp
  qed simp
next
  assume a: "\<not> wildcard q \<and> length (is_consts q) = length (is_volatiles q) \<and> n < length (is_consts q)"
  then have "remove_qualifiers n q = Some (q\<lparr>is_consts := take (length (is_consts q) - n) (is_consts q),
     is_volatiles := take (length (is_volatiles q) - n) (is_volatiles q)\<rparr>)"
    by (intro remove_qualifiers_take) simp_all
  then have "indirect_qualifiers (int n) q = Some (q\<lparr>is_consts := take (length (is_consts q) - n) (is_consts q),
     is_volatiles := take (length (is_volatiles q) - n) (is_volatiles q)\<rparr>)"
    using a by (cases "n = 0") (simp_all add: indirect_qualifiers_def)
  moreover have "rev (take (length (is_consts q) - n) (is_consts q)) ! 0 = rev (is_consts q) ! n"
    using a by (simp add: rev_nth, intro nth_take) linarith
  ultimately show "(indirect_qualifiers (int n) q \<bind> cvq_is_const) = is_const_after_deref (int n) q"
    using a by (simp add: cvq_is_const_def is_const_after_deref_def vec_at_def)
qed

text \<open>A finding: the stricter variants look at the original's other qualifier only, so a level that is
  neither const nor volatile can come out as both even when const volatile objects are switched
  off.\<close>

lemma stricter_yields_const_volatile:
  "\<exists>r t. random_qualifiers_like (default_settings cgoptions_zero\<lparr>opt_allow_const_volatile := False\<rparr>) sample_probs
      False READ True (cvq_new [False] [False]\<lparr>accept_stricter := True\<rparr>) (rng_of [0, 0]) = Some (r, t) \<and>
    is_consts r = [True] \<and> is_volatiles r = [True]"
  by (simp add: random_qualifiers_like_def random_qualifiers_with_def random_stricter_volatiles_def
      random_stricter_consts_def cvq_new_def rnd_flipcoin_def rng_of_def genrand_def add_number_def
      seq_add_number_def sample_probs_def default_settings_def set_default_builtin_kinds_def cgoptions_zero_def
      make_scalar_volatiles_def make_scalar_consts_def make_scalar_def Let_def)

end
