(* ===== verification/Types.thy ===== *)
theory Types
  imports CVQual
begin

text \<open>
  Type.h and Type.cpp: the C types of the generated program and the relations between them.  The
  code interns types and compares pointers; struct and union types carry a unique sequence number,
  so structural equality of \<open>ctype\<close> is the code's pointer equality.  (The one exception is void: the
  code holds a second void object outside the table of types.)
\<close>

section \<open>Data\<close>

datatype simple_type = eVoid | eChar | eShort | eInt | eLong | eLongLong
  | eUChar | eUShort | eUInt | eULong | eULongLong

definition simple_types_list :: "simple_type list" where
  "simple_types_list = [eVoid, eChar, eShort, eInt, eLong, eLongLong, eUChar, eUShort, eUInt, eULong, eULongLong]"

text \<open>The enumeration constants as numbers, and the order of the enumeration.\<close>

fun st_code :: "simple_type \<Rightarrow> nat" where
  "st_code eVoid = 0" | "st_code eChar = 1" | "st_code eShort = 2" | "st_code eInt = 3"
| "st_code eLong = 4" | "st_code eLongLong = 5" | "st_code eUChar = 6" | "st_code eUShort = 7"
| "st_code eUInt = 8" | "st_code eULong = 9" | "st_code eULongLong = 10"

lemma st_code_inj: "st_code a = st_code b \<Longrightarrow> a = b"
  by (cases a; cases b; simp)

instantiation simple_type :: linorder
begin
definition less_eq_simple_type :: "simple_type \<Rightarrow> simple_type \<Rightarrow> bool" where
  "less_eq_simple_type a b \<longleftrightarrow> st_code a \<le> st_code b"
definition less_simple_type :: "simple_type \<Rightarrow> simple_type \<Rightarrow> bool" where
  "less_simple_type a b \<longleftrightarrow> st_code a < st_code b"
instance
  by standard (auto simp: less_eq_simple_type_def less_simple_type_def intro: st_code_inj)
end

text \<open>A type: simple, an OpenCL vector of simple elements, a pointer, or a struct or union with its
  sequence number, its packed flag and the parallel vectors \<open>fields\<close>, \<open>qfers_\<close> and
  \<open>bitfields_length_\<close> (-1 for a regular field).\<close>

datatype ctype =
    TSimple simple_type
  | TVector simple_type nat
  | TPointer ctype
  | TAgg bool nat bool "ctype list" "cvq list" "int list"

text \<open>The operators of FunctionInvocation.h and StatementAssign.h.\<close>

datatype unary_op = ePlus | eMinus | eNot | eBitNot

datatype binary_op = eAdd | eSub | eMul | eDiv | eMod | eCmpGt | eCmpLt | eCmpGe | eCmpLe | eCmpEq |
  eCmpNe | eAnd | eOr | eBitXor | eBitAnd | eBitOr | eRShift | eLShift

datatype prim_op = eUnaryPrim unary_op | eBinaryPrim binary_op | eBuiltIn

datatype assign_op = eSimpleAssign | eMulAssign | eDivAssign | eRemAssign | eAddAssign | eSubAssign |
  eLShiftAssign | eRShiftAssign | eBitAndAssign | eBitXorAssign | eBitOrAssign | ePreIncr | ePreDecr |
  ePostIncr | ePostDecr

fun ptr_type :: "ctype \<Rightarrow> ctype option" where
  "ptr_type (TPointer t) = Some t"
| "ptr_type _ = None"

fun type_fields :: "ctype \<Rightarrow> ctype list" where
  "type_fields (TAgg st sid p fs qs ls) = fs"
| "type_fields _ = []"

fun qfers :: "ctype \<Rightarrow> cvq list" where
  "qfers (TAgg st sid p fs qs ls) = qs"
| "qfers _ = []"

fun bitfields_length :: "ctype \<Rightarrow> int list" where
  "bitfields_length (TAgg st sid p fs qs ls) = ls"
| "bitfields_length _ = []"

fun packed :: "ctype \<Rightarrow> bool" where
  "packed (TAgg st sid p fs qs ls) = p"
| "packed _ = False"

fun is_simple :: "ctype \<Rightarrow> bool" where
  "is_simple (TSimple _) = True" | "is_simple _ = False"

fun is_vector :: "ctype \<Rightarrow> bool" where
  "is_vector (TVector _ _) = True" | "is_vector _ = False"

fun is_pointer :: "ctype \<Rightarrow> bool" where
  "is_pointer (TPointer _) = True" | "is_pointer _ = False"

fun is_struct :: "ctype \<Rightarrow> bool" where
  "is_struct (TAgg st sid p fs qs ls) = st" | "is_struct _ = False"

fun is_union :: "ctype \<Rightarrow> bool" where
  "is_union (TAgg st sid p fs qs ls) = (\<not> st)" | "is_union _ = False"

definition is_aggregate :: "ctype \<Rightarrow> bool" where
  "is_aggregate t \<longleftrightarrow> is_struct t \<or> is_union t"

text \<open>The member \<open>simple_type\<close>, set for simple and vector types.\<close>

fun simple_type_of :: "ctype \<Rightarrow> simple_type option" where
  "simple_type_of (TSimple st) = Some st"
| "simple_type_of (TVector st n) = Some st"
| "simple_type_of _ = None"

definition is_int :: "ctype \<Rightarrow> bool" where
  "is_int t \<longleftrightarrow> is_simple t \<and> t \<noteq> TSimple eVoid"

definition is_long_long :: "ctype \<Rightarrow> bool" where
  "is_long_long t \<longleftrightarrow> t = TSimple eLongLong \<or> t = TSimple eULongLong"

definition is_pointer_to_char :: "ctype \<Rightarrow> bool" where
  "is_pointer_to_char t \<longleftrightarrow> t = TPointer (TSimple eChar) \<or> t = TPointer (TSimple eUChar)"

definition is_signed_char :: "ctype \<Rightarrow> bool" where
  "is_signed_char t \<longleftrightarrow> t = TSimple eChar"

section \<open>Indirection\<close>

fun get_indirect_level :: "ctype \<Rightarrow> nat" where
  "get_indirect_level (TPointer t) = Suc (get_indirect_level t)"
| "get_indirect_level _ = 0"

fun get_base_type :: "ctype \<Rightarrow> ctype" where
  "get_base_type (TPointer t) = get_base_type t"
| "get_base_type t = t"

fun deref_chain :: "ctype \<Rightarrow> ctype \<Rightarrow> bool" where
  "deref_chain target (TPointer t) = (t = target \<or> deref_chain target t)"
| "deref_chain target _ = False"

definition is_dereferenced_from :: "ctype \<Rightarrow> ctype \<Rightarrow> bool" where
  "is_dereferenced_from this t = (is_pointer t \<and> deref_chain this t)"

fun get_struct_depth :: "ctype \<Rightarrow> nat" where
  "get_struct_depth (TAgg st sid p fs qs ls) =
     (if st then 1 + foldr max (map get_struct_depth fs) 0 else 0)"
| "get_struct_depth _ = 0"

section \<open>Fields\<close>

definition is_unamed_padding :: "ctype \<Rightarrow> nat \<Rightarrow> bool option" where
  "is_unamed_padding t index =
    (if bitfields_length t = [] then Some False
     else do { l \<leftarrow> vec_at (bitfields_length t) index; Some (l = 0) })"

definition is_bitfield :: "ctype \<Rightarrow> nat \<Rightarrow> bool option" where
  "is_bitfield t index = do { l \<leftarrow> vec_at (bitfields_length t) index; Some (l \<ge> 0) }"

fun has_bitfields :: "ctype \<Rightarrow> bool option"
  and has_bitfields_list :: "ctype list \<Rightarrow> int list \<Rightarrow> bool option" where
  "has_bitfields (TAgg st sid p fs qs ls) = has_bitfields_list fs ls"
| "has_bitfields _ = Some False"
| "has_bitfields_list [] ls = Some False"
| "has_bitfields_list (f # fs) [] = None"
| "has_bitfields_list (f # fs) (l # ls) =
    (if l \<ge> 0 then Some True
     else do { b \<leftarrow> (if is_struct f then has_bitfields f else Some False);
               if b then Some True else has_bitfields_list fs ls })"

fun has_padding :: "ctype \<Rightarrow> bool option"
  and has_padding_list :: "ctype list \<Rightarrow> int list \<Rightarrow> bool option" where
  "has_padding (TAgg st sid p fs qs ls) = (if st \<and> \<not> p then Some True else has_padding_list fs ls)"
| "has_padding _ = Some False"
| "has_padding_list [] ls = Some False"
| "has_padding_list (f # fs) [] = None"
| "has_padding_list (f # fs) (l # ls) =
    (if l \<ge> 0 then Some True
     else do { b \<leftarrow> has_padding f; if b then Some True else has_padding_list fs ls })"

definition is_full_bitfields_struct :: "ctype \<Rightarrow> bool" where
  "is_full_bitfields_struct t \<longleftrightarrow> is_struct t \<and> list_all (\<lambda>l. l \<ge> 0) (bitfields_length t)"

fun has_int_field :: "ctype \<Rightarrow> bool" where
  "has_int_field (TAgg st sid p fs qs ls) = list_ex has_int_field fs"
| "has_int_field t = is_int t"

fun contain_pointer_field :: "ctype \<Rightarrow> bool" where
  "contain_pointer_field (TPointer t) = True"
| "contain_pointer_field (TAgg st sid p fs qs ls) = list_ex contain_pointer_field fs"
| "contain_pointer_field _ = False"

definition has_aggregate_field :: "ctype list \<Rightarrow> bool" where
  "has_aggregate_field fs = list_ex is_aggregate fs"

definition has_longlong_field :: "ctype list \<Rightarrow> bool" where
  "has_longlong_field fs = list_ex is_long_long fs"

text \<open>\<open>is_const_struct_union\<close> and \<open>is_volatile_struct_union\<close>; \<open>sel\<close> reads one qualifier.\<close>

fun qualified_aggregate :: "(cvq \<Rightarrow> bool option) \<Rightarrow> ctype \<Rightarrow> bool option"
  and qualified_aggregate_list :: "(cvq \<Rightarrow> bool option) \<Rightarrow> ctype list \<Rightarrow> cvq list \<Rightarrow> bool option" where
  "qualified_aggregate sel (TAgg st sid p fs qs ls) =
     (if length fs = length qs then qualified_aggregate_list sel fs qs else None)"
| "qualified_aggregate sel _ = Some False"
| "qualified_aggregate_list sel [] qs = Some False"
| "qualified_aggregate_list sel (f # fs) [] = None"
| "qualified_aggregate_list sel (f # fs) (q # qs) =
     do { b \<leftarrow> qualified_aggregate sel f;
          if b then Some True
          else do { c \<leftarrow> sel q; if c then Some True else qualified_aggregate_list sel fs qs } }"

definition is_const_struct_union :: "ctype \<Rightarrow> bool option" where
  "is_const_struct_union t = qualified_aggregate cvq_is_const t"

definition is_volatile_struct_union :: "ctype \<Rightarrow> bool option" where
  "is_volatile_struct_union t = qualified_aggregate cvq_is_volatile t"

section \<open>Signedness and size\<close>

definition unsigned_codes :: "simple_type list" where
  "unsigned_codes = [eUChar, eUInt, eUShort, eULong, eULongLong]"

definition is_signed :: "ctype \<Rightarrow> bool" where
  "is_signed t = (case simple_type_of t of None \<Rightarrow> False | Some st \<Rightarrow> st \<notin> set unsigned_codes)"

fun unsigned_of :: "simple_type \<Rightarrow> simple_type" where
  "unsigned_of eChar = eUChar" | "unsigned_of eInt = eUInt" | "unsigned_of eShort = eUShort"
| "unsigned_of eLong = eULong" | "unsigned_of eLongLong = eULongLong" | "unsigned_of st = st"

fun signed_of :: "simple_type \<Rightarrow> simple_type" where
  "signed_of eUChar = eChar" | "signed_of eUInt = eInt" | "signed_of eUShort = eShort"
| "signed_of eULong = eLong" | "signed_of eULongLong = eLongLong" | "signed_of st = st"

text \<open>\<open>return this\<close> keeps a vector type, the other branches return the scalar type.\<close>

definition to_unsigned :: "ctype \<Rightarrow> ctype option" where
  "to_unsigned t = (case simple_type_of t of
     None \<Rightarrow> None
   | Some st \<Rightarrow> if st \<in> set unsigned_codes then Some t
               else if st = eVoid then None
               else Some (TSimple (unsigned_of st)))"

definition to_signed :: "ctype \<Rightarrow> ctype option" where
  "to_signed t = (case simple_type_of t of
     None \<Rightarrow> None
   | Some st \<Rightarrow> if st \<in> set unsigned_codes then Some (TSimple (signed_of st))
               else if st = eVoid then None
               else Some t)"

definition SIZE_UNKNOWN :: int where "SIZE_UNKNOWN = 65535"

fun simple_size :: "simple_type \<Rightarrow> int" where
  "simple_size eVoid = 0" | "simple_size eInt = 4" | "simple_size eShort = 2" | "simple_size eChar = 1"
| "simple_size eLong = 4" | "simple_size eLongLong = 8" | "simple_size eUChar = 1" | "simple_size eUInt = 4"
| "simple_size eUShort = 2" | "simple_size eULong = 4" | "simple_size eULongLong = 8"

text \<open>\<open>ceil(len / 8.0) * 8\<close> is the number of bits of the storage units, as the source has it; the
  pointer case computes the pointer size and falls out of the switch, so 0 is returned.\<close>

definition bitfield_size :: "int \<Rightarrow> int" where
  "bitfield_size len = ((len + 7) div 8) * 8"

fun SizeInBytes :: "ctype \<Rightarrow> int option"
  and union_size :: "ctype list \<Rightarrow> int list \<Rightarrow> int \<Rightarrow> int option"
  and struct_size :: "ctype list \<Rightarrow> int \<Rightarrow> int option" where
  "SizeInBytes (TSimple st) = Some (simple_size st)"
| "SizeInBytes (TVector st n) = Some (simple_size st)"
| "SizeInBytes (TPointer t) = Some 0"
| "SizeInBytes (TAgg st sid p fs qs ls) =
    (if \<not> st then union_size fs ls 0
     else if \<not> p then Some SIZE_UNKNOWN
     else do { b \<leftarrow> has_bitfields_list fs ls;
               if b then Some SIZE_UNKNOWN else struct_size fs 0 })"
| "union_size [] ls max_size = Some max_size"
| "union_size (f # fs) [] max_size = None"
| "union_size (f # fs) (l # ls) max_size =
     do { sz \<leftarrow> (if l \<ge> 0 then Some (bitfield_size l) else SizeInBytes f);
          if sz = SIZE_UNKNOWN then Some sz
          else union_size fs ls (if sz > max_size then sz else max_size) }"
| "struct_size [] total_size = Some total_size"
| "struct_size (f # fs) total_size =
     do { sz \<leftarrow> SizeInBytes f;
          if sz = SIZE_UNKNOWN then Some sz else struct_size fs (u32 (total_size + sz)) }"

definition signed_overflow_possible :: "cgoptions \<Rightarrow> ctype \<Rightarrow> bool option" where
  "signed_overflow_possible o1 t =
    (if is_simple t \<and> is_signed t then map_option (\<lambda>sz. sz \<ge> opt_int_size o1) (SizeInBytes t) else Some False)"

section \<open>Relations between types\<close>

fun promotable_to :: "simple_type \<Rightarrow> simple_type \<Rightarrow> bool" where
  "promotable_to eVoid t2 = False"
| "promotable_to eChar t2 = (t2 \<noteq> eVoid)"
| "promotable_to eUChar t2 = (t2 \<noteq> eVoid)"
| "promotable_to eShort t2 = (t2 \<notin> {eVoid, eChar, eUChar})"
| "promotable_to eUShort t2 = (t2 \<notin> {eVoid, eChar, eUChar})"
| "promotable_to eInt t2 = (t2 \<notin> {eVoid, eChar, eUChar, eShort, eUShort})"
| "promotable_to eUInt t2 = (t2 \<notin> {eVoid, eChar, eUChar, eShort, eUShort})"
| "promotable_to eLong t2 = (t2 \<in> {eLong, eULong, eLongLong, eULongLong})"
| "promotable_to eULong t2 = (t2 \<in> {eLong, eULong, eLongLong, eULongLong})"
| "promotable_to eLongLong t2 = (t2 \<in> {eLongLong, eULongLong})"
| "promotable_to eULongLong t2 = (t2 \<in> {eLongLong, eULongLong})"

fun is_promotable :: "ctype \<Rightarrow> ctype \<Rightarrow> bool" where
  "is_promotable (TSimple a) (TSimple b) = promotable_to a b"
| "is_promotable _ _ = False"

definition is_convertable :: "ctype \<Rightarrow> ctype \<Rightarrow> bool" where
  "is_convertable this t =
    (if this = t then True
     else case (this, t) of
       (TSimple a, TSimple b) \<Rightarrow> (a \<noteq> eVoid \<and> b \<noteq> eVoid) \<or> a = b
     | (TPointer a, TPointer b) \<Rightarrow>
         (if a = b then True
          else if is_simple a \<and> is_simple b then SizeInBytes a = SizeInBytes b
          else False)
     | _ \<Rightarrow> False)"

definition is_equivalent :: "ctype \<Rightarrow> ctype \<Rightarrow> bool" where
  "is_equivalent this t =
    (if this = t then True
     else is_simple this \<and> is_signed this = is_signed t \<and> SizeInBytes this = SizeInBytes t)"

definition needs_cast :: "ctype \<Rightarrow> ctype \<Rightarrow> bool" where
  "needs_cast this t = (is_pointer this \<and> \<not> is_equivalent (get_base_type this) (get_base_type t))"

definition is_derivable :: "ctype \<Rightarrow> ctype \<Rightarrow> bool" where
  "is_derivable this t =
    (if this = t then True
     else is_convertable this t \<or> is_dereferenced_from this t \<or> ptr_type this = Some t)"

datatype match_type = eExact | eConvert | eDereference | eDerefExact | eFlexible

fun type_match :: "ctype \<Rightarrow> ctype \<Rightarrow> match_type \<Rightarrow> bool" where
  "type_match this t eExact = (this = t)"
| "type_match this t eConvert = is_convertable this t"
| "type_match this t eDereference = is_dereferenced_from this t"
| "type_match this t eDerefExact = (t = this \<or> is_dereferenced_from this t)"
| "type_match this t eFlexible = is_derivable this t"

section \<open>Qualifiers of a type\<close>

definition sanity_check :: "ctype \<Rightarrow> cvq \<Rightarrow> bool" where
  "sanity_check t q \<longleftrightarrow> wildcard q \<or>
     (length (is_consts q) = length (is_volatiles q) \<and> get_indirect_level t + 1 = length (is_consts q))"

text \<open>The loop over the pointer levels of \<open>random_qualifiers(t, ...)\<close>.  \<open>None\<close> inside the result pair is
  the early return of an empty qualifier set when the coin raised an error.\<close>

definition toss_level :: "cgoptions \<Rightarrow> nat \<Rightarrow> nat \<Rightarrow> rng \<Rightarrow> ((bool \<times> bool) option \<times> rng) option" where
  "toss_level o1 const_prob volatile_prob s = do {
     (v, s1) \<leftarrow> rnd_flipcoin volatile_prob None s;
     if r_error s1 \<noteq> 0 then Some (None, s1)
     else do {
       (c, s2) \<leftarrow> rnd_flipcoin const_prob None s1;
       if r_error s2 \<noteq> 0 then Some (None, s2)
       else Some (Some (if v \<and> c \<and> \<not> opt_allow_const_volatile o1 then False else c, v), s2) } }"

fun toss_levels :: "cgoptions \<Rightarrow> nat \<Rightarrow> nat \<Rightarrow> ctype \<Rightarrow> rng \<Rightarrow> ((bool \<times> bool) list option \<times> rng) option" where
  "toss_levels o1 const_prob volatile_prob (TPointer t) s = do {
     (r, s1) \<leftarrow> toss_level o1 const_prob volatile_prob s;
     case r of None \<Rightarrow> Some (None, s1)
     | Some cv \<Rightarrow> do {
         (rs, s2) \<leftarrow> toss_levels o1 const_prob volatile_prob t s1;
         Some (map_option ((#) cv) rs, s2) } }"
| "toss_levels o1 const_prob volatile_prob _ s = Some (Some [], s)"

definition toss_object :: "cgoptions \<Rightarrow> nat \<Rightarrow> nat \<Rightarrow> bool \<Rightarrow> bool \<Rightarrow> rng \<Rightarrow> ((bool \<times> bool) option \<times> rng) option" where
  "toss_object o1 const_prob volatile_prob volatile_ok const_ok s =
    (if volatile_ok \<and> const_ok then toss_level o1 const_prob volatile_prob s
     else if volatile_ok then do {
       (v, s1) \<leftarrow> rnd_flipcoin volatile_prob None s;
       Some (if r_error s1 \<noteq> 0 then None else Some (False, v), s1) }
     else if const_ok then do {
       (c, s1) \<leftarrow> rnd_flipcoin const_prob None s;
       Some (if r_error s1 \<noteq> 0 then None else Some (c, False), s1) }
     else Some (Some (False, False), s))"

definition random_qualifiers ::
  "cgoptions \<Rightarrow> ctype option \<Rightarrow> access \<Rightarrow> bool \<Rightarrow> bool \<Rightarrow> nat \<Rightarrow> nat \<Rightarrow> rng \<Rightarrow> (cvq \<times> rng) option" where
  "random_qualifiers o1 ot acc side_effect_free no_volatile const_prob volatile_prob s =
    (case ot of
       None \<Rightarrow> Some (cvq_wild False False, s)
     | Some t \<Rightarrow> do {
         (rs, s1) \<leftarrow> toss_levels o1 const_prob volatile_prob t s;
         case rs of None \<Rightarrow> Some (cvq_wild False False, s1)
         | Some levels \<Rightarrow> do {
             (r, s2) \<leftarrow> toss_object o1 const_prob volatile_prob side_effect_free (acc \<noteq> WRITE) s1;
             case r of None \<Rightarrow> Some (cvq_wild False False, s2)
             | Some cv \<Rightarrow>
               let cvs = levels @ [cv];
                   cs = map fst cvs;
                   vols = (if no_volatile then map (\<lambda>_. False) cvs else map snd cvs)
               in Some (cvq_new (make_scalar_consts o1 cs) (make_scalar_volatiles o1 vols), s2) } })"

text \<open>The overloads with fewer arguments: in a read-only context without effects, without volatiles, or
  for the fields of structs and unions.\<close>

definition random_qualifiers_novol :: "cgoptions \<Rightarrow> qual_probs \<Rightarrow> ctype \<Rightarrow> rng \<Rightarrow> (cvq \<times> rng) option" where
  "random_qualifiers_novol o1 pr t s =
     random_qualifiers o1 (Some t) READ True True (RegularConstProb pr) (RegularVolatileProb pr) s"

definition random_qualifiers_field :: "cgoptions \<Rightarrow> ctype \<Rightarrow> nat \<Rightarrow> nat \<Rightarrow> rng \<Rightarrow> (cvq \<times> rng) option" where
  "random_qualifiers_field o1 t const_prob volatile_prob s =
     random_qualifiers o1 (Some t) READ True False const_prob volatile_prob s"

section \<open>Output\<close>

definition simple_output :: "simple_type \<Rightarrow> string" where
  "simple_output st =
     (if st = eVoid then ''void''
      else (if is_signed (TSimple st) then ''int'' else ''uint'') @ show_nat (nat (simple_size st * 8)) @ ''_t'')"

fun type_output :: "ctype \<Rightarrow> string" where
  "type_output (TVector st n) = ''VECTOR('' @ simple_output st @ '', '' @ show_nat n @ '')''"
| "type_output (TSimple st) = simple_output st"
| "type_output (TPointer t) = type_output t @ ''*''"
| "type_output (TAgg st sid p fs qs ls) = (if st then ''struct S'' else ''union U'') @ show_nat sid"

definition get_type_sizeof_string :: "ctype \<Rightarrow> string" where
  "get_type_sizeof_string t = ''sizeof('' @ type_output t @ '')''"

fun join_comma :: "string list \<Rightarrow> string" where
  "join_comma [] = []"
| "join_comma [x] = x"
| "join_comma (x # y # xs) = x @ '', '' @ join_comma (y # xs)"

fun printf_directive :: "ctype \<Rightarrow> string" where
  "printf_directive (TSimple st) =
     (if simple_size st \<ge> 8 then (if is_signed (TSimple st) then ''%lld'' else ''%llu'')
      else (if is_signed (TSimple st) then ''%d'' else ''%u''))"
| "printf_directive (TVector st n) =
     (if simple_size st \<ge> 8 then (if is_signed (TSimple st) then ''%lld'' else ''%llu'')
      else (if is_signed (TSimple st) then ''%d'' else ''%u''))"
| "printf_directive (TPointer t) = ''0x%0x''"
| "printf_directive (TAgg st sid p fs qs ls) = ''{'' @ join_comma (map printf_directive fs) @ ''}''"

definition output_qualified_type :: "cgoptions \<Rightarrow> ctype \<Rightarrow> cvq \<Rightarrow> string option" where
  "output_qualified_type o1 t q = do {
     assert_that (sanity_check t q);
     output_levels o1 (type_output (get_base_type t)) 0 (is_consts q) (is_volatiles q) }"

definition newline :: string where "newline = [CHR 0x0A]"

text \<open>The member declarations of a struct or union; \<open>j\<close> numbers the named fields.\<close>

fun output_fields :: "cgoptions \<Rightarrow> ctype list \<Rightarrow> cvq list \<Rightarrow> int list \<Rightarrow> nat \<Rightarrow> string option" where
  "output_fields o1 [] qs ls j = Some []"
| "output_fields o1 (f # fs) (q # qs) (l # ls) j =
    (if l \<ge> 0 then do {
       assert_that (is_simple f);
       quals \<leftarrow> OutputFirstQuals o1 q;
       assert_that (f = TSimple eInt \<or> f = TSimple eUInt);
       let sign = (if f = TSimple eInt then ''signed'' else ''unsigned'');
       let name = (if l = 0 then '' : '' else '' f'' @ show_nat j @ '' : '');
       rest \<leftarrow> output_fields o1 fs qs ls (if l = 0 then j else Suc j);
       Some (''   '' @ quals @ sign @ name @ show_int l @ '';'' @ newline @ rest) }
     else do {
       ty \<leftarrow> output_qualified_type o1 f q;
       rest \<leftarrow> output_fields o1 fs qs ls (Suc j);
       Some (''   '' @ ty @ '' f'' @ show_nat j @ '';'' @ newline @ rest) })"
| "output_fields o1 (f # fs) _ _ j = None"

definition output_definition :: "cgoptions \<Rightarrow> ctype \<Rightarrow> string option" where
  "output_definition o1 t = do {
     assert_that (length (type_fields t) = length (qfers t));
     body \<leftarrow> output_fields o1 (type_fields t) (qfers t) (bitfields_length t) 0;
     Some ((if packed t then (if \<not> opt_ccomp o1 then ''#pragma pack(push)'' @ newline else []) @
              ''#pragma pack(1)'' @ newline else []) @
           type_output t @ '' {'' @ newline @ body @ ''};'' @ newline @
           (if packed t then (if opt_ccomp o1 then ''#pragma pack()'' else ''#pragma pack(pop)'') @ newline else []) @
           newline) }"

text \<open>\<open>OutputStructUnion\<close>: the state is the text written so far and the types whose \<open>printed\<close> flag is
  set, the last one first.\<close>

fun OutputStructUnion :: "cgoptions \<Rightarrow> ctype \<Rightarrow> string \<times> ctype list \<Rightarrow> (string \<times> ctype list) option"
  and output_dependencies :: "cgoptions \<Rightarrow> ctype list \<Rightarrow> string \<times> ctype list \<Rightarrow> (string \<times> ctype list) option" where
  "OutputStructUnion o1 (TAgg st sid p fs qs ls) s =
    (if TAgg st sid p fs qs ls \<in> set (snd s) then Some s
     else do {
       (out, printed) \<leftarrow> output_dependencies o1 fs s;
       d \<leftarrow> output_definition o1 (TAgg st sid p fs qs ls);
       Some (out @ d, TAgg st sid p fs qs ls # printed) })"
| "OutputStructUnion o1 _ s = None"
| "output_dependencies o1 [] s = Some s"
| "output_dependencies o1 (f # fs) s = do {
     s1 \<leftarrow> (if is_aggregate f then OutputStructUnion o1 f s else Some s);
     output_dependencies o1 fs s1 }"

text \<open>The names of the integer members, with the excluded named fields of the outermost level
  skipped.\<close>

fun get_int_subfield_names :: "string \<Rightarrow> nat list \<Rightarrow> ctype \<Rightarrow> string list option"
  and subfield_names :: "string \<Rightarrow> nat list \<Rightarrow> bool \<Rightarrow> ctype list \<Rightarrow> int list \<Rightarrow> nat \<Rightarrow> string list option" where
  "get_int_subfield_names prefix excluded (TSimple st) = Some [prefix]"
| "get_int_subfield_names prefix excluded (TAgg st sid p fs qs ls) =
     subfield_names prefix excluded (ls = []) fs ls 0"
| "get_int_subfield_names prefix excluded _ = Some []"
| "subfield_names prefix excluded nolens [] ls j = Some []"
| "subfield_names prefix excluded nolens (f # fs) ls j =
    (if ls = [] \<and> \<not> nolens then None
     else if ls \<noteq> [] \<and> hd ls = 0 then subfield_names prefix excluded nolens fs (tl ls) j
     else if j \<in> set excluded then subfield_names prefix excluded nolens fs (tl ls) (Suc j)
     else do {
       ns \<leftarrow> get_int_subfield_names (prefix @ ''.f'' @ show_nat j) [] f;
       rest \<leftarrow> subfield_names prefix excluded nolens fs (tl ls) (Suc j);
       Some (ns @ rest) })"

section \<open>Well-formed types\<close>

text \<open>What the constructors of struct and union types maintain: the parallel vectors agree, a
  bit-field is an integer, qualifiers fit the field's type, and no field is void.\<close>

fun wf_type :: "ctype \<Rightarrow> bool" where
  "wf_type (TAgg st sid p fs qs ls) =
     (length qs = length fs \<and> length ls = length fs \<and> fs \<noteq> [] \<and> list_all wf_type fs \<and>
      list_all (\<lambda>f. get_base_type f \<noteq> TSimple eVoid) fs \<and> list_all2 sanity_check fs qs \<and>
      list_all (\<lambda>q. wf_cvq q \<and> \<not> wildcard q) qs \<and>
      list_all2 (\<lambda>f l. l \<ge> 0 \<longrightarrow> f = TSimple eInt \<or> f = TSimple eUInt) fs ls)"
| "wf_type (TPointer t) = wf_type t"
| "wf_type _ = True"

lemma has_bitfields_total:
  "wf_type t \<Longrightarrow> \<exists>b. has_bitfields t = Some b"
  "length fs = length ls \<Longrightarrow> list_all wf_type fs \<Longrightarrow> \<exists>b. has_bitfields_list fs ls = Some b"
proof (induction t and fs ls rule: has_bitfields_has_bitfields_list.induct)
  case (5 f fs l ls)
  then show ?case by (cases "l \<ge> 0"; cases "is_struct f") auto
qed auto

lemma has_padding_total:
  "wf_type t \<Longrightarrow> \<exists>b. has_padding t = Some b"
  "length fs = length ls \<Longrightarrow> list_all wf_type fs \<Longrightarrow> \<exists>b. has_padding_list fs ls = Some b"
proof (induction t and fs ls rule: has_padding_has_padding_list.induct)
  case (5 f fs l ls)
  then show ?case by (cases "l \<ge> 0") auto
qed auto

lemma SizeInBytes_total:
  "wf_type t \<Longrightarrow> \<exists>n. SizeInBytes t = Some n"
  "length fs = length ls \<Longrightarrow> list_all wf_type fs \<Longrightarrow> \<exists>n. union_size fs ls m = Some n"
  "list_all wf_type fs \<Longrightarrow> \<exists>n. struct_size fs m = Some n"
proof (induction t and fs ls m and fs m rule: SizeInBytes_union_size_struct_size.induct)
  case (4 st sid p fs qs ls)
  then have w: "length fs = length ls" "list_all wf_type fs" by simp_all
  obtain b where "has_bitfields_list fs ls = Some b" using has_bitfields_total(2)[OF w] by blast
  then show ?case using 4 w by (cases b) auto
next
  case (7 f fs l ls m)
  then obtain sz where "(if l \<ge> 0 then Some (bitfield_size l) else SizeInBytes f) = Some sz" by fastforce
  then show ?case using 7 by (cases "sz = SIZE_UNKNOWN") auto
next
  case (9 f fs m)
  then obtain sz where "SizeInBytes f = Some sz" by auto
  then show ?case using 9 by (cases "sz = SIZE_UNKNOWN") auto
qed auto

section \<open>Lemmas\<close>

definition pointers :: "nat \<Rightarrow> ctype \<Rightarrow> ctype" where
  "pointers n t = (TPointer ^^ n) t"

lemma pointers_simps [simp]:
  "pointers 0 t = t" "pointers (Suc n) t = TPointer (pointers n t)"
  by (simp_all add: pointers_def)

lemma deref_chain_iff: "deref_chain u t \<longleftrightarrow> (\<exists>n. t = pointers (Suc n) u)"
proof (induction t)
  case (TPointer t)
  show ?case
  proof
    assume "deref_chain u (TPointer t)"
    then consider "t = u" | n where "t = pointers (Suc n) u" using TPointer by auto
    then show "\<exists>n. TPointer t = pointers (Suc n) u"
      by cases (metis pointers_simps)+
  next
    assume "\<exists>n. TPointer t = pointers (Suc n) u"
    then obtain n where "t = pointers n u" by auto
    then show "deref_chain u (TPointer t)" using TPointer by (cases n) auto
  qed
qed auto

lemma level_pointers: "get_indirect_level (pointers n t) = n + get_indirect_level t"
  by (induction n) auto

lemma base_pointers: "get_base_type (pointers n t) = get_base_type t"
  by (induction n) auto

lemma toss_level_spec:
  assumes "cp \<le> 100" "vp \<le> 100" "r_error s = 0"
  shows "\<exists>c v s1. toss_level o1 cp vp s = Some (Some (c, v), s1) \<and> r_error s1 = 0 \<and>
    (\<not> opt_allow_const_volatile o1 \<longrightarrow> \<not> (c \<and> v))"
proof -
  obtain v s1 where 1: "rnd_flipcoin vp None s = Some (v, s1)" using rnd_flipcoin_total assms(2) by blast
  then have e1: "r_error s1 = 0" using assms(3) by (auto dest: rnd_flipcoin_SomeD)
  obtain c s2 where 2: "rnd_flipcoin cp None s1 = Some (c, s2)" using rnd_flipcoin_total assms(1) by blast
  then have "r_error s2 = 0" using e1 by (auto dest: rnd_flipcoin_SomeD)
  then show ?thesis using 1 2 e1 by (auto simp: toss_level_def)
qed

lemma toss_levels_spec:
  assumes "cp \<le> 100" "vp \<le> 100"
  shows "r_error s = 0 \<Longrightarrow> \<exists>rs s1. toss_levels o1 cp vp t s = Some (Some rs, s1) \<and> r_error s1 = 0 \<and>
    length rs = get_indirect_level t \<and> (\<not> opt_allow_const_volatile o1 \<longrightarrow> (\<forall>(c, v) \<in> set rs. \<not> (c \<and> v)))"
proof (induction t arbitrary: s)
  case (TPointer t)
  obtain c v s1 where 1: "toss_level o1 cp vp s = Some (Some (c, v), s1)" "r_error s1 = 0"
      "\<not> opt_allow_const_volatile o1 \<longrightarrow> \<not> (c \<and> v)"
    using toss_level_spec[OF assms TPointer.prems] by blast
  then show ?case using TPointer.IH[OF 1(2)] by auto
qed auto

lemma toss_object_spec:
  assumes "cp \<le> 100" "vp \<le> 100" "r_error s = 0"
  shows "\<exists>c v s1. toss_object o1 cp vp vok cok s = Some (Some (c, v), s1) \<and> r_error s1 = 0 \<and>
    (\<not> opt_allow_const_volatile o1 \<longrightarrow> \<not> (c \<and> v)) \<and> (\<not> vok \<longrightarrow> \<not> v) \<and> (\<not> cok \<longrightarrow> \<not> c)"
proof (cases "vok \<and> cok")
  case True
  then show ?thesis using toss_level_spec[OF assms, of o1] by (auto simp: toss_object_def)
next
  case False
  obtain v s1 where 1: "rnd_flipcoin vp None s = Some (v, s1)" using rnd_flipcoin_total assms(2) by blast
  then have e1: "r_error s1 = 0" using assms(3) by (auto dest: rnd_flipcoin_SomeD)
  obtain c s2 where 2: "rnd_flipcoin cp None s = Some (c, s2)" using rnd_flipcoin_total assms(1) by blast
  then have e2: "r_error s2 = 0" using assms(3) by (auto dest: rnd_flipcoin_SomeD)
  show ?thesis using False 1 2 e1 e2 assms(3) by (cases vok; cases cok) (auto simp: toss_object_def)
qed

lemma make_scalar_set: "b \<in> set (make_scalar p bs) \<Longrightarrow> b \<Longrightarrow> b \<in> set bs"
  by (cases bs) (auto simp: make_scalar_def split: if_splits)

lemma make_scalar_nth: "i < length bs \<Longrightarrow> make_scalar p bs ! i \<Longrightarrow> bs ! i"
  by (cases bs; cases i) (auto simp: make_scalar_def split: if_splits)

lemma make_scalar_last: "bs \<noteq> [] \<Longrightarrow> last (make_scalar p bs) \<Longrightarrow> last bs"
  by (metis last_conv_nth length_0_conv length_make_scalar diff_less length_greater_0_conv make_scalar_nth zero_less_one)

section \<open>Qualifiers drawn for a type\<close>

lemma random_qualifiers_spec:
  assumes "cp \<le> 100" "vp \<le> 100" "r_error s = 0"
  shows "\<exists>q s1. random_qualifiers o1 (Some t) acc sef no_volatile cp vp s = Some (q, s1) \<and> r_error s1 = 0 \<and>
    sanity_check t q \<and> \<not> wildcard q \<and>
    (no_volatile \<longrightarrow> (\<forall>v \<in> set (is_volatiles q). \<not> v)) \<and>
    (acc = WRITE \<longrightarrow> \<not> last (is_consts q)) \<and> (\<not> sef \<longrightarrow> \<not> last (is_volatiles q)) \<and>
    (\<not> opt_allow_const_volatile o1 \<longrightarrow> (\<forall>i < length (is_consts q). \<not> (is_consts q ! i \<and> is_volatiles q ! i)))"
proof -
  obtain rs s1 where 1: "toss_levels o1 cp vp t s = Some (Some rs, s1)" "r_error s1 = 0"
      "length rs = get_indirect_level t" "\<not> opt_allow_const_volatile o1 \<longrightarrow> (\<forall>(c, v) \<in> set rs. \<not> (c \<and> v))"
    using toss_levels_spec[OF assms] by blast
  obtain c v s2 where 2: "toss_object o1 cp vp sef (acc \<noteq> WRITE) s1 = Some (Some (c, v), s2)" "r_error s2 = 0"
      "\<not> opt_allow_const_volatile o1 \<longrightarrow> \<not> (c \<and> v)" "\<not> sef \<longrightarrow> \<not> v" "acc = WRITE \<longrightarrow> \<not> c"
    using toss_object_spec[OF assms(1,2) 1(2), of o1 sef "acc \<noteq> WRITE"] by blast
  let ?cvs = "rs @ [(c, v)]"
  let ?cs = "map fst ?cvs" let ?vs = "if no_volatile then map (\<lambda>_. False) ?cvs else map snd ?cvs"
  let ?q = "cvq_new (make_scalar_consts o1 ?cs) (make_scalar_volatiles o1 ?vs)"
  have run: "random_qualifiers o1 (Some t) acc sef no_volatile cp vp s = Some (?q, s2)"
    using 1(1) 2(1) by (simp add: random_qualifiers_def)
  have cv: "\<not> (fst (?cvs ! i) \<and> snd (?cvs ! i))" if "\<not> opt_allow_const_volatile o1" "i < length ?cvs" for i
  proof -
    have "?cvs ! i \<in> set ?cvs" using that(2) by (rule nth_mem)
    then show ?thesis using that(1) 1(4) 2(3) by auto
  qed
  have "\<not> (is_consts ?q ! i \<and> is_volatiles ?q ! i)"
    if a: "\<not> opt_allow_const_volatile o1" and i: "i < length (is_consts ?q)" for i
  proof
    assume "is_consts ?q ! i \<and> is_volatiles ?q ! i"
    then have "?cs ! i" "?vs ! i"
      using i make_scalar_nth[of i ?cs] make_scalar_nth[of i ?vs]
      by (auto simp: cvq_new_def make_scalar_consts_def make_scalar_volatiles_def split: if_splits)
    then show False using cv[OF a, of i] i
      by (auto simp: cvq_new_def make_scalar_consts_def nth_append split: if_splits)
  qed
  moreover have "last (is_consts ?q) \<Longrightarrow> c"
    using make_scalar_last[of ?cs] by (simp add: cvq_new_def make_scalar_consts_def)
  moreover have "last (is_volatiles ?q) \<Longrightarrow> v \<and> \<not> no_volatile"
    using make_scalar_last[of ?vs] by (auto simp: cvq_new_def make_scalar_volatiles_def split: if_splits)
  moreover have "no_volatile \<longrightarrow> (\<forall>v \<in> set (is_volatiles ?q). \<not> v)"
    using make_scalar_set[of _ _ ?vs] by (auto simp: cvq_new_def make_scalar_volatiles_def)
  moreover have "sanity_check t ?q"
    using 1(3) by (simp add: sanity_check_def cvq_new_def make_scalar_consts_def make_scalar_volatiles_def)
  moreover have "\<not> wildcard ?q" by (simp add: cvq_new_def)
  ultimately show ?thesis using run 2(2,4,5) by (intro exI[of _ ?q] exI[of _ s2]) auto
qed

section \<open>Declaration order\<close>

text \<open>Every aggregate field of a printed type was printed before it, and nothing is printed
  twice.\<close>

fun decl_order :: "ctype list \<Rightarrow> bool" where
  "decl_order [] = True"
| "decl_order (u # us) =
     ((\<forall>f \<in> set (type_fields u). is_aggregate f \<longrightarrow> f \<in> set us) \<and> u \<notin> set us \<and> decl_order us)"

lemma field_smaller: "t \<in> set fs \<Longrightarrow> size t < size (TAgg st sid p fs qs ls)"
  using size_list_estimation'[of t fs "size t" size] by force

text \<open>The types in the order of their definitions: every aggregate among the fields is defined before, and nothing
  is defined twice.\<close>

fun defined_in_order :: "ctype list \<Rightarrow> ctype list \<Rightarrow> bool" where
  "defined_in_order known [] = True"
| "defined_in_order known (u # us) =
     ((\<forall>f \<in> set (type_fields u). is_aggregate f \<longrightarrow> f \<in> set known) \<and> u \<notin> set known \<and> defined_in_order (u # known) us)"

lemma defined_in_order_append:
  "defined_in_order known (us @ ws) \<longleftrightarrow> defined_in_order known us \<and> defined_in_order (rev us @ known) ws"
  by (induction us arbitrary: known) auto

lemma decl_order_append: "decl_order known \<Longrightarrow> defined_in_order known us \<Longrightarrow> decl_order (rev us @ known)"
proof (induction us arbitrary: known)
  case (Cons u us)
  then show ?case using Cons.IH[of "u # known"] by simp
qed simp

text \<open>The output of a run: the definitions of the new types, one after the other.\<close>

definition emits_types :: "cgoptions \<Rightarrow> string \<times> ctype list \<Rightarrow> ctype list \<Rightarrow> string \<times> ctype list \<Rightarrow> bool" where
  "emits_types o1 s new s' \<longleftrightarrow> snd s' = rev new @ snd s \<and> defined_in_order (snd s) new \<and>
     (\<exists>ds. those (map (output_definition o1) new) = Some ds \<and> fst s' = fst s @ concat ds)"

lemma those_append: "those (xs @ ys) = do { a \<leftarrow> those xs; b \<leftarrow> those ys; Some (a @ b) }"
proof (induction xs)
  case Nil
  then show ?case by (cases "those ys") simp_all
next
  case (Cons x xs)
  then show ?case by (cases x; cases "those xs"; cases "those ys") simp_all
qed

lemma emits_types_Nil: "emits_types o1 s [] s"
  by (simp add: emits_types_def)

lemma emits_types_append: "emits_types o1 s us s1 \<Longrightarrow> emits_types o1 s1 ws s2 \<Longrightarrow> emits_types o1 s (us @ ws) s2"
  by (auto simp: emits_types_def defined_in_order_append those_append)

lemma emits_types_one:
  assumes "output_definition o1 t = Some d" "\<forall>f \<in> set (type_fields t). is_aggregate f \<longrightarrow> f \<in> set (snd s)" "t \<notin> set (snd s)"
  shows "emits_types o1 s [t] (fst s @ d, t # snd s)"
  using assms by (simp add: emits_types_def)

lemma OutputStructUnion_emits:
  "OutputStructUnion o1 t s = Some s' \<Longrightarrow>
     \<exists>new. emits_types o1 s new s' \<and> (\<forall>u \<in> set new. size u \<le> size t) \<and>
       (if t \<in> set (snd s) then new = [] else new \<noteq> [] \<and> last new = t)"
  "output_dependencies o1 fs s = Some s' \<Longrightarrow>
     \<exists>new. emits_types o1 s new s' \<and> (\<forall>u \<in> set new. \<exists>f \<in> set fs. size u \<le> size f) \<and>
       (\<forall>f \<in> set fs. is_aggregate f \<longrightarrow> f \<in> set (snd s'))"
proof (induction o1 t s and o1 fs s arbitrary: s' and s' rule: OutputStructUnion_output_dependencies.induct)
  case (1 o1 st sid p fs qs ls s)
  let ?t = "TAgg st sid p fs qs ls"
  show ?case
  proof (cases "?t \<in> set (snd s)")
    case True
    then show ?thesis using "1.prems" emits_types_Nil by auto
  next
    case False
    obtain s1 d where s1: "output_dependencies o1 fs s = Some s1" "output_definition o1 ?t = Some d"
      and s': "s' = (fst s1 @ d, ?t # snd s1)"
      using "1.prems"(1) False by (auto simp: bind_eq_Some_conv)
    obtain new where new: "emits_types o1 s new s1" "\<forall>u \<in> set new. \<exists>f \<in> set fs. size u \<le> size f"
      "\<forall>f \<in> set fs. is_aggregate f \<longrightarrow> f \<in> set (snd s1)" using "1.IH"[OF False s1(1)] by blast
    have small: "size u < size ?t" if u: "u \<in> set new" for u
    proof -
      obtain f where f: "f \<in> set fs" "size u \<le> size f" using bspec[OF new(2) u] by blast
      then show ?thesis using field_smaller[OF f(1), of st sid p qs ls] by simp
    qed
    then have "?t \<notin> set new" by blast
    moreover have "set (snd s1) = set new \<union> set (snd s)" using new(1) by (simp add: emits_types_def)
    ultimately have "?t \<notin> set (snd s1)" using False by blast
    then have "emits_types o1 s (new @ [?t]) s'"
      unfolding s' by (intro emits_types_append[OF new(1)] emits_types_one[OF s1(2)]) (use new(3) in simp_all)
    moreover have "size u \<le> size ?t" if "u \<in> set (new @ [?t])" for u
    proof (cases "u = ?t")
      case False
      then show ?thesis using that small[of u] less_imp_le by (metis Un_iff empty_iff empty_set set_ConsD set_append)
    qed simp
    ultimately show ?thesis using False by (intro exI[of _ "new @ [?t]"]) auto
  qed
next
  case (3 o1 s)
  then show ?case using emits_types_Nil by auto
next
  case (4 o1 f fs s)
  obtain s1 where s1: "(if is_aggregate f then OutputStructUnion o1 f s else Some s) = Some s1" "output_dependencies o1 fs s1 = Some s'"
    using "4.prems" by (auto simp: bind_eq_Some_conv)
  obtain m where m: "emits_types o1 s m s1" "\<forall>u \<in> set m. size u \<le> size f" "is_aggregate f \<longrightarrow> f \<in> set (snd s1)"
  proof (cases "is_aggregate f")
    case True
    then have "OutputStructUnion o1 f s = Some s1" using s1(1) by simp
    from "4.IH"(1)[OF True this] obtain m where "emits_types o1 s m s1" "\<forall>u \<in> set m. size u \<le> size f"
      "if f \<in> set (snd s) then m = [] else m \<noteq> [] \<and> last m = f" by blast
    moreover from this have "f \<in> set (snd s1)" by (auto simp: emits_types_def split: if_splits)
    ultimately show ?thesis using that by blast
  next
    case False
    then show ?thesis using s1(1) that[of "[]"] emits_types_Nil by simp
  qed
  obtain n where n: "emits_types o1 s1 n s'" "\<forall>u \<in> set n. \<exists>f \<in> set fs. size u \<le> size f"
    "\<forall>f \<in> set fs. is_aggregate f \<longrightarrow> f \<in> set (snd s')" using "4.IH"(2)[OF s1(1) s1(2)] by blast
  have "set (snd s1) \<subseteq> set (snd s')" using n(1) by (auto simp: emits_types_def)
  then show ?case using emits_types_append[OF m(1) n(1)] m(2,3) n(2,3) by (intro exI[of _ "m @ n"]) auto
qed auto

section \<open>Properties\<close>

text \<open>C24: Random qualifiers of a type fit the type.  The routine returns qualifiers that pass
  \<open>sanity_check\<close>, one pair per level; they honour the request (no volatile anywhere, not const when
  written, not volatile in a context with effects), and no level is const volatile when the options
  exclude it.\<close>

theorem random_qualifiers_sane:
  assumes "cp \<le> 100" "vp \<le> 100" "r_error s = 0"
  shows "\<exists>q s1. random_qualifiers o1 (Some t) acc sef no_volatile cp vp s = Some (q, s1) \<and> r_error s1 = 0 \<and>
    sanity_check t q \<and> \<not> wildcard q \<and>
    (no_volatile \<longrightarrow> (\<forall>v \<in> set (is_volatiles q). \<not> v)) \<and>
    (acc = WRITE \<longrightarrow> \<not> last (is_consts q)) \<and> (\<not> sef \<longrightarrow> \<not> last (is_volatiles q)) \<and>
    (\<not> opt_allow_const_volatile o1 \<longrightarrow> (\<forall>i < length (is_consts q). \<not> (is_consts q ! i \<and> is_volatiles q ! i)))"
  by (rule random_qualifiers_spec[OF assms])

lemma random_qualifiers_sane_witness:
  "\<exists>q s1. random_qualifiers (default_settings cgoptions_zero) (Some (TPointer (TSimple eInt))) WRITE True False 50 50
      (rng_of [10, 60, 20]) = Some (q, s1) \<and> sanity_check (TPointer (TSimple eInt)) q \<and> \<not> last (is_consts q)"
  using random_qualifiers_sane[of 50 50 "rng_of [10, 60, 20]" "default_settings cgoptions_zero" "TPointer (TSimple eInt)" WRITE True False]
  by (auto simp: rng_of_def)

text \<open>Dereferencing.  A type is dereferenced from another exactly when the other is a pointer
  over it of some depth; the indirection levels then differ by that depth, the base types agree, and
  no type is dereferenced from itself, so the relation is well founded.\<close>

lemma is_dereferenced_from_iff:
  "(is_dereferenced_from u t \<longleftrightarrow> (\<exists>n. t = pointers (Suc n) u)) \<and>
   (is_dereferenced_from u t \<longrightarrow>
      get_indirect_level u < get_indirect_level t \<and> get_base_type u = get_base_type t)"
proof (intro conjI impI)
  show iff: "is_dereferenced_from u t \<longleftrightarrow> (\<exists>n. t = pointers (Suc n) u)"
    by (auto simp: is_dereferenced_from_def deref_chain_iff)
  assume "is_dereferenced_from u t"
  then obtain n where t: "t = pointers (Suc n) u" using iff by blast
  show "get_indirect_level u < get_indirect_level t" "get_base_type u = get_base_type t"
    unfolding t level_pointers base_pointers by simp_all
qed

text \<open>The integer types: the five ranks, each in a signed and an unsigned version.\<close>

lemma simple_size_pos: "st \<noteq> eVoid \<Longrightarrow> 0 < simple_size st"
  by (cases st) auto

text \<open>The conversion relations on simple types.  Convertibility is an equivalence on them that
  only separates void; promotability to a type implies convertibility and never shrinks the size;
  making a type unsigned or signed keeps its size, has the stated signedness, and the two are inverse on
  the other's range.\<close>

lemma simple_conversions:
  "is_convertable (TSimple a) (TSimple a) \<and>
   is_convertable (TSimple a) (TSimple b) = is_convertable (TSimple b) (TSimple a) \<and>
   (is_convertable (TSimple a) (TSimple b) \<and> is_convertable (TSimple b) (TSimple c) \<longrightarrow>
      is_convertable (TSimple a) (TSimple c)) \<and>
   (is_promotable (TSimple a) (TSimple b) \<longrightarrow>
      is_convertable (TSimple a) (TSimple b) \<and> simple_size a \<le> simple_size b) \<and>
   (a \<noteq> eVoid \<longrightarrow> (\<exists>u s. to_unsigned (TSimple a) = Some (TSimple u) \<and> to_signed (TSimple a) = Some (TSimple s) \<and>
      \<not> is_signed (TSimple u) \<and> is_signed (TSimple s) \<and> simple_size u = simple_size a \<and> simple_size s = simple_size a \<and>
      to_signed (TSimple u) = Some (TSimple s) \<and> to_unsigned (TSimple s) = Some (TSimple u)))"
proof (intro conjI)
  show "is_promotable (TSimple a) (TSimple b) \<longrightarrow>
      is_convertable (TSimple a) (TSimple b) \<and> simple_size a \<le> simple_size b"
    by (cases a; cases b; simp add: is_convertable_def)
  show "a \<noteq> eVoid \<longrightarrow> (\<exists>u s. to_unsigned (TSimple a) = Some (TSimple u) \<and> to_signed (TSimple a) = Some (TSimple s) \<and>
      \<not> is_signed (TSimple u) \<and> is_signed (TSimple s) \<and> simple_size u = simple_size a \<and> simple_size s = simple_size a \<and>
      to_signed (TSimple u) = Some (TSimple s) \<and> to_unsigned (TSimple s) = Some (TSimple u))"
    by (cases a; simp add: to_unsigned_def to_signed_def is_signed_def unsigned_codes_def)
qed (auto simp: is_convertable_def)

text \<open>C25: declarations come before uses. What printing a struct or union type appends to the output is the
  sequence of the definitions of some types: none of them was printed before, none is printed twice, and every
  aggregate among the fields of one of them was printed before or has its definition further up in the sequence.
  The type itself is the last one, unless it was printed before: then nothing is appended. The types that were printed
  are recorded.\<close>

theorem OutputStructUnion_declares_before_use:
  assumes "OutputStructUnion o1 t (out, printed) = Some (out', printed')"
  shows "\<exists>new ds. those (map (output_definition o1) new) = Some ds \<and> out' = out @ concat ds \<and> printed' = rev new @ printed \<and>
      (\<forall>i < length new. new ! i \<notin> set printed \<union> set (take i new) \<and>
        (\<forall>f \<in> set (type_fields (new ! i)). is_aggregate f \<longrightarrow> f \<in> set printed \<union> set (take i new))) \<and>
      (if t \<in> set printed then new = [] else new \<noteq> [] \<and> last new = t) \<and>
      (decl_order printed \<longrightarrow> decl_order printed')"
proof -
  have ord: "new ! i \<notin> set known \<union> set (take i new) \<and>
      (\<forall>f \<in> set (type_fields (new ! i)). is_aggregate f \<longrightarrow> f \<in> set known \<union> set (take i new))"
    if "defined_in_order known new" "i < length new" for known new i
  proof -
    have "defined_in_order known (take i new @ new ! i # drop (Suc i) new)"
      using that(1) by (simp only: id_take_nth_drop[OF that(2), symmetric])
    then show ?thesis by (auto simp: defined_in_order_append)
  qed
  obtain new where new: "emits_types o1 (out, printed) new (out', printed')"
    "if t \<in> set printed then new = [] else new \<noteq> [] \<and> last new = t"
    using OutputStructUnion_emits(1)[OF assms] by auto
  then show ?thesis using ord[of printed new] decl_order_append[of printed new] by (auto simp: emits_types_def)
qed

definition inner_type :: ctype where
  "inner_type = TAgg True 0 False [TSimple eInt] [cvq_new [False] [False]] [3]"

definition outer_type :: ctype where
  "outer_type = TAgg True 1 True [inner_type, TPointer (TSimple eChar)]
     [cvq_new [False] [False], cvq_new [False, True] [False, False]] [-1, -1]"

lemma output_outer:
  "\<exists>out. OutputStructUnion (default_settings cgoptions_zero) outer_type ([], []) = Some (out, [outer_type, inner_type])"
proof -
  have c: "opt_consts (default_settings cgoptions_zero)"
    by (simp add: default_settings_def set_default_builtin_kinds_def)
  show ?thesis
    by (simp add: outer_type_def inner_type_def output_definition_def output_qualified_type_def sanity_check_def
        cvq_new_def OutputFirstQuals_def is_aggregate_def c)
qed

lemma OutputStructUnion_declares_before_use_witness:
  "\<exists>out' d1 d2. OutputStructUnion (default_settings cgoptions_zero) outer_type ([], []) = Some (out', [outer_type, inner_type]) \<and>
     output_definition (default_settings cgoptions_zero) inner_type = Some d1 \<and>
     output_definition (default_settings cgoptions_zero) outer_type = Some d2 \<and> out' = d1 @ d2"
proof -
  let ?o = "default_settings cgoptions_zero"
  obtain out' where o: "OutputStructUnion ?o outer_type ([], []) = Some (out', [outer_type, inner_type])"
    using output_outer by blast
  from OutputStructUnion_declares_before_use[OF this] obtain new ds where
    "those (map (output_definition ?o) new) = Some ds" "out' = [] @ concat ds" "[outer_type, inner_type] = rev new @ []" by blast
  moreover from this have "new = [inner_type, outer_type]" by (metis append_Nil2 rev_rev_ident rev.simps append_Nil append_Cons)
  ultimately show ?thesis using o by (auto split: option.splits)
qed

text \<open>Findings: a pointer has size 0, although \<open>CGOptions::pointer_size\<close> is read for it, and a
  union with a one-bit field has size 8.\<close>

lemma pointer_size_lost: "SizeInBytes (TPointer t) = Some 0"
  by simp

lemma union_bitfield_bits: "SizeInBytes (TAgg False 0 False [TSimple eInt] [cvq_new [False] [False]] [1]) = Some 8"
  by (simp add: bitfield_size_def SIZE_UNKNOWN_def)

end
