(* ===== verification/TypeGen.thy ===== *)
theory TypeGen
  imports Types
begin

text \<open>
  The generating half of Type.cpp: the tables of types, the interning of simple and pointer types, the
  random construction of structs, unions and pointers, and the random choice of existing types.
  The state is the pair of the type tables and the random number generator.  No random choice of
  the random mode changes the error code (lemmas of the theory Rng), so the error guards
  between the choices, which return a null pointer, are not repeated here: the routines are
  modelled for a state without error.
\<close>

section \<open>State\<close>

text \<open>\<open>used\<close> lists the types whose flag of that name is set; \<open>type_sequence\<close> is the static counter of the
  struct and union constructor.\<close>

record tstate =
  AllTypes :: "ctype list"
  derived_types :: "ctype list"
  used_types :: "ctype list"
  type_sequence :: nat

text \<open>The configuration: options, qualifier probabilities, the probabilities of the type
  generator, and the filter of disabled simple types.\<close>

record type_env =
  te_opts :: cgoptions
  te_qual :: qual_probs
  BitFieldsSignedProb :: nat
  ScalarFieldInFullBitFieldsProb :: nat
  BitFieldInNormalStructProb :: nat
  BitFieldsCreationProb :: nat
  MoreStructUnionTypeProb :: nat
  PointerAsLTypeProb :: nat
  StructAsLTypeProb :: nat
  simple_filter :: "simple_type \<Rightarrow> bool"

type_synonym gstate = "tstate \<times> rng"

definition mark_used :: "ctype \<Rightarrow> tstate \<Rightarrow> tstate" where
  "mark_used t ts = (if t \<in> set (used_types ts) then ts else ts\<lparr>used_types := t # used_types ts\<rparr>)"

text \<open>Coins and choices on the combined state.\<close>

definition g_flip :: "nat \<Rightarrow> gstate \<Rightarrow> (bool \<times> gstate) option" where
  "g_flip p g = do { (b, s) \<leftarrow> rnd_flipcoin p None (snd g); Some (b, (fst g, s)) }"

definition g_upto :: "nat \<Rightarrow> filter_opt \<Rightarrow> gstate \<Rightarrow> (nat \<times> gstate) option" where
  "g_upto n f g = do { (v, s) \<leftarrow> rnd_upto n f None (snd g); Some (v, (fst g, s)) }"

section \<open>Interning\<close>

definition get_simple_type :: "simple_type \<Rightarrow> tstate \<Rightarrow> ctype \<times> tstate" where
  "get_simple_type st ts =
     (TSimple st, if TSimple st \<in> set (AllTypes ts) then ts else ts\<lparr>AllTypes := AllTypes ts @ [TSimple st]\<rparr>)"

fun get_type_from_string :: "string \<Rightarrow> tstate \<Rightarrow> (ctype \<times> tstate) option" where
  "get_type_from_string s ts =
    (if s = ''Void'' then Some (TSimple eVoid, ts)
     else if s = ''Char'' then Some (get_simple_type eChar ts)
     else if s = ''UChar'' then Some (get_simple_type eUChar ts)
     else if s = ''Short'' then Some (get_simple_type eShort ts)
     else if s = ''UShort'' then Some (get_simple_type eUShort ts)
     else if s = ''Int'' then Some (get_simple_type eInt ts)
     else if s = ''UInt'' then Some (get_simple_type eUInt ts)
     else if s = ''Long'' then Some (get_simple_type eLong ts)
     else if s = ''ULong'' then Some (get_simple_type eULong ts)
     else if s = ''Longlong'' then Some (get_simple_type eLongLong ts)
     else if s = ''ULonglong'' then Some (get_simple_type eULongLong ts)
     else None)"

definition get_int_type :: "tstate \<Rightarrow> ctype \<times> tstate" where
  "get_int_type ts = get_simple_type eInt ts"

definition find_type :: "ctype \<Rightarrow> tstate \<Rightarrow> ctype option" where
  "find_type t ts = List.find (\<lambda>u. u = t) (AllTypes ts)"

definition find_pointer_type :: "ctype \<Rightarrow> bool \<Rightarrow> tstate \<Rightarrow> ctype option \<times> tstate" where
  "find_pointer_type t add ts =
    (case List.find (\<lambda>d. ptr_type d = Some t) (derived_types ts) of
       Some d \<Rightarrow> (Some d, ts)
     | None \<Rightarrow> if add then (Some (TPointer t), ts\<lparr>derived_types := derived_types ts @ [TPointer t]\<rparr>)
              else (None, ts))"

definition has_pointer_type :: "tstate \<Rightarrow> bool" where
  "has_pointer_type ts = (length (derived_types ts) > 0)"

section \<open>Choosing an existing type\<close>

text \<open>The filter classes, as predicates on the index drawn.  An index out of range cannot be drawn.\<close>

definition ChooseRandomTypeFilter :: "type_env \<Rightarrow> bool \<Rightarrow> tstate \<Rightarrow> nat \<Rightarrow> bool" where
  "ChooseRandomTypeFilter env for_field_var ts v =
    (case vec_at (AllTypes ts) v of
       None \<Rightarrow> True
     | Some t \<Rightarrow>
       (case t of
          TSimple st \<Rightarrow> simple_filter env st
        | _ \<Rightarrow> if is_struct t \<and> \<not> opt_return_structs (te_opts env) then True
              else for_field_var \<and> int (get_struct_depth t) \<ge> opt_max_nested_struct_level (te_opts env)))"

definition NonVoidTypeFilter :: "type_env \<Rightarrow> tstate \<Rightarrow> nat \<Rightarrow> bool" where
  "NonVoidTypeFilter env ts v =
    (case vec_at (AllTypes ts) v of
       None \<Rightarrow> True
     | Some t \<Rightarrow> (case t of TSimple st \<Rightarrow> st = eVoid \<or> simple_filter env st | _ \<Rightarrow> False))"

definition NonVoidNonVolatileTypeFilter :: "type_env \<Rightarrow> tstate \<Rightarrow> nat \<Rightarrow> bool" where
  "NonVoidNonVolatileTypeFilter env ts v =
    (case vec_at (AllTypes ts) v of
       None \<Rightarrow> True
     | Some t \<Rightarrow>
       if t = TSimple eVoid then True
       else if is_aggregate t \<and> is_volatile_struct_union t \<noteq> Some False then True
       else if is_struct t \<and> \<not> opt_arg_structs (te_opts env) then True
       else if is_union t \<and> \<not> opt_arg_unions (te_opts env) then True
       else (case t of TSimple st \<Rightarrow> simple_filter env st | _ \<Rightarrow> False))"

text \<open>Drawing an index of the table through a filter and marking the type used.\<close>

definition draw_type :: "(tstate \<Rightarrow> nat \<Rightarrow> bool) \<Rightarrow> gstate \<Rightarrow> (ctype \<times> gstate) option" where
  "draw_type flt g = do {
     (v, g1) \<leftarrow> g_upto (length (AllTypes (fst g))) (Some (flt (fst g))) g;
     t \<leftarrow> vec_at (AllTypes (fst g1)) v;
     Some (t, (mark_used t (fst g1), snd g1)) }"

definition choose_random :: "type_env \<Rightarrow> gstate \<Rightarrow> (ctype \<times> gstate) option" where
  "choose_random env g = draw_type (ChooseRandomTypeFilter env False) g"

definition choose_random_nonvoid :: "type_env \<Rightarrow> gstate \<Rightarrow> (ctype \<times> gstate) option" where
  "choose_random_nonvoid env g = draw_type (NonVoidTypeFilter env) g"

definition choose_random_nonvoid_nonvolatile :: "type_env \<Rightarrow> gstate \<Rightarrow> (ctype \<times> gstate) option" where
  "choose_random_nonvoid_nonvolatile env g = draw_type (NonVoidNonVolatileTypeFilter env) g"

definition choose_random_nonvoid_simple :: "type_env \<Rightarrow> gstate \<Rightarrow> (simple_type \<times> gstate) option" where
  "choose_random_nonvoid_simple env g = do {
     (v, g1) \<leftarrow> g_upto (length simple_types_list) (Some (\<lambda>v. simple_filter env (simple_types_list ! v))) g;
     st \<leftarrow> vec_at simple_types_list v;
     Some (st, g1) }"

definition choose_random_simple :: "type_env \<Rightarrow> gstate \<Rightarrow> (ctype \<times> gstate) option" where
  "choose_random_simple env g = do {
     (ty, g1) \<leftarrow> choose_random_nonvoid_simple env g;
     assert_that (ty \<noteq> eVoid);
     let (t, ts) = get_simple_type ty (fst g1);
     Some (t, (ts, snd g1)) }"

definition choose_random_pointer_type :: "gstate \<Rightarrow> (ctype \<times> gstate) option" where
  "choose_random_pointer_type g = do {
     (i, g1) \<leftarrow> g_upto (length (derived_types (fst g))) None g;
     t \<leftarrow> vec_at (derived_types (fst g1)) i;
     Some (t, g1) }"

fun ok_struct_union :: "bool \<Rightarrow> bool \<Rightarrow> bool \<Rightarrow> bool \<Rightarrow> ctype list \<Rightarrow> ctype list option" where
  "ok_struct_union no_const no_volatile need_int_field bStruct [] = Some []"
| "ok_struct_union no_const no_volatile need_int_field bStruct (t # ts) =
    (if (bStruct \<and> \<not> is_struct t) \<or> (\<not> bStruct \<and> \<not> is_union t) then
       ok_struct_union no_const no_volatile need_int_field bStruct ts
     else do {
       c \<leftarrow> (if no_const then is_const_struct_union t else Some False);
       v \<leftarrow> (if \<not> c \<and> no_volatile then is_volatile_struct_union t else Some False);
       rest \<leftarrow> ok_struct_union no_const no_volatile need_int_field bStruct ts;
       Some (if c \<or> v \<or> (need_int_field \<and> \<not> has_int_field t) then rest else t # rest) })"

definition get_all_ok_struct_union_types :: "bool \<Rightarrow> bool \<Rightarrow> bool \<Rightarrow> bool \<Rightarrow> tstate \<Rightarrow> ctype list option" where
  "get_all_ok_struct_union_types no_const no_volatile need_int_field bStruct ts =
     ok_struct_union no_const no_volatile need_int_field bStruct (AllTypes ts)"

definition choose_random_struct_union_type :: "ctype list \<Rightarrow> gstate \<Rightarrow> (ctype \<times> gstate) option" where
  "choose_random_struct_union_type ok_types g = do {
     assert_that (length ok_types > 0);
     (i, g1) \<leftarrow> g_upto (length ok_types) None g;
     t \<leftarrow> vec_at ok_types i;
     Some (t, (mark_used t (fst g1), snd g1)) }"

text \<open>\<open>no_volatile\<close> is passed in the position of \<open>no_const\<close>, as in the source.\<close>

definition choose_random_struct_from_type :: "ctype option \<Rightarrow> bool \<Rightarrow> gstate \<Rightarrow> (ctype option \<times> gstate) option" where
  "choose_random_struct_from_type ty no_volatile g =
    (case ty of
       None \<Rightarrow> Some (None, g)
     | Some t \<Rightarrow> do {
         ok \<leftarrow> get_all_ok_struct_union_types no_volatile False True True (fst g);
         if length ok > 0 then map_option (\<lambda>(u, g1). (Some u, g1)) (choose_random_struct_union_type ok g)
         else Some (Some t, g) })"

text \<open>With a null type the code chooses one and then still reads \<open>type->eType\<close>: undefined.\<close>

definition random_type_from_type :: "type_env \<Rightarrow> ctype option \<Rightarrow> bool \<Rightarrow> bool \<Rightarrow> gstate \<Rightarrow> (ctype \<times> gstate) option" where
  "random_type_from_type env ty no_volatile strict_simple_type g = do {
     (t, g1) \<leftarrow> (case ty of
        None \<Rightarrow> (if no_volatile then choose_random_nonvoid_nonvolatile env g else choose_random_nonvoid env g)
      | Some t \<Rightarrow> Some (t, g));
     ty0 \<leftarrow> ty;
     (t, g2) \<leftarrow> (if is_simple ty0 \<and> \<not> strict_simple_type then choose_random_simple env g1 else Some (t, g1));
     assert_that (t \<noteq> TSimple eVoid);
     Some (t, g2) }"

section \<open>Fields\<close>

type_synonym field_acc = "ctype list \<times> cvq list \<times> int list"

definition push_field :: "ctype \<Rightarrow> cvq \<Rightarrow> int \<Rightarrow> field_acc \<Rightarrow> field_acc" where
  "push_field t q l acc = (case acc of (fs, qs, ls) \<Rightarrow> (fs @ [t], qs @ [q], ls @ [l]))"

definition g_field_qualifiers :: "type_env \<Rightarrow> ctype \<Rightarrow> gstate \<Rightarrow> (cvq \<times> gstate) option" where
  "g_field_qualifiers env t g = do {
     (q, s) \<leftarrow> random_qualifiers_field (te_opts env) t (FieldConstProb (te_qual env)) (FieldVolatileProb (te_qual env)) (snd g);
     Some (q, (fst g, s)) }"

text \<open>The local \<open>max_length\<close>.\<close>

definition env_bits :: "type_env \<Rightarrow> int" where
  "env_bits env = opt_int_size (te_opts env) * 8"

definition make_one_bitfield :: "type_env \<Rightarrow> field_acc \<Rightarrow> gstate \<Rightarrow> (field_acc \<times> gstate) option" where
  "make_one_bitfield env acc g = do {
     let max_length = env_bits env;
     (sign, g1) \<leftarrow> g_flip (BitFieldsSignedProb env) g;
     let (t, ts) = get_simple_type (if sign then eInt else eUInt) (fst g1);
     (q, g2) \<leftarrow> g_field_qualifiers env t (ts, snd g1);
     (len, g3) \<leftarrow> g_upto (nat max_length) None g2;
     let fields_length = snd (snd acc);
     let no_zero_len = (fields_length = [] \<or> last fields_length = 0);
     (len, g4) \<leftarrow> (if len = 0 \<and> no_zero_len then
         (if max_length \<le> 2 then Some (1, g3)
          else do { (l, g4) \<leftarrow> g_upto (nat (max_length - 1)) None g3; Some (l + 1, g4) })
       else Some (len, g3));
     Some (push_field t q (int len) acc, g4) }"

definition make_one_struct_field :: "type_env \<Rightarrow> field_acc \<Rightarrow> gstate \<Rightarrow> (field_acc \<times> gstate) option" where
  "make_one_struct_field env acc g = do {
     (i, g1) \<leftarrow> g_upto (length (AllTypes (fst g))) (Some (ChooseRandomTypeFilter env True (fst g))) g;
     t \<leftarrow> vec_at (AllTypes (fst g1)) i;
     (q, g2) \<leftarrow> g_field_qualifiers env t g1;
     Some (push_field t q (-1) acc, g2) }"

fun make_full_bitfields_struct_fields :: "type_env \<Rightarrow> nat \<Rightarrow> field_acc \<Rightarrow> gstate \<Rightarrow> (field_acc \<times> gstate) option" where
  "make_full_bitfields_struct_fields env 0 acc g = Some (acc, g)"
| "make_full_bitfields_struct_fields env (Suc n) acc g = do {
     (is_non_bitfield, g1) \<leftarrow> g_flip (ScalarFieldInFullBitFieldsProb env) g;
     (acc, g2) \<leftarrow> (if is_non_bitfield then make_one_struct_field env acc g1 else make_one_bitfield env acc g1);
     make_full_bitfields_struct_fields env n acc g2 }"

fun make_normal_struct_fields :: "type_env \<Rightarrow> nat \<Rightarrow> field_acc \<Rightarrow> gstate \<Rightarrow> (field_acc \<times> gstate) option" where
  "make_normal_struct_fields env 0 acc g = Some (acc, g)"
| "make_normal_struct_fields env (Suc n) acc g = do {
     (is_bitfield, g1) \<leftarrow> (if opt_bitfields (te_opts env) then g_flip (BitFieldInNormalStructProb env) g else Some (False, g));
     (acc, g2) \<leftarrow> (if is_bitfield then make_one_bitfield env acc g1 else make_one_struct_field env acc g1);
     make_normal_struct_fields env n acc g2 }"

text \<open>The do-while loop that picks the type of a union member; it repeats until a type is accepted.\<close>

partial_function (option) pick_union_type ::
  "type_env \<Rightarrow> ctype list \<Rightarrow> ctype list \<Rightarrow> gstate \<Rightarrow> (ctype \<times> gstate) option" where
  "pick_union_type env ok_types struct_types g = do {
     (st, g1) \<leftarrow> (if struct_types \<noteq> [] then g_flip 10 g else Some (False, g));
     if st then do {
       (i, g2) \<leftarrow> g_upto (length struct_types) None g1;
       t \<leftarrow> vec_at struct_types i;
       assert_that (is_struct t);
       Some (t, g2) }
     else do {
       (cp, g2) \<leftarrow> (if opt_pointers (te_opts env) \<and> opt_int8 (te_opts env) then g_flip 10 g1 else Some (False, g1));
       if cp then
         let (c, ts) = get_simple_type eChar (fst g2); (pt, ts) = find_pointer_type c True ts
         in (case pt of None \<Rightarrow> pick_union_type env ok_types struct_types (ts, snd g2)
             | Some t \<Rightarrow> Some (t, (ts, snd g2)))
       else do {
         (i, g3) \<leftarrow> (if ok_types = [] then Some (0, g2) else g_upto (length ok_types) None g2);
         t \<leftarrow> vec_at ok_types i;
         if is_union t \<or> (case t of TSimple st \<Rightarrow> simple_filter env st | _ \<Rightarrow> False)
         then pick_union_type env ok_types struct_types g3
         else Some (t, g3) } } }"

definition make_one_union_field :: "type_env \<Rightarrow> field_acc \<Rightarrow> gstate \<Rightarrow> (field_acc \<times> gstate) option" where
  "make_one_union_field env acc g = do {
     (is_bf, g1) \<leftarrow> (if opt_bitfields (te_opts env) \<and> \<not> opt_ccomp (te_opts env)
                    then g_flip (BitFieldInNormalStructProb env) g else Some (False, g));
     if is_bf then make_one_bitfield env acc g1
     else do {
       bs \<leftarrow> mapM has_bitfields (AllTypes (fst g1));
       let ok_types = map fst (filter (\<lambda>(t, b). \<not> b) (zip (AllTypes (fst g1)) bs));
       let struct_types = filter is_struct ok_types;
       (t, g2) \<leftarrow> pick_union_type env ok_types struct_types g1;
       (q, g3) \<leftarrow> g_field_qualifiers env t g2;
       Some (push_field t q (-1) acc, g3) } }"

section \<open>Making types\<close>

definition new_aggregate :: "bool \<Rightarrow> bool \<Rightarrow> field_acc \<Rightarrow> gstate \<Rightarrow> ctype \<times> gstate" where
  "new_aggregate isStruct pk acc g =
    (case acc of (fs, qs, ls) \<Rightarrow>
       (TAgg isStruct (type_sequence (fst g)) pk fs qs ls,
        ((fst g)\<lparr>type_sequence := Suc (type_sequence (fst g))\<rparr>, snd g)))"

definition make_random_struct_type :: "type_env \<Rightarrow> gstate \<Rightarrow> (ctype \<times> gstate) option" where
  "make_random_struct_type env g = do {
     let max_cnt = nat (opt_max_struct_fields (te_opts env));
     (field_cnt, g1) \<leftarrow> (if opt_fixed_struct_fields (te_opts env) then Some (max_cnt, g)
        else do { (n, g1) \<leftarrow> g_upto max_cnt None g; Some (n + 1, g1) });
     (is_bitfields, g2) \<leftarrow> (if opt_bitfields (te_opts env) then g_flip (BitFieldsCreationProb env) g1 else Some (False, g1));
     (acc, g3) \<leftarrow> (if is_bitfields then make_full_bitfields_struct_fields env field_cnt ([], [], []) g2
                  else make_normal_struct_fields env field_cnt ([], [], []) g2);
     (pk, g4) \<leftarrow> (if opt_packed_struct (te_opts env) \<and>
                     \<not> (opt_ccomp (te_opts env) \<and> (has_aggregate_field (fst acc) \<or> has_longlong_field (fst acc)))
                  then g_flip 50 g3 else Some (False, g3));
     Some (new_aggregate True pk acc g4) }"

fun make_union_fields :: "type_env \<Rightarrow> nat \<Rightarrow> field_acc \<Rightarrow> gstate \<Rightarrow> (field_acc \<times> gstate) option" where
  "make_union_fields env 0 acc g = Some (acc, g)"
| "make_union_fields env (Suc n) acc g = do {
     (acc, g1) \<leftarrow> make_one_union_field env acc g;
     b \<leftarrow> has_bitfields (last (fst acc));
     assert_that (\<not> b);
     make_union_fields env n acc g1 }"

definition make_random_union_type :: "type_env \<Rightarrow> gstate \<Rightarrow> (ctype \<times> gstate) option" where
  "make_random_union_type env g = do {
     (n, g1) \<leftarrow> g_upto (nat (opt_max_union_fields (te_opts env))) None g;
     (acc, g2) \<leftarrow> make_union_fields env (n + 1) ([], [], []) g1;
     Some (new_aggregate False False acc g2) }"

definition make_random_pointer_type :: "type_env \<Rightarrow> gstate \<Rightarrow> (ctype option \<times> gstate) option" where
  "make_random_pointer_type env g = do {
     (b, g1) \<leftarrow> g_flip 20 g;
     (pp, g2) \<leftarrow> (if b \<and> derived_types (fst g1) \<noteq> [] then do {
         (i, g2) \<leftarrow> g_upto (length (derived_types (fst g1))) None g1;
         t \<leftarrow> vec_at (derived_types (fst g2)) i;
         Some (if int (get_indirect_level t) < opt_max_indirect_level (te_opts env) then Some t else None, g2) }
       else Some (None, g1));
     (case pp of
        Some t \<Rightarrow> let (r, ts) = find_pointer_type t True (fst g2) in Some (r, (ts, snd g2))
      | None \<Rightarrow> do {
          (t, g3) \<leftarrow> choose_random env g2;
          let (t, ts) = (if is_simple t then get_int_type (fst g3) else (t, fst g3));
          let (r, ts) = find_pointer_type t True ts;
          Some (r, (ts, snd g3)) }) }"

definition SelectLType :: "type_env \<Rightarrow> bool \<Rightarrow> assign_op \<Rightarrow> gstate \<Rightarrow> (ctype \<times> gstate) option" where
  "SelectLType env no_volatile op g = do {
     (p, g1) \<leftarrow> (if op = eSimpleAssign then g_flip (PointerAsLTypeProb env) g else Some (False, g));
     (ty, g2) \<leftarrow> (if p then make_random_pointer_type env g1 else Some (None, g1));
     (ty, g3) \<leftarrow> (if ty = None then do {
         ok \<leftarrow> get_all_ok_struct_union_types True no_volatile False True (fst g2);
         (b, g3) \<leftarrow> (if length ok > 0 \<and> op = eSimpleAssign then g_flip (StructAsLTypeProb env) g2 else Some (False, g2));
         if b then map_option (\<lambda>(u, g4). (Some u, g4)) (choose_random_struct_union_type ok g3)
         else Some (None, g3) }
       else Some (ty, g2));
     Some (case ty of Some t \<Rightarrow> (t, g3)
       | None \<Rightarrow> let (t, ts) = get_int_type (fst g3) in (t, (ts, snd g3))) }"

section \<open>All types\<close>

definition GenerateSimpleTypes :: "tstate \<Rightarrow> tstate" where
  "GenerateSimpleTypes ts = ts\<lparr>AllTypes := AllTypes ts @ map TSimple (tl simple_types_list)\<rparr>"

definition MoreTypesProbability :: "type_env \<Rightarrow> gstate \<Rightarrow> (bool \<times> gstate) option" where
  "MoreTypesProbability env g =
    (if length (AllTypes (fst g)) < 10 then Some (True, g) else g_flip (MoreStructUnionTypeProb env) g)"

partial_function (option) more_types ::
  "(gstate \<Rightarrow> (ctype \<times> gstate) option) \<Rightarrow> type_env \<Rightarrow> gstate \<Rightarrow> gstate option" where
  "more_types mk env g = do {
     (more, g1) \<leftarrow> MoreTypesProbability env g;
     if more then do {
       (t, g2) \<leftarrow> mk g1;
       more_types mk env ((fst g2)\<lparr>AllTypes := AllTypes (fst g2) @ [t]\<rparr>, snd g2) }
     else Some g1 }"

definition GenerateAllTypes :: "type_env \<Rightarrow> gstate \<Rightarrow> gstate option" where
  "GenerateAllTypes env g = do {
     let g1 = (GenerateSimpleTypes (fst g), snd g);
     g2 \<leftarrow> (if opt_use_struct (te_opts env) then more_types (make_random_struct_type env) env g1 else Some g1);
     (if opt_use_union (te_opts env) then more_types (make_random_union_type env) env g2 else Some g2) }"

definition type_doFinalization :: "tstate \<Rightarrow> tstate" where
  "type_doFinalization ts = ts\<lparr>AllTypes := [], derived_types := []\<rparr>"

section \<open>Invariants\<close>

lemma g_upto_SomeD:
  "g_upto n f g = Some (v, g1) \<Longrightarrow>
     v < n \<and> \<not> rejects f v \<and> fst g1 = fst g \<and> r_error (snd g1) = r_error (snd g)"
  by (auto simp: g_upto_def bind_eq_Some_conv dest: rnd_upto_SomeD)

lemma g_flip_SomeD:
  "g_flip p g = Some (b, g1) \<Longrightarrow> fst g1 = fst g \<and> r_error (snd g1) = r_error (snd g)"
  by (auto simp: g_flip_def bind_eq_Some_conv dest: rnd_flipcoin_SomeD)

text \<open>A field the generator may push, for the depth bound \<open>m\<close> of nested structs.\<close>

definition field_ok :: "ctype \<Rightarrow> cvq \<Rightarrow> int \<Rightarrow> bool" where
  "field_ok t q l \<longleftrightarrow> wf_type t \<and> get_base_type t \<noteq> TSimple eVoid \<and> sanity_check t q \<and> wf_cvq q \<and> \<not> wildcard q \<and>
     (l \<ge> 0 \<longrightarrow> t = TSimple eInt \<or> t = TSimple eUInt)"

text \<open>The layout rules for bit-fields: a width fits the integer, and a zero width (which closes a
  storage unit) neither comes first nor follows another zero width.\<close>

definition layout_ok :: "int \<Rightarrow> int list \<Rightarrow> bool" where
  "layout_ok bits ls \<longleftrightarrow> (\<forall>i < length ls. -1 \<le> ls ! i \<and> ls ! i < max 1 bits \<and>
     (ls ! i = 0 \<longrightarrow> i > 0 \<and> ls ! (i - 1) \<noteq> 0))"

definition env_depth :: "type_env \<Rightarrow> int" where
  "env_depth env = max 1 (opt_max_nested_struct_level (te_opts env))"

definition acc_ok :: "type_env \<Rightarrow> field_acc \<Rightarrow> bool" where
  "acc_ok env acc \<longleftrightarrow> (case acc of (fs, qs, ls) \<Rightarrow>
     length qs = length fs \<and> length ls = length fs \<and>
     (\<forall>i < length fs. field_ok (fs ! i) (qs ! i) (ls ! i)) \<and> layout_ok (env_bits env) ls)"

definition struct_acc_ok :: "type_env \<Rightarrow> field_acc \<Rightarrow> bool" where
  "struct_acc_ok env acc \<longleftrightarrow> acc_ok env acc \<and> (\<forall>f \<in> set (fst acc). int (get_struct_depth f) < env_depth env)"

definition union_acc_ok :: "type_env \<Rightarrow> field_acc \<Rightarrow> bool" where
  "union_acc_ok env acc \<longleftrightarrow> acc_ok env acc \<and> (\<forall>f \<in> set (fst acc). \<not> is_union f \<and> has_bitfields f = Some False)"

fun sid_below :: "nat \<Rightarrow> ctype \<Rightarrow> bool" where
  "sid_below n (TAgg st sid p fs qs ls) = (sid < n)"
| "sid_below n _ = True"

definition table_type_ok :: "type_env \<Rightarrow> nat \<Rightarrow> ctype \<Rightarrow> bool" where
  "table_type_ok env n t \<longleftrightarrow> wf_type t \<and> \<not> is_pointer t \<and> \<not> is_vector t \<and> t \<noteq> TSimple eVoid \<and>
     int (get_struct_depth t) \<le> env_depth env \<and> layout_ok (env_bits env) (bitfields_length t) \<and>
     (is_union t \<longrightarrow> (\<forall>f \<in> set (type_fields t). \<not> is_union f \<and> has_bitfields f = Some False)) \<and>
     sid_below n t"

definition types_ok :: "type_env \<Rightarrow> tstate \<Rightarrow> bool" where
  "types_ok env ts \<longleftrightarrow> (\<forall>t \<in> set (AllTypes ts). table_type_ok env (type_sequence ts) t) \<and> distinct (AllTypes ts)"

definition pointers_ok :: "type_env \<Rightarrow> tstate \<Rightarrow> bool" where
  "pointers_ok env ts \<longleftrightarrow> distinct (derived_types ts) \<and>
     (\<forall>d \<in> set (derived_types ts). is_pointer d \<and> wf_type d \<and> get_base_type d \<noteq> TSimple eVoid \<and>
        int (get_indirect_level d) \<le> max 1 (opt_max_indirect_level (te_opts env)))"

definition gen_ok :: "type_env \<Rightarrow> gstate \<Rightarrow> bool" where
  "gen_ok env g \<longleftrightarrow> types_ok env (fst g) \<and> pointers_ok env (fst g) \<and> r_error (snd g) = 0"

lemma layout_ok_push:
  "layout_ok b ls \<Longrightarrow> -1 \<le> l \<Longrightarrow> l < max 1 b \<Longrightarrow> (l = 0 \<longrightarrow> ls \<noteq> [] \<and> last ls \<noteq> 0) \<Longrightarrow> layout_ok b (ls @ [l])"
  unfolding layout_ok_def
proof (intro allI impI)
  fix i assume a: "\<forall>i<length ls. - 1 \<le> ls ! i \<and> ls ! i < max 1 b \<and> (ls ! i = 0 \<longrightarrow> 0 < i \<and> ls ! (i - 1) \<noteq> 0)"
    "-1 \<le> l" "l < max 1 b" "l = 0 \<longrightarrow> ls \<noteq> [] \<and> last ls \<noteq> 0" "i < length (ls @ [l])"
  show "- 1 \<le> (ls @ [l]) ! i \<and> (ls @ [l]) ! i < max 1 b \<and>
      ((ls @ [l]) ! i = 0 \<longrightarrow> 0 < i \<and> (ls @ [l]) ! (i - 1) \<noteq> 0)"
  proof (cases "i < length ls")
    case True
    then have "i - 1 < length ls" by simp
    then show ?thesis using a(1) True by (auto simp: nth_append)
  next
    case False
    then have i: "i = length ls" using a(5) by simp
    then show ?thesis using a(2-4) by (auto simp: nth_append last_conv_nth)
  qed
qed

lemma acc_ok_push:
  assumes "acc_ok env acc" "field_ok t q l" "-1 \<le> l" "l < max 1 (env_bits env)"
    "l = 0 \<longrightarrow> snd (snd acc) \<noteq> [] \<and> last (snd (snd acc)) \<noteq> 0"
  shows "acc_ok env (push_field t q l acc)"
  using assms layout_ok_push[of "env_bits env" "snd (snd acc)" l]
  by (auto simp: acc_ok_def push_field_def nth_append less_Suc_eq split: prod.splits)

lemma fst_push_field [simp]: "fst (push_field t q l acc) = fst acc @ [t]"
  by (simp add: push_field_def split: prod.splits)

lemma simple_table_ok: "st \<noteq> eVoid \<Longrightarrow> table_type_ok env n (TSimple st)"
  by (simp add: table_type_ok_def env_depth_def layout_ok_def)

lemma sid_below_mono: "sid_below m t \<Longrightarrow> m \<le> n \<Longrightarrow> sid_below n t"
  by (cases t) auto

lemma table_type_ok_mono: "table_type_ok env m t \<Longrightarrow> m \<le> n \<Longrightarrow> table_type_ok env n t"
  unfolding table_type_ok_def using sid_below_mono by blast

lemma get_simple_type_ok:
  assumes "types_ok env ts" "st \<noteq> eVoid"
  shows "types_ok env (snd (get_simple_type st ts)) \<and> fst (get_simple_type st ts) = TSimple st \<and>
    derived_types (snd (get_simple_type st ts)) = derived_types ts \<and>
    type_sequence (snd (get_simple_type st ts)) = type_sequence ts"
  using assms simple_table_ok[of st env "type_sequence ts"]
  by (auto simp: get_simple_type_def types_ok_def)

lemma gen_ok_simple:
  "gen_ok env (ts, s) \<Longrightarrow> st \<noteq> eVoid \<Longrightarrow> get_simple_type st ts = (t, ts') \<Longrightarrow>
     t = TSimple st \<and> gen_ok env (ts', s)"
  using get_simple_type_ok[of env ts st] by (auto simp: gen_ok_def pointers_ok_def)

lemma g_field_qualifiers_ok:
  assumes "good_probs (te_qual env)" "r_error (snd g) = 0" "g_field_qualifiers env t g = Some (q, g1)"
  shows "sanity_check t q \<and> wf_cvq q \<and> \<not> wildcard q \<and> fst g1 = fst g \<and> r_error (snd g1) = 0"
proof -
  obtain q' s1 where r: "random_qualifiers_field (te_opts env) t (FieldConstProb (te_qual env))
        (FieldVolatileProb (te_qual env)) (snd g) = Some (q', s1)" "r_error s1 = 0" "sanity_check t q'" "\<not> wildcard q'"
    using random_qualifiers_spec[of "FieldConstProb (te_qual env)" "FieldVolatileProb (te_qual env)" "snd g"
        "te_opts env" t READ True False] assms(1,2)
    by (auto simp: good_probs_def random_qualifiers_field_def)
  then have "wf_cvq q'" by (auto simp: sanity_check_def wf_cvq_def)
  then show ?thesis using r assms(3) by (auto simp: g_field_qualifiers_def)
qed

lemma make_one_bitfield_ok:
  assumes "good_probs (te_qual env)" "gen_ok env g" "acc_ok env acc"
    "make_one_bitfield env acc g = Some (acc', g')"
  shows "acc_ok env acc' \<and> gen_ok env g' \<and> (\<exists>st. fst acc' = fst acc @ [TSimple st])"
proof -
  obtain sign g1 where 1: "g_flip (BitFieldsSignedProb env) g = Some (sign, g1)"
    using assms(4) by (auto simp: make_one_bitfield_def Let_def bind_eq_Some_conv)
  let ?st = "if sign then eInt else eUInt"
  obtain t ts where t: "get_simple_type ?st (fst g1) = (t, ts)" by force
  obtain q g2 len g3 len' where
    2: "g_field_qualifiers env t (ts, snd g1) = Some (q, g2)" and
    3: "g_upto (nat (env_bits env)) None g2 = Some (len, g3)" and
    4: "(if len = 0 \<and> (snd (snd acc) = [] \<or> last (snd (snd acc)) = 0) then
         (if env_bits env \<le> 2 then Some (1, g3)
          else do { (l, g4) \<leftarrow> g_upto (nat (env_bits env - 1)) None g3; Some (l + 1, g4) })
       else Some (len, g3)) = Some (len', g')" and
    r: "acc' = push_field t q (int len') acc"
    using assms(4) 1 t
    by (auto simp: make_one_bitfield_def Let_def bind_eq_Some_conv split: prod.splits)
  have ok1: "gen_ok env g1" using g_flip_SomeD[OF 1] assms(2) by (simp add: gen_ok_def)
  then have ts: "t = TSimple ?st" "gen_ok env (ts, snd g1)"
    using gen_ok_simple[of env "fst g1" "snd g1" ?st t ts] t by auto
  then have q: "sanity_check t q" "wf_cvq q" "\<not> wildcard q" and ok2: "gen_ok env g2"
    using g_field_qualifiers_ok[OF assms(1) _ 2] by (auto simp: gen_ok_def)
  have ok3: "gen_ok env g3" and len: "len < nat (env_bits env)" using g_upto_SomeD[OF 3] ok2 by (auto simp: gen_ok_def)
  have "0 < env_bits env" using len by (cases "0 < env_bits env") auto
  then have bits: "8 \<le> env_bits env" unfolding env_bits_def by presburger
  have ok': "gen_ok env g'" and l': "int len' < env_bits env"
    "len' = 0 \<longrightarrow> snd (snd acc) \<noteq> [] \<and> last (snd (snd acc)) \<noteq> 0"
    using 4 ok3 len bits g_upto_SomeD[of "nat (env_bits env - 1)" None g3]
    by (auto simp: bind_eq_Some_conv gen_ok_def split: if_splits)
  have f: "field_ok t q (int len')" using q ts(1) by (simp add: field_ok_def)
  have "acc_ok env acc'" unfolding r
    by (rule acc_ok_push[OF assms(3) f]) (use l' bits in auto)
  then show ?thesis using ok' r ts(1) by auto
qed

lemma choose_field_type:
  assumes "types_ok env ts" "t \<in> set (AllTypes ts)"
  shows "wf_type t" "get_base_type t \<noteq> TSimple eVoid"
  using assms by (cases t; auto simp: types_ok_def table_type_ok_def)+

lemma make_one_struct_field_ok:
  assumes "good_probs (te_qual env)" "gen_ok env g" "acc_ok env acc"
    "make_one_struct_field env acc g = Some (acc', g')"
  shows "acc_ok env acc' \<and> gen_ok env g' \<and> (\<exists>t. fst acc' = fst acc @ [t] \<and> int (get_struct_depth t) < env_depth env)"
proof -
  obtain i g1 q t where
    1: "g_upto (length (AllTypes (fst g))) (Some (ChooseRandomTypeFilter env True (fst g))) g = Some (i, g1)" and
    2: "i < length (AllTypes (fst g1))" "t = AllTypes (fst g1) ! i" and
    3: "g_field_qualifiers env t g1 = Some (q, g')" and r: "acc' = push_field t q (-1) acc"
    using assms(4) by (auto simp: make_one_struct_field_def bind_eq_Some_conv)
  have f1: "fst g1 = fst g" "r_error (snd g1) = 0" "\<not> ChooseRandomTypeFilter env True (fst g) i"
    using g_upto_SomeD[OF 1] assms(2) by (auto simp: gen_ok_def rejects_def)
  have t: "t \<in> set (AllTypes (fst g))" using 2 f1 by simp
  have "types_ok env (fst g)" using assms(2) by (simp add: gen_ok_def)
  note wf = choose_field_type[OF this t]
  have nth: "AllTypes (fst g) ! i = t" "i < length (AllTypes (fst g))" using 2 f1(1) by simp_all
  have d: "int (get_struct_depth t) < env_depth env"
    using f1(3) by (cases t) (auto simp: ChooseRandomTypeFilter_def vec_at_def nth env_depth_def split: if_splits)
  have q: "sanity_check t q" "wf_cvq q" "\<not> wildcard q" "fst g' = fst g1" "r_error (snd g') = 0"
    using g_field_qualifiers_ok[OF assms(1) f1(2) 3] by auto
  then have "field_ok t q (-1)" using wf by (simp add: field_ok_def)
  then have "acc_ok env acc'" unfolding r by (intro acc_ok_push[OF assms(3)]) auto
  then show ?thesis using r d q f1 assms(2) by (auto simp: gen_ok_def)
qed

lemma struct_fields_ok:
  assumes "good_probs (te_qual env)"
  shows "gen_ok env g \<Longrightarrow> struct_acc_ok env acc \<Longrightarrow> make_full_bitfields_struct_fields env n acc g = Some (acc', g') \<Longrightarrow>
      struct_acc_ok env acc' \<and> gen_ok env g' \<and> length (fst acc') = length (fst acc) + n"
    and "gen_ok env g \<Longrightarrow> struct_acc_ok env acc \<Longrightarrow> make_normal_struct_fields env n acc g = Some (acc', g') \<Longrightarrow>
      struct_acc_ok env acc' \<and> gen_ok env g' \<and> length (fst acc') = length (fst acc) + n"
proof -
  have step: "struct_acc_ok env acc1 \<and> gen_ok env g1 \<and> length (fst acc1) = Suc (length (fst acc0))"
    if "gen_ok env g0" "struct_acc_ok env acc0"
      "make_one_struct_field env acc0 g0 = Some (acc1, g1) \<or> make_one_bitfield env acc0 g0 = Some (acc1, g1)"
    for acc0 g0 acc1 g1
  proof -
    have a: "acc_ok env acc0" "\<forall>f \<in> set (fst acc0). int (get_struct_depth f) < env_depth env"
      using that(2) by (simp_all add: struct_acc_ok_def)
    from that(3) show ?thesis
    proof
      assume "make_one_struct_field env acc0 g0 = Some (acc1, g1)"
      from make_one_struct_field_ok[OF assms that(1) a(1) this] show ?thesis
        using a(2) unfolding struct_acc_ok_def by fastforce
    next
      assume "make_one_bitfield env acc0 g0 = Some (acc1, g1)"
      from make_one_bitfield_ok[OF assms that(1) a(1) this] show ?thesis
        using a(2) unfolding struct_acc_ok_def env_depth_def by fastforce
    qed
  qed
  have flip: "gen_ok env g1" if "g_flip p g0 = Some (b, g1)" "gen_ok env g0" for p g0 b g1
    using g_flip_SomeD[OF that(1)] that(2) by (simp add: gen_ok_def)
  show "gen_ok env g \<Longrightarrow> struct_acc_ok env acc \<Longrightarrow> make_full_bitfields_struct_fields env n acc g = Some (acc', g') \<Longrightarrow>
      struct_acc_ok env acc' \<and> gen_ok env g' \<and> length (fst acc') = length (fst acc) + n"
  proof (induction n arbitrary: acc g)
    case (Suc n)
    obtain b g1 acc1 g2 where 1: "g_flip (ScalarFieldInFullBitFieldsProb env) g = Some (b, g1)"
      "(if b then make_one_struct_field env acc g1 else make_one_bitfield env acc g1) = Some (acc1, g2)"
      "make_full_bitfields_struct_fields env n acc1 g2 = Some (acc', g')"
      using Suc.prems(3) by (auto simp: bind_eq_Some_conv)
    have d: "make_one_struct_field env acc g1 = Some (acc1, g2) \<or> make_one_bitfield env acc g1 = Some (acc1, g2)"
      using 1(2) by (cases b) auto
    note st = step[OF flip[OF 1(1) Suc.prems(1)] Suc.prems(2) d]
    show ?case using Suc.IH[OF _ _ 1(3)] st by auto
  qed simp
  show "gen_ok env g \<Longrightarrow> struct_acc_ok env acc \<Longrightarrow> make_normal_struct_fields env n acc g = Some (acc', g') \<Longrightarrow>
      struct_acc_ok env acc' \<and> gen_ok env g' \<and> length (fst acc') = length (fst acc) + n"
  proof (induction n arbitrary: acc g)
    case (Suc n)
    obtain b g1 acc1 g2 where 1: "(if opt_bitfields (te_opts env) then g_flip (BitFieldInNormalStructProb env) g else Some (False, g)) = Some (b, g1)"
      "(if b then make_one_bitfield env acc g1 else make_one_struct_field env acc g1) = Some (acc1, g2)"
      "make_normal_struct_fields env n acc1 g2 = Some (acc', g')"
      using Suc.prems(3) by (auto simp: bind_eq_Some_conv)
    have "gen_ok env g1" using 1(1) flip Suc.prems(1) by (auto split: if_splits)
    moreover have d: "make_one_struct_field env acc g1 = Some (acc1, g2) \<or> make_one_bitfield env acc g1 = Some (acc1, g2)"
      using 1(2) by (cases b) auto
    ultimately have st: "struct_acc_ok env acc1 \<and> gen_ok env g2 \<and> length (fst acc1) = Suc (length (fst acc))"
      using step[OF _ Suc.prems(2) d] by blast
    show ?case using Suc.IH[OF _ _ 1(3)] st by auto
  qed simp
qed

text \<open>From an accumulator to a table entry.\<close>

lemma foldr_max_less: "(\<forall>x \<in> set xs. int x < b) \<Longrightarrow> 1 \<le> b \<Longrightarrow> 1 + int (foldr max xs 0) \<le> b"
  by (induction xs) (auto simp: max_def)

lemma acc_ok_lists:
  assumes "acc_ok env (fs, qs, ls)" "fs \<noteq> []"
  shows "wf_type (TAgg st sid p fs qs ls)"
proof -
  have l: "length qs = length fs" "length ls = length fs"
    and f: "\<And>i. i < length fs \<Longrightarrow> field_ok (fs ! i) (qs ! i) (ls ! i)"
    using assms(1) by (auto simp: acc_ok_def)
  show ?thesis
    using l assms(2) f by (simp add: list_all_length list_all2_conv_all_nth field_ok_def)
qed

lemma aggregate_table_ok:
  assumes "acc_ok env acc" "fst acc \<noteq> []"
    "isStruct \<longrightarrow> (\<forall>f \<in> set (fst acc). int (get_struct_depth f) < env_depth env)"
    "\<not> isStruct \<longrightarrow> (\<forall>f \<in> set (fst acc). \<not> is_union f \<and> has_bitfields f = Some False)"
    "new_aggregate isStruct pk acc g = (t, g')" "gen_ok env g"
  shows "table_type_ok env (type_sequence (fst g')) t \<and> t \<notin> set (AllTypes (fst g')) \<and> gen_ok env g' \<and>
    AllTypes (fst g') = AllTypes (fst g)"
proof -
  obtain fs qs ls where acc: "acc = (fs, qs, ls)" by (cases acc)
  let ?n = "type_sequence (fst g)"
  have t: "t = TAgg isStruct ?n pk fs qs ls" and g': "g' = ((fst g)\<lparr>type_sequence := Suc ?n\<rparr>, snd g)"
    using assms(5) by (auto simp: new_aggregate_def acc)
  have d: "int (get_struct_depth t) \<le> env_depth env"
    using assms(3) foldr_max_less[of "map get_struct_depth fs" "env_depth env"] t acc
    by (auto simp: env_depth_def)
  have "layout_ok (env_bits env) ls" using assms(1) by (simp add: acc_ok_def acc)
  then have ok: "table_type_ok env (Suc ?n) t"
    using acc_ok_lists[of env fs qs ls] assms(1,2,4) d t acc by (simp add: table_type_ok_def)
  have old: "table_type_ok env ?n u" if "u \<in> set (AllTypes (fst g))" for u
    using assms(6) that by (simp add: gen_ok_def types_ok_def)
  then have "t \<notin> set (AllTypes (fst g))" using t unfolding table_type_ok_def by fastforce
  moreover have "gen_ok env g'"
    using assms(6) old table_type_ok_mono[of env ?n _ "Suc ?n"] g'
    by (auto simp: gen_ok_def types_ok_def pointers_ok_def)
  ultimately show ?thesis using ok g' by simp
qed

lemma make_random_struct_type_ok:
  assumes "good_probs (te_qual env)" "gen_ok env g" "make_random_struct_type env g = Some (t, g')"
    "1 \<le> opt_max_struct_fields (te_opts env)"
  shows "table_type_ok env (type_sequence (fst g')) t \<and> t \<notin> set (AllTypes (fst g')) \<and> gen_ok env g' \<and> is_struct t \<and>
    int (length (type_fields t)) \<le> opt_max_struct_fields (te_opts env)"
proof -
  let ?max = "nat (opt_max_struct_fields (te_opts env))"
  obtain n g1 b g2 acc g3 pk g4 where
    1: "(if opt_fixed_struct_fields (te_opts env) then Some (?max, g)
        else do { (n, g1) \<leftarrow> g_upto ?max None g; Some (n + 1, g1) }) = Some (n, g1)" and
    2: "(if opt_bitfields (te_opts env) then g_flip (BitFieldsCreationProb env) g1 else Some (False, g1)) = Some (b, g2)" and
    3: "(if b then make_full_bitfields_struct_fields env n ([], [], []) g2
         else make_normal_struct_fields env n ([], [], []) g2) = Some (acc, g3)" and
    4: "(if opt_packed_struct (te_opts env) \<and>
          \<not> (opt_ccomp (te_opts env) \<and> (has_aggregate_field (fst acc) \<or> has_longlong_field (fst acc)))
         then g_flip 50 g3 else Some (False, g3)) = Some (pk, g4)" and
    5: "new_aggregate True pk acc g4 = (t, g')"
    using assms(3) unfolding make_random_struct_type_def Let_def
    by (auto simp: bind_eq_Some_conv simp del: split_paired_Ex)
  have n: "1 \<le> n" "n \<le> ?max" and ok1: "gen_ok env g1"
    using 1 assms(2,4) g_upto_SomeD[of ?max None g] by (auto simp: bind_eq_Some_conv gen_ok_def split: if_splits)
  have ok2: "gen_ok env g2"
    using 2 ok1 g_flip_SomeD[of _ g1 b g2] by (auto simp: gen_ok_def split: if_splits)
  have e: "struct_acc_ok env ([], [], [])" by (simp add: struct_acc_ok_def acc_ok_def layout_ok_def)
  have a: "struct_acc_ok env acc \<and> gen_ok env g3 \<and> length (fst acc) = n"
    using struct_fields_ok[OF assms(1) ok2 e, of n acc g3] 3 by (cases b) auto
  have ok4: "gen_ok env g4"
    using 4 a g_flip_SomeD[of _ g3 pk g4] by (auto simp: gen_ok_def split: if_splits)
  have ne: "fst acc \<noteq> []" using a n by auto
  have "is_struct t" "type_fields t = fst acc" using 5 by (auto simp: new_aggregate_def split: prod.splits)
  then show ?thesis
    using aggregate_table_ok[of env acc True pk g4 t g'] a ne 5 ok4 n assms(4) by (auto simp: struct_acc_ok_def)
qed

lemma ptr_type_eq_Some [simp]: "ptr_type d = Some t \<longleftrightarrow> d = TPointer t"
  by (cases d) auto

lemma find_pointer_type_ok:
  assumes "pointers_ok env ts" "wf_type t" "get_base_type t \<noteq> TSimple eVoid"
    "int (get_indirect_level t) < max 1 (opt_max_indirect_level (te_opts env))"
    "find_pointer_type t True ts = (r, ts')"
  shows "r = Some (TPointer t) \<and> pointers_ok env ts' \<and> AllTypes ts' = AllTypes ts \<and>
    type_sequence ts' = type_sequence ts \<and> TPointer t \<in> set (derived_types ts')"
proof (cases "List.find (\<lambda>d. ptr_type d = Some t) (derived_types ts)")
  case None
  then have "TPointer t \<notin> set (derived_types ts)" by (auto simp: find_None_iff)
  then show ?thesis using assms None by (auto simp: find_pointer_type_def pointers_ok_def)
next
  case (Some d)
  then have "d = TPointer t" "TPointer t \<in> set (derived_types ts)"
    by (auto simp: find_Some_iff) (metis nth_mem)
  then show ?thesis using assms Some by (auto simp: find_pointer_type_def)
qed

definition union_member_ok :: "ctype \<Rightarrow> bool" where
  "union_member_ok t \<longleftrightarrow> wf_type t \<and> get_base_type t \<noteq> TSimple eVoid \<and> \<not> is_union t \<and> has_bitfields t = Some False"

lemma pick_union_type_ok:
  assumes "pick_union_type env oks sts g = Some y" "gen_ok env g"
    "\<forall>t \<in> set oks. wf_type t \<and> get_base_type t \<noteq> TSimple eVoid \<and> has_bitfields t = Some False"
    "set sts \<subseteq> set oks"
  shows "union_member_ok (fst y) \<and> gen_ok env (snd y)"
proof -
  let ?P = "\<lambda>env oks sts g y. gen_ok env g \<longrightarrow>
     (\<forall>t \<in> set oks. wf_type t \<and> get_base_type t \<noteq> TSimple eVoid \<and> has_bitfields t = Some False) \<longrightarrow>
     set sts \<subseteq> set oks \<longrightarrow> union_member_ok (fst y) \<and> gen_ok env (snd y)"
  have "?P env oks sts g y"
  proof (rule pick_union_type.raw_induct[where P = ?P, OF _ assms(1)], intro impI, goal_cases)
    case (1 pick env oks sts g y)
    note ih = 1(1) and run = 1(2) and ok = 1(3) and oks = 1(4) and sts = 1(5)
    obtain st g1 where a: "(if sts \<noteq> [] then g_flip 10 g else Some (False, g)) = Some (st, g1)"
      using run by (auto simp: bind_eq_Some_conv split: if_splits)
    have ok1: "gen_ok env g1" using a ok g_flip_SomeD[of 10 g st g1] by (auto simp: gen_ok_def split: if_splits)
    show ?case
    proof (cases st)
      case True
      obtain i g2 t where i: "g_upto (length sts) None g1 = Some (i, g2)" "i < length sts" "t = sts ! i" "is_struct t" "y = (t, g2)"
        using run True unfolding a by (auto simp: bind_eq_Some_conv)
      have "t \<in> set oks" using i(2,3) sts by auto
      moreover have "\<not> is_union t" using i(4) by (cases t) auto
      moreover have "gen_ok env g2" using g_upto_SomeD[OF i(1)] ok1 by (simp add: gen_ok_def)
      ultimately show ?thesis using oks i(5) by (simp add: union_member_ok_def)
    next
      case False
      obtain cp g2 where b: "(if opt_pointers (te_opts env) \<and> opt_int8 (te_opts env) then g_flip 10 g1 else Some (False, g1)) = Some (cp, g2)"
        using run False unfolding a by (auto simp: bind_eq_Some_conv split: if_splits)
      have ok2: "gen_ok env g2" using b ok1 g_flip_SomeD[of 10 g1 cp g2] by (auto simp: gen_ok_def split: if_splits)
      show ?thesis
      proof (cases cp)
        case True
        obtain c ts where c: "get_simple_type eChar (fst g2) = (c, ts)" by force
        have c': "c = TSimple eChar" "gen_ok env (ts, snd g2)"
          using gen_ok_simple[of env "fst g2" "snd g2" eChar c ts] ok2 c by auto
        obtain pt ts2 where p: "find_pointer_type c True ts = (pt, ts2)" by force
        have p': "pt = Some (TPointer c)" "pointers_ok env ts2" "AllTypes ts2 = AllTypes ts" "type_sequence ts2 = type_sequence ts"
          using find_pointer_type_ok[OF _ _ _ _ p, of env] c' by (auto simp: gen_ok_def)
        have "y = (TPointer c, (ts2, snd g2))"
          using run False True unfolding a b by (simp add: c p p'(1) a b)
        then show ?thesis using c' p' by (simp add: union_member_ok_def gen_ok_def types_ok_def)
      next
        case cpF: False
        obtain i g3 t where i: "(if oks = [] then Some (0, g2) else g_upto (length oks) None g2) = Some (i, g3)"
            "i < length oks" "t = oks ! i"
          and r: "(if is_union t \<or> (case t of TSimple st \<Rightarrow> simple_filter env st | _ \<Rightarrow> False) then pick env oks sts g3 else Some (t, g3)) = Some y"
          using run False cpF unfolding a by (auto simp: b bind_eq_Some_conv)
        have ok3: "gen_ok env g3" using i(1) ok2 g_upto_SomeD[of _ None g2 i g3] by (auto simp: gen_ok_def split: if_splits)
        have t: "t \<in> set oks" using i(2,3) by simp
        show ?thesis
        proof (cases "is_union t \<or> (case t of TSimple st \<Rightarrow> simple_filter env st | _ \<Rightarrow> False)")
          case True
          then have "pick env oks sts g3 = Some y" using r by simp
          from ih[OF this] show ?thesis using ok3 oks sts by simp
        next
          case False
          then show ?thesis using r t oks ok3 by (auto simp: union_member_ok_def)
        qed
      qed
    qed
  qed
  then show ?thesis using assms by simp
qed

lemma make_one_union_field_ok:
  assumes "good_probs (te_qual env)" "gen_ok env g" "union_acc_ok env acc"
    "make_one_union_field env acc g = Some (acc', g')"
  shows "union_acc_ok env acc' \<and> gen_ok env g' \<and> fst acc' \<noteq> []"
proof -
  obtain b g1 where 1: "(if opt_bitfields (te_opts env) \<and> \<not> opt_ccomp (te_opts env)
      then g_flip (BitFieldInNormalStructProb env) g else Some (False, g)) = Some (b, g1)"
    using assms(4) by (auto simp: make_one_union_field_def bind_eq_Some_conv split: if_splits)
  have ok1: "gen_ok env g1"
    using 1 assms(2) g_flip_SomeD[of _ g b g1] by (auto simp: gen_ok_def split: if_splits)
  have acc: "acc_ok env acc" "\<forall>f \<in> set (fst acc). \<not> is_union f \<and> has_bitfields f = Some False"
    using assms(3) by (simp_all add: union_acc_ok_def)
  show ?thesis
  proof (cases b)
    case True
    then have "make_one_bitfield env acc g1 = Some (acc', g')"
      using assms(4) 1 by (simp add: make_one_union_field_def)
    from make_one_bitfield_ok[OF assms(1) ok1 acc(1) this] show ?thesis
      using acc(2) unfolding union_acc_ok_def by fastforce
  next
    case False
    let ?all = "AllTypes (fst g1)"
    obtain bs t g2 q where bs: "mapM has_bitfields ?all = Some bs" and
      p: "pick_union_type env (map fst (filter (\<lambda>(t, b). \<not> b) (zip ?all bs)))
            (filter is_struct (map fst (filter (\<lambda>(t, b). \<not> b) (zip ?all bs)))) g1 = Some (t, g2)" and
      q: "g_field_qualifiers env t g2 = Some (q, g')" and r: "acc' = push_field t q (-1) acc"
      using assms(4) 1 False unfolding make_one_union_field_def Let_def
      by (auto simp: bind_eq_Some_conv simp del: split_paired_Ex)
    let ?oks = "map fst (filter (\<lambda>(t, b). \<not> b) (zip ?all bs))"
    have "list_all2 (\<lambda>t b. has_bitfields t = Some b) ?all bs" using bs by (simp add: mapM_eq_Some_iff)
    then have "has_bitfields u = Some False \<and> u \<in> set ?all" if "u \<in> set ?oks" for u
      using that by (auto simp: list_all2_iff dest: set_zip_leftD)
    then have oks: "\<forall>u \<in> set ?oks. wf_type u \<and> get_base_type u \<noteq> TSimple eVoid \<and> has_bitfields u = Some False"
      using ok1 choose_field_type[of env "fst g1"] unfolding gen_ok_def by blast
    have t: "union_member_ok t" "gen_ok env g2"
      using pick_union_type_ok[OF p ok1 oks] by auto
    have q': "sanity_check t q" "wf_cvq q" "\<not> wildcard q" "fst g' = fst g2" "r_error (snd g') = 0"
      using g_field_qualifiers_ok[OF assms(1) _ q] t(2) by (auto simp: gen_ok_def)
    then have "field_ok t q (-1)" using t(1) by (simp add: field_ok_def union_member_ok_def)
    then have "acc_ok env acc'" unfolding r by (intro acc_ok_push[OF acc(1)]) auto
    then show ?thesis using r acc(2) t q' by (auto simp: union_acc_ok_def union_member_ok_def gen_ok_def)
  qed
qed

lemma make_union_fields_ok:
  assumes "good_probs (te_qual env)"
  shows "gen_ok env g \<Longrightarrow> union_acc_ok env acc \<Longrightarrow> make_union_fields env n acc g = Some (acc', g') \<Longrightarrow>
     union_acc_ok env acc' \<and> gen_ok env g' \<and> (n > 0 \<longrightarrow> fst acc' \<noteq> []) \<and> (fst acc \<noteq> [] \<longrightarrow> fst acc' \<noteq> [])"
proof (induction n arbitrary: acc g)
  case (Suc n)
  obtain acc1 g1 where 1: "make_one_union_field env acc g = Some (acc1, g1)" "make_union_fields env n acc1 g1 = Some (acc', g')"
    using Suc.prems(3) by (auto simp: bind_eq_Some_conv)
  have a: "union_acc_ok env acc1 \<and> gen_ok env g1 \<and> fst acc1 \<noteq> []"
    using make_one_union_field_ok[OF assms Suc.prems(1,2) 1(1)] .
  then show ?case using Suc.IH[OF _ _ 1(2)] by auto
qed simp

lemma make_random_union_type_ok:
  assumes "good_probs (te_qual env)" "gen_ok env g" "make_random_union_type env g = Some (t, g')"
  shows "table_type_ok env (type_sequence (fst g')) t \<and> t \<notin> set (AllTypes (fst g')) \<and> gen_ok env g' \<and> is_union t"
proof -
  obtain n g1 acc g2 where 1: "g_upto (nat (opt_max_union_fields (te_opts env))) None g = Some (n, g1)"
    "make_union_fields env (n + 1) ([], [], []) g1 = Some (acc, g2)" "new_aggregate False False acc g2 = (t, g')"
    using assms(3) unfolding make_random_union_type_def
    by (auto simp: bind_eq_Some_conv simp del: split_paired_Ex make_union_fields.simps)
  have ok1: "gen_ok env g1" using g_upto_SomeD[OF 1(1)] assms(2) by (simp add: gen_ok_def)
  have e: "union_acc_ok env ([], [], [])" by (simp add: union_acc_ok_def acc_ok_def layout_ok_def)
  have a: "union_acc_ok env acc" "gen_ok env g2" "fst acc \<noteq> []"
    using make_union_fields_ok[OF assms(1) ok1 e 1(2)] by auto
  have "is_union t" using 1(3) by (auto simp: new_aggregate_def split: prod.splits)
  then show ?thesis
    using aggregate_table_ok[of env acc False False g2 t g'] a 1(3) by (auto simp: union_acc_ok_def)
qed

lemma types_ok_append:
  "gen_ok env g \<Longrightarrow> table_type_ok env (type_sequence (fst g)) t \<Longrightarrow> t \<notin> set (AllTypes (fst g)) \<Longrightarrow>
   gen_ok env ((fst g)\<lparr>AllTypes := AllTypes (fst g) @ [t]\<rparr>, snd g)"
  by (auto simp: gen_ok_def types_ok_def pointers_ok_def)

lemma more_types_ok:
  assumes "more_types mk env g = Some g'" "gen_ok env g"
    "\<And>g t g'. gen_ok env g \<Longrightarrow> mk g = Some (t, g') \<Longrightarrow>
       table_type_ok env (type_sequence (fst g')) t \<and> t \<notin> set (AllTypes (fst g')) \<and> gen_ok env g'"
  shows "gen_ok env g' \<and> 10 \<le> length (AllTypes (fst g'))"
proof -
  let ?P = "\<lambda>mk env g g'. gen_ok env g \<longrightarrow>
     (\<forall>g t g'. gen_ok env g \<longrightarrow> mk g = Some (t, g') \<longrightarrow>
       table_type_ok env (type_sequence (fst g')) t \<and> t \<notin> set (AllTypes (fst g')) \<and> gen_ok env g') \<longrightarrow>
     gen_ok env g' \<and> 10 \<le> length (AllTypes (fst g'))"
  have "?P mk env g g'"
  proof (rule more_types.raw_induct[where P = ?P, OF _ assms(1)], intro impI, goal_cases)
    case (1 more mk env g g')
    note ih = 1(1) and run = 1(2) and ok = 1(3) and mk = 1(4)
    obtain b g1 where b: "MoreTypesProbability env g = Some (b, g1)"
      using run by (auto simp: bind_eq_Some_conv)
    have ok1: "gen_ok env g1" and len: "b \<or> 10 \<le> length (AllTypes (fst g1))"
      using b ok g_flip_SomeD[of _ g b g1] by (auto simp: MoreTypesProbability_def gen_ok_def split: if_splits)
    show ?case
    proof (cases b)
      case True
      obtain t g2 where t: "mk g1 = Some (t, g2)"
        "more mk env ((fst g2)\<lparr>AllTypes := AllTypes (fst g2) @ [t]\<rparr>, snd g2) = Some g'"
        using run True by (auto simp: b bind_eq_Some_conv)
      have "gen_ok env ((fst g2)\<lparr>AllTypes := AllTypes (fst g2) @ [t]\<rparr>, snd g2)"
        using mk ok1 t(1) types_ok_append by blast
      then show ?thesis using ih[OF t(2)] mk by blast
    next
      case False
      then show ?thesis using run ok1 len by (simp add: b)
    qed
  qed
  then show ?thesis using assms by blast
qed

lemma simple_types_ok:
  assumes "AllTypes ts = []" "derived_types ts = []"
  shows "types_ok env (GenerateSimpleTypes ts) \<and> pointers_ok env (GenerateSimpleTypes ts)"
  using assms simple_table_ok
  by (auto simp: GenerateSimpleTypes_def types_ok_def pointers_ok_def simple_types_list_def)

lemma mark_used_simps [simp]:
  "AllTypes (mark_used t ts) = AllTypes ts" "derived_types (mark_used t ts) = derived_types ts"
  "type_sequence (mark_used t ts) = type_sequence ts"
  by (simp_all add: mark_used_def)

lemma level_not_pointer: "\<not> is_pointer t \<Longrightarrow> get_indirect_level t = 0"
  by (cases t) auto

lemma choose_random_ok:
  assumes "gen_ok env g" "choose_random env g = Some (t, g')"
  shows "gen_ok env g' \<and> t \<in> set (AllTypes (fst g')) \<and> get_indirect_level t = 0"
proof -
  obtain v g1 where 1: "g_upto (length (AllTypes (fst g))) (Some (ChooseRandomTypeFilter env False (fst g))) g = Some (v, g1)"
    "v < length (AllTypes (fst g1))" "t = AllTypes (fst g1) ! v" "g' = (mark_used t (fst g1), snd g1)"
    using assms(2) by (auto simp: choose_random_def draw_type_def bind_eq_Some_conv)
  have "gen_ok env g'" using g_upto_SomeD[OF 1(1)] assms(1) 1(4)
    by (auto simp: gen_ok_def types_ok_def pointers_ok_def)
  moreover from this have "\<not> is_pointer t" using 1(2-4) by (auto simp: gen_ok_def types_ok_def table_type_ok_def)
  ultimately show ?thesis using 1(2-4) level_not_pointer by auto
qed

lemma pointer_result_ok:
  assumes "gen_ok env (ts, s)" "wf_type t" "get_base_type t \<noteq> TSimple eVoid"
    "int (get_indirect_level t) < max 1 (opt_max_indirect_level (te_opts env))"
    "find_pointer_type t True ts = (r, ts')"
  shows "r = Some (TPointer t) \<and> gen_ok env (ts', s) \<and> TPointer t \<in> set (derived_types ts')"
  using find_pointer_type_ok[of env ts t r ts'] assms by (auto simp: gen_ok_def types_ok_def)

section \<open>Properties\<close>

text \<open>C10: Every generated type is well formed.  Starting from empty tables, \<open>GenerateAllTypes\<close> leaves
  only well-formed types in the table, no two the same: parallel field vectors of one length,
  qualifiers that fit, integer bit-fields that respect the layout rules (no leading and no two adjacent
  zero widths, widths below the integer size), structs nested at most as deep as the option allows, unions
  without union members or members containing bit-fields, no void, and fresh sequence numbers.\<close>

theorem GenerateAllTypes_ok:
  assumes "good_probs (te_qual env)" "1 \<le> opt_max_struct_fields (te_opts env)"
    "AllTypes (fst g) = []" "derived_types (fst g) = []" "r_error (snd g) = 0"
    "GenerateAllTypes env g = Some g'"
  shows "types_ok env (fst g') \<and> pointers_ok env (fst g') \<and> 10 \<le> length (AllTypes (fst g'))"
proof -
  let ?g1 = "(GenerateSimpleTypes (fst g), snd g)"
  have ok1: "gen_ok env ?g1" using simple_types_ok[OF assms(3,4)] assms(5) by (simp add: gen_ok_def)
  have l1: "10 \<le> length (AllTypes (fst ?g1))" by (simp add: GenerateSimpleTypes_def simple_types_list_def)
  obtain g2 where 2: "(if opt_use_struct (te_opts env) then more_types (make_random_struct_type env) env ?g1 else Some ?g1) = Some g2"
    and 3: "(if opt_use_union (te_opts env) then more_types (make_random_union_type env) env g2 else Some g2) = Some g'"
    using assms(6) unfolding GenerateAllTypes_def Let_def
    by (auto simp: bind_eq_Some_conv simp del: split_paired_Ex)
  have ok2: "gen_ok env g2 \<and> 10 \<le> length (AllTypes (fst g2))"
  proof (cases "opt_use_struct (te_opts env)")
    case True
    then have "more_types (make_random_struct_type env) env ?g1 = Some g2" using 2 by simp
    then show ?thesis
      using ok1 by (rule more_types_ok) (use make_random_struct_type_ok[OF assms(1)] assms(2) in blast)
  qed (use 2 ok1 l1 in auto)
  have "gen_ok env g' \<and> 10 \<le> length (AllTypes (fst g'))"
  proof (cases "opt_use_union (te_opts env)")
    case True
    then have "more_types (make_random_union_type env) env g2 = Some g'" using 3 by simp
    then show ?thesis
      using conjunct1[OF ok2] by (rule more_types_ok) (use make_random_union_type_ok[OF assms(1)] in blast)
  qed (use 3 ok2 in auto)
  then show ?thesis by (simp add: gen_ok_def)
qed

definition sample_env :: type_env where
  "sample_env = \<lparr>te_opts = default_settings cgoptions_zero\<lparr>opt_int_size := 4, opt_use_union := False\<rparr>, te_qual = sample_probs,
     BitFieldsSignedProb = 50, ScalarFieldInFullBitFieldsProb = 10, BitFieldInNormalStructProb = 50,
     BitFieldsCreationProb = 0, MoreStructUnionTypeProb = 50, PointerAsLTypeProb = 50, StructAsLTypeProb = 30,
     simple_filter = \<lambda>st. st = eVoid\<rparr>"

definition empty_tables :: tstate where
  "empty_tables = \<lparr>AllTypes = [], derived_types = [], used_types = [], type_sequence = 0\<rparr>"

text \<open>A run that generates one struct with one bit-field: heads (10), one field (20 mod 10 = 0), no full
  bit-field struct, a bit-field (10), signed (10), not volatile and not const (99, 99), width 5, not packed
  (99), and tails for a further type (99).\<close>

definition struct_draws :: "nat list" where
  "struct_draws = [10, 20, 99, 10, 10, 99, 99, 5, 99, 99]"

lemma retry_None: "retry n None d v s = Some (v, s)"
  by (subst retry.simps) (simp add: rejects_def)

lemma sample_opts:
  "opt_use_struct (te_opts sample_env)" "\<not> opt_use_union (te_opts sample_env)"
  "opt_bitfields (te_opts sample_env)" "\<not> opt_fixed_struct_fields (te_opts sample_env)"
  "opt_max_struct_fields (te_opts sample_env) = 10" "opt_packed_struct (te_opts sample_env)"
  "\<not> opt_ccomp (te_opts sample_env)" "opt_int_size (te_opts sample_env) = 4"
  "opt_volatile_pointers (te_opts sample_env)" "opt_const_pointers (te_opts sample_env)"
  by (simp_all add: sample_env_def default_settings_def set_default_builtin_kinds_def)

lemma sample_probs_env:
  "te_qual sample_env = sample_probs" "BitFieldsSignedProb sample_env = 50"
  "ScalarFieldInFullBitFieldsProb sample_env = 10" "BitFieldInNormalStructProb sample_env = 50"
  "BitFieldsCreationProb sample_env = 0" "MoreStructUnionTypeProb sample_env = 50"
  by (simp_all add: sample_env_def)

lemmas run_defs = g_flip_def g_upto_def rnd_flipcoin_def rnd_upto_def genrand_def add_number_def
  seq_add_number_def retry_None rng_of_def

lemma generate_one_struct:
  "\<exists>g'. GenerateAllTypes sample_env (empty_tables, rng_of struct_draws) = Some g' \<and>
     length (AllTypes (fst g')) = 11"
  apply (simp add: GenerateAllTypes_def sample_opts)
  apply (subst more_types.simps)
  apply (simp add: MoreTypesProbability_def GenerateSimpleTypes_def simple_types_list_def empty_tables_def
      struct_draws_def run_defs sample_probs_env make_random_struct_type_def sample_opts Let_def
      make_one_bitfield_def env_bits_def get_simple_type_def g_field_qualifiers_def
      random_qualifiers_field_def random_qualifiers_def toss_object_def toss_level_def sample_probs_def
      new_aggregate_def push_field_def)
  apply (subst more_types.simps)
  apply (simp add: MoreTypesProbability_def run_defs sample_probs_env)
  done

lemma GenerateAllTypes_ok_witness:
  "\<exists>g'. GenerateAllTypes sample_env (empty_tables, rng_of struct_draws) = Some g' \<and>
     types_ok sample_env (fst g') \<and> length (AllTypes (fst g')) = 11"
proof -
  obtain g' where g: "GenerateAllTypes sample_env (empty_tables, rng_of struct_draws) = Some g'"
    "length (AllTypes (fst g')) = 11"
    using generate_one_struct by blast
  have "types_ok sample_env (fst g') \<and> pointers_ok sample_env (fst g') \<and> 10 \<le> length (AllTypes (fst g'))"
    by (rule GenerateAllTypes_ok[OF _ _ _ _ _ g(1)])
      (simp_all add: good_probs_def sample_probs_env sample_probs_def sample_opts empty_tables_def rng_of_def)
  then show ?thesis using g by blast
qed

text \<open>C30: Pointer types are interned and bounded.  A random pointer type is always found or made (never
  null), is an entry of the table of derived types, which stays free of duplicates, and has at most
  \<open>max_indirect_level\<close> levels (at least one).\<close>

theorem make_random_pointer_type_ok:
  assumes "gen_ok env g" "make_random_pointer_type env g = Some (r, g')"
  shows "\<exists>t. r = Some (TPointer t) \<and> TPointer t \<in> set (derived_types (fst g')) \<and> distinct (derived_types (fst g')) \<and>
    int (get_indirect_level (TPointer t)) \<le> max 1 (opt_max_indirect_level (te_opts env)) \<and> gen_ok env g'"
proof -
  obtain b g1 where b: "g_flip 20 g = Some (b, g1)"
    using assms(2) by (auto simp: make_random_pointer_type_def bind_eq_Some_conv)
  have ok1: "gen_ok env g1" using g_flip_SomeD[OF b] assms(1) by (simp add: gen_ok_def)
  obtain pp g2 where p: "(if b \<and> derived_types (fst g1) \<noteq> [] then do {
         (i, g2) \<leftarrow> g_upto (length (derived_types (fst g1))) None g1;
         t \<leftarrow> vec_at (derived_types (fst g2)) i;
         Some (if int (get_indirect_level t) < opt_max_indirect_level (te_opts env) then Some t else None, g2) }
       else Some (None, g1)) = Some (pp, g2)" and
    rest: "(case pp of
        Some t \<Rightarrow> let (r, ts) = find_pointer_type t True (fst g2) in Some (r, (ts, snd g2))
      | None \<Rightarrow> do {
          (t, g3) \<leftarrow> choose_random env g2;
          let (t, ts) = (if is_simple t then get_int_type (fst g3) else (t, fst g3));
          let (r, ts) = find_pointer_type t True ts;
          Some (r, (ts, snd g3)) }) = Some (r, g')"
    using assms(2) unfolding make_random_pointer_type_def b
    by (auto simp: bind_eq_Some_conv simp del: split_paired_Ex)
  have ok2: "gen_ok env g2" and pt: "pp = Some t \<Longrightarrow> t \<in> set (derived_types (fst g2)) \<and>
      int (get_indirect_level t) < opt_max_indirect_level (te_opts env)" for t
    using p ok1 g_upto_SomeD[of _ None g1] by (auto simp: bind_eq_Some_conv gen_ok_def split: if_splits)
  have "\<exists>t. r = Some (TPointer t) \<and> gen_ok env g' \<and> TPointer t \<in> set (derived_types (fst g'))"
  proof (cases pp)
    case (Some t)
    obtain ts where f: "find_pointer_type t True (fst g2) = (r, ts)" "g' = (ts, snd g2)"
      using rest Some by (auto split: prod.splits)
    have "wf_type t" "get_base_type t \<noteq> TSimple eVoid"
      using pt[OF Some] ok2 by (auto simp: gen_ok_def pointers_ok_def)
    then show ?thesis using pointer_result_ok[of env "fst g2" "snd g2" t r ts] ok2 pt[OF Some] f by auto
  next
    case None
    obtain t g3 where c: "choose_random env g2 = Some (t, g3)" using rest None by (auto simp: bind_eq_Some_conv)
    obtain t2 ts where t2: "(if is_simple t then get_int_type (fst g3) else (t, fst g3)) = (t2, ts)" by force
    obtain ts3 where f: "find_pointer_type t2 True ts = (r, ts3)" "g' = (ts3, snd g3)"
      using rest None c t2 by (auto split: prod.splits)
    note ch = choose_random_ok[OF ok2 c]
    have t2ok: "gen_ok env (ts, snd g3) \<and> wf_type t2 \<and> get_base_type t2 \<noteq> TSimple eVoid \<and> get_indirect_level t2 = 0"
    proof (cases "is_simple t")
      case True
      then show ?thesis using gen_ok_simple[of env "fst g3" "snd g3" eInt t2 ts] ch t2
        by (auto simp: get_int_type_def)
    next
      case False
      then show ?thesis using ch t2 choose_field_type[of env "fst g3" t] by (auto simp: gen_ok_def)
    qed
    then show ?thesis using pointer_result_ok[of env ts "snd g3" t2 r ts3] f by auto
  qed
  then obtain t where t: "r = Some (TPointer t)" "gen_ok env g'" "TPointer t \<in> set (derived_types (fst g'))"
    by blast
  then have "int (get_indirect_level (TPointer t)) \<le> max 1 (opt_max_indirect_level (te_opts env))"
    "distinct (derived_types (fst g'))"
    unfolding gen_ok_def pointers_ok_def by blast+
  then show ?thesis using t by blast
qed

lemma make_random_pointer_type_ok_witness:
  "\<exists>r g'. make_random_pointer_type sample_env
       (GenerateSimpleTypes empty_tables\<lparr>derived_types := [TPointer (TSimple eInt)]\<rparr>, rng_of [5, 0]) = Some (r, g') \<and>
     r = Some (TPointer (TPointer (TSimple eInt))) \<and> gen_ok sample_env g'"
proof -
  let ?g = "(GenerateSimpleTypes empty_tables\<lparr>derived_types := [TPointer (TSimple eInt)]\<rparr>, rng_of [5, 0])"
  have lv: "opt_max_indirect_level (te_opts sample_env) = 2"
    by (simp add: sample_env_def default_settings_def set_default_builtin_kinds_def)
  have ok: "gen_ok sample_env ?g"
    using simple_types_ok[of empty_tables sample_env]
    by (simp add: gen_ok_def empty_tables_def types_ok_def pointers_ok_def GenerateSimpleTypes_def rng_of_def lv)
  obtain g' where run: "make_random_pointer_type sample_env ?g = Some (Some (TPointer (TPointer (TSimple eInt))), g')"
    by (simp add: make_random_pointer_type_def run_defs lv find_pointer_type_def vec_at_def)
  show ?thesis using make_random_pointer_type_ok[OF ok run] run by blast
qed

end
