(* ===== verification/Variables.thy ===== *)
theory Variables
  imports Types StringUtils
begin

text \<open>
  Variable.cpp, Variable.h and the identity of ArrayVariable.h: variables, the field variables a
  struct or union variable is expanded to, itemized array variables, and the sets of variables the
  analyses work with.

  The code compares variables as pointers.  Top-level variables carry the number of their object
  (\<open>vi_id\<close>), and a field variable is given by its parent and its position in \<open>field_vars\<close>, so
  structural equality is pointer equality.  What an index expression and a vector print as is the
  record \<open>printer\<close>: the lemmas hold for every printer.
\<close>

section \<open>Data\<close>

record var_info =
  vi_id :: nat
  vi_name :: string
  vi_type :: "ctype option"
  vi_qfer :: cvq
  vi_expanded :: bool

text \<open>A variable: a plain one with its initializer, an array with its initializers, the
  components it selects if it is a vector of OpenCL, its collective (of an itemized member), the block it lives in, its sizes and indices, or the field
  variable at a position of a parent.  \<open>vi_expanded\<close> tells whether \<open>create_field_vars\<close> was called for a
  variable of aggregate type (the copy constructor of ArrayVariable does not).  Expressions are
  kept with the constructors the analyses distinguish: constants, variables used at a type,
  unary or binary operations and built-in calls, calls of a function (by the number of the call),
  assignments (with the target, its type, the operator, the expression assigned and the right-hand
  side that stands for the whole update), comma expressions, left-hand sides, and the OpenCL
  expressions with their sub-expressions.\<close>

datatype variable =
    Var var_info "expr option"
  | Arr var_info "expr option" "expr list" "nat list option" "variable option" "nat option" "nat list" "expr list"
  | Fld variable nat
and expr =
    EConst ctype string
  | EVar variable ctype
  | EPrim prim_op ctype "expr list"
  | ECall nat ctype "expr list"
  | EAssign variable ctype assign_op expr expr
  | EComma expr expr
  | ELhs variable ctype
  | ECL ctype "expr list"

record printer =
  pr_name :: "string \<Rightarrow> string"
  pr_expr :: "expr \<Rightarrow> string"

fun field_var_of :: "variable \<Rightarrow> variable option" where
  "field_var_of (Fld p j) = Some p"
| "field_var_of _ = None"

definition is_field_var :: "variable \<Rightarrow> bool" where
  "is_field_var v \<longleftrightarrow> field_var_of v \<noteq> None"

fun isArray :: "variable \<Rightarrow> bool" where
  "isArray (Arr i e es vec c b ss xs) = True"
| "isArray _ = False"

text \<open>The raw positions of the fields that get a field variable.\<close>

definition named_fields :: "ctype \<Rightarrow> nat list" where
  "named_fields t = filter (\<lambda>i. is_unamed_padding t i \<noteq> Some True) [0..<length (type_fields t)]"

fun vtype :: "variable \<Rightarrow> ctype option" where
  "vtype (Var i e) = vi_type i"
| "vtype (Arr i e es vec c b ss xs) = vi_type i"
| "vtype (Fld p j) = (case vtype p of
      None \<Rightarrow> None
    | Some t \<Rightarrow> if j < length (named_fields t) then Some (type_fields t ! (named_fields t ! j)) else None)"

fun expanded :: "variable \<Rightarrow> bool" where
  "expanded (Var i e) = vi_expanded i"
| "expanded (Arr i e es vec c b ss xs) = vi_expanded i"
| "expanded (Fld p j) = True"

definition var_is_aggregate :: "variable \<Rightarrow> bool" where
  "var_is_aggregate v = (case vtype v of None \<Rightarrow> False | Some t \<Rightarrow> is_aggregate t)"

definition var_is_pointer :: "variable \<Rightarrow> bool" where
  "var_is_pointer v = (case vtype v of None \<Rightarrow> False | Some t \<Rightarrow> is_pointer t)"

definition field_vars :: "variable \<Rightarrow> variable list" where
  "field_vars v = (case vtype v of
      None \<Rightarrow> []
    | Some t \<Rightarrow> if expanded v \<and> is_aggregate t then map (Fld v) [0..<length (named_fields t)] else [])"

text \<open>The qualifiers; a field inherits const and volatile of its parent (\<open>create_field_vars\<close>).\<close>

fun vqfer :: "variable \<Rightarrow> cvq option" where
  "vqfer (Var i e) = Some (vi_qfer i)"
| "vqfer (Arr i e es vec c b ss xs) = Some (vi_qfer i)"
| "vqfer (Fld p j) = do {
     t \<leftarrow> vtype p;
     q \<leftarrow> vqfer p;
     is_vol_var \<leftarrow> cvq_is_volatile q;
     is_const_var \<leftarrow> cvq_is_const q;
     i \<leftarrow> vec_at (named_fields t) j;
     quals \<leftarrow> vec_at (qfers t) i;
     c \<leftarrow> (if is_const_var then Some True else cvq_is_const quals);
     quals1 \<leftarrow> set_const c 0 quals;
     v \<leftarrow> (if is_vol_var then Some True else cvq_is_volatile quals1);
     quals2 \<leftarrow> set_volatile v 0 quals1;
     Some (cvq_new (is_consts quals2) (is_volatiles quals2)) }"

section \<open>Names\<close>

fun var_is_global :: "variable \<Rightarrow> bool" where
  "var_is_global (Var i e) = (take 2 (vi_name i) = ''g_'')"
| "var_is_global (Arr i e es vec c b ss xs) = (b = None)"
| "var_is_global (Fld p j) = var_is_global p"

text \<open>\<open>Vector::GetComponentChar\<close> and the two \<open>Output\<close> functions; a component past the table is undefined.\<close>

definition GetComponentChar :: "nat \<Rightarrow> nat \<Rightarrow> char" where
  "GetComponentChar vector_size index =
    (if vector_size \<le> 4 then ''xyzw'' ! index else ''0123456789abcdef'' ! index)"

definition vector_output :: "nat list \<Rightarrow> nat list \<Rightarrow> string" where
  "vector_output ss comp_access = ''.'' @ (if ss ! 0 > 4 then ''s'' else []) @
     map (GetComponentChar (ss ! 0)) comp_access"

fun array_output :: "printer \<Rightarrow> variable \<Rightarrow> string" where
  "array_output pr (Arr i e es vec c b ss xs) =
    (if b = None then pr_name pr (vi_name i) else vi_name i) @
    (if c = None then []
     else case vec of
         Some comps \<Rightarrow> vector_output ss comps
       | None \<Rightarrow> concat (map (\<lambda>x. ''['' @ pr_expr pr x @ '']'') xs))"
| "array_output pr _ = []"

fun vname :: "printer \<Rightarrow> variable \<Rightarrow> string" where
  "vname pr (Var i e) = vi_name i"
| "vname pr (Arr i e es vec c b ss xs) = vi_name i"
| "vname pr (Fld p j) = (if isArray p then array_output pr p else vname pr p) @ ''.f'' @ show_nat j"

definition var_is_local :: "printer \<Rightarrow> variable \<Rightarrow> bool" where
  "var_is_local pr v \<longleftrightarrow> take 2 (vname pr v) = ''l_''"

definition is_argument :: "printer \<Rightarrow> variable \<Rightarrow> bool" where
  "is_argument pr v \<longleftrightarrow> take 2 (vname pr v) = ''p_''"

definition get_actual_name :: "printer \<Rightarrow> variable \<Rightarrow> string" where
  "get_actual_name pr v = (if var_is_global v then pr_name pr (vname pr v) else vname pr v)"

section \<open>Containers\<close>

text \<open>The chain of \<open>field_var_of\<close> pointers, from the variable outwards.\<close>

fun ancestors :: "variable \<Rightarrow> variable list" where
  "ancestors (Fld p j) = Fld p j # ancestors p"
| "ancestors v = [v]"

definition has_field_var :: "variable \<Rightarrow> variable \<Rightarrow> bool" where
  "has_field_var this v \<longleftrightarrow> var_is_aggregate this \<and> this \<in> set (ancestors v)"

definition var_match :: "variable \<Rightarrow> variable \<Rightarrow> bool" where
  "var_match this v =
    (if vtype this \<noteq> None \<and> vtype v \<noteq> None \<and> var_is_aggregate this
     then this = v \<or> has_field_var this v else this = v)"

fun get_top_container :: "variable \<Rightarrow> variable" where
  "get_top_container (Fld p j) = get_top_container p"
| "get_top_container v = v"

definition var_is_union :: "variable \<Rightarrow> bool" where
  "var_is_union v = (case vtype v of None \<Rightarrow> False | Some t \<Rightarrow> is_union t)"

definition get_container_union :: "variable \<Rightarrow> variable option" where
  "get_container_union v = (if vtype v = None then None else find var_is_union (ancestors v))"

fun is_union_field :: "variable \<Rightarrow> bool" where
  "is_union_field (Fld p j) = var_is_union p"
| "is_union_field _ = False"

fun is_inside_union_field :: "variable \<Rightarrow> bool" where
  "is_inside_union_field (Fld p j) = (var_is_union p \<or> is_inside_union_field p)"
| "is_inside_union_field _ = False"

text \<open>\<open>-1\<close> is \<open>None\<close>; a variable is a member of its parent's \<open>field_vars\<close> when the parent is expanded.\<close>

fun get_field_id :: "variable \<Rightarrow> nat option" where
  "get_field_id (Fld p j) = find_index (\<lambda>f. f = Fld p j) (field_vars p)"
| "get_field_id _ = None"

fun is_array_field :: "variable \<Rightarrow> bool" where
  "is_array_field (Fld p j) = is_array_field p"
| "is_array_field v = isArray v"

fun is_virtual :: "variable \<Rightarrow> bool" where
  "is_virtual (Fld p j) = is_virtual p"
| "is_virtual (Arr i e es vec c b ss xs) = (c = None)"
| "is_virtual (Var i e) = False"

fun is_packed_aggregate_field_var :: "variable \<Rightarrow> bool" where
  "is_packed_aggregate_field_var (Fld p j) =
     ((case vtype p of Some t \<Rightarrow> packed t | None \<Rightarrow> False) \<or> is_packed_aggregate_field_var p)"
| "is_packed_aggregate_field_var _ = False"

text \<open>The scan stops at the variable itself; \<open>is_bitfield(i)\<close> is asked with the position among the
  field variables, as the code does.\<close>

fun bitfield_before :: "ctype \<Rightarrow> nat \<Rightarrow> variable list \<Rightarrow> variable \<Rightarrow> bool option" where
  "bitfield_before t i [] this = Some False"
| "bitfield_before t i (f # fs) this =
    (if f = this then Some False
     else do {
       b \<leftarrow> is_bitfield t i;
       c \<leftarrow> (if b then Some True else do { ft \<leftarrow> vtype f; has_bitfields ft });
       if c then Some True else bitfield_before t (Suc i) fs this })"

fun is_packed_after_bitfield :: "variable \<Rightarrow> bool option" where
  "is_packed_after_bitfield (Fld p j) = do {
     t \<leftarrow> vtype p;
     b \<leftarrow> (if is_struct t \<and> packed t then bitfield_before t 0 (field_vars p) (Fld p j) else Some False);
     if b then Some True else is_packed_after_bitfield p }"
| "is_packed_after_bitfield _ = Some False"

section \<open>Qualifiers after dereference\<close>

fun deref_type :: "nat \<Rightarrow> ctype \<Rightarrow> ctype option" where
  "deref_type 0 t = Some t"
| "deref_type (Suc n) t = ptr_type t \<bind> deref_type n"

definition qualified_after_deref ::
  "(int \<Rightarrow> cvq \<Rightarrow> bool option) \<Rightarrow> (ctype \<Rightarrow> bool option) \<Rightarrow> int \<Rightarrow> variable \<Rightarrow> bool option" where
  "qualified_after_deref qual agg deref_level v =
    (if deref_level < 0 then Some False
     else do {
       q \<leftarrow> vqfer v;
       b \<leftarrow> qual deref_level q;
       if b then Some True
       else (case vtype v of
               None \<Rightarrow> Some False
             | Some t \<Rightarrow> do { u \<leftarrow> deref_type (nat deref_level) t; agg u }) })"

definition var_is_const_after_deref :: "int \<Rightarrow> variable \<Rightarrow> bool option" where
  "var_is_const_after_deref = qualified_after_deref is_const_after_deref is_const_struct_union"

definition var_is_volatile_after_deref :: "int \<Rightarrow> variable \<Rightarrow> bool option" where
  "var_is_volatile_after_deref = qualified_after_deref is_volatile_after_deref is_volatile_struct_union"

definition var_is_const :: "variable \<Rightarrow> bool option" where
  "var_is_const = var_is_const_after_deref 0"

definition var_is_volatile :: "variable \<Rightarrow> bool option" where
  "var_is_volatile = var_is_volatile_after_deref 0"

definition compatible :: "cgoptions \<Rightarrow> variable \<Rightarrow> variable \<Rightarrow> bool option" where
  "compatible o1 this v = do {
     a \<leftarrow> var_is_volatile this;
     b \<leftarrow> (if a then Some True else var_is_volatile v);
     Some (if b then False
           else if this = v then True
           else if opt_expand_struct o1 then \<not> is_field_var v \<and> \<not> is_field_var this
           else False) }"

section \<open>Collectives\<close>

text \<open>The standard library's extraction of an \<open>int\<close> in its range, for the decimal digits with an
  optional minus sign and the 0x-prefixed hexadecimal digits that reach it.\<close>

definition stream_dec :: "string \<Rightarrow> int" where
  "stream_dec s = (if take 1 s = ''-'' then - int (read_nat (takeWhile is_digit (drop 1 s)))
     else int (read_nat (takeWhile is_digit s)))"

definition stream_hex :: "string \<Rightarrow> int" where
  "stream_hex s = sint (ucast (hex_digits_value (drop 2 s) 0) :: 32 word)"

fun array_parent :: "variable \<Rightarrow> variable option" where
  "array_parent (Fld p j) = (if isArray p then Some p else array_parent p)"
| "array_parent _ = None"

definition find_last_of :: "char \<Rightarrow> string \<Rightarrow> nat option" where
  "find_last_of c s = map_option (\<lambda>i. length s - 1 - i) (find_index (\<lambda>d. d = c) (rev s))"

function field_walk :: "string \<Rightarrow> nat option \<Rightarrow> variable \<Rightarrow> variable option" where
  "field_walk field_names None coll = Some coll"
| "field_walk field_names (Some pos1) coll =
    (let pos2 = find_from (\<lambda>c. c = CHR ''.'') field_names (pos1 + 1) in
     do {
       assert_that (pos1 + 2 \<le> length field_names);
       index \<leftarrow> str2int stream_dec stream_hex
         (substr field_names (pos1 + 2) (map_option (\<lambda>p. p - pos1 - 2) pos2));
       assert_that (0 \<le> index);
       coll' \<leftarrow> vec_at (field_vars coll) (nat index);
       field_walk field_names pos2 coll' })"
  by pat_completeness auto
termination
proof (relation "measure (\<lambda>(s, pos, v). case pos of None \<Rightarrow> 0 | Some p \<Rightarrow> Suc (length s - p))", goal_cases)
  case (2 field_names pos1 coll pos2)
  then show ?case
    by (cases pos2) (auto dest!: find_from_SomeD split: option.splits)
qed simp

declare field_walk.simps(2) [simp del]

text \<open>The collective of an itemized member is an array.  Only arrays that are not members are itemized
  (\<open>itemize\<close> asserts \<open>collective == 0\<close>), so following the pointer to its end is following it once.\<close>

fun collective_of :: "variable \<Rightarrow> variable" where
  "collective_of (Arr i e es vec (Some (Arr i1 e1 es1 vec1 c b1 ss1 xs1)) b ss xs) =
     collective_of (Arr i1 e1 es1 vec1 c b1 ss1 xs1)"
| "collective_of v = v"

definition get_collective :: "printer \<Rightarrow> variable \<Rightarrow> variable option" where
  "get_collective pr v =
    (if is_field_var v \<and> is_array_field v then do {
       parent \<leftarrow> array_parent v;
       if collective_of parent = parent then Some v
       else do {
         pos3 \<leftarrow> find_last_of (CHR '']'') (vname pr v);
         let field_names = drop pos3 (vname pr v);
         field_walk field_names (find_from (\<lambda>c. c = CHR ''.'') field_names 0) (collective_of parent) } }
     else Some (collective_of v))"

definition get_named_var :: "printer \<Rightarrow> variable \<Rightarrow> variable option" where
  "get_named_var pr v = get_collective pr (get_top_container v)"

definition loose_match :: "printer \<Rightarrow> variable \<Rightarrow> variable \<Rightarrow> bool option" where
  "loose_match pr this v = do {
     me \<leftarrow> get_collective pr this;
     you \<leftarrow> get_collective pr v;
     Some (if var_match me you then True
           else (case (get_container_union you, get_container_union me) of
                   (Some y, Some m) \<Rightarrow> y = m | _ \<Rightarrow> False)) }"

section \<open>Walking the fields\<close>

text \<open>The field variables of a variable have smaller types, so the walks over them end.\<close>

lemma named_field_size:
  assumes "j < length (named_fields t)"
  shows "size (type_fields t ! (named_fields t ! j)) < size t"
proof -
  have "named_fields t ! j \<in> set (named_fields t)" using assms by simp
  then have "named_fields t ! j < length (type_fields t)" by (auto simp: named_fields_def)
  then have "type_fields t ! (named_fields t ! j) \<in> set (type_fields t)" by simp
  then show ?thesis by (cases t) (auto dest!: size_list_estimation'[where f = size, OF _ order_refl] simp: less_Suc_eq_le)
qed

definition type_weight :: "variable \<Rightarrow> nat" where
  "type_weight v = (case vtype v of None \<Rightarrow> 0 | Some t \<Rightarrow> size t)"

lemma field_vars_weight: "f \<in> set (field_vars v) \<Longrightarrow> type_weight f < type_weight v"
  by (auto simp: field_vars_def type_weight_def named_field_size split: option.splits if_splits)

text \<open>The first result of a search loop over field variables.\<close>

fun find_map :: "('a \<Rightarrow> 'b option) \<Rightarrow> 'a list \<Rightarrow> 'b option" where
  "find_map f [] = None"
| "find_map f (x # xs) = (case f x of Some y \<Rightarrow> Some y | None \<Rightarrow> find_map f xs)"

lemma find_map_cong [fundef_cong]:
  "xs = ys \<Longrightarrow> (\<And>x. x \<in> set ys \<Longrightarrow> f x = g x) \<Longrightarrow> find_map f xs = find_map g ys"
  by (induction ys arbitrary: xs) (auto split: option.splits)

lemma find_map_SomeD: "find_map f xs = Some y \<Longrightarrow> \<exists>x \<in> set xs. f x = Some y"
  by (induction xs) (auto split: option.splits)

lemma find_map_None [simp]: "find_map f xs = None \<longleftrightarrow> (\<forall>x \<in> set xs. f x = None)"
  by (induction xs) (auto split: option.splits)

function find_pointer_fields :: "variable \<Rightarrow> variable list" where
  "find_pointer_fields v =
     concat (map (\<lambda>f. if var_is_pointer f then [f]
                     else if var_is_aggregate f then find_pointer_fields f else []) (field_vars v))"
  by pat_completeness auto
termination
  by (relation "measure type_weight") (simp_all add: field_vars_weight)

declare find_pointer_fields.simps [simp del]

definition var_output :: "printer \<Rightarrow> variable \<Rightarrow> string" where
  "var_output pr v = (if isArray v then array_output pr v else get_actual_name pr v)"

function match_var_name :: "printer \<Rightarrow> string \<Rightarrow> variable \<Rightarrow> variable option" where
  "match_var_name pr vn v =
    (if vname pr v = vn then Some v
     else if (isArray v \<or> is_array_field v) \<and> var_output pr v = vn then Some v
     else find_map (match_var_name pr vn) (field_vars v))"
  by pat_completeness auto
termination
  by (relation "measure (\<lambda>(pr, vn, v). type_weight v)") (simp_all add: field_vars_weight)

declare match_var_name.simps [simp del]

section \<open>Sets of variables\<close>

text \<open>A \<open>vector<const Variable*>\<close> used as a set; position -1 is \<open>None\<close>.\<close>

definition find_variable_in_set :: "variable list \<Rightarrow> variable \<Rightarrow> nat option" where
  "find_variable_in_set s v = find_index (\<lambda>x. var_match x v) s"

function find_field_variable_in_set :: "variable list \<Rightarrow> variable \<Rightarrow> nat option" where
  "find_field_variable_in_set s v =
    (if var_is_aggregate v then
       find_map (\<lambda>field. case find_variable_in_set s field of
                    Some pos \<Rightarrow> Some pos
                  | None \<Rightarrow> find_field_variable_in_set s field) (field_vars v)
     else None)"
  by pat_completeness auto
termination
  by (relation "measure (\<lambda>(s, v). type_weight v)") (simp_all add: field_vars_weight)

declare find_field_variable_in_set.simps [simp del]

definition is_variable_in_set :: "variable list \<Rightarrow> variable \<Rightarrow> bool" where
  "is_variable_in_set s v \<longleftrightarrow> list_ex (\<lambda>x. x = v) s"

definition add_variable_to_set :: "variable list \<Rightarrow> variable \<Rightarrow> variable list \<times> bool" where
  "add_variable_to_set s v = (if \<not> is_variable_in_set s v then (s @ [v], True) else (s, False))"

fun add_variables_to_set :: "variable list \<Rightarrow> variable list \<Rightarrow> variable list \<times> bool" where
  "add_variables_to_set s [] = (s, False)"
| "add_variables_to_set s (v # vs1) =
     (let (s1, c) = add_variable_to_set s v; (s2, d) = add_variables_to_set s1 vs1 in (s2, c \<or> d))"

definition equal_variable_sets :: "variable list \<Rightarrow> variable list \<Rightarrow> bool" where
  "equal_variable_sets set1 set2 =
    (if length set1 = length set2 then list_all (is_variable_in_set set2) set1 else False)"

definition sub_variable_sets :: "variable list \<Rightarrow> variable list \<Rightarrow> bool" where
  "sub_variable_sets set1 set2 =
    (if length set1 \<le> length set2 then list_all (is_variable_in_set set2) set1 else False)"

definition combine_variable_sets :: "variable list \<Rightarrow> variable list \<Rightarrow> variable list" where
  "combine_variable_sets set1 set2 =
     set1 @ filter (\<lambda>v. find_variable_in_set set1 v = None) set2"

lemma is_variable_in_set_iff [simp]: "is_variable_in_set s v \<longleftrightarrow> v \<in> set s"
  by (auto simp: is_variable_in_set_def list_ex_iff)

text \<open>The loop of \<open>remove_field_vars\<close> at position \<open>i\<close>.\<close>

lemma top_not_field [simp]: "\<not> is_field_var (get_top_container v)"
  by (induction v) (auto simp: is_field_var_def)

lemma add_variable_simps [simp]:
  "set (fst (add_variable_to_set s v)) = insert v (set s)"
  "distinct (fst (add_variable_to_set s v)) = distinct s"
  "snd (add_variable_to_set s v) \<longleftrightarrow> v \<notin> set s"
  by (auto simp: add_variable_to_set_def)

lemma add_variable_append: "\<exists>r. fst (add_variable_to_set s v) = s @ r"
  by (simp add: add_variable_to_set_def)

lemma add_variable_filter:
  "\<not> P v \<Longrightarrow> filter P (fst (add_variable_to_set s v)) = filter P s"
  by (auto simp: add_variable_to_set_def)

function remove_loop :: "nat \<Rightarrow> variable list \<Rightarrow> variable list" where
  "remove_loop i s =
    (if i < length s then
       if is_field_var (s ! i)
       then remove_loop i (fst (add_variable_to_set (take i s @ drop (Suc i) s) (get_top_container (s ! i))))
       else remove_loop (Suc i) s
     else s)"
  by pat_completeness auto
termination
proof (relation "measures [\<lambda>(i, s). length (filter is_field_var s), \<lambda>(i, s). length s - i]", goal_cases)
  case (2 i s)
  then have "filter is_field_var s =
      filter is_field_var (take i s) @ s ! i # filter is_field_var (drop (Suc i) s)"
    by (metis append_take_drop_id Cons_nth_drop_Suc filter.simps(2) filter_append)
  then show ?case by (simp add: add_variable_filter)
qed auto

declare remove_loop.simps [simp del]

definition remove_field_vars :: "variable list \<Rightarrow> variable list" where
  "remove_field_vars s = remove_loop 0 s"

section \<open>Visibility\<close>

text \<open>A block with the parameters of its function, given as the chain of blocks from it outwards:
  each block's number and local variables.\<close>

record scope =
  sc_params :: "variable list"
  sc_chain :: "(nat \<times> variable list) list"

fun is_visible_local :: "scope option \<Rightarrow> variable \<Rightarrow> bool" where
  "is_visible_local blk (Arr i e es vec c b ss xs) =
    (case blk of None \<Rightarrow> False
       | Some sc \<Rightarrow> list_ex (\<lambda>(n, ls). Some n = b) (sc_chain sc))"
| "is_visible_local blk (Fld p j) =
    (case blk of None \<Rightarrow> var_is_global (Fld p j) | Some sc \<Rightarrow> is_visible_local blk p)"
| "is_visible_local blk (Var i e) =
    (case blk of None \<Rightarrow> var_is_global (Var i e)
       | Some sc \<Rightarrow>
           list_ex (\<lambda>q. var_match q (Var i e)) (sc_params sc) \<or>
           list_ex (\<lambda>(n, ls). find_variable_in_set ls (Var i e) \<noteq> None) (sc_chain sc))"

definition is_visible :: "scope option \<Rightarrow> variable \<Rightarrow> bool" where
  "is_visible blk v \<longleftrightarrow> var_is_global v \<or> is_visible_local blk v"

text \<open>\<open>Block::is_var_on_stack\<close> and \<open>Function::is_var_on_stack\<close>.\<close>

definition is_var_on_stack :: "scope \<Rightarrow> variable \<Rightarrow> bool" where
  "is_var_on_stack sc v \<longleftrightarrow>
     list_ex (\<lambda>q. var_match q v) (sc_params sc) \<or>
     list_ex (\<lambda>(n, ls). find_variable_in_set ls v \<noteq> None) (sc_chain sc)"

section \<open>Containment\<close>

text \<open>What the analyses rely on when they compare variables: containment is a partial order in which
  the containers of a variable form a chain.\<close>

locale containment =
  fixes contains :: "'v \<Rightarrow> 'v \<Rightarrow> bool"
  assumes contains_refl: "contains u u"
    and contains_antisym: "contains u v \<Longrightarrow> contains v u \<Longrightarrow> u = v"
    and contains_trans: "contains u v \<Longrightarrow> contains v w \<Longrightarrow> contains u w"
    and contains_chain: "contains u w \<Longrightarrow> contains v w \<Longrightarrow> contains u v \<or> contains v u"
begin

lemma overlap_iff: "(contains u v \<or> contains v u) \<longleftrightarrow> (\<exists>w. contains u w \<and> contains v w)"
  using contains_refl contains_chain by blast

lemma covered_mono:
  "(\<forall>x \<in> X. \<exists>y \<in> Y. contains y x) \<Longrightarrow> \<exists>x \<in> X. contains x w \<Longrightarrow> \<exists>y \<in> Y. contains y w"
  using contains_trans by blast

lemma overlap_sets_iff:
  "(\<exists>a \<in> A. \<exists>b \<in> B. contains a b \<or> contains b a) \<longleftrightarrow>
   (\<exists>w. (\<exists>a \<in> A. contains a w) \<and> (\<exists>b \<in> B. contains b w))"
  using overlap_iff by blast

end

lemma ancestors_self [simp]: "v \<in> set (ancestors v)"
  by (cases v) auto

lemma ancestors_trans: "u \<in> set (ancestors v) \<Longrightarrow> v \<in> set (ancestors w) \<Longrightarrow> u \<in> set (ancestors w)"
  by (induction w) auto

fun field_depth :: "variable \<Rightarrow> nat" where
  "field_depth (Fld p j) = Suc (field_depth p)"
| "field_depth _ = 0"

lemma ancestors_depth: "u \<in> set (ancestors v) \<Longrightarrow> field_depth u \<le> field_depth v"
  by (induction v) auto

lemma ancestors_antisym: "u \<in> set (ancestors v) \<Longrightarrow> v \<in> set (ancestors u) \<Longrightarrow> u = v"
proof (induction v)
  case (Fld p j)
  then show ?case
    by (auto dest!: ancestors_depth)
qed auto

lemma ancestors_chain:
  "u \<in> set (ancestors w) \<Longrightarrow> v \<in> set (ancestors w) \<Longrightarrow> u \<in> set (ancestors v) \<or> v \<in> set (ancestors u)"
  by (induction w) auto

lemma ancestors_top: "u \<in> set (ancestors v) \<Longrightarrow> get_top_container u = get_top_container v"
  by (induction v) auto

lemma var_match_iff:
  "var_match u v \<longleftrightarrow> u = v \<or> (var_is_aggregate u \<and> vtype v \<noteq> None \<and> u \<in> set (ancestors v))"
  by (auto simp: var_match_def has_field_var_def var_is_aggregate_def split: option.splits)

lemma var_is_aggregate_type: "var_is_aggregate u \<Longrightarrow> vtype u \<noteq> None"
  by (auto simp: var_is_aggregate_def split: option.splits)

interpretation vm: containment var_match
proof (unfold_locales, goal_cases)
  case (2 u v)
  then show ?case by (auto simp: var_match_iff intro: ancestors_antisym)
next
  case (3 u v w)
  then show ?case by (auto simp: var_match_iff intro: ancestors_trans)
next
  case (4 u w v)
  then show ?case
    using ancestors_chain[of u w v] by (auto simp: var_match_iff dest: var_is_aggregate_type)
qed (simp add: var_match_iff)

text \<open>A variable of the program: each field is among the field variables of its parent.\<close>

fun genuine :: "variable \<Rightarrow> bool" where
  "genuine (Fld p j) = (genuine p \<and> Fld p j \<in> set (field_vars p))"
| "genuine _ = True"

lemma field_vars_iff:
  "Fld p j \<in> set (field_vars p) \<longleftrightarrow> (\<exists>t. vtype p = Some t \<and> expanded p \<and> is_aggregate t \<and> j < length (named_fields t))"
  by (cases "vtype p") (auto simp: field_vars_def)

lemma field_vars_nth: "j < length (field_vars p) \<Longrightarrow> field_vars p ! j = Fld p j"
  by (auto simp: field_vars_def split: option.splits if_splits)

lemma in_field_vars: "f \<in> set (field_vars p) \<Longrightarrow> \<exists>j. f = Fld p j"
  by (auto simp: field_vars_def split: option.splits if_splits)

lemma genuine_ancestors: "genuine v \<Longrightarrow> u \<in> set (ancestors v) \<Longrightarrow> genuine u"
  by (induction v) auto

lemma genuine_match: "genuine v \<Longrightarrow> var_match u v \<longleftrightarrow> u \<in> set (ancestors v)"
proof (induction v)
  case (Fld p j)
  then have f: "Fld p j \<in> set (field_vars p)" "genuine p" by auto
  then have p: "var_is_aggregate p" "vtype (Fld p j) \<noteq> None"
    by (auto simp: field_vars_iff var_is_aggregate_def)
  show ?case
  proof
    assume "u \<in> set (ancestors (Fld p j))"
    then have "u = Fld p j \<or> (u \<in> set (ancestors p) \<and> var_match u p)" using Fld.IH f(2) by auto
    then show "var_match u (Fld p j)" using p by (auto simp: var_match_iff)
  qed (auto simp: var_match_iff)
qed (auto simp: var_match_iff)

text \<open>The strict descendants of a variable, in the order the walks visit them.\<close>

function descendants :: "variable \<Rightarrow> variable list" where
  "descendants v = concat (map (\<lambda>f. f # descendants f) (field_vars v))"
  by pat_completeness auto
termination
  by (relation "measure type_weight") (simp_all add: field_vars_weight)

declare descendants.simps [simp del]

lemma set_descendants_step: "w \<in> set (descendants v) \<longleftrightarrow> (\<exists>f \<in> set (field_vars v). w = f \<or> w \<in> set (descendants f))"
  by (subst descendants.simps) auto

lemma descendants_field: "f \<in> set (field_vars v) \<Longrightarrow> f \<in> set (descendants v)"
  by (subst set_descendants_step) blast

lemma descendants_sub: "f \<in> set (field_vars v) \<Longrightarrow> w \<in> set (descendants f) \<Longrightarrow> w \<in> set (descendants v)"
  by (subst set_descendants_step) blast

lemma descendants_ancestors:
  "w \<in> set (descendants v) \<Longrightarrow> v \<in> set (ancestors w) \<and> w \<noteq> v"
proof (induction v rule: descendants.induct)
  case (1 v)
  then obtain f where f: "f \<in> set (field_vars v)" "w = f \<or> w \<in> set (descendants f)"
    using set_descendants_step by blast
  then obtain j where j: "f = Fld v j" using in_field_vars by blast
  have "f \<in> set (ancestors w)" using f 1 by (metis ancestors_self)
  moreover have "v \<in> set (ancestors f)" by (simp add: j)
  ultimately have "v \<in> set (ancestors w)" using ancestors_trans by blast
  moreover have "field_depth v < field_depth w"
    using ancestors_depth[OF \<open>f \<in> set (ancestors w)\<close>] by (simp add: j)
  ultimately show ?case by auto
qed

lemma descendants_trans:
  "w \<in> set (descendants v) \<Longrightarrow> f \<in> set (field_vars w) \<Longrightarrow> f \<in> set (descendants v)"
proof (induction v rule: descendants.induct)
  case (1 v)
  then show ?case using set_descendants_step by metis
qed

lemma ancestors_descendants:
  "genuine w \<Longrightarrow> v \<in> set (ancestors w) \<Longrightarrow> w \<noteq> v \<Longrightarrow> w \<in> set (descendants v)"
proof (induction w)
  case (Fld p j)
  then have "Fld p j \<in> set (field_vars p)" by simp
  then show ?case
    using Fld descendants_field descendants_trans[of p v "Fld p j"] by (cases "p = v") auto
qed auto

lemma descendants_nonaggregate: "\<not> var_is_aggregate v \<Longrightarrow> descendants v = []"
  by (subst descendants.simps) (auto simp: field_vars_def var_is_aggregate_def split: option.splits)

lemma find_variable_None [simp]:
  "find_variable_in_set s v = None \<longleftrightarrow> (\<forall>x \<in> set s. \<not> var_match x v)"
  by (simp add: find_variable_in_set_def)

lemma find_variable_SomeD: "find_variable_in_set s v = Some i \<Longrightarrow> i < length s \<and> var_match (s ! i) v"
  using find_index_SomeD unfolding find_variable_in_set_def by fastforce

lemma find_field_variable_SomeD:
  "find_field_variable_in_set s v = Some i \<Longrightarrow>
     i < length s \<and> (\<exists>w \<in> set (descendants v). var_match (s ! i) w)"
proof (induction s v rule: find_field_variable_in_set.induct)
  case (1 s v)
  then have a: "var_is_aggregate v"
    and "find_map (\<lambda>field. case find_variable_in_set s field of Some pos \<Rightarrow> Some pos
           | None \<Rightarrow> find_field_variable_in_set s field) (field_vars v) = Some i"
    by (auto simp: find_field_variable_in_set.simps[of s v] split: if_splits)
  then obtain f where f: "f \<in> set (field_vars v)"
    "(case find_variable_in_set s f of Some pos \<Rightarrow> Some pos
        | None \<Rightarrow> find_field_variable_in_set s f) = Some i"
    using find_map_SomeD by meson
  show ?case
  proof (cases "find_variable_in_set s f")
    case None
    have "find_field_variable_in_set s f = Some i" using f(2) by (simp only: None option.case)
    then show ?thesis using "1.IH"[OF a f(1) None] f(1) descendants_sub by blast
  next
    case (Some k)
    then show ?thesis using find_variable_SomeD[OF Some] f by (auto intro: descendants_field)
  qed
qed

lemma find_field_variable_None:
  "find_field_variable_in_set s v = None \<Longrightarrow>
     x \<in> set s \<Longrightarrow> w \<in> set (descendants v) \<Longrightarrow> \<not> var_match x w"
proof (induction s v rule: find_field_variable_in_set.induct)
  case (1 s v)
  then obtain f where f: "f \<in> set (field_vars v)" "w = f \<or> w \<in> set (descendants f)"
    using set_descendants_step by blast
  have a: "var_is_aggregate v" using "1.prems"(3) descendants_nonaggregate by fastforce
  then have "(case find_variable_in_set s f of Some pos \<Rightarrow> Some pos
      | None \<Rightarrow> find_field_variable_in_set s f) = None"
    using "1.prems"(1) f(1)
    by (simp add: find_field_variable_in_set.simps[of s v] del: find_variable_None)
  then have "find_variable_in_set s f = None \<and> find_field_variable_in_set s f = None"
    by (auto split: option.splits)
  then show ?case using "1.IH"[OF a f(1)] f(2) "1.prems"(2) by auto
qed

section \<open>The set operations\<close>

lemma add_variables_spec:
  "add_variables_to_set s t = (u, c) \<Longrightarrow>
     set u = set s \<union> set t \<and> (c \<longleftrightarrow> \<not> set t \<subseteq> set s) \<and> (distinct s \<longrightarrow> distinct u) \<and> (\<exists>r. u = s @ r)"
proof (induction t arbitrary: s u c)
  case (Cons v t)
  obtain s1 c1 where 1: "add_variable_to_set s v = (s1, c1)" by fastforce
  obtain s2 d where 2: "add_variables_to_set s1 t = (s2, d)" by fastforce
  have "set s1 = insert v (set s)" "distinct s1 = distinct s" "c1 \<longleftrightarrow> v \<notin> set s"
    using add_variable_simps[of s v] by (simp_all add: 1)
  moreover have "\<exists>r. s1 = s @ r" using 1 by (auto simp: add_variable_to_set_def split: if_splits)
  ultimately show ?case using Cons.prems Cons.IH[OF 2] by (auto simp: 1 2)
qed simp

lemma sub_sets_iff: "distinct s \<Longrightarrow> sub_variable_sets s t \<longleftrightarrow> set s \<subseteq> set t"
  by (auto simp: sub_variable_sets_def list_all_iff)
    (metis card_mono distinct_card card_length le_trans List.finite_set)

lemma sub_sets_subset: "sub_variable_sets s t \<Longrightarrow> set s \<subseteq> set t"
  by (auto simp: sub_variable_sets_def list_all_iff split: if_splits)

lemma equal_sets_iff:
  assumes "distinct s" "distinct t"
  shows "equal_variable_sets s t \<longleftrightarrow> set s = set t"
proof
  assume "equal_variable_sets s t"
  then have "set s \<subseteq> set t" "card (set s) = card (set t)"
    using assms by (auto simp: equal_variable_sets_def list_all_iff distinct_card split: if_splits)
  then show "set s = set t" using card_subset_eq[OF List.finite_set] by blast
next
  assume e: "set s = set t"
  then have "length s = length t" using assms by (metis distinct_card)
  then show "equal_variable_sets s t" using e by (simp add: equal_variable_sets_def list_all_iff)
qed

lemma remove_loop_spec:
  "i \<le> length s \<Longrightarrow> \<forall>v \<in> set (take i s). \<not> is_field_var v \<Longrightarrow>
     set (remove_loop i s) = get_top_container ` set s \<and>
     (\<forall>v \<in> set (remove_loop i s). \<not> is_field_var v) \<and>
     (distinct s \<longrightarrow> distinct (remove_loop i s))"
proof (induction i s rule: remove_loop.induct)
  case (1 i s)
  let ?rest = "take i s @ drop (Suc i) s"
  let ?s1 = "fst (add_variable_to_set ?rest (get_top_container (s ! i)))"
  have tops: "get_top_container v = v" if "\<not> is_field_var v" for v
    using that by (cases v) (auto simp: is_field_var_def)
  consider (field) "i < length s" "is_field_var (s ! i)" | (plain) "i < length s" "\<not> is_field_var (s ! i)"
    | (ended) "i = length s" using "1.prems" by linarith
  then show ?case
  proof cases
    case field
    have split: "s = take i s @ s ! i # drop (Suc i) s" using field(1) by (simp add: id_take_nth_drop)
    have ss: "set s = insert (s ! i) (set ?rest)" by (subst split) auto
    have d: "distinct s \<Longrightarrow> distinct ?rest" by (subst (asm) split) auto
    obtain r where r: "?s1 = ?rest @ r" using add_variable_append by blast
    have "take i ?s1 = take i s" using field(1) by (simp add: r)
    moreover have "i \<le> length ?s1" using field(1) by (simp add: r)
    ultimately have ih: "set (remove_loop i ?s1) = get_top_container ` set ?s1"
      "\<forall>v \<in> set (remove_loop i ?s1). \<not> is_field_var v" "distinct ?s1 \<longrightarrow> distinct (remove_loop i ?s1)"
      using "1.IH"(1)[OF field] "1.prems"(2) by simp_all
    have "get_top_container ` set ?s1 = get_top_container ` set s"
      by (simp add: ss image_insert tops[OF top_not_field])
    then show ?thesis using ih d field by (simp add: remove_loop.simps[of i s])
  next
    case plain
    have "\<forall>v \<in> set (take (Suc i) s). \<not> is_field_var v"
      using plain "1.prems"(2) by (simp add: take_Suc_conv_app_nth)
    then show ?thesis using "1.IH"(2)[OF plain] plain by (simp add: remove_loop.simps[of i s])
  next
    case ended
    then show ?thesis using "1.prems"(2) tops by (simp add: remove_loop.simps[of "length s" s])
  qed
qed

section \<open>Names and collectives\<close>

lemma digit_chars: "is_digit c \<Longrightarrow> c \<noteq> CHR ''('' \<and> c \<noteq> CHR ''x'' \<and> c \<noteq> CHR ''.'' \<and> c \<noteq> CHR '']'' \<and> c \<noteq> CHR ''-''"
  by (auto simp: is_digit_def)

lemma dec_show_nat: "stream_dec (show_nat n) = int n"
proof -
  have "takeWhile is_digit (show_nat n) = show_nat n"
    using show_nat_digits by (simp only: takeWhile_eq_all_conv) blast
  moreover have "take 1 (show_nat n) \<noteq> ''-''"
  proof
    assume "take 1 (show_nat n) = ''-''"
    then have "CHR ''-'' \<in> set (show_nat n)" by (metis in_set_takeD list.set_intros(1))
    then show False using show_nat_digits digit_chars by blast
  qed
  ultimately show ?thesis unfolding stream_dec_def by (simp only: read_show_nat if_False)
qed

lemma str2int_show_nat: "str2int stream_dec stream_hex (show_nat n) = Some (int n)"
proof -
  have "show_nat n ! 0 \<noteq> CHR ''(''"
    using digit_chars show_nat_digits[of "show_nat n ! 0" n] by (simp add: show_nat_not_Nil)
  moreover have "take 2 (show_nat n) \<noteq> ''0x''"
  proof
    assume "take 2 (show_nat n) = ''0x''"
    then have "CHR ''x'' \<in> set (show_nat n)" by (metis in_set_takeD list.set_intros)
    then show False using show_nat_digits digit_chars by blast
  qed
  ultimately show ?thesis by (subst str2int.simps) (simp add: dec_show_nat)
qed

text \<open>A field reached from a variable by a path of positions, outermost first.\<close>

fun field_at :: "variable \<Rightarrow> nat list \<Rightarrow> variable" where
  "field_at v [] = v"
| "field_at v (j # js) = field_at (Fld v j) js"

fun path_text :: "nat list \<Rightarrow> string" where
  "path_text [] = []"
| "path_text (j # js) = ''.f'' @ show_nat j @ path_text js"

fun path_ok :: "variable \<Rightarrow> nat list \<Rightarrow> bool" where
  "path_ok v [] = True"
| "path_ok v (j # js) = (j < length (field_vars v) \<and> path_ok (Fld v j) js)"

lemma path_text_chars: "c \<in> set (path_text js) \<Longrightarrow> c \<noteq> CHR '']''"
  by (induction js) (auto dest: show_nat_digits digit_chars)

lemma find_dot_show_nat:
  "find_from (\<lambda>c. c = CHR ''.'') (xs @ CHR ''.'' # CHR ''f'' # show_nat j @ path_text js) (length xs + 1) =
     (if js = [] then None else Some (length xs + 2 + length (show_nat j)))"
proof -
  let ?P = "\<lambda>c. c = CHR ''.''"
  have d: "\<forall>c \<in> set (show_nat j). \<not> ?P c" using show_nat_digits digit_chars by blast
  have dropd: "drop (length xs + 1) (xs @ CHR ''.'' # CHR ''f'' # show_nat j @ path_text js) =
      CHR ''f'' # show_nat j @ path_text js" by simp
  have tw: "dropWhile (\<lambda>c. \<not> ?P c) (CHR ''f'' # show_nat j @ path_text js) = path_text js"
    using d by (cases js) (auto simp: dropWhile_append)
  show ?thesis
    unfolding find_from_drop dropd Let_def tw by (cases js) auto
qed

lemma field_walk_step:
  assumes "j < length (field_vars v)"
  shows "field_walk (xs @ path_text (j # js)) (Some (length xs)) v =
    field_walk ((xs @ ''.f'' @ show_nat j) @ path_text js)
      (if js = [] then None else Some (length (xs @ ''.f'' @ show_nat j))) (Fld v j)"
proof -
  let ?s = "xs @ CHR ''.'' # CHR ''f'' # show_nat j @ path_text js"
  have piece: "substr ?s (length xs + 2)
      (map_option (\<lambda>p. p - length xs - 2) (if js = [] then None else Some (length xs + 2 + length (show_nat j)))) =
      show_nat j"
    by (cases js) (auto simp: substr_def)
  have v: "vec_at (field_vars v) j = Some (Fld v j)" using assms field_vars_nth by simp
  show ?thesis
    by (simp add: field_walk.simps(2) Let_def find_dot_show_nat[simplified] piece[simplified]
        str2int_show_nat v)
qed

lemma field_walk_path:
  "path_ok v js \<Longrightarrow>
     field_walk (xs @ path_text js) (if js = [] then None else Some (length xs)) v = Some (field_at v js)"
proof (induction js arbitrary: v xs)
  case (Cons j js)
  then have j: "j < length (field_vars v)" "path_ok (Fld v j) js" by auto
  have "field_walk (xs @ path_text (j # js)) (Some (length xs)) v =
    field_walk ((xs @ ''.f'' @ show_nat j) @ path_text js)
      (if js = [] then None else Some (length (xs @ ''.f'' @ show_nat j))) (Fld v j)"
    by (rule field_walk_step[OF j(1)])
  also have "\<dots> = Some (field_at (Fld v j) js)" by (rule Cons.IH[OF j(2)])
  finally show ?case by simp
qed simp

lemma field_at_snoc: "field_at v (js @ [j]) = Fld (field_at v js) j"
  by (induction js arbitrary: v) auto

lemma field_at_facts:
  "js \<noteq> [] \<Longrightarrow> is_field_var (field_at v js) \<and> \<not> isArray (field_at v js)"
  "is_array_field (field_at v js) = is_array_field v"
  "js \<noteq> [] \<Longrightarrow> isArray v \<Longrightarrow> array_parent (field_at v js) = Some v"
  "js \<noteq> [] \<Longrightarrow> isArray v \<Longrightarrow> vname pr (field_at v js) = array_output pr v @ path_text js"
proof -
  have na: "js \<noteq> [] \<Longrightarrow> is_field_var (field_at v js) \<and> \<not> isArray (field_at v js)" for js
    by (cases js rule: rev_cases) (auto simp: field_at_snoc is_field_var_def)
  then show "js \<noteq> [] \<Longrightarrow> is_field_var (field_at v js) \<and> \<not> isArray (field_at v js)" .
  show "is_array_field (field_at v js) = is_array_field v"
    by (induction js arbitrary: v) auto
  show "js \<noteq> [] \<Longrightarrow> isArray v \<Longrightarrow> array_parent (field_at v js) = Some v"
  proof (induction js rule: rev_induct)
    case (snoc j js)
    then show ?case using na[of js] by (cases "js = []") (auto simp: field_at_snoc)
  qed simp
  show "js \<noteq> [] \<Longrightarrow> isArray v \<Longrightarrow> vname pr (field_at v js) = array_output pr v @ path_text js"
  proof (induction js rule: rev_induct)
    case (snoc j js)
    have t: "path_text (js @ [j]) = path_text js @ ''.f'' @ show_nat j" for js
      by (induction js) auto
    show ?case using snoc na[of js] by (cases "js = []") (auto simp: field_at_snoc t)
  qed simp
qed

lemma find_last_bracket:
  assumes "s = a @ CHR '']'' # b" "\<forall>c \<in> set b. c \<noteq> CHR '']''"
  shows "find_last_of (CHR '']'') s = Some (length a)"
proof -
  have "find_index (\<lambda>d. d = c) (xs @ c # ys) = Some (length xs)" if "\<forall>d \<in> set xs. d \<noteq> c" for c :: char and xs ys
    using that by (induction xs) auto
  from this[of "rev b" "CHR '']''" "rev a"] show ?thesis
    using assms(2) by (simp add: find_last_of_def assms(1))
qed

lemma collective_path:
  assumes a: "a = Arr i e es None (Some c) b ss (xs @ [x])" and c: "collective_of c = c" "isArray c" "c \<noteq> a"
    and js: "js \<noteq> []" "path_ok c js"
  shows "get_collective pr (field_at a js) = Some (field_at c js)"
proof -
  have arr: "isArray a" "is_array_field a" "collective_of a = c" using c by (cases c; simp add: a)+
  define pre where "pre = (if b = None then pr_name pr (vi_name i) else vi_name i) @
     concat (map (\<lambda>y. ''['' @ pr_expr pr y @ '']'') xs) @ ''['' @ pr_expr pr x"
  have out: "array_output pr a = pre @ '']''" by (simp add: a pre_def)
  have name: "vname pr (field_at a js) = pre @ CHR '']'' # path_text js"
    using field_at_facts(4)[OF js(1) arr(1)] by (simp add: out)
  have last: "find_last_of (CHR '']'') (vname pr (field_at a js)) = Some (length pre)"
    by (rule find_last_bracket[OF name]) (use path_text_chars in blast)
  have tail: "drop (length pre) (vname pr (field_at a js)) = '']'' @ path_text js" by (simp add: name)
  obtain j js' where jj: "js = j # js'" using js(1) by (cases js) auto
  have dot: "find_from (\<lambda>c. c = CHR ''.'') ('']'' @ path_text js) 0 = Some (length '']'')"
    by (simp add: find_from_drop jj)
  have "field_walk ('']'' @ path_text js) (Some (length '']'')) c = Some (field_at c js)"
    using field_walk_path[OF js(2), of "'']''"] js(1) by simp
  then show ?thesis
    using c(3) field_at_facts(1)[OF js(1), of a] field_at_facts(2)[of a js] field_at_facts(3)[OF js(1) arr(1)] arr
    by (simp add: get_collective_def last tail dot[simplified] Let_def)
qed

text \<open>A collective is its own collective.\<close>

lemma collective_of_idem: "collective_of (collective_of v) = collective_of v"
  by (induction v rule: collective_of.induct) auto

lemma field_walk_chain:
  "field_walk s pos coll = Some r \<Longrightarrow> \<exists>js. r = field_at coll js"
proof (induction s pos coll rule: field_walk.induct)
  case (1 s coll)
  then show ?case by (intro exI[of _ "[]"]) simp
next
  case (2 s pos1 coll)
  then obtain f where f: "f \<in> set (field_vars coll)"
    "\<exists>js. r = field_at f js"
    by (fastforce simp: field_walk.simps(2) Let_def bind_eq_Some_conv dest: nth_mem)
  from f(1) obtain j where "f = Fld coll j" by (auto simp: field_vars_def split: option.splits if_splits)
  then show ?case using f(2) by (metis field_at.simps(2))
qed

lemma get_collective_idem:
  assumes "get_collective pr v = Some w"
  shows "get_collective pr w = Some w"
proof (cases "is_field_var v \<and> is_array_field v")
  case False
  then have w: "w = collective_of v" using assms unfolding get_collective_def by (metis option.inject)
  show ?thesis
  proof (cases "is_field_var w")
    case True
    then have "w = v" using w by (induction v rule: collective_of.induct) (auto simp: is_field_var_def)
    then show ?thesis using assms by simp
  next
    case False
    then show ?thesis using w by (simp add: get_collective_def collective_of_idem)
  qed
next
  case field: True
  then obtain p where p: "array_parent v = Some p" using assms by (auto simp: get_collective_def bind_eq_Some_conv)
  show ?thesis
  proof (cases "collective_of p = p")
    case True
    then show ?thesis using assms p field by (simp add: get_collective_def)
  next
    case other: False
    then obtain js where js: "w = field_at (collective_of p) js"
      using assms p field by (auto simp: get_collective_def bind_eq_Some_conv Let_def dest!: field_walk_chain)
    have p1: "isArray p" using p by (induction v) (auto split: if_splits)
    have arr: "isArray (collective_of p)" using p1 by (induction p rule: collective_of.induct) auto
    have nf: "\<not> is_field_var (collective_of p)" using arr by (cases "collective_of p") (auto simp: is_field_var_def)
    show ?thesis
    proof (cases js)
      case Nil
      then show ?thesis using js nf by (simp add: get_collective_def collective_of_idem)
    next
      case (Cons j js')
      then have ne: "js \<noteq> []" by simp
      have "is_array_field (collective_of p)" using arr by (cases "collective_of p") auto
      then have "is_field_var w" "is_array_field w" "array_parent w = Some (collective_of p)"
        unfolding js using field_at_facts(1,3)[OF ne] field_at_facts(2) arr by auto
      then show ?thesis by (simp add: get_collective_def collective_of_idem)
    qed
  qed
qed

section \<open>Qualifiers of fields\<close>

text \<open>A variable as the generator makes them: a well-formed type, qualifiers that fit it, and fields
  that exist.\<close>

fun wf_info :: "var_info \<Rightarrow> bool" where
  "wf_info i = (\<exists>t. vi_type i = Some t \<and> wf_type t \<and> wf_cvq (vi_qfer i) \<and> \<not> wildcard (vi_qfer i) \<and>
     sanity_check t (vi_qfer i))"

definition wf_variable :: "variable \<Rightarrow> bool" where
  "wf_variable v \<longleftrightarrow> genuine v \<and>
     (case get_top_container v of
        Var i e \<Rightarrow> wf_info i | Arr i e es vec c b ss xs \<Rightarrow> wf_info i | Fld p j \<Rightarrow> False)"

lemma set_from_end_last: "bs \<noteq> [] \<Longrightarrow> set_from_end b 0 bs = Some (butlast bs @ [b])"
  by (cases bs rule: rev_cases) (auto simp: set_from_end_def list_update_append)

lemma qualifier_top:
  assumes "is_consts q \<noteq> []" "wf_cvq q"
  shows "cvq_is_const q = Some (last (is_consts q))" "cvq_is_volatile q = Some (last (is_volatiles q))"
  using assms
  by (auto simp: cvq_is_const_def cvq_is_volatile_def is_const_after_deref_def
      is_volatile_after_deref_def wf_cvq_def vec_at_def last_conv_nth rev_nth)

lemma wf_variable_step:
  assumes "wf_type t" "is_aggregate t" "wf_cvq q" "\<not> wildcard q" "sanity_check t q"
    "vtype p = Some t" "vqfer p = Some q" "j < length (named_fields t)"
  shows "\<exists>ft fq. vtype (Fld p j) = Some ft \<and> wf_type ft \<and> vqfer (Fld p j) = Some fq \<and>
     wf_cvq fq \<and> \<not> wildcard fq \<and> sanity_check ft fq \<and>
     (last (is_consts q) \<longrightarrow> last (is_consts fq)) \<and> (last (is_volatiles q) \<longrightarrow> last (is_volatiles fq))"
proof -
  obtain st sid pk fs qs ls where t: "t = TAgg st sid pk fs qs ls"
    using assms(2) by (cases t) (auto simp: is_aggregate_def)
  define i where "i = named_fields t ! j"
  have "i \<in> set (named_fields t)" using assms(8) by (simp add: i_def)
  then have i: "i < length fs" by (auto simp: named_fields_def t)
  have l: "length qs = length fs" using assms(1) by (simp add: t)
  have "list_all wf_type fs" "list_all2 sanity_check fs qs" "list_all (\<lambda>q. wf_cvq q \<and> \<not> wildcard q) qs"
    using assms(1) by (simp_all add: t)
  then have ft: "wf_type (fs ! i)" and fq: "sanity_check (fs ! i) (qs ! i)" "wf_cvq (qs ! i)" "\<not> wildcard (qs ! i)"
    using i l by (simp_all add: list_all_length list_all2_nthD)
  then have ne: "is_consts (qs ! i) \<noteq> []" "is_volatiles (qs ! i) \<noteq> []" "is_consts q \<noteq> []"
    using assms(3) by (auto simp: wf_cvq_def)
  note qt = qualifier_top[OF ne(3) assms(3)] qualifier_top[OF ne(1) fq(2)]
  let ?c = "last (is_consts q) \<or> last (is_consts (qs ! i))"
  let ?v = "last (is_volatiles q) \<or> last (is_volatiles (qs ! i))"
  let ?cs = "butlast (is_consts (qs ! i)) @ [?c]" and ?vs = "butlast (is_volatiles (qs ! i)) @ [?v]"
  have lens: "length ?cs = length (is_consts (qs ! i))" "length ?vs = length (is_volatiles (qs ! i))"
    using ne by simp_all
  have v1: "cvq_is_volatile ((qs ! i)\<lparr>is_consts := cs\<rparr>) = cvq_is_volatile (qs ! i)" for cs
    by (simp add: cvq_is_volatile_def is_volatile_after_deref_def)
  have "vec_at (named_fields t) j = Some i" "vec_at (qfers t) i = Some (qs ! i)"
    using assms(8) i l by (simp_all add: i_def vec_at_def t)
  then have "vqfer (Fld p j) = Some (cvq_new ?cs ?vs)"
    using assms(6,7) ne
    by (simp add: qt set_const_def set_volatile_def set_from_end_last v1 del: vec_at_eq_Some)
  moreover have "vtype (Fld p j) = Some (fs ! i)" using assms(6,8) by (simp add: t i_def)
  moreover have "sanity_check (fs ! i) (cvq_new ?cs ?vs)" "wf_cvq (cvq_new ?cs ?vs)"
    using fq lens by (auto simp: sanity_check_def wf_cvq_def cvq_new_def)
  ultimately show ?thesis using ft by (auto simp: cvq_new_def)
qed

text \<open>The facts a property of fields starts from.\<close>

definition sound_qualifiers :: "variable \<Rightarrow> bool" where
  "sound_qualifiers v \<longleftrightarrow> (\<exists>t q. vtype v = Some t \<and> wf_type t \<and> vqfer v = Some q \<and>
     wf_cvq q \<and> \<not> wildcard q \<and> sanity_check t q)"

lemma wf_variable_sound: "wf_variable v \<Longrightarrow> sound_qualifiers v"
proof (induction v)
  case (Fld p j)
  then have "wf_variable p" by (simp add: wf_variable_def)
  then obtain t q where p: "vtype p = Some t" "wf_type t" "vqfer p = Some q" "wf_cvq q" "\<not> wildcard q"
    "sanity_check t q" using Fld.IH by (auto simp: sound_qualifiers_def)
  have "is_aggregate t" "j < length (named_fields t)"
    using Fld.prems p(1) by (auto simp: wf_variable_def field_vars_iff)
  from wf_variable_step[OF p(2) this(1) p(4,5,6,1,3) this(2)]
  show ?case by (auto simp: sound_qualifiers_def)
qed (auto simp: wf_variable_def sound_qualifiers_def)

lemma field_inherits:
  assumes "wf_variable (Fld p j)"
  shows "\<exists>q fq. vqfer p = Some q \<and> vqfer (Fld p j) = Some fq \<and>
     (last (is_consts q) \<longrightarrow> last (is_consts fq)) \<and> (last (is_volatiles q) \<longrightarrow> last (is_volatiles fq))"
proof -
  have "wf_variable p" using assms by (simp add: wf_variable_def)
  then obtain t q where p: "vtype p = Some t" "wf_type t" "vqfer p = Some q" "wf_cvq q" "\<not> wildcard q"
    "sanity_check t q" using wf_variable_sound sound_qualifiers_def by blast
  have "is_aggregate t" "j < length (named_fields t)"
    using assms p(1) by (auto simp: wf_variable_def field_vars_iff)
  from wf_variable_step[OF p(2) this(1) p(4,5,6,1,3) this(2)]
  show ?thesis using p(3) by auto
qed

lemma field_qualified:
  assumes "wf_variable v" "u \<in> set (ancestors v)" "vqfer u = Some q"
  shows "\<exists>fq. vqfer v = Some fq \<and> wf_cvq fq \<and>
     (last (is_consts q) \<longrightarrow> last (is_consts fq)) \<and> (last (is_volatiles q) \<longrightarrow> last (is_volatiles fq))"
  using assms
proof (induction v)
  case (Fld p j)
  obtain fq where fq: "vqfer (Fld p j) = Some fq" "wf_cvq fq"
    using wf_variable_sound[OF Fld.prems(1)] by (auto simp: sound_qualifiers_def simp del: vqfer.simps)
  show ?case
  proof (cases "u = Fld p j")
    case True
    then show ?thesis using fq Fld.prems(3) by (simp del: vqfer.simps)
  next
    case False
    then have u: "u \<in> set (ancestors p)" using Fld.prems(2) by simp
    have "wf_variable p" using Fld.prems(1) by (simp add: wf_variable_def)
    from Fld.IH[OF this u Fld.prems(3)] field_inherits[OF Fld.prems(1)] fq
    show ?thesis by (auto simp del: vqfer.simps)
  qed
qed (auto dest!: wf_variable_sound simp: sound_qualifiers_def)

section \<open>Properties\<close>

text \<open>A small program: a struct \<open>{ const int; struct { int*; unnamed padding; int } }\<close>, a volatile
  variable of that type, an array of it and its member 0.\<close>

definition inner_struct :: ctype where
  "inner_struct = TAgg True 1 False [TPointer (TSimple eInt), TSimple eInt, TSimple eInt]
     [cvq_new [False, False] [False, False], cvq_new [False] [False], cvq_new [False] [False]] [-1, 0, -1]"

definition outer_struct :: ctype where
  "outer_struct = TAgg True 2 False [TSimple eInt, inner_struct]
     [cvq_new [True] [False], cvq_new [False] [False]] [-1, -1]"

definition sample_info :: "nat \<Rightarrow> string \<Rightarrow> bool \<Rightarrow> var_info" where
  "sample_info n name vol = \<lparr>vi_id = n, vi_name = name, vi_type = Some outer_struct,
     vi_qfer = cvq_new [False] [vol], vi_expanded = True\<rparr>"

definition sample_var :: variable where
  "sample_var = Var (sample_info 3 ''g_3'' True) None"

definition sample_array :: variable where
  "sample_array = Arr (sample_info 4 ''g_4'' False) None [] None None None [5] []"

definition sample_item :: variable where
  "sample_item = Arr (sample_info 5 ''g_4'' False) None [] None (Some sample_array) None [5]
     [EConst (TSimple eInt) ''0'']"

definition sample_printer :: printer where
  "sample_printer = \<lparr>pr_name = (\<lambda>s. s), pr_expr = (\<lambda>e. case e of EConst t s \<Rightarrow> s | _ \<Rightarrow> ''x'')\<rparr>"

lemmas sample_defs = sample_var_def sample_array_def sample_item_def sample_info_def
  inner_struct_def outer_struct_def

text \<open>A struct or union variable matches exactly its field variables, at any depth, and itself:
  \<open>Variable::match\<close> is a partial order in which the containers of a variable form a chain, and it
  holds between the variables of the program exactly when the first is on the \<open>field_var_of\<close> chain
  of the second (so matching variables have the same top container).\<close>

lemma var_match_containment:
  assumes "genuine w"
  shows "(var_match v v) \<and>
    (var_match u v \<longrightarrow> var_match v u \<longrightarrow> u = v) \<and>
    (var_match u v \<longrightarrow> var_match v x \<longrightarrow> var_match u x) \<and>
    (var_match u x \<longrightarrow> var_match v x \<longrightarrow> var_match u v \<or> var_match v u) \<and>
    (var_match v w \<longleftrightarrow> v = w \<or> w \<in> set (descendants v)) \<and>
    (var_match u w \<longrightarrow> get_top_container u = get_top_container w)"
proof -
  have p1: "var_match v v" by (rule vm.contains_refl)
  have p2: "var_match u v \<Longrightarrow> var_match v u \<Longrightarrow> u = v" by (rule vm.contains_antisym)
  have p3: "var_match u v \<Longrightarrow> var_match v x \<Longrightarrow> var_match u x" by (rule vm.contains_trans)
  have p4: "var_match u x \<Longrightarrow> var_match v x \<Longrightarrow> var_match u v \<or> var_match v u" by (rule vm.contains_chain)
  have p5: "var_match v w \<longleftrightarrow> v = w \<or> w \<in> set (descendants v)"
    using genuine_match[OF assms] ancestors_descendants[OF assms] descendants_ancestors[of w v]
    by (metis ancestors_self)
  have p6: "var_match u w \<Longrightarrow> get_top_container u = get_top_container w"
    using genuine_match[OF assms] ancestors_top by blast
  show ?thesis using p1 p2 p3 p4 p5 p6 by blast
qed

text \<open>C34: \<open>get_collective\<close> of a field of an itemized member of a collective array, which parses the text of the
  member's name behind its last bracket, returns the field of the array itself that the same path
  of positions leads to, whatever the index expressions are printed as.\<close>

theorem get_collective_of_field:
  assumes "item = Arr i e es None (Some coll) b ss (indices @ [ind])" "collective_of coll = coll" "isArray coll"
    and "coll \<noteq> item"
    and "path \<noteq> []" "path_ok coll path"
  shows "get_collective pr (field_at item path) = Some (field_at coll path)"
  by (rule collective_path[OF assms])

lemma get_collective_of_field_witness:
  "get_collective sample_printer (field_at sample_item [1, 1]) = Some (field_at sample_array [1, 1])"
  by (rule get_collective_of_field[where indices = "[]" and ind = "EConst (TSimple eInt) ''0''"])
    (simp_all add: sample_defs field_vars_def is_aggregate_def named_fields_def is_unamed_padding_def vec_at_def)

text \<open>The operations on variable sets are the operations on sets: adding returns the union,
  keeps the members it had in their order and without duplicates, and reports exactly whether
  something was new; on sets without duplicates the comparisons are inclusion and equality.\<close>

lemma variable_sets_correct:
  assumes "add_variables_to_set s t = (u, changed)" "distinct s" "distinct t"
  shows "(set u = set s \<union> set t) \<and>
    (distinct u) \<and>
    (\<exists>r. u = s @ r) \<and>
    (changed \<longleftrightarrow> \<not> set t \<subseteq> set s) \<and>
    (sub_variable_sets s t \<longleftrightarrow> set s \<subseteq> set t) \<and>
    (equal_variable_sets s t \<longleftrightarrow> set s = set t)"
  using add_variables_spec[OF assms(1)] sub_sets_iff[OF assms(2)] equal_sets_iff[OF assms(2,3)] assms(2)
  by simp

text \<open>\<open>remove_field_vars\<close> ends, and replaces every field variable of the set by the top variable
  that contains it: the result has no field variable, has exactly the top containers of the members,
  and no duplicates when the set had none.\<close>

lemma remove_field_vars_correct:
  "(set (remove_field_vars s) = get_top_container ` set s) \<and>
    (\<forall>v \<in> set (remove_field_vars s). \<not> is_field_var v) \<and>
    (distinct s \<longrightarrow> distinct (remove_field_vars s))"
  using remove_loop_spec[of 0 s] by (auto simp: remove_field_vars_def)

text \<open>\<open>find_field_variable_in_set\<close> finds a member of the set that matches a field of the variable,
  at any depth, and fails only when there is none.\<close>

lemma find_field_variable_correct:
  "(find_field_variable_in_set s v = Some i \<longrightarrow>
      i < length s \<and> (\<exists>w \<in> set (descendants v). var_match (s ! i) w)) \<and>
    (find_field_variable_in_set s v = None \<longleftrightarrow>
      (\<forall>x \<in> set s. \<forall>w \<in> set (descendants v). \<not> var_match x w))"
proof -
  have p1: "find_field_variable_in_set s v = Some i \<Longrightarrow>
      i < length s \<and> (\<exists>w \<in> set (descendants v). var_match (s ! i) w)"
    by (rule find_field_variable_SomeD)
  have p2: "find_field_variable_in_set s v = None \<longleftrightarrow>
      (\<forall>x \<in> set s. \<forall>w \<in> set (descendants v). \<not> var_match x w)"
  proof
    show "find_field_variable_in_set s v = None \<Longrightarrow>
        \<forall>x \<in> set s. \<forall>w \<in> set (descendants v). \<not> var_match x w"
      using find_field_variable_None by blast
    assume none: "\<forall>x \<in> set s. \<forall>w \<in> set (descendants v). \<not> var_match x w"
    show "find_field_variable_in_set s v = None"
    proof (rule ccontr)
      assume "find_field_variable_in_set s v \<noteq> None"
      then show False using find_field_variable_SomeD none by (metis not_Some_eq nth_mem)
    qed
  qed
  show ?thesis using p1 p2 by blast
qed

text \<open>Expanding a well-formed variable never fails its assertions: every field variable, at any
  depth, has qualifiers that fit its type, and it is const (volatile) when a variable that contains
  it is.\<close>

lemma field_qualifiers_sound:
  assumes "wf_variable v" "var_match u v" "vqfer u = Some q"
  shows "\<exists>t fq. vtype v = Some t \<and> wf_type t \<and> vqfer v = Some fq \<and> sanity_check t fq \<and>
     (cvq_is_const q = Some True \<longrightarrow> cvq_is_const fq = Some True) \<and>
     (cvq_is_volatile q = Some True \<longrightarrow> cvq_is_volatile fq = Some True)"
proof -
  have u: "u \<in> set (ancestors v)" using assms(2) by (auto simp: var_match_iff)
  have "wf_variable u"
    using assms(1) u genuine_ancestors ancestors_top[OF u] by (auto simp: wf_variable_def)
  then have "wf_cvq q" using wf_variable_sound assms(3) by (fastforce simp: sound_qualifiers_def)
  then have q: "is_consts q \<noteq> []" "wf_cvq q" by (auto simp: wf_cvq_def)
  obtain fq where fq: "vqfer v = Some fq" "wf_cvq fq" "last (is_consts q) \<longrightarrow> last (is_consts fq)"
    "last (is_volatiles q) \<longrightarrow> last (is_volatiles fq)"
    using field_qualified[OF assms(1) u assms(3)] by blast
  then have "is_consts fq \<noteq> []" by (auto simp: wf_cvq_def)
  then show ?thesis
    using wf_variable_sound[OF assms(1)] fq qualifier_top[OF q] qualifier_top[of fq]
    by (auto simp: sound_qualifiers_def)
qed

text \<open>What the comment of \<open>combine_variable_sets\<close> promises does not hold: a set that contains a field
  keeps it beside the variable the other set brings in.\<close>

lemma combine_keeps_field:
  "combine_variable_sets [Fld sample_var 0] [sample_var] = [Fld sample_var 0, sample_var]"
  by (simp add: combine_variable_sets_def var_match_def has_field_var_def sample_defs
      var_is_aggregate_def is_aggregate_def named_fields_def is_unamed_padding_def vec_at_def)

end
