(* ===== verification/Effects.thy ===== *)
theory Effects
  imports Variables
begin

text \<open>
  Effect.cpp: the read and write sets of a piece of generated code, with the purity flags.  The
  member \<open>isAccessOnce\<close> of a variable, which the generator changes after creation, is the predicate
  \<open>acc\<close>.  The lemmas state what the sets mean in terms of containment of variables; the theory ends
  with the properties: what the union of two effects reads and writes, when two effects race, what
  consolidation keeps, and the look-up by name.
\<close>

record effect =
  read_vars :: "variable list"
  write_vars :: "variable list"
  lhs_write_vars :: "variable list"
  pure :: bool
  side_effect_free :: bool

definition empty_effect :: effect where
  "empty_effect = \<lparr>read_vars = [], write_vars = [], lhs_write_vars = [], pure = True, side_effect_free = True\<rparr>"

text \<open>The copy constructor and the assignment, which do not copy \<open>lhs_write_vars\<close>.\<close>

definition effect_copy :: "effect \<Rightarrow> effect" where
  "effect_copy e = \<lparr>read_vars = read_vars e, write_vars = write_vars e, lhs_write_vars = [],
     pure = pure e, side_effect_free = side_effect_free e\<rparr>"

definition effect_assign :: "effect \<Rightarrow> effect \<Rightarrow> effect" where
  "effect_assign this e = this\<lparr>read_vars := read_vars e, write_vars := write_vars e,
     pure := pure e, side_effect_free := side_effect_free e\<rparr>"

definition non_empty_intersection :: "variable list \<Rightarrow> variable list \<Rightarrow> bool" where
  "non_empty_intersection va vb = list_ex (\<lambda>a. list_ex (\<lambda>b. var_match a b \<or> var_match b a) vb) va"

section \<open>Queries\<close>

definition var_is_struct :: "variable \<Rightarrow> bool" where
  "var_is_struct v = (case vtype v of None \<Rightarrow> False | Some t \<Rightarrow> is_struct t)"

text \<open>\<open>is_read\<close> and \<open>is_written\<close> of a variable against the members of a set; a field of a struct that
  is read is read too, a field of a struct or union that is written is written too.\<close>

fun read_in :: "variable list \<Rightarrow> variable \<Rightarrow> bool" where
  "read_in s (Fld p j) = (list_ex (\<lambda>x. x = Fld p j) s \<or> (var_is_struct p \<and> read_in s p))"
| "read_in s v = list_ex (\<lambda>x. x = v) s"

fun written_in :: "variable list \<Rightarrow> variable \<Rightarrow> bool" where
  "written_in s (Fld p j) = (list_ex (\<lambda>x. x = Fld p j) s \<or> written_in s p)"
| "written_in s v = list_ex (\<lambda>x. x = v) s"

definition is_read :: "effect \<Rightarrow> variable \<Rightarrow> bool" where
  "is_read e v = read_in (read_vars e) v"

definition is_written :: "effect \<Rightarrow> variable \<Rightarrow> bool" where
  "is_written e v = written_in (write_vars e) v"

text \<open>The loop that cuts a name at its last dot and compares.\<close>

lemma find_last_of_less: "find_last_of c s = Some p \<Longrightarrow> p < length s"
  by (auto simp: find_last_of_def dest!: find_index_SomeD)

function cut_matches :: "string \<Rightarrow> string \<Rightarrow> bool" where
  "cut_matches tmp target =
    (case find_last_of (CHR ''.'') tmp of
       None \<Rightarrow> tmp = target
     | Some pos \<Rightarrow> take pos tmp = target \<or> cut_matches (take pos tmp) target)"
  by pat_completeness auto
termination
  by (relation "measure (\<lambda>(s, t). length s)") (auto dest: find_last_of_less)

declare cut_matches.simps [simp del]

definition name_touches :: "string \<Rightarrow> string \<Rightarrow> bool" where
  "name_touches vn rname =
    (if rname = vn then True
     else if CHR ''.'' \<in> set vn \<and> cut_matches vn rname then True
     else CHR ''.'' \<in> set rname \<and> cut_matches rname vn)"

definition is_read_name :: "printer \<Rightarrow> effect \<Rightarrow> string \<Rightarrow> bool" where
  "is_read_name pr e vn = list_ex (\<lambda>r. name_touches vn (vname pr r)) (read_vars e)"

definition is_written_name :: "printer \<Rightarrow> effect \<Rightarrow> string \<Rightarrow> bool" where
  "is_written_name pr e vn = list_ex (\<lambda>r. name_touches vn (vname pr r)) (write_vars e)"

text \<open>\<open>field_is_read\<close> and \<open>field_is_written\<close>, with the query on a field as the parameter.\<close>

function field_touched :: "(variable \<Rightarrow> bool) \<Rightarrow> variable \<Rightarrow> bool" where
  "field_touched q v = (var_is_aggregate v \<and> list_ex (\<lambda>f. q f \<or> field_touched q f) (field_vars v))"
  by pat_completeness auto
termination
  by (relation "measure (\<lambda>(q, v). type_weight v)") (simp_all add: field_vars_weight)

declare field_touched.simps [simp del]

definition field_is_read :: "effect \<Rightarrow> variable \<Rightarrow> bool" where
  "field_is_read e v = field_touched (is_read e) v"

definition field_is_written :: "effect \<Rightarrow> variable \<Rightarrow> bool" where
  "field_is_written e v = field_touched (is_written e) v"

fun same_union_in :: "printer \<Rightarrow> variable \<Rightarrow> variable list \<Rightarrow> bool option" where
  "same_union_in pr you [] = Some False"
| "same_union_in pr you (x # xs) = do {
     c \<leftarrow> get_collective pr x;
     if get_container_union c = Some you then Some True else same_union_in pr you xs }"

definition sibling_union_field_in :: "printer \<Rightarrow> variable list \<Rightarrow> variable \<Rightarrow> bool option" where
  "sibling_union_field_in pr s v = do {
     c \<leftarrow> get_collective pr v;
     case get_container_union c of None \<Rightarrow> Some False | Some you \<Rightarrow> same_union_in pr you s }"

definition sibling_union_field_is_read :: "printer \<Rightarrow> effect \<Rightarrow> variable \<Rightarrow> bool option" where
  "sibling_union_field_is_read pr e v = sibling_union_field_in pr (read_vars e) v"

definition sibling_union_field_is_written :: "printer \<Rightarrow> effect \<Rightarrow> variable \<Rightarrow> bool option" where
  "sibling_union_field_is_written pr e v = sibling_union_field_in pr (write_vars e) v"

definition is_read_partially :: "printer \<Rightarrow> effect \<Rightarrow> variable \<Rightarrow> bool option" where
  "is_read_partially pr e v =
    (if is_read e v \<or> field_is_read e v then Some True else sibling_union_field_is_read pr e v)"

definition is_written_partially :: "printer \<Rightarrow> effect \<Rightarrow> variable \<Rightarrow> bool option" where
  "is_written_partially pr e v =
    (if is_written e v \<or> field_is_written e v then Some True else sibling_union_field_is_written pr e v)"

definition has_race_with :: "effect \<Rightarrow> effect \<Rightarrow> bool" where
  "has_race_with this e \<longleftrightarrow>
     non_empty_intersection (read_vars this) (write_vars e) \<or>
     non_empty_intersection (write_vars this) (read_vars e) \<or>
     non_empty_intersection (write_vars this) (write_vars e)"

definition effect_is_empty :: "effect \<Rightarrow> bool" where
  "effect_is_empty e \<longleftrightarrow> length (read_vars e) = 0 \<and> length (write_vars e) = 0"

definition has_global_effect :: "effect \<Rightarrow> bool" where
  "has_global_effect e \<longleftrightarrow> list_ex var_is_global (read_vars e) \<or> list_ex var_is_global (write_vars e)"

definition union_field_is_read :: "effect \<Rightarrow> bool" where
  "union_field_is_read e = list_ex is_inside_union_field (read_vars e)"

section \<open>Updates\<close>

definition read_var :: "(variable \<Rightarrow> bool) \<Rightarrow> variable \<Rightarrow> effect \<Rightarrow> effect option" where
  "read_var acc v e = do {
     c \<leftarrow> var_is_const v;
     vol \<leftarrow> var_is_volatile v;
     Some (e\<lparr>read_vars := (if \<not> is_read e v then read_vars e @ [v] else read_vars e),
             pure := pure e \<and> c \<and> \<not> vol \<and> \<not> acc v,
             side_effect_free := side_effect_free e \<and> \<not> vol \<and> \<not> acc v\<rparr>) }"

fun deref_volatile :: "variable \<Rightarrow> nat \<Rightarrow> bool option" where
  "deref_volatile v 0 = Some False"
| "deref_volatile v (Suc n) = do {
     b \<leftarrow> var_is_volatile_after_deref (int (Suc n)) v;
     if b then Some True else deref_volatile v n }"

definition access_deref_volatile :: "cgoptions \<Rightarrow> variable \<Rightarrow> int \<Rightarrow> effect \<Rightarrow> effect option" where
  "access_deref_volatile o1 v deref_level e =
    (if \<not> opt_strict_volatile_rule o1 then Some e
     else do { b \<leftarrow> deref_volatile v (nat deref_level);
               Some (if b then e\<lparr>side_effect_free := False\<rparr> else e) })"

definition write_var :: "(variable \<Rightarrow> bool) \<Rightarrow> variable \<Rightarrow> effect \<Rightarrow> effect option" where
  "write_var acc v e = do {
     vol \<leftarrow> var_is_volatile v;
     Some (e\<lparr>write_vars := (if \<not> is_written e v then write_vars e @ [v] else write_vars e),
             side_effect_free := side_effect_free e \<and> \<not> vol \<and> \<not> acc v\<rparr>) }"

definition write_var_set :: "(variable \<Rightarrow> bool) \<Rightarrow> variable list \<Rightarrow> effect \<Rightarrow> effect option" where
  "write_var_set acc vars e = foldM (write_var acc) vars e"

text \<open>Adding the variables a query does not cover yet.\<close>

fun add_uncovered :: "(variable list \<Rightarrow> variable \<Rightarrow> bool) \<Rightarrow> variable list \<Rightarrow> variable list \<Rightarrow> variable list" where
  "add_uncovered q s [] = s"
| "add_uncovered q s (v # vs1) = add_uncovered q (if \<not> q s v then s @ [v] else s) vs1"

definition add_effect :: "effect \<Rightarrow> bool \<Rightarrow> effect \<Rightarrow> effect" where
  "add_effect e include_lhs_effects this = this\<lparr>
     read_vars := add_uncovered read_in (read_vars this) (read_vars e),
     write_vars := add_uncovered written_in (write_vars this) (write_vars e),
     lhs_write_vars := (if include_lhs_effects
       then fst (add_variables_to_set (lhs_write_vars this) (lhs_write_vars e)) else lhs_write_vars this),
     pure := pure this \<and> pure e,
     side_effect_free := side_effect_free this \<and> side_effect_free e\<rparr>"

text \<open>\<open>add_external_effect\<close>: the variables a caller sees are the global ones and, with a call chain,
  the ones on the stack of one of its blocks.\<close>

definition seen_by :: "scope list \<Rightarrow> variable \<Rightarrow> bool" where
  "seen_by call_chain v \<longleftrightarrow> var_is_global v \<or> list_ex (\<lambda>b. is_var_on_stack b v) call_chain"

definition add_external_effect ::
  "(variable \<Rightarrow> bool) \<Rightarrow> effect \<Rightarrow> scope list \<Rightarrow> effect \<Rightarrow> effect option" where
  "add_external_effect acc e call_chain this = do {
     e1 \<leftarrow> foldM (\<lambda>v s. if seen_by call_chain v then read_var acc v s else Some s) (read_vars e) this;
     e2 \<leftarrow> foldM (\<lambda>v s. if seen_by call_chain v
                        then do { s1 \<leftarrow> write_var acc v s; Some (s1\<lparr>pure := False\<rparr>) } else Some s)
             (write_vars e) e1;
     Some (e2\<lparr>side_effect_free := side_effect_free e2 \<and> side_effect_free e\<rparr>) }"

function consolidate_loop :: "(variable list \<Rightarrow> variable \<Rightarrow> bool) \<Rightarrow> nat \<Rightarrow> variable list \<Rightarrow> variable list" where
  "consolidate_loop q i s =
    (if i < length s then
       (case field_var_of (s ! i) of
          Some p \<Rightarrow> if q s p then consolidate_loop q i (take i s @ drop (Suc i) s)
                    else consolidate_loop q (Suc i) s
        | None \<Rightarrow> consolidate_loop q (Suc i) s)
     else s)"
  by pat_completeness auto
termination
  by (relation "measure (\<lambda>(q, i, s). length s - i)") auto

declare consolidate_loop.simps [simp del]

definition consolidate :: "effect \<Rightarrow> effect" where
  "consolidate e = e\<lparr>read_vars := consolidate_loop read_in 0 (read_vars e),
     write_vars := consolidate_loop written_in 0 (write_vars e)\<rparr>"

definition effect_clear :: "effect \<Rightarrow> effect" where
  "effect_clear e = e\<lparr>read_vars := [], write_vars := [], pure := True, side_effect_free := True\<rparr>"

definition update_purity :: "effect \<Rightarrow> effect" where
  "update_purity e = (if has_global_effect e then e\<lparr>pure := False\<rparr> else e)"

text \<open>The text \<open>Effect::Output\<close> hands to \<open>output_comment_line\<close>.\<close>

definition effect_text :: "printer \<Rightarrow> effect \<Rightarrow> string" where
  "effect_text pr e = newline @ '' * reads :'' @
     concat (map (\<lambda>v. '' '' @ get_actual_name pr v) (read_vars e)) @ newline @ '' * writes:'' @
     concat (map (\<lambda>v. '' '' @ get_actual_name pr v) (write_vars e)) @ newline"

section \<open>Coverage\<close>

text \<open>What both queries share: a set covers a variable when it has a member on a chain from the
  variable outwards.\<close>

locale coverage =
  fixes covers :: "variable list \<Rightarrow> variable \<Rightarrow> bool"
    and chain :: "variable \<Rightarrow> variable set"
  assumes covers_iff: "covers s v \<longleftrightarrow> (\<exists>r \<in> set s. r \<in> chain v)"
    and chain_refl: "v \<in> chain v"
    and chain_trans: "u \<in> chain v \<Longrightarrow> v \<in> chain w \<Longrightarrow> u \<in> chain w"
    and chain_outwards: "u \<in> chain v \<Longrightarrow> u \<in> set (ancestors v)"
begin

lemma covers_add_uncovered: "covers (add_uncovered covers s t) v \<longleftrightarrow> covers s v \<or> covers t v"
proof (induction t arbitrary: s)
  case (Cons x t)
  have "covers (if \<not> covers s x then s @ [x] else s) v \<longleftrightarrow> covers s v \<or> x \<in> chain v"
    using chain_trans by (auto simp: covers_iff)
  then show ?case using Cons.IH covers_iff by auto
qed (simp add: covers_iff)

lemma add_uncovered_distinct: "distinct s \<Longrightarrow> distinct (add_uncovered covers s t)"
proof (induction t arbitrary: s)
  case (Cons x t)
  have "\<not> covers s x \<Longrightarrow> x \<notin> set s" using covers_iff chain_refl by blast
  then show ?case using Cons by simp
qed simp

lemma parent_covered_without:
  assumes "field_var_of x = Some p"
  shows "covers (a @ x # b) p \<longleftrightarrow> covers (a @ b) p"
proof -
  have "x \<notin> chain p"
    using assms chain_outwards[of x p] ancestors_depth[of x p] by (cases x) auto
  then show ?thesis by (auto simp: covers_iff)
qed

lemma covers_mono: "set s \<subseteq> set t \<Longrightarrow> covers s v \<Longrightarrow> covers t v"
  by (auto simp: covers_iff)

text \<open>A member that only repeats what its parent covers.\<close>

definition redundant :: "variable list \<Rightarrow> variable \<Rightarrow> bool" where
  "redundant s x \<longleftrightarrow> (\<exists>p. field_var_of x = Some p \<and> covers s p)"

lemma redundant_mono: "set s \<subseteq> set t \<Longrightarrow> redundant s x \<Longrightarrow> redundant t x"
  using covers_mono by (auto simp: redundant_def)

lemma consolidate_step:
  "consolidate_loop covers i s =
    (if i < length s then
       if redundant s (s ! i) then consolidate_loop covers i (take i s @ drop (Suc i) s)
       else consolidate_loop covers (Suc i) s
     else s)"
  by (subst consolidate_loop.simps) (auto simp: redundant_def split: option.splits)

lemma consolidate_loop_spec:
  "set (consolidate_loop covers i s) \<subseteq> set s \<and>
   ((\<forall>x \<in> set s. \<forall>p. field_var_of x = Some p \<longrightarrow> p \<in> chain x) \<longrightarrow> covers s v \<longrightarrow>
      covers (consolidate_loop covers i s) v) \<and>
   ((\<forall>x \<in> set (take i s). \<not> redundant s x) \<longrightarrow>
      (\<forall>x \<in> set (consolidate_loop covers i s). \<not> redundant (consolidate_loop covers i s) x))"
proof (induction "length s - i" arbitrary: i s rule: less_induct)
  case less
  let ?rest = "take i s @ drop (Suc i) s"
  consider (drop) "i < length s" "redundant s (s ! i)" | (keep) "i < length s" "\<not> redundant s (s ! i)"
    | (ended) "\<not> i < length s" by blast
  then show ?case
  proof cases
    case drop
    have eq: "consolidate_loop covers i s = consolidate_loop covers i ?rest"
      using drop by (subst consolidate_step) simp
    have split: "s = take i s @ s ! i # drop (Suc i) s" using drop(1) by (simp add: id_take_nth_drop)
    have sub: "set s = insert (s ! i) (set ?rest)" by (subst split) (simp only: set_append list.set, blast)
    then have sub1: "set ?rest \<subseteq> set s" by blast
    have ih: "set (consolidate_loop covers i ?rest) \<subseteq> set ?rest"
      "(\<forall>x \<in> set ?rest. \<forall>p. field_var_of x = Some p \<longrightarrow> p \<in> chain x) \<Longrightarrow> covers ?rest v \<Longrightarrow>
         covers (consolidate_loop covers i ?rest) v"
      "\<forall>x \<in> set (take i ?rest). \<not> redundant ?rest x \<Longrightarrow>
         \<forall>x \<in> set (consolidate_loop covers i ?rest). \<not> redundant (consolidate_loop covers i ?rest) x"
      using less[of ?rest i] drop(1) by auto
    obtain p where p: "field_var_of (s ! i) = Some p" "covers s p" using drop(2) by (auto simp: redundant_def)
    then have rp: "covers ?rest p" using parent_covered_without[OF p(1)] split by metis
    have keep: "covers ?rest v" if "p \<in> chain (s ! i)" "covers s v"
    proof -
      have "s ! i \<in> chain v \<or> covers ?rest v" using that(2) sub by (auto simp: covers_iff)
      then show ?thesis
        using rp that(1) chain_trans by (meson covers_iff)
    qed
    have tk: "take i ?rest = take i s" using drop(1) by simp
    have "\<forall>x \<in> set (take i s). \<not> redundant s x \<Longrightarrow>
      \<forall>x \<in> set (consolidate_loop covers i ?rest). \<not> redundant (consolidate_loop covers i ?rest) x"
      by (rule ih(3)) (use redundant_mono[OF sub1] tk in auto)
    moreover have "\<forall>x \<in> set s. \<forall>p. field_var_of x = Some p \<longrightarrow> p \<in> chain x \<Longrightarrow> covers s v \<Longrightarrow>
      covers (consolidate_loop covers i ?rest) v"
      using ih(2) keep p(1) sub by blast
    ultimately show ?thesis using ih(1) sub1 unfolding eq by blast
  next
    case keep
    have eq: "consolidate_loop covers i s = consolidate_loop covers (Suc i) s"
      using keep by (subst consolidate_step) simp
    have "take (Suc i) s = take i s @ [s ! i]" using keep(1) by (simp add: take_Suc_conv_app_nth)
    then show ?thesis using less[of s "Suc i"] keep unfolding eq by auto
  next
    case ended
    then show ?thesis by (subst (1 2 3 4) consolidate_step) auto
  qed
qed

text \<open>Containment is kept even where the chain stops.\<close>

lemma consolidate_loop_outwards:
  "(\<exists>r \<in> set s. r \<in> set (ancestors v)) \<Longrightarrow>
   \<exists>r \<in> set (consolidate_loop covers i s). r \<in> set (ancestors v)"
proof (induction "length s - i" arbitrary: i s rule: less_induct)
  case less
  show ?case
  proof (cases "i < length s")
    case False
    then show ?thesis using less.prems by (subst consolidate_step) simp
  next
    case True
    show ?thesis
    proof (cases "redundant s (s ! i)")
      case False
      then show ?thesis using True less by (subst consolidate_step) (simp add: diff_less_mono2)
    next
      case red: True
      let ?rest = "take i s @ drop (Suc i) s"
      have split: "s = take i s @ s ! i # drop (Suc i) s" using True by (simp add: id_take_nth_drop)
      obtain p where p: "field_var_of (s ! i) = Some p" "covers s p" using red by (auto simp: redundant_def)
      then have "covers ?rest p" using parent_covered_without[OF p(1)] split by metis
      then obtain r where r: "r \<in> set ?rest" "r \<in> set (ancestors p)"
        using chain_outwards by (auto simp: covers_iff)
      have up: "r \<in> set (ancestors (s ! i))" using r(2) p(1) by (cases "s ! i") auto
      have "set s = insert (s ! i) (set ?rest)" by (subst split) (simp only: set_append list.set, blast)
      then have "\<exists>r \<in> set ?rest. r \<in> set (ancestors v)"
        using less.prems up r(1) ancestors_trans by (metis insert_iff)
      from less.hyps[OF _ this, of i] show ?thesis
        using True red by (subst consolidate_step) simp
    qed
  qed
qed

lemma consolidate_loop_keeps:
  "x \<in> set s \<Longrightarrow> \<not> redundant s x \<Longrightarrow> x \<in> set (consolidate_loop covers i s)"
proof (induction "length s - i" arbitrary: i s rule: less_induct)
  case less
  let ?rest = "take i s @ drop (Suc i) s"
  consider (drop) "i < length s" "redundant s (s ! i)" | (keep) "i < length s" "\<not> redundant s (s ! i)"
    | (ended) "\<not> i < length s" by blast
  then show ?case
  proof cases
    case drop
    have split: "s = take i s @ s ! i # drop (Suc i) s" using drop(1) by (simp add: id_take_nth_drop)
    have sub: "set s = insert (s ! i) (set ?rest)" by (subst split) (simp only: set_append list.set, blast)
    have "x \<noteq> s ! i" using drop(2) less.prems(2) by auto
    then have "x \<in> set ?rest" using less.prems(1) sub by blast
    moreover have "\<not> redundant ?rest x" using less.prems(2) redundant_mono[of ?rest s x] sub by blast
    ultimately have "x \<in> set (consolidate_loop covers i ?rest)" using less.hyps[of ?rest i] drop(1) by simp
    then show ?thesis using drop by (subst consolidate_step) simp
  next
    case keep
    then show ?thesis using less by (subst consolidate_step) (simp add: diff_less_mono2)
  next
    case ended
    then show ?thesis using less.prems(1) by (subst consolidate_step) simp
  qed
qed

end

text \<open>The chain of the struct parents.\<close>

fun struct_chain :: "variable \<Rightarrow> variable set" where
  "struct_chain (Fld p j) = insert (Fld p j) (if var_is_struct p then struct_chain p else {})"
| "struct_chain v = {v}"

lemma struct_chain_self [simp]: "v \<in> struct_chain v"
  by (cases v) auto

lemma struct_chain_outwards: "u \<in> struct_chain v \<Longrightarrow> u \<in> set (ancestors v)"
  by (induction v) (auto split: if_splits)

lemma struct_chain_trans: "u \<in> struct_chain v \<Longrightarrow> v \<in> struct_chain w \<Longrightarrow> u \<in> struct_chain w"
  by (induction w) (auto split: if_splits)

lemma read_in_iff: "read_in s v \<longleftrightarrow> (\<exists>r \<in> set s. r \<in> struct_chain v)"
  by (induction v) (auto simp: list_ex_iff split: if_splits)

lemma written_in_iff: "written_in s v \<longleftrightarrow> (\<exists>r \<in> set s. r \<in> set (ancestors v))"
  by (induction v) (auto simp: list_ex_iff)

interpretation rd: coverage read_in struct_chain
  by unfold_locales (auto intro: struct_chain_trans struct_chain_outwards simp: read_in_iff)

interpretation wr: coverage written_in "\<lambda>v. set (ancestors v)"
  by unfold_locales (auto intro: ancestors_trans simp: written_in_iff)

section \<open>Locations\<close>

text \<open>A set of variables touches a location when a member contains it.\<close>

definition touches :: "variable list \<Rightarrow> variable \<Rightarrow> bool" where
  "touches s w \<longleftrightarrow> (\<exists>x \<in> set s. var_match x w)"

lemma intersection_iff: "non_empty_intersection a b \<longleftrightarrow> (\<exists>w. touches a w \<and> touches b w)"
  using vm.overlap_sets_iff[of "set a" "set b"]
  by (auto simp: non_empty_intersection_def list_ex_iff touches_def)

lemma race_iff:
  "has_race_with e f \<longleftrightarrow> (\<exists>w. (touches (read_vars e) w \<and> touches (write_vars f) w) \<or>
     (touches (write_vars e) w \<and> touches (read_vars f) w) \<or>
     (touches (write_vars e) w \<and> touches (write_vars f) w))"
  by (auto simp: has_race_with_def intersection_iff)

lemma touches_outwards:
  assumes "\<forall>x \<in> set s. genuine x" "set r \<subseteq> set s"
    "\<And>v. (\<exists>x \<in> set s. x \<in> set (ancestors v)) \<Longrightarrow> \<exists>x \<in> set r. x \<in> set (ancestors v)"
  shows "touches r w \<longleftrightarrow> touches s w"
proof
  show "touches r w \<Longrightarrow> touches s w" using assms(2) by (auto simp: touches_def)
  assume "touches s w"
  then obtain x where x: "x \<in> set s" "var_match x w" by (auto simp: touches_def)
  then obtain y where "y \<in> set r" "y \<in> set (ancestors x)"
    using assms(3)[of x] ancestors_self by blast
  then have "var_match y x" using genuine_match assms(1) x(1) by blast
  then show "touches r w" using vm.contains_trans x(2) \<open>y \<in> set r\<close> by (auto simp: touches_def)
qed

lemma add_uncovered_subset: "set (add_uncovered q s t) \<subseteq> set s \<union> set t \<and> set s \<subseteq> set (add_uncovered q s t)"
proof (induction t arbitrary: s)
  case (Cons x t)
  show ?case using Cons.IH[of "s @ [x]"] Cons.IH[of s] by auto
qed simp

lemma touches_add_uncovered:
  assumes "\<And>s v. q s v \<Longrightarrow> \<exists>r \<in> set s. r \<in> set (ancestors v)" "\<forall>x \<in> set t. genuine x"
  shows "touches (add_uncovered q s t) w \<longleftrightarrow> touches s w \<or> touches t w"
  using assms(2)
proof (induction t arbitrary: s)
  case (Cons x t)
  have "touches (if \<not> q s x then s @ [x] else s) w \<longleftrightarrow> touches s w \<or> var_match x w"
  proof (cases "q s x")
    case True
    then obtain r where "r \<in> set s" "var_match r x"
      using assms(1) genuine_match Cons.prems by (metis list.set_intros(1))
    then show ?thesis using True vm.contains_trans by (auto simp: touches_def)
  qed (auto simp: touches_def)
  then show ?case using Cons by (auto simp: touches_def)
qed (simp add: touches_def)

lemma read_in_outwards: "read_in s v \<Longrightarrow> \<exists>r \<in> set s. r \<in> set (ancestors v)"
  using struct_chain_outwards by (auto simp: read_in_iff)

lemma written_in_outwards: "written_in s v \<Longrightarrow> \<exists>r \<in> set s. r \<in> set (ancestors v)"
  by (auto simp: written_in_iff)

definition genuine_effect :: "effect \<Rightarrow> bool" where
  "genuine_effect e \<longleftrightarrow> (\<forall>x \<in> set (read_vars e) \<union> set (write_vars e). genuine x)"

lemma field_touched_iff: "field_touched q v \<longleftrightarrow> (\<exists>w \<in> set (descendants v). q w)"
proof (induction q v rule: field_touched.induct)
  case (1 q v)
  show ?case
  proof (cases "var_is_aggregate v")
    case True
    then have "field_touched q v \<longleftrightarrow> (\<exists>f \<in> set (field_vars v). q f \<or> (\<exists>w \<in> set (descendants f). q w))"
      using "1.IH" by (subst field_touched.simps) (auto simp: list_ex_iff)
    then show ?thesis using set_descendants_step[of _ v] by blast
  next
    case False
    then show ?thesis by (subst field_touched.simps) (simp add: descendants_nonaggregate)
  qed
qed

lemma struct_chain_ancestors:
  "genuine v \<Longrightarrow> \<not> is_inside_union_field v \<Longrightarrow> struct_chain v = set (ancestors v)"
proof (induction v)
  case (Fld p j)
  then have "var_is_struct p"
    by (auto simp: field_vars_iff var_is_struct_def var_is_union_def is_aggregate_def)
  then show ?case using Fld by simp
qed auto

lemma below_overlap:
  assumes "\<forall>r \<in> set s. genuine r" "genuine v" "\<And>r. r \<in> set s \<Longrightarrow> q r"
    "\<And>w. q w \<Longrightarrow> \<exists>r \<in> set s. r \<in> set (ancestors w)"
    "(\<exists>r \<in> set s. r \<in> set (ancestors v)) \<Longrightarrow> q v"
  shows "q v \<or> field_touched q v \<longleftrightarrow> (\<exists>r \<in> set s. var_match r v \<or> var_match v r)"
proof
  assume "q v \<or> field_touched q v"
  then obtain w where w: "q w" "v \<in> set (ancestors w)"
    using descendants_ancestors by (auto simp: field_touched_iff)
  then obtain r where r: "r \<in> set s" "r \<in> set (ancestors w)" using assms(4) by blast
  then have "r \<in> set (ancestors v) \<or> v \<in> set (ancestors r)" using w(2) ancestors_chain by blast
  then show "\<exists>r \<in> set s. var_match r v \<or> var_match v r"
    using r(1) genuine_match assms(1,2) by blast
next
  assume "\<exists>r \<in> set s. var_match r v \<or> var_match v r"
  then obtain r where r: "r \<in> set s" "r \<in> set (ancestors v) \<or> v \<in> set (ancestors r)"
    using genuine_match assms(1,2) by blast
  then show "q v \<or> field_touched q v"
    using assms(1,3,5) ancestors_descendants[of r v] by (metis field_touched_iff)
qed

lemma name_find_last: "find_last_of c s = None \<longleftrightarrow> c \<notin> set s"
  by (auto simp: find_last_of_def)

lemma find_last_of_split:
  assumes "find_last_of c s = Some p"
  shows "\<exists>b. s = take p s @ c # b \<and> c \<notin> set b"
proof -
  obtain i where i: "find_index (\<lambda>d. d = c) (rev s) = Some i" "p = length s - 1 - i"
    using assms by (auto simp: find_last_of_def)
  from find_index_SomeD[OF i(1)] have f: "i < length s" "rev s ! i = c" "\<forall>j<i. rev s ! j \<noteq> c" by auto
  have sp: "s ! p = c" "p < length s" using f i(2) by (simp_all add: rev_nth)
  have "c \<notin> set (drop (Suc p) s)"
  proof
    assume "c \<in> set (drop (Suc p) s)"
    then obtain k where "k < length (drop (Suc p) s)" "drop (Suc p) s ! k = c"
      by (auto simp only: in_set_conv_nth)
    then have k: "Suc p + k < length s" "s ! (Suc p + k) = c" using sp(2) by simp_all
    then have "rev s ! (length s - Suc (Suc p + k)) = c" by (simp add: rev_nth)
    moreover have "length s - Suc (Suc p + k) < i" using k(1) i(2) f(1) by simp
    ultimately show False using f(3) by blast
  qed
  then show ?thesis using sp id_take_nth_drop[OF sp(2)] by metis
qed

lemma cut_matches_iff:
  "cut_matches s t \<longleftrightarrow> (CHR ''.'' \<notin> set s \<and> s = t) \<or> (\<exists>b. s = t @ ''.'' @ b)"
proof (induction s t rule: cut_matches.induct)
  case (1 s t)
  show ?case
  proof (cases "find_last_of (CHR ''.'') s")
    case None
    then have "cut_matches s t \<longleftrightarrow> s = t" by (subst cut_matches.simps) simp
    moreover have "CHR ''.'' \<notin> set s" using None name_find_last by metis
    ultimately show ?thesis by auto
  next
    case (Some p)
    then obtain b where b: "s = take p s @ CHR ''.'' # b" "CHR ''.'' \<notin> set b"
      using find_last_of_split by blast
    have dot: "CHR ''.'' \<in> set s" by (subst b(1)) simp
    have eq: "cut_matches s t \<longleftrightarrow> take p s = t \<or> cut_matches (take p s) t"
      using Some by (subst cut_matches.simps) simp
    have "(\<exists>d. s = t @ ''.'' @ d) \<longleftrightarrow> take p s = t \<or> (\<exists>d. take p s = t @ ''.'' @ d)"
    proof
      assume "\<exists>d. s = t @ ''.'' @ d"
      then obtain d where "take p s @ CHR ''.'' # b = t @ CHR ''.'' # d" using b(1) by auto
      then obtain us where "(take p s = t @ us \<and> us @ CHR ''.'' # b = CHR ''.'' # d) \<or>
          (take p s @ us = t \<and> CHR ''.'' # b = us @ CHR ''.'' # d)"
        by (auto simp: append_eq_append_conv2)
      then show "take p s = t \<or> (\<exists>d. take p s = t @ ''.'' @ d)"
        using b(2) by (cases us) auto
    next
      assume "take p s = t \<or> (\<exists>d. take p s = t @ ''.'' @ d)"
      then show "\<exists>d. s = t @ ''.'' @ d" using b(1) by (metis append.assoc append_Cons append_Nil)
    qed
    then show ?thesis using eq "1.IH"[OF Some] dot by auto
  qed
qed

section \<open>Recording accesses\<close>

lemma read_var_spec:
  assumes "read_var acc v e = Some e'"
  shows "is_read e' w \<longleftrightarrow> is_read e w \<or> v \<in> struct_chain w" "write_vars e' = write_vars e"
    "side_effect_free e' \<longleftrightarrow> side_effect_free e \<and> var_is_volatile v = Some False \<and> \<not> acc v"
    "pure e' \<longrightarrow> pure e"
proof -
  obtain c vol where cv: "var_is_const v = Some c" "var_is_volatile v = Some vol"
    and e': "e' = e\<lparr>read_vars := (if \<not> is_read e v then read_vars e @ [v] else read_vars e),
             pure := pure e \<and> c \<and> \<not> vol \<and> \<not> acc v,
             side_effect_free := side_effect_free e \<and> \<not> vol \<and> \<not> acc v\<rparr>"
    using assms by (auto simp only: read_var_def bind_eq_Some_conv option.inject)
  have "read_vars e' = add_uncovered read_in (read_vars e) [v]" by (simp add: e' is_read_def)
  then show "is_read e' w \<longleftrightarrow> is_read e w \<or> v \<in> struct_chain w"
    unfolding is_read_def by (simp only: rd.covers_add_uncovered) (simp add: read_in_iff)
qed (use assms in \<open>auto simp: read_var_def bind_eq_Some_conv\<close>)

lemma write_var_spec:
  assumes "write_var acc v e = Some e'"
  shows "is_written e' w \<longleftrightarrow> is_written e w \<or> v \<in> set (ancestors w)" "read_vars e' = read_vars e"
    "side_effect_free e' \<longleftrightarrow> side_effect_free e \<and> var_is_volatile v = Some False \<and> \<not> acc v"
    "pure e' = pure e"
proof -
  obtain vol where e': "e' = e\<lparr>write_vars := (if \<not> is_written e v then write_vars e @ [v] else write_vars e),
             side_effect_free := side_effect_free e \<and> \<not> vol \<and> \<not> acc v\<rparr>"
    using assms by (auto simp only: write_var_def bind_eq_Some_conv option.inject)
  have "write_vars e' = add_uncovered written_in (write_vars e) [v]" by (simp add: e' is_written_def)
  then show "is_written e' w \<longleftrightarrow> is_written e w \<or> v \<in> set (ancestors w)"
    unfolding is_written_def by (simp only: wr.covers_add_uncovered) (simp add: written_in_iff)
qed (use assms in \<open>auto simp: write_var_def bind_eq_Some_conv\<close>)

lemma external_reads_spec:
  "foldM (\<lambda>v s. if seen_by call_chain v then read_var acc v s else Some s) vs1 e = Some e' \<Longrightarrow>
     (is_read e' w \<longleftrightarrow> is_read e w \<or> (\<exists>x \<in> set vs1. seen_by call_chain x \<and> x \<in> struct_chain w)) \<and>
     write_vars e' = write_vars e \<and>
     (side_effect_free e' \<longrightarrow> side_effect_free e \<and>
        (\<forall>x \<in> set vs1. seen_by call_chain x \<longrightarrow> var_is_volatile x = Some False)) \<and>
     (pure e' \<longrightarrow> pure e)"
proof (induction vs1 arbitrary: e)
  case (Cons x vs1)
  then obtain e1 where e1: "(if seen_by call_chain x then read_var acc x e else Some e) = Some e1"
    "foldM (\<lambda>v s. if seen_by call_chain v then read_var acc v s else Some s) vs1 e1 = Some e'"
    by (auto simp: bind_eq_Some_conv)
  show ?case
    using Cons.IH[OF e1(2)] e1(1) read_var_spec[of acc x e e1] by (cases "seen_by call_chain x") auto
qed simp

lemma external_writes_spec:
  "foldM (\<lambda>v s. if seen_by call_chain v
       then do { s1 \<leftarrow> write_var acc v s; Some (s1\<lparr>pure := False\<rparr>) } else Some s) vs1 e = Some e' \<Longrightarrow>
     (is_written e' w \<longleftrightarrow> is_written e w \<or> (\<exists>x \<in> set vs1. seen_by call_chain x \<and> x \<in> set (ancestors w))) \<and>
     read_vars e' = read_vars e \<and>
     (side_effect_free e' \<longrightarrow> side_effect_free e \<and>
        (\<forall>x \<in> set vs1. seen_by call_chain x \<longrightarrow> var_is_volatile x = Some False)) \<and>
     (pure e' \<longrightarrow> pure e \<and> (\<forall>x \<in> set vs1. \<not> seen_by call_chain x))"
proof (induction vs1 arbitrary: e)
  case (Cons x vs1)
  let ?f = "\<lambda>v s. if seen_by call_chain v
       then do { s1 \<leftarrow> write_var acc v s; Some (s1\<lparr>pure := False\<rparr>) } else Some s"
  from Cons.prems obtain e1 where e1: "?f x e = Some e1" "foldM ?f vs1 e1 = Some e'"
    by (auto simp: bind_eq_Some_conv split: if_splits)
  show ?case
  proof (cases "seen_by call_chain x")
    case True
    then obtain e2 where e2: "write_var acc x e = Some e2" "e1 = e2\<lparr>pure := False\<rparr>"
      using e1(1) by (auto simp: bind_eq_Some_conv)
    have "is_written e1 w = is_written e2 w" by (simp add: e2(2) is_written_def)
    then show ?thesis
      using Cons.IH[OF e1(2)] write_var_spec[OF e2(1)] True by (auto simp: e2(2))
  next
    case False
    then show ?thesis using Cons.IH[OF e1(2)] e1(1) by auto
  qed
qed simp

section \<open>Properties\<close>

definition sample_union :: ctype where
  "sample_union = TAgg False 3 False [TSimple eInt, TSimple eShort]
     [cvq_new [False] [False], cvq_new [False] [False]] [-1, -1]"

definition union_var :: variable where
  "union_var = Var \<lparr>vi_id = 6, vi_name = ''g_6'', vi_type = Some sample_union,
     vi_qfer = cvq_new [False] [False], vi_expanded = True\<rparr> None"

definition sample_effect :: "variable list \<Rightarrow> variable list \<Rightarrow> effect" where
  "sample_effect r w = empty_effect\<lparr>read_vars := r, write_vars := w\<rparr>"

text \<open>Two effects race exactly when there is a variable that contains a common location which one
  of them writes and the other reads or writes; the relation is symmetric.\<close>

lemma has_race_with_correct:
  "(has_race_with e f \<longleftrightarrow> (\<exists>w. (touches (read_vars e) w \<and> touches (write_vars f) w) \<or>
     (touches (write_vars e) w \<and> touches (read_vars f) w) \<or>
     (touches (write_vars e) w \<and> touches (write_vars f) w))) \<and>
    (has_race_with e f = has_race_with f e)"
  unfolding race_iff by blast

text \<open>Adding an effect gives the union: the sum reads (writes) exactly the variables one of the
  two reads (writes), is pure and free of side effects when both are, adds the variables written on
  left-hand sides only when asked, and races with exactly the effects one of the two races with.\<close>

lemma add_effect_correct:
  assumes "genuine_effect e"
  shows "(is_read (add_effect e lhs this) v \<longleftrightarrow> is_read this v \<or> is_read e v) \<and>
    (is_written (add_effect e lhs this) v \<longleftrightarrow> is_written this v \<or> is_written e v) \<and>
    (set (lhs_write_vars (add_effect e lhs this)) =
      set (lhs_write_vars this) \<union> (if lhs then set (lhs_write_vars e) else {})) \<and>
    (has_race_with (add_effect e lhs this) f \<longleftrightarrow> has_race_with this f \<or> has_race_with e f)"
proof -
  have p1: "is_read (add_effect e lhs this) v \<longleftrightarrow> is_read this v \<or> is_read e v"
    by (simp add: is_read_def add_effect_def rd.covers_add_uncovered)
  have p2: "is_written (add_effect e lhs this) v \<longleftrightarrow> is_written this v \<or> is_written e v"
    by (simp add: is_written_def add_effect_def wr.covers_add_uncovered)
  have p3: "set (lhs_write_vars (add_effect e lhs this)) =
      set (lhs_write_vars this) \<union> (if lhs then set (lhs_write_vars e) else {})"
    using add_variables_spec[OF surjective_pairing] by (simp add: add_effect_def)
  have "touches (read_vars (add_effect e lhs this)) w \<longleftrightarrow> touches (read_vars this) w \<or> touches (read_vars e) w"
    "touches (write_vars (add_effect e lhs this)) w \<longleftrightarrow> touches (write_vars this) w \<or> touches (write_vars e) w" for w
    using assms touches_add_uncovered[OF read_in_outwards] touches_add_uncovered[OF written_in_outwards]
    by (auto simp: add_effect_def genuine_effect_def)
  then have p4: "has_race_with (add_effect e lhs this) f \<longleftrightarrow> has_race_with this f \<or> has_race_with e f"
    unfolding race_iff by blast
  show ?thesis using p1 p2 p3 p4 by blast
qed

text \<open>C26: consolidation only removes. No field variable is left whose parent the remaining set covers, and
  no variable goes whose parent is not covered; so the write set keeps exactly the variables whose parent is
  not written. What is written stays the same, and what is read too as long as no field of a union is in
  the read set (else reads may be lost, never added); which effects race never changes.\<close>

theorem consolidate_correct:
  assumes "genuine_effect e"
  shows "set (read_vars (consolidate e)) \<subseteq> set (read_vars e) \<and> set (write_vars (consolidate e)) \<subseteq> set (write_vars e) \<and>
    (x \<in> set (read_vars (consolidate e)) \<longrightarrow> field_var_of x = Some p \<longrightarrow> \<not> is_read (consolidate e) p) \<and>
    (x \<in> set (write_vars (consolidate e)) \<longrightarrow> field_var_of x = Some p \<longrightarrow> \<not> is_written (consolidate e) p) \<and>
    (y \<in> set (read_vars e) \<longrightarrow> (\<forall>p. field_var_of y = Some p \<longrightarrow> \<not> is_read e p) \<longrightarrow> y \<in> set (read_vars (consolidate e))) \<and>
    (y \<in> set (write_vars e) \<longrightarrow> (\<forall>p. field_var_of y = Some p \<longrightarrow> \<not> is_written e p) \<longrightarrow> y \<in> set (write_vars (consolidate e))) \<and>
    (is_written (consolidate e) v \<longleftrightarrow> is_written e v) \<and>
    (is_read (consolidate e) v \<longrightarrow> is_read e v) \<and>
    ((\<forall>x \<in> set (read_vars e). \<not> is_union_field x) \<longrightarrow> is_read (consolidate e) v \<longleftrightarrow> is_read e v) \<and>
    (has_race_with (consolidate e) f \<longleftrightarrow> has_race_with e f)"
proof -
  have par: "p \<in> set (ancestors x)" if "field_var_of x = Some p" for x p
    using that by (cases x) auto
  note w = wr.consolidate_loop_spec[of 0 "write_vars e" v] and r = rd.consolidate_loop_spec[of 0 "read_vars e" v]
  have p0: "set (read_vars (consolidate e)) \<subseteq> set (read_vars e)" "set (write_vars (consolidate e)) \<subseteq> set (write_vars e)"
    using w r by (simp_all add: consolidate_def)
  have p1: "is_written (consolidate e) v \<longleftrightarrow> is_written e v"
    using w wr.covers_mono par by (auto simp: is_written_def consolidate_def)
  have p2: "is_read (consolidate e) v \<Longrightarrow> is_read e v"
    using r rd.covers_mono by (auto simp: is_read_def consolidate_def)
  have p3: "is_read (consolidate e) v \<longleftrightarrow> is_read e v" if nu: "\<forall>x \<in> set (read_vars e). \<not> is_union_field x"
  proof -
    have "p \<in> struct_chain x" if x: "x \<in> set (read_vars e)" "field_var_of x = Some p" for x p
    proof -
      obtain j where f: "x = Fld p j" using x(2) by (cases x) auto
      have "genuine (Fld p j)" using assms x(1) unfolding genuine_effect_def f by blast
      then have "Fld p j \<in> set (field_vars p)" by simp
      then have "var_is_struct p"
        using nu x(1) by (auto simp: f field_vars_iff var_is_struct_def var_is_union_def is_aggregate_def)
      then show ?thesis by (simp add: f)
    qed
    then show ?thesis using r rd.covers_mono by (auto simp: is_read_def consolidate_def)
  qed
  have p4: "\<not> is_written (consolidate e) p" if "x \<in> set (write_vars (consolidate e))" "field_var_of x = Some p"
    using w that by (auto simp: is_written_def consolidate_def wr.redundant_def)
  have p5: "\<not> is_read (consolidate e) p" if "x \<in> set (read_vars (consolidate e))" "field_var_of x = Some p"
    using r that by (auto simp: is_read_def consolidate_def rd.redundant_def)
  have p6: "y \<in> set (read_vars (consolidate e))"
    if "y \<in> set (read_vars e)" "\<forall>p. field_var_of y = Some p \<longrightarrow> \<not> is_read e p"
    using rd.consolidate_loop_keeps[OF that(1)] that(2) by (auto simp: is_read_def consolidate_def rd.redundant_def)
  have p7: "y \<in> set (write_vars (consolidate e))"
    if "y \<in> set (write_vars e)" "\<forall>p. field_var_of y = Some p \<longrightarrow> \<not> is_written e p"
    using wr.consolidate_loop_keeps[OF that(1)] that(2) by (auto simp: is_written_def consolidate_def wr.redundant_def)
  have gr: "\<forall>x \<in> set (read_vars e). genuine x" and gw: "\<forall>x \<in> set (write_vars e). genuine x"
    using assms by (auto simp: genuine_effect_def)
  have "touches (consolidate_loop read_in 0 (read_vars e)) z \<longleftrightarrow> touches (read_vars e) z" for z
    by (rule touches_outwards[OF gr conjunct1[OF r] rd.consolidate_loop_outwards])
  moreover have "touches (consolidate_loop written_in 0 (write_vars e)) z \<longleftrightarrow> touches (write_vars e) z" for z
    by (rule touches_outwards[OF gw conjunct1[OF w] wr.consolidate_loop_outwards])
  ultimately have "touches (read_vars (consolidate e)) z \<longleftrightarrow> touches (read_vars e) z"
    "touches (write_vars (consolidate e)) z \<longleftrightarrow> touches (write_vars e) z" for z
    by (simp_all add: consolidate_def)
  then have p8: "has_race_with (consolidate e) f \<longleftrightarrow> has_race_with e f" unfolding race_iff by blast
  show ?thesis using p0 p1 p2 p3 p4 p5 p6 p7 p8 by blast
qed

lemma consolidate_correct_witness:
  "let e = sample_effect [Fld sample_var 0, sample_var, Fld sample_var 1] [sample_var, Fld sample_var 0];
       e' = consolidate e in
     Fld sample_var 0 \<notin> set (read_vars e') \<and> sample_var \<in> set (read_vars e') \<and> is_read e' (Fld sample_var 0) \<and>
     Fld sample_var 0 \<notin> set (write_vars e') \<and> is_written e' (Fld sample_var 0)"
proof -
  let ?e = "sample_effect [Fld sample_var 0, sample_var, Fld sample_var 1] [sample_var, Fld sample_var 0]"
  have g: "genuine_effect ?e"
    by (simp add: genuine_effect_def sample_effect_def empty_effect_def field_vars_iff
      is_aggregate_def named_fields_def is_unamed_padding_def vec_at_def sample_defs)
  have u: "\<forall>x \<in> set (read_vars ?e). \<not> is_union_field x"
    by (simp add: sample_effect_def empty_effect_def var_is_union_def sample_defs)
  note c = consolidate_correct[OF g]
  have s: "sample_var \<in> set (read_vars (consolidate ?e))" "sample_var \<in> set (write_vars (consolidate ?e))"
    using c[of _ _ sample_var] by (simp_all add: sample_effect_def empty_effect_def sample_defs)
  then have "is_read (consolidate ?e) sample_var" "is_written (consolidate ?e) sample_var"
    using struct_chain_self[of sample_var] ancestors_self[of sample_var]
    by (auto simp: is_read_def is_written_def read_in_iff written_in_iff simp del: ancestors_self struct_chain_self)
  then have "Fld sample_var 0 \<notin> set (read_vars (consolidate ?e))" "Fld sample_var 0 \<notin> set (write_vars (consolidate ?e))"
    using c[of "Fld sample_var 0" sample_var] by auto
  moreover have "is_read ?e (Fld sample_var 0)" "is_written ?e (Fld sample_var 0)"
    by (simp_all add: is_read_def is_written_def sample_effect_def empty_effect_def)
  ultimately show ?thesis using c[of _ _ _ "Fld sample_var 0"] u s by (auto simp: Let_def)
qed

text \<open>Without the condition on union fields reads are lost: reading a union and one of its fields is
  consolidated to reading the union, which does not count as reading the field.\<close>

lemma consolidate_loses_union_read:
  "is_read (sample_effect [union_var, Fld union_var 1] []) (Fld union_var 1)"
  "\<not> is_read (consolidate (sample_effect [union_var, Fld union_var 1] [])) (Fld union_var 1)"
  "union_field_is_read (sample_effect [union_var, Fld union_var 1] [])"
  "\<not> union_field_is_read (consolidate (sample_effect [union_var, Fld union_var 1] []))"
  by (simp_all add: is_read_def union_field_is_read_def consolidate_def sample_effect_def
      empty_effect_def consolidate_loop.simps var_is_struct_def var_is_union_def union_var_def sample_union_def)

text \<open>The effect of a call adds to the caller exactly what the callee reads and writes of the
  variables the caller sees (the global ones and those on the stack of a block of the call chain);
  the caller stays pure only if the callee writes none of them, and stays free of side effects only
  if none of them is volatile.\<close>

lemma add_external_effect_correct:
  assumes "add_external_effect acc e call_chain this = Some r"
  shows "(is_read r w \<longleftrightarrow> is_read this w \<or> (\<exists>x \<in> set (read_vars e). seen_by call_chain x \<and> x \<in> struct_chain w)) \<and>
    (is_written r w \<longleftrightarrow> is_written this w \<or>
      (\<exists>x \<in> set (write_vars e). seen_by call_chain x \<and> x \<in> set (ancestors w))) \<and>
    (pure r \<longrightarrow> pure this \<and> (\<forall>x \<in> set (write_vars e). \<not> seen_by call_chain x)) \<and>
    (side_effect_free r \<longrightarrow> side_effect_free this \<and> side_effect_free e \<and>
      (\<forall>x \<in> set (read_vars e) \<union> set (write_vars e). seen_by call_chain x \<longrightarrow> var_is_volatile x = Some False))"
proof -
  obtain e1 e2 where
    1: "foldM (\<lambda>v s. if seen_by call_chain v then read_var acc v s else Some s) (read_vars e) this = Some e1" and
    2: "foldM (\<lambda>v s. if seen_by call_chain v
          then do { s1 \<leftarrow> write_var acc v s; Some (s1\<lparr>pure := False\<rparr>) } else Some s) (write_vars e) e1 = Some e2" and
    r: "r = e2\<lparr>side_effect_free := side_effect_free e2 \<and> side_effect_free e\<rparr>"
    using assms unfolding add_external_effect_def bind_eq_Some_conv by blast
  have f: "is_read r w = is_read e2 w" "is_written r w = is_written e2 w"
    by (simp_all add: r is_read_def is_written_def)
  note s = external_reads_spec[OF 1, of w] external_writes_spec[OF 2, of w]
  have p1: "is_read r w \<longleftrightarrow> is_read this w \<or> (\<exists>x \<in> set (read_vars e). seen_by call_chain x \<and> x \<in> struct_chain w)"
    using s f by (simp add: is_read_def)
  have p2: "is_written r w \<longleftrightarrow> is_written this w \<or>
      (\<exists>x \<in> set (write_vars e). seen_by call_chain x \<and> x \<in> set (ancestors w))"
    using s f by (simp add: is_written_def)
  have p3: "pure r \<Longrightarrow> pure this \<and> (\<forall>x \<in> set (write_vars e). \<not> seen_by call_chain x)"
    using s by (auto simp: r)
  have p4: "side_effect_free r \<Longrightarrow> side_effect_free this \<and> side_effect_free e \<and>
      (\<forall>x \<in> set (read_vars e) \<union> set (write_vars e). seen_by call_chain x \<longrightarrow> var_is_volatile x = Some False)"
    using s by (auto simp: r)
  show ?thesis using p1 p2 p3 p4 by blast
qed

lemma sample_item_plain: "var_is_volatile sample_item = Some False" "seen_by cs sample_item"
  by (simp_all add: seen_by_def var_is_volatile_def var_is_volatile_after_deref_def qualified_after_deref_def
      is_volatile_after_deref_def is_volatile_struct_union_def cvq_is_volatile_def cvq_new_def
      vec_at_def sample_defs)

text \<open>Looking a name up in the read (write) set finds a variable with that name, or with a name
  one of the two extends by a field access.\<close>

lemma name_lookup_correct:
  "(is_read_name pr e vn \<longleftrightarrow> (\<exists>r \<in> set (read_vars e). vname pr r = vn \<or>
      (\<exists>b. vn = vname pr r @ ''.'' @ b) \<or> (\<exists>b. vname pr r = vn @ ''.'' @ b))) \<and>
    (is_written_name pr e vn \<longleftrightarrow> (\<exists>r \<in> set (write_vars e). vname pr r = vn \<or>
      (\<exists>b. vn = vname pr r @ ''.'' @ b) \<or> (\<exists>b. vname pr r = vn @ ''.'' @ b)))"
proof -
  have "name_touches vn rn \<longleftrightarrow> rn = vn \<or> (\<exists>b. vn = rn @ ''.'' @ b) \<or> (\<exists>b. rn = vn @ ''.'' @ b)" for rn
    by (auto simp: name_touches_def cut_matches_iff)
  then show ?thesis by (simp add: is_read_name_def is_written_name_def list_ex_iff)
qed

end
