(* ===== verification/Facts.thy ===== *)
theory Facts
  imports Effects
begin

text \<open>
  Fact.cpp, FactUnion.cpp and the lattice of FactPointTo.cpp: what the generator knows at a program
  point.  A fact is a points-to set of a pointer variable or the last written field of a union; a
  vector of facts is the abstract state of a program point.  The generic operations on such states
  rest on the virtual functions \<open>is_related\<close>, \<open>imply\<close> and \<open>join\<close>; the locale \<open>fact_domain\<close> states what they
  need, and both kinds of facts are shown to provide it.
\<close>

section \<open>Facts\<close>

datatype fact = FPointTo variable "variable list" | FUnion variable int

definition special_var :: "nat \<Rightarrow> string \<Rightarrow> variable" where
  "special_var n name = Var \<lparr>vi_id = n, vi_name = name, vi_type = None,
     vi_qfer = cvq_wild False False, vi_expanded = False\<rparr> None"

definition null_ptr :: variable where "null_ptr = special_var 0 ''null''"
definition garbage_ptr :: variable where "garbage_ptr = special_var 1 ''garbage''"
definition tbd_ptr :: variable where "tbd_ptr = special_var 2 ''tbd''"

definition is_special_ptr :: "variable \<Rightarrow> bool" where
  "is_special_ptr p \<longleftrightarrow> p = null_ptr \<or> p = garbage_ptr \<or> p = tbd_ptr"

definition TOP :: int where "TOP = -2"
definition BOTTOM :: int where "BOTTOM = -1"

fun get_var :: "fact \<Rightarrow> variable" where
  "get_var (FPointTo v ps) = v"
| "get_var (FUnion v k) = v"

fun is_related :: "fact \<Rightarrow> fact \<Rightarrow> bool" where
  "is_related (FPointTo v ps) (FPointTo w qs) = (v = w)"
| "is_related (FUnion v k) (FUnion w l) = (v = w)"
| "is_related _ _ = False"

fun fact_equal :: "fact \<Rightarrow> fact \<Rightarrow> bool" where
  "fact_equal (FPointTo v ps) (FPointTo w qs) = (v = w \<and> equal_variable_sets ps qs)"
| "fact_equal (FUnion v k) (FUnion w l) = (v = w \<and> k = l)"
| "fact_equal _ _ = False"

fun fact_is_top :: "fact \<Rightarrow> bool" where
  "fact_is_top (FPointTo v ps) = (ps = [])"
| "fact_is_top (FUnion v k) = (k = TOP)"

fun fact_is_bottom :: "fact \<Rightarrow> bool" where
  "fact_is_bottom (FPointTo v ps) = False"
| "fact_is_bottom (FUnion v k) = (k = BOTTOM)"

definition is_null :: "variable list \<Rightarrow> bool" where
  "is_null ps = list_ex (\<lambda>p. p = null_ptr) ps"

definition is_tbd_only :: "variable list \<Rightarrow> bool" where
  "is_tbd_only ps \<longleftrightarrow> length ps = 1 \<and> ps ! 0 = tbd_ptr"

definition is_dead :: "variable list \<Rightarrow> bool" where
  "is_dead ps \<longleftrightarrow> find_variable_in_set ps garbage_ptr \<noteq> None"

text \<open>The type of the last written field, the inner \<open>None\<close> being the null pointer.\<close>

definition get_last_written_type :: "variable \<Rightarrow> int \<Rightarrow> ctype option option" where
  "get_last_written_type v k = do {
     t \<leftarrow> vtype v;
     assert_that (is_union t);
     if k = TOP \<or> k = BOTTOM then Some None
     else do {
       assert_that (0 \<le> k \<and> k < int (length (field_vars v)));
       Some (vtype (field_vars v ! nat k)) } }"

text \<open>The comparison by size; the null dereferences of the source are \<open>None\<close>.\<close>

definition size_implies :: "variable \<Rightarrow> ctype \<Rightarrow> ctype option \<Rightarrow> int \<Rightarrow> bool option" where
  "size_implies v t other l = do {
     n \<leftarrow> SizeInBytes t;
     if n = SIZE_UNKNOWN then Some False
     else do {
       u \<leftarrow> other;
       m \<leftarrow> SizeInBytes u;
       if m = SIZE_UNKNOWN then Some False
       else if n \<le> m then do { vt \<leftarrow> vtype v; b \<leftarrow> is_bitfield vt (nat l); Some (\<not> b) }
       else Some False } }"

definition union_imply :: "cgoptions \<Rightarrow> variable \<Rightarrow> int \<Rightarrow> int \<Rightarrow> bool option" where
  "union_imply o1 v k l =
    (if k = BOTTOM then Some True
     else if l = BOTTOM then Some False
     else if k = l then Some True
     else if opt_union_read_type_sensitive o1 then do {
       tt \<leftarrow> get_last_written_type v k;
       other \<leftarrow> get_last_written_type v l;
       t \<leftarrow> tt;
       if is_pointer t then do {
         u \<leftarrow> other;
         if is_pointer u then Some (is_pointer_to_char t) else size_implies v t other l }
       else size_implies v t other l }
     else Some False)"

fun imply :: "cgoptions \<Rightarrow> fact \<Rightarrow> fact \<Rightarrow> bool option" where
  "imply o1 (FPointTo v ps) (FPointTo w qs) = Some (v = w \<and> sub_variable_sets qs ps)"
| "imply o1 (FUnion v k) (FUnion w l) = (if v = w then union_imply o1 v k l else Some False)"
| "imply o1 _ _ = Some False"

definition union_join :: "cgoptions \<Rightarrow> variable \<Rightarrow> int \<Rightarrow> int \<Rightarrow> (int \<times> bool) option" where
  "union_join o1 v k l = do {
     i \<leftarrow> union_imply o1 v k l;
     if i then Some (k, False)
     else do {
       j \<leftarrow> union_imply o1 v l k;
       Some (if j then l else BOTTOM, True) } }"

fun join :: "cgoptions \<Rightarrow> fact \<Rightarrow> fact \<Rightarrow> (fact \<times> bool) option" where
  "join o1 (FPointTo v ps) (FPointTo w qs) =
    (if v = w then let (rs, changed) = add_variables_to_set ps qs in Some (FPointTo v rs, changed)
     else Some (FPointTo v ps, False))"
| "join o1 (FUnion v k) (FUnion w l) =
    (if v = w then do { (m, changed) \<leftarrow> union_join o1 v k l; Some (FUnion v m, changed) }
     else Some (FUnion v k, False))"
| "join o1 f g = Some (f, False)"

fun join_visits :: "cgoptions \<Rightarrow> fact \<Rightarrow> fact \<Rightarrow> (fact \<times> bool) option" where
  "join_visits o1 (FPointTo v ps) (FPointTo w qs) =
    (if v = w \<and> \<not> is_tbd_only qs then
       let (rs, changed) = add_variables_to_set (if is_tbd_only ps then [] else ps) qs
       in Some (FPointTo v rs, changed)
     else Some (FPointTo v ps, False))"
| "join_visits o1 f g = join o1 f g"

section \<open>Vectors of facts\<close>

definition find_fact :: "fact list \<Rightarrow> fact \<Rightarrow> nat option" where
  "find_fact facts f = find_index (fact_equal f) facts"

definition find_related_fact :: "fact list \<Rightarrow> fact \<Rightarrow> fact option" where
  "find_related_fact facts f = find (is_related f) facts"

text \<open>The loops of \<open>merge_fact\<close> and \<open>renew_fact\<close>, generic in the virtual functions they call.\<close>

fun merge_with :: "('f \<Rightarrow> 'f \<Rightarrow> bool) \<Rightarrow> ('f \<Rightarrow> 'f \<Rightarrow> bool option) \<Rightarrow> ('f \<Rightarrow> 'f \<Rightarrow> ('f \<times> bool) option) \<Rightarrow>
    'f list \<Rightarrow> 'f \<Rightarrow> ('f list \<times> bool) option" where
  "merge_with rel imp jn [] new_fact = Some ([new_fact], True)"
| "merge_with rel imp jn (f # fs) new_fact =
    (if rel f new_fact then do {
       i \<leftarrow> imp f new_fact;
       if \<not> i then do { (copy_fact, c) \<leftarrow> jn new_fact f; Some (copy_fact # fs, True) }
       else Some (f # fs, False) }
     else do { (gs, c) \<leftarrow> merge_with rel imp jn fs new_fact; Some (f # gs, c) })"

definition merge_fact :: "cgoptions \<Rightarrow> fact list \<Rightarrow> fact \<Rightarrow> (fact list \<times> bool) option" where
  "merge_fact o1 facts new_fact = merge_with is_related (imply o1) (join o1) facts new_fact"

fun renew_fact :: "fact list \<Rightarrow> fact \<Rightarrow> fact list \<times> bool" where
  "renew_fact [] new_fact = ([new_fact], True)"
| "renew_fact (f # fs) new_fact =
    (if is_related new_fact f then
       if fact_equal new_fact f then (f # fs, False) else (new_fact # fs, True)
     else let (gs, c) = renew_fact fs new_fact in (f # gs, c))"

fun merge_all_with :: "('f list \<Rightarrow> 'f \<Rightarrow> ('f list \<times> bool) option) \<Rightarrow> 'f list \<Rightarrow> 'f list \<Rightarrow>
    ('f list \<times> bool) option" where
  "merge_all_with mf facts [] = Some (facts, False)"
| "merge_all_with mf facts (f # fs) = do {
     (facts1, c) \<leftarrow> mf facts f;
     (facts2, d) \<leftarrow> merge_all_with mf facts1 fs;
     Some (facts2, c \<or> d) }"

definition merge_facts :: "cgoptions \<Rightarrow> fact list \<Rightarrow> fact list \<Rightarrow> (fact list \<times> bool) option" where
  "merge_facts o1 facts new_facts = merge_all_with (merge_fact o1) facts new_facts"

fun renew_facts :: "fact list \<Rightarrow> fact list \<Rightarrow> fact list \<times> bool" where
  "renew_facts facts [] = (facts, False)"
| "renew_facts facts (f # fs) =
     (let (facts1, c) = renew_fact facts f; (facts2, d) = renew_facts facts1 fs in (facts2, c \<or> d))"

text \<open>\<open>combine_facts\<close>: each fact of the new visit is joined into the first related old fact.\<close>

fun combine_fact :: "cgoptions \<Rightarrow> fact list \<Rightarrow> fact \<Rightarrow> fact list option" where
  "combine_fact o1 [] g = Some []"
| "combine_fact o1 (f # fs) g =
    (if is_related f g then do { (h, c) \<leftarrow> join_visits o1 f g; Some (h # fs) }
     else do { gs \<leftarrow> combine_fact o1 fs g; Some (f # gs) })"

definition combine_facts :: "cgoptions \<Rightarrow> fact list \<Rightarrow> fact list \<Rightarrow> fact list option" where
  "combine_facts o1 facts1 facts2 = foldM (\<lambda>g fs. combine_fact o1 fs g) facts2 facts1"

definition same_facts :: "fact list \<Rightarrow> fact list \<Rightarrow> bool" where
  "same_facts facts1 facts2 =
    (if length facts1 = length facts2 then list_all (\<lambda>f. find_fact facts2 f \<noteq> None) facts1 else False)"

fun subset_loop :: "cgoptions \<Rightarrow> fact list \<Rightarrow> fact list \<Rightarrow> bool option" where
  "subset_loop o1 [] facts2 = Some True"
| "subset_loop o1 (f1 # fs) facts2 =
    (case find_related_fact facts2 f1 of
       None \<Rightarrow> Some False
     | Some f2 \<Rightarrow> do { i \<leftarrow> imply o1 f2 f1; if \<not> i then Some False else subset_loop o1 fs facts2 })"

definition subset_facts :: "cgoptions \<Rightarrow> fact list \<Rightarrow> fact list \<Rightarrow> bool option" where
  "subset_facts o1 facts1 facts2 =
    (if length facts1 = length facts2 then subset_loop o1 facts1 facts2 else Some False)"

section \<open>Reading union fields\<close>

definition is_field_readable :: "cgoptions \<Rightarrow> variable \<Rightarrow> int \<Rightarrow> fact list \<Rightarrow> bool option" where
  "is_field_readable o1 v fid facts = do {
     t \<leftarrow> vtype v;
     assert_that (is_union t \<and> 0 \<le> fid \<and> fid < int (length (type_fields t)));
     case find_related_fact facts (FUnion v fid) of
       None \<Rightarrow> Some False
     | Some fu \<Rightarrow> imply o1 (FUnion v fid) fu }"

definition is_nonreadable_field :: "cgoptions \<Rightarrow> variable \<Rightarrow> fact list \<Rightarrow> bool option" where
  "is_nonreadable_field o1 v facts =
    (if is_inside_union_field v then
       (case find is_union_field (ancestors v) of
          Some (Fld p j) \<Rightarrow>
            (let tmp = FUnion p (case get_field_id (Fld p j) of None \<Rightarrow> -1 | Some i \<Rightarrow> int i) in
             case find_related_fact facts tmp of
               None \<Rightarrow> Some True
             | Some fu \<Rightarrow> do { i \<leftarrow> imply o1 tmp fu; Some (\<not> i) })
        | _ \<Rightarrow> None)
     else Some False)"

section \<open>What the merge relies on\<close>

text \<open>Facts about one thing are related; \<open>imp f g\<close> says that \<open>f\<close> is at least as weak as \<open>g\<close>, and
  joining two related facts gives one that is at least as weak as both.\<close>

locale fact_domain =
  fixes good :: "'f \<Rightarrow> bool"
    and rel :: "'f \<Rightarrow> 'f \<Rightarrow> bool"
    and imp :: "'f \<Rightarrow> 'f \<Rightarrow> bool option"
    and jn :: "'f \<Rightarrow> 'f \<Rightarrow> ('f \<times> bool) option"
  assumes rel_refl: "rel f f"
    and rel_sym: "rel f g \<Longrightarrow> rel g f"
    and rel_trans: "rel f g \<Longrightarrow> rel g h \<Longrightarrow> rel f h"
    and imp_total: "good f \<Longrightarrow> good g \<Longrightarrow> rel f g \<Longrightarrow> \<exists>b. imp f g = Some b"
    and imp_refl: "good f \<Longrightarrow> imp f f = Some True"
    and imp_trans: "good f \<Longrightarrow> good g \<Longrightarrow> good h \<Longrightarrow> imp f g = Some True \<Longrightarrow> imp g h = Some True \<Longrightarrow>
      imp f h = Some True"
    and jn_bound: "good f \<Longrightarrow> good g \<Longrightarrow> rel f g \<Longrightarrow>
      \<exists>h c. jn f g = Some (h, c) \<and> good h \<and> rel h f \<and> imp h f = Some True \<and> imp h g = Some True"
begin

definition keyed :: "'f list \<Rightarrow> bool" where
  "keyed fs \<longleftrightarrow> sorted_wrt (\<lambda>f g. \<not> rel f g) fs"

definition covered :: "'f list \<Rightarrow> 'f \<Rightarrow> bool" where
  "covered fs g \<longleftrightarrow> (\<exists>f \<in> set fs. rel f g \<and> imp f g = Some True)"

lemma covered_self: "good f \<Longrightarrow> f \<in> set fs \<Longrightarrow> covered fs f"
  using imp_refl rel_refl by (auto simp: covered_def)

lemma covered_trans:
  assumes "\<forall>f \<in> set fs. good f" "\<forall>f \<in> set gs. good f" "good g"
    "\<forall>f \<in> set fs. covered gs f" "covered fs g"
  shows "covered gs g"
proof -
  obtain f where f: "f \<in> set fs" "rel f g" "imp f g = Some True" using assms(5) by (auto simp: covered_def)
  obtain h where h: "h \<in> set gs" "rel h f" "imp h f = Some True"
    using assms(4) f(1) by (auto simp: covered_def)
  have "good f" "good h" using f(1) h(1) assms(1,2) by auto
  then have "imp h g = Some True" using imp_trans[OF _ _ assms(3) h(3) f(3)] by blast
  then show ?thesis using h(1,2) f(2) rel_trans by (auto simp: covered_def)
qed

lemma keyed_Cons: "keyed (f # fs) \<longleftrightarrow> (\<forall>g \<in> set fs. \<not> rel f g) \<and> keyed fs"
  by (simp add: keyed_def)

lemma merge_with_spec:
  "\<forall>f \<in> set fs. good f \<Longrightarrow> good g \<Longrightarrow>
   \<exists>r c. merge_with rel imp jn fs g = Some (r, c) \<and> (\<forall>f \<in> set r. good f) \<and>
     (\<forall>f \<in> set fs. covered r f) \<and> covered r g \<and>
     (\<forall>h \<in> set r. (\<exists>f \<in> set fs. rel f h) \<or> rel g h) \<and>
     (\<not> c \<longrightarrow> r = fs) \<and> (keyed fs \<longrightarrow> keyed r \<and> (c \<longleftrightarrow> \<not> covered fs g))"
proof (induction fs)
  case Nil
  then show ?case by (simp add: covered_def keyed_def imp_refl rel_refl) blast
next
  case (Cons f fs)
  then have good: "good f" "\<forall>f \<in> set fs. good f" by auto
  show ?case
  proof (cases "rel f g")
    case rel: True
    have only: "\<not> rel h g" if "keyed (f # fs)" "h \<in> set fs" for h
      using that rel rel_sym rel_trans by (metis keyed_Cons)
    obtain i where i: "imp f g = Some i" using imp_total[OF good(1) Cons.prems(2) rel] by blast
    show ?thesis
    proof (cases i)
      case True
      have "covered (f # fs) x" if "x \<in> set (f # fs)" for x using covered_self that Cons.prems(1) by blast
      moreover have "covered (f # fs) g" using rel i True by (auto simp: covered_def)
      ultimately show ?thesis using rel i True Cons.prems(1) rel_refl by auto
    next
      case False
      obtain h c where h: "jn g f = Some (h, c)" "good h" "rel h g" "imp h g = Some True" "imp h f = Some True"
        using jn_bound[OF Cons.prems(2) good(1)] rel rel_sym by blast
      have hf: "rel h f" using h(3) rel rel_sym rel_trans by blast
      have cov: "covered (h # fs) x" if "x \<in> set (f # fs)" for x
        using that h hf good covered_self[of x "h # fs"] by (auto simp: covered_def)
      have key: "keyed (h # fs)" if "keyed (f # fs)"
        using that hf rel_sym rel_trans by (metis keyed_Cons)
      have new: "\<not> covered (f # fs) g" if "keyed (f # fs)"
        using only[OF that] i False by (auto simp: covered_def)
      have "covered (h # fs) g" using h by (auto simp: covered_def)
      moreover have "\<forall>x \<in> set (h # fs). (\<exists>y \<in> set (f # fs). rel y x) \<or> rel g x"
        using rel_refl rel_sym h(3) by auto
      ultimately show ?thesis using rel i False h(1,2) good cov key new by auto
    qed
  next
    case False
    from Cons.IH[OF good(2) Cons.prems(2)] obtain r c where
      r: "merge_with rel imp jn fs g = Some (r, c)" "\<forall>f \<in> set r. good f" "\<forall>f \<in> set fs. covered r f"
        "covered r g" "\<forall>h \<in> set r. (\<exists>f \<in> set fs. rel f h) \<or> rel g h" "\<not> c \<longrightarrow> r = fs"
        "keyed fs \<longrightarrow> keyed r \<and> (c \<longleftrightarrow> \<not> covered fs g)" by blast
    have up: "covered (f # r) x" if "covered r x" for x using that by (auto simp: covered_def)
    have "\<not> rel f x" if "keyed (f # fs)" "x \<in> set r" for x
      using that r(5) False rel_sym rel_trans by (metis keyed_Cons)
    then have key: "keyed (f # fs) \<Longrightarrow> keyed (f # r)" using r(7) by (auto simp: keyed_Cons)
    have same: "covered (f # fs) g \<longleftrightarrow> covered fs g" using False by (auto simp: covered_def)
    have "\<forall>x \<in> set (f # fs). covered (f # r) x" using up r(3) covered_self[OF good(1)] by auto
    moreover have "\<forall>x \<in> set (f # r). (\<exists>y \<in> set (f # fs). rel y x) \<or> rel g x"
      using r(5) rel_refl by auto
    ultimately show ?thesis using False r good(1) up key same by (auto simp: keyed_Cons)
  qed
qed

lemma merge_all_spec:
  "\<forall>f \<in> set fs. good f \<Longrightarrow> \<forall>g \<in> set gs. good g \<Longrightarrow> keyed fs \<Longrightarrow>
   \<exists>r c. merge_all_with (merge_with rel imp jn) fs gs = Some (r, c) \<and> (\<forall>f \<in> set r. good f) \<and> keyed r \<and>
     (\<forall>f \<in> set fs \<union> set gs. covered r f) \<and> (\<forall>h \<in> set r. \<exists>f \<in> set fs \<union> set gs. rel f h) \<and>
     (\<not> c \<longrightarrow> r = fs) \<and> (c \<longleftrightarrow> (\<exists>g \<in> set gs. \<not> covered fs g))"
proof (induction gs arbitrary: fs)
  case Nil
  then have "\<forall>f \<in> set fs. covered fs f \<and> (\<exists>x \<in> set fs. rel x f)" using covered_self rel_refl by blast
  then show ?case using Nil by simp blast
next
  case (Cons g gs)
  then have good: "good g" "\<forall>g \<in> set gs. good g" by auto
  from merge_with_spec[OF Cons.prems(1) good(1)] obtain r1 c where
    1: "merge_with rel imp jn fs g = Some (r1, c)" "\<forall>f \<in> set r1. good f" "\<forall>f \<in> set fs. covered r1 f"
      "covered r1 g" "\<forall>h \<in> set r1. (\<exists>f \<in> set fs. rel f h) \<or> rel g h" "\<not> c \<longrightarrow> r1 = fs"
      "keyed r1" "c \<longleftrightarrow> \<not> covered fs g" using Cons.prems(3) by blast
  from Cons.IH[OF 1(2) good(2) 1(7)] obtain r d where
    2: "merge_all_with (merge_with rel imp jn) r1 gs = Some (r, d)" "\<forall>f \<in> set r. good f" "keyed r"
      "\<forall>f \<in> set r1 \<union> set gs. covered r f" "\<forall>h \<in> set r. \<exists>f \<in> set r1 \<union> set gs. rel f h"
      "\<not> d \<longrightarrow> r = r1" "d \<longleftrightarrow> (\<exists>g \<in> set gs. \<not> covered r1 g)" by blast
  have tr: "covered r x" if "good x" "covered r1 x" for x
    using covered_trans[OF 1(2) 2(2) that(1) _ that(2)] 2(4) by blast
  have cov: "covered r x" if "x \<in> set fs \<union> set (g # gs)" for x
    using that tr 1(3,4) 2(4) Cons.prems(1) good(1) by auto
  have origin: "\<exists>f \<in> set fs \<union> set (g # gs). rel f h" if hr: "h \<in> set r" for h
  proof -
    obtain f where f: "f \<in> set r1 \<union> set gs" "rel f h" using 2(5) hr by blast
    show ?thesis
    proof (cases "f \<in> set gs")
      case True
      then show ?thesis using f(2) by auto
    next
      case False
      then have "f \<in> set r1" using f(1) by simp
      then have "(\<exists>x \<in> set fs. rel x f) \<or> rel g f" using 1(5) by simp
      then have "(\<exists>x \<in> set fs. rel x h) \<or> rel g h" using rel_trans[OF _ f(2)] by meson
      then show ?thesis by (simp add: bex_Un) blast
    qed
  qed
  have flag: "c \<or> d \<longleftrightarrow> (\<exists>x \<in> set (g # gs). \<not> covered fs x)"
  proof (cases c)
    case True
    then show ?thesis using 1(8) by auto
  next
    case False
    then show ?thesis using 1(6,8) 2(7) by auto
  qed
  have "merge_all_with (merge_with rel imp jn) fs (g # gs) = Some (r, c \<or> d)" by (simp add: 1(1) 2(1))
  moreover have "\<not> (c \<or> d) \<longrightarrow> r = fs" using 1(6) 2(6) by simp
  ultimately show ?case using 2(2,3) cov origin flag by blast
qed

end

section \<open>The facts of the generator\<close>

text \<open>The facts the analyses make: points-to vectors without duplicates; for unions of well-formed
  types without pointer fields, a field that exists or the bottom.\<close>

definition plain_union :: "variable \<Rightarrow> bool" where
  "plain_union v \<longleftrightarrow> (\<exists>t. vtype v = Some t \<and> is_union t \<and> wf_type t \<and> (\<forall>u \<in> set (type_fields t). \<not> is_pointer u))"

fun good_fact :: "fact \<Rightarrow> bool" where
  "good_fact (FPointTo v ps) = distinct ps"
| "good_fact (FUnion v k) = (plain_union v \<and> (k = BOTTOM \<or> (0 \<le> k \<and> k < int (length (field_vars v)))))"

text \<open>The size of the field at a position among the field variables, and whether the position is that
  of a bit-field in the type.\<close>

definition field_size :: "variable \<Rightarrow> int \<Rightarrow> int" where
  "field_size v k = the (SizeInBytes (the (vtype (field_vars v ! nat k))))"

definition bit_position :: "variable \<Rightarrow> int \<Rightarrow> bool" where
  "bit_position v k \<longleftrightarrow> is_bitfield (the (vtype v)) (nat k) = Some True"

lemma wf_union_fields:
  assumes "plain_union v" "0 \<le> k" "k < int (length (field_vars v))"
  shows "\<exists>u n b. vtype (field_vars v ! nat k) = Some u \<and> \<not> is_pointer u \<and> SizeInBytes u = Some n \<and>
     is_bitfield (the (vtype v)) (nat k) = Some b"
proof -
  obtain t where t: "vtype v = Some t" "is_union t" "wf_type t" "\<forall>u \<in> set (type_fields t). \<not> is_pointer u"
    using assms(1) by (auto simp: plain_union_def)
  then obtain st sid pk fs qs ls where tt: "t = TAgg st sid pk fs qs ls" by (cases t) auto
  have k: "nat k < length (field_vars v)" using assms(2,3) by linarith
  then have kn: "nat k < length (named_fields t)" "field_vars v ! nat k = Fld v (nat k)"
    using t(1) by (auto simp: field_vars_def split: if_splits)
  define i where "i = named_fields t ! nat k"
  have "i \<in> set (named_fields t)" using kn(1) by (simp add: i_def)
  then have i: "i < length fs" by (auto simp: named_fields_def tt)
  have u: "vtype (field_vars v ! nat k) = Some (fs ! i)" using kn t(1) by (simp add: i_def tt)
  have "list_all wf_type fs" "length ls = length fs" using t(3) by (simp_all add: tt)
  then have "wf_type (fs ! i)" using i by (simp add: list_all_length)
  then obtain n where "SizeInBytes (fs ! i) = Some n" using SizeInBytes_total(1) by blast
  moreover have "\<not> is_pointer (fs ! i)" using t(4) i by (simp add: tt)
  moreover have "length (named_fields t) \<le> length fs"
    by (simp add: named_fields_def tt order.trans[OF length_filter_le])
  then have "\<exists>b. is_bitfield t (nat k) = Some b"
    using kn(1) \<open>length ls = length fs\<close> by (simp add: is_bitfield_def vec_at_def tt)
  ultimately show ?thesis using u t(1) by auto
qed

lemma union_imply_iff:
  assumes "good_fact (FUnion v k)" "good_fact (FUnion v l)"
  shows "union_imply o1 v k l = Some (k = BOTTOM \<or> (l \<noteq> BOTTOM \<and> (k = l \<or>
     (opt_union_read_type_sensitive o1 \<and> field_size v k \<noteq> SIZE_UNKNOWN \<and> field_size v l \<noteq> SIZE_UNKNOWN \<and>
      field_size v k \<le> field_size v l \<and> \<not> bit_position v l))))"
proof (cases "k = BOTTOM \<or> l = BOTTOM \<or> k = l")
  case False
  then have k: "0 \<le> k" "k < int (length (field_vars v))" and l: "0 \<le> l" "l < int (length (field_vars v))"
    and v: "plain_union v" using assms by auto
  have tops: "k \<noteq> TOP" "l \<noteq> TOP" using k l by (auto simp: TOP_def)
  obtain t where t: "vtype v = Some t" "is_union t" using v by (auto simp: plain_union_def)
  obtain u n b where u: "vtype (field_vars v ! nat k) = Some u" "\<not> is_pointer u" "SizeInBytes u = Some n"
    using wf_union_fields[OF v k] by blast
  obtain u' n' b' where u': "vtype (field_vars v ! nat l) = Some u'" "\<not> is_pointer u'" "SizeInBytes u' = Some n'"
    "is_bitfield (the (vtype v)) (nat l) = Some b'"
    using wf_union_fields[OF v l] by blast
  have "get_last_written_type v k = Some (Some u)" "get_last_written_type v l = Some (Some u')"
    using k l t tops False u(1) u'(1) by (auto simp: get_last_written_type_def)
  then show ?thesis
    using False u u' t(1)
    by (auto simp: union_imply_def size_implies_def field_size_def bit_position_def)
qed (auto simp: union_imply_def)

lemma is_related_refl: "is_related f f"
  by (cases f) auto

lemma is_related_iff: "is_related f g \<longleftrightarrow>
    (\<exists>v ps qs. f = FPointTo v ps \<and> g = FPointTo v qs) \<or> (\<exists>v k l. f = FUnion v k \<and> g = FUnion v l)"
  by (cases f; cases g) auto

lemma imply_related: "imply o1 f g = Some True \<Longrightarrow> is_related f g"
  by (cases f; cases g) (auto split: if_splits)

lemma imply_points_to:
  "distinct qs \<Longrightarrow> imply o1 (FPointTo v ps) (FPointTo v qs) = Some (set qs \<subseteq> set ps)"
  by (simp add: sub_sets_iff)

lemma join_points_to:
  "\<exists>rs c. join o1 (FPointTo v ps) (FPointTo v qs) = Some (FPointTo v rs, c) \<and> set rs = set ps \<union> set qs \<and>
     (distinct ps \<longrightarrow> distinct rs)"
proof -
  obtain rs c where "add_variables_to_set ps qs = (rs, c)" by fastforce
  then show ?thesis using add_variables_spec by simp
qed

lemma join_union:
  assumes "good_fact (FUnion v k)" "good_fact (FUnion v l)"
  shows "\<exists>m c. join o1 (FUnion v k) (FUnion v l) = Some (FUnion v m, c) \<and> good_fact (FUnion v m) \<and>
     union_imply o1 v m k = Some True \<and> union_imply o1 v m l = Some True"
proof -
  obtain i where i: "union_imply o1 v k l = Some i" using union_imply_iff[OF assms] by blast
  obtain j where j: "union_imply o1 v l k = Some j" using union_imply_iff[OF assms(2,1)] by blast
  have self: "union_imply o1 v m m = Some True" for m by (simp add: union_imply_def)
  have bot: "union_imply o1 v BOTTOM m = Some True" for m by (simp add: union_imply_def)
  show ?thesis
    using i j self bot assms by (cases i; cases j) (auto simp: union_join_def)
qed

interpretation fd: fact_domain good_fact is_related "imply o1" "join o1" for o1
proof (unfold_locales, goal_cases)
  case (1 f)
  show ?case by (rule is_related_refl)
next
  case (2 f g)
  then show ?case by (auto simp: is_related_iff)
next
  case (3 f g h)
  then show ?case by (auto simp: is_related_iff)
next
  case (4 f g)
  then show ?case by (cases f; cases g) (use union_imply_iff in auto)
next
  case (5 f)
  then show ?case by (cases f) (auto simp: imply_points_to sub_sets_iff union_imply_def)
next
  case (6 f g h)
  then have "is_related f g" "is_related g h" using imply_related by blast+
  then consider v ps qs rs where "f = FPointTo v ps" "g = FPointTo v qs" "h = FPointTo v rs"
    | v k l m where "f = FUnion v k" "g = FUnion v l" "h = FUnion v m"
    by (auto simp: is_related_iff)
  then show ?case
  proof cases
    case 1
    then show ?thesis using 6 by (auto simp: sub_sets_iff)
  next
    case 2
    then show ?thesis using 6 union_imply_iff by auto
  qed
next
  case (7 f g)
  then consider v ps qs where "f = FPointTo v ps" "g = FPointTo v qs" | v k l where "f = FUnion v k" "g = FUnion v l"
    by (auto simp: is_related_iff)
  then show ?case
  proof cases
    case 1
    then show ?thesis using 7 join_points_to[of o1 v ps qs] by (auto simp: sub_sets_iff)
  next
    case 2
    then show ?thesis using 7 join_union[of v k l o1] by auto
  qed
qed

text \<open>A state has at most one fact about each thing; a fact is accounted for when a related fact of
  the state is at least as weak.\<close>

definition keyed_facts :: "fact list \<Rightarrow> bool" where
  "keyed_facts facts \<longleftrightarrow> sorted_wrt (\<lambda>f g. \<not> is_related f g) facts"

definition accounted :: "cgoptions \<Rightarrow> fact list \<Rightarrow> fact \<Rightarrow> bool" where
  "accounted o1 facts g \<longleftrightarrow> (\<exists>f \<in> set facts. is_related f g \<and> imply o1 f g = Some True)"

lemma keyed_facts_eq: "fd.keyed = keyed_facts"
  by (rule ext) (simp add: fd.keyed_def keyed_facts_def)

lemma accounted_eq: "fd.covered o1 = accounted o1"
  by (intro ext) (simp add: fd.covered_def accounted_def)

lemma is_related_sym: "is_related f g = is_related g f"
  by (auto simp: is_related_iff)

lemma is_related_trans: "is_related f g \<Longrightarrow> is_related g h \<Longrightarrow> is_related f h"
  by (auto simp: is_related_iff)

lemma keyed_facts_Cons: "keyed_facts (f # fs) \<longleftrightarrow> (\<forall>g \<in> set fs. \<not> is_related f g) \<and> keyed_facts fs"
  by (simp add: keyed_facts_def)

lemma find_related_None: "find_related_fact facts f = None \<longleftrightarrow> (\<forall>g \<in> set facts. \<not> is_related f g)"
  by (auto simp: find_related_fact_def find_None_iff)

lemma find_related_SomeD: "find_related_fact facts f = Some g \<Longrightarrow> g \<in> set facts \<and> is_related f g"
  by (auto simp: find_related_fact_def find_Some_iff)

lemma find_related_keyed:
  "keyed_facts facts \<Longrightarrow> g \<in> set facts \<Longrightarrow> is_related f g \<Longrightarrow> find_related_fact facts f = Some g"
proof (induction facts)
  case (Cons h facts)
  then show ?case
    using is_related_sym is_related_trans[of h f g] by (auto simp: keyed_facts_Cons find_related_fact_def)
qed simp

lemma fact_equal_refl: "fact_equal f f"
  by (cases f) (auto simp: equal_variable_sets_def list_all_iff)

lemma fact_equal_related: "fact_equal f g \<Longrightarrow> is_related f g"
  by (cases f; cases g) auto

lemma renew_fact_spec:
  assumes "renew_fact fs g = (r, c)" "keyed_facts fs"
  shows "keyed_facts r" "\<exists>h. find_related_fact r g = Some h \<and> fact_equal g h"
    "\<not> is_related x g \<Longrightarrow> find_related_fact r x = find_related_fact fs x"
    "h \<in> set r \<Longrightarrow> h \<in> set fs \<or> h = g"
proof -
  have "keyed_facts r \<and> (\<exists>h. find_related_fact r g = Some h \<and> fact_equal g h) \<and>
     (\<forall>x. \<not> is_related x g \<longrightarrow> find_related_fact r x = find_related_fact fs x) \<and> set r \<subseteq> insert g (set fs)"
    using assms
  proof (induction fs arbitrary: r c)
    case Nil
    then show ?case
      by (auto simp: keyed_facts_def find_related_fact_def is_related_refl fact_equal_refl)
  next
    case (Cons f fs)
    show ?case
    proof (cases "is_related g f")
      case True
      have "\<not> is_related x g \<Longrightarrow> \<not> is_related x f" for x
        using True is_related_sym is_related_trans by blast
      then show ?thesis
        using Cons.prems True is_related_sym is_related_trans[of f g] fact_equal_refl
        by (auto simp: keyed_facts_Cons find_related_fact_def is_related_refl split: if_splits)
          (use is_related_trans True in blast)+
    next
      case False
      obtain r1 c1 where r1: "renew_fact fs g = (r1, c1)" by fastforce
      have ih: "keyed_facts r1" "\<exists>h. find_related_fact r1 g = Some h \<and> fact_equal g h"
        "\<And>x. \<not> is_related x g \<Longrightarrow> find_related_fact r1 x = find_related_fact fs x" "set r1 \<subseteq> insert g (set fs)"
        using Cons.IH[OF r1] Cons.prems(2) by (auto simp: keyed_facts_Cons)
      have "r = f # r1" using Cons.prems(1) False r1 by simp
      moreover have "\<not> is_related f g" using False is_related_sym by blast
      ultimately show ?thesis
        using ih False Cons.prems(2) by (auto simp: keyed_facts_Cons find_related_fact_def)
    qed
  qed
  then show "keyed_facts r" "\<exists>h. find_related_fact r g = Some h \<and> fact_equal g h"
    "\<not> is_related x g \<Longrightarrow> find_related_fact r x = find_related_fact fs x"
    "h \<in> set r \<Longrightarrow> h \<in> set fs \<or> h = g" by auto
qed

abbreviation default_options :: cgoptions where
  "default_options \<equiv> default_settings cgoptions_zero"

section \<open>Properties\<close>

text \<open>C15: merging the facts of two program points never fails; the result has again one fact about
  each thing, is only about things one of the two knows, accounts for every fact of both (so it is
  an upper bound of the two states), and the change flag says exactly whether the first state did not
  account for some new fact already; when it says no the state is untouched.\<close>

theorem merge_facts_correct:
  assumes "\<forall>f \<in> set fs. good_fact f" "\<forall>g \<in> set gs. good_fact g" "keyed_facts fs"
  shows "\<exists>r changed. merge_facts o1 fs gs = Some (r, changed) \<and> keyed_facts r \<and> (\<forall>f \<in> set r. good_fact f) \<and>
    (\<forall>f \<in> set fs \<union> set gs. accounted o1 r f) \<and>
    (\<forall>h \<in> set r. \<exists>f \<in> set fs \<union> set gs. is_related f h) \<and>
    (\<not> changed \<longrightarrow> r = fs) \<and> (changed \<longleftrightarrow> (\<exists>g \<in> set gs. \<not> accounted o1 fs g))"
proof -
  have "merge_facts o1 fs gs = merge_all_with (merge_with is_related (imply o1) (join o1)) fs gs"
    by (simp add: merge_facts_def merge_fact_def[abs_def])
  then show ?thesis
    using fd.merge_all_spec[OF assms(1,2), of o1] assms(3)
    unfolding keyed_facts_eq accounted_eq by (simp only:) blast
qed

lemma merge_facts_correct_witness:
  "\<exists>r changed. merge_facts default_options [FPointTo sample_var [null_ptr]]
       [FPointTo sample_var [garbage_ptr], FPointTo sample_array [tbd_ptr]] = Some (r, changed) \<and>
    keyed_facts r \<and> (\<forall>f \<in> set r. good_fact f) \<and>
    (\<forall>f \<in> set [FPointTo sample_var [null_ptr]] \<union>
          set [FPointTo sample_var [garbage_ptr], FPointTo sample_array [tbd_ptr]]. accounted default_options r f) \<and>
    (\<forall>h \<in> set r. \<exists>f \<in> set [FPointTo sample_var [null_ptr]] \<union>
          set [FPointTo sample_var [garbage_ptr], FPointTo sample_array [tbd_ptr]]. is_related f h) \<and>
    (\<not> changed \<longrightarrow> r = [FPointTo sample_var [null_ptr]]) \<and>
    (changed \<longleftrightarrow> (\<exists>g \<in> set [FPointTo sample_var [garbage_ptr], FPointTo sample_array [tbd_ptr]].
       \<not> accounted default_options [FPointTo sample_var [null_ptr]] g))"
  by (rule merge_facts_correct) (simp_all add: keyed_facts_def)

text \<open>Renewing facts is a strong update: afterwards the state has exactly one fact about each
  thing, for each renewed thing the new fact (or the old one when they are equal), and what was known
  about anything else is unchanged.\<close>

lemma renew_facts_correct:
  assumes "renew_facts fs gs = (r, changed)" "keyed_facts fs" "keyed_facts gs"
  shows "(keyed_facts r) \<and>
    (g \<in> set gs \<longrightarrow> (\<exists>h. find_related_fact r g = Some h \<and> fact_equal g h)) \<and>
    ((\<forall>g \<in> set gs. \<not> is_related x g) \<longrightarrow> find_related_fact r x = find_related_fact fs x)"
proof -
  have "keyed_facts r \<and> (\<forall>g \<in> set gs. \<exists>h. find_related_fact r g = Some h \<and> fact_equal g h) \<and>
    (\<forall>x. (\<forall>g \<in> set gs. \<not> is_related x g) \<longrightarrow> find_related_fact r x = find_related_fact fs x)"
    using assms
  proof (induction gs arbitrary: fs r changed)
    case (Cons g gs)
    obtain r1 c where 1: "renew_fact fs g = (r1, c)" by fastforce
    obtain r2 d where 2: "renew_facts r1 gs = (r2, d)" by fastforce
    note s = renew_fact_spec[OF 1 Cons.prems(2)]
    have r: "r = r2" using Cons.prems(1) by (simp add: 1 2)
    have k: "keyed_facts gs" "\<forall>h \<in> set gs. \<not> is_related g h" using Cons.prems(3) by (auto simp: keyed_facts_Cons)
    note ih = Cons.IH[OF 2 s(1) k(1)]
    then have "find_related_fact r2 g = find_related_fact r1 g" using k(2) by blast
    then show ?case using ih s(2,3) by (auto simp: r)
  qed auto
  then show ?thesis by blast
qed

text \<open>A field of a union is readable at a program point exactly when the state knows which field
  was written last and that is the field itself or, in the type-sensitive mode, a field at least as
  wide, of known size, that is not at the position of a bit-field.\<close>

lemma is_field_readable_correct:
  assumes "keyed_facts facts" "\<forall>f \<in> set facts. good_fact f" "good_fact (FUnion v fid)" "0 \<le> fid"
  shows "is_field_readable o1 v fid facts = Some (\<exists>k. FUnion v k \<in> set facts \<and> k \<noteq> BOTTOM \<and>
    (k = fid \<or> (opt_union_read_type_sensitive o1 \<and> field_size v fid \<noteq> SIZE_UNKNOWN \<and>
       field_size v k \<noteq> SIZE_UNKNOWN \<and> field_size v fid \<le> field_size v k \<and> \<not> bit_position v k)))"
proof -
  obtain t where t: "vtype v = Some t" "is_union t" using assms(3) by (auto simp: plain_union_def)
  have nb: "fid \<noteq> BOTTOM" using assms(4) by (simp add: BOTTOM_def)
  have "int (length (field_vars v)) \<le> int (length (type_fields t))"
    using t(1) by (auto simp: field_vars_def named_fields_def intro: order.trans[OF length_filter_le])
  then have fid: "fid < int (length (type_fields t))" using assms(3) nb by auto
  show ?thesis
  proof (cases "find_related_fact facts (FUnion v fid)")
    case None
    then have "FUnion v k \<notin> set facts" for k by (auto simp: find_related_None)
    then show ?thesis using None t fid assms(4) by (simp add: is_field_readable_def)
  next
    case (Some fu)
    then obtain k where k: "fu = FUnion v k" "FUnion v k \<in> set facts"
      using find_related_SomeD[OF Some] by (auto simp: is_related_iff)
    have uniq: "l = k" if "FUnion v l \<in> set facts" for l
      using find_related_keyed[OF assms(1) that, of "FUnion v fid"] Some k(1) by simp
    have one: "(\<exists>l. FUnion v l \<in> set facts \<and> P l) \<longleftrightarrow> P k" for P using uniq k(2) by metis
    have "union_imply o1 v fid k = Some (k \<noteq> BOTTOM \<and> (k = fid \<or>
      (opt_union_read_type_sensitive o1 \<and> field_size v fid \<noteq> SIZE_UNKNOWN \<and> field_size v k \<noteq> SIZE_UNKNOWN \<and>
      field_size v fid \<le> field_size v k \<and> \<not> bit_position v k)))"
      using union_imply_iff[OF assms(3) bspec[OF assms(2) k(2)], of o1] nb by (simp add: eq_commute[of fid k])
    then show ?thesis
      unfolding one using Some k(1) t fid assms(4) by (simp add: is_field_readable_def)
  qed
qed

text \<open>The size 0 that \<open>SizeInBytes\<close> gives pointers makes a pointer field readable after a narrower
  field was written.\<close>

definition pointer_union_var :: variable where
  "pointer_union_var = Var \<lparr>vi_id = 7, vi_name = ''g_7'',
     vi_type = Some (TAgg False 4 False [TSimple eChar, TPointer (TSimple eInt)]
       [cvq_new [False] [False], cvq_new [False, False] [False, False]] [-1, -1]),
     vi_qfer = cvq_new [False] [False], vi_expanded = True\<rparr> None"

lemma pointer_field_readable_after_char:
  "opt_union_read_type_sensitive o1 \<Longrightarrow>
     is_field_readable o1 pointer_union_var 1 [FUnion pointer_union_var 0] = Some True"
  by (simp add: is_field_readable_def pointer_union_var_def find_related_fact_def union_imply_def
      BOTTOM_def TOP_def get_last_written_type_def field_vars_def is_aggregate_def named_fields_def
      is_unamed_padding_def vec_at_def size_implies_def SIZE_UNKNOWN_def is_bitfield_def assert_that_def)

end
