(* ===== verification/PointsTo.thy ===== *)
theory PointsTo
  imports Facts
begin

text \<open>
  FactPointTo.cpp, the transfer functions of FactUnion.cpp and the updates of FactMgr.cpp: what an
  assignment, the end of a block and the end of a function do to the facts.  Of a call the analysis
  asks for the return variable of its function and the facts recorded for the invocation; of an
  operator expression it asks whether it is always 0.  These are the record \<open>call_env\<close>.

  The properties relate the facts to runs of the generated program: a store maps the cells of the
  pointer variables to the variables they point to, and an assignment through pointers keeps every
  points-to fact true.
\<close>

record call_env =
  ce_rv :: "nat \<Rightarrow> variable"
  ce_facts :: "nat \<Rightarrow> fact list"
  ce_equals0 :: "expr \<Rightarrow> bool"

section \<open>Expressions\<close>

fun expr_type :: "expr \<Rightarrow> ctype option" where
  "expr_type (EConst t s) = Some t"
| "expr_type (EVar v t) = Some t"
| "expr_type (EPrim op t es) = Some t"
| "expr_type (ECall n t es) = Some t"
| "expr_type (EAssign v t op r rhs) = Some t"
| "expr_type (EComma a b) = expr_type b"
| "expr_type (ELhs v t) = Some t"
| "expr_type (ECL t es) = Some t"

text \<open>\<open>equals(0)\<close>: a constant is parsed, a comma expression asks its right-hand side, variables, calls
  and OpenCL expressions say no.\<close>

fun expr_equals0 :: "call_env \<Rightarrow> expr \<Rightarrow> bool option" where
  "expr_equals0 ce (EConst t s) = map_option (\<lambda>i. i = 0) (str2int stream_dec stream_hex s)"
| "expr_equals0 ce (EComma a b) = expr_equals0 ce b"
| "expr_equals0 ce (EPrim op t es) = Some (ce_equals0 ce (EPrim op t es))"
| "expr_equals0 ce (EAssign v t op r rhs) = Some (ce_equals0 ce (EAssign v t op r rhs))"
| "expr_equals0 ce _ = Some False"

definition get_field0 :: "string \<Rightarrow> string" where
  "get_field0 value = (case split_string_any value ''{},'' of [] \<Rightarrow> [] | f # fs \<Rightarrow> f)"

definition indirect_level :: "variable \<Rightarrow> ctype \<Rightarrow> int option" where
  "indirect_level v t = do { u \<leftarrow> vtype v; Some (int (get_indirect_level u) - int (get_indirect_level t)) }"

section \<open>Pointees\<close>

fun pointees_of_facts :: "fact list \<Rightarrow> variable \<Rightarrow> variable list option" where
  "pointees_of_facts facts p =
    (case find_related_fact facts (FPointTo p []) of Some (FPointTo v ps) \<Rightarrow> Some ps | _ \<Rightarrow> None)"

text \<open>The pointees of a list of pointers; a missing fact fails the assertion.\<close>

fun merge_pointees_loop :: "variable list \<Rightarrow> fact list \<Rightarrow> variable list \<Rightarrow> variable list option" where
  "merge_pointees_loop [] facts acc = Some acc"
| "merge_pointees_loop (p # ps) facts acc =
    (if is_special_ptr p then merge_pointees_loop ps facts acc
     else do { qs \<leftarrow> pointees_of_facts facts p;
               merge_pointees_loop ps facts (fst (add_variables_to_set acc qs)) })"

definition merge_pointees_of_pointers :: "variable list \<Rightarrow> fact list \<Rightarrow> variable list option" where
  "merge_pointees_of_pointers ps facts = merge_pointees_loop ps facts []"

fun merge_pointees_iter :: "nat \<Rightarrow> variable list \<Rightarrow> fact list \<Rightarrow> variable list option" where
  "merge_pointees_iter 0 tmp facts = Some tmp"
| "merge_pointees_iter (Suc n) tmp facts =
    do { tmp1 \<leftarrow> merge_pointees_of_pointers tmp facts; merge_pointees_iter n tmp1 facts }"

definition merge_pointees_of_pointer :: "variable \<Rightarrow> int \<Rightarrow> fact list \<Rightarrow> variable list option" where
  "merge_pointees_of_pointer ptr indirect facts = merge_pointees_iter (nat indirect) [ptr] facts"

section \<open>Making facts\<close>

definition make_facts :: "variable list \<Rightarrow> variable list \<Rightarrow> fact list" where
  "make_facts vars ps = map (\<lambda>v. FPointTo v ps) (filter (\<lambda>v. vtype v \<noteq> None) vars)"

definition make_union_facts :: "variable list \<Rightarrow> int \<Rightarrow> fact list option" where
  "make_union_facts vars fid = do { assert_that (list_all var_is_union vars); Some (map (\<lambda>v. FUnion v fid) vars) }"

section \<open>Transfer functions\<close>

definition return_fact :: "call_env \<Rightarrow> nat \<Rightarrow> fact \<Rightarrow> fact option" where
  "return_fact ce n f = find_related_fact (ce_facts ce n) f"

text \<open>The facts for a pointer-carrying aggregate: one merged fact for each pointer field of the left
  side, from the matching field of each possible source.\<close>

definition aggregate_transfer :: "cgoptions \<Rightarrow> fact list \<Rightarrow> variable list \<Rightarrow> variable list \<Rightarrow> fact list option" where
  "aggregate_transfer o1 facts lvars vars =
     foldM (\<lambda>v ret. do {
         let ptrs = find_pointer_fields v;
         assert_that (length lvars = length ptrs);
         foldM (\<lambda>(l, p) ret1. do {
             ps \<leftarrow> merge_pointees_of_pointer p 1 facts;
             (ret2, c) \<leftarrow> merge_fact o1 ret1 (FPointTo l ps);
             Some ret2 }) (zip lvars ptrs) ret }) vars []"

fun call_aggregate :: "call_env \<Rightarrow> nat \<Rightarrow> variable list \<Rightarrow> variable list \<Rightarrow> fact list option" where
  "call_aggregate ce n [] ptrs = Some []"
| "call_aggregate ce n (l # ls) [] = None"
| "call_aggregate ce n (l # ls) (p # ptrs) = do {
     f \<leftarrow> return_fact ce n (FPointTo p []);
     ps \<leftarrow> (case f of FPointTo v ps \<Rightarrow> Some ps | _ \<Rightarrow> None);
     fs \<leftarrow> call_aggregate ce n ls ptrs;
     Some (FPointTo l ps # fs) }"

definition constant_transfer :: "call_env \<Rightarrow> variable list \<Rightarrow> ctype \<Rightarrow> string \<Rightarrow> fact list option" where
  "constant_transfer ce lvars t s =
    (if is_pointer t then do {
       z \<leftarrow> expr_equals0 ce (EConst t s);
       Some (make_facts lvars [if z then null_ptr else garbage_ptr]) }
     else do {
       p \<leftarrow> field_var_of (hd lvars);
       Some (make_facts lvars
         [if var_is_union p \<and> get_field_id (hd lvars) = Some 0 \<and> get_field0 s = ''0''
          then null_ptr else garbage_ptr]) })"

definition variable_transfer ::
  "cgoptions \<Rightarrow> printer \<Rightarrow> fact list \<Rightarrow> variable list \<Rightarrow> variable \<Rightarrow> ctype \<Rightarrow> fact list option" where
  "variable_transfer o1 pr facts lvars v t = do {
     indirect \<leftarrow> indirect_level v t;
     c \<leftarrow> get_collective pr v;
     if indirect < 0 then do { assert_that (indirect = -1); Some (make_facts lvars [c]) }
     else if is_aggregate t then do {
       vars \<leftarrow> merge_pointees_of_pointer c indirect facts;
       aggregate_transfer o1 facts lvars vars }
     else do { ps \<leftarrow> merge_pointees_of_pointer c (indirect + 1) facts; Some (make_facts lvars ps) } }"

definition call_transfer :: "call_env \<Rightarrow> variable list \<Rightarrow> nat \<Rightarrow> ctype \<Rightarrow> fact list option" where
  "call_transfer ce lvars n t =
    (if is_aggregate t then call_aggregate ce n lvars (find_pointer_fields (ce_rv ce n))
     else do {
       f \<leftarrow> return_fact ce n (FPointTo (ce_rv ce n) []);
       ps \<leftarrow> (case f of FPointTo v ps \<Rightarrow> Some ps | _ \<Rightarrow> None);
       Some (make_facts lvars ps) })"

fun rhs_to_lhs_transfer ::
  "cgoptions \<Rightarrow> printer \<Rightarrow> call_env \<Rightarrow> fact list \<Rightarrow> variable list \<Rightarrow> expr option \<Rightarrow> fact list option"
  and rhs_transfer ::
  "cgoptions \<Rightarrow> printer \<Rightarrow> call_env \<Rightarrow> fact list \<Rightarrow> variable list \<Rightarrow> expr \<Rightarrow> fact list option" where
  "rhs_to_lhs_transfer o1 pr ce facts lvars rhs =
    (if lvars = [] then Some []
     else do {
       assert_that (list_all var_is_pointer lvars);
       case rhs of None \<Rightarrow> Some (make_facts lvars [garbage_ptr])
       | Some e \<Rightarrow> rhs_transfer o1 pr ce facts lvars e })"
| "rhs_transfer o1 pr ce facts lvars e = do {
     t \<leftarrow> expr_type e;
     if \<not> is_pointer t \<and> \<not> is_union t then do {
       z \<leftarrow> expr_equals0 ce e;
       n \<leftarrow> SizeInBytes t;
       Some (make_facts lvars [if z \<and> n \<noteq> SIZE_UNKNOWN \<and> n \<ge> 8 then null_ptr else garbage_ptr]) }
     else (case e of
         EConst u s \<Rightarrow> constant_transfer ce lvars u s
       | EVar v u \<Rightarrow> variable_transfer o1 pr facts lvars v u
       | ECall n u es \<Rightarrow> call_transfer ce lvars n u
       | EAssign v u op r q \<Rightarrow> rhs_to_lhs_transfer o1 pr ce facts lvars (Some r)
       | EComma a r \<Rightarrow> rhs_to_lhs_transfer o1 pr ce facts lvars (Some r)
       | _ \<Rightarrow> Some []) }"

declare rhs_to_lhs_transfer.simps [simp del] rhs_transfer.simps [simp del]

text \<open>\<open>FactPointTo::abstract_fact_for_assign\<close> for a left-hand side of a variable used at a type.\<close>

definition points_to_assign ::
  "cgoptions \<Rightarrow> printer \<Rightarrow> call_env \<Rightarrow> fact list \<Rightarrow> variable \<Rightarrow> ctype \<Rightarrow> expr option \<Rightarrow> fact list option" where
  "points_to_assign o1 pr ce facts lv lt rhs = do {
     c \<leftarrow> get_collective pr lv;
     i \<leftarrow> indirect_level lv lt;
     lvars \<leftarrow> merge_pointees_of_pointer c i facts;
     if is_pointer lt then rhs_to_lhs_transfer o1 pr ce facts lvars rhs
     else foldM (\<lambda>v ret. do {
         w \<leftarrow> (if is_inside_union_field v then get_container_union v else Some v);
         new_facts \<leftarrow> rhs_to_lhs_transfer o1 pr ce facts (find_pointer_fields w) rhs;
         Some (ret @ new_facts) }) lvars [] }"

section \<open>Transfer of union facts\<close>

fun join_var_facts_loop :: "cgoptions \<Rightarrow> fact list \<Rightarrow> variable list \<Rightarrow> (variable \<times> int) option \<Rightarrow>
    (variable \<times> int) option option" where
  "join_var_facts_loop o1 facts [] fu = Some fu"
| "join_var_facts_loop o1 facts (v # vs1) fu =
    (case find_related_fact facts (FUnion v TOP) of
       Some (FUnion w l) \<Rightarrow>
         (case fu of
            None \<Rightarrow> join_var_facts_loop o1 facts vs1 (Some (w, l))
          | Some (x, k) \<Rightarrow> do {
              (f, c) \<leftarrow> join o1 (FUnion w k) (FUnion w l);
              case f of FUnion y m \<Rightarrow> join_var_facts_loop o1 facts vs1 (Some (y, m)) | _ \<Rightarrow> None })
     | _ \<Rightarrow> join_var_facts_loop o1 facts vs1 fu)"

definition join_var_facts :: "cgoptions \<Rightarrow> fact list \<Rightarrow> variable list \<Rightarrow> (variable \<times> int) option option" where
  "join_var_facts o1 facts vars = join_var_facts_loop o1 facts vars None"

fun union_transfer ::
  "cgoptions \<Rightarrow> printer \<Rightarrow> call_env \<Rightarrow> fact list \<Rightarrow> variable list \<Rightarrow> expr \<Rightarrow> fact list option" where
  "union_transfer o1 pr ce facts lvars (EConst t s) =
     do { assert_that (list_all var_is_union lvars); make_union_facts lvars 0 }"
| "union_transfer o1 pr ce facts lvars (EVar v t) = do {
     assert_that (list_all var_is_union lvars);
     indirect \<leftarrow> indirect_level v t;
     assert_that (indirect \<ge> 0);
     c \<leftarrow> get_collective pr v;
     rvars \<leftarrow> merge_pointees_of_pointer c indirect facts;
     fu \<leftarrow> join_var_facts o1 facts rvars;
     case fu of Some (w, k) \<Rightarrow> make_union_facts lvars k | None \<Rightarrow> Some [] }"
| "union_transfer o1 pr ce facts lvars (ECall n t es) = do {
     assert_that (list_all var_is_union lvars);
     f \<leftarrow> return_fact ce n (FUnion (ce_rv ce n) TOP);
     case f of FUnion w k \<Rightarrow> make_union_facts lvars k | _ \<Rightarrow> None }"
| "union_transfer o1 pr ce facts lvars (EAssign v t op r rhs) =
     do { assert_that (list_all var_is_union lvars); union_transfer o1 pr ce facts lvars r }"
| "union_transfer o1 pr ce facts lvars (EComma a r) =
     do { assert_that (list_all var_is_union lvars); union_transfer o1 pr ce facts lvars r }"
| "union_transfer o1 pr ce facts lvars _ =
     do { assert_that (list_all var_is_union lvars); Some [] }"

text \<open>The fact a write to one variable makes: about the union it is a field of, or about the union
  around it when the write may touch padding.\<close>

definition union_write :: "bool \<Rightarrow> variable \<Rightarrow> fact option option" where
  "union_write uncertain v =
    (case v of
       Fld p j \<Rightarrow>
         if var_is_union p then
           Some (Some (FUnion p (if uncertain then BOTTOM
             else (case get_field_id v of None \<Rightarrow> -1 | Some i \<Rightarrow> int i))))
         else if is_inside_union_field v then do {
           t \<leftarrow> vtype v;
           b \<leftarrow> has_padding t;
           c \<leftarrow> (if b then Some True else is_packed_after_bitfield v);
           if c then do { u \<leftarrow> get_container_union v; Some (Some (FUnion u BOTTOM)) } else Some None }
         else Some None
     | _ \<Rightarrow> Some None)"

definition union_assign ::
  "cgoptions \<Rightarrow> printer \<Rightarrow> call_env \<Rightarrow> fact list \<Rightarrow> variable \<Rightarrow> ctype \<Rightarrow> expr option \<Rightarrow> fact list option" where
  "union_assign o1 pr ce facts lv lt rhs =
    (case rhs of None \<Rightarrow> Some []
     | Some e \<Rightarrow> do {
         c \<leftarrow> get_collective pr lv;
         i \<leftarrow> indirect_level lv lt;
         lvars \<leftarrow> merge_pointees_of_pointer c i facts;
         if is_union lt then union_transfer o1 pr ce facts lvars e
         else do {
           fus \<leftarrow> mapM (union_write (length lvars > 1)) lvars;
           Some (List.map_filter id fus) } })"

section \<open>Updates of the facts of a program point\<close>

definition apply_facts :: "cgoptions \<Rightarrow> fact list \<Rightarrow> fact list \<Rightarrow> fact list option" where
  "apply_facts o1 inputs facts =
    (if length facts = 1 \<and> \<not> isArray (get_var (hd facts)) then Some (fst (renew_fact inputs (hd facts)))
     else map_option fst (merge_facts o1 inputs facts))"

text \<open>\<open>FactMgr::update_fact_for_assign\<close> with the points-to and union meta facts; the flag tells
  whether some fact was drawn.\<close>

definition update_fact_for_assign ::
  "cgoptions \<Rightarrow> printer \<Rightarrow> call_env \<Rightarrow> variable \<Rightarrow> ctype \<Rightarrow> expr option \<Rightarrow> fact list \<Rightarrow> (fact list \<times> bool) option" where
  "update_fact_for_assign o1 pr ce lv lt rhs inputs = do {
     fs \<leftarrow> points_to_assign o1 pr ce inputs lv lt rhs;
     inputs1 \<leftarrow> apply_facts o1 inputs fs;
     gs \<leftarrow> union_assign o1 pr ce inputs1 lv lt rhs;
     inputs2 \<leftarrow> apply_facts o1 inputs1 gs;
     Some (inputs2, fs \<noteq> [] \<or> gs \<noteq> []) }"

section \<open>Stores\<close>

text \<open>A store gives the variable each cell of a pointer variable points to.  The cells of an array, or
  of a field of an array, are its elements, all described by the facts of the collective; any other
  variable has one cell.\<close>

type_synonym store = "variable \<Rightarrow> nat \<Rightarrow> variable"

definition cells :: "variable \<Rightarrow> nat set" where
  "cells v = (if is_array_field v then UNIV else {0})"

definition describes :: "fact list \<Rightarrow> store \<Rightarrow> bool" where
  "describes facts s \<longleftrightarrow> (\<forall>v ps. FPointTo v ps \<in> set facts \<longrightarrow> (\<forall>i \<in> cells v. s v i \<in> set ps))"

definition store_update :: "store \<Rightarrow> variable \<Rightarrow> nat \<Rightarrow> variable \<Rightarrow> store" where
  "store_update s v k w = s(v := (s v)(k := w))"

text \<open>Dereferencing \<open>n\<close> times, starting at the object \<open>v\<close>.\<close>

inductive deref :: "store \<Rightarrow> nat \<Rightarrow> variable \<Rightarrow> variable \<Rightarrow> bool" where
  deref_0: "deref s 0 v v"
| deref_Suc: "\<not> is_special_ptr v \<Longrightarrow> i \<in> cells v \<Longrightarrow> deref s n (s v i) w \<Longrightarrow> deref s (Suc n) v w"

inductive_cases deref_SucE: "deref s (Suc n) v w"
inductive_simps deref_0_iff [simp]: "deref s 0 v w"

text \<open>What a pointer-valued expression points to: null or an arbitrary address for a constant, a
  variable whose address is taken, or the variable read through a chain of pointers.\<close>

inductive points :: "printer \<Rightarrow> store \<Rightarrow> expr \<Rightarrow> variable \<Rightarrow> bool" where
  points_null: "is_pointer t \<Longrightarrow> str2int stream_dec stream_hex z = Some 0 \<Longrightarrow> points pr s (EConst t z) null_ptr"
| points_const: "is_pointer t \<Longrightarrow> str2int stream_dec stream_hex z = Some n \<Longrightarrow> n \<noteq> 0 \<Longrightarrow>
    points pr s (EConst t z) garbage_ptr"
| points_addr: "is_pointer t \<Longrightarrow> indirect_level v t = Some (-1) \<Longrightarrow> get_collective pr v = Some c \<Longrightarrow>
    points pr s (EVar v t) c"
| points_read: "is_pointer t \<Longrightarrow> indirect_level v t = Some (int n) \<Longrightarrow> get_collective pr v = Some c \<Longrightarrow>
    deref s (Suc n) c w \<Longrightarrow> points pr s (EVar v t) w"
| points_comma: "points pr s r w \<Longrightarrow> points pr s (EComma a r) w"
| points_assign: "is_pointer t \<Longrightarrow> points pr s r w \<Longrightarrow> points pr s (EAssign v t op r rhs) w"

section \<open>Soundness of the pointee sets\<close>

lemma pointees_of_facts_member: "pointees_of_facts facts p = Some ps \<Longrightarrow> FPointTo p ps \<in> set facts"
  by (auto split: option.splits fact.splits dest!: find_related_SomeD)

declare pointees_of_facts.simps [simp del]

lemma merge_pointees_loop_spec:
  "merge_pointees_loop ps facts acc = Some r \<Longrightarrow>
     set acc \<subseteq> set r \<and> (distinct acc \<longrightarrow> distinct r) \<and>
     (\<forall>p \<in> set ps. \<not> is_special_ptr p \<longrightarrow> (\<exists>qs. FPointTo p qs \<in> set facts \<and> set qs \<subseteq> set r)) \<and>
     (\<forall>x \<in> set r. x \<in> set acc \<or> (\<exists>p qs. FPointTo p qs \<in> set facts \<and> x \<in> set qs))"
proof (induction ps facts acc arbitrary: r rule: merge_pointees_loop.induct)
  case (2 p ps facts acc)
  show ?case
  proof (cases "is_special_ptr p")
    case True
    then show ?thesis using 2 by auto
  next
    case False
    then obtain qs where qs: "pointees_of_facts facts p = Some qs"
      "merge_pointees_loop ps facts (fst (add_variables_to_set acc qs)) = Some r"
      using "2.prems" by (auto simp: bind_eq_Some_conv)
    have a: "set (fst (add_variables_to_set acc qs)) = set acc \<union> set qs"
      "distinct acc \<longrightarrow> distinct (fst (add_variables_to_set acc qs))"
      using add_variables_spec[OF surjective_pairing] by blast+
    have "FPointTo p qs \<in> set facts" by (rule pointees_of_facts_member[OF qs(1)])
    then show ?thesis using "2.IH"(2)[OF False qs] a by auto
  qed
qed auto

lemma merge_pointees_sound:
  assumes "merge_pointees_of_pointers ps facts = Some r" "describes facts s"
    "v \<in> set ps" "\<not> is_special_ptr v" "i \<in> cells v"
  shows "s v i \<in> set r"
proof -
  obtain qs where "FPointTo v qs \<in> set facts" "set qs \<subseteq> set r"
    using merge_pointees_loop_spec[OF assms(1)[unfolded merge_pointees_of_pointers_def]] assms(3,4) by blast
  then show ?thesis using assms(2,5) by (auto simp: describes_def)
qed

lemma merge_pointees_iter_sound:
  "merge_pointees_iter n ps facts = Some r \<Longrightarrow> describes facts s \<Longrightarrow> v \<in> set ps \<Longrightarrow> deref s n v w \<Longrightarrow> w \<in> set r"
proof (induction n ps facts arbitrary: v rule: merge_pointees_iter.induct)
  case (2 n ps facts)
  then obtain ps1 where ps1: "merge_pointees_of_pointers ps facts = Some ps1"
    "merge_pointees_iter n ps1 facts = Some r" by (auto simp: bind_eq_Some_conv)
  from "2.prems"(4) obtain i where i: "\<not> is_special_ptr v" "i \<in> cells v" "deref s n (s v i) w"
    by (rule deref_SucE)
  have "s v i \<in> set ps1" by (rule merge_pointees_sound[OF ps1(1) "2.prems"(2,3) i(1,2)])
  then show ?case using "2.IH"[OF ps1(1) ps1(2) "2.prems"(2) _ i(3)] by blast
qed auto

lemma merge_pointees_iter_distinct:
  "merge_pointees_iter n ps facts = Some r \<Longrightarrow> distinct ps \<Longrightarrow> distinct r"
proof (induction n ps facts rule: merge_pointees_iter.induct)
  case (2 n ps facts)
  then show ?case
    using merge_pointees_loop_spec by (auto simp: bind_eq_Some_conv merge_pointees_of_pointers_def)
qed simp

lemma merge_pointees_iter_origin:
  "merge_pointees_iter n ps facts = Some r \<Longrightarrow> x \<in> set r \<Longrightarrow>
     x \<in> set ps \<or> (\<exists>p qs. FPointTo p qs \<in> set facts \<and> x \<in> set qs)"
proof (induction n ps facts rule: merge_pointees_iter.induct)
  case (2 n ps facts)
  then obtain ps1 where ps1: "merge_pointees_loop ps facts [] = Some ps1" "merge_pointees_iter n ps1 facts = Some r"
    by (auto simp: bind_eq_Some_conv merge_pointees_of_pointers_def)
  then show ?case
    using 2 merge_pointees_loop_spec[OF ps1(1)] by (fastforce simp: merge_pointees_of_pointers_def)
qed auto

section \<open>Soundness of the transfer\<close>

lemma make_facts_iff: "f \<in> set (make_facts vars ps) \<longleftrightarrow> (\<exists>v \<in> set vars. vtype v \<noteq> None \<and> f = FPointTo v ps)"
  by (auto simp: make_facts_def)

text \<open>The facts drawn from an expression: one for each left-hand variable, all with a set that contains
  what the expression points to.\<close>

lemma points_pointer: "points pr s e w \<Longrightarrow> \<exists>t. expr_type e = Some t \<and> is_pointer t"
  by (induction rule: points.induct) auto

lemma transfer_sound:
  "points pr s e w \<Longrightarrow> describes facts s \<Longrightarrow> rhs_transfer o1 pr ce facts lvars e = Some fs \<Longrightarrow>
     list_all var_is_pointer lvars \<Longrightarrow> lvars \<noteq> [] \<Longrightarrow>
     \<exists>ps. fs = make_facts lvars ps \<and> w \<in> set ps \<and> distinct ps"
proof (induction rule: points.induct)
  case (points_null t z pr s)
  then show ?case by (auto simp: rhs_transfer.simps constant_transfer_def bind_eq_Some_conv)
next
  case (points_const t z n pr s)
  then show ?case by (auto simp: rhs_transfer.simps constant_transfer_def bind_eq_Some_conv)
next
  case (points_addr t v pr c s)
  then have "fs = make_facts lvars [c]"
    by (auto simp: rhs_transfer.simps variable_transfer_def bind_eq_Some_conv)
  then show ?case by auto
next
  case (points_read t v n pr c s w)
  then have na: "\<not> is_aggregate t" by (cases t) (auto simp: is_aggregate_def)
  obtain ps where ps: "merge_pointees_iter (Suc n) [c] facts = Some ps" "fs = make_facts lvars ps"
    using points_read na
    by (auto simp: rhs_transfer.simps variable_transfer_def merge_pointees_of_pointer_def
        bind_eq_Some_conv nat_add_distrib simp del: merge_pointees_iter.simps)
  have "w \<in> set ps" by (rule merge_pointees_iter_sound[OF ps(1) points_read(5) _ points_read(4)]) simp
  moreover have "distinct ps" using merge_pointees_iter_distinct[OF ps(1)] by simp
  ultimately show ?case using ps(2) by blast
next
  case (points_comma pr s r w a)
  obtain t where "expr_type r = Some t" "is_pointer t" using points_pointer[OF points_comma(1)] by blast
  then have "rhs_transfer o1 pr ce facts lvars r = Some fs"
    using points_comma.prems(2-4) by (simp add: rhs_transfer.simps[of _ _ _ _ _ "EComma a r"] rhs_to_lhs_transfer.simps)
  then show ?case using points_comma by blast
next
  case (points_assign t pr s r w v op rhs)
  then have "rhs_transfer o1 pr ce facts lvars r = Some fs"
    by (simp add: rhs_transfer.simps[of _ _ _ _ _ "EAssign v t op r rhs"] rhs_to_lhs_transfer.simps)
  then show ?case using points_assign by blast
qed

section \<open>Soundness of the update\<close>

definition distinct_sets :: "fact list \<Rightarrow> bool" where
  "distinct_sets facts \<longleftrightarrow> (\<forall>v ps. FPointTo v ps \<in> set facts \<longrightarrow> distinct ps)"

text \<open>The key of a fact: its category and its variable.\<close>

definition fkey :: "fact \<Rightarrow> bool \<times> variable" where
  "fkey f = (case f of FPointTo v ps \<Rightarrow> (True, v) | FUnion v k \<Rightarrow> (False, v))"

lemma fkey_simps [simp]: "fkey (FPointTo v ps) = (True, v)" "fkey (FUnion v k) = (False, v)"
  by (simp_all add: fkey_def)

lemma is_related_fkey: "is_related f g \<longleftrightarrow> fkey f = fkey g"
  by (cases f; cases g) auto

lemma keyed_facts_fkey: "keyed_facts facts \<longleftrightarrow> distinct (map fkey facts)"
  by (induction facts) (auto simp: keyed_facts_def is_related_fkey)

lemma join_fkey: "join o1 f g = Some (h, c) \<Longrightarrow> fkey h = fkey f"
  by (cases f; cases g) (auto split: if_splits simp: bind_eq_Some_conv split_beta)

lemma merge_fact_keys:
  "merge_fact o1 fs g = Some (r, c) \<Longrightarrow>
     map fkey r = map fkey fs @ (if fkey g \<in> fkey ` set fs then [] else [fkey g])"
proof (induction fs arbitrary: r c)
  case (Cons f fs)
  then show ?case
    using join_fkey by (auto simp: merge_fact_def is_related_fkey bind_eq_Some_conv split: if_splits)
qed (auto simp: merge_fact_def)

lemma merge_fact_keyed: "merge_fact o1 fs g = Some (r, c) \<Longrightarrow> keyed_facts fs \<Longrightarrow> keyed_facts r"
  using merge_fact_keys[of o1 fs g r c] by (auto simp: keyed_facts_fkey)

lemma pointees_Cons: "pointees_of_facts (f # fs) v =
    (if fkey f = (True, v) then (case f of FPointTo w ps \<Rightarrow> Some ps | _ \<Rightarrow> None) else pointees_of_facts fs v)"
  by (cases f) (auto simp: pointees_of_facts.simps find_related_fact_def)

lemma pointees_Nil [simp]: "pointees_of_facts [] v = None"
  by (simp add: pointees_of_facts.simps find_related_fact_def)

lemma pointees_iff: "keyed_facts facts \<Longrightarrow> pointees_of_facts facts v = Some ps \<longleftrightarrow> FPointTo v ps \<in> set facts"
  by (induction facts) (auto simp: pointees_Cons keyed_facts_fkey fkey_def split: fact.splits intro: rev_image_eqI)

text \<open>What the state knows of a variable: its points-to set, empty when there is no fact.\<close>

definition known_pointees :: "fact list \<Rightarrow> variable \<Rightarrow> variable set" where
  "known_pointees facts v = (case pointees_of_facts facts v of None \<Rightarrow> {} | Some ps \<Rightarrow> set ps)"

lemma merge_points_to:
  "merge_fact o1 fs (FPointTo v ps) = Some (r, c) \<Longrightarrow> distinct ps \<Longrightarrow>
     (\<forall>x. x \<noteq> v \<longrightarrow> pointees_of_facts r x = pointees_of_facts fs x) \<and>
     (\<exists>qs. pointees_of_facts r v = Some qs \<and> set qs = set ps \<union> known_pointees fs v)"
proof (induction fs arbitrary: r c)
  case Nil
  then show ?case by (auto simp: merge_fact_def pointees_Cons known_pointees_def)
next
  case (Cons f fs)
  show ?case
  proof (cases "fkey f = (True, v)")
    case True
    then obtain qs where f: "f = FPointTo v qs" by (cases f) auto
    obtain rs d where j: "join o1 (FPointTo v ps) (FPointTo v qs) = Some (FPointTo v rs, d)"
      "set rs = set ps \<union> set qs" using join_points_to by blast
    have r: "r = (if set ps \<subseteq> set qs then f # fs else FPointTo v rs # fs)"
      using Cons.prems(1) j imply_points_to[OF Cons.prems(2), of o1 v qs]
      by (auto simp: merge_fact_def f simp del: join.simps imply.simps split: if_splits)
    then show ?thesis using j by (auto simp: f pointees_Cons known_pointees_def)
  next
    case False
    then obtain r1 where r1: "merge_fact o1 fs (FPointTo v ps) = Some (r1, c)" "r = f # r1"
      using Cons.prems(1) by (auto simp: merge_fact_def bind_eq_Some_conv is_related_fkey)
    show ?thesis using Cons.IH[OF r1(1) Cons.prems(2)] False
      by (auto simp: r1(2) pointees_Cons known_pointees_def)
  qed
qed

lemma merge_all_points_to:
  "merge_facts o1 fs (make_facts lvs ps) = Some (r, c) \<Longrightarrow> keyed_facts fs \<Longrightarrow> distinct ps \<Longrightarrow>
     keyed_facts r \<and> (\<forall>x. x \<notin> set lvs \<or> vtype x = None \<longrightarrow> pointees_of_facts r x = pointees_of_facts fs x) \<and>
     (\<forall>x \<in> set lvs. vtype x \<noteq> None \<longrightarrow> (\<exists>qs. pointees_of_facts r x = Some qs \<and> set qs = set ps \<union> known_pointees fs x))"
proof (induction lvs arbitrary: fs r c)
  case Nil
  then show ?case by (auto simp: merge_facts_def make_facts_def)
next
  case (Cons v lvs)
  show ?case
  proof (cases "vtype v = None")
    case True
    then have "make_facts (v # lvs) ps = make_facts lvs ps" by (simp add: make_facts_def)
    then show ?thesis using Cons.IH[of fs r c] Cons.prems True by auto
  next
    case False
    then obtain r1 c1 d where r1: "merge_fact o1 fs (FPointTo v ps) = Some (r1, c1)"
      "merge_facts o1 r1 (make_facts lvs ps) = Some (r, d)"
      using Cons.prems(1) by (auto simp: merge_facts_def make_facts_def bind_eq_Some_conv)
    note s = merge_points_to[OF r1(1) Cons.prems(3)]
    note t = Cons.IH[OF r1(2) merge_fact_keyed[OF r1(1) Cons.prems(2)] Cons.prems(3)]
    have kn: "known_pointees r1 v = set ps \<union> known_pointees fs v" using s by (auto simp: known_pointees_def)
    have kx: "known_pointees r1 x = known_pointees fs x" if "x \<noteq> v" for x
      using s that by (simp add: known_pointees_def)
    have "\<exists>qs. pointees_of_facts r v = Some qs \<and> set qs = set ps \<union> known_pointees fs v"
      using s t kn False by (cases "v \<in> set lvs") fastforce+
    moreover have "pointees_of_facts r x = pointees_of_facts fs x" if "x \<notin> set (v # lvs) \<or> vtype x = None" for x
      using that s t False by (cases "x = v") auto
    moreover have "\<exists>qs. pointees_of_facts r x = Some qs \<and> set qs = set ps \<union> known_pointees fs x"
      if "x \<in> set lvs" "vtype x \<noteq> None" "x \<noteq> v" for x
      using that t kx[OF that(3)] by auto
    ultimately show ?thesis using t by auto
  qed
qed

lemma equal_sets_distinct:
  assumes "equal_variable_sets ps qs" "distinct ps"
  shows "set qs = set ps"
proof -
  have e: "length ps = length qs" "set ps \<subseteq> set qs"
    using assms(1) by (auto simp: equal_variable_sets_def list_all_iff split: if_splits)
  then have "card (set qs) \<le> card (set ps)" using card_length[of qs] distinct_card[OF assms(2)] by simp
  then show ?thesis using card_seteq[OF _ e(2)] by simp
qed

lemma renew_points_to:
  "renew_fact fs (FPointTo v ps) = (r, c) \<Longrightarrow> distinct ps \<Longrightarrow>
     map fkey r = map fkey fs @ (if (True, v) \<in> fkey ` set fs then [] else [(True, v)]) \<and>
     (\<forall>x. x \<noteq> v \<longrightarrow> pointees_of_facts r x = pointees_of_facts fs x) \<and>
     (\<exists>qs. pointees_of_facts r v = Some qs \<and> set qs = set ps)"
proof (induction fs arbitrary: r c)
  case (Cons f fs)
  show ?case
  proof (cases "fkey f = (True, v)")
    case True
    then obtain qs where f: "f = FPointTo v qs" by (cases f) auto
    show ?thesis using Cons.prems equal_sets_distinct[of ps qs]
      by (auto simp: f pointees_Cons split: if_splits)
  next
    case False
    obtain r1 c1 where r1: "renew_fact fs (FPointTo v ps) = (r1, c1)" by fastforce
    have r: "r = f # r1" using Cons.prems(1) False r1 by (auto simp: is_related_fkey)
    show ?thesis using Cons.IH[OF r1 Cons.prems(2)] False by (simp add: r pointees_Cons)
  qed
qed (auto simp: pointees_Cons)

text \<open>Facts about unions leave the points-to facts alone.\<close>

lemma merge_union_pointees:
  "merge_fact o1 fs (FUnion u k) = Some (r, c) \<Longrightarrow> pointees_of_facts r x = pointees_of_facts fs x"
proof (induction fs arbitrary: r c)
  case Nil
  then show ?case by (auto simp: merge_fact_def pointees_Cons)
next
  case (Cons f fs)
  have "fkey h = fkey (FUnion u k)" if "join o1 (FUnion u k) f = Some (h, d)" for h d
    using join_fkey[OF that] .
  then show ?case using Cons
    by (auto simp: merge_fact_def is_related_fkey bind_eq_Some_conv pointees_Cons split: if_splits)
qed

lemma renew_union_pointees:
  "renew_fact fs (FUnion u k) = (r, c) \<Longrightarrow> pointees_of_facts r x = pointees_of_facts fs x \<and>
     map fkey r = map fkey fs @ (if (False, u) \<in> fkey ` set fs then [] else [(False, u)])"
proof (induction fs arbitrary: r c)
  case (Cons f fs)
  then show ?case
    by (cases f) (auto simp: pointees_Cons is_related_fkey split: if_splits prod.splits)
qed (auto simp: pointees_Cons)

lemma case_union_Some: "(case f of FPointTo v ps \<Rightarrow> None | FUnion w k \<Rightarrow> h w k) = Some x \<longleftrightarrow>
    (\<exists>w k. f = FUnion w k \<and> h w k = Some x)"
  by (cases f) auto

lemma union_assign_kind:
  "union_assign o1 pr ce facts lv lt rhs = Some gs \<Longrightarrow> \<forall>g \<in> set gs. \<exists>u k. g = FUnion u k"
proof -
  have w: "union_write b v = Some (Some g) \<Longrightarrow> \<exists>u k. g = FUnion u k" for b v g
    by (auto simp: union_write_def bind_eq_Some_conv split: variable.splits if_splits)
  have m: "mapM (union_write b) lvs = Some fus \<Longrightarrow> g \<in> set (List.map_filter id fus) \<Longrightarrow> \<exists>u k. g = FUnion u k"
    for b lvs fus g
  proof (induction lvs arbitrary: fus)
    case (Cons v lvs)
    then show ?case using w by (auto simp: bind_eq_Some_conv List.map_filter_simps split: option.splits)
  qed (auto simp: List.map_filter_simps)
  have mk: "make_union_facts lvs k = Some gs \<Longrightarrow> \<forall>g \<in> set gs. \<exists>u k. g = FUnion u k" for lvs k gs
    by (auto simp: make_union_facts_def bind_eq_Some_conv)
  have t: "union_transfer o1 pr ce facts lvs e = Some gs \<Longrightarrow> \<forall>g \<in> set gs. \<exists>u k. g = FUnion u k" for lvs e gs
    by (induction o1 pr ce facts lvs e rule: union_transfer.induct)
      (use mk in \<open>auto simp: bind_eq_Some_conv case_union_Some split: option.splits\<close>)
  assume "union_assign o1 pr ce facts lv lt rhs = Some gs"
  then show ?thesis
    using t m by (auto simp: union_assign_def bind_eq_Some_conv split: option.splits if_splits)
qed

lemma merge_all_unions:
  "merge_facts o1 fs gs = Some (r, c) \<Longrightarrow> \<forall>g \<in> set gs. \<exists>u k. g = FUnion u k \<Longrightarrow> keyed_facts fs \<Longrightarrow>
     keyed_facts r \<and> pointees_of_facts r x = pointees_of_facts fs x"
proof (induction gs arbitrary: fs r c)
  case (Cons g gs)
  obtain u k where g: "g = FUnion u k" using Cons.prems(2) by auto
  then obtain r1 c1 d where r1: "merge_fact o1 fs (FUnion u k) = Some (r1, c1)" "merge_facts o1 r1 gs = Some (r, d)"
    using Cons.prems(1) by (fastforce simp: merge_facts_def bind_eq_Some_conv)
  show ?case
    using Cons.IH[OF r1(2)] Cons.prems(2,3) merge_union_pointees[OF r1(1)] merge_fact_keyed[OF r1(1)] by auto
qed (simp add: merge_facts_def)

lemma apply_unions:
  assumes "apply_facts o1 fs gs = Some r" "\<forall>g \<in> set gs. \<exists>u k. g = FUnion u k" "keyed_facts fs"
  shows "keyed_facts r \<and> pointees_of_facts r x = pointees_of_facts fs x"
proof (cases "length gs = 1 \<and> \<not> isArray (get_var (hd gs))")
  case True
  then obtain u k where "gs = [FUnion u k]" using assms(2) by (cases gs) auto
  then obtain c where "renew_fact fs (FUnion u k) = (r, c)"
    using assms(1) True by (cases "renew_fact fs (FUnion u k)") (auto simp: apply_facts_def)
  then show ?thesis using renew_union_pointees[of fs u k r c] assms(3) by (auto simp: keyed_facts_fkey)
next
  case False
  then obtain c where "merge_facts o1 fs gs = Some (r, c)" using assms(1) by (auto simp: apply_facts_def)
  then show ?thesis using merge_all_unions[OF _ assms(2,3)] by blast
qed

text \<open>The points-to part of an assignment through pointers.\<close>

lemma describes_pointees:
  "keyed_facts facts \<Longrightarrow>
     describes facts s \<longleftrightarrow> (\<forall>v ps. pointees_of_facts facts v = Some ps \<longrightarrow> (\<forall>i \<in> cells v. s v i \<in> set ps))"
  by (simp add: describes_def pointees_iff)

text \<open>Every pointer that the state can reach has a fact of its own.\<close>

definition closed_facts :: "fact list \<Rightarrow> variable \<Rightarrow> bool" where
  "closed_facts facts c \<longleftrightarrow> (var_is_pointer c \<longrightarrow> pointees_of_facts facts c \<noteq> None) \<and>
     (\<forall>v ps x. FPointTo v ps \<in> set facts \<longrightarrow> x \<in> set ps \<longrightarrow> var_is_pointer x \<longrightarrow> pointees_of_facts facts x \<noteq> None)"

lemma points_to_assign_facts:
  assumes "points_to_assign o1 pr ce facts lv lt (Some e) = Some fs" "is_pointer lt"
    "get_collective pr lv = Some c" "indirect_level lv lt = Some (int i)"
    "deref s i c v" "points pr s e w" "describes facts s" "closed_facts facts c"
  shows "\<exists>lvs ps. fs = make_facts lvs ps \<and> distinct lvs \<and> v \<in> set lvs \<and> w \<in> set ps \<and> distinct ps \<and>
    (\<forall>x \<in> set lvs. vtype x \<noteq> None \<and> pointees_of_facts facts x \<noteq> None)"
proof -
  obtain lvs where l: "merge_pointees_iter i [c] facts = Some lvs"
    "rhs_to_lhs_transfer o1 pr ce facts lvs (Some e) = Some fs"
    using assms(1-4) by (auto simp: points_to_assign_def merge_pointees_of_pointer_def bind_eq_Some_conv
        simp del: merge_pointees_iter.simps)
  have v: "v \<in> set lvs" by (rule merge_pointees_iter_sound[OF l(1) assms(7) _ assms(5)]) simp
  have p: "list_all var_is_pointer lvs" "rhs_transfer o1 pr ce facts lvs e = Some fs" "lvs \<noteq> []"
    using l(2) v by (auto simp: rhs_to_lhs_transfer.simps bind_eq_Some_conv split: if_splits)
  obtain ps where ps: "fs = make_facts lvs ps" "w \<in> set ps" "distinct ps"
    using transfer_sound[OF assms(6,7) p(2,1,3)] by blast
  have "pointees_of_facts facts x \<noteq> None" if "x \<in> set lvs" for x
    using merge_pointees_iter_origin[OF l(1) that] assms(8) p(1) that
    by (auto simp: closed_facts_def list_all_iff)
  moreover have "vtype x \<noteq> None" if "x \<in> set lvs" for x
    using p(1) that by (auto simp: list_all_iff var_is_pointer_def split: option.splits)
  moreover have "distinct lvs" using merge_pointees_iter_distinct[OF l(1)] by simp
  ultimately show ?thesis using ps v by blast
qed

lemma apply_points_to:
  assumes "apply_facts o1 facts (make_facts lvs ps) = Some r" "keyed_facts facts" "describes facts s"
    "distinct lvs" "v \<in> set lvs" "w \<in> set ps" "distinct ps"
    "\<forall>x \<in> set lvs. vtype x \<noteq> None \<and> pointees_of_facts facts x \<noteq> None"
    "is_array_field v \<longrightarrow> isArray v" "k \<in> cells v"
  shows "keyed_facts r \<and> describes r (store_update s v k w)"
proof (cases "length (make_facts lvs ps) = 1 \<and> \<not> isArray (get_var (hd (make_facts lvs ps)))")
  case True
  have mk: "make_facts lvs ps = map (\<lambda>v. FPointTo v ps) lvs"
    using assms(8) by (simp add: make_facts_def filter_id_conv)
  have lvs: "lvs = [v]" using True assms(5) unfolding mk by (cases lvs) auto
  have one: "make_facts lvs ps = [FPointTo v ps]" unfolding mk by (simp add: lvs)
  then have na: "\<not> is_array_field v" "k = 0" using True assms(9,10) by (auto simp: cells_def split: if_splits)
  obtain ch where "renew_fact facts (FPointTo v ps) = (r, ch)"
    using assms(1) True by (cases "renew_fact facts (FPointTo v ps)") (auto simp: apply_facts_def one)
  note rn = renew_points_to[OF this assms(7)]
  have k: "keyed_facts r" using rn assms(2) by (auto simp: keyed_facts_fkey)
  have "\<forall>i \<in> cells x. store_update s v k w x i \<in> set qs" if "pointees_of_facts r x = Some qs" for x qs
  proof (cases "x = v")
    case True
    then show ?thesis using that rn na assms(6) by (auto simp: store_update_def cells_def)
  next
    case False
    then show ?thesis using that rn assms(3) by (auto simp: store_update_def describes_pointees[OF assms(2)])
  qed
  then show ?thesis using k by (simp add: describes_pointees)
next
  case False
  then obtain ch where "merge_facts o1 facts (make_facts lvs ps) = Some (r, ch)"
    using assms(1) by (auto simp: apply_facts_def)
  note m = merge_all_points_to[OF this assms(2,7)]
  have "\<forall>i \<in> cells x. store_update s v k w x i \<in> set qs" if x: "pointees_of_facts r x = Some qs" for x qs
  proof (cases "x \<in> set lvs")
    case True
    then obtain old where old: "pointees_of_facts facts x = Some old" using assms(8) by blast
    then have "set qs = set ps \<union> set old" using m True assms(8) x by (fastforce simp: known_pointees_def)
    then show ?thesis using old assms(3,6) by (auto simp: store_update_def describes_pointees[OF assms(2)])
  next
    case False
    then show ?thesis using x m assms(3,5) by (auto simp: store_update_def describes_pointees[OF assms(2)])
  qed
  then show ?thesis using m by (simp add: describes_pointees)
qed

section \<open>Properties\<close>

text \<open>C1: an assignment keeps the points-to facts true: when every fact of the state describes the store,
  the left-hand side reaches the cell \<open>k\<close> of \<open>v\<close>, the right-hand side points to \<open>w\<close>, and \<open>v\<close> is no field of
  an array of structs, the updated facts describe the store after the write, whether the update was
  strong (one certain target) or weak (a merge).\<close>

theorem update_fact_for_assign_sound:
  assumes "update_fact_for_assign o1 pr ce lv lt (Some e) facts = Some (facts1, changed)" "is_pointer lt"
    "get_collective pr lv = Some c" "indirect_level lv lt = Some (int i)"
    "deref s i c v" "k \<in> cells v" "points pr s e w" "is_array_field v \<longrightarrow> isArray v"
    "describes facts s" "keyed_facts facts" "closed_facts facts c"
  shows "keyed_facts facts1 \<and> describes facts1 (store_update s v k w)"
proof -
  obtain fs r1 gs where 1: "points_to_assign o1 pr ce facts lv lt (Some e) = Some fs"
    "apply_facts o1 facts fs = Some r1" "union_assign o1 pr ce r1 lv lt (Some e) = Some gs"
    "apply_facts o1 r1 gs = Some facts1"
    using assms(1) by (auto simp: update_fact_for_assign_def bind_eq_Some_conv)
  obtain lvs ps where f: "fs = make_facts lvs ps" "distinct lvs" "v \<in> set lvs" "w \<in> set ps" "distinct ps"
    "\<forall>x \<in> set lvs. vtype x \<noteq> None \<and> pointees_of_facts facts x \<noteq> None"
    using points_to_assign_facts[OF 1(1) assms(2-5,7,9,11)] by blast
  have 2: "keyed_facts r1 \<and> describes r1 (store_update s v k w)"
    using apply_points_to[OF 1(2)[unfolded f(1)] assms(10,9) f(2-6) assms(8,6)] .
  have "keyed_facts facts1 \<and> pointees_of_facts facts1 x = pointees_of_facts r1 x" for x
    using apply_unions[OF 1(4) union_assign_kind[OF 1(3)]] 2 by blast
  then show ?thesis using 2 by (metis describes_pointees)
qed

definition int_ptr :: ctype where "int_ptr = TPointer (TSimple eInt)"

definition plain_var :: "nat \<Rightarrow> string \<Rightarrow> ctype \<Rightarrow> cvq \<Rightarrow> variable" where
  "plain_var n name t q = Var \<lparr>vi_id = n, vi_name = name, vi_type = Some t, vi_qfer = q, vi_expanded = False\<rparr> None"

definition ptr_var :: variable where
  "ptr_var = plain_var 20 ''g_20'' int_ptr (cvq_new [False, False] [False, False])"

definition int_var :: variable where
  "int_var = plain_var 21 ''g_21'' (TSimple eInt) (cvq_new [False] [False])"

lemma assign_address:
  "update_fact_for_assign default_options pr ce ptr_var int_ptr (Some (EVar int_var int_ptr))
     [FPointTo ptr_var [null_ptr]] = Some ([FPointTo ptr_var [int_var]], True)"
  by code_simp

lemma update_fact_for_assign_sound_witness:
  "keyed_facts [FPointTo ptr_var [int_var]] \<and>
     describes [FPointTo ptr_var [int_var]] (store_update (\<lambda>v i. null_ptr) ptr_var 0 int_var)"
proof (rule update_fact_for_assign_sound[OF assign_address[of sample_printer], where s = "\<lambda>v i. null_ptr" and v = ptr_var and
      c = ptr_var and i = 0 and k = 0 and w = int_var])
  show "points sample_printer (\<lambda>v i. null_ptr) (EVar int_var int_ptr) int_var"
    by (rule points_addr) code_simp+
  show "0 \<in> cells ptr_var" by (simp add: cells_def)
  show "describes [FPointTo ptr_var [null_ptr]] (\<lambda>v i. null_ptr)" by (simp add: describes_def)
  show "keyed_facts [FPointTo ptr_var [null_ptr]]" by (simp add: keyed_facts_def)
  show "closed_facts [FPointTo ptr_var [null_ptr]] ptr_var"
    by (simp add: closed_facts_def pointees_Cons null_ptr_def special_var_def var_is_pointer_def)
  show "deref (\<lambda>v i. null_ptr) 0 ptr_var ptr_var" by simp
qed code_simp+

text \<open>The strong update is decided by \<open>isArray\<close> of the variable alone.  The pointer field of an array of
  unions is no array, so a write to the field of one element forgets what it points to in the others.\<close>

definition char_ptr :: ctype where "char_ptr = TPointer (TSimple eChar)"

definition ptr_union :: ctype where
  "ptr_union = TAgg False 3 False [TSimple eInt, char_ptr]
     [cvq_new [False] [False], cvq_new [False, False] [False, False]] [-1, -1]"

definition union_array :: variable where
  "union_array = Arr \<lparr>vi_id = 22, vi_name = ''g_22'', vi_type = Some ptr_union,
     vi_qfer = cvq_new [False] [False], vi_expanded = True\<rparr> None [] None None None [2] []"

definition char_var :: variable where
  "char_var = plain_var 23 ''g_23'' (TSimple eChar) (cvq_new [False] [False])"

lemma union_array_forgets:
  "\<exists>facts1. update_fact_for_assign default_options sample_printer ce (Fld union_array 1) char_ptr
       (Some (EVar char_var char_ptr)) [FPointTo (Fld union_array 1) [null_ptr]] = Some (facts1, True) \<and>
     describes [FPointTo (Fld union_array 1) [null_ptr]] (\<lambda>v i. null_ptr) \<and>
     \<not> describes facts1 (store_update (\<lambda>v i. null_ptr) (Fld union_array 1) 0 char_var)"
proof -
  have "update_fact_for_assign default_options sample_printer ce (Fld union_array 1) char_ptr
       (Some (EVar char_var char_ptr)) [FPointTo (Fld union_array 1) [null_ptr]] =
     Some ([FPointTo (Fld union_array 1) [char_var], FUnion union_array 1], True)"
    by code_simp
  moreover have "\<not> describes [FPointTo (Fld union_array 1) [char_var], FUnion union_array 1]
      (store_update (\<lambda>v i. null_ptr) (Fld union_array 1) 0 char_var)"
    by (auto simp: describes_def cells_def store_update_def union_array_def char_var_def plain_var_def null_ptr_def
        special_var_def intro!: exI[of _ "1::nat"])
  ultimately show ?thesis by (simp add: describes_def)
qed

end
