(* ===== verification/FactFlow.thy ===== *)
theory FactFlow
  imports PointsTo "HOL-Library.AList" "HOL-Library.Multiset"
begin

text \<open>
  FactMgr.cpp and the queries of FactPointTo.cpp: how the facts move along the control flow.  The
  end of a scope removes the facts about its variables and turns the pointers to them into garbage
  pointers; a jump does so for the variables its target does not see; a call hands the facts of the
  globals, the parameters and everything they reach over to the callee.  The fact manager of a
  function keeps the facts before and after each of its statements.

  The main property is that the scope-end update keeps the facts true for the store in which the
  pointers to dead variables dangle.
\<close>

section \<open>Queries about a points-to set\<close>

definition has_invisible :: "scope option \<Rightarrow> variable \<Rightarrow> variable list \<Rightarrow> bool" where
  "has_invisible blk v ps =
    (if \<not> is_visible blk v then True
     else list_ex (\<lambda>p. \<not> is_special_ptr p \<and> \<not> is_visible blk p) ps)"

fun point_to_loop :: "printer \<Rightarrow> variable list \<Rightarrow> variable \<Rightarrow> bool option" where
  "point_to_loop pr [] v = Some False"
| "point_to_loop pr (p # ps) v = do {
     a \<leftarrow> loose_match pr v p;
     b \<leftarrow> (if a then Some True else loose_match pr p v);
     if b then Some True else point_to_loop pr ps v }"

fun point_to :: "printer \<Rightarrow> fact \<Rightarrow> variable \<Rightarrow> bool option" where
  "point_to pr (FPointTo w ps) v = point_to_loop pr ps v"
| "point_to pr (FUnion w k) v = None"

definition is_valid_ptr :: "cgoptions \<Rightarrow> variable \<Rightarrow> fact list \<Rightarrow> bool" where
  "is_valid_ptr o1 p facts = (case pointees_of_facts facts p of
      None \<Rightarrow> False
    | Some ps \<Rightarrow> (opt_null_pointer_dereference_prob o1 > 0 \<or> \<not> is_null ps) \<and>
        (opt_dead_pointer_dereference_prob o1 > 0 \<or> \<not> is_dead ps))"

fun is_valid_ptr_name :: "printer \<Rightarrow> string \<Rightarrow> fact list \<Rightarrow> bool" where
  "is_valid_ptr_name pr name [] = True"
| "is_valid_ptr_name pr name (FPointTo v ps # fs) =
    (if vname pr v = name then \<not> is_null ps \<and> \<not> is_dead ps else is_valid_ptr_name pr name fs)"
| "is_valid_ptr_name pr name (FUnion v k # fs) = is_valid_ptr_name pr name fs"

definition is_dangling_ptr :: "cgoptions \<Rightarrow> variable \<Rightarrow> fact list \<Rightarrow> bool" where
  "is_dangling_ptr o1 p facts = (case pointees_of_facts facts p of
      None \<Rightarrow> False | Some ps \<Rightarrow> is_dead ps \<and> opt_dead_pointer_dereference_prob o1 = 0)"

text \<open>\<open>rnd_flipcoin\<close> is asked without a filter; the probabilities are unsigned in the call.\<close>

definition opportunistic_validate ::
  "cgoptions \<Rightarrow> printer \<Rightarrow> variable \<Rightarrow> ctype \<Rightarrow> fact list \<Rightarrow> rng \<Rightarrow> (int \<times> rng) option" where
  "opportunistic_validate o1 pr v t facts s = do {
     vt \<leftarrow> vtype v;
     if get_indirect_level vt \<le> get_indirect_level t then Some (1, s)
     else do {
       c \<leftarrow> get_collective pr v;
       case pointees_of_facts facts c of
         None \<Rightarrow> Some (0, s)
       | Some ps \<Rightarrow> do {
           (r1, s1) \<leftarrow> (if is_null ps then do {
               (b, s1) \<leftarrow> rnd_flipcoin (nat (opt_null_pointer_dereference_prob o1)) None s;
               Some (if b then 2 else 0, s1) } else Some (1, s));
           if r1 = 0 then Some (0, s1)
           else if is_dead ps then do {
             (b, s2) \<leftarrow> rnd_flipcoin (nat (opt_dead_pointer_dereference_prob o1)) None s1;
             Some (if b then 2 else 0, s2) }
           else Some (r1, s1) } } }"

text \<open>Whether some variable reached by dereferencing \<open>p\<close> once, twice, ... is local.\<close>

fun reaches_local :: "scope option \<Rightarrow> variable \<Rightarrow> nat list \<Rightarrow> fact list \<Rightarrow> bool option" where
  "reaches_local blk p [] facts = Some False"
| "reaches_local blk p (j # js) facts = do {
     vars \<leftarrow> merge_pointees_of_pointer p (int j + 1) facts;
     if list_ex (is_visible_local blk) vars then Some True else reaches_local blk p js facts }"

fun any_pointee_local :: "scope option \<Rightarrow> variable list \<Rightarrow> fact list \<Rightarrow> bool option" where
  "any_pointee_local blk [] facts = Some False"
| "any_pointee_local blk (p # ps) facts =
    (if is_visible_local blk p then Some True
     else do {
       b \<leftarrow> (case vtype p of Some t \<Rightarrow> if is_pointer t then reaches_local blk p [0..<get_indirect_level t] facts
               else Some False | None \<Rightarrow> Some False);
       if b then Some True else any_pointee_local blk ps facts })"

definition is_pointing_to_locals ::
  "printer \<Rightarrow> variable \<Rightarrow> scope option \<Rightarrow> int \<Rightarrow> fact list \<Rightarrow> bool option" where
  "is_pointing_to_locals pr v blk indirection facts =
    (if indirection = -1 then Some (is_visible_local blk v)
     else if \<not> var_is_pointer v then Some False
     else do {
       c \<leftarrow> (if isArray v \<or> is_array_field v then get_collective pr v else Some v);
       ps \<leftarrow> (if indirection = 0 then Some (case pointees_of_facts facts c of None \<Rightarrow> [] | Some ps \<Rightarrow> ps)
             else merge_pointees_of_pointer c indirection facts);
       any_pointee_local blk ps facts })"

definition point_to_str :: "printer \<Rightarrow> variable \<Rightarrow> string" where
  "point_to_str pr v =
    (if v = null_ptr then ''0'' else if v = tbd_ptr then ''tbd'' else if v = garbage_ptr then ''garbage''
     else ''&'' @ vname pr v)"

text \<open>The union variables around the variables an expression refers to.\<close>

definition find_union_pointees :: "printer \<Rightarrow> fact list \<Rightarrow> expr \<Rightarrow> variable list option" where
  "find_union_pointees pr facts e = do {
     vars \<leftarrow> (case e of
         EVar v t \<Rightarrow> do { c \<leftarrow> get_collective pr v; i \<leftarrow> indirect_level v t; merge_pointees_of_pointer c i facts }
       | ELhs v t \<Rightarrow> do { c \<leftarrow> get_collective pr v; i \<leftarrow> indirect_level v t; merge_pointees_of_pointer c i facts }
       | _ \<Rightarrow> Some []);
     Some (fold (\<lambda>v unions. case get_container_union v of
         None \<Rightarrow> unions
       | Some u \<Rightarrow> if v \<noteq> u then fst (add_variable_to_set unions u) else unions) vars []) }"

text \<open>The points-to sets of all program points, collected per pointer in two parallel vectors.\<close>

definition update_ptr_aliases :: "fact list \<Rightarrow> variable list \<times> variable list list \<Rightarrow> variable list \<times> variable list list" where
  "update_ptr_aliases facts acc = fold (\<lambda>f (ptrs, aliases). case f of
      FUnion v k \<Rightarrow> (ptrs, aliases)
    | FPointTo v ps \<Rightarrow>
        if vtype v = None then (ptrs, aliases)
        else (case find_variable_in_set ptrs v of
          None \<Rightarrow> (ptrs @ [v], aliases @ [ps])
        | Some pos \<Rightarrow> (ptrs, aliases[pos := fold (\<lambda>p as.
              if find_variable_in_set as p = None then as @ [p] else as) ps (aliases ! pos)]))) facts acc"

section \<open>The end of a scope\<close>

definition mark_dead_var :: "variable \<Rightarrow> variable list \<Rightarrow> variable \<Rightarrow> fact option" where
  "mark_dead_var v ps d =
    (case (case find_variable_in_set ps d of Some i \<Rightarrow> Some i | None \<Rightarrow> find_field_variable_in_set ps d) of
       None \<Rightarrow> None
     | Some pos \<Rightarrow>
         if find_variable_in_set ps garbage_ptr \<noteq> None
         then Some (FPointTo v (take pos ps @ drop (Suc pos) ps))
         else Some (FPointTo v (ps[pos := garbage_ptr])))"

text \<open>The loop of \<open>mark_func_end\<close>: the first variable on the stack becomes the garbage pointer, the others go.\<close>

fun func_end_loop :: "(variable \<Rightarrow> bool) \<Rightarrow> bool \<Rightarrow> variable list \<Rightarrow> variable list \<times> bool" where
  "func_end_loop on_stack has_garbage [] = ([], False)"
| "func_end_loop on_stack has_garbage (p # ps) =
    (if on_stack p then
       if has_garbage then (fst (func_end_loop on_stack True ps), True)
       else (garbage_ptr # fst (func_end_loop on_stack True ps), True)
     else let (qs, c) = func_end_loop on_stack has_garbage ps in (p # qs, c))"

definition mark_func_end :: "scope \<Rightarrow> variable \<Rightarrow> variable list \<Rightarrow> fact option" where
  "mark_func_end sc v ps =
    (let (qs, changed) = func_end_loop (is_var_on_stack sc) (find_variable_in_set ps garbage_ptr \<noteq> None) ps
     in if changed then Some (FPointTo v qs) else None)"

fun mark_with :: "(variable \<Rightarrow> variable list \<Rightarrow> fact option) \<Rightarrow> fact \<Rightarrow> fact" where
  "mark_with m (FPointTo v ps) = (case m v ps of None \<Rightarrow> FPointTo v ps | Some f \<Rightarrow> f)"
| "mark_with m (FUnion v k) = FUnion v k"

definition update_facts_for_oos_vars :: "variable list \<Rightarrow> fact list \<Rightarrow> fact list" where
  "update_facts_for_oos_vars vars facts =
     fold (\<lambda>d. map (mark_with (\<lambda>v ps. mark_dead_var v ps d))) vars
       (fold (\<lambda>d. filter (\<lambda>f. \<not> var_match d (get_var f))) vars facts)"

section \<open>Statements and functions\<close>

datatype stm_type = SAssign | SBlock | SFor | SIfElse | SInvoke | SReturn | SContinue | SBreak | SGoto |
  SCLStatement | SArrayOp

text \<open>A block with its local variables; the parents of a statement from the innermost block outwards; for
  a goto its target's parents.\<close>

record blk =
  b_id :: nat
  b_locals :: "variable list"
  b_looping :: bool

record stm =
  st_id :: nat
  st_type :: stm_type
  st_self :: "blk option"
  st_parents :: "blk list"
  st_dest :: "blk list"

record func =
  f_params :: "variable list"
  f_rv :: variable
  f_blocks :: "blk list"

definition fscope :: "func \<Rightarrow> blk list \<Rightarrow> scope" where
  "fscope f parents = \<lparr>sc_params = f_params f, sc_chain = map (\<lambda>b. (b_id b, b_locals b)) parents\<rparr>"

definition is_var_visible :: "func \<Rightarrow> variable \<Rightarrow> blk list \<Rightarrow> bool" where
  "is_var_visible f v parents \<longleftrightarrow> var_is_global v \<or> is_var_on_stack (fscope f parents) v"

definition is_var_oos :: "func \<Rightarrow> variable \<Rightarrow> blk list \<Rightarrow> bool" where
  "is_var_oos f v parents =
    (if \<not> is_var_visible f v parents
     then list_ex (\<lambda>b. find_variable_in_set (b_locals b) v \<noteq> None) (f_blocks f) else False)"

definition in_block :: "stm \<Rightarrow> blk option \<Rightarrow> bool" where
  "in_block st b = (case b of None \<Rightarrow> False | Some c \<Rightarrow> list_ex (\<lambda>x. b_id x = b_id c) (st_parents st))"

fun infix_of :: "string \<Rightarrow> string \<Rightarrow> bool" where
  "infix_of p [] = (p = [])"
| "infix_of p (c # cs) = (take (length p) (c # cs) = p \<or> infix_of p cs)"

definition is_rv :: "printer \<Rightarrow> variable \<Rightarrow> bool" where
  "is_rv pr v = infix_of ''_rv'' (vname pr v)"

section \<open>Facts along the control flow\<close>

definition remove_function_local_facts :: "printer \<Rightarrow> func \<Rightarrow> blk list \<Rightarrow> fact list \<Rightarrow> fact list" where
  "remove_function_local_facts pr f parents inputs =
    (let sc = fscope f parents in
     map (mark_with (mark_func_end sc))
       (filter (\<lambda>x. \<not> (is_var_on_stack sc (get_var x) \<or>
          (is_rv pr (get_var x) \<and> \<not> var_match (f_rv f) (get_var x)))) inputs))"

definition remove_rv_facts :: "printer \<Rightarrow> func \<Rightarrow> fact list \<Rightarrow> fact list" where
  "remove_rv_facts pr f facts =
     filter (\<lambda>x. \<not> (is_rv pr (get_var x) \<and> \<not> var_match (f_rv f) (get_var x))) facts"

text \<open>The locals of the block and its parents up to the nearest loop; running out of parents
  dereferences a null pointer.\<close>

fun loop_locals :: "blk list \<Rightarrow> variable list option" where
  "loop_locals [] = None"
| "loop_locals (b # bs) =
    (if b_looping b then Some (b_locals b) else map_option ((@) (b_locals b)) (loop_locals bs))"

definition remove_loop_local_facts :: "stm \<Rightarrow> fact list \<Rightarrow> fact list option" where
  "remove_loop_local_facts st facts = do {
     vars \<leftarrow> loop_locals (case (st_type st, st_self st) of (SBlock, Some b) \<Rightarrow> b # st_parents st | _ \<Rightarrow> st_parents st);
     Some (update_facts_for_oos_vars vars facts) }"

text \<open>The variables that are out of scope at the target of a jump, and the facts that arrive there.\<close>

definition oos_vars_loop :: "printer \<Rightarrow> func \<Rightarrow> blk list \<Rightarrow> fact list \<Rightarrow> variable list" where
  "oos_vars_loop pr f dest facts_in = fold (\<lambda>x oos.
     let v = get_var x; add = (\<lambda>v oos. if is_var_oos f v dest \<and> find_variable_in_set oos v = None then oos @ [v] else oos)
     in if is_rv pr v then oos
        else (let oos1 = add v oos in
          case x of FUnion w k \<Rightarrow> oos1
          | FPointTo w ps \<Rightarrow> fold (\<lambda>p oos. if \<not> is_special_ptr p then add p oos else oos) ps oos1)) facts_in []"

definition update_facts_for_dest ::
  "cgoptions \<Rightarrow> printer \<Rightarrow> func \<Rightarrow> blk list \<Rightarrow> fact list \<Rightarrow> fact list \<Rightarrow> fact list option" where
  "update_facts_for_dest o1 pr f dest facts_in facts_out = do {
     out1 \<leftarrow> foldM (\<lambda>x out. if is_rv pr (get_var x) then Some out
                           else map_option fst (merge_fact o1 out x)) facts_in facts_out;
     Some (update_facts_for_oos_vars (oos_vars_loop pr f dest facts_in) out1) }"

text \<open>The facts of a jump are merged into those at its target.\<close>

definition jump_fact :: "fact list \<Rightarrow> fact \<Rightarrow> fact" where
  "jump_fact jump_facts x = (case find_related_fact jump_facts x of
      Some y \<Rightarrow> y
    | None \<Rightarrow> (case x of FPointTo v ps \<Rightarrow> FPointTo v [garbage_ptr] | FUnion v k \<Rightarrow> FUnion v BOTTOM))"

fun merge_jump_loop :: "cgoptions \<Rightarrow> printer \<Rightarrow> nat \<Rightarrow> nat \<Rightarrow> fact list \<Rightarrow> fact list \<Rightarrow> (fact list \<times> bool) option" where
  "merge_jump_loop o1 pr 0 i facts jump_facts = Some (facts, False)"
| "merge_jump_loop o1 pr (Suc n) i facts jump_facts =
    (if i < length facts then
       if \<not> is_rv pr (get_var (facts ! i)) then do {
         (facts1, c) \<leftarrow> merge_fact o1 facts (jump_fact jump_facts (facts ! i));
         (facts2, d) \<leftarrow> merge_jump_loop o1 pr n (Suc i) facts1 jump_facts;
         Some (facts2, c \<or> d) }
       else merge_jump_loop o1 pr n (Suc i) facts jump_facts
     else Some (facts, False))"

definition merge_jump_facts :: "cgoptions \<Rightarrow> printer \<Rightarrow> fact list \<Rightarrow> fact list \<Rightarrow> (fact list \<times> bool) option" where
  "merge_jump_facts o1 pr facts jump_facts = merge_jump_loop o1 pr (length facts) 0 facts jump_facts"

section \<open>Initial facts\<close>

fun var_init :: "variable \<Rightarrow> expr option" where
  "var_init (Var i e) = e"
| "var_init (Arr i e es vec c b ss xs) = e"
| "var_init (Fld p j) = None"

fun more_init_values :: "variable \<Rightarrow> expr list" where
  "more_init_values (Arr i e es vec c b ss xs) = es"
| "more_init_values _ = []"

text \<open>\<open>Fact::abstract_fact_for_var_init\<close>, for the meta fact whose assignment transfer is \<open>assign\<close>.\<close>

definition abstract_fact_for_var_init ::
  "cgoptions \<Rightarrow> (variable \<Rightarrow> ctype \<Rightarrow> expr option \<Rightarrow> fact list option) \<Rightarrow> variable \<Rightarrow> fact list option" where
  "abstract_fact_for_var_init o1 assign v =
    (case vtype v of
       None \<Rightarrow> Some []
     | Some t \<Rightarrow>
         if \<not> is_pointer t \<and> \<not> is_union t then Some []
         else do {
           facts \<leftarrow> assign v t (var_init v);
           foldM (\<lambda>e fs. do { more \<leftarrow> assign v t (Some e); map_option fst (merge_facts o1 fs more) })
             (more_init_values v) facts })"

definition meta_facts ::
  "cgoptions \<Rightarrow> printer \<Rightarrow> call_env \<Rightarrow> (variable \<Rightarrow> ctype \<Rightarrow> expr option \<Rightarrow> fact list option) list" where
  "meta_facts o1 pr ce = [points_to_assign o1 pr ce [], union_assign o1 pr ce []]"

definition add_new_var_fact ::
  "cgoptions \<Rightarrow> printer \<Rightarrow> call_env \<Rightarrow> variable \<Rightarrow> fact list \<Rightarrow> fact list option" where
  "add_new_var_fact o1 pr ce v facts = foldM (\<lambda>assign facts. do {
     tmp \<leftarrow> abstract_fact_for_var_init o1 assign v;
     Some (fold (\<lambda>x facts. if find_related_fact facts x = None then facts @ [x] else facts) tmp facts) })
     (meta_facts o1 pr ce) facts"

definition makeup_new_var_facts ::
  "cgoptions \<Rightarrow> printer \<Rightarrow> call_env \<Rightarrow> fact list \<Rightarrow> fact list \<Rightarrow> fact list option" where
  "makeup_new_var_facts o1 pr ce old_facts new_facts = foldM (\<lambda>x old.
     if (var_is_global (get_var x) \<or> var_is_local pr (get_var x)) \<and> find_related_fact old x = None
     then add_new_var_fact o1 pr ce (get_var x) old else Some old) new_facts old_facts"

section \<open>The fact manager\<close>

type_synonym fact_map = "(stm \<times> fact list) list"

record fact_mgr =
  fm_func :: func
  fm_global :: "fact list"
  fm_in :: fact_map
  fm_out :: fact_map
  fm_in_final :: fact_map
  fm_out_final :: fact_map

definition fm_get :: "fact_map \<Rightarrow> stm \<Rightarrow> fact list" where
  "fm_get m st = (case map_of m st of None \<Rightarrow> [] | Some facts \<Rightarrow> facts)"

definition set_fact_in :: "stm \<Rightarrow> fact list \<Rightarrow> fact_mgr \<Rightarrow> fact_mgr" where
  "set_fact_in st facts fm = fm\<lparr>fm_in := AList.update st facts (fm_in fm)\<rparr>"

definition set_fact_out :: "cgoptions \<Rightarrow> printer \<Rightarrow> stm \<Rightarrow> fact list \<Rightarrow> fact_mgr \<Rightarrow> fact_mgr option" where
  "set_fact_out o1 pr st facts fm = do {
     facts1 \<leftarrow> (if st_type st = SContinue \<or> st_type st = SBreak then remove_loop_local_facts st facts
       else if st_type st = SGoto then update_facts_for_dest o1 pr (fm_func fm) (st_dest st) facts []
       else if st_type st = SReturn \<or> st_parents st = [] then
         Some (remove_function_local_facts pr (fm_func fm) (st_parents st) facts)
       else Some facts);
     Some (fm\<lparr>fm_out := AList.update st facts1 (fm_out fm)\<rparr>) }"

text \<open>The parents of the nearest enclosing loop; the null pointer when there is none.\<close>

fun loop_parents :: "blk list \<Rightarrow> blk list option" where
  "loop_parents [] = None"
| "loop_parents (b # bs) = (if b_looping b then Some bs else loop_parents bs)"

definition keeps_fact_out :: "func \<Rightarrow> stm \<Rightarrow> fact \<Rightarrow> bool option" where
  "keeps_fact_out f st x =
    (let v = get_var x in
     if \<not> is_var_visible f v (st_parents st) then Some False
     else if st_type st = SReturn \<and> \<not> var_is_global v then Some False
     else do {
       b \<leftarrow> (if st_type st = SBreak \<or> st_type st = SContinue
            then do { ps \<leftarrow> loop_parents (st_parents st); Some (is_var_visible f v ps) } else Some True);
       Some (b \<and> (st_type st = SGoto \<longrightarrow> is_var_visible f v (st_dest st))) })"

definition add_fact_out :: "stm \<Rightarrow> fact \<Rightarrow> fact_mgr \<Rightarrow> fact_mgr option" where
  "add_fact_out st x fm = do {
     b \<leftarrow> keeps_fact_out (fm_func fm) st x;
     Some (if b then fm\<lparr>fm_out := AList.update st (fm_get (fm_out fm) st @ [x]) (fm_out fm)\<rparr> else fm) }"

definition add_fact_everywhere :: "blk option \<Rightarrow> fact \<Rightarrow> fact_mgr \<Rightarrow> fact_mgr option" where
  "add_fact_everywhere b x fm =
    (let fm1 = (if find_related_fact (fm_global fm) x = None
                then fm\<lparr>fm_global := fm_global fm @ [x]\<rparr> else fm);
         fm2 = fm1\<lparr>fm_in := map (\<lambda>(st, fs). (st, if in_block st b \<or> b = None then fs @ [x] else fs)) (fm_in fm1)\<rparr>
     in if b = None then Some (fm2\<lparr>fm_out := map (\<lambda>(st, fs). (st, fs @ [x])) (fm_out fm2)\<rparr>)
        else foldM (\<lambda>(st, fs). add_fact_out st x) (fm_out fm2) fm2)"

definition add_new_var_fact_and_update_inout_maps ::
  "cgoptions \<Rightarrow> printer \<Rightarrow> call_env \<Rightarrow> blk option \<Rightarrow> variable \<Rightarrow> fact_mgr \<Rightarrow> fact_mgr option" where
  "add_new_var_fact_and_update_inout_maps o1 pr ce b v fm = do {
     assert_that (b = None \<longrightarrow> var_is_global v);
     foldM (\<lambda>assign fm. do {
       facts \<leftarrow> abstract_fact_for_var_init o1 assign v;
       foldM (add_fact_everywhere b) facts fm }) (meta_facts o1 pr ce) fm }"

definition setup_in_out_maps :: "cgoptions \<Rightarrow> bool \<Rightarrow> fact_mgr \<Rightarrow> fact_mgr option" where
  "setup_in_out_maps o1 first_time fm =
    (if first_time then
       Some (fm\<lparr>fm_in_final := fold (\<lambda>(st, fs). AList.update st fs) (fm_in fm) (fm_in_final fm),
                fm_out_final := fold (\<lambda>(st, fs). AList.update st fs) (fm_out fm) (fm_out_final fm)\<rparr>)
     else do {
       ins \<leftarrow> mapM (\<lambda>(st, fs). map_option (Pair st) (combine_facts o1 fs (fm_get (fm_in fm) st))) (fm_in_final fm);
       outs \<leftarrow> mapM (\<lambda>(st, fs). map_option (Pair st) (combine_facts o1 fs (fm_get (fm_out fm) st))) (fm_out_final fm);
       Some (fm\<lparr>fm_in_final := ins, fm_out_final := outs\<rparr>) })"

definition restore_facts :: "cgoptions \<Rightarrow> printer \<Rightarrow> call_env \<Rightarrow> fact list \<Rightarrow> fact_mgr \<Rightarrow> fact_mgr option" where
  "restore_facts o1 pr ce old_facts fm = do {
     old1 \<leftarrow> makeup_new_var_facts o1 pr ce old_facts (fm_global fm);
     Some (fm\<lparr>fm_global := old1\<rparr>) }"

definition find_updated_facts :: "stm \<Rightarrow> fact_mgr \<Rightarrow> fact list option" where
  "find_updated_facts st fm = foldM (\<lambda>x facts. do {
     prev \<leftarrow> find_related_fact (fm_get (fm_in fm) st) x;
     Some (if \<not> fact_equal x prev then facts @ [x] else facts) }) (fm_get (fm_out fm) st) []"

definition find_updated_final_facts :: "stm \<Rightarrow> fact_mgr \<Rightarrow> fact list option" where
  "find_updated_final_facts st fm = foldM (\<lambda>x facts.
     if var_match (f_rv (fm_func fm)) (get_var x) then Some (facts @ [x])
     else do {
       prev \<leftarrow> find_related_fact (fm_get (fm_in_final fm) st) x;
       Some (if \<not> fact_equal x prev then facts @ [x] else facts) }) (fm_get (fm_out_final fm) st) []"

text \<open>\<open>update_fact_for_return\<close>: the return variable is assigned the returned expression.\<close>

definition update_fact_for_return ::
  "cgoptions \<Rightarrow> printer \<Rightarrow> call_env \<Rightarrow> stm \<Rightarrow> expr \<Rightarrow> fact list \<Rightarrow> fact_mgr \<Rightarrow> (fact list \<times> bool \<times> fact_mgr) option" where
  "update_fact_for_return o1 pr ce st e inputs fm = do {
     rvt \<leftarrow> vtype (f_rv (fm_func fm));
     fs \<leftarrow> points_to_assign o1 pr ce inputs (f_rv (fm_func fm)) rvt (Some e);
     (inputs1, c) \<leftarrow> merge_facts o1 inputs fs;
     gs \<leftarrow> union_assign o1 pr ce inputs1 (f_rv (fm_func fm)) rvt (Some e);
     (inputs2, d) \<leftarrow> merge_facts o1 inputs1 gs;
     fm1 \<leftarrow> set_fact_out o1 pr st inputs2 fm;
     Some (inputs2, c \<or> d, fm1) }"

section \<open>Hand-over to a callee\<close>

definition add_param_facts ::
  "cgoptions \<Rightarrow> printer \<Rightarrow> call_env \<Rightarrow> func \<Rightarrow> expr list \<Rightarrow> fact list \<Rightarrow> fact list option" where
  "add_param_facts o1 pr ce f values facts = do {
     assert_that (length (f_params f) \<le> length values);
     foldM (\<lambda>(v, e) facts. do {
       t \<leftarrow> vtype v;
       (facts1, c) \<leftarrow> update_fact_for_assign o1 pr ce v t (Some e) facts;
       Some facts1 }) (zip (f_params f) values) facts }"

fun reached_by :: "printer \<Rightarrow> fact list \<Rightarrow> fact \<Rightarrow> bool option" where
  "reached_by pr [] x = Some False"
| "reached_by pr (FUnion v k # ks) x = reached_by pr ks x"
| "reached_by pr (FPointTo v ps # ks) x = do {
     b \<leftarrow> point_to_loop pr ps (get_var x);
     if b then Some True else reached_by pr ks x }"

text \<open>One sweep over the remaining facts: the kept facts and those that remain.\<close>

fun hand_sweep :: "printer \<Rightarrow> fact list \<Rightarrow> fact list \<Rightarrow> (fact list \<times> fact list) option" where
  "hand_sweep pr keep [] = Some (keep, [])"
| "hand_sweep pr keep (x # xs) = do {
     b \<leftarrow> reached_by pr keep x;
     if b then hand_sweep pr (keep @ [x]) xs
     else do { (k, r) \<leftarrow> hand_sweep pr keep xs; Some (k, x # r) } }"

lemma hand_sweep_split:
  "hand_sweep pr keep xs = Some (k, r) \<Longrightarrow>
     \<exists>m. k = keep @ m \<and> mset m + mset r = mset xs \<and> (m = [] \<longrightarrow> r = xs) \<and> (m = [] \<longrightarrow> (\<forall>x \<in> set xs. reached_by pr keep x = Some False))"
proof (induction pr keep xs arbitrary: k r rule: hand_sweep.induct)
  case (2 pr keep x xs)
  then obtain b where b: "reached_by pr keep x = Some b" by (auto simp: bind_eq_Some_conv)
  show ?case
  proof (cases b)
    case True
    then have "hand_sweep pr (keep @ [x]) xs = Some (k, r)" using "2.prems" b by simp
    from "2.IH"(1)[OF b True this] show ?thesis by auto
  next
    case False
    then obtain k1 r1 where s: "hand_sweep pr keep xs = Some (k1, r1)" "k = k1" "r = x # r1"
      using "2.prems" b by (auto simp: bind_eq_Some_conv)
    from "2.IH"(2)[OF b False s(1)] show ?thesis using s b False by auto
  qed
qed simp

lemma hand_sweep_shorter:
  assumes "hand_sweep pr keep xs = Some (k, r)" "length keep < length k"
  shows "length r < length xs"
proof -
  obtain m where m: "k = keep @ m" "mset m + mset r = mset xs" using hand_sweep_split[OF assms(1)] by blast
  have "length m + length r = length xs" using arg_cong[OF m(2), of size] by simp
  then show ?thesis using assms(2) m(1) by (cases m) auto
qed

function hand_loop :: "printer \<Rightarrow> fact list \<Rightarrow> fact list \<Rightarrow> fact list option" where
  "hand_loop pr keep inputs = (case hand_sweep pr keep inputs of
      None \<Rightarrow> None
    | Some (k, r) \<Rightarrow> if length k > length keep then hand_loop pr k r else Some k)"
  by pat_completeness auto
termination
  by (relation "measure (\<lambda>(pr, keep, inputs). length inputs)") (auto intro: hand_sweep_shorter)

declare hand_loop.simps [simp del]

definition handover_root :: "func \<Rightarrow> fact \<Rightarrow> bool" where
  "handover_root f x \<longleftrightarrow> var_is_global (get_var x) \<or> find_variable_in_set (f_params f) (get_var x) \<noteq> None"

definition caller_to_callee_handover ::
  "cgoptions \<Rightarrow> printer \<Rightarrow> call_env \<Rightarrow> func \<Rightarrow> expr list \<Rightarrow> fact list \<Rightarrow> fact list option" where
  "caller_to_callee_handover o1 pr ce f values inputs = do {
     inputs1 \<leftarrow> add_param_facts o1 pr ce f values inputs;
     hand_loop pr (filter (handover_root f) inputs1) (filter (\<lambda>x. \<not> handover_root f x) inputs1) }"

section \<open>The end of a scope is sound\<close>

text \<open>Freeing variables turns every pointer into them, or into a part of them, into a dangling one.\<close>

definition free_vars :: "variable list \<Rightarrow> store \<Rightarrow> store" where
  "free_vars vars s v i = (if \<exists>d \<in> set vars. var_match d (s v i) then garbage_ptr else s v i)"

text \<open>A state in which \<open>d\<close> can be marked: at most one pointee of each set lies in \<open>d\<close>, and pointees are
  variables of the program or special.\<close>

definition one_inside :: "fact list \<Rightarrow> variable \<Rightarrow> bool" where
  "one_inside facts d \<longleftrightarrow> (\<forall>v ps. FPointTo v ps \<in> set facts \<longrightarrow> distinct ps \<and> (\<forall>x \<in> set ps. genuine x) \<and>
     (\<forall>x \<in> set ps. \<forall>y \<in> set ps. var_match d x \<longrightarrow> var_match d y \<longrightarrow> x = y))"

definition freeable :: "variable \<Rightarrow> bool" where
  "freeable d \<longleftrightarrow> \<not> is_field_var d \<and> vtype d \<noteq> None"

lemma freeable_special: "freeable d \<Longrightarrow> is_special_ptr x \<Longrightarrow> \<not> var_match d x"
  by (auto simp: freeable_def var_match_iff is_special_ptr_def null_ptr_def garbage_ptr_def tbd_ptr_def special_var_def)

lemma inside_position:
  assumes "freeable d" "\<forall>x \<in> set ps. genuine x"
  shows "(case (case find_variable_in_set ps d of Some i \<Rightarrow> Some i | None \<Rightarrow> find_field_variable_in_set ps d) of
      None \<Rightarrow> (\<forall>x \<in> set ps. \<not> var_match d x)
    | Some i \<Rightarrow> i < length ps \<and> var_match d (ps ! i))"
proof (cases "find_variable_in_set ps d")
  case (Some i)
  then have i: "i < length ps" "var_match (ps ! i) d" using find_variable_SomeD by blast+
  have "ancestors d = [d]" using assms(1) by (cases d) (auto simp: freeable_def is_field_var_def)
  then have "ps ! i = d" using i(2) by (auto simp: var_match_iff)
  then show ?thesis using Some i(1) by (simp add: var_match_iff)
next
  case None
  then have n: "d \<notin> set ps" using var_match_iff find_variable_None by blast
  show ?thesis
  proof (cases "find_field_variable_in_set ps d")
    case None2: None
    have "\<not> var_match d x" if "x \<in> set ps" for x
    proof
      assume "var_match d x"
      then have "x \<in> set (descendants d)"
        using n that assms(2) ancestors_descendants by (auto simp: var_match_iff)
      then show False using find_field_variable_None[OF None2 that] by (auto simp: var_match_iff)
    qed
    then show ?thesis by (simp only: None None2 option.case) blast
  next
    case (Some i)
    then obtain w where w: "i < length ps" "w \<in> set (descendants d)" "var_match (ps ! i) w"
      using find_field_variable_SomeD by blast
    have dw: "d \<in> set (ancestors w)" "w \<noteq> d" using descendants_ancestors[OF w(2)] by blast+
    have a: "ps ! i \<in> set (ancestors w)" using w(3) by (auto simp: var_match_iff)
    have g: "genuine (ps ! i)" "ps ! i \<noteq> d" using assms(2) w(1) n by auto
    have "ancestors d = [d]" using assms(1) by (cases d) (auto simp: freeable_def is_field_var_def)
    then have "d \<in> set (ancestors (ps ! i))" using ancestors_chain[OF dw(1) a] g(2) by auto
    then have "var_match d (ps ! i)" using genuine_match[OF g(1)] by simp
    then show ?thesis using w(1) by (simp only: None Some option.case)
  qed
qed

text \<open>Marking a variable in a set: the pointee inside it is replaced by the garbage pointer.\<close>

lemma mark_dead_var_spec:
  assumes "freeable d" "distinct ps" "\<forall>x \<in> set ps. genuine x"
    "\<forall>x \<in> set ps. \<forall>y \<in> set ps. var_match d x \<longrightarrow> var_match d y \<longrightarrow> x = y"
  shows "\<exists>qs. mark_with (\<lambda>v ps. mark_dead_var v ps d) (FPointTo v ps) = FPointTo v qs \<and> distinct qs \<and>
    set qs = {x \<in> set ps. \<not> var_match d x} \<union> (if \<exists>x \<in> set ps. var_match d x then {garbage_ptr} else {})"
proof -
  define pos where "pos = (case find_variable_in_set ps d of Some i \<Rightarrow> Some i | None \<Rightarrow> find_field_variable_in_set ps d)"
  note p = inside_position[OF assms(1,3), folded pos_def]
  have gb: "find_variable_in_set ps garbage_ptr \<noteq> None \<longleftrightarrow> garbage_ptr \<in> set ps"
    by (auto simp: var_match_iff garbage_ptr_def special_var_def simp del: not_None_eq)
  have ng: "\<not> var_match d garbage_ptr" using freeable_special[OF assms(1)] by (simp add: is_special_ptr_def)
  show ?thesis
  proof (cases pos)
    case None
    then have "\<forall>x \<in> set ps. \<not> var_match d x" using p by simp
    moreover have "mark_dead_var v ps d = None" using None by (simp add: mark_dead_var_def pos_def)
    ultimately show ?thesis using assms(2) by auto
  next
    case (Some i)
    then have i: "i < length ps" "var_match d (ps ! i)" using p by simp_all
    have split: "ps = take i ps @ ps ! i # drop (Suc i) ps" using i(1) by (simp add: id_take_nth_drop)
    define rest where "rest = take i ps @ drop (Suc i) ps"
    have sp: "set ps = insert (ps ! i) (set rest)" by (subst split) (auto simp: rest_def)
    have "distinct (take i ps @ ps ! i # drop (Suc i) ps)" using assms(2) split by metis
    then have dr: "distinct rest" "ps ! i \<notin> set rest" by (auto simp: rest_def)
    have "\<not> var_match d x" if "x \<in> set rest" for x
    proof
      assume "var_match d x"
      then have "x = ps ! i" using assms(4) that i sp by auto
      then show False using that dr(2) by simp
    qed
    then have keep: "{x \<in> set ps. \<not> var_match d x} = set rest" using i(2) by (auto simp: sp)
    have some: "\<exists>x \<in> set ps. var_match d x" using i by auto
    show ?thesis
    proof (cases "garbage_ptr \<in> set ps")
      case True
      then have "mark_dead_var v ps d = Some (FPointTo v rest)"
        using gb Some by (simp add: mark_dead_var_def pos_def rest_def)
      moreover have "garbage_ptr \<in> set rest" using True sp ng i(2) by auto
      ultimately show ?thesis using some keep dr(1) by auto
    next
      case False
      then have "mark_dead_var v ps d = Some (FPointTo v (ps[i := garbage_ptr]))"
        using gb Some by (simp add: mark_dead_var_def pos_def)
      moreover have "ps[i := garbage_ptr] = take i ps @ garbage_ptr # drop (Suc i) ps"
        using i(1) by (simp add: upd_conv_take_nth_drop)
      moreover have "garbage_ptr \<notin> set rest" using False sp by simp
      ultimately show ?thesis using some keep dr(1) by (auto simp: rest_def)
    qed
  qed
qed

lemma mark_all_sound:
  assumes "freeable d" "one_inside facts d" "describes facts s"
  shows "describes (map (mark_with (\<lambda>v ps. mark_dead_var v ps d)) facts) (free_vars [d] s)"
  unfolding describes_def
proof (intro allI impI ballI)
  fix v qs i
  assume q: "FPointTo v qs \<in> set (map (mark_with (\<lambda>v ps. mark_dead_var v ps d)) facts)" and i: "i \<in> cells v"
  then obtain f where f: "f \<in> set facts" "mark_with (\<lambda>v ps. mark_dead_var v ps d) f = FPointTo v qs" by auto
  from f(2) obtain w ps where ps: "f = FPointTo w ps" by (cases f) auto
  have "distinct ps" "\<forall>x \<in> set ps. genuine x" "\<forall>x \<in> set ps. \<forall>y \<in> set ps. var_match d x \<longrightarrow> var_match d y \<longrightarrow> x = y"
    using assms(2) f(1) unfolding one_inside_def ps by blast+
  from mark_dead_var_spec[OF assms(1) this, of w] obtain rs where
    rs: "mark_with (\<lambda>v ps. mark_dead_var v ps d) (FPointTo w ps) = FPointTo w rs"
      "set rs = {x \<in> set ps. \<not> var_match d x} \<union> (if \<exists>x \<in> set ps. var_match d x then {garbage_ptr} else {})" by blast
  then have "w = v" "rs = qs" using f(2) ps by auto
  moreover from this have "s v i \<in> set ps" using assms(3) f(1) ps i by (auto simp: describes_def)
  ultimately show "free_vars [d] s v i \<in> set qs" using rs(2) by (auto simp: free_vars_def)
qed

lemma mark_all_inside:
  assumes "freeable d" "freeable e" "one_inside facts d" "one_inside facts e"
  shows "one_inside (map (mark_with (\<lambda>v ps. mark_dead_var v ps d)) facts) e"
  unfolding one_inside_def
proof (intro allI impI)
  fix v qs
  assume q: "FPointTo v qs \<in> set (map (mark_with (\<lambda>v ps. mark_dead_var v ps d)) facts)"
  then obtain f where f: "f \<in> set facts" "mark_with (\<lambda>v ps. mark_dead_var v ps d) f = FPointTo v qs" by auto
  from f(2) obtain w ps where ps: "f = FPointTo w ps" by (cases f) auto
  have o: "distinct ps" "\<forall>x \<in> set ps. genuine x" "\<forall>x \<in> set ps. \<forall>y \<in> set ps. var_match d x \<longrightarrow> var_match d y \<longrightarrow> x = y"
    "\<forall>x \<in> set ps. \<forall>y \<in> set ps. var_match e x \<longrightarrow> var_match e y \<longrightarrow> x = y"
    using assms(3,4) f(1) unfolding one_inside_def ps by blast+
  from mark_dead_var_spec[OF assms(1) o(1-3), of w] obtain rs where
    rs: "mark_with (\<lambda>v ps. mark_dead_var v ps d) (FPointTo w ps) = FPointTo w rs" "distinct rs"
      "set rs = {x \<in> set ps. \<not> var_match d x} \<union> (if \<exists>x \<in> set ps. var_match d x then {garbage_ptr} else {})" by blast
  then have "rs = qs" using f(2) ps by auto
  then have qs: "distinct qs" "set qs \<subseteq> insert garbage_ptr (set ps)" using rs by auto
  have "\<not> var_match e garbage_ptr" using freeable_special[OF assms(2)] by (simp add: is_special_ptr_def)
  moreover have "genuine garbage_ptr" by (simp add: garbage_ptr_def special_var_def)
  ultimately show "distinct qs \<and> (\<forall>x \<in> set qs. genuine x) \<and>
      (\<forall>x \<in> set qs. \<forall>y \<in> set qs. var_match e x \<longrightarrow> var_match e y \<longrightarrow> x = y)"
    using qs o(2,4) by blast
qed

lemma free_vars_Cons:
  "\<forall>e \<in> set (d # ds). freeable e \<Longrightarrow> free_vars (d # ds) s = free_vars ds (free_vars [d] s)"
  using freeable_special[of _ garbage_ptr] by (intro ext) (auto simp: free_vars_def is_special_ptr_def)

lemma mark_vars_sound:
  "\<forall>d \<in> set vars. freeable d \<and> one_inside facts d \<Longrightarrow> describes facts s \<Longrightarrow>
     describes (fold (\<lambda>d. map (mark_with (\<lambda>v ps. mark_dead_var v ps d))) vars facts) (free_vars vars s)"
proof (induction vars arbitrary: facts s)
  case Nil
  then show ?case by (simp add: free_vars_def)
next
  case (Cons d ds)
  define facts1 where "facts1 = map (mark_with (\<lambda>v ps. mark_dead_var v ps d)) facts"
  have "describes facts1 (free_vars [d] s)" using mark_all_sound Cons.prems by (simp add: facts1_def)
  moreover have "\<forall>e \<in> set ds. freeable e \<and> one_inside facts1 e"
    using mark_all_inside Cons.prems(1) by (simp add: facts1_def)
  ultimately show ?case using Cons.IH free_vars_Cons[of d ds s] Cons.prems(1) by (simp add: facts1_def)
qed

lemma mark_fold_vars:
  "get_var ` set (fold (\<lambda>d. map (mark_with (\<lambda>v ps. mark_dead_var v ps d))) ds fs) = get_var ` set fs"
proof (induction ds arbitrary: fs)
  case (Cons d ds)
  have "get_var (mark_with (\<lambda>v ps. mark_dead_var v ps d) f) = get_var f" for f
    by (cases f) (auto simp: mark_dead_var_def split: option.splits)
  then show ?case by (simp add: Cons.IH image_image)
qed simp

lemma fold_filter: "fold (\<lambda>d. filter (P d)) ds xs = filter (\<lambda>x. \<forall>d \<in> set ds. P d x) xs"
  by (induction ds arbitrary: xs) (auto intro: filter_cong)

section \<open>Properties\<close>

text \<open>C13: the end of a scope keeps the points-to facts true: when the facts describe the store, the
  updated facts describe the store in which every pointer to a freed variable or to a part of one
  dangles, and no fact about a freed variable or a part of one is left.  The update marks only the
  first pointee inside a freed variable, so the property asks that there is at most one.\<close>

theorem update_facts_for_oos_vars_sound:
  assumes "\<forall>d \<in> set vars. freeable d \<and> one_inside facts d" "describes facts s"
  shows "describes (update_facts_for_oos_vars vars facts) (free_vars vars s) \<and>
    (\<forall>f \<in> set (update_facts_for_oos_vars vars facts). \<forall>d \<in> set vars. \<not> var_match d (get_var f))"
proof -
  define live where "live = filter (\<lambda>f. \<forall>d \<in> set vars. \<not> var_match d (get_var f)) facts"
  have upd: "update_facts_for_oos_vars vars facts = fold (\<lambda>d. map (mark_with (\<lambda>v ps. mark_dead_var v ps d))) vars live"
    by (simp add: update_facts_for_oos_vars_def fold_filter live_def)
  have sub: "set live \<subseteq> set facts" by (auto simp: live_def)
  then have "describes live s" using assms(2) by (auto simp: describes_def)
  moreover have "\<forall>d \<in> set vars. freeable d \<and> one_inside live d"
    using assms(1) sub unfolding one_inside_def by blast
  ultimately have "describes (update_facts_for_oos_vars vars facts) (free_vars vars s)"
    using mark_vars_sound upd by simp
  moreover have "\<forall>x \<in> get_var ` set live. \<forall>d \<in> set vars. \<not> var_match d x" by (auto simp: live_def)
  then have "\<forall>x \<in> get_var ` set (update_facts_for_oos_vars vars facts). \<forall>d \<in> set vars. \<not> var_match d x"
    unfolding upd mark_fold_vars .
  ultimately show ?thesis by blast
qed

lemma update_facts_for_oos_vars_sound_witness:
  "describes (update_facts_for_oos_vars [int_var] [FPointTo ptr_var [int_var, null_ptr]])
     (free_vars [int_var] (\<lambda>v i. int_var))"
  by (rule update_facts_for_oos_vars_sound[THEN conjunct1])
    (auto simp: freeable_def is_field_var_def int_var_def plain_var_def one_inside_def null_ptr_def special_var_def
      var_match_def var_is_aggregate_def is_aggregate_def describes_def)

text \<open>With two pointees inside a freed variable the second one survives the end of the scope.\<close>

lemma mark_dead_var_first_only:
  "update_facts_for_oos_vars [sample_var] [FPointTo ptr_var [Fld sample_var 0, Fld sample_var 1]] =
     [FPointTo ptr_var [garbage_ptr, Fld sample_var 1]]"
  by code_simp

text \<open>The facts a callee can get at.\<close>

inductive handed :: "printer \<Rightarrow> func \<Rightarrow> fact list \<Rightarrow> fact \<Rightarrow> bool" for pr f facts where
  handed_root: "x \<in> set facts \<Longrightarrow> handover_root f x \<Longrightarrow> handed pr f facts x"
| handed_step: "handed pr f facts x \<Longrightarrow> y \<in> set facts \<Longrightarrow> point_to pr x (get_var y) = Some True \<Longrightarrow>
    handed pr f facts y"

lemma reached_by_iff:
  "reached_by pr ks x = Some b \<Longrightarrow> b \<longleftrightarrow> (\<exists>g \<in> set ks. point_to pr g (get_var x) = Some True)"
  by (induction pr ks x rule: reached_by.induct) (auto simp: bind_eq_Some_conv split: if_splits)

lemma hand_sweep_handed:
  "hand_sweep pr keep xs = Some (k, r) \<Longrightarrow> \<forall>g \<in> set keep. handed pr f facts g \<Longrightarrow> set xs \<subseteq> set facts \<Longrightarrow>
     \<forall>g \<in> set k. handed pr f facts g"
proof (induction pr keep xs arbitrary: k r rule: hand_sweep.induct)
  case (2 pr keep x xs)
  then obtain b where b: "reached_by pr keep x = Some b" by (auto simp: bind_eq_Some_conv)
  show ?case
  proof (cases b)
    case True
    then obtain g where "g \<in> set keep" "point_to pr g (get_var x) = Some True" using reached_by_iff[OF b] by blast
    then have "handed pr f facts x" using "2.prems" handed_step by fastforce
    then show ?thesis using "2.IH"(1)[OF b True] "2.prems" b True by simp
  next
    case False
    then obtain k1 r1 where "hand_sweep pr keep xs = Some (k1, r1)" "k = k1"
      using "2.prems" b by (auto simp: bind_eq_Some_conv)
    then show ?thesis using "2.IH"(2)[OF b False] "2.prems" by simp
  qed
qed simp

lemma hand_loop_spec:
  "hand_loop pr keep xs = Some k \<Longrightarrow> \<forall>g \<in> set keep. handed pr f facts g \<Longrightarrow> set keep \<union> set xs = set facts \<Longrightarrow>
     {x \<in> set facts. handover_root f x} \<subseteq> set keep \<Longrightarrow>
     set k = {x. handed pr f facts x} \<and> mset k \<subseteq># mset keep + mset xs"
proof (induction pr keep xs rule: hand_loop.induct)
  case (1 pr keep xs)
  obtain k1 r1 where s: "hand_sweep pr keep xs = Some (k1, r1)"
    using "1.prems"(1) by (auto simp: hand_loop.simps[of pr keep xs] split: option.splits)
  obtain m where m: "k1 = keep @ m" "mset m + mset r1 = mset xs"
    "m = [] \<longrightarrow> r1 = xs" "m = [] \<longrightarrow> (\<forall>x \<in> set xs. reached_by pr keep x = Some False)"
    using hand_sweep_split[OF s] by blast
  have h: "\<forall>g \<in> set k1. handed pr f facts g" using hand_sweep_handed[OF s "1.prems"(2)] "1.prems"(3) by blast
  show ?case
  proof (cases "length k1 > length keep")
    case True
    then have "hand_loop pr k1 r1 = Some k" using "1.prems"(1) s by (simp add: hand_loop.simps[of pr keep xs])
    note ih = "1.IH"[OF s refl True this h]
    have "set m \<union> set r1 = set xs" using arg_cong[OF m(2), of set_mset] by simp
    then have "set k1 \<union> set r1 = set facts" "{x \<in> set facts. handover_root f x} \<subseteq> set k1"
      using "1.prems"(3,4) m(1) by auto
    from ih[OF this] show ?thesis by (simp add: m(1) add.assoc flip: m(2))
  next
    case False
    then have e: "m = []" "k = keep" using "1.prems"(1) s m(1) by (auto simp: hand_loop.simps[of pr keep xs])
    have "x \<in> set keep" if "handed pr f facts x" for x
      using that
    proof (induction rule: handed.induct)
      case (handed_step x y)
      then show ?case using m(4) e(1) "1.prems"(3) reached_by_iff by fastforce
    qed (use "1.prems"(4) in auto)
    then show ?thesis using "1.prems"(2) e(2) by auto
  qed
qed

text \<open>C19: the hand-over at a call ends and passes on exactly the facts about globals and parameters and,
  transitively, the facts about everything these may point to, none of them twice.\<close>

theorem caller_to_callee_handover_correct:
  assumes "caller_to_callee_handover o1 pr ce f values inputs = Some facts"
  shows "\<exists>inputs1. add_param_facts o1 pr ce f values inputs = Some inputs1 \<and>
    set facts = {x. handed pr f inputs1 x} \<and> mset facts \<subseteq># mset inputs1"
proof -
  obtain inputs1 where i: "add_param_facts o1 pr ce f values inputs = Some inputs1"
    "hand_loop pr (filter (handover_root f) inputs1) (filter (\<lambda>x. \<not> handover_root f x) inputs1) = Some facts"
    using assms by (auto simp: caller_to_callee_handover_def bind_eq_Some_conv)
  have "set facts = {x. handed pr f inputs1 x} \<and>
      mset facts \<subseteq># mset (filter (handover_root f) inputs1) + mset (filter (\<lambda>x. \<not> handover_root f x) inputs1)"
    by (rule hand_loop_spec[OF i(2)]) (auto intro: handed_root)
  then show ?thesis using i(1) by (simp add: multiset_partition[symmetric])
qed

definition ptr2_var :: variable where
  "ptr2_var = plain_var 24 ''g_24'' (TPointer int_ptr) (cvq_new [False, False, False] [False, False, False])"

definition local_ptr :: "nat \<Rightarrow> string \<Rightarrow> variable" where
  "local_ptr n name = plain_var n name int_ptr (cvq_new [False, False] [False, False])"

definition no_params :: func where
  "no_params = \<lparr>f_params = [], f_rv = plain_var 30 ''func_1_rv'' (TSimple eInt) (cvq_new [False] [False]), f_blocks = []\<rparr>"

definition no_calls :: call_env where
  "no_calls = \<lparr>ce_rv = (\<lambda>n. f_rv no_params), ce_facts = (\<lambda>n. []), ce_equals0 = (\<lambda>e. False)\<rparr>"

lemma caller_to_callee_handover_correct_witness:
  "\<exists>inputs1. add_param_facts default_options sample_printer no_calls no_params []
      [FPointTo (local_ptr 25 ''l_25'') [null_ptr], FPointTo (local_ptr 26 ''l_26'') [int_var],
       FPointTo ptr2_var [local_ptr 26 ''l_26'']] = Some inputs1 \<and>
    set [FPointTo ptr2_var [local_ptr 26 ''l_26''], FPointTo (local_ptr 26 ''l_26'') [int_var]] =
      {x. handed sample_printer no_params inputs1 x} \<and>
    mset [FPointTo ptr2_var [local_ptr 26 ''l_26''], FPointTo (local_ptr 26 ''l_26'') [int_var]] \<subseteq># mset inputs1"
  by (rule caller_to_callee_handover_correct) code_simp

end
