(* ===== verification/Probs.thy ===== *)
theory Probs
  imports Tables Types Variables "HOL-Library.Multiset"
begin

text \<open>
  Probabilities.cpp: the table of all probabilities the generator uses.  A probability is a single one, or a
  member of a group, and a group gives its members either equal chances (0 or 1 each) or the distinct
  upper bounds of consecutive intervals of 0 to 100.  The table is set up from the options, at
  random in the mode \<open>random_random\<close>, and may be changed by a configuration file; it can be written out in
  the syntax of that file.

  Properties: setting up the table always gives a consistent one; a consistent table that is written out
  and read back is the same table; which lines of a configuration file are accepted.
\<close>

section \<open>Names\<close>

datatype single_prob =
    pMoreStructUnionProb | pBitFieldsCreationProb | pBitFieldsSignedProb | pBitFieldInNormalStructProb
   | pScalarFieldInFullBitFieldsProb | pExhaustiveBitFieldsProb | pSafeOpsSignedProb | pSelectDerefPointerProb
   | pRegularVolatileProb | pRegularConstProb | pStricterConstProb | pLooserConstProb | pFieldVolatileProb
   | pFieldConstProb | pStdUnaryFuncProb | pShiftByNonConstantProb | pPointerAsLTypeProb | pStructAsLTypeProb
   | pUnionAsLTypeProb | pNewArrayVariableProb | pAccessOnceVariableProb | pInlineFunctionProb
   | pBuiltinFunctionProb

datatype group_prob =
    pStatementProb | pAssignOpsProb | pUnaryOpsProb | pBinaryOpsProb | pSimpleTypesProb | pSafeOpsSizeProb

datatype statement_prob =
    pAssignProb | pBlockProb | pForProb | pIfElseProb | pInvokeProb | pReturnProb | pContinueProb | pBreakProb
   | pGotoProb | pArrayOpProb | pCLStatementProb

datatype assign_prob =
    pSimpleAssignProb | pMulAssignProb | pDivAssignProb | pRemAssignProb | pAddAssignProb | pSubAssignProb
   | pLShiftAssignProb | pRShiftAssignProb | pBitAndAssignProb | pBitXorAssignProb | pBitOrAssignProb
   | pPreIncrProb | pPreDecrProb | pPostIncrProb | pPostDecrProb

datatype unary_prob =
    pPlusProb | pMinusProb | pNotProb | pBitNotProb

datatype binary_prob =
    pAddProb | pSubProb | pMulProb | pDivProb | pModProb | pCmpGtProb | pCmpLtProb | pCmpGeProb | pCmpLeProb
   | pCmpEqProb | pCmpNeProb | pAndProb | pOrProb | pBitXorProb | pBitAndProb | pBitOrProb | pRShiftProb
   | pLShiftProb

datatype type_prob =
    pVoidProb | pCharProb | pIntProb | pShortProb | pLongProb | pLongLongProb | pUCharProb | pUIntProb
   | pUShortProb | pULongProb | pULongLongProb

datatype size_prob =
    pInt8Prob | pInt16Prob | pInt32Prob | pInt64Prob

text \<open>\<open>enum ProbName\<close>, with the enumerators of each group together, and its order.\<close>

datatype prob_name = PSingle single_prob | PGroup group_prob | PStm statement_prob | PAssign assign_prob
  | PUnary unary_prob | PBinary binary_prob | PType type_prob | PSize size_prob

definition all_singles :: "single_prob list" where
  "all_singles = [
    pMoreStructUnionProb, pBitFieldsCreationProb, pBitFieldsSignedProb, pBitFieldInNormalStructProb,
    pScalarFieldInFullBitFieldsProb, pExhaustiveBitFieldsProb, pSafeOpsSignedProb, pSelectDerefPointerProb,
    pRegularVolatileProb, pRegularConstProb, pStricterConstProb, pLooserConstProb, pFieldVolatileProb,
    pFieldConstProb, pStdUnaryFuncProb, pShiftByNonConstantProb, pPointerAsLTypeProb, pStructAsLTypeProb,
    pUnionAsLTypeProb, pNewArrayVariableProb, pAccessOnceVariableProb, pInlineFunctionProb,
    pBuiltinFunctionProb]"

definition all_stms :: "statement_prob list" where
  "all_stms = [
    pAssignProb, pBlockProb, pForProb, pIfElseProb, pInvokeProb, pReturnProb, pContinueProb, pBreakProb,
    pGotoProb, pArrayOpProb, pCLStatementProb]"

definition all_assigns :: "assign_prob list" where
  "all_assigns = [
    pSimpleAssignProb, pMulAssignProb, pDivAssignProb, pRemAssignProb, pAddAssignProb, pSubAssignProb,
    pLShiftAssignProb, pRShiftAssignProb, pBitAndAssignProb, pBitXorAssignProb, pBitOrAssignProb,
    pPreIncrProb, pPreDecrProb, pPostIncrProb, pPostDecrProb]"

definition all_unaries :: "unary_prob list" where
  "all_unaries = [pPlusProb, pMinusProb, pNotProb, pBitNotProb]"

definition all_binaries :: "binary_prob list" where
  "all_binaries = [
    pAddProb, pSubProb, pMulProb, pDivProb, pModProb, pCmpGtProb, pCmpLtProb, pCmpGeProb, pCmpLeProb,
    pCmpEqProb, pCmpNeProb, pAndProb, pOrProb, pBitXorProb, pBitAndProb, pBitOrProb, pRShiftProb,
    pLShiftProb]"

definition all_types :: "type_prob list" where
  "all_types = [
    pVoidProb, pCharProb, pIntProb, pShortProb, pLongProb, pLongLongProb, pUCharProb, pUIntProb,
    pUShortProb, pULongProb, pULongLongProb]"

definition all_sizes :: "size_prob list" where
  "all_sizes = [pInt8Prob, pInt16Prob, pInt32Prob, pInt64Prob]"

definition all_pnames :: "prob_name list" where
  "all_pnames = map PSingle all_singles @ PGroup pStatementProb # map PStm all_stms @
     PGroup pAssignOpsProb # map PAssign all_assigns @ PGroup pUnaryOpsProb # map PUnary all_unaries @
     PGroup pBinaryOpsProb # map PBinary all_binaries @ PGroup pSimpleTypesProb # map PType all_types @
     PGroup pSafeOpsSizeProb # map PSize all_sizes"

definition pcode :: "prob_name \<Rightarrow> nat" where
  "pcode p = (case find_index ((=) p) all_pnames of None \<Rightarrow> 0 | Some i \<Rightarrow> i)"

section \<open>Elements\<close>

record single_elem =
  se_sname :: string
  se_pname :: prob_name
  se_default :: int
  se_val :: int

text \<open>A group keeps its members in the order of their names, as \<open>std::map\<close> does.\<close>

datatype prob_elem = SingleE single_elem | GroupE bool string "(prob_name \<times> single_elem) list"

text \<open>Whether a value passes \<open>VAL_ASSERT\<close>; the probability of void stays 0, and -1 changes nothing.\<close>

definition val_ok :: "int \<Rightarrow> bool" where
  "val_ok v \<longleftrightarrow> v \<le> 100 \<and> v \<ge> -1"

definition single_set_prob :: "prob_name \<Rightarrow> int \<Rightarrow> single_elem \<Rightarrow> single_elem option" where
  "single_set_prob p v e = do {
     assert_that (p = se_pname e);
     assert_that (val_ok v);
     assert_that (p = PType pVoidProb \<longrightarrow> v = 0);
     Some (if v \<ge> 0 then e\<lparr>se_val := v\<rparr> else e) }"

fun elem_set_prob :: "prob_name \<Rightarrow> int \<Rightarrow> prob_elem \<Rightarrow> prob_elem option" where
  "elem_set_prob p v (SingleE e) = map_option SingleE (single_set_prob p v e)"
| "elem_set_prob p v (GroupE eq sname ps) = do {
     e \<leftarrow> map_of ps p;
     assert_that (val_ok v);
     e1 \<leftarrow> single_set_prob p v e;
     Some (GroupE eq sname (map (\<lambda>(q, x). if q = p then (q, e1) else (q, x)) ps)) }"

fun elem_get_prob :: "prob_name \<Rightarrow> prob_elem \<Rightarrow> int option" where
  "elem_get_prob p (SingleE e) = do { assert_that (p = se_pname e); Some (se_val e) }"
| "elem_get_prob p (GroupE eq sname ps) = do {
     e \<leftarrow> map_of ps p; assert_that (p = se_pname e); Some (se_val e) }"

text \<open>\<open>set_prob_table\<close>: the members with a positive value, keyed by it.\<close>

fun elem_prob_table :: "prob_elem \<Rightarrow> prob_name prob_table \<Rightarrow> prob_name prob_table option" where
  "elem_prob_table (SingleE e) pt = None"
| "elem_prob_table (GroupE eq sname ps) pt = foldM (\<lambda>(p, e) pt. do {
     assert_that (p = se_pname e);
     Some (if se_val e > 0 then add_elem (se_val e) p pt else pt) }) ps pt"

section \<open>Writing\<close>

definition single_text :: "string \<Rightarrow> int \<Rightarrow> string" where
  "single_text sname v = sname @ CHR ''='' # show_int v"

definition group_text :: "bool \<Rightarrow> string \<Rightarrow> string list \<Rightarrow> string option" where
  "group_text eq sname members = do {
     assert_that (members \<noteq> []);
     Some ((if eq then CHR ''('' else CHR ''['') # sname @ CHR '','' # join_with (CHR '','') members @
       [if eq then CHR '')'' else CHR '']'']) }"

fun dump_elem :: "(single_elem \<Rightarrow> int) \<Rightarrow> prob_elem \<Rightarrow> string option" where
  "dump_elem sel (SingleE e) = Some (single_text (se_sname e) (sel e))"
| "dump_elem sel (GroupE eq sname ps) = group_text eq sname (map (\<lambda>(p, e). single_text (se_sname e) (sel e)) ps)"

abbreviation dump_default :: "prob_elem \<Rightarrow> string option" where "dump_default \<equiv> dump_elem se_default"
abbreviation dump_val :: "prob_elem \<Rightarrow> string option" where "dump_val \<equiv> dump_elem se_val"

section \<open>The table\<close>

record probs =
  pr_sname_to_pname :: "string \<rightharpoonup> prob_name"
  pr_pname_to_sname :: "prob_name \<rightharpoonup> string"
  pr_pname_to_type :: "prob_name \<Rightarrow> nat"
  pr_elems :: "prob_name \<rightharpoonup> prob_elem"
  pr_filters :: "prob_name \<Rightarrow> bool"
  pr_extra :: "prob_name \<rightharpoonup> (nat \<Rightarrow> bool) option"

definition empty_probs :: probs where
  "empty_probs = \<lparr>pr_sname_to_pname = Map.empty, pr_pname_to_sname = Map.empty, pr_pname_to_type = (\<lambda>p. 0),
     pr_elems = Map.empty, pr_filters = (\<lambda>p. False), pr_extra = Map.empty\<rparr>"

definition set_single_name :: "string \<Rightarrow> prob_name \<Rightarrow> probs \<Rightarrow> probs" where
  "set_single_name s p P = P\<lparr>pr_sname_to_pname := (pr_sname_to_pname P)(s \<mapsto> p),
     pr_pname_to_sname := (pr_pname_to_sname P)(p \<mapsto> s)\<rparr>"

definition set_typed_name :: "string \<Rightarrow> prob_name \<Rightarrow> nat \<Rightarrow> probs \<Rightarrow> probs" where
  "set_typed_name s p n P = set_single_name s p (P\<lparr>pr_pname_to_type := (pr_pname_to_type P)(p := n)\<rparr>)"

definition single_names :: "(string \<times> prob_name) list" where
  "single_names = [
     (''more_struct_union_type_prob'', PSingle pMoreStructUnionProb),
     (''bitfields_creation_prob'', PSingle pBitFieldsCreationProb),
     (''bitfield_in_normal_struct_prob'', PSingle pBitFieldInNormalStructProb),
     (''scalar_field_in_full_bitfields_struct_prob'', PSingle pScalarFieldInFullBitFieldsProb),
     (''exhaustive_bitfield_prob'', PSingle pExhaustiveBitFieldsProb),
     (''bitfields_signed_prob'', PSingle pBitFieldsSignedProb),
     (''safe_ops_signed_prob'', PSingle pSafeOpsSignedProb),
     (''select_deref_pointer_prob'', PSingle pSelectDerefPointerProb),
     (''regular_volatile_prob'', PSingle pRegularVolatileProb),
     (''regular_const_prob'', PSingle pRegularConstProb),
     (''stricter_const_prob'', PSingle pStricterConstProb),
     (''looser_const_prob'', PSingle pLooserConstProb),
     (''field_volatile_prob'', PSingle pFieldVolatileProb),
     (''field_const_prob'', PSingle pFieldConstProb),
     (''std_unary_func_prob'', PSingle pStdUnaryFuncProb),
     (''shift_by_non_constant_prob'', PSingle pShiftByNonConstantProb),
     (''pointer_as_ltype_prob'', PSingle pPointerAsLTypeProb),
     (''struct_as_ltype_prob'', PSingle pStructAsLTypeProb),
     (''union_as_ltype_prob'', PSingle pUnionAsLTypeProb),
     (''new_array_var_prob'', PSingle pNewArrayVariableProb),
     (''access_once_var_prob'', PSingle pAccessOnceVariableProb),
     (''inline_function_prob'', PSingle pInlineFunctionProb),
     (''builtin_function_prob'', PSingle pBuiltinFunctionProb),
     (''statement_prob'', PGroup pStatementProb),
     (''assign_ops_prob'', PGroup pAssignOpsProb),
     (''assign_unary_ops_prob'', PGroup pUnaryOpsProb),
     (''assign_binary_ops_prob'', PGroup pBinaryOpsProb),
     (''simple_types_prob'', PGroup pSimpleTypesProb),
     (''safe_ops_size_prob'', PGroup pSafeOpsSizeProb)]"

definition set_single_name_maps :: "probs \<Rightarrow> probs" where
  "set_single_name_maps P = fold (\<lambda>(s, p). set_single_name s p) single_names P"

definition get_sname :: "probs \<Rightarrow> prob_name \<Rightarrow> string option" where
  "get_sname P p = pr_pname_to_sname P p"

definition get_pname :: "probs \<Rightarrow> string \<Rightarrow> prob_name option" where
  "get_pname P s = pr_sname_to_pname P s"

section \<open>Setting up\<close>

text \<open>The mode \<open>random_random\<close> never enables what the defaults disable.\<close>

definition random_single :: "int \<Rightarrow> rng \<Rightarrow> (int \<times> rng) option" where
  "random_single v s = (if v = 0 then Some (v, s) else do { (n, s1) \<leftarrow> rnd_upto 101 None None s; Some (int n, s1) })"

definition random_member :: "cgoptions \<Rightarrow> bool \<Rightarrow> int \<Rightarrow> int list \<Rightarrow> rng \<Rightarrow> (int \<times> rng) option" where
  "random_member o1 eq v invalid s =
    (if v = 0 then Some (v, s)
     else if eq then do { (b, s1) \<leftarrow> rnd_flipcoin 50 None s; Some (if b then 1 else 0, s1) }
     else do { (n, s1) \<leftarrow> rnd_upto 101 (Some (vf_pred o1 (new_vector_filter None invalid True))) None s;
               Some (int n, s1) })"

text \<open>The members of a group: the drawn values are excluded for the members after them.\<close>

fun init_members :: "cgoptions \<Rightarrow> bool \<Rightarrow> probs \<Rightarrow> int list \<Rightarrow> (prob_name \<times> int) list \<Rightarrow> rng \<Rightarrow>
    ((prob_name \<times> single_elem) list \<times> prob_name list \<times> rng) option" where
  "init_members o1 eq P invalid [] s = Some ([], [], s)"
| "init_members o1 eq P invalid ((p, d) # ps) s = do {
     assert_that (0 \<le> d \<and> d \<le> 100);
     (v, s1) \<leftarrow> (if opt_random_random o1 then random_member o1 eq d invalid s else Some (d, s));
     assert_that (opt_random_random o1 \<longrightarrow> v \<noteq> 100);
     sname \<leftarrow> get_sname P p;
     let valid = (opt_random_random o1 \<and> v \<noteq> 0);
     (es, valids, s2) \<leftarrow> init_members o1 eq P (if valid then invalid @ [v] else invalid) ps s1;
     Some ((p, \<lparr>se_sname = sname, se_pname = p, se_default = d, se_val = v\<rparr>) # es,
           if valid then p # valids else valids, s2) }"

definition set_member :: "prob_name \<Rightarrow> int \<Rightarrow> (prob_name \<times> single_elem) list \<Rightarrow> (prob_name \<times> single_elem) list" where
  "set_member p v = map (\<lambda>(q, e). if q = p then (q, e\<lparr>se_val := v\<rparr>) else (q, e))"

definition group_initialize :: "cgoptions \<Rightarrow> bool \<Rightarrow> string \<Rightarrow> probs \<Rightarrow> (prob_name \<times> int) list \<Rightarrow> rng \<Rightarrow>
    (prob_elem \<times> rng) option" where
  "group_initialize o1 eq sname P m s = do {
     let pairs = sort_key (pcode \<circ> fst) m;
     (es, valids, s1) \<leftarrow> init_members o1 eq P [100, 0] pairs s;
     if \<not> opt_random_random o1 then Some (GroupE eq sname es, s1)
     else if eq then
       Some (GroupE eq sname (if valids = [] then fold (\<lambda>(p, d). set_member p d) pairs es else es), s1)
     else do {
       assert_that (valids \<noteq> []);
       (i, s2) \<leftarrow> rnd_upto (length valids) None None s1;
       p \<leftarrow> vec_at valids i;
       Some (GroupE eq sname (set_member p 100 es), s2) } }"

definition set_group_prob ::
  "cgoptions \<Rightarrow> bool \<Rightarrow> group_prob \<Rightarrow> (string \<times> prob_name \<times> nat \<times> int) list \<Rightarrow> probs \<times> rng \<Rightarrow> (probs \<times> rng) option" where
  "set_group_prob o1 eq g entries = (\<lambda>(P, s). do {
     let P1 = fold (\<lambda>(sname, p, n, v). set_typed_name sname p n) entries P;
     gname \<leftarrow> get_sname P1 (PGroup g);
     (e, s1) \<leftarrow> group_initialize o1 eq gname P1 (map (\<lambda>(sname, p, n, v). (p, v)) entries) s;
     Some (P1\<lparr>pr_elems := (pr_elems P1)(PGroup g \<mapsto> e)\<rparr>, s1) })"

text \<open>The only extra filter set here is the one of the mode \<open>msp\<close> for binary operators.\<close>

definition set_prob_filter :: "cgoptions \<Rightarrow> (nat \<Rightarrow> bool) \<Rightarrow> group_prob \<Rightarrow> probs \<Rightarrow> probs" where
  "set_prob_filter o1 msp_filter g P =
    (let P1 = P\<lparr>pr_filters := (pr_filters P)(PGroup g := True)\<rparr> in
     if opt_msp o1 \<and> g = pBinaryOpsProb
     then P1\<lparr>pr_extra := (pr_extra P1)(PGroup g \<mapsto> Some msp_filter)\<rparr> else P1)"

definition size_entries :: "cgoptions \<Rightarrow> (string \<times> prob_name \<times> nat \<times> int) list" where
  "size_entries o1 = [
     (''safe_ops_size_int8'', PSize pInt8Prob, 0, of_bool (opt_int8 o1 \<and> opt_uint8 o1)),
     (''safe_ops_size_int16'', PSize pInt16Prob, 1, 1),
     (''safe_ops_size_int32'', PSize pInt32Prob, 2, 1),
     (''safe_ops_size_int64'', PSize pInt64Prob, 3, of_bool (allow_int64 o1))]"

definition type_entries :: "cgoptions \<Rightarrow> (string \<times> prob_name \<times> nat \<times> int) list" where
  "type_entries o1 = [
     (''void_prob'', PType pVoidProb, st_code eVoid, 0),
     (''char_prob'', PType pCharProb, st_code eChar, of_bool (opt_int8 o1)),
     (''int_prob'', PType pIntProb, st_code eInt, 1),
     (''short_prob'', PType pShortProb, st_code eShort, 1),
     (''long_prob'', PType pLongProb, st_code eLong, of_bool (\<not> opt_ccomp o1)),
     (''ulong_prob'', PType pULongProb, st_code eULong, of_bool (\<not> opt_ccomp o1)),
     (''uchar_prob'', PType pUCharProb, st_code eUChar, of_bool (opt_uint8 o1)),
     (''uint_prob'', PType pUIntProb, st_code eUInt, 1),
     (''ushort_prob'', PType pUShortProb, st_code eUShort, 1),
     (''long_long_prob'', PType pLongLongProb, st_code eLongLong, of_bool (allow_int64 o1)),
     (''ulong_long_prob'', PType pULongLongProb, st_code eULongLong, of_bool (allow_int64 o1))]"

definition unary_entries :: "cgoptions \<Rightarrow> (string \<times> prob_name \<times> nat \<times> int) list" where
  "unary_entries o1 = [
     (''unary_plus_prob'', PUnary pPlusProb, 0, of_bool (opt_unary_plus_operator o1)),
     (''unary_minus_prob'', PUnary pMinusProb, 1, 1),
     (''unary_not_prob'', PUnary pNotProb, 2, 1),
     (''unary_bit_not_prob'', PUnary pBitNotProb, 3, 1)]"

definition binary_entries :: "cgoptions \<Rightarrow> (string \<times> prob_name \<times> nat \<times> int) list" where
  "binary_entries o1 = [
     (''binary_add_prob'', PBinary pAddProb, 0, 1),
     (''binary_sub_prob'', PBinary pSubProb, 1, 1),
     (''binary_mul_prob'', PBinary pMulProb, 2, of_bool (opt_muls o1)),
     (''binary_div_prob'', PBinary pDivProb, 3, of_bool (opt_divs o1)),
     (''binary_mod_prob'', PBinary pModProb, 4, 1),
     (''binary_gt_prob'', PBinary pCmpGtProb, 5, 1),
     (''binary_lt_prob'', PBinary pCmpLtProb, 6, 1),
     (''binary_ge_prob'', PBinary pCmpGeProb, 7, 1),
     (''binary_le_prob'', PBinary pCmpLeProb, 8, 1),
     (''binary_eq_prob'', PBinary pCmpEqProb, 9, 1),
     (''binary_ne_prob'', PBinary pCmpNeProb, 10, 1),
     (''binary_and_prob'', PBinary pAndProb, 11, 1),
     (''binary_or_prob'', PBinary pOrProb, 12, 1),
     (''binary_bit_xor_prob'', PBinary pBitXorProb, 13, 1),
     (''binary_bit_and_prob'', PBinary pBitAndProb, 14, 1),
     (''binary_bit_or_prob'', PBinary pBitOrProb, 15, 1),
     (''binary_bit_rshift_prob'', PBinary pRShiftProb, 16, 1),
     (''binary_bit_lshift_prob'', PBinary pLShiftProb, 17, 1)]"

text \<open>Without loops the option \<open>arrays\<close> is switched off, after the single probabilities have used it.\<close>

definition statement_entries :: "cgoptions \<Rightarrow> (string \<times> prob_name \<times> nat \<times> int) list" where
  "statement_entries o1 = [
     (''statement_block_prob'', PStm pBlockProb, 1, 0),
     (''statement_ifelse_prob'', PStm pIfElseProb, 3, 15),
     (''statement_for_prob'', PStm pForProb, 2, if opt_loops o1 then 30 else 0),
     (''statement_return_prob'', PStm pReturnProb, 5, 35),
     (''statement_continue_prob'', PStm pContinueProb, 6, 40),
     (''statement_break_prob'', PStm pBreakProb, 7, 45),
     (''statement_goto_prob'', PStm pGotoProb, 8, if opt_jumps o1 then 50 else 0),
     (''statement_arrayop_prob'', PStm pArrayOpProb, 10,
        if opt_arrays o1 then (if opt_jumps o1 then 60 else 55) else 0),
     (''statement_clstatement_prob'', PStm pCLStatementProb, 9, 5),
     (''statement_assign_prob'', PStm pAssignProb, 0, 100)]"

definition single_defaults :: "cgoptions \<Rightarrow> (single_prob \<times> int) list" where
  "single_defaults o1 = [
     (pMoreStructUnionProb, 50), (pBitFieldsCreationProb, 50), (pBitFieldInNormalStructProb, 10),
     (pScalarFieldInFullBitFieldsProb, 10), (pExhaustiveBitFieldsProb, 10), (pBitFieldsSignedProb, 50),
     (pSafeOpsSignedProb, 50),
     (pRegularVolatileProb, if opt_volatiles o1 then 50 else 0),
     (pRegularConstProb, if opt_consts o1 then 10 else 0),
     (pStricterConstProb, if opt_consts o1 then 50 else 0),
     (pLooserConstProb, if opt_consts o1 then 50 else 0),
     (pFieldVolatileProb, if opt_volatiles o1 \<and> opt_vol_struct_union_fields o1 then 30 else 0),
     (pFieldConstProb, if opt_consts o1 then 20 else 0),
     (pStdUnaryFuncProb, 5), (pShiftByNonConstantProb, 50), (pStructAsLTypeProb, 30), (pUnionAsLTypeProb, 25),
     (pNewArrayVariableProb, if opt_arrays o1 then 20 else 0),
     (pPointerAsLTypeProb, if opt_pointers o1 then 50 else 0),
     (pSelectDerefPointerProb, if opt_pointers o1 then 80 else 0),
     (pAccessOnceVariableProb, 20),
     (pInlineFunctionProb, opt_inline_function_prob o1),
     (pBuiltinFunctionProb, opt_builtin_function_prob o1)]"

fun init_single :: "cgoptions \<Rightarrow> prob_name \<times> int \<Rightarrow> probs \<times> rng \<Rightarrow> (probs \<times> rng) option" where
  "init_single o1 (p, d) (P, s) = do {
     assert_that (0 \<le> d \<and> d \<le> 100);
     (v, s1) \<leftarrow> (if opt_random_random o1 then random_single d s else Some (d, s));
     sname \<leftarrow> get_sname P p;
     Some (P\<lparr>pr_elems := (pr_elems P)(p \<mapsto>
       SingleE \<lparr>se_sname = sname, se_pname = p, se_default = d, se_val = v\<rparr>)\<rparr>, s1) }"

definition initialize_single_probs :: "cgoptions \<Rightarrow> probs \<times> rng \<Rightarrow> (probs \<times> rng) option" where
  "initialize_single_probs o1 =
     foldM (init_single o1) (sort_key (pcode \<circ> fst) (map (\<lambda>(p, d). (PSingle p, d)) (single_defaults o1)))"

definition initialize_group_probs ::
  "cgoptions \<Rightarrow> (nat \<Rightarrow> bool) \<Rightarrow> probs \<times> rng \<Rightarrow> (cgoptions \<times> probs \<times> rng) option" where
  "initialize_group_probs o1 msp_filter Ps = do {
     let o2 = (if opt_loops o1 then o1 else o1\<lparr>opt_arrays := False\<rparr>);
     (P1, s1) \<leftarrow> set_group_prob o2 False pStatementProb (statement_entries o2) Ps;
     (P2, s2) \<leftarrow> set_group_prob o2 True pUnaryOpsProb (unary_entries o2) (P1, s1);
     (P3, s3) \<leftarrow> set_group_prob o2 True pBinaryOpsProb (binary_entries o2)
       (set_prob_filter o2 msp_filter pUnaryOpsProb P2, s2);
     (P4, s4) \<leftarrow> set_group_prob o2 True pSimpleTypesProb (type_entries o2)
       (set_prob_filter o2 msp_filter pBinaryOpsProb P3, s3);
     (P5, s5) \<leftarrow> set_group_prob o2 True pSafeOpsSizeProb (size_entries o2)
       (set_prob_filter o2 msp_filter pSimpleTypesProb P4, s4);
     Some (o2, set_prob_filter o2 msp_filter pSafeOpsSizeProb P5, s5) }"

definition initialize_probs :: "cgoptions \<Rightarrow> (nat \<Rightarrow> bool) \<Rightarrow> rng \<Rightarrow> (cgoptions \<times> probs \<times> rng) option" where
  "initialize_probs o1 msp_filter s = do {
     (P, s1) \<leftarrow> initialize_single_probs o1 (set_single_name_maps empty_probs, s);
     initialize_group_probs o1 msp_filter (P, s1) }"

section \<open>Use\<close>

definition get_prob :: "probs \<Rightarrow> prob_name \<Rightarrow> int option" where
  "get_prob P p = do {
     e \<leftarrow> pr_elems P p;
     v \<leftarrow> elem_get_prob p e;
     assert_that (0 \<le> v \<and> v \<le> 100);
     Some v }"

definition set_prob_table :: "probs \<Rightarrow> prob_name \<Rightarrow> prob_name prob_table \<Rightarrow> prob_name prob_table option" where
  "set_prob_table P p pt = do { e \<leftarrow> pr_elems P p; elem_prob_table e pt }"

text \<open>An unregistered filter leaves a null pointer behind, which is dereferenced.\<close>

definition check_extra_filter :: "probs \<Rightarrow> prob_name \<Rightarrow> nat \<Rightarrow> bool option" where
  "check_extra_filter P p v = (case pr_extra P p of None \<Rightarrow> Some False | Some f \<Rightarrow> map_option (\<lambda>g. g v) f)"

definition register_extra_filter :: "prob_name \<Rightarrow> (nat \<Rightarrow> bool) \<Rightarrow> probs \<Rightarrow> probs" where
  "register_extra_filter p f P = P\<lparr>pr_extra := (pr_extra P)(p \<mapsto> Some f)\<rparr>"

definition unregister_extra_filter :: "prob_name \<Rightarrow> probs \<Rightarrow> probs" where
  "unregister_extra_filter p P = P\<lparr>pr_extra := (pr_extra P)(p \<mapsto> None)\<rparr>"

definition probability_filter :: "probs \<Rightarrow> prob_name \<Rightarrow> nat \<Rightarrow> bool option" where
  "probability_filter P p v = do {
     b \<leftarrow> check_extra_filter P p v;
     if b then Some True
     else (case pr_elems P p of
         Some (GroupE eq sname ps) \<Rightarrow> do {
           assert_that eq;
           Some (case List.find (\<lambda>(q, e). pr_pname_to_type P q = v) ps of
               None \<Rightarrow> False | Some (q, e) \<Rightarrow> se_val e = 0) }
       | _ \<Rightarrow> None) }"

section \<open>Configuration files\<close>

text \<open>A failed assertion is \<open>None\<close>; the message of a rejected line is \<open>Inl\<close>.\<close>

abbreviation (input) parse_int :: "string \<Rightarrow> int option" where
  "parse_int \<equiv> str2int stream_dec stream_hex"

definition parse_single_elem :: "bool \<Rightarrow> probs \<Rightarrow> prob_elem \<Rightarrow> string \<Rightarrow> (int \<times> prob_elem) option" where
  "parse_single_elem eq P e line = do {
     let pairs = split_string line (CHR ''='');
     assert_that (length pairs = 2);
     v \<leftarrow> parse_int (pairs ! 1);
     assert_that (if eq then v = 0 \<or> v = 1 else 0 \<le> v \<and> v \<le> 100);
     p \<leftarrow> get_pname P (pairs ! 0);
     e1 \<leftarrow> elem_set_prob p v e;
     Some (v, e1) }"

fun setup_members :: "bool \<Rightarrow> probs \<Rightarrow> prob_elem \<Rightarrow> int set \<Rightarrow> bool \<Rightarrow> bool \<Rightarrow> string list \<Rightarrow>
    (prob_elem \<times> bool \<times> bool) option" where
  "setup_members eq P e vals all_zero max_ok [] = Some (e, all_zero, max_ok)"
| "setup_members eq P e vals all_zero max_ok (m # ms) = do {
     (v, e1) \<leftarrow> parse_single_elem eq P e m;
     assert_that (eq \<or> \<not> (v > 0 \<and> v \<in> vals));
     setup_members eq P e1 (if eq then vals else insert v vals)
       (if eq then all_zero \<and> v \<noteq> 1 else False) (if eq then True else max_ok \<or> v = 100) ms }"

definition setup_group_probabilities :: "bool \<Rightarrow> probs \<Rightarrow> string list \<Rightarrow> probs option" where
  "setup_group_probabilities eq P elems = do {
     assert_that (length elems > 1);
     p \<leftarrow> get_pname P (elems ! 0);
     e \<leftarrow> pr_elems P p;
     (e1, all_zero, max_ok) \<leftarrow> setup_members eq P e {} True False (tl elems);
     assert_that (\<not> all_zero);
     assert_that max_ok;
     Some (P\<lparr>pr_elems := (pr_elems P)(p \<mapsto> e1)\<rparr>) }"

definition parse_group_probabilities :: "bool \<Rightarrow> probs \<Rightarrow> string \<Rightarrow> (string + probs) option" where
  "parse_group_probabilities eq P line =
    (let s = (if eq then get_substring line (CHR ''('') (CHR '')'') else get_substring line (CHR ''['') (CHR '']''));
         elems = split_string s (CHR '','')
     in if s = [] then Some (Inl ''empty group probabilities!'')
        else if length elems \<le> 1 then Some (Inl ''invalid group probabilities format!'')
        else map_option Inr (setup_group_probabilities eq P elems))"

definition parse_single_probability :: "probs \<Rightarrow> string \<Rightarrow> (string + probs) option" where
  "parse_single_probability P line = do {
     let pairs = split_string line (CHR ''='');
     assert_that (length pairs = 2);
     v \<leftarrow> parse_int (pairs ! 1);
     assert_that (val_ok v);
     p \<leftarrow> get_pname P (pairs ! 0);
     e \<leftarrow> pr_elems P p;
     e1 \<leftarrow> elem_set_prob p v e;
     Some (Inr (P\<lparr>pr_elems := (pr_elems P)(p \<mapsto> e1)\<rparr>)) }"

definition parse_line :: "probs \<Rightarrow> string \<Rightarrow> (string + probs) option" where
  "parse_line P line =
    (let c = first_nonspace_char line in
     if c = CHR 0x00 then None
     else if c = CHR ''#'' then Some (Inr P)
     else if c = CHR ''['' then parse_group_probabilities False P line
     else if c = CHR ''('' then parse_group_probabilities True P line
     else parse_single_probability P line)"

fun parse_lines :: "probs \<Rightarrow> string list \<Rightarrow> (string + probs) option" where
  "parse_lines P [] = Some (Inr P)"
| "parse_lines P (l # ls) =
    (if empty_line l then parse_lines P ls
     else do {
       r \<leftarrow> parse_line P l;
       case r of Inl msg \<Rightarrow> Some (Inl msg) | Inr P1 \<Rightarrow> parse_lines P1 ls })"

text \<open>The lines \<open>getline\<close> returns until the end of the file, the last one possibly empty.\<close>

fun file_lines :: "string \<Rightarrow> string list" where
  "file_lines [] = [[]]"
| "file_lines (c # cs) =
    (if c = CHR 0x0A then [] # file_lines cs
     else (case file_lines cs of [] \<Rightarrow> [[c]] | l # ls \<Rightarrow> (c # l) # ls))"

definition parse_configuration :: "probs \<Rightarrow> string option \<Rightarrow> (string + probs) option" where
  "parse_configuration P conf = (case conf of
      None \<Rightarrow> Some (Inl ''fail to open probabilities configuration file!'')
    | Some text \<Rightarrow> parse_lines P (file_lines text))"

fun dump_elems :: "(single_elem \<Rightarrow> int) \<Rightarrow> probs \<Rightarrow> prob_name list \<Rightarrow> string option" where
  "dump_elems sel P [] = Some []"
| "dump_elems sel P (p # ps) = (case pr_elems P p of
      None \<Rightarrow> dump_elems sel P ps
    | Some e \<Rightarrow> do { t \<leftarrow> dump_elem sel e; ts \<leftarrow> dump_elems sel P ps; Some (t @ CHR 0x0A # CHR 0x0A # ts) })"

definition dump_default_probabilities :: "probs \<Rightarrow> string option" where
  "dump_default_probabilities P = dump_elems se_default P all_pnames"

definition dump_actual_probabilities :: "probs \<Rightarrow> nat \<Rightarrow> string option" where
  "dump_actual_probabilities P seed = do {
     t \<leftarrow> dump_elems se_val P all_pnames;
     Some (''# Seed: '' @ show_nat seed @ CHR 0x0A # CHR 0x0A # t) }"

section \<open>Consistent tables\<close>

text \<open>The names consist of letters and underscores and digits.\<close>

definition name_char :: "char \<Rightarrow> bool" where
  "name_char c \<longleftrightarrow> c = CHR ''_'' \<or> is_digit c \<or> (97 \<le> (of_char c :: nat) \<and> (of_char c :: nat) \<le> 122)"

definition clean :: "string \<Rightarrow> bool" where
  "clean w \<longleftrightarrow> w \<noteq> [] \<and> list_all name_char w"

definition wf_member :: "probs \<Rightarrow> prob_name \<Rightarrow> single_elem \<Rightarrow> bool" where
  "wf_member P p e \<longleftrightarrow> se_pname e = p \<and> get_pname P (se_sname e) = Some p \<and> clean (se_sname e) \<and>
     0 \<le> se_val e \<and> se_val e \<le> 100 \<and> (p = PType pVoidProb \<longrightarrow> se_val e = 0)"

text \<open>The values of a group with equal chances are 0 and 1, with some 1; those of the other groups are
  distinct when they are positive, with some 100.\<close>

definition wf_values :: "bool \<Rightarrow> int list \<Rightarrow> bool" where
  "wf_values eq vals \<longleftrightarrow> (if eq then set vals \<subseteq> {0, 1} \<and> 1 \<in> set vals
     else distinct (filter (\<lambda>v. v > 0) vals) \<and> 100 \<in> set vals)"

fun wf_elem :: "probs \<Rightarrow> prob_name \<Rightarrow> prob_elem \<Rightarrow> bool" where
  "wf_elem P p (SingleE e) = wf_member P p e"
| "wf_elem P p (GroupE eq sname ps) \<longleftrightarrow> get_pname P sname = Some p \<and> clean sname \<and> distinct (map fst ps) \<and> p \<notin> fst ` set ps \<and>
     (\<forall>(q, e) \<in> set ps. wf_member P q e) \<and> wf_values eq (map (\<lambda>m. se_val (snd m)) ps)"

definition wf_probs :: "probs \<Rightarrow> bool" where
  "wf_probs P \<longleftrightarrow> (\<forall>p e. pr_elems P p = Some e \<longrightarrow> wf_elem P p e)"

text \<open>Tables that differ only in values.\<close>

definition blank :: "single_elem \<Rightarrow> single_elem" where
  "blank e = e\<lparr>se_val := 0\<rparr>"

fun shape :: "prob_elem \<Rightarrow> prob_elem" where
  "shape (SingleE e) = SingleE (blank e)"
| "shape (GroupE eq sname ps) = GroupE eq sname (map (\<lambda>(p, e). (p, blank e)) ps)"

definition same_shape :: "probs \<Rightarrow> probs \<Rightarrow> bool" where
  "same_shape P Q \<longleftrightarrow> P\<lparr>pr_elems := pr_elems Q\<rparr> = Q \<and>
     (\<forall>p. map_option shape (pr_elems P p) = map_option shape (pr_elems Q p))"

section \<open>Reading what was written\<close>

lemma name_char_special: "name_char c \<Longrightarrow> \<not> is_space c \<and> c \<notin> set ''=,[]()#''"
  by (auto simp: name_char_def is_space_def is_digit_def)

lemma clean_hd: "clean w \<Longrightarrow> \<not> is_space (hd w) \<and> hd w \<notin> set ''=,[]()#'' \<and> w \<noteq> []"
  by (cases w) (auto simp: clean_def dest: name_char_special)

lemma clean_word: "clean w \<Longrightarrow> c \<in> set ''=,[]()#'' \<Longrightarrow> good_word (\<lambda>x. x = c) w"
  using name_char_special by (fastforce simp: clean_def good_word_def list_all_iff hd_in_set)

lemma first_nonspace_hd: "s \<noteq> [] \<Longrightarrow> \<not> is_space (hd s) \<Longrightarrow> first_nonspace_char s = hd s"
  by (cases s) (simp_all add: first_nonspace_char_def ignore_spaces.simps[of _ 0] str_at_def)

lemma show_int_nat: "0 \<le> v \<Longrightarrow> show_int v = show_nat (nat v)"
  by (simp add: show_int_def)

lemma parse_show: "0 \<le> v \<Longrightarrow> parse_int (show_int v) = Some v"
proof -
  assume v: "0 \<le> v"
  obtain c cs where c: "show_nat (nat v) = c # cs" "is_digit c"
    using show_nat_not_Nil show_nat_digits by (metis list.exhaust list.set_intros(1))
  have "\<not> has_hex_prefix (show_nat (nat v))"
  proof
    assume "has_hex_prefix (show_nat (nat v))"
    then have "CHR ''x'' \<in> set (take 2 (show_nat (nat v)))" by simp
    then have "CHR ''x'' \<in> set (show_nat (nat v))" by (rule in_set_takeD)
    then have "is_digit (CHR ''x'')" by (rule show_nat_digits)
    then show False by (simp add: is_digit_def)
  qed
  moreover have "c \<noteq> CHR ''(''" using c(2) by (auto simp: is_digit_def)
  ultimately show ?thesis using v dec_show_nat[of "nat v"] c(1)
    by (simp add: show_int_nat str2int.simps del: has_hex_prefix.simps)
qed

lemma value_word: "0 \<le> v \<Longrightarrow> c \<in> set ''=,[]()#'' \<Longrightarrow> good_word (\<lambda>x. x = c) (show_int v)"
proof -
  assume a: "0 \<le> v" "c \<in> set ''=,[]()#''"
  have d: "is_digit x \<Longrightarrow> name_char x" for x by (simp add: name_char_def)
  have "clean (show_int v)"
    using show_nat_digits d a(1) by (auto simp: clean_def show_int_nat list_all_iff)
  then show ?thesis using clean_word a(2) by blast
qed

lemma split_pair: "clean w \<Longrightarrow> 0 \<le> v \<Longrightarrow> split_string (single_text w v) (CHR ''='') = [w, show_int v]"
  using pieces_join[of "[w, show_int v]" "\<lambda>x. x = CHR ''=''" "CHR ''=''"] clean_word[of w "CHR ''=''"]
    value_word[of v "CHR ''=''"]
  by (simp add: single_text_def split_string_def split_loop_pieces)

lemma parse_show_all: "parse_int (show_int v) = Some v"
proof (cases "0 \<le> v")
  case False
  let ?d = "show_nat (nat (- v))"
  have s: "show_int v = CHR ''-'' # ?d" using False by (simp add: show_int_def)
  obtain c cs where c: "?d = c # cs" "is_digit c"
    using show_nat_not_Nil show_nat_digits by (metis list.exhaust list.set_intros(1))
  have "c \<noteq> CHR ''-''" using c(2) by (auto simp: is_digit_def)
  then have "int (read_nat (takeWhile is_digit ?d)) = int (nat (- v))"
    using dec_show_nat[of "nat (- v)"] c(1) by (simp add: stream_dec_def)
  then have "stream_dec (show_int v) = v" using False by (simp add: s stream_dec_def)
  then show ?thesis using c(1) by (simp add: s str2int.simps)
qed (rule parse_show)

lemma value_word_all: "c \<in> set ''=,[]()#'' \<Longrightarrow> good_word (\<lambda>x. x = c) (show_int v)"
proof (cases "0 \<le> v")
  case False
  assume c: "c \<in> set ''=,[]()#''"
  have "show_nat (nat (- v)) \<noteq> []" "x \<in> set (show_nat (nat (- v))) \<Longrightarrow> name_char x" for x
    using show_nat_not_Nil show_nat_digits by (auto simp: name_char_def)
  then have "x \<in> set (show_nat (nat (- v))) \<Longrightarrow> \<not> is_space x \<and> x \<noteq> c" for x
    using name_char_special[of x] c by blast
  moreover have "\<not> is_space (CHR ''-'') \<and> CHR ''-'' \<noteq> c" using c by (auto simp: is_space_def)
  ultimately have "\<forall>x \<in> set (show_int v). \<not> is_space x \<and> x \<noteq> c"
    using False by (simp add: show_int_def)
  moreover have "show_int v \<noteq> []" using False by (simp add: show_int_def)
  ultimately show ?thesis by (auto simp: good_word_def hd_in_set)
qed (rule value_word)

lemma split_pair_all: "clean w \<Longrightarrow> split_string (single_text w v) (CHR ''='') = [w, show_int v]"
  using pieces_join[of "[w, show_int v]" "\<lambda>x. x = CHR ''=''" "CHR ''=''"] clean_word[of w "CHR ''=''"]
    value_word_all[of "CHR ''=''" v]
  by (simp add: single_text_def split_string_def split_loop_pieces)

lemma parse_single_text:
  assumes "wf_member P p e" "get_pname Q = get_pname P" "pr_elems Q p = Some (SingleE e0)" "blank e0 = blank e"
  shows "parse_line Q (single_text (se_sname e) (se_val e)) = Some (Inr (Q\<lparr>pr_elems := (pr_elems Q)(p \<mapsto> SingleE e)\<rparr>))"
proof -
  let ?t = "single_text (se_sname e) (se_val e)"
  have w: "clean (se_sname e)" "0 \<le> se_val e" "se_val e \<le> 100" "get_pname Q (se_sname e) = Some p" "se_pname e = p"
    "p = PType pVoidProb \<longrightarrow> se_val e = 0"
    using assms(1,2) by (auto simp: wf_member_def)
  have h: "first_nonspace_char ?t = hd (se_sname e)"
    using clean_hd[OF w(1)] first_nonspace_hd[of ?t] by (auto simp: single_text_def)
  have "e0\<lparr>se_val := se_val e\<rparr> = e" "se_pname e0 = p"
    using assms(4) w(5) by (cases e; cases e0; simp add: blank_def)+
  then have "elem_set_prob p (se_val e) (SingleE e0) = Some (SingleE e)"
    using w by (simp add: single_set_prob_def val_ok_def)
  then have "parse_single_probability Q ?t = Some (Inr (Q\<lparr>pr_elems := (pr_elems Q)(p \<mapsto> SingleE e)\<rparr>))"
    using w assms(3) by (simp add: parse_single_probability_def split_pair parse_show val_ok_def)
  moreover have "hd (se_sname e) \<noteq> CHR 0x00" using w(1) by (cases "se_sname e") (auto simp: clean_def name_char_def is_digit_def)
  ultimately show ?thesis using clean_hd[OF w(1)] by (simp add: parse_line_def h)
qed

text \<open>One member of a group: its value is set, the others stay.\<close>

lemma map_update_id: "p \<notin> fst ` set ps \<Longrightarrow> map (\<lambda>(q, x). if q = p then (q, e1) else (q, x)) ps = ps"
  by (induction ps) auto

lemma parse_member:
  assumes "wf_member P q e" "get_pname Q = get_pname P" "blank e0 = blank e"
    "q \<notin> fst ` set done1" "q \<notin> fst ` set rest" "eq \<longrightarrow> se_val e \<in> {0, 1}"
  shows "parse_single_elem eq Q (GroupE g gname (done1 @ (q, e0) # rest)) (single_text (se_sname e) (se_val e)) =
    Some (se_val e, GroupE g gname ((done1 @ [(q, e)]) @ rest))"
proof -
  have w: "clean (se_sname e)" "0 \<le> se_val e" "se_val e \<le> 100" "get_pname Q (se_sname e) = Some q" "se_pname e = q"
    "q = PType pVoidProb \<longrightarrow> se_val e = 0"
    using assms(1,2) by (auto simp: wf_member_def)
  have e0: "e0\<lparr>se_val := se_val e\<rparr> = e" "se_pname e0 = q"
    using assms(3) w(5) by (cases e; cases e0; simp add: blank_def)+
  have "map_of done1 q = None" using assms(4) by (simp add: map_of_eq_None_iff)
  then have "map_of (done1 @ (q, e0) # rest) q = Some e0" by (simp add: map_add_def)
  then have "elem_set_prob q (se_val e) (GroupE g gname (done1 @ (q, e0) # rest)) =
      Some (GroupE g gname ((done1 @ [(q, e)]) @ rest))"
    using w e0 map_update_id[OF assms(4)] map_update_id[OF assms(5)]
    by (simp add: single_set_prob_def val_ok_def)
  moreover have "elem_set_prob q (se_val e) G = Some G1 \<Longrightarrow>
      parse_single_elem eq Q G (single_text (se_sname e) (se_val e)) = Some (se_val e, G1)" for G G1
    using w assms(6) by (simp add: parse_single_elem_def split_pair parse_show)
  ultimately show ?thesis by blast
qed

definition member_text :: "prob_name \<times> single_elem \<Rightarrow> string" where
  "member_text m = single_text (se_sname (snd m)) (se_val (snd m))"

lemma parse_members:
  "\<forall>(q, e) \<in> set rest. wf_member P q e \<Longrightarrow> get_pname Q = get_pname P \<Longrightarrow>
   map (\<lambda>(q, e). (q, blank e)) rest0 = map (\<lambda>(q, e). (q, blank e)) rest \<Longrightarrow>
   distinct (map fst (done1 @ rest)) \<Longrightarrow> (eq \<longrightarrow> (\<forall>(q, e) \<in> set rest. se_val e \<in> {0, 1})) \<Longrightarrow>
   (\<not> eq \<longrightarrow> distinct (filter (\<lambda>v. v > 0) (map (\<lambda>m. se_val (snd m)) rest)) \<and>
      (\<forall>m \<in> set rest. se_val (snd m) > 0 \<longrightarrow> se_val (snd m) \<notin> vals)) \<Longrightarrow>
   setup_members eq Q (GroupE g gname (done1 @ rest0)) vals az mx (map member_text rest) =
     Some (GroupE g gname (done1 @ rest),
       if rest = [] then az else eq \<and> az \<and> (\<forall>m \<in> set rest. se_val (snd m) \<noteq> 1),
       if rest = [] then mx else eq \<or> mx \<or> (\<exists>m \<in> set rest. se_val (snd m) = 100))"
proof (induction rest arbitrary: rest0 done1 vals az mx)
  case (Cons m rest)
  obtain q e where m: "m = (q, e)" by fastforce
  obtain e0 r0 where r0: "rest0 = (q, e0) # r0" "blank e0 = blank e"
    "map (\<lambda>(q, e). (q, blank e)) r0 = map (\<lambda>(q, e). (q, blank e)) rest"
    using Cons.prems(3) by (cases rest0) (auto simp: m)
  have keys: "map fst r0 = map fst rest"
    using arg_cong[OF r0(3), of "map fst"] by (simp add: comp_def case_prod_unfold)
  have "fst ` set r0 = fst ` set rest" using arg_cong[OF keys, of set] by simp
  then have d: "q \<notin> fst ` set done1" "q \<notin> fst ` set r0" using Cons.prems(4) by (auto simp: m)
  have "parse_single_elem eq Q (GroupE g gname (done1 @ (q, e0) # r0)) (member_text m) =
      Some (se_val e, GroupE g gname ((done1 @ [(q, e)]) @ r0))"
    using parse_member[OF _ Cons.prems(2) r0(2) d] Cons.prems(1,5) by (simp add: member_text_def m)
  moreover have "eq \<or> \<not> (se_val e > 0 \<and> se_val e \<in> vals)" using Cons.prems(6) by (auto simp: m)
  moreover have "setup_members eq Q (GroupE g gname ((done1 @ [(q, e)]) @ r0))
      (if eq then vals else insert (se_val e) vals) (if eq then az \<and> se_val e \<noteq> 1 else False)
      (if eq then True else mx \<or> se_val e = 100) (map member_text rest) =
    Some (GroupE g gname ((done1 @ [(q, e)]) @ rest),
       if rest = [] then (if eq then az \<and> se_val e \<noteq> 1 else False)
         else eq \<and> (if eq then az \<and> se_val e \<noteq> 1 else False) \<and> (\<forall>m \<in> set rest. se_val (snd m) \<noteq> 1),
       if rest = [] then (if eq then True else mx \<or> se_val e = 100)
         else eq \<or> (if eq then True else mx \<or> se_val e = 100) \<or> (\<exists>m \<in> set rest. se_val (snd m) = 100))"
  proof (rule Cons.IH[OF _ Cons.prems(2) r0(3)])
    show "\<forall>(q, e) \<in> set rest. wf_member P q e" "eq \<longrightarrow> (\<forall>(q, e) \<in> set rest. se_val e \<in> {0, 1})"
      using Cons.prems(1,5) by auto
    show "distinct (map fst ((done1 @ [(q, e)]) @ rest))" using Cons.prems(4) by (simp add: m)
    show "\<not> eq \<longrightarrow> distinct (filter (\<lambda>v. v > 0) (map (\<lambda>m. se_val (snd m)) rest)) \<and>
      (\<forall>m \<in> set rest. se_val (snd m) > 0 \<longrightarrow> se_val (snd m) \<notin> (if eq then vals else insert (se_val e) vals))"
      using Cons.prems(6) by (auto simp: m split: if_splits) (metis image_eqI snd_conv)
  qed
  ultimately show ?case by (auto simp: r0(1) m split: if_splits)
qed simp

lemma member_word: "wf_member P q e \<Longrightarrow> c \<in> set '',[]()'' \<Longrightarrow> good_word (\<lambda>x. x = c) (member_text (q, e))"
proof -
  assume a: "wf_member P q e" "c \<in> set '',[]()''"
  then have c: "c \<in> set ''=,[]()#''" and w: "clean (se_sname e)" "0 \<le> se_val e" by (auto simp: wf_member_def)
  have "good_word (\<lambda>x. x = c) (se_sname e)" "good_word (\<lambda>x. x = c) (show_int (se_val e))"
    by (rule clean_word[OF w(1) c], rule value_word[OF w(2) c])
  then show ?thesis using a(2) by (auto simp: good_word_def member_text_def single_text_def)
qed

lemma get_substring_delims:
  assumes "\<not> is_space od" "inner \<noteq> []" "cd \<notin> set inner"
  shows "get_substring (od # inner @ [cd]) od cd = inner"
proof -
  have "dropWhile (\<lambda>c. c \<noteq> cd) (inner @ [cd]) = [cd]" using assms(3) by (induction inner) auto
  then have "find_from (\<lambda>c. c = cd) (od # inner @ [cd]) (Suc 0) = Some (Suc (length inner))"
    by (simp add: find_from_drop Let_def)
  then show ?thesis
    using assms(1,2) by (simp add: get_substring_def ignore_spaces.simps[of _ 0] str_at_def
        get_substring_before_def substr_def)
qed

lemma join_with_words: "\<forall>w \<in> set ws. c \<notin> set w \<Longrightarrow> d \<noteq> c \<Longrightarrow> c \<notin> set (join_with d ws)"
  by (induction d ws rule: join_with.induct) auto

lemma blank_keys: "map (\<lambda>(q, e). (q, blank e)) ps0 = map (\<lambda>(q, e). (q, blank e)) ps \<Longrightarrow> map fst ps0 = map fst ps"
  by (drule arg_cong[of _ _ "map fst"]) (simp add: comp_def case_prod_unfold)

lemma setup_group_line:
  assumes "wf_elem P p (GroupE eq gname ps)" "get_pname Q = get_pname P" "pr_elems Q p = Some e0"
    "shape e0 = shape (GroupE eq gname ps)"
  shows "setup_group_probabilities eq Q (gname # map member_text ps) =
    Some (Q\<lparr>pr_elems := (pr_elems Q)(p \<mapsto> GroupE eq gname ps)\<rparr>)"
proof -
  obtain ps0 where e0: "e0 = GroupE eq gname ps0" "map (\<lambda>(q, e). (q, blank e)) ps0 = map (\<lambda>(q, e). (q, blank e)) ps"
    using assms(4) by (cases e0) auto
  have w: "get_pname Q gname = Some p" "distinct (map fst ([] @ ps))" "\<forall>(q, e) \<in> set ps. wf_member P q e"
    "wf_values eq (map (\<lambda>m. se_val (snd m)) ps)" using assms(1,2) by auto
  have v: "eq \<longrightarrow> (\<forall>(q, e) \<in> set ps. se_val e \<in> {0, 1})"
    "\<not> eq \<longrightarrow> distinct (filter (\<lambda>v. v > 0) (map (\<lambda>m. se_val (snd m)) ps)) \<and>
      (\<forall>m \<in> set ps. se_val (snd m) > 0 \<longrightarrow> se_val (snd m) \<notin> {})"
    "ps \<noteq> []" "eq \<longrightarrow> (\<exists>m \<in> set ps. se_val (snd m) = 1)" "\<not> eq \<longrightarrow> (\<exists>m \<in> set ps. se_val (snd m) = 100)"
    using w(4) by (auto simp: wf_values_def split: if_splits) (metis snd_conv)
  note m = parse_members[OF w(3) assms(2) e0(2) w(2) v(1,2), where g = eq and gname = gname and az = True and mx = False]
  have "setup_members eq Q e0 {} True False (map member_text ps) = Some (GroupE eq gname ps, False, True)"
    unfolding e0(1) using m v(3-5) by (cases eq) auto
  then show ?thesis using w(1) assms(3) v(3) by (simp add: setup_group_probabilities_def del: setup_members.simps)
qed

lemma parse_group_text:
  assumes "wf_elem P p (GroupE eq gname ps)" "get_pname Q = get_pname P" "pr_elems Q p = Some e0"
    "shape e0 = shape (GroupE eq gname ps)" "dump_val (GroupE eq gname ps) = Some t"
  shows "parse_line Q t = Some (Inr (Q\<lparr>pr_elems := (pr_elems Q)(p \<mapsto> GroupE eq gname ps)\<rparr>))"
proof -
  define od where "od = (if eq then CHR ''('' else CHR ''['')"
  define cd where "cd = (if eq then CHR '')'' else CHR '']'')"
  define inner where "inner = join_with (CHR '','') (gname # map member_text ps)"
  have ps: "ps \<noteq> []" "clean gname" "\<forall>(q, e) \<in> set ps. wf_member P q e"
    using assms(1) by (auto simp: wf_values_def split: if_splits)
  have mt: "map (\<lambda>(p, e). single_text (se_sname e) (se_val e)) ps = map member_text ps"
    by (auto simp: member_text_def)
  obtain m ms where mm: "map member_text ps = m # ms" using ps(1) by (cases ps) auto
  have t: "t = od # inner @ [cd]"
    using assms(5) ps(1) by (simp add: group_text_def mt od_def cd_def inner_def mm)
  have words: "\<forall>w \<in> set (gname # map member_text ps). good_word (\<lambda>x. x = c) w" if "c \<in> set '',[]()''" for c
    using clean_word[OF ps(2), of c] member_word ps(3) that by auto
  have "cd \<in> set '',[]()''" "CHR '','' \<in> set '',[]()''" "cd \<noteq> CHR '',''" by (auto simp: cd_def)
  then have "cd \<notin> set inner" unfolding inner_def
    using join_with_words[of "gname # map member_text ps" cd "CHR '',''"] words[of cd] by (auto simp: good_word_def)
  moreover have ne: "inner \<noteq> []" using ps(2) by (auto simp: inner_def mm clean_def)
  ultimately have sub: "get_substring t od cd = inner"
    unfolding t by (intro get_substring_delims) (auto simp: od_def is_space_def)
  have sp: "split_string inner (CHR '','') = gname # map member_text ps"
    using pieces_join[OF words, of "CHR '',''" "CHR '',''"] by (simp add: split_string_def split_loop_pieces inner_def)
  have "parse_group_probabilities eq Q t = Some (Inr (Q\<lparr>pr_elems := (pr_elems Q)(p \<mapsto> GroupE eq gname ps)\<rparr>))"
    using sub ne sp setup_group_line[OF assms(1-4)]
    by (cases eq) (simp_all add: parse_group_probabilities_def od_def cd_def mm)
  moreover have "first_nonspace_char t = od"
    using first_nonspace_hd[of t] by (auto simp: t od_def is_space_def)
  ultimately show ?thesis by (cases eq) (simp_all add: parse_line_def od_def)
qed

definition text_char :: "char \<Rightarrow> bool" where
  "text_char c \<longleftrightarrow> name_char c \<or> c \<in> set ''=,[]()''"

lemma text_char_space: "text_char c \<Longrightarrow> \<not> is_space c"
  by (auto simp: text_char_def dest: name_char_special) (auto simp: is_space_def)

lemma single_text_chars: "wf_member P p x \<Longrightarrow> \<forall>c \<in> set (single_text (se_sname x) (se_val x)). text_char c"
proof -
  assume w: "wf_member P p x"
  then have "\<forall>c \<in> set (se_sname x). name_char c" by (auto simp: wf_member_def clean_def list_all_iff)
  moreover have "c \<in> set (show_int (se_val x)) \<Longrightarrow> name_char c" for c
    using w show_nat_digits by (auto simp: wf_member_def show_int_nat name_char_def)
  ultimately show ?thesis by (auto simp: single_text_def text_char_def)
qed

lemma join_with_all: "\<forall>w \<in> set ws. \<forall>c \<in> set w. Q c \<Longrightarrow> Q d \<Longrightarrow> \<forall>c \<in> set (join_with d ws). Q c"
  by (induction d ws rule: join_with.induct) auto

lemma dump_val_chars:
  assumes "wf_elem P p e"
  shows "\<exists>t. dump_val e = Some t \<and> (\<forall>c \<in> set t. text_char c) \<and> t \<noteq> []"
proof (cases e)
  case (SingleE x)
  then show ?thesis using single_text_chars[of P p x] assms by (auto simp: single_text_def)
next
  case (GroupE eq gname ps)
  have m: "\<forall>w \<in> set (map (\<lambda>(p, e). single_text (se_sname e) (se_val e)) ps). \<forall>c \<in> set w. text_char c"
  proof (intro ballI)
    fix w c assume "w \<in> set (map (\<lambda>(p, e). single_text (se_sname e) (se_val e)) ps)" "c \<in> set w"
    then obtain q x where "(q, x) \<in> set ps" "c \<in> set (single_text (se_sname x) (se_val x))" by auto
    then show "text_char c" using assms GroupE single_text_chars[of P q x] by auto
  qed
  have "\<forall>c \<in> set gname. text_char c" using assms GroupE by (auto simp: clean_def list_all_iff text_char_def)
  moreover have "ps \<noteq> []" using assms GroupE by (auto simp: wf_values_def split: if_splits)
  ultimately show ?thesis
    using join_with_all[OF m, of "CHR '',''"] by (auto simp: GroupE group_text_def text_char_def)
qed

lemma parse_elem_text:
  assumes "wf_elem P p e" "get_pname Q = get_pname P" "pr_elems Q p = Some e0" "shape e0 = shape e"
    "dump_val e = Some t"
  shows "parse_line Q t = Some (Inr (Q\<lparr>pr_elems := (pr_elems Q)(p \<mapsto> e)\<rparr>))"
proof (cases e)
  case (SingleE x)
  then obtain x0 where x0: "e0 = SingleE x0" "blank x0 = blank x" using assms(4) by (cases e0) auto
  then show ?thesis
    using parse_single_text[of P p x Q x0] assms SingleE by simp
next
  case (GroupE eq gname ps)
  then show ?thesis using parse_group_text assms by blast
qed

lemma file_lines_line: "CHR 0x0A \<notin> set t \<Longrightarrow> file_lines (t @ CHR 0x0A # r) = t # file_lines r"
  by (induction t) auto

lemma file_lines_ne: "file_lines s \<noteq> []"
  by (induction s) (auto split: list.splits)

lemma not_empty_line: "t \<noteq> [] \<Longrightarrow> \<not> is_space (hd t) \<Longrightarrow> \<not> empty_line t"
  by (cases t) (auto simp: empty_line_def is_space_def)

lemma same_shape_update:
  assumes "same_shape Q P" "pr_elems P p = Some e"
  shows "same_shape (Q\<lparr>pr_elems := (pr_elems Q)(p \<mapsto> e)\<rparr>) P"
  using assms by (auto simp: same_shape_def)

lemma same_shape_names: "same_shape Q P \<Longrightarrow> get_pname Q = get_pname P"
  unfolding same_shape_def get_pname_def by (metis probs.select_convs(1) probs.surjective probs.update_convs(4))

lemma read_back:
  "wf_probs P \<Longrightarrow> same_shape Q P \<Longrightarrow>
     \<exists>t. dump_elems se_val P ps = Some t \<and> parse_lines Q (file_lines t) =
       Some (Inr (Q\<lparr>pr_elems := (\<lambda>p. if p \<in> set ps then pr_elems P p else pr_elems Q p)\<rparr>))"
proof (induction ps arbitrary: Q)
  case Nil
  then show ?case by (simp add: empty_line_def)
next
  case (Cons p ps)
  show ?case
  proof (cases "pr_elems P p")
    case None
    then have "pr_elems Q p = None" using Cons.prems(2) by (auto simp: same_shape_def dest: spec[of _ p])
    then have "(\<lambda>q. if q \<in> set (p # ps) then pr_elems P q else pr_elems Q q) =
      (\<lambda>q. if q \<in> set ps then pr_elems P q else pr_elems Q q)" using None by (intro ext) auto
    then show ?thesis using Cons None by simp
  next
    case (Some e)
    have w: "wf_elem P p e" using Cons.prems(1) Some by (simp add: wf_probs_def)
    obtain e0 where e0: "pr_elems Q p = Some e0" "shape e0 = shape e"
      using Cons.prems(2) Some unfolding same_shape_def by (metis map_option_eq_Some)
    obtain t where t: "dump_val e = Some t" "\<forall>c \<in> set t. text_char c" "t \<noteq> []" using dump_val_chars[OF w] by blast
    have h: "\<not> is_space (hd t)" "CHR 0x0A \<notin> set t"
      using t(2,3) text_char_space by (auto simp: is_space_def)
    define Q1 where "Q1 = Q\<lparr>pr_elems := (pr_elems Q)(p \<mapsto> e)\<rparr>"
    have pl: "parse_line Q t = Some (Inr Q1)"
      using parse_elem_text[OF w same_shape_names[OF Cons.prems(2)] e0 t(1)] by (simp add: Q1_def)
    obtain r where r: "dump_elems se_val P ps = Some r" "parse_lines Q1 (file_lines r) =
       Some (Inr (Q1\<lparr>pr_elems := (\<lambda>p. if p \<in> set ps then pr_elems P p else pr_elems Q1 p)\<rparr>))"
      using Cons.IH[OF Cons.prems(1) same_shape_update[OF Cons.prems(2) Some]] unfolding Q1_def by blast
    have "file_lines (t @ CHR 0x0A # CHR 0x0A # r) = t # [] # file_lines r"
      using file_lines_line[OF h(2)] by simp
    then have "parse_lines Q (file_lines (t @ CHR 0x0A # CHR 0x0A # r)) = parse_lines Q1 (file_lines r)"
      using pl not_empty_line[OF t(3) h(1)] by (simp add: empty_line_def)
    moreover have "Q1\<lparr>pr_elems := (\<lambda>p. if p \<in> set ps then pr_elems P p else pr_elems Q1 p)\<rparr> =
      Q\<lparr>pr_elems := (\<lambda>q. if q \<in> set (p # ps) then pr_elems P q else pr_elems Q q)\<rparr>"
      using Some by (auto simp: Q1_def intro!: arg_cong[of _ _ "\<lambda>f. Q\<lparr>pr_elems := f\<rparr>"])
    ultimately show ?thesis using Some t(1) r by simp
  qed
qed

lemma all_pnames_complete: "p \<in> set all_pnames"
proof (cases p)
  case (PSingle x)
  then show ?thesis by (cases x) (simp_all add: all_pnames_def all_singles_def)
next
  case (PGroup x)
  then show ?thesis by (cases x) (simp_all add: all_pnames_def)
next
  case (PStm x)
  then show ?thesis by (cases x) (simp_all add: all_pnames_def all_stms_def)
next
  case (PAssign x)
  then show ?thesis by (cases x) (simp_all add: all_pnames_def all_assigns_def)
next
  case (PUnary x)
  then show ?thesis by (cases x) (simp_all add: all_pnames_def all_unaries_def)
next
  case (PBinary x)
  then show ?thesis by (cases x) (simp_all add: all_pnames_def all_binaries_def)
next
  case (PType x)
  then show ?thesis by (cases x) (simp_all add: all_pnames_def all_types_def)
next
  case (PSize x)
  then show ?thesis by (cases x) (simp_all add: all_pnames_def all_sizes_def)
qed

text \<open>C18: a consistent table that is written out and read back over any table with the same elements gives
  the same table, whatever values it had.\<close>

theorem dump_parse_roundtrip:
  assumes "wf_probs P" "same_shape P0 P"
  shows "\<exists>text. dump_actual_probabilities P seed = Some text \<and> parse_configuration P0 (Some text) = Some (Inr P)"
proof -
  obtain t where t: "dump_elems se_val P all_pnames = Some t" "parse_lines P0 (file_lines t) =
       Some (Inr (P0\<lparr>pr_elems := (\<lambda>p. if p \<in> set all_pnames then pr_elems P p else pr_elems P0 p)\<rparr>))"
    using read_back[OF assms] by blast
  then have p: "parse_lines P0 (file_lines t) = Some (Inr P)"
    using assms(2) by (simp add: all_pnames_complete same_shape_def)
  define sl where "sl = ''# Seed: '' @ show_nat seed"
  have sl: "CHR 0x0A \<notin> set sl" "sl \<noteq> []" "hd sl = CHR ''#''" "\<not> is_space (hd sl)"
    using show_nat_digits[of "CHR 0x0A" seed] by (auto simp: sl_def is_digit_def is_space_def)
  have "file_lines (sl @ CHR 0x0A # CHR 0x0A # t) = sl # [] # file_lines t" using file_lines_line[OF sl(1)] by simp
  moreover have "parse_line P0 sl = Some (Inr P0)"
    using first_nonspace_hd[OF sl(2,4)] sl(3) by (simp add: parse_line_def)
  ultimately have "parse_lines P0 (file_lines (sl @ CHR 0x0A # CHR 0x0A # t)) = Some (Inr P)"
    using p not_empty_line[OF sl(2,4)] by (simp add: empty_line_def)
  then show ?thesis using t(1) by (simp add: dump_actual_probabilities_def parse_configuration_def sl_def)
qed

section \<open>Setting up gives a consistent table\<close>

definition group_names :: "(string \<times> prob_name \<times> nat \<times> int) list \<Rightarrow> (string \<times> prob_name) list" where
  "group_names = map (\<lambda>(s, p, n, v). (s, p))"

definition all_names :: "(string \<times> prob_name) list" where
  "all_names = single_names @ concat (map group_names [statement_entries cgoptions_zero, unary_entries cgoptions_zero,
     binary_entries cgoptions_zero, type_entries cgoptions_zero, size_entries cgoptions_zero])"

lemma names_clean: "list_all (\<lambda>(s, p). clean s) all_names"
  by (simp add: all_names_def single_names_def group_names_def statement_entries_def unary_entries_def
      binary_entries_def type_entries_def size_entries_def clean_def name_char_def is_digit_def)

lemma names_distinct: "distinct (map fst all_names)"
  by (simp add: all_names_def single_names_def group_names_def statement_entries_def unary_entries_def
      binary_entries_def type_entries_def size_entries_def)

text \<open>What holds at every moment of the set-up: a name stands for one probability only, the one of the
  source, and the elements are consistent.\<close>

definition names_ok :: "probs \<Rightarrow> bool" where
  "names_ok P \<longleftrightarrow> pr_sname_to_pname P \<subseteq>\<^sub>m map_of all_names \<and>
     (\<forall>p sn. pr_pname_to_sname P p = Some sn \<longrightarrow> get_pname P sn = Some p \<and> clean sn)"

lemma wf_member_mono: "wf_member P p e \<Longrightarrow> get_pname P \<subseteq>\<^sub>m get_pname Q \<Longrightarrow> wf_member Q p e"
  by (auto simp: wf_member_def map_le_def dom_def)

lemma wf_elem_mono: "wf_elem P p e \<Longrightarrow> get_pname P \<subseteq>\<^sub>m get_pname Q \<Longrightarrow> wf_elem Q p e"
proof (cases e)
  case (GroupE eq g ps)
  assume a: "wf_elem P p e" "get_pname P \<subseteq>\<^sub>m get_pname Q"
  have "get_pname Q g = Some p" using a GroupE by (auto simp: map_le_def dom_def)
  moreover have "\<forall>(q, x) \<in> set ps. wf_member Q q x" using a GroupE wf_member_mono by fastforce
  ultimately show ?thesis using a(1) GroupE by simp
qed (simp add: wf_member_mono)

lemma set_name_ok:
  assumes "names_ok P" "wf_probs P" "(sn, p) \<in> set all_names"
  shows "names_ok (set_single_name sn p P) \<and> wf_probs (set_single_name sn p P)"
proof -
  have m: "map_of all_names sn = Some p" using names_distinct assms(3) by simp
  have c: "clean sn" using names_clean assms(3) by (auto simp: list_all_iff)
  have old: "pr_sname_to_pname P sn = Some q \<Longrightarrow> q = p" for q
    using assms(1) m by (auto simp: names_ok_def map_le_def dom_def)
  have le: "get_pname P \<subseteq>\<^sub>m get_pname (set_single_name sn p P)"
    using old by (auto simp: map_le_def get_pname_def set_single_name_def)
  have "pr_elems (set_single_name sn p P) = pr_elems P" by (simp add: set_single_name_def)
  then have w: "wf_probs (set_single_name sn p P)" using assms(2) wf_elem_mono[OF _ le] by (auto simp: wf_probs_def)
  have "names_ok (set_single_name sn p P)"
    using assms(1) old m c by (auto simp: names_ok_def set_single_name_def get_pname_def map_le_def dom_def)
  then show ?thesis using w by blast
qed

lemma set_typed_name_ok:
  assumes "names_ok P" "wf_probs P" "(sn, p) \<in> set all_names"
  shows "names_ok (set_typed_name sn p n P) \<and> wf_probs (set_typed_name sn p n P)"
proof -
  have g: "get_pname (P\<lparr>pr_pname_to_type := f\<rparr>) = get_pname P" for f by (rule ext) (simp add: get_pname_def)
  have "wf_elem (P\<lparr>pr_pname_to_type := f\<rparr>) q e = wf_elem P q e" for f q e
    using wf_elem_mono[of P q e "P\<lparr>pr_pname_to_type := f\<rparr>"] wf_elem_mono[of "P\<lparr>pr_pname_to_type := f\<rparr>" q e P] by (simp add: g map_le_refl) blast
  then have "wf_probs (P\<lparr>pr_pname_to_type := (pr_pname_to_type P)(p := n)\<rparr>)" using assms(2) by (simp add: wf_probs_def)
  moreover have "names_ok (P\<lparr>pr_pname_to_type := (pr_pname_to_type P)(p := n)\<rparr>)"
    using assms(1) by (simp add: names_ok_def get_pname_def)
  ultimately show ?thesis using set_name_ok assms(3) by (simp add: set_typed_name_def)
qed

lemma fold_names_ok:
  "set xs \<subseteq> set all_names \<Longrightarrow> names_ok P \<Longrightarrow> wf_probs P \<Longrightarrow>
     names_ok (fold (\<lambda>(sn, p). set_single_name sn p) xs P) \<and> wf_probs (fold (\<lambda>(sn, p). set_single_name sn p) xs P)"
  by (induction xs arbitrary: P) (use set_name_ok in auto)

lemma fold_typed_ok:
  "set (group_names xs) \<subseteq> set all_names \<Longrightarrow> names_ok P \<Longrightarrow> wf_probs P \<Longrightarrow>
     names_ok (fold (\<lambda>(sn, p, n, v). set_typed_name sn p n) xs P) \<and>
     wf_probs (fold (\<lambda>(sn, p, n, v). set_typed_name sn p n) xs P)"
proof (induction xs arbitrary: P)
  case (Cons x xs)
  obtain sn p n v where x: "x = (sn, p, n, v)" by (cases x) auto
  have "(sn, p) \<in> set all_names" "set (group_names xs) \<subseteq> set all_names" using Cons.prems(1) by (auto simp: x group_names_def)
  then show ?case using Cons.IH set_typed_name_ok Cons.prems(2,3) by (simp add: x)
qed simp

lemma put_elem_ok:
  assumes "names_ok P" "wf_probs P" "wf_elem P p e"
  shows "names_ok (P\<lparr>pr_elems := (pr_elems P)(p \<mapsto> e)\<rparr>) \<and> wf_probs (P\<lparr>pr_elems := (pr_elems P)(p \<mapsto> e)\<rparr>)"
proof -
  let ?Q = "P\<lparr>pr_elems := (pr_elems P)(p \<mapsto> e)\<rparr>"
  have g: "get_pname ?Q = get_pname P" by (rule ext) (simp add: get_pname_def)
  then have "wf_elem P q x \<Longrightarrow> wf_elem ?Q q x" for q x using wf_elem_mono[of P q x ?Q] by (simp add: map_le_refl)
  then have "wf_probs ?Q" using assms(2,3) by (simp add: wf_probs_def)
  moreover have "names_ok ?Q" using assms(1) by (simp add: names_ok_def g)
  ultimately show ?thesis by blast
qed

text \<open>A drawn member.\<close>

lemma random_member_SomeD:
  assumes "random_member o1 eq d invalid s = Some (v, t)" "0 \<le> d"
  shows "0 \<le> v \<and> v \<le> 100 \<and> (d = 0 \<longrightarrow> v = 0) \<and> (eq \<and> d \<le> 1 \<longrightarrow> v \<in> {0, 1}) \<and> (\<not> eq \<and> d \<noteq> 0 \<longrightarrow> v \<notin> set invalid)"
proof -
  consider "d = 0" | (coin) "d \<noteq> 0" "eq" | (draw) "d \<noteq> 0" "\<not> eq" by blast
  then show ?thesis
  proof cases
    case draw
    then obtain n where n: "rnd_upto 101 (Some (vf_pred o1 (new_vector_filter None invalid True))) None s = Some (n, t)"
      "v = int n" using assms(1) by (auto simp: random_member_def bind_eq_Some_conv)
    have r: "n < 101" "\<not> vf_pred o1 (new_vector_filter None invalid True) n"
      using rnd_upto_SomeD[OF n(1)] by (simp_all add: rejects_def)
    have "u32 (int n) = int n" using r(1) by (simp add: u32_def)
    then have "int n \<notin> set invalid"
      using r(2) by (auto simp: vf_pred_def vf_filter_def vf_lookup_def new_vector_filter_def valid_filter_def
          split: if_splits)
    then show ?thesis using r(1) n(2) draw by simp
  qed (use assms in \<open>auto simp: random_member_def bind_eq_Some_conv\<close>)
qed

lemma init_members_spec:
  "init_members o1 eq P invalid ps s = Some (es, valids, t) \<Longrightarrow> names_ok P \<Longrightarrow>
   distinct (map fst ps) \<Longrightarrow> \<forall>(q, d) \<in> set ps. q = PType pVoidProb \<longrightarrow> d = 0 \<Longrightarrow>
     map fst es = map fst ps \<and> (\<forall>(q, e) \<in> set es. wf_member P q e) \<and>
     (\<not> opt_random_random o1 \<longrightarrow> map (\<lambda>m. se_val (snd m)) es = map snd ps) \<and>
     (opt_random_random o1 \<longrightarrow> set valids = {q. \<exists>e. (q, e) \<in> set es \<and> se_val e \<noteq> 0} \<and>
        (eq \<longrightarrow> (\<forall>(q, d) \<in> set ps. d \<le> 1) \<longrightarrow> (\<forall>m \<in> set es. se_val (snd m) \<in> {0, 1})) \<and>
        (\<not> eq \<longrightarrow> distinct (filter (\<lambda>v. v > 0) (map (\<lambda>m. se_val (snd m)) es)) \<and>
           (\<forall>m \<in> set es. se_val (snd m) \<noteq> 0 \<longrightarrow> se_val (snd m) \<notin> set invalid)))"
proof (induction ps arbitrary: invalid s es valids t)
  case Nil
  then show ?case by simp
next
  case (Cons m ps)
  obtain p d1 where m: "m = (p, d1)" by fastforce
  from Cons.prems(1) obtain v s1 sn es1 valids1 where
    d: "0 \<le> d1" "d1 \<le> 100" and
    v: "(if opt_random_random o1 then random_member o1 eq d1 invalid s else Some (d1, s)) = Some (v, s1)" and
    sn: "get_sname P p = Some sn" and
    r: "init_members o1 eq P (if opt_random_random o1 \<and> v \<noteq> 0 then invalid @ [v] else invalid) ps s1 =
        Some (es1, valids1, t)" and
    es: "es = (p, \<lparr>se_sname = sn, se_pname = p, se_default = d1, se_val = v\<rparr>) # es1"
      "valids = (if opt_random_random o1 \<and> v \<noteq> 0 then p # valids1 else valids1)"
    by (auto simp: m bind_eq_Some_conv Let_def)
  have vs: "0 \<le> v" "v \<le> 100" "d1 = 0 \<longrightarrow> v = 0" "\<not> opt_random_random o1 \<longrightarrow> v = d1"
    "opt_random_random o1 \<and> eq \<and> d1 \<le> 1 \<longrightarrow> v \<in> {0, 1}" "opt_random_random o1 \<and> \<not> eq \<and> v \<noteq> 0 \<longrightarrow> v \<notin> set invalid"
    using v d random_member_SomeD[of o1 eq d1 invalid s v s1] by (auto split: if_splits)
  have n: "get_pname P sn = Some p" "clean sn" using Cons.prems(2) sn by (auto simp: names_ok_def get_sname_def)
  have w: "wf_member P p \<lparr>se_sname = sn, se_pname = p, se_default = d1, se_val = v\<rparr>"
    using n vs Cons.prems(4) by (auto simp: wf_member_def m)
  have ih: "map fst es1 = map fst ps" "\<forall>(q, e) \<in> set es1. wf_member P q e"
    "\<not> opt_random_random o1 \<longrightarrow> map (\<lambda>m. se_val (snd m)) es1 = map snd ps"
    "opt_random_random o1 \<longrightarrow> set valids1 = {q. \<exists>e. (q, e) \<in> set es1 \<and> se_val e \<noteq> 0}"
    "opt_random_random o1 \<longrightarrow> eq \<longrightarrow> (\<forall>(q, d) \<in> set ps. d \<le> 1) \<longrightarrow> (\<forall>m \<in> set es1. se_val (snd m) \<in> {0, 1})"
    "opt_random_random o1 \<longrightarrow> \<not> eq \<longrightarrow> distinct (filter (\<lambda>v. v > 0) (map (\<lambda>m. se_val (snd m)) es1)) \<and>
       (\<forall>m \<in> set es1. se_val (snd m) \<noteq> 0 \<longrightarrow>
         se_val (snd m) \<notin> set (if opt_random_random o1 \<and> v \<noteq> 0 then invalid @ [v] else invalid))"
    using Cons.IH[OF r Cons.prems(2)] Cons.prems(3,4) by (auto simp: m)
  have "opt_random_random o1 \<longrightarrow> set valids = {q. \<exists>e. (q, e) \<in> set es \<and> se_val e \<noteq> 0}"
    using ih(4) by (auto simp: es)
  moreover have "opt_random_random o1 \<longrightarrow> eq \<longrightarrow> (\<forall>(q, d) \<in> set (m # ps). d \<le> 1) \<longrightarrow> (\<forall>m \<in> set es. se_val (snd m) \<in> {0, 1})"
    using ih(5) vs(5) by (auto simp: es m)
  moreover have "opt_random_random o1 \<longrightarrow> \<not> eq \<longrightarrow> distinct (filter (\<lambda>v. v > 0) (map (\<lambda>m. se_val (snd m)) es))"
    using ih(6) vs(1) by (auto simp: es split: if_splits)
  moreover have "opt_random_random o1 \<longrightarrow> \<not> eq \<longrightarrow> (\<forall>m \<in> set es. se_val (snd m) \<noteq> 0 \<longrightarrow> se_val (snd m) \<notin> set invalid)"
    using ih(6) vs(6) by (auto simp: es split: if_splits)
  ultimately show ?case using ih(1-3) w vs(4) by (simp add: es m)
qed

lemma set_member_split:
  assumes "p \<notin> fst ` set A" "p \<notin> fst ` set B"
  shows "set_member p v (A @ (p, e) # B) = A @ (p, e\<lparr>se_val := v\<rparr>) # B"
proof -
  have "map (\<lambda>(q, e). if q = p then (q, e\<lparr>se_val := v\<rparr>) else (q, e)) xs = xs" if "p \<notin> fst ` set xs" for xs
    using that by (induction xs) auto
  from this[OF assms(1)] this[OF assms(2)] show ?thesis unfolding set_member_def by simp
qed

lemma set_member_wf:
  "\<forall>(q, e) \<in> set es. wf_member P q e \<Longrightarrow> 0 \<le> v \<Longrightarrow> v \<le> 100 \<Longrightarrow> (p = PType pVoidProb \<longrightarrow> v = 0) \<Longrightarrow>
     \<forall>(q, e) \<in> set (set_member p v es). wf_member P q e"
  by (auto simp: set_member_def wf_member_def split: if_splits)

text \<open>The reset of a group to its defaults.\<close>

lemma reset_members:
  "map fst R = map fst ps \<Longrightarrow> distinct (map fst (D @ R)) \<Longrightarrow>
     fold (\<lambda>(p, d). set_member p d) ps (D @ R) = D @ map (\<lambda>((q, e), (p, d)). (q, e\<lparr>se_val := d\<rparr>)) (zip R ps)"
proof (induction ps arbitrary: D R)
  case (Cons m ps)
  obtain p d where m: "m = (p, d)" by fastforce
  obtain e R1 where R: "R = (p, e) # R1" "map fst R1 = map fst ps" using Cons.prems(1) by (cases R) (auto simp: m)
  have k: "p \<notin> fst ` set D" "p \<notin> fst ` set R1" "distinct (map fst ((D @ [(p, e\<lparr>se_val := d\<rparr>)]) @ R1))"
    using Cons.prems(2) by (auto simp: R(1))
  have "fold (\<lambda>(p, d). set_member p d) ps ((D @ [(p, e\<lparr>se_val := d\<rparr>)]) @ R1) =
      (D @ [(p, e\<lparr>se_val := d\<rparr>)]) @ map (\<lambda>((q, e), (p, d)). (q, e\<lparr>se_val := d\<rparr>)) (zip R1 ps)"
    by (rule Cons.IH[OF R(2) k(3)])
  then show ?case by (simp add: m R(1) set_member_split[OF k(1,2)])
qed simp

lemma reset_values:
  assumes "map fst es = map fst ps" "distinct (map fst ps)" "\<forall>(q, e) \<in> set es. wf_member P q e"
    "\<forall>(q, d) \<in> set ps. 0 \<le> d \<and> d \<le> 100 \<and> (q = PType pVoidProb \<longrightarrow> d = 0)"
  defines "fs \<equiv> fold (\<lambda>(p, d). set_member p d) ps es"
  shows "map fst fs = map fst ps \<and> map (\<lambda>m. se_val (snd m)) fs = map snd ps \<and> (\<forall>(q, e) \<in> set fs. wf_member P q e)"
proof -
  have l: "length es = length ps" using arg_cong[OF assms(1), of length] by simp
  have f: "fs = map (\<lambda>((q, e), (p, d)). (q, e\<lparr>se_val := d\<rparr>)) (zip es ps)"
    using reset_members[of es ps "[]"] assms(1,2) by (simp add: fs_def)
  have a: "map fst fs = map fst (map fst (zip es ps))" unfolding f by (simp add: case_prod_unfold comp_def)
  have b: "map (\<lambda>m. se_val (snd m)) fs = map snd (map snd (zip es ps))" unfolding f by (simp add: case_prod_unfold comp_def)
  have "wf_member P q e" if "(q, e) \<in> set fs" for q e
  proof -
    obtain q1 e1 p1 d1 where z: "((q1, e1), (p1, d1)) \<in> set (zip es ps)" "q = q1" "e = e1\<lparr>se_val := d1\<rparr>"
      using \<open>(q, e) \<in> set fs\<close> by (auto simp: f)
    obtain i where i: "i < length ps" "es ! i = (q1, e1)" "ps ! i = (p1, d1)" using z(1) l by (auto simp: in_set_zip)
    have "p1 = q1" using arg_cong[OF assms(1), of "\<lambda>x. x ! i"] i l by simp
    moreover have "(q1, e1) \<in> set es" "(p1, d1) \<in> set ps" using i l by (metis nth_mem)+
    ultimately show ?thesis using assms(3,4) z(2,3) by (fastforce simp: wf_member_def)
  qed
  then show ?thesis using a b l assms(1) by (simp add: map_fst_zip map_snd_zip) blast
qed

lemma wf_values_mset: "mset xs = mset ys \<Longrightarrow> wf_values eq xs = wf_values eq ys"
proof -
  assume a: "mset xs = mset ys"
  then have "set xs = set ys" by (rule mset_eq_setD)
  moreover have "mset (filter (\<lambda>v. v > 0) xs) = mset (filter (\<lambda>v. v > 0) ys)" using a by simp
  then have "distinct (filter (\<lambda>v. v > 0) xs) = distinct (filter (\<lambda>v. v > 0) ys)" by (rule mset_eq_imp_distinct_iff)
  ultimately show ?thesis by (simp add: wf_values_def)
qed

text \<open>The list of defaults of a group.\<close>

definition good_defaults :: "bool \<Rightarrow> (prob_name \<times> int) list \<Rightarrow> bool" where
  "good_defaults eq ps \<longleftrightarrow> distinct (map fst ps) \<and> (\<forall>(q, d) \<in> set ps. 0 \<le> d \<and> d \<le> 100 \<and> (q = PType pVoidProb \<longrightarrow> d = 0)) \<and>
     (\<forall>g. PGroup g \<notin> fst ` set ps) \<and>
     wf_values eq (map snd ps) \<and> (eq \<or> PType pVoidProb \<notin> fst ` set ps)"

lemma raise_to_100:
  assumes "distinct (map fst es)" "(p, e) \<in> set es" "distinct (filter (\<lambda>v. v > 0) (map (\<lambda>m. se_val (snd m)) es))"
    "\<forall>m \<in> set es. se_val (snd m) \<noteq> 100"
  shows "wf_values False (map (\<lambda>m. se_val (snd m)) (set_member p 100 es))"
proof -
  obtain A B where es: "es = A @ (p, e) # B" using split_list assms(2) by metis
  have k: "p \<notin> fst ` set A" "p \<notin> fst ` set B" using assms(1) by (auto simp: es)
  have "100 \<notin> (\<lambda>m. se_val (snd m)) ` set A" "100 \<notin> (\<lambda>m. se_val (snd m)) ` set B" using assms(4) by (force simp: es)+
  then show ?thesis using assms(3) by (auto simp: es set_member_split[OF k] wf_values_def split: if_splits)
qed

lemma group_initialize_ok:
  assumes "group_initialize o1 eq sn P m s = Some (e, t)" "names_ok P" "get_sname P (PGroup g) = Some sn" "good_defaults eq m"
  shows "wf_elem P (PGroup g) e"
proof -
  define ps where "ps = sort_key (pcode \<circ> fst) m"
  have perm: "mset ps = mset m" by (simp add: ps_def)
  then have st: "set ps = set m" by (rule mset_eq_setD)
  have "mset (map fst ps) = mset (map fst m)" "mset (map snd ps) = mset (map snd m)" using perm by simp_all
  then have gd: "distinct (map fst ps)" "wf_values eq (map snd ps)"
    using assms(4) mset_eq_imp_distinct_iff wf_values_mset unfolding good_defaults_def by blast+
  have d: "\<forall>(q, d) \<in> set ps. 0 \<le> d \<and> d \<le> 100 \<and> (q = PType pVoidProb \<longrightarrow> d = 0)" "eq \<or> PType pVoidProb \<notin> fst ` set ps"
    using assms(4) st by (auto simp: good_defaults_def)
  obtain es valids s1 where i: "init_members o1 eq P [100, 0] ps s = Some (es, valids, s1)"
    using assms(1) by (auto simp: group_initialize_def ps_def[symmetric] bind_eq_Some_conv)
  have v: "\<forall>(q, d) \<in> set ps. q = PType pVoidProb \<longrightarrow> d = 0" using d(1) by auto
  note sp = init_members_spec[OF i assms(2) gd(1) v]
  have n: "get_pname P sn = Some (PGroup g)" "clean sn" using assms(2,3) by (auto simp: names_ok_def get_sname_def)
  have k: "map fst es = map fst ps" "distinct (map fst es)" "\<forall>(q, e) \<in> set es. wf_member P q e" using sp gd(1) by auto
  have nk: "PGroup g \<notin> fst ` set xs" if "map fst xs = map fst ps" for xs :: "(prob_name \<times> single_elem) list"
  proof -
    have "set (map fst xs) = fst ` set m" using that st by simp
    then show ?thesis using assms(4) by (simp add: good_defaults_def)
  qed
  show ?thesis
  proof (cases "opt_random_random o1")
    case False
    then have "e = GroupE eq sn es" using assms(1) i by (auto simp: group_initialize_def ps_def[symmetric] bind_eq_Some_conv)
    then show ?thesis using n k sp False gd(2) nk[OF k(1)] by simp
  next
    case rr: True
    have sv: "set valids = {q. \<exists>e. (q, e) \<in> set es \<and> se_val e \<noteq> 0}" using sp rr by (elim conjE) simp
    show ?thesis
    proof (cases eq)
      case True
      have d1: "\<forall>(q, d) \<in> set ps. d \<le> 1" using gd(2) True by (auto simp: wf_values_def)
      show ?thesis
      proof (cases "valids = []")
        case empty: True
        then have "e = GroupE eq sn (fold (\<lambda>(p, d). set_member p d) ps es)"
          using assms(1) i rr True by (auto simp: group_initialize_def ps_def[symmetric] bind_eq_Some_conv)
        then show ?thesis using reset_values[OF k(1) gd(1) k(3) d(1)] n gd nk by simp
      next
        case False
        then have e: "e = GroupE eq sn es"
          using assms(1) i rr True by (auto simp: group_initialize_def ps_def[symmetric] bind_eq_Some_conv)
        obtain q x where q: "(q, x) \<in> set es" "se_val x \<noteq> 0"
          using False sv hd_in_set[OF False] by blast
        have b: "\<forall>m \<in> set es. se_val (snd m) \<in> {0, 1}" using sp rr True d1 by blast
        then have "se_val (snd (q, x)) \<in> {0, 1}" using q(1) by blast
        then have "se_val (snd (q, x)) = 1" using q(2) by simp
        then have "1 \<in> (\<lambda>m. se_val (snd m)) ` set es" using q(1) by (metis imageI)
        moreover have "(\<lambda>m. se_val (snd m)) ` set es \<subseteq> {0, 1}" using b by blast
        ultimately have "wf_values True (map (\<lambda>m. se_val (snd m)) es)" unfolding wf_values_def by simp
        then show ?thesis using n k e True nk[OF k(1)] by simp
      qed
    next
      case False
      then obtain j s2 q where q: "rnd_upto (length valids) None None s1 = Some (j, s2)" "vec_at valids j = Some q"
        "e = GroupE eq sn (set_member q 100 es)"
        using assms(1) i rr by (auto simp: group_initialize_def ps_def[symmetric] bind_eq_Some_conv)
      then have "q \<in> set valids" by (metis vec_at_eq_Some nth_mem)
      then obtain x where x: "(q, x) \<in> set es" using sv by blast
      note u = sp[THEN conjunct2, THEN conjunct2, THEN conjunct2, THEN mp, OF rr, THEN conjunct2, THEN conjunct2,
        THEN mp, OF False]
      have "distinct (filter (\<lambda>v. v > 0) (map (\<lambda>m. se_val (snd m)) es))" by (rule u[THEN conjunct1])
      moreover have "se_val (snd m) \<noteq> 100" if "m \<in> set es" for m
        using u[THEN conjunct2, rule_format, OF that] by auto
      ultimately have w: "wf_values False (map (\<lambda>m. se_val (snd m)) (set_member q 100 es))"
        using raise_to_100[OF k(2) x] by blast
      have "q \<in> fst ` set ps" using x arg_cong[OF k(1), of set] by force
      then have "q \<noteq> PType pVoidProb" using d(2) False by metis
      then have "\<forall>(q, e) \<in> set (set_member q 100 es). wf_member P q e" by (intro set_member_wf[OF k(3)]) simp_all
      moreover have "map fst (set_member q 100 es) = map fst es" by (auto simp: set_member_def)
      ultimately show ?thesis using n k(1,2) w q(3) False nk by simp
    qed
  qed
qed

text \<open>The names of the source and its defaults.\<close>

lemma statement_defaults: "good_defaults False (map (\<lambda>(sn, p, n, v). (p, v)) (statement_entries o1))"
  by (cases "opt_loops o1"; cases "opt_jumps o1"; cases "opt_arrays o1")
    (simp_all add: statement_entries_def good_defaults_def wf_values_def)

lemma unary_defaults: "good_defaults True (map (\<lambda>(sn, p, n, v). (p, v)) (unary_entries o1))"
  by (simp add: unary_entries_def good_defaults_def wf_values_def)

lemma binary_defaults: "good_defaults True (map (\<lambda>(sn, p, n, v). (p, v)) (binary_entries o1))"
  by (cases "opt_muls o1"; cases "opt_divs o1") (simp_all add: binary_entries_def good_defaults_def wf_values_def)

lemma type_defaults: "good_defaults True (map (\<lambda>(sn, p, n, v). (p, v)) (type_entries o1))"
  by (simp add: type_entries_def good_defaults_def wf_values_def)

lemma size_defaults: "good_defaults True (map (\<lambda>(sn, p, n, v). (p, v)) (size_entries o1))"
  by (simp add: size_entries_def good_defaults_def wf_values_def)

lemma entry_names:
  "set (group_names (statement_entries o1)) \<subseteq> set all_names" "set (group_names (unary_entries o1)) \<subseteq> set all_names"
  "set (group_names (binary_entries o1)) \<subseteq> set all_names" "set (group_names (type_entries o1)) \<subseteq> set all_names"
  "set (group_names (size_entries o1)) \<subseteq> set all_names" "set single_names \<subseteq> set all_names"
proof -
  have "group_names (statement_entries o1) = group_names (statement_entries cgoptions_zero)"
    "group_names (unary_entries o1) = group_names (unary_entries cgoptions_zero)"
    "group_names (binary_entries o1) = group_names (binary_entries cgoptions_zero)"
    "group_names (type_entries o1) = group_names (type_entries cgoptions_zero)"
    "group_names (size_entries o1) = group_names (size_entries cgoptions_zero)"
    by (simp_all add: group_names_def statement_entries_def unary_entries_def binary_entries_def type_entries_def
        size_entries_def)
  then show "set (group_names (statement_entries o1)) \<subseteq> set all_names" "set (group_names (unary_entries o1)) \<subseteq> set all_names"
    "set (group_names (binary_entries o1)) \<subseteq> set all_names" "set (group_names (type_entries o1)) \<subseteq> set all_names"
    "set (group_names (size_entries o1)) \<subseteq> set all_names" "set single_names \<subseteq> set all_names"
    by (auto simp: all_names_def)
qed

lemma set_group_prob_ok:
  assumes "set_group_prob o1 eq g entries (P, s) = Some (Q, t)" "names_ok P" "wf_probs P"
    "set (group_names entries) \<subseteq> set all_names" "good_defaults eq (map (\<lambda>(sn, p, n, v). (p, v)) entries)"
  shows "names_ok Q \<and> wf_probs Q"
proof -
  define P1 where "P1 = fold (\<lambda>(sn, p, n, v). set_typed_name sn p n) entries P"
  have 1: "names_ok P1" "wf_probs P1" using fold_typed_ok[OF assms(4,2,3)] by (simp_all add: P1_def)
  obtain gn e where e: "get_sname P1 (PGroup g) = Some gn"
    "group_initialize o1 eq gn P1 (map (\<lambda>(sn, p, n, v). (p, v)) entries) s = Some (e, t)"
    "Q = P1\<lparr>pr_elems := (pr_elems P1)(PGroup g \<mapsto> e)\<rparr>"
    using assms(1) by (auto simp: set_group_prob_def P1_def[symmetric] bind_eq_Some_conv)
  show ?thesis
    unfolding e(3) by (rule put_elem_ok[OF 1 group_initialize_ok[OF e(2) 1(1) e(1) assms(5)]])
qed

lemma set_prob_filter_ok: "names_ok P \<Longrightarrow> wf_probs P \<Longrightarrow> names_ok (set_prob_filter o1 f g P) \<and> wf_probs (set_prob_filter o1 f g P)"
proof -
  assume a: "names_ok P" "wf_probs P"
  have g: "get_pname (set_prob_filter o1 f g P) = get_pname P" "pr_elems (set_prob_filter o1 f g P) = pr_elems P"
    "pr_sname_to_pname (set_prob_filter o1 f g P) = pr_sname_to_pname P"
    "pr_pname_to_sname (set_prob_filter o1 f g P) = pr_pname_to_sname P"
    by (auto simp: get_pname_def set_prob_filter_def Let_def)
  have "wf_elem P q x \<Longrightarrow> wf_elem (set_prob_filter o1 f g P) q x" for q x
    using wf_elem_mono[of P q x "set_prob_filter o1 f g P"] by (simp add: g map_le_refl)
  then show ?thesis using a by (simp add: wf_probs_def names_ok_def g)
qed

lemma init_single_ok:
  assumes "init_single o1 (p, d) (P, s) = Some (Q, t)" "names_ok P" "wf_probs P" "p \<noteq> PType pVoidProb"
  shows "names_ok Q \<and> wf_probs Q"
proof -
  obtain v sn where v: "0 \<le> d" "d \<le> 100"
    "(if opt_random_random o1 then random_single d s else Some (d, s)) = Some (v, t)" and
    sn: "get_sname P p = Some sn" and
    Q: "Q = P\<lparr>pr_elems := (pr_elems P)(p \<mapsto> SingleE \<lparr>se_sname = sn, se_pname = p, se_default = d, se_val = v\<rparr>)\<rparr>"
    using assms(1) by (auto simp: bind_eq_Some_conv)
  have "0 \<le> v \<and> v \<le> 100"
    using v by (auto simp: random_single_def bind_eq_Some_conv split: if_splits dest: rnd_upto_SomeD(1))
  moreover have "get_pname P sn = Some p" "clean sn" using assms(2) sn by (auto simp: names_ok_def get_sname_def)
  ultimately show ?thesis
    unfolding Q using assms(4) by (intro put_elem_ok[OF assms(2,3)]) (simp add: wf_member_def)
qed

lemma initialize_single_probs_ok:
  assumes "initialize_single_probs o1 (P, s) = Some (Q, t)" "names_ok P" "wf_probs P"
  shows "names_ok Q \<and> wf_probs Q"
proof -
  have "foldM (init_single o1) xs (P, s) = Some (Q, t) \<Longrightarrow> PType pVoidProb \<notin> fst ` set xs \<Longrightarrow> names_ok P \<Longrightarrow>
      wf_probs P \<Longrightarrow> names_ok Q \<and> wf_probs Q" for xs P s
  proof (induction xs arbitrary: P s)
    case (Cons x xs)
    obtain p d where x: "x = (p, d)" by fastforce
    obtain P1 s1 where 1: "init_single o1 (p, d) (P, s) = Some (P1, s1)" "foldM (init_single o1) xs (P1, s1) = Some (Q, t)"
      using Cons.prems(1) by (auto simp: x bind_eq_Some_conv simp del: init_single.simps)
    show ?case using Cons.IH[OF 1(2)] init_single_ok[OF 1(1) Cons.prems(3,4)] Cons.prems(2) by (auto simp: x)
  qed simp
  from this[OF assms(1)[unfolded initialize_single_probs_def] _ assms(2,3)] show ?thesis by force
qed

lemma initialize_probs_wf:
  assumes "initialize_probs o1 msp_filter s = Some (o2, P, t)"
  shows "wf_probs P"
proof -
  have z: "names_ok empty_probs" "wf_probs empty_probs"
    by (simp_all add: names_ok_def wf_probs_def empty_probs_def map_le_def)
  have 0: "names_ok (set_single_name_maps empty_probs) \<and> wf_probs (set_single_name_maps empty_probs)"
    unfolding set_single_name_maps_def by (rule fold_names_ok[OF entry_names(6) z])
  obtain P0 s0 where 1: "initialize_single_probs o1 (set_single_name_maps empty_probs, s) = Some (P0, s0)"
    "initialize_group_probs o1 msp_filter (P0, s0) = Some (o2, P, t)"
    using assms by (auto simp: initialize_probs_def bind_eq_Some_conv)
  have w0: "names_ok P0 \<and> wf_probs P0" using initialize_single_probs_ok[OF 1(1)] 0 by blast
  define o3 where "o3 = (if opt_loops o1 then o1 else o1\<lparr>opt_arrays := False\<rparr>)"
  note fl = set_prob_filter_ok
  from 1(2) obtain P1 s1 P2 s2 P3 s3 P4 s4 P5 where
    a: "set_group_prob o3 False pStatementProb (statement_entries o3) (P0, s0) = Some (P1, s1)" and
    b: "set_group_prob o3 True pUnaryOpsProb (unary_entries o3) (P1, s1) = Some (P2, s2)" and
    c: "set_group_prob o3 True pBinaryOpsProb (binary_entries o3)
       (set_prob_filter o3 msp_filter pUnaryOpsProb P2, s2) = Some (P3, s3)" and
    d: "set_group_prob o3 True pSimpleTypesProb (type_entries o3)
       (set_prob_filter o3 msp_filter pBinaryOpsProb P3, s3) = Some (P4, s4)" and
    e: "set_group_prob o3 True pSafeOpsSizeProb (size_entries o3)
       (set_prob_filter o3 msp_filter pSimpleTypesProb P4, s4) = Some (P5, t)" and
    P: "P = set_prob_filter o3 msp_filter pSafeOpsSizeProb P5"
    unfolding initialize_group_probs_def Let_def o3_def[symmetric] by (auto simp: bind_eq_Some_conv)
  have "names_ok P1 \<and> wf_probs P1" using set_group_prob_ok[OF a _ _ entry_names(1) statement_defaults] w0 by blast
  then have "names_ok P2 \<and> wf_probs P2" using set_group_prob_ok[OF b _ _ entry_names(2) unary_defaults] by blast
  then have "names_ok P3 \<and> wf_probs P3" using set_group_prob_ok[OF c _ _ entry_names(3) binary_defaults] fl by blast
  then have "names_ok P4 \<and> wf_probs P4" using set_group_prob_ok[OF d _ _ entry_names(4) type_defaults] fl by blast
  then have "names_ok P5 \<and> wf_probs P5" using set_group_prob_ok[OF e _ _ entry_names(5) size_defaults] fl by blast
  then show ?thesis using fl P by blast
qed

text \<open>The names are there when they are needed.\<close>

definition named :: "probs \<Rightarrow> prob_name set" where
  "named P = dom (pr_pname_to_sname P)"

lemma named_get: "p \<in> named P \<longleftrightarrow> (\<exists>sn. get_sname P p = Some sn)"
  by (auto simp: named_def get_sname_def)

lemma named_set [simp]: "named (set_single_name sn p P) = insert p (named P)"
  by (simp add: named_def set_single_name_def)

lemma named_typed [simp]: "named (set_typed_name sn p n P) = insert p (named P)"
  by (simp add: named_def set_single_name_def set_typed_name_def)

lemma named_elems [simp]: "named (P\<lparr>pr_elems := f\<rparr>) = named P"
  by (simp add: named_def)

lemma named_filter [simp]: "named (set_prob_filter o1 f g P) = named P"
  by (simp add: named_def set_prob_filter_def Let_def)

lemma named_fold: "named (fold (\<lambda>(sn, p). set_single_name sn p) xs P) = named P \<union> snd ` set xs"
  by (induction xs arbitrary: P) auto

lemma named_fold_typed:
  "named (fold (\<lambda>(sn, p, n, v). set_typed_name sn p n) xs P) = named P \<union> (\<lambda>(sn, p, n, v). p) ` set xs"
  by (induction xs arbitrary: P) auto

lemma init_members_total:
  "\<not> opt_random_random o1 \<Longrightarrow> \<forall>(p, d) \<in> set ps. p \<in> named P \<and> 0 \<le> d \<and> d \<le> 100 \<Longrightarrow>
     \<exists>es valids. init_members o1 eq P invalid ps s = Some (es, valids, s)"
proof (induction ps)
  case (Cons m ps)
  then obtain es valids where e: "init_members o1 eq P invalid ps s = Some (es, valids, s)" by auto
  obtain p d where m: "m = (p, d)" by fastforce
  then obtain sn where "get_sname P p = Some sn" "0 \<le> d" "d \<le> 100" using Cons.prems(2) named_get by auto
  then show ?case using Cons.prems(1) e by (auto simp: m Let_def)
qed simp

lemma set_group_prob_total:
  assumes "\<not> opt_random_random o1" "PGroup g \<in> named P"
    "good_defaults eq (map (\<lambda>(sn, p, n, v). (p, v)) entries)"
  shows "\<exists>Q. set_group_prob o1 eq g entries (P, s) = Some (Q, s) \<and> named P \<subseteq> named Q"
proof -
  define P1 where "P1 = fold (\<lambda>(sn, p, n, v). set_typed_name sn p n) entries P"
  define ps where "ps = sort_key (pcode \<circ> fst) (map (\<lambda>(sn, p, n, v). (p, v)) entries)"
  have nm: "named P1 = named P \<union> (\<lambda>(sn, p, n, v). p) ` set entries" by (simp add: P1_def named_fold_typed)
  have "p \<in> named P1 \<and> 0 \<le> d \<and> d \<le> 100" if "(p, d) \<in> set ps" for p d
  proof -
    have pd: "(p, d) \<in> set (map (\<lambda>(sn, p, n, v). (p, v)) entries)" using that by (simp add: ps_def)
    then have "p \<in> named P1" by (force simp: nm)
    moreover have "0 \<le> d \<and> d \<le> 100" using pd assms(3) unfolding good_defaults_def by blast
    ultimately show ?thesis by blast
  qed
  then have "\<forall>(p, d) \<in> set ps. p \<in> named P1 \<and> 0 \<le> d \<and> d \<le> 100" by blast
  then obtain es valids where "init_members o1 eq P1 [100, 0] ps s = Some (es, valids, s)"
    using init_members_total[OF assms(1)] by blast
  moreover obtain gn where "get_sname P1 (PGroup g) = Some gn" using assms(2) nm named_get by blast
  ultimately have "set_group_prob o1 eq g entries (P, s) = Some (P1\<lparr>pr_elems := (pr_elems P1)(PGroup g \<mapsto> GroupE eq gn es)\<rparr>, s)"
    using assms(1) by (simp add: set_group_prob_def P1_def[symmetric] group_initialize_def ps_def[symmetric])
  then show ?thesis using nm by auto
qed

lemma set_group_prob_reaches:
  assumes "\<not> opt_random_random o1" "PGroup g \<in> N" "good_defaults eq (map (\<lambda>(sn, p, n, v). (p, v)) entries)" "N \<subseteq> named P"
  shows "\<exists>Q. set_group_prob o1 eq g entries (P, s) = Some (Q, s) \<and> N \<subseteq> named Q"
  using set_group_prob_total[OF assms(1) subsetD[OF assms(4,2)] assms(3)] assms(4) by (meson order_trans)

lemma init_singles_total:
  "\<not> opt_random_random o1 \<Longrightarrow> \<forall>(p, d) \<in> set xs. p \<in> named P \<and> 0 \<le> d \<and> d \<le> 100 \<Longrightarrow>
     \<exists>Q. foldM (init_single o1) xs (P, s) = Some (Q, s) \<and> named Q = named P"
proof (induction xs arbitrary: P)
  case (Cons m xs)
  obtain p d where m: "m = (p, d)" by fastforce
  then obtain sn where "get_sname P p = Some sn" "0 \<le> d" "d \<le> 100" using Cons.prems(2) named_get by auto
  then obtain Q where Q: "init_single o1 m (P, s) = Some (Q, s)" "named Q = named P" using Cons.prems(1) by (simp add: m)
  then show ?case using Cons.IH[of Q] Cons.prems by (auto simp del: init_single.simps)
qed simp

lemma initialize_probs_total:
  assumes r: "\<not> opt_random_random o1" and
    b: "0 \<le> opt_inline_function_prob o1" "opt_inline_function_prob o1 \<le> 100"
      "0 \<le> opt_builtin_function_prob o1" "opt_builtin_function_prob o1 \<le> 100"
  shows "initialize_probs o1 msp_filter s \<noteq> None"
proof -
  define P0 where "P0 = set_single_name_maps empty_probs"
  have n0: "named P0 = snd ` set single_names" by (simp add: P0_def set_single_name_maps_def named_fold) (simp add: named_def empty_probs_def)
  have "\<forall>(p, d) \<in> set (map (\<lambda>(p, d). (PSingle p, d)) (single_defaults o1)). p \<in> snd ` set single_names \<and> 0 \<le> d \<and> d \<le> 100"
    using b by (simp add: single_defaults_def single_names_def)
  then have "\<exists>Q. initialize_single_probs o1 (P0, s) = Some (Q, s) \<and> named Q = named P0"
    unfolding initialize_single_probs_def by (intro init_singles_total[OF r]) (simp add: n0)
  then obtain P1 where 1: "initialize_single_probs o1 (P0, s) = Some (P1, s)" "named P1 = named P0" by blast
  have g: "PGroup x \<in> named P1" if "x \<noteq> pAssignOpsProb" for x
    using that by (cases x) (simp_all add: 1(2) n0 single_names_def)
  define o3 where "o3 = (if opt_loops o1 then o1 else o1\<lparr>opt_arrays := False\<rparr>)"
  have r3: "\<not> opt_random_random o3" using r by (simp add: o3_def)
  let ?F = "set_prob_filter o3 msp_filter"
  note tot = set_group_prob_reaches[where N = "named P1", OF r3]
  obtain P2 where 2: "set_group_prob o3 False pStatementProb (statement_entries o3) (P1, s) = Some (P2, s)" "named P1 \<subseteq> named P2"
    using tot[OF g statement_defaults order_refl] by blast
  obtain P3 where 3: "set_group_prob o3 True pUnaryOpsProb (unary_entries o3) (P2, s) = Some (P3, s)" "named P1 \<subseteq> named P3"
    using tot[OF g unary_defaults 2(2)] by blast
  have f3: "named P1 \<subseteq> named (?F pUnaryOpsProb P3)" using 3(2) by simp
  obtain P4 where 4: "set_group_prob o3 True pBinaryOpsProb (binary_entries o3) (?F pUnaryOpsProb P3, s) = Some (P4, s)"
    "named P1 \<subseteq> named P4"
    using tot[OF g binary_defaults f3] by blast
  have f4: "named P1 \<subseteq> named (?F pBinaryOpsProb P4)" using 4(2) by simp
  obtain P5 where 5: "set_group_prob o3 True pSimpleTypesProb (type_entries o3) (?F pBinaryOpsProb P4, s) = Some (P5, s)"
    "named P1 \<subseteq> named P5"
    using tot[OF g type_defaults f4] by blast
  have f5: "named P1 \<subseteq> named (?F pSimpleTypesProb P5)" using 5(2) by simp
  obtain P6 where 6: "set_group_prob o3 True pSafeOpsSizeProb (size_entries o3) (?F pSimpleTypesProb P5, s) = Some (P6, s)"
    using tot[OF g size_defaults f5] by blast
  show ?thesis
    using 1(1) 2(1) 3(1) 4(1) 5(1) 6
    by (simp add: initialize_probs_def P0_def[symmetric] initialize_group_probs_def Let_def o3_def[symmetric])
qed

text \<open>C23: whatever the options and the random numbers, the table that the set-up builds is consistent: every
  probability is between 0 and 100 and the one of void is 0, a group with equal chances has only 0 and
  1 and some 1, in the other groups the positive values are distinct and one is 100, and every
  element can be found under the name it carries.  With fixed values the set-up always succeeds when the two
  probabilities among the options are between 0 and 100.\<close>

theorem initialize_probs_consistent:
  "(initialize_probs o1 msp_filter s = Some (o2, P, t) \<longrightarrow> wf_probs P) \<and>
    (\<not> opt_random_random o1 \<and> 0 \<le> opt_inline_function_prob o1 \<and> opt_inline_function_prob o1 \<le> 100 \<and>
     0 \<le> opt_builtin_function_prob o1 \<and> opt_builtin_function_prob o1 \<le> 100 \<longrightarrow>
     initialize_probs o1 msp_filter s \<noteq> None)"
  using initialize_probs_wf initialize_probs_total by blast

lemma initialize_probs_consistent_witness:
  "\<exists>o2 P t. initialize_probs (default_settings cgoptions_zero) (\<lambda>n. False) (rng_of []) = Some (o2, P, t) \<and> wf_probs P"
proof -
  have "initialize_probs (default_settings cgoptions_zero) (\<lambda>n. False) (rng_of []) \<noteq> None"
    by (rule initialize_probs_consistent[THEN conjunct2, THEN mp]) code_simp
  then obtain o2 P t where r: "initialize_probs (default_settings cgoptions_zero) (\<lambda>n. False) (rng_of []) = Some (o2, P, t)"
    by (metis not_None_eq prod_cases3)
  then have "wf_probs P" by (rule initialize_probs_consistent[THEN conjunct1, THEN mp])
  then show ?thesis using r by blast
qed

definition small_probs :: "int \<Rightarrow> int \<Rightarrow> probs" where
  "small_probs a b =
    (let P = set_single_name ''field_const_prob'' (PSingle pFieldConstProb) (set_single_name ''unary_not_prob'' (PUnary pNotProb)
        (set_single_name ''assign_unary_ops_prob'' (PGroup pUnaryOpsProb) empty_probs))
     in P\<lparr>pr_elems := [PSingle pFieldConstProb \<mapsto> SingleE \<lparr>se_sname = ''field_const_prob'', se_pname = PSingle pFieldConstProb,
          se_default = 20, se_val = a\<rparr>,
        PGroup pUnaryOpsProb \<mapsto> GroupE True ''assign_unary_ops_prob'' [(PUnary pNotProb,
          \<lparr>se_sname = ''unary_not_prob'', se_pname = PUnary pNotProb, se_default = 1, se_val = b\<rparr>)]]\<rparr>)"

lemma small_probs_wf: "wf_probs (small_probs 77 1)"
proof -
  have el: "pr_elems (small_probs 77 1) p = Some e \<Longrightarrow>
      (p, e) = (PSingle pFieldConstProb, SingleE \<lparr>se_sname = ''field_const_prob'', se_pname = PSingle pFieldConstProb,
          se_default = 20, se_val = 77\<rparr>) \<or>
      (p, e) = (PGroup pUnaryOpsProb, GroupE True ''assign_unary_ops_prob'' [(PUnary pNotProb,
          \<lparr>se_sname = ''unary_not_prob'', se_pname = PUnary pNotProb, se_default = 1, se_val = 1\<rparr>)])" for p e
    by (simp add: small_probs_def Let_def split: if_splits)
  have gp: "get_pname (small_probs 77 1) = [''assign_unary_ops_prob'' \<mapsto> PGroup pUnaryOpsProb,
      ''unary_not_prob'' \<mapsto> PUnary pNotProb, ''field_const_prob'' \<mapsto> PSingle pFieldConstProb]"
    by (rule ext) (simp add: small_probs_def Let_def get_pname_def set_single_name_def empty_probs_def)
  have cl: "clean ''field_const_prob''" "clean ''assign_unary_ops_prob''" "clean ''unary_not_prob''"
    by (simp_all add: clean_def name_char_def)
  show "wf_probs (small_probs 77 1)"
    unfolding wf_probs_def
  proof (intro allI impI)
    fix p e assume "pr_elems (small_probs 77 1) p = Some e"
    from el[OF this] show "wf_elem (small_probs 77 1) p e"
      by (elim disjE) (simp_all add: wf_member_def wf_values_def gp cl)
  qed
qed

lemma dump_parse_roundtrip_witness:
  "\<exists>text. dump_actual_probabilities (small_probs 77 1) 5 = Some text \<and>
     parse_configuration (small_probs 20 0) (Some text) = Some (Inr (small_probs 77 1))"
proof (rule dump_parse_roundtrip[OF small_probs_wf])
  show "same_shape (small_probs 20 0) (small_probs 77 1)"
    by (simp add: same_shape_def small_probs_def Let_def blank_def)
qed

text \<open>C37: a line \<open>name=value\<close> of a configuration file, for any integer value, is accepted exactly when the name is
  the one of a single probability and the value is between -1 and 100, and 0 for void. The value -1 stands for the
  default: the table stays as it is. Any other accepted value is set, nothing else changes, and the table stays
  consistent. A line that is not accepted stops the program by an assertion.\<close>

theorem parse_single_line_outcome:
  assumes "wf_probs P" "clean w"
  shows "(\<exists>p e. get_pname P w = Some p \<and> pr_elems P p = Some (SingleE e) \<and> -1 \<le> v \<and> v \<le> 100 \<and>
      (p = PType pVoidProb \<longrightarrow> v = 0) \<and>
      (let Q = (if v = -1 then P else P\<lparr>pr_elems := (pr_elems P)(p \<mapsto> SingleE (e\<lparr>se_val := v\<rparr>))\<rparr>)
       in parse_line P (single_text w v) = Some (Inr Q) \<and> wf_probs Q)) \<or>
    parse_line P (single_text w v) = None \<and>
      \<not> (\<exists>p e. get_pname P w = Some p \<and> pr_elems P p = Some (SingleE e) \<and> -1 \<le> v \<and> v \<le> 100 \<and>
          (p = PType pVoidProb \<longrightarrow> v = 0))"
proof -
  let ?t = "single_text w v"
  have h: "first_nonspace_char ?t = hd w" "hd w \<noteq> CHR 0x00"
    using clean_hd[OF assms(2)] first_nonspace_hd[of ?t] assms(2)
    by (auto simp: single_text_def clean_def name_char_def is_digit_def) (cases w; auto simp: name_char_def is_digit_def)
  then have pl: "parse_line P ?t = parse_single_probability P ?t" using clean_hd[OF assms(2)] by (simp add: parse_line_def)
  have ps: "parse_single_probability P ?t = do { assert_that (val_ok v); p \<leftarrow> get_pname P w; e \<leftarrow> pr_elems P p;
      e1 \<leftarrow> elem_set_prob p v e; Some (Inr (P\<lparr>pr_elems := (pr_elems P)(p \<mapsto> e1)\<rparr>)) }"
    using split_pair_all[OF assms(2)] parse_show_all by (simp add: parse_single_probability_def)
  have gp: "wf_elem (P\<lparr>pr_elems := f\<rparr>) q x = wf_elem P q x" for f q x
  proof -
    have "get_pname (P\<lparr>pr_elems := f\<rparr>) = get_pname P" by (rule ext) (simp add: get_pname_def)
    then show ?thesis using wf_elem_mono[of P q x "P\<lparr>pr_elems := f\<rparr>"] wf_elem_mono[of "P\<lparr>pr_elems := f\<rparr>" q x P]
      by (auto simp: map_le_refl)
  qed
  show ?thesis
  proof (cases "\<exists>p e. get_pname P w = Some p \<and> pr_elems P p = Some (SingleE e) \<and> -1 \<le> v \<and> v \<le> 100 \<and> (p = PType pVoidProb \<longrightarrow> v = 0)")
    case True
    then obtain p e where pe: "get_pname P w = Some p" "pr_elems P p = Some (SingleE e)" "-1 \<le> v" "v \<le> 100"
      "p = PType pVoidProb \<longrightarrow> v = 0" by blast
    have m: "wf_member P p e" using assms(1) pe(2) unfolding wf_probs_def by fastforce
    then have sp: "se_pname e = p" by (simp add: wf_member_def)
    let ?Q = "if v = -1 then P else P\<lparr>pr_elems := (pr_elems P)(p \<mapsto> SingleE (e\<lparr>se_val := v\<rparr>))\<rparr>"
    have "parse_line P ?t = Some (Inr ?Q) \<and> wf_probs ?Q"
    proof (cases "v = -1")
      case True
      have "P\<lparr>pr_elems := (pr_elems P)(p \<mapsto> SingleE e)\<rparr> = P" using pe(2) by (simp add: fun_upd_idem)
      then show ?thesis using True pl ps pe sp assms(1) by (simp add: val_ok_def single_set_prob_def)
    next
      case False
      then have v: "0 \<le> v" using pe(3) by simp
      then have "wf_member P p (e\<lparr>se_val := v\<rparr>)" using m pe(4,5) by (simp add: wf_member_def)
      then have "wf_probs (P\<lparr>pr_elems := (pr_elems P)(p \<mapsto> SingleE (e\<lparr>se_val := v\<rparr>))\<rparr>)"
        using assms(1) by (simp add: wf_probs_def gp)
      then show ?thesis using False v pl ps pe sp by (simp add: val_ok_def single_set_prob_def)
    qed
    then show ?thesis using pe unfolding Let_def by blast
  next
    case no: False
    have "parse_single_probability P ?t = None"
    proof (rule ccontr)
      assume "parse_single_probability P ?t \<noteq> None"
      then obtain p e e1 where e: "val_ok v" "get_pname P w = Some p" "pr_elems P p = Some e" "elem_set_prob p v e = Some e1"
        by (auto simp: ps bind_eq_Some_conv)
      have "wf_elem P p e" using assms(1) e(3) by (simp add: wf_probs_def)
      then show False using no e by (cases e) (auto simp: val_ok_def single_set_prob_def bind_eq_Some_conv map_of_eq_None_iff[symmetric])
    qed
    then show ?thesis using pl no by simp
  qed
qed

lemma parse_single_line_outcome_witness:
  "parse_line (small_probs 77 1) (single_text ''field_const_prob'' (-1)) = Some (Inr (small_probs 77 1)) \<and>
   parse_line (small_probs 77 1) (single_text ''field_const_prob'' (-2)) = None \<and>
   (\<exists>e. pr_elems (small_probs 77 1) (PSingle pFieldConstProb) = Some (SingleE e) \<and>
     parse_line (small_probs 77 1) (single_text ''field_const_prob'' 30) = Some (Inr ((small_probs 77 1)\<lparr>pr_elems :=
      (pr_elems (small_probs 77 1))(PSingle pFieldConstProb \<mapsto> SingleE (e\<lparr>se_val := 30\<rparr>))\<rparr>)))"
proof -
  let ?P = "small_probs 77 1" and ?p = "PSingle pFieldConstProb"
  have c: "clean ''field_const_prob''" by (simp add: clean_def name_char_def)
  have g: "get_pname ?P ''field_const_prob'' = Some ?p"
    by (simp add: small_probs_def Let_def get_pname_def set_single_name_def)
  obtain e where e: "pr_elems ?P ?p = Some (SingleE e)" by (simp add: small_probs_def Let_def)
  note th = parse_single_line_outcome[OF small_probs_wf c]
  show ?thesis using th[of "-1"] th[of "-2"] th[of 30] g e by (auto simp: Let_def)
qed

text \<open>The delimiters of a group line are not compared with the kind of the group: written with parentheses, a line
  may leave the group of statements without the value 100.\<close>

definition stm_probs :: "int \<Rightarrow> probs" where
  "stm_probs a =
    (let P = set_single_name ''statement_assign_prob'' (PStm pAssignProb) (set_single_name ''statement_prob'' (PGroup pStatementProb) empty_probs)
     in P\<lparr>pr_elems := [PGroup pStatementProb \<mapsto> GroupE False ''statement_prob'' [(PStm pAssignProb,
          \<lparr>se_sname = ''statement_assign_prob'', se_pname = PStm pAssignProb, se_default = 100, se_val = a\<rparr>)]]\<rparr>)"

lemma group_kind_unchecked:
  "\<exists>Q. parse_configuration (stm_probs 100) (Some ''(statement_prob,statement_assign_prob=1)'') = Some (Inr Q) \<and> \<not> wf_probs Q"
proof -
  have "case parse_configuration (stm_probs 100) (Some ''(statement_prob,statement_assign_prob=1)'') of
      Some (Inr Q) \<Rightarrow> pr_elems Q (PGroup pStatementProb) = Some (GroupE False ''statement_prob'' [(PStm pAssignProb,
        \<lparr>se_sname = ''statement_assign_prob'', se_pname = PStm pAssignProb, se_default = 100, se_val = 1\<rparr>)])
    | _ \<Rightarrow> False"
    by code_simp
  then obtain Q where Q: "parse_configuration (stm_probs 100) (Some ''(statement_prob,statement_assign_prob=1)'') = Some (Inr Q)"
    "pr_elems Q (PGroup pStatementProb) = Some (GroupE False ''statement_prob'' [(PStm pAssignProb,
        \<lparr>se_sname = ''statement_assign_prob'', se_pname = PStm pAssignProb, se_default = 100, se_val = 1\<rparr>)])"
    by (auto split: option.splits sum.splits)
  have "wf_probs Q \<Longrightarrow> wf_elem Q (PGroup pStatementProb) (GroupE False ''statement_prob'' [(PStm pAssignProb,
        \<lparr>se_sname = ''statement_assign_prob'', se_pname = PStm pAssignProb, se_default = 100, se_val = 1\<rparr>)])"
    using Q(2) unfolding wf_probs_def by blast
  then have "\<not> wf_probs Q" by (auto simp: wf_values_def)
  then show ?thesis using Q(1) by blast
qed

end
