(* ===== verification/Enumeration.thy ===== *)
theory Enumeration
  imports CVQual "HOL-Library.List_Lexorder" "HOL-Library.Char_ord"
begin

text \<open>
  Enumerator.h, and \<open>CVQualifiers::get_all_qualifiers\<close>: the odometer over named choices that the
  exhaustive mode uses for struct types and qualifiers.  The objects are kept in the order of their
  names, as \<open>std::map\<close> does; an iterator is an index, the end, or the singular iterator that
  \<open>--begin()\<close> yields, whose use is undefined.  The main result is that the loop
  \<open>for (i = e.begin(); i != e.end(); i = i->next())\<close> visits every combination of values exactly
  once, in lexicographic order, and ends.
\<close>

section \<open>Objects\<close>

record enum_obj =
  eo_bound :: int
  eo_current :: int
  eo_is_bool :: bool
  eo_bool_value :: bool
  eo_changed :: bool

definition new_enum_obj :: "int \<Rightarrow> bool \<Rightarrow> bool \<Rightarrow> enum_obj option" where
  "new_enum_obj b is_bool bool_value = do {
     assert_that (b > 0);
     Some \<lparr>eo_bound = b, eo_current = 0, eo_is_bool = is_bool, eo_bool_value = bool_value, eo_changed = False\<rparr> }"

definition eo_next :: "enum_obj \<Rightarrow> bool \<times> enum_obj" where
  "eo_next eo = (if eo_current eo + 1 < eo_bound eo
     then (True, eo\<lparr>eo_current := eo_current eo + 1, eo_changed := True\<rparr>) else (False, eo))"

definition good_value :: "enum_obj \<Rightarrow> bool" where
  "good_value eo \<longleftrightarrow> eo_current eo < eo_bound eo"

definition clear_value :: "enum_obj \<Rightarrow> enum_obj" where
  "clear_value eo = eo\<lparr>eo_current := 0\<rparr>"

definition reset_changed :: "enum_obj \<Rightarrow> enum_obj" where
  "reset_changed eo = eo\<lparr>eo_changed := False\<rparr>"

section \<open>The enumerator\<close>

datatype enum_iter = At nat | AtEnd | Singular

record 'n enumerator =
  objs :: "('n \<times> enum_obj) list"
  forward_pos :: enum_iter
  backward_pos :: enum_iter

definition new_enumerator :: "'n enumerator" where
  "new_enumerator = \<lparr>objs = [], forward_pos = AtEnd, backward_pos = AtEnd\<rparr>"

text \<open>Insertion into the map leaves iterators where they point.\<close>

fun map_insert :: "'n :: linorder \<Rightarrow> enum_obj \<Rightarrow> ('n \<times> enum_obj) list \<Rightarrow> ('n \<times> enum_obj) list" where
  "map_insert k v [] = [(k, v)]"
| "map_insert k v ((k', v') # kvs) = (if k < k' then (k, v) # (k', v') # kvs else (k', v') # map_insert k v kvs)"

fun shift_iter :: "nat \<Rightarrow> enum_iter \<Rightarrow> enum_iter" where
  "shift_iter p (At i) = (if p \<le> i then At (Suc i) else At i)"
| "shift_iter p it = it"

definition insert_obj :: "'n :: linorder \<Rightarrow> enum_obj \<Rightarrow> 'n enumerator \<Rightarrow> 'n enumerator" where
  "insert_obj k v e = (let p = length (takeWhile (\<lambda>(k', _). k' < k) (objs e)) in
     e\<lparr>objs := map_insert k v (objs e), forward_pos := shift_iter p (forward_pos e),
       backward_pos := shift_iter p (backward_pos e)\<rparr>)"

definition add_elem_enum :: "'n :: linorder \<Rightarrow> int \<Rightarrow> 'n enumerator \<Rightarrow> 'n enumerator option" where
  "add_elem_enum k b e = do {
     assert_that (map_of (objs e) k = None);
     eo \<leftarrow> new_enum_obj b False False;
     Some (insert_obj k eo e) }"

definition add_bool_elem_of_bool :: "'n :: linorder \<Rightarrow> bool \<Rightarrow> 'n enumerator \<Rightarrow> 'n enumerator option" where
  "add_bool_elem_of_bool k v e = do {
     assert_that (map_of (objs e) k = None);
     eo \<leftarrow> new_enum_obj (if v then 2 else 1) True False;
     Some (insert_obj k eo e) }"

definition add_bool_elem :: "'n :: linorder \<Rightarrow> int \<Rightarrow> 'n enumerator \<Rightarrow> 'n enumerator option" where
  "add_bool_elem k v e = do {
     let (b, bv) = (if v = 0 then (1, False) else if v = 100 then (1, True) else (2, False));
     assert_that (map_of (objs e) k = None);
     eo \<leftarrow> new_enum_obj b True bv;
     Some (insert_obj k eo e) }"

definition get_elem :: "'n \<Rightarrow> 'n enumerator \<Rightarrow> int option" where
  "get_elem k e = do {
     eo \<leftarrow> map_of (objs e) k;
     assert_that (eo_current eo \<ge> 0);
     Some (if eo_is_bool eo then of_bool (if eo_bound eo = 1 then eo_bool_value eo else eo_current eo \<noteq> 0)
           else eo_current eo) }"

definition is_changed :: "'n \<Rightarrow> 'n enumerator \<Rightarrow> bool option" where
  "is_changed k e = do { eo \<leftarrow> map_of (objs e) k; Some (eo_changed eo) }"

definition obj_at :: "'n enumerator \<Rightarrow> nat \<Rightarrow> enum_obj option" where
  "obj_at e i = do { (k, eo) \<leftarrow> vec_at (objs e) i; Some eo }"

definition set_obj :: "nat \<Rightarrow> enum_obj \<Rightarrow> 'n enumerator \<Rightarrow> 'n enumerator" where
  "set_obj i eo e = e\<lparr>objs := (objs e)[i := (fst (objs e ! i), eo)]\<rparr>"

section \<open>Iteration\<close>

text \<open>\<open>reset_pos\<close> moves back from the end once and twice; with one object the second step leaves
  the map.\<close>

definition reset_pos :: "'n enumerator \<Rightarrow> 'n enumerator option" where
  "reset_pos e = (let n = length (objs e) in do {
     assert_that (n > 0);
     Some (e\<lparr>forward_pos := At (n - 1), backward_pos := (if n = 1 then Singular else At (n - 2))\<rparr>) })"

text \<open>The boolean is whether the returned pointer is not null.\<close>

definition enum_begin :: "'n enumerator \<Rightarrow> (bool \<times> 'n enumerator) option" where
  "enum_begin e = do {
     e \<leftarrow> reset_pos e;
     eo \<leftarrow> obj_at e (length (objs e) - 1);
     Some (\<not> (forward_pos e = At 0 \<and> \<not> good_value eo), e) }"

definition reset_all_changed :: "'n enumerator \<Rightarrow> 'n enumerator" where
  "reset_all_changed e = e\<lparr>objs := map (\<lambda>(k, eo). (k, reset_changed eo)) (objs e)\<rparr>"

definition reset_after_backward_pos :: "nat \<Rightarrow> 'n enumerator \<Rightarrow> 'n enumerator" where
  "reset_after_backward_pos j e = e\<lparr>
     objs := take (Suc j) (objs e) @ map (\<lambda>(k, eo). (k, clear_value eo)) (drop (Suc j) (objs e)),
     forward_pos := (if Suc j < length (objs e) then At (Suc j) else AtEnd)\<rparr>"

fun roll_back :: "nat \<Rightarrow> 'n enumerator \<Rightarrow> (bool \<times> 'n enumerator) option" where
  "roll_back j e = do {
     eo \<leftarrow> obj_at e j;
     let (rv, eo') = eo_next eo;
     let e1 = set_obj j eo' (e\<lparr>backward_pos := At j\<rparr>);
     if rv then do { e2 \<leftarrow> reset_pos (reset_after_backward_pos j e1); Some (True, e2) }
     else (case j of 0 \<Rightarrow> Some (False, e1) | Suc k \<Rightarrow> roll_back k e1) }"

declare roll_back.simps [simp del]

definition roll_back_current_pos :: "'n enumerator \<Rightarrow> (bool \<times> 'n enumerator) option" where
  "roll_back_current_pos e = (case backward_pos e of At j \<Rightarrow> roll_back j e | _ \<Rightarrow> None)"

partial_function (option) enum_next :: "'n enumerator \<Rightarrow> (bool \<times> 'n enumerator) option" where
  "enum_next e = (case forward_pos e of
     At i \<Rightarrow> do {
       let e1 = reset_all_changed e;
       eo \<leftarrow> obj_at e1 i;
       let (rv, eo') = eo_next eo;
       let e2 = set_obj i eo' e1;
       if rv then Some (True, e2)
       else if Suc i < length (objs e2) then do { e3 \<leftarrow> reset_pos (e2\<lparr>forward_pos := At (Suc i)\<rparr>); enum_next e3 }
       else roll_back_current_pos (e2\<lparr>forward_pos := AtEnd\<rparr>) }
   | _ \<Rightarrow> None)"

text \<open>The loop over an enumerator.\<close>

partial_function (option) enum_loop ::
    "('n enumerator \<Rightarrow> 's \<Rightarrow> 's option) \<Rightarrow> 'n enumerator \<Rightarrow> 's \<Rightarrow> 's option" where
  "enum_loop body e s = do {
     s1 \<leftarrow> body e s;
     (ok, e1) \<leftarrow> enum_next e;
     if ok then enum_loop body e1 s1 else Some s1 }"

definition enum_for :: "('n enumerator \<Rightarrow> 's \<Rightarrow> 's option) \<Rightarrow> 'n enumerator \<Rightarrow> 's \<Rightarrow> 's option" where
  "enum_for body e s = do { (ok, e1) \<leftarrow> enum_begin e; if ok then enum_loop body e1 s else Some s }"

section \<open>The qualifiers of a field\<close>

definition qual_enumerator :: "int \<Rightarrow> int \<Rightarrow> string enumerator option" where
  "qual_enumerator const_prob volatile_prob = do {
     e \<leftarrow> add_bool_elem ''const_prob'' const_prob new_enumerator;
     add_bool_elem ''volatile_prob'' volatile_prob e }"

definition get_all_qualifiers :: "int \<Rightarrow> int \<Rightarrow> cvq list \<Rightarrow> cvq list option" where
  "get_all_qualifiers const_prob volatile_prob quals = do {
     e \<leftarrow> qual_enumerator const_prob volatile_prob;
     enum_for (\<lambda>i quals. do {
       isConst \<leftarrow> get_elem ''const_prob'' i;
       isVolatile \<leftarrow> get_elem ''volatile_prob'' i;
       Some (quals @ [cvq_new [isConst \<noteq> 0] [isVolatile \<noteq> 0]]) }) e quals }"

section \<open>The odometer\<close>

definition vals :: "'n enumerator \<Rightarrow> int list" where
  "vals e = map (eo_current \<circ> snd) (objs e)"

definition bounds :: "'n enumerator \<Rightarrow> int list" where
  "bounds e = map (eo_bound \<circ> snd) (objs e)"

text \<open>The successor of a vector of digits in lexicographic order, and the vectors from a given one on.\<close>

fun inc :: "int list \<Rightarrow> int list \<Rightarrow> int list option" where
  "inc (b # bs) (v # vs1) = (case inc bs vs1 of Some vs' \<Rightarrow> Some (v # vs')
     | None \<Rightarrow> if v + 1 < b then Some ((v + 1) # map (\<lambda>_. 0) vs1) else None)"
| "inc bs vs1 = None"

definition combinations :: "int list \<Rightarrow> int list list" where
  "combinations bs = product_lists (map (\<lambda>b. [0..b - 1]) bs)"

fun combinations_from :: "int list \<Rightarrow> int list \<Rightarrow> int list list" where
  "combinations_from (b # bs) (v # vs1) =
     map ((#) v) (combinations_from bs vs1) @ concat (map (\<lambda>w. map ((#) w) (combinations bs)) [v + 1..b - 1])"
| "combinations_from bs vs1 = [[]]"

definition in_bounds :: "int list \<Rightarrow> int list \<Rightarrow> bool" where
  "in_bounds bs vs1 = list_all2 (\<lambda>b v. 0 \<le> v \<and> v < b) bs vs1"

lemma combinations_simps [simp]:
  "combinations [] = [[]]"
  "combinations (b # bs) = concat (map (\<lambda>w. map ((#) w) (combinations bs)) [0..b - 1])"
  by (simp_all add: combinations_def)

lemma in_bounds_simps [simp]:
  "in_bounds [] vs1 \<longleftrightarrow> vs1 = []"
  "in_bounds (b # bs) vs1 \<longleftrightarrow> (\<exists>v ws. vs1 = v # ws \<and> 0 \<le> v \<and> v < b \<and> in_bounds bs ws)"
  by (auto simp: in_bounds_def list_all2_Cons1)

lemma in_bounds_length: "in_bounds bs vs1 \<Longrightarrow> length vs1 = length bs"
  by (auto simp: in_bounds_def dest: list_all2_lengthD)

lemma combinations_zero:
  "list_all (\<lambda>b. 0 < b) bs \<Longrightarrow> combinations_from bs (map (\<lambda>_. 0) bs) = combinations bs"
  by (induction bs) (auto simp: upto_rec1)

lemma in_bounds_zero: "in_bounds bs (map (\<lambda>_. 0) ws) \<longleftrightarrow> length ws = length bs \<and> list_all (\<lambda>b. 0 < b) bs"
  by (induction bs arbitrary: ws) (auto simp: length_Suc_conv Suc_length_conv map_eq_Cons_conv)

lemma in_bounds_positive: "in_bounds bs vs1 \<Longrightarrow> list_all (\<lambda>b. 0 < b) bs"
  by (auto simp: in_bounds_def list_all_length list_all2_conv_all_nth intro: le_less_trans)

lemma inc_correct:
  assumes "in_bounds bs vs1"
  shows "combinations_from bs vs1 = (case inc bs vs1 of None \<Rightarrow> [vs1] | Some ws \<Rightarrow> vs1 # combinations_from bs ws)"
    "inc bs vs1 = Some ws \<Longrightarrow> in_bounds bs ws"
proof -
  have "combinations_from bs vs1 = (case inc bs vs1 of None \<Rightarrow> [vs1] | Some ws \<Rightarrow> vs1 # combinations_from bs ws) \<and>
    (\<forall>ws. inc bs vs1 = Some ws \<longrightarrow> in_bounds bs ws)"
    using assms
  proof (induction bs arbitrary: vs1)
    case (Cons b bs)
    then obtain v ws where vs1: "vs1 = v # ws" "0 \<le> v" "v < b" "in_bounds bs ws" by auto
    note IH = Cons.IH[OF vs1(4)]
    have z: "map (\<lambda>_. 0) ws = map (\<lambda>_. 0 :: int) bs"
      using in_bounds_length[OF vs1(4)] by (simp add: map_replicate_const)
    have pos: "list_all (\<lambda>b. 0 < b) bs" using in_bounds_positive[OF vs1(4)] .
    show ?case
    proof (cases "inc bs ws")
      case (Some us)
      then show ?thesis using IH vs1 by auto
    next
      case None
      then have c: "combinations_from bs ws = [ws]" using IH by simp
      show ?thesis
      proof (cases "v + 1 < b")
        case True
        have "combinations_from bs (map (\<lambda>_. 0) ws) = combinations bs"
          unfolding z by (rule combinations_zero[OF pos])
        moreover have "[v + 1..b - 1] = (v + 1) # [v + 1 + 1..b - 1]" using True by (intro upto_rec1) simp
        ultimately show ?thesis
          using None c vs1 True pos in_bounds_length[OF vs1(4)] by (simp add: in_bounds_zero)
      next
        case False
        then show ?thesis using None c vs1 by simp
      qed
    qed
  qed simp
  then show "combinations_from bs vs1 = (case inc bs vs1 of None \<Rightarrow> [vs1] | Some ws \<Rightarrow> vs1 # combinations_from bs ws)"
    "inc bs vs1 = Some ws \<Longrightarrow> in_bounds bs ws" by blast+
qed

lemma inc_append:
  assumes "length ps = length us"
  shows "inc (ps @ bs) (us @ vs1) = (case inc bs vs1 of Some ws \<Rightarrow> Some (us @ ws)
     | None \<Rightarrow> map_option (\<lambda>x. x @ map (\<lambda>_. 0) vs1) (inc ps us))"
  using assms by (induction ps us rule: list_induct2) (auto split: option.splits)

lemma inc_single: "inc [b] [v] = (if v + 1 < b then Some [v + 1] else None)"
  by simp

text \<open>What the steps of the enumerator leave alone, and the position they restore.\<close>

definition frame :: "'n enumerator \<Rightarrow> ('n \<times> enum_obj) list" where
  "frame e = map (\<lambda>(k, eo). (k, eo\<lparr>eo_current := 0, eo_changed := False\<rparr>)) (objs e)"

definition positioned :: "'n enumerator \<Rightarrow> bool" where
  "positioned e \<longleftrightarrow> 2 \<le> length (objs e) \<and> forward_pos e = At (length (objs e) - 1) \<and>
     backward_pos e = At (length (objs e) - 2)"

lemma frame_bounds: "frame e' = frame e \<Longrightarrow> bounds e' = bounds e"
proof -
  have b: "bounds e = map (eo_bound \<circ> snd) (frame e)" for e :: "'n enumerator"
    by (simp add: bounds_def frame_def case_prod_unfold comp_def)
  show "frame e' = frame e \<Longrightarrow> bounds e' = bounds e" by (simp add: b)
qed

lemma frame_length: "frame e' = frame e \<Longrightarrow> length (objs e') = length (objs e)"
  by (metis frame_def length_map)

lemma vals_length [simp]: "length (vals e) = length (objs e)" "length (bounds e) = length (objs e)"
  by (simp_all add: vals_def bounds_def)

lemma obj_at_iff [simp]: "obj_at e i = (if i < length (objs e) then Some (snd (objs e ! i)) else None)"
  by (auto simp: obj_at_def vec_at_def case_prod_unfold)

lemma vals_nth: "i < length (objs e) \<Longrightarrow> vals e ! i = eo_current (snd (objs e ! i))"
  "i < length (objs e) \<Longrightarrow> bounds e ! i = eo_bound (snd (objs e ! i))"
  by (simp_all add: vals_def bounds_def)

lemma eo_next_simps:
  "eo_current eo + 1 < eo_bound eo \<Longrightarrow> eo_next eo = (True, eo\<lparr>eo_current := eo_current eo + 1, eo_changed := True\<rparr>)"
  "\<not> eo_current eo + 1 < eo_bound eo \<Longrightarrow> eo_next eo = (False, eo)"
  by (simp_all add: eo_next_def)

lemma set_obj_simps [simp]:
  "length (objs (set_obj i eo e)) = length (objs e)" "forward_pos (set_obj i eo e) = forward_pos e"
  "backward_pos (set_obj i eo e) = backward_pos e"
  "i < length (objs e) \<Longrightarrow> set_obj i (snd (objs e ! i)) e = e"
  "set_obj i eo (e\<lparr>backward_pos := it\<rparr>) = (set_obj i eo e)\<lparr>backward_pos := it\<rparr>"
  by (simp_all add: set_obj_def)

lemma vals_set_obj: "vals (set_obj i eo e) = (vals e)[i := eo_current eo]"
  by (simp add: vals_def set_obj_def map_update)

lemma frame_set_obj:
  "i < length (objs e) \<Longrightarrow> frame (set_obj i ((snd (objs e ! i))\<lparr>eo_current := v, eo_changed := c\<rparr>) e) = frame e"
  by (auto simp: frame_def set_obj_def map_update case_prod_unfold intro!: nth_equalityI simp: nth_list_update)

lemma reset_after_simps:
  "vals (reset_after_backward_pos j e) = take (Suc j) (vals e) @ map (\<lambda>_. 0) (drop (Suc j) (vals e))"
  "frame (reset_after_backward_pos j e) = frame e"
  "length (objs (reset_after_backward_pos j e)) = length (objs e)"
proof -
  have split: "map f (objs e) = map f (take (Suc j) (objs e)) @ map f (drop (Suc j) (objs e))" for f :: "'a \<times> enum_obj \<Rightarrow> 'b"
    by (simp flip: map_append)
  show "vals (reset_after_backward_pos j e) = take (Suc j) (vals e) @ map (\<lambda>_. 0) (drop (Suc j) (vals e))"
    by (simp add: vals_def reset_after_backward_pos_def clear_value_def case_prod_unfold take_map drop_map)
  show "frame (reset_after_backward_pos j e) = frame e"
    unfolding frame_def split by (simp add: reset_after_backward_pos_def clear_value_def case_prod_unfold)
  show "length (objs (reset_after_backward_pos j e)) = length (objs e)"
    by (simp add: reset_after_backward_pos_def)
qed

lemma reset_pos_positioned:
  assumes "2 \<le> length (objs e)"
  obtains e' where "reset_pos e = Some e'" "positioned e'" "vals e' = vals e" "frame e' = frame e" "objs e' = objs e"
proof -
  let ?e = "e\<lparr>forward_pos := At (length (objs e) - 1), backward_pos := At (length (objs e) - 2)\<rparr>"
  have "objs e \<noteq> []" using assms by auto
  then have "reset_pos e = Some ?e" "positioned ?e" using assms by (auto simp: reset_pos_def positioned_def Let_def)
  then show thesis using that by (simp add: vals_def frame_def)
qed

lemma vals_iterators [simp]:
  "vals (e\<lparr>forward_pos := it\<rparr>) = vals e" "vals (e\<lparr>backward_pos := it\<rparr>) = vals e"
  "bounds (e\<lparr>forward_pos := it\<rparr>) = bounds e" "bounds (e\<lparr>backward_pos := it\<rparr>) = bounds e"
  "frame (e\<lparr>forward_pos := it\<rparr>) = frame e" "frame (e\<lparr>backward_pos := it\<rparr>) = frame e"
  by (simp_all add: vals_def bounds_def frame_def)

lemma inc_drop:
  assumes "j < length (objs e)" "inc (drop (Suc j) (bounds e)) (drop (Suc j) (vals e)) = None"
  shows "inc (drop j (bounds e)) (drop j (vals e)) =
    (if vals e ! j + 1 < bounds e ! j then Some ((vals e ! j + 1) # map (\<lambda>_. 0) (drop (Suc j) (vals e))) else None)"
proof -
  have "drop j (bounds e) = bounds e ! j # drop (Suc j) (bounds e)" "drop j (vals e) = vals e ! j # drop (Suc j) (vals e)"
    using assms(1) by (simp_all add: Cons_nth_drop_Suc)
  then show ?thesis using assms(2) by simp
qed

lemma inc_take:
  "inc (bounds e) (vals e) = (case inc (drop j (bounds e)) (drop j (vals e)) of Some ws \<Rightarrow> Some (take j (vals e) @ ws)
     | None \<Rightarrow> map_option (\<lambda>x. x @ map (\<lambda>_. 0) (drop j (vals e))) (inc (take j (bounds e)) (take j (vals e))))"
  using inc_append[of "take j (bounds e)" "take j (vals e)" "drop j (bounds e)" "drop j (vals e)"] by simp

definition advanced :: "'n enumerator \<Rightarrow> bool \<times> 'n enumerator \<Rightarrow> bool" where
  "advanced e r \<longleftrightarrow> frame (snd r) = frame e \<and> (case inc (bounds e) (vals e) of None \<Rightarrow> \<not> fst r
     | Some ws \<Rightarrow> fst r \<and> vals (snd r) = ws \<and> positioned (snd r))"

lemma roll_back_step:
  assumes "2 \<le> length (objs e)" "j < length (objs e)"
  shows "vals e ! j + 1 < bounds e ! j \<Longrightarrow> \<exists>e'. roll_back j e = Some (True, e') \<and> frame e' = frame e \<and> positioned e' \<and>
      vals e' = take j (vals e) @ (vals e ! j + 1) # map (\<lambda>_. 0) (drop (Suc j) (vals e))"
    "\<not> vals e ! j + 1 < bounds e ! j \<Longrightarrow> roll_back j e =
      (case j of 0 \<Rightarrow> Some (False, e\<lparr>backward_pos := At j\<rparr>) | Suc k \<Rightarrow> roll_back k (e\<lparr>backward_pos := At j\<rparr>))"
proof -
  let ?o = "snd (objs e ! j)"
  {
    assume less: "vals e ! j + 1 < bounds e ! j"
    define e1 where "e1 = set_obj j (?o\<lparr>eo_current := eo_current ?o + 1, eo_changed := True\<rparr>) (e\<lparr>backward_pos := At j\<rparr>)"
    have e1: "length (objs e1) = length (objs e)" "frame e1 = frame e" "vals e1 = (vals e)[j := vals e ! j + 1]"
      using assms(2) by (simp_all add: e1_def frame_set_obj vals_set_obj vals_nth)
    obtain e' where e': "reset_pos (reset_after_backward_pos j e1) = Some e'" "positioned e'"
      "vals e' = vals (reset_after_backward_pos j e1)" "frame e' = frame e1"
      using reset_pos_positioned[of "reset_after_backward_pos j e1"] assms(1) e1(1)
      by (auto simp: reset_after_simps)
    have "roll_back j e = Some (True, e')"
      using less assms(2) e'(1) by (subst roll_back.simps) (simp add: eo_next_simps vals_nth e1_def)
    moreover have "vals e' = take j (vals e) @ (vals e ! j + 1) # map (\<lambda>_. 0) (drop (Suc j) (vals e))"
    proof -
      have "take (Suc j) ((vals e)[j := x]) = take j (vals e) @ [x]" for x
        using assms(2) take_Suc_conv_app_nth[of j "(vals e)[j := x]"] by simp
      then show ?thesis unfolding e'(3) reset_after_simps(1) e1(3) by (simp only: append.assoc append_Cons append_Nil drop_update_cancel lessI)
    qed
    ultimately show "\<exists>e'. roll_back j e = Some (True, e') \<and> frame e' = frame e \<and> positioned e' \<and>
        vals e' = take j (vals e) @ (vals e ! j + 1) # map (\<lambda>_. 0) (drop (Suc j) (vals e))"
      using e'(2,4) e1(2) by (intro exI[of _ e'] conjI) simp_all
  }
  assume "\<not> vals e ! j + 1 < bounds e ! j"
  then have no: "eo_next ?o = (False, ?o)" using assms(2) by (simp add: eo_next_simps vals_nth)
  have same: "set_obj j ?o (e\<lparr>backward_pos := At j\<rparr>) = e\<lparr>backward_pos := At j\<rparr>"
    using set_obj_simps(4)[of j "e\<lparr>backward_pos := At j\<rparr>"] assms(2) by simp
  show "roll_back j e = (case j of 0 \<Rightarrow> Some (False, e\<lparr>backward_pos := At j\<rparr>) | Suc k \<Rightarrow> roll_back k (e\<lparr>backward_pos := At j\<rparr>))"
    by (subst roll_back.simps) (simp only: obj_at_iff assms(2) if_True bind.bind_lunit no Let_def prod.case same if_False)
qed

lemma roll_back_correct:
  assumes "2 \<le> length (objs e)" "j < length (objs e)"
    "inc (drop (Suc j) (bounds e)) (drop (Suc j) (vals e)) = None"
  shows "\<exists>r. roll_back j e = Some r \<and> advanced e r"
  using assms
proof (induction j arbitrary: e)
  case (0 e)
  note d = inc_drop[OF 0(2,3), unfolded drop_0]
  show ?case
  proof (cases "vals e ! 0 + 1 < bounds e ! 0")
    case True
    then obtain e' where "roll_back 0 e = Some (True, e')" "frame e' = frame e" "positioned e'"
      "vals e' = take 0 (vals e) @ (vals e ! 0 + 1) # map (\<lambda>_. 0) (drop (Suc 0) (vals e))"
      using roll_back_step(1)[OF 0(1,2)] by blast
    then show ?thesis using True d by (auto simp: advanced_def)
  next
    case False
    then show ?thesis using d roll_back_step(2)[OF 0(1,2)] by (auto simp: advanced_def)
  qed
next
  case (Suc j)
  note d = inc_drop[OF Suc(3,4)] inc_take[of e "Suc j"]
  show ?case
  proof (cases "vals e ! Suc j + 1 < bounds e ! Suc j")
    case True
    then obtain e' where "roll_back (Suc j) e = Some (True, e')" "frame e' = frame e" "positioned e'"
      "vals e' = take (Suc j) (vals e) @ (vals e ! Suc j + 1) # map (\<lambda>_. 0) (drop (Suc (Suc j)) (vals e))"
      using roll_back_step(1)[OF Suc(2,3)] by blast
    then show ?thesis using True d by (auto simp: advanced_def)
  next
    case False
    let ?e = "e\<lparr>backward_pos := At (Suc j)\<rparr>"
    have "inc (drop (Suc j) (bounds ?e)) (drop (Suc j) (vals ?e)) = None" using d(1) False by simp
    from Suc.IH[OF _ _ this] Suc(2,3) obtain r where r: "roll_back j ?e = Some r" "advanced ?e r" by auto
    then show ?thesis using roll_back_step(2)[OF Suc(2,3) False] by (simp add: advanced_def)
  qed
qed

text \<open>One step of the loop: the next combination, or the end.\<close>

lemma reset_all_changed_simps [simp]:
  "vals (reset_all_changed e) = vals e" "bounds (reset_all_changed e) = bounds e"
  "frame (reset_all_changed e) = frame e" "length (objs (reset_all_changed e)) = length (objs e)"
  "forward_pos (reset_all_changed e) = forward_pos e" "backward_pos (reset_all_changed e) = backward_pos e"
  by (simp_all add: reset_all_changed_def vals_def bounds_def frame_def reset_changed_def case_prod_unfold comp_def)

lemma enum_next_correct:
  assumes "positioned e"
  shows "\<exists>r. enum_next e = Some r \<and> advanced e r"
proof -
  define n where "n = length (objs e) - 1"
  define e1 where "e1 = reset_all_changed e"
  have n: "2 \<le> length (objs e)" "n < length (objs e)" "length (objs e) = Suc n" "forward_pos e = At n" "backward_pos e = At (n - 1)"
    using assms by (auto simp: positioned_def n_def)
  have e1: "length (objs e1) = length (objs e)" "vals e1 = vals e" "bounds e1 = bounds e" "frame e1 = frame e"
    "backward_pos e1 = backward_pos e" "forward_pos e1 = At n"
    using n by (simp_all add: e1_def)
  have last: "inc (drop (Suc n) (bounds e1)) (drop (Suc n) (vals e1)) = None" using n e1 by simp
  note d = inc_drop[of n e1, OF _ last] inc_take[of e1 n]
  show ?thesis
  proof (cases "vals e ! n + 1 < bounds e ! n")
    case True
    let ?o = "snd (objs e1 ! n)"
    define e2 where "e2 = set_obj n (?o\<lparr>eo_current := eo_current ?o + 1, eo_changed := True\<rparr>) e1"
    have o: "eo_current ?o = vals e ! n" "eo_bound ?o = bounds e ! n"
      using n e1 vals_nth[of n e1] by simp_all
    have "enum_next e = Some (True, e2)"
      using n True by (subst enum_next.simps) (simp add: e1_def[symmetric] e1 o eo_next_simps e2_def)
    moreover have "vals e2 = take n (vals e) @ [vals e ! n + 1]"
      using n e1 o by (simp add: e2_def vals_set_obj list_update_append1 take_Suc_conv_app_nth upd_conv_take_nth_drop)
    moreover have "frame e2 = frame e" "positioned e2"
      using n e1 assms by (simp_all add: e2_def frame_set_obj positioned_def)
    ultimately show ?thesis using d n e1 True by (auto simp: advanced_def)
  next
    case False
    let ?e = "e1\<lparr>forward_pos := AtEnd\<rparr>"
    have o: "eo_current (snd (objs e1 ! n)) = vals e ! n" "eo_bound (snd (objs e1 ! n)) = bounds e ! n"
      using n e1 vals_nth[of n e1] by simp_all
    have "enum_next e = roll_back (n - 1) ?e"
      using n False by (subst enum_next.simps) (simp add: e1_def[symmetric] e1 o eo_next_simps roll_back_current_pos_def)
    moreover have "inc (drop (Suc (n - 1)) (bounds ?e)) (drop (Suc (n - 1)) (vals ?e)) = None"
      using n e1 d(1) False by simp
    from roll_back_correct[OF _ _ this] n e1 have "\<exists>r. roll_back (n - 1) ?e = Some r \<and> advanced ?e r" by simp
    then obtain r where "roll_back (n - 1) ?e = Some r" "advanced ?e r" by blast
    ultimately show ?thesis using e1 by (auto simp: advanced_def)
  qed
qed

section \<open>The loop visits every combination once\<close>

lemma enum_loop_from:
  assumes "positioned e" "in_bounds (bounds e) (vals e)"
    "\<And>e' s. frame e' = frame e \<Longrightarrow> body e' s = B (vals e') s"
  shows "enum_loop body e s = foldM B (combinations_from (bounds e) (vals e)) s"
  using assms
proof (induction "length (combinations_from (bounds e) (vals e))" arbitrary: e s rule: less_induct)
  case (less e s)
  note frm = less(4)
  obtain ok e1 where r: "enum_next e = Some (ok, e1)" "advanced e (ok, e1)"
    using enum_next_correct[OF less(2)] by (metis prod.exhaust)
  note i = inc_correct[OF less(3)]
  have unf: "enum_loop body e s = B (vals e) s \<bind> (\<lambda>s1. if ok then enum_loop body e1 s1 else Some s1)"
    by (subst enum_loop.simps) (simp add: r(1) frm)
  show ?case
  proof (cases "inc (bounds e) (vals e)")
    case None
    then show ?thesis using r(2) i(1) unf by (cases "B (vals e) s") (simp_all add: advanced_def)
  next
    case (Some ws)
    then have e1: ok "frame e1 = frame e" "vals e1 = ws" "positioned e1" "bounds e1 = bounds e"
      using r(2) frame_bounds by (auto simp: advanced_def)
    have c: "combinations_from (bounds e) (vals e) = vals e # combinations_from (bounds e1) (vals e1)"
      using i(1) Some e1 by simp
    have "enum_loop body e1 s1 = foldM B (combinations_from (bounds e1) (vals e1)) s1" for s1
      using less(1)[of e1 s1] c e1 i(2)[OF Some] frm by simp
    then show ?thesis using unf c e1(1) by (cases "B (vals e) s") simp_all
  qed
qed

lemma set_combinations: "set (combinations bs) = {vs1. in_bounds bs vs1}"
  by (induction bs) (auto simp: image_iff)

lemma distinct_combinations: "distinct (combinations bs)"
proof (induction bs)
  case (Cons b bs)
  have "distinct (concat (map (\<lambda>w. map ((#) w) (combinations bs)) ws))" if "distinct ws" for ws :: "int list"
    using that Cons by (induction ws) (auto simp: distinct_map)
  then show ?case by simp
qed simp

text \<open>A new enumerator has all its values at 0.\<close>

definition fresh :: "'n enumerator \<Rightarrow> bool" where
  "fresh e \<longleftrightarrow> (\<forall>(k, eo) \<in> set (objs e). eo_current eo = 0 \<and> 0 < eo_bound eo)"

lemma fresh_vals:
  assumes "fresh e"
  shows "vals e = map (\<lambda>_. 0) (bounds e)" "list_all (\<lambda>b. 0 < b) (bounds e)"
  using assms by (auto simp: fresh_def vals_def bounds_def list_all_iff comp_def)

lemma enum_for_foldM:
  assumes "2 \<le> length (objs e)" "fresh e"
    "\<And>e' s. frame e' = frame e \<Longrightarrow> body e' s = B (vals e') s"
  shows "enum_for body e s = foldM B (combinations (bounds e)) s"
proof -
  note f = fresh_vals[OF assms(2)]
  obtain e' where e': "reset_pos e = Some e'" "positioned e'" "vals e' = vals e" "frame e' = frame e" "objs e' = objs e"
    using reset_pos_positioned[OF assms(1)] .
  have b: "bounds e' = bounds e" by (rule frame_bounds[OF e'(4)])
  have inb: "in_bounds (bounds e') (vals e')"
    unfolding b e'(3) f(1) in_bounds_zero using f(2) by simp
  have "forward_pos e' \<noteq> At 0" using e'(2) assms(1) by (simp add: positioned_def e'(5))
  moreover have "objs e \<noteq> []" using assms(1) by auto
  ultimately have "enum_begin e = Some (True, e')" using e'(1,5) by (simp add: enum_begin_def)
  then have "enum_for body e s = enum_loop body e' s" by (simp add: enum_for_def)
  also have "\<dots> = foldM B (combinations_from (bounds e') (vals e')) s"
    by (rule enum_loop_from[OF e'(2) inb]) (simp add: assms(3) e'(4))
  also have "\<dots> = foldM B (combinations (bounds e)) s"
    unfolding b e'(3) f(1) by (simp add: combinations_zero[OF f(2)])
  finally show ?thesis .
qed

definition bool_obj :: "int \<Rightarrow> enum_obj" where
  "bool_obj p = \<lparr>eo_bound = (if p = 0 \<or> p = 100 then 1 else 2), eo_current = 0, eo_is_bool = True,
     eo_bool_value = (p = 100), eo_changed = False\<rparr>"

text \<open>C39: The loop over a new enumerator with at least two elements calls its body once for every
  combination of values within the bounds, in lexicographic order, and ends; if a call of the body
  aborts, so does the loop.\<close>

theorem enum_for_visits_all:
  assumes "2 \<le> length (objs e)" "fresh e"
    "\<And>e' s. frame e' = frame e \<Longrightarrow> body e' s = B (vals e') s"
  shows "enum_for body e s = foldM B (combinations (bounds e)) s \<and>
    distinct (combinations (bounds e)) \<and> set (combinations (bounds e)) = {vs1. in_bounds (bounds e) vs1}"
proof -
  have "enum_for body e s = foldM B (combinations (bounds e)) s"
    by (rule enum_for_foldM[OF assms(1,2)]) (rule assms(3))
  then show ?thesis by (simp add: set_combinations distinct_combinations)
qed

theorem enum_for_visits_all_witness:
  "enum_for (\<lambda>e acc. Some (acc @ [vals e])) \<lparr>objs = [(''a'', bool_obj 50), (''b'', bool_obj 50)],
     forward_pos = AtEnd, backward_pos = AtEnd\<rparr> [] = Some [[0, 0], [0, 1], [1, 0], [1, 1]]"
  using enum_for_visits_all[of "\<lparr>objs = [(''a'', bool_obj 50), (''b'', bool_obj 50)], forward_pos = AtEnd, backward_pos = AtEnd\<rparr>"
     "\<lambda>e acc. Some (acc @ [vals e])" "\<lambda>ws acc. Some (acc @ [ws])" "[]"]
  by (simp add: fresh_def bool_obj_def bounds_def upto.simps)

section \<open>The qualifiers enumerated\<close>

definition levels :: "int \<Rightarrow> bool list" where
  "levels p = (if p = 0 then [False] else if p = 100 then [True] else [False, True])"

definition level_of :: "int \<Rightarrow> int \<Rightarrow> bool" where
  "level_of p v = (if p = 0 \<or> p = 100 then p = 100 else v \<noteq> 0)"

lemma add_bool_elem_bool_obj:
  "map_of (objs e) k = None \<Longrightarrow> add_bool_elem k p e = Some (insert_obj k (bool_obj p) e)"
  by (auto simp: add_bool_elem_def new_enum_obj_def bool_obj_def)

lemma qual_enumerator_objs:
  "\<exists>e. qual_enumerator cp vp = Some e \<and> objs e = [(''const_prob'', bool_obj cp), (''volatile_prob'', bool_obj vp)]"
proof -
  have less: "''const_prob'' < (''volatile_prob'' :: string)" "\<not> ''volatile_prob'' < (''const_prob'' :: string)"
    by (simp_all add: less_char_def of_char_def)
  show ?thesis
    by (simp add: qual_enumerator_def add_bool_elem_bool_obj insert_obj_def new_enumerator_def less Let_def)
qed

lemma bool_obj_frame:
  assumes "frame e' = frame e" "objs e = [(k1, bool_obj p1), (k2, bool_obj p2)]" "k1 \<noteq> k2"
  obtains a b where "vals e' = [a, b]"
    "get_elem k1 e' = do { assert_that (a \<ge> 0); Some (of_bool (level_of p1 a)) }"
    "get_elem k2 e' = do { assert_that (b \<ge> 0); Some (of_bool (level_of p2 b)) }"
proof -
  obtain o1 o2 where o': "objs e' = [(k1, o1), (k2, o2)]"
    "o1\<lparr>eo_current := 0, eo_changed := False\<rparr> = bool_obj p1" "o2\<lparr>eo_current := 0, eo_changed := False\<rparr> = bool_obj p2"
    using assms(1,2) by (auto simp: frame_def bool_obj_def map_eq_Cons_conv)
  then have "eo_is_bool o1" "eo_bound o1 = (if p1 = 0 \<or> p1 = 100 then 1 else 2)" "eo_bool_value o1 = (p1 = 100)"
    "eo_is_bool o2" "eo_bound o2 = (if p2 = 0 \<or> p2 = 100 then 1 else 2)" "eo_bool_value o2 = (p2 = 100)"
    by (cases o1; cases o2; auto simp: bool_obj_def)+
  with o'(1) assms(3) show thesis
    using that[of "eo_current o1" "eo_current o2"] by (simp add: vals_def get_elem_def level_of_def)
qed

lemma upto_bool: "[0..1 :: int] = [0, 1]"
  by (simp add: upto.simps)

text \<open>The qualifiers enumerated for struct fields are all the combinations of a const level and a
  volatile level that the two probabilities leave possible, each once.\<close>

lemma get_all_qualifiers_correct:
  "get_all_qualifiers cp vp quals =
    Some (quals @ concat (map (\<lambda>c. map (\<lambda>v. cvq_new [c] [v]) (levels vp)) (levels cp)))"
proof -
  obtain e where e: "qual_enumerator cp vp = Some e" "objs e = [(''const_prob'', bool_obj cp), (''volatile_prob'', bool_obj vp)]"
    using qual_enumerator_objs by blast
  let ?body = "\<lambda>i quals. do {
       isConst \<leftarrow> get_elem ''const_prob'' i;
       isVolatile \<leftarrow> get_elem ''volatile_prob'' i;
       Some (quals @ [cvq_new [isConst \<noteq> 0] [isVolatile \<noteq> 0]]) }"
  let ?B = "\<lambda>ws quals. do { assert_that (ws ! 0 \<ge> 0); assert_that (ws ! 1 \<ge> 0);
       Some (quals @ [cvq_new [level_of cp (ws ! 0)] [level_of vp (ws ! 1)]]) }"
  have body: "?body e' s = ?B (vals e') s" if fr: "frame e' = frame e" for e' s
  proof -
    obtain a b where "vals e' = [a, b]"
      "get_elem ''const_prob'' e' = do { assert_that (a \<ge> 0); Some (of_bool (level_of cp a)) }"
      "get_elem ''volatile_prob'' e' = do { assert_that (b \<ge> 0); Some (of_bool (level_of vp b)) }"
      using bool_obj_frame[OF fr e(2)] by auto
    then show ?thesis by (cases "a \<ge> 0"; cases "b \<ge> 0") (simp_all add: assert_that_def)
  qed
  have "fresh e" "2 \<le> length (objs e)" by (simp_all add: fresh_def e(2) bool_obj_def)
  with body have "enum_for ?body e quals = foldM ?B (combinations (bounds e)) quals"
    by (intro enum_for_foldM)
  moreover have "foldM ?B (combinations (bounds e)) quals =
      Some (quals @ concat (map (\<lambda>c. map (\<lambda>v. cvq_new [c] [v]) (levels vp)) (levels cp)))"
    by (simp add: bounds_def e(2) bool_obj_def upto_bool levels_def level_of_def)
  ultimately show ?thesis by (simp add: get_all_qualifiers_def e(1))
qed

end
