(* ===== verification/Exhaustive.thy ===== *)
theory Exhaustive
  imports Options StringUtils "HOL-Library.AList"
begin

text \<open>
  DFSRndNumGenerator.cpp, LinearSequence.cpp, SequenceLineParser.h, Error.h and the loop of
  DFSProgramGenerator.cpp: the exhaustive mode.  The generator answers every request for a random
  number from a stack of search states, and after each program advances the deepest decision, so
  that running the program generator again and again visits all sequences of answers.

  A filter of the code may itself ask for random numbers, so a filter is a function on the
  generator state.  The number of search states is \<open>CGOptions::max_exhaustive_depth()\<close> from the
  construction on.  The program generator proper is a parameter: a function on the generator state;
  for the theorems it is a tree of requests, each with its bound, its filter and a continuation
  for every answer, of depth guards, and of finished programs.
\<close>

section \<open>Error codes\<close>

definition SUCCESS :: int where "SUCCESS = 0"
definition EXCEED_MAX_DEPTH_ERROR :: int where "EXCEED_MAX_DEPTH_ERROR = -2"
definition BACKTRACKING_ERROR :: int where "BACKTRACKING_ERROR = -4"

section \<open>The sequence of answers\<close>

text \<open>A \<open>LinearSequence\<close> is a \<open>std::map<int,int>\<close>; \<open>operator[]\<close> inserts 0 for a missing key.\<close>

type_synonym lseq = "(int \<times> int) list"

definition lseq_add :: "int \<Rightarrow> int \<Rightarrow> lseq \<Rightarrow> lseq" where
  "lseq_add v k m = AList.update k v m"

definition lseq_ref :: "int \<Rightarrow> lseq \<Rightarrow> int \<times> lseq" where
  "lseq_ref k m = (case map_of m k of Some v \<Rightarrow> (v, m) | None \<Rightarrow> (0, AList.update k 0 m))"

definition lseq_get_by_pos :: "int \<Rightarrow> lseq \<Rightarrow> (int \<times> lseq) option" where
  "lseq_get_by_pos pos m = (let (rv, m1) = lseq_ref pos m in do { assert_that (rv \<ge> 0); Some (rv, m1) })"

definition sep_char :: char where "sep_char = CHR ''_''"

text \<open>The loop of \<open>get_sequence\<close> compares with the size of the map, which the reads may enlarge.\<close>

partial_function (option) lseq_out :: "nat \<Rightarrow> lseq \<Rightarrow> (string \<times> lseq) option" where
  "lseq_out i m =
    (let (v, m1) = lseq_ref (int i) m in
     if i < length m - 1 then do { (s, m2) \<leftarrow> lseq_out (Suc i) m1; Some (show_int v @ sep_char # s, m2) }
     else Some (show_int v, m1))"

definition lseq_get_sequence :: "lseq \<Rightarrow> (string \<times> lseq) option" where
  "lseq_get_sequence m = do { assert_that (m \<noteq> []); lseq_out 0 m }"

section \<open>The generator\<close>

record search_state =
  ss_init :: bool
  ss_value :: int
  ss_bound :: int

record dfs =
  decision_depth :: int
  current_pos :: int
  all_done :: bool
  seq :: lseq
  use_debug_sequence :: bool
  states :: "search_state list"
  error :: int

text \<open>A filter answers whether it rejects a number, and may use the generator.\<close>

type_synonym dfs_filter = "int \<Rightarrow> dfs \<Rightarrow> (bool \<times> dfs) option"

definition new_search_state :: search_state where
  "new_search_state = \<lparr>ss_init = False, ss_value = 0, ss_bound = 0\<rparr>"

definition new_dfs :: "nat \<Rightarrow> dfs" where
  "new_dfs depth = \<lparr>decision_depth = -1, current_pos = -1, all_done = False, seq = [],
     use_debug_sequence = False, states = replicate depth new_search_state, error = SUCCESS\<rparr>"

definition max_depth :: "dfs \<Rightarrow> int" where
  "max_depth d = int (length (states d))"

text \<open>\<open>initialize_sequence\<close> of the debugging sequence.\<close>

definition debug_dfs :: "nat \<Rightarrow> int list \<Rightarrow> dfs" where
  "debug_dfs depth v = (new_dfs depth)\<lparr>seq := fold (\<lambda>(i, x). lseq_add x (int i)) (enumerate 0 v) [],
     use_debug_sequence := True\<rparr>"

definition set_error :: "int \<Rightarrow> dfs \<Rightarrow> dfs" where
  "set_error err d = d\<lparr>error := err\<rparr>"

text \<open>Access to the states from a position on, as the loops of the code do it.\<close>

definition states_from :: "int \<Rightarrow> (search_state \<Rightarrow> search_state) \<Rightarrow> dfs \<Rightarrow> dfs option" where
  "states_from i f d = do {
     assert_that (0 \<le> i);
     Some (d\<lparr>states := take (nat i) (states d) @ map f (drop (nat i) (states d))\<rparr>) }"

definition update_state :: "nat \<Rightarrow> (search_state \<Rightarrow> search_state) \<Rightarrow> dfs \<Rightarrow> dfs" where
  "update_state p f d = d\<lparr>states := (states d)[p := f (states d ! p)]\<rparr>"

definition uninit :: "search_state \<Rightarrow> search_state" where
  "uninit st = st\<lparr>ss_init := False\<rparr>"

definition eager_backtracking :: "int \<Rightarrow> dfs \<Rightarrow> (bool \<times> dfs) option" where
  "eager_backtracking depth_needed d =
    (if current_pos d \<le> 0 then Some (False, d)
     else if max_depth d - current_pos d \<ge> depth_needed then Some (False, d)
     else if current_pos d > decision_depth d then Some (True, set_error BACKTRACKING_ERROR d)
     else do {
       d1 \<leftarrow> states_from (current_pos d + 1) uninit (d\<lparr>decision_depth := current_pos d\<rparr>);
       Some (True, set_error BACKTRACKING_ERROR d1) })"

definition filter_invalid_nums :: "int list option \<Rightarrow> int \<Rightarrow> bool" where
  "filter_invalid_nums invalid v = (case invalid of None \<Rightarrow> False | Some ns \<Rightarrow> v \<in> set ns)"

definition rejected :: "dfs_filter option \<Rightarrow> int list option \<Rightarrow> int \<Rightarrow> dfs \<Rightarrow> (bool \<times> dfs) option" where
  "rejected f invalid v d = (case f of
     None \<Rightarrow> Some (filter_invalid_nums invalid v, d)
   | Some p \<Rightarrow> do { (b, d1) \<leftarrow> p v d; Some (b \<or> filter_invalid_nums invalid v, d1) })"

definition record_answer :: "int \<Rightarrow> int \<Rightarrow> dfs \<Rightarrow> dfs" where
  "record_answer v k d = d\<lparr>seq := lseq_add v k (seq d)\<rparr>"

definition revisit_node :: "nat \<Rightarrow> int \<Rightarrow> dfs_filter option \<Rightarrow> dfs \<Rightarrow> (int \<times> dfs) option" where
  "revisit_node pos bound f d = (let rv = ss_value (states d ! pos) in
    case f of
      None \<Rightarrow> Some (rv, record_answer rv (int pos) d)
    | Some p \<Rightarrow> do {
        assert_that (rv < bound);
        (b, d1) \<leftarrow> p rv d;
        if error d1 \<noteq> SUCCESS then Some (-1, d1)
        else do {
          assert_that (current_pos d1 < max_depth d1);
          Some (rv, record_answer rv (int pos) d1) } })"

text \<open>The do-while loop over the next branches; the first component tells whether an error ended it.\<close>

function next_branch :: "int \<Rightarrow> dfs_filter option \<Rightarrow> int list option \<Rightarrow> nat \<Rightarrow> int \<Rightarrow> int \<Rightarrow> dfs \<Rightarrow>
    (bool \<times> int \<times> dfs) option" where
  "next_branch bound f invalid pos depth v d =
    (let v = v + 1;
         d = (update_state pos (\<lambda>st. st\<lparr>ss_value := v\<rparr>) d)\<lparr>current_pos := int pos, decision_depth := depth\<rparr>
     in if error d \<noteq> SUCCESS then Some (True, v, d)
        else if v < bound then do {
          (b, d1) \<leftarrow> rejected f invalid v d;
          if b then next_branch bound f invalid pos depth v d1 else Some (False, v, d1) }
        else Some (False, v, d))"
  by pat_completeness auto
termination by (relation "measure (\<lambda>(bound, _, _, _, _, v, _). nat (bound - v))") auto

declare next_branch.simps [simp del]

text \<open>The while loop of the first visit.\<close>

function first_branch :: "int \<Rightarrow> dfs_filter option \<Rightarrow> int list option \<Rightarrow> nat \<Rightarrow> int \<Rightarrow> dfs \<Rightarrow>
    (bool \<times> int \<times> dfs) option" where
  "first_branch bound f invalid pos v d =
    (if v < bound then do {
       (b, d1) \<leftarrow> rejected f invalid v d;
       if b then do {
         d2 \<leftarrow> states_from (decision_depth d1) (\<lambda>st. st\<lparr>ss_value := 0\<rparr>) d1;
         if error d2 \<noteq> SUCCESS then Some (True, v, d2)
         else first_branch bound f invalid pos (v + 1) (d2\<lparr>decision_depth := current_pos d2, current_pos := int pos\<rparr>) }
       else Some (False, v, d1) }
     else Some (False, v, d))"
  by pat_completeness auto
termination by (relation "measure (\<lambda>(bound, _, _, _, v, _). nat (bound - v))") auto

declare first_branch.simps [simp del]

text \<open>No branch is left at a position: the states from there on are new again, and the decision above is next.\<close>

definition backtrack :: "nat \<Rightarrow> dfs \<Rightarrow> (int \<times> dfs) option" where
  "backtrack pos d = do {
     d1 \<leftarrow> states_from (int pos) uninit (d\<lparr>current_pos := int pos\<rparr>);
     let d2 = d1\<lparr>decision_depth := decision_depth d1 - 1\<rparr>;
     let d3 = (if decision_depth d2 < 0 then d2\<lparr>all_done := True\<rparr> else d2);
     Some (-1, set_error BACKTRACKING_ERROR d3) }"

definition random_choice :: "int \<Rightarrow> dfs_filter option \<Rightarrow> int list option \<Rightarrow> dfs \<Rightarrow> (int \<times> dfs) option" where
  "random_choice bound f invalid d =
    (if error d = BACKTRACKING_ERROR then Some (-1, d)
     else do {
       assert_that (error d = SUCCESS);
       let d = d\<lparr>current_pos := current_pos d + 1\<rparr>;
       if use_debug_sequence d then do {
         (rv, sq) \<leftarrow> lseq_get_by_pos (current_pos d) (seq d);
         let d = d\<lparr>seq := sq\<rparr>;
         (b, d) \<leftarrow> (case f of None \<Rightarrow> Some (False, d) | Some p \<Rightarrow> p rv d);
         Some (rv, if nat (current_pos d) \<ge> length (seq d) - 1 then d\<lparr>all_done := True\<rparr> else d) }
       else if current_pos d \<ge> max_depth d \<or> decision_depth d \<ge> max_depth d
       then Some (-1, set_error EXCEED_MAX_DEPTH_ERROR d)
       else do {
         assert_that (0 \<le> current_pos d);
         let pos = nat (current_pos d);
         let d = update_state pos (\<lambda>st. st\<lparr>ss_bound := bound\<rparr>) d;
         let st = states d ! pos;
         if current_pos d < decision_depth d \<and> ss_init st then revisit_node pos bound f d
         else if ss_init st then do {
           (stop, v, d) \<leftarrow> next_branch bound f invalid pos (decision_depth d) (ss_value st) d;
           if stop then Some (-1, d)
           else do {
             let d = update_state pos (\<lambda>st. st\<lparr>ss_value := v\<rparr>) d;
             if v \<ge> bound then backtrack pos d
             else if error d \<noteq> SUCCESS then Some (-1, d)
             else Some (v, record_answer v (int pos) d) } }
         else do {
           let d = update_state pos (\<lambda>st. \<lparr>ss_init = True, ss_value = 0, ss_bound = bound\<rparr>)
             (d\<lparr>decision_depth := decision_depth d + 1\<rparr>);
           (stop, v, d) \<leftarrow> first_branch bound f invalid pos 0 d;
           if stop then Some (-1, d)
           else do {
             let d = d\<lparr>decision_depth := current_pos d\<rparr>;
             if v \<ge> bound then backtrack pos d
             else do {
               let d = update_state pos (\<lambda>st. st\<lparr>ss_value := v\<rparr>) d;
               if error d \<noteq> SUCCESS then Some (-1, d)
               else Some (v, record_answer v (int pos) d) } } } } })"

definition dfs_rnd_upto :: "int \<Rightarrow> dfs_filter option \<Rightarrow> dfs \<Rightarrow> (int \<times> dfs) option" where
  "dfs_rnd_upto n f d = do {
     (x, d1) \<leftarrow> random_choice n f None d;
     assert_that (x = -1 \<or> (0 \<le> x \<and> x < n));
     Some (x, d1) }"

definition dfs_rnd_flipcoin :: "int \<Rightarrow> dfs_filter option \<Rightarrow> dfs \<Rightarrow> (bool \<times> dfs) option" where
  "dfs_rnd_flipcoin n f d = do {
     (y, d1) \<leftarrow> random_choice 2 f (if n = 100 then Some [0] else if n = 0 then Some [1] else None) d;
     assert_that (y = -1 \<or> (0 \<le> y \<and> y < 2));
     Some (y \<noteq> 0, d1) }"

definition reset_state :: "dfs \<Rightarrow> dfs" where
  "reset_state d = d\<lparr>current_pos := -1, seq := []\<rparr>"

definition dfs_get_prefixed_name :: "string \<Rightarrow> dfs \<Rightarrow> (string \<times> dfs) option" where
  "dfs_get_prefixed_name name d = do {
     (s, m) \<leftarrow> lseq_get_sequence (seq d);
     Some (''p_'' @ s @ sep_char # name, d\<lparr>seq := m\<rparr>) }"

section \<open>Reading a sequence\<close>

text \<open>\<open>ss >> i\<close> of the standard library (C++11): blanks are skipped; nothing left leaves \<open>i\<close> alone, no digits
  set it to 0, and a number out of range is cut off.\<close>

definition stream_blank :: "char \<Rightarrow> bool" where
  "stream_blank c \<longleftrightarrow> of_char c \<in> {9..13 :: nat} \<or> c = CHR '' ''"

definition extract_int :: "int \<Rightarrow> string \<Rightarrow> int" where
  "extract_int i s = (let s = dropWhile stream_blank s in
     if s = [] then i
     else let neg = (hd s = CHR ''-'');
              s = (if neg \<or> hd s = CHR ''+'' then tl s else s);
              n = int (read_nat (takeWhile is_digit s))
          in if neg then max INT_MIN (- n) else min INT_MAX n)"

definition seq_str2int :: "string \<Rightarrow> int" where
  "seq_str2int s = extract_int (-1) s"

text \<open>The numbers pushed so far stay in the container when the parser gives up.\<close>

function parse_sequence :: "char \<Rightarrow> string \<Rightarrow> int list \<Rightarrow> bool \<times> int list" where
  "parse_sequence sep s q =
    (let s1 = dropWhile (\<lambda>c. c = CHR '' '') s;
         tok = takeWhile (\<lambda>c. c \<noteq> sep) s1;
         rest = dropWhile (\<lambda>c. c \<noteq> sep) s1;
         i = seq_str2int tok
     in if i < 0 then (False, q)
        else if rest = [] then (True, q @ [i])
        else parse_sequence sep (tl rest) (q @ [i]))"
  by pat_completeness auto
termination
proof (relation "measure (\<lambda>(_, s, _). length s)", goal_cases)
  case (2 sep s q s1 tok rest i)
  have "length rest \<le> length s1" "length s1 \<le> length s" using 2 by (simp_all add: length_dropWhile_le)
  moreover have "length (tl rest) < length rest" using 2(6) by (cases rest) simp_all
  ultimately show ?case by simp
qed simp

declare parse_sequence.simps [simp del]

text \<open>\<open>make_rndnum_generator\<close> with the debugging sequence of the options.\<close>

definition make_rndnum_generator :: "nat \<Rightarrow> string \<Rightarrow> dfs option" where
  "make_rndnum_generator depth debug_sequence =
    (if debug_sequence = [] then Some (new_dfs depth)
     else do {
       let (ok, nums) = parse_sequence sep_char debug_sequence [];
       assert_that ok;
       Some (debug_dfs depth nums) })"

section \<open>The driver\<close>

text \<open>\<open>goGenerator\<close>: every program that ends without error is output, with the sequence that led to it.\<close>

partial_function (option) go_generator :: "(dfs \<Rightarrow> ('a \<times> dfs) option) \<Rightarrow> dfs \<Rightarrow> ((lseq \<times> 'a) list \<times> dfs) option" where
  "go_generator generate d =
    (if all_done d then Some ([], d)
     else do {
       (prog, d1) \<leftarrow> generate (set_error SUCCESS d);
       (out, d2) \<leftarrow> go_generator generate (reset_state d1);
       Some (if error d1 = SUCCESS then (seq d1, prog) # out else out, d2) })"

section \<open>Program generators as trees\<close>

text \<open>A request has a bound, a filter and a list of excluded numbers, as \<open>rnd_upto\<close> and \<open>rnd_flipcoin\<close>
  pass them; a guard is the call of \<open>eager_backtracking\<close> that the depth guards make.\<close>

datatype 'a prog =
    Finished 'a
  | Ask int "(int \<Rightarrow> bool) option" "int list option" "int \<Rightarrow> 'a prog"
  | Guard int "'a prog"

definition pure_filter :: "(int \<Rightarrow> bool) \<Rightarrow> dfs_filter" where
  "pure_filter r = (\<lambda>v d. Some (r v, d))"

primrec run_prog :: "'a prog \<Rightarrow> dfs \<Rightarrow> ('a option \<times> dfs) option" where
  "run_prog (Finished a) d = Some (Some a, d)"
| "run_prog (Ask b f ns k) d = do {
     (v, d1) \<leftarrow> random_choice b (map_option pure_filter f) ns d;
     if error d1 \<noteq> SUCCESS then Some (None, d1) else run_prog (k v) d1 }"
| "run_prog (Guard n t) d = do {
     (bad, d1) \<leftarrow> eager_backtracking n d;
     if bad then Some (None, d1) else run_prog t d1 }"

text \<open>The specification: the finished programs of the tree within the depth bound, each with the answers
  that lead to it, in the order of the answers.\<close>

definition refuses :: "(int \<Rightarrow> bool) option \<Rightarrow> int list option \<Rightarrow> int \<Rightarrow> bool" where
  "refuses f ns v \<longleftrightarrow> (case f of None \<Rightarrow> False | Some r \<Rightarrow> r v) \<or> filter_invalid_nums ns v"

definition answers_from :: "int \<Rightarrow> int \<Rightarrow> (int \<Rightarrow> bool) option \<Rightarrow> int list option \<Rightarrow> int list" where
  "answers_from v b f ns = filter (\<lambda>w. \<not> refuses f ns w) [v..b - 1]"

definition too_deep :: "nat \<Rightarrow> nat \<Rightarrow> int \<Rightarrow> bool" where
  "too_deep mx k n \<longleftrightarrow> 2 \<le> k \<and> int mx - (int k - 1) < n"

primrec programs :: "'a prog \<Rightarrow> nat \<Rightarrow> nat \<Rightarrow> (int list \<times> 'a) list" where
  "programs (Finished a) mx k = [([], a)]"
| "programs (Ask b f ns kk) mx k = (if mx \<le> k then [] else
     concat (map (\<lambda>v. map (\<lambda>(p, a). (v # p, a)) (programs (kk v) mx (Suc k))) (answers_from 0 b f ns)))"
| "programs (Guard n t) mx k = (if too_deep mx k n then [] else programs t mx k)"

text \<open>One run from a node not visited before, and one that first repeats the decisions of a path and
  advances its last one: the outcome and the path the search is left on.\<close>

primrec visit :: "'a prog \<Rightarrow> nat \<Rightarrow> nat \<Rightarrow> 'a option \<times> int list" where
  "visit (Finished a) mx k = (Some a, [])"
| "visit (Ask b f ns kk) mx k = (if mx \<le> k then (None, []) else
     case answers_from 0 b f ns of [] \<Rightarrow> (None, [])
     | v # _ \<Rightarrow> (case visit (kk v) mx (Suc k) of (r, p) \<Rightarrow> (r, v # p)))"
| "visit (Guard n t) mx k = (if too_deep mx k n then (None, []) else visit t mx k)"

primrec resume :: "'a prog \<Rightarrow> int list \<Rightarrow> nat \<Rightarrow> nat \<Rightarrow> 'a option \<times> int list" where
  "resume (Finished a) p mx k = (None, [])"
| "resume (Ask b f ns kk) p mx k = (case p of [] \<Rightarrow> (None, [])
     | [v] \<Rightarrow> (case answers_from (v + 1) b f ns of [] \<Rightarrow> (None, [])
         | w # _ \<Rightarrow> (case visit (kk w) mx (Suc k) of (r, p') \<Rightarrow> (r, w # p')))
     | v # q \<Rightarrow> (case resume (kk v) q mx (Suc k) of (r, p') \<Rightarrow> (r, v # p')))"
| "resume (Guard n t) p mx k = resume t p mx k"

text \<open>What is left of the specification after a path, the paths the search can be on, and a measure.\<close>

primrec left_after :: "'a prog \<Rightarrow> int list \<Rightarrow> nat \<Rightarrow> nat \<Rightarrow> (int list \<times> 'a) list" where
  "left_after (Finished a) p mx k = []"
| "left_after (Ask b f ns kk) p mx k = (case p of [] \<Rightarrow> []
     | v # q \<Rightarrow> map (\<lambda>(p, a). (v # p, a)) (left_after (kk v) q mx (Suc k)) @
         concat (map (\<lambda>w. map (\<lambda>(p, a). (w # p, a)) (programs (kk w) mx (Suc k))) (answers_from (v + 1) b f ns)))"
| "left_after (Guard n t) p mx k = left_after t p mx k"

primrec on_path :: "'a prog \<Rightarrow> int list \<Rightarrow> nat \<Rightarrow> nat \<Rightarrow> bool" where
  "on_path (Finished a) p mx k \<longleftrightarrow> p = []"
| "on_path (Ask b f ns kk) p mx k \<longleftrightarrow> (case p of [] \<Rightarrow> True
     | v # q \<Rightarrow> k < mx \<and> v \<in> set (answers_from 0 b f ns) \<and> on_path (kk v) q mx (Suc k))"
| "on_path (Guard n t) p mx k \<longleftrightarrow> p = [] \<or> \<not> too_deep mx k n \<and> on_path t p mx k"

primrec runs :: "'a prog \<Rightarrow> nat \<Rightarrow> nat \<Rightarrow> nat" where
  "runs (Finished a) mx k = 1"
| "runs (Ask b f ns kk) mx k = 1 + sum_list (map (\<lambda>v. runs (kk v) mx (Suc k)) (answers_from 0 b f ns))"
| "runs (Guard n t) mx k = 1 + runs t mx k"

primrec runs_after :: "'a prog \<Rightarrow> int list \<Rightarrow> nat \<Rightarrow> nat \<Rightarrow> nat" where
  "runs_after (Finished a) p mx k = 0"
| "runs_after (Ask b f ns kk) p mx k = (case p of [] \<Rightarrow> 0
     | v # q \<Rightarrow> 1 + runs_after (kk v) q mx (Suc k) +
         sum_list (map (\<lambda>w. runs (kk w) mx (Suc k)) (answers_from (v + 1) b f ns)))"
| "runs_after (Guard n t) p mx k = runs_after t p mx k"

lemma path_Nil [simp]: "left_after t [] mx k = []" "runs_after t [] mx k = 0" "on_path t [] mx k"
  by (induction t) auto

lemma answers_from_Cons:
  "answers_from v b f ns = w # ws \<Longrightarrow> ws = answers_from (w + 1) b f ns \<and> v \<le> w \<and> w < b \<and> \<not> refuses f ns w"
proof (induction "nat (b - v)" arbitrary: v)
  case 0
  then show ?case by (simp add: answers_from_def)
next
  case (Suc n)
  then have "v < b" "n = nat (b - (v + 1))" by linarith+
  then have "[v..b - 1] = v # [v + 1..b - 1]" by (simp add: upto_rec1)
  then show ?case using Suc.prems Suc.hyps(1)[of "v + 1"] \<open>n = nat (b - (v + 1))\<close>
    using \<open>v < b\<close> by (auto simp: answers_from_def split: if_splits)
qed

lemma answers_from_mem: "w \<in> set (answers_from v b f ns) \<longleftrightarrow> v \<le> w \<and> w < b \<and> \<not> refuses f ns w"
  by (auto simp: answers_from_def)

lemma visit_programs:
  "visit t mx k = (r, p) \<Longrightarrow> programs t mx k = (case r of None \<Rightarrow> [] | Some a \<Rightarrow> [(p, a)]) @ left_after t p mx k"
proof (induction t arbitrary: k r p)
  case (Ask b f ns kk)
  show ?case
  proof (cases "answers_from 0 b f ns")
    case Nil
    then show ?thesis using Ask.prems by (auto split: if_splits)
  next
    case (Cons v ws)
    then show ?thesis
      using Ask.prems Ask.IH[of "kk v" "Suc k"] answers_from_Cons[OF Cons]
      by (auto split: if_splits prod.splits option.splits)
  qed
qed (auto split: if_splits)

lemma resume_left:
  "resume t p mx k = (r, p') \<Longrightarrow> on_path t p mx k \<Longrightarrow> p \<noteq> [] \<Longrightarrow>
    left_after t p mx k = (case r of None \<Rightarrow> [] | Some a \<Rightarrow> [(p', a)]) @ left_after t p' mx k"
proof (induction t arbitrary: k r p p')
  case (Ask b f ns kk)
  obtain v q where p: "p = v # q" using Ask.prems(3) by (cases p) auto
  show ?case
  proof (cases q)
    case Nil
    show ?thesis
    proof (cases "answers_from (v + 1) b f ns")
      case Nil
      then show ?thesis using Ask.prems p \<open>q = []\<close> by simp
    next
      case (Cons w ws)
      obtain r0 p0 where vis: "visit (kk w) mx (Suc k) = (r0, p0)" by fastforce
      show ?thesis
        using Ask.prems p \<open>q = []\<close> Cons vis visit_programs[OF vis] answers_from_Cons[OF Cons]
        by (auto split: option.splits)
    qed
  next
    case (Cons v' q')
    obtain r0 p0 where res: "resume (kk v) q mx (Suc k) = (r0, p0)" by fastforce
    have "on_path (kk v) q mx (Suc k)" using Ask.prems p by simp
    then show ?thesis
      using Ask.prems p Cons res Ask.IH[of "kk v", OF _ res] by (auto split: option.splits)
  qed
qed auto

lemma visit_on_path:
  "visit t mx k = (r, p) \<Longrightarrow> on_path t p mx k \<and> runs_after t p mx k < runs t mx k"
proof (induction t arbitrary: k r p)
  case (Ask b f ns kk)
  show ?case
  proof (cases "answers_from 0 b f ns")
    case Nil
    then show ?thesis using Ask.prems by (auto split: if_splits)
  next
    case (Cons v ws)
    moreover have "v \<in> set (answers_from 0 b f ns)" using Cons by simp
    ultimately show ?thesis
      using Ask.prems Ask.IH[of "kk v" "Suc k"] answers_from_Cons[OF Cons]
      by (auto split: if_splits prod.splits)
  qed
qed (auto split: if_splits simp: less_Suc_eq_le dest: less_imp_le)

lemma resume_on_path:
  "resume t p mx k = (r, p') \<Longrightarrow> on_path t p mx k \<Longrightarrow> p \<noteq> [] \<Longrightarrow>
    on_path t p' mx k \<and> runs_after t p' mx k < runs_after t p mx k"
proof (induction t arbitrary: k r p p')
  case (Ask b f ns kk)
  obtain v q where p: "p = v # q" using Ask.prems(3) by (cases p) auto
  show ?case
  proof (cases q)
    case Nil
    show ?thesis
    proof (cases "answers_from (v + 1) b f ns")
      case Nil
      then show ?thesis using Ask.prems p \<open>q = []\<close> by simp
    next
      case (Cons w ws)
      obtain r0 p0 where vis: "visit (kk w) mx (Suc k) = (r0, p0)" by fastforce
      have "w \<in> set (answers_from 0 b f ns)"
        using Ask.prems(2) p answers_from_Cons[OF Cons] by (simp add: answers_from_mem)
      then show ?thesis
        using Ask.prems p \<open>q = []\<close> Cons vis visit_on_path[OF vis] answers_from_Cons[OF Cons] by auto
    qed
  next
    case (Cons v' q')
    obtain r0 p0 where res: "resume (kk v) q mx (Suc k) = (r0, p0)" by fastforce
    have "on_path (kk v) q mx (Suc k)" using Ask.prems p by simp
    then show ?thesis
      using Ask.prems p Cons res Ask.IH[of "kk v", OF _ res] by auto
  qed
qed auto

section \<open>The search states hold the path\<close>

definition stack :: "nat \<Rightarrow> int list \<Rightarrow> dfs \<Rightarrow> bool" where
  "stack mx p d \<longleftrightarrow> length (states d) = mx \<and> length p \<le> mx \<and> decision_depth d = int (length p) - 1 \<and>
     \<not> use_debug_sequence d \<and>
     (\<forall>i < length p. ss_init (states d ! i) \<and> ss_value (states d ! i) = p ! i) \<and>
     (\<forall>i. length p \<le> i \<longrightarrow> i < mx \<longrightarrow> \<not> ss_init (states d ! i))"

definition path_seq :: "int list \<Rightarrow> lseq" where
  "path_seq q = map (\<lambda>(i, v). (int i, v)) (enumerate 0 q)"

definition at_path :: "nat \<Rightarrow> int list \<Rightarrow> int list \<Rightarrow> dfs \<Rightarrow> bool" where
  "at_path mx q p d \<longleftrightarrow> stack mx (q @ p) d \<and> current_pos d = int (length q) - 1 \<and> seq d = path_seq q \<and>
     error d = SUCCESS \<and> \<not> all_done d"

lemma path_seq_add: "lseq_add v (int (length q)) (path_seq q) = path_seq (q @ [v])"
proof -
  have "int (length q) \<notin> fst ` set m \<Longrightarrow> AList.update (int (length q)) v m = m @ [(int (length q), v)]" for m
    by (induction m) auto
  moreover have "int (length q) \<notin> fst ` set (path_seq q)"
    by (auto simp: path_seq_def in_set_enumerate_eq)
  ultimately show ?thesis by (simp add: lseq_add_def path_seq_def enumerate_append_eq)
qed

lemma rejected_pure: "rejected (map_option pure_filter f) ns v d = Some (refuses f ns v, d)"
  by (cases f) (simp_all add: rejected_def refuses_def pure_filter_def)

lemma update_state_simps [simp]:
  "length (states (update_state p f d)) = length (states d)"
  "decision_depth (update_state p f d) = decision_depth d" "current_pos (update_state p f d) = current_pos d"
  "all_done (update_state p f d) = all_done d" "seq (update_state p f d) = seq d"
  "use_debug_sequence (update_state p f d) = use_debug_sequence d" "error (update_state p f d) = error d"
  "p < length (states d) \<Longrightarrow> states (update_state p f d) ! p = f (states d ! p)"
  "i \<noteq> p \<Longrightarrow> states (update_state p f d) ! i = states d ! i"
  by (simp_all add: update_state_def)

text \<open>The answer the loops find.\<close>

definition next_answer :: "int \<Rightarrow> int \<Rightarrow> (int \<Rightarrow> bool) option \<Rightarrow> int list option \<Rightarrow> int" where
  "next_answer v b f ns = (case answers_from v b f ns of [] \<Rightarrow> max v b | w # _ \<Rightarrow> w)"

lemma next_answer_step:
  "next_answer v b f ns = (if v < b \<and> refuses f ns v then next_answer (v + 1) b f ns else v)"
proof (cases "v < b")
  case True
  then have "[v..b - 1] = v # [v + 1..b - 1]" by (simp add: upto_rec1)
  then show ?thesis using True by (auto simp: next_answer_def answers_from_def max_def split: list.split)
qed (simp add: next_answer_def answers_from_def)

text \<open>Two states that differ only in the values of the search states from a position on.\<close>

definition same_but :: "nat \<Rightarrow> dfs \<Rightarrow> dfs \<Rightarrow> bool" where
  "same_but pos d d' \<longleftrightarrow> d' = d\<lparr>states := states d'\<rparr> \<and> length (states d') = length (states d) \<and>
     (\<forall>i < length (states d). ss_init (states d' ! i) = ss_init (states d ! i) \<and>
        (i < pos \<longrightarrow> states d' ! i = states d ! i))"

lemma same_but_fields:
  assumes "same_but pos d d'"
  shows "decision_depth d' = decision_depth d" "current_pos d' = current_pos d" "all_done d' = all_done d"
    "seq d' = seq d" "use_debug_sequence d' = use_debug_sequence d" "error d' = error d"
proof -
  obtain ss where "d' = d\<lparr>states := ss\<rparr>" using assms unfolding same_but_def by blast
  then show "decision_depth d' = decision_depth d" "current_pos d' = current_pos d" "all_done d' = all_done d"
    "seq d' = seq d" "use_debug_sequence d' = use_debug_sequence d" "error d' = error d" by simp_all
qed

lemma same_but_trans: "same_but pos d d1 \<Longrightarrow> same_but pos d1 d2 \<Longrightarrow> same_but pos d d2"
  unfolding same_but_def by (metis (no_types, lifting) dfs.surjective dfs.update_convs(6))

lemma next_branch_pure:
  assumes "error d = SUCCESS" "current_pos d = int pos" "decision_depth d = depth" "pos < length (states d)"
  shows "\<exists>d'. next_branch b (map_option pure_filter f) ns pos depth v d = Some (False, next_answer (v + 1) b f ns, d') \<and>
    same_but pos d d'"
  using assms
proof (induction "nat (b - v)" arbitrary: v d rule: less_induct)
  case (less v d)
  define d1 where "d1 = (update_state pos (\<lambda>st. st\<lparr>ss_value := v + 1\<rparr>) d)\<lparr>current_pos := int pos, decision_depth := depth\<rparr>"
  have d1: "error d1 = SUCCESS" "current_pos d1 = int pos" "decision_depth d1 = depth" "pos < length (states d1)"
    using less.prems by (simp_all add: d1_def)
  have "d1 = d\<lparr>states := states d1\<rparr>" using less.prems by (simp add: d1_def update_state_def)
  moreover have "ss_init (states d1 ! i) = ss_init (states d ! i) \<and> (i < pos \<longrightarrow> states d1 ! i = states d ! i)"
    if "i < length (states d)" for i
    using that less.prems(4) by (cases "i = pos") (simp_all add: d1_def)
  ultimately have s: "same_but pos d d1" by (simp add: same_but_def d1_def)
  show ?case
  proof (cases "v + 1 < b \<and> refuses f ns (v + 1)")
    case True
    then have "nat (b - (v + 1)) < nat (b - v)" by linarith
    from less.hyps[OF this d1] obtain d' where
      "next_branch b (map_option pure_filter f) ns pos depth (v + 1) d1 = Some (False, next_answer (v + 1 + 1) b f ns, d')"
      "same_but pos d1 d'" by blast
    then show ?thesis using True s same_but_trans d1(1) less.prems(1) next_answer_step[of "v + 1" b f ns]
      by (subst next_branch.simps) (auto simp: d1_def[symmetric] Let_def rejected_pure)
  next
    case False
    then show ?thesis using s d1(1) less.prems(1) next_answer_step[of "v + 1" b f ns]
      by (subst next_branch.simps) (auto simp: d1_def[symmetric] Let_def rejected_pure)
  qed
qed

lemma first_branch_pure:
  assumes "error d = SUCCESS" "current_pos d = int pos" "decision_depth d = int pos" "pos < length (states d)" "0 \<le> v"
  shows "\<exists>d'. first_branch b (map_option pure_filter f) ns pos v d = Some (False, next_answer v b f ns, d') \<and>
    same_but pos d d'"
  using assms
proof (induction "nat (b - v)" arbitrary: v d rule: less_induct)
  case (less v d)
  show ?case
  proof (cases "v < b \<and> refuses f ns v")
    case True
    define d1 where "d1 = d\<lparr>states := take pos (states d) @ map (\<lambda>st. st\<lparr>ss_value := 0\<rparr>) (drop pos (states d))\<rparr>"
    define d2 where "d2 = d1\<lparr>decision_depth := current_pos d1, current_pos := int pos\<rparr>"
    have d1: "states_from (decision_depth d) (\<lambda>st. st\<lparr>ss_value := 0\<rparr>) d = Some d1" "error d1 = SUCCESS"
      using less.prems by (simp_all add: states_from_def d1_def)
    have d2: "error d2 = SUCCESS" "current_pos d2 = int pos" "decision_depth d2 = int pos" "pos < length (states d2)" "0 \<le> v + 1"
      using less.prems by (simp_all add: d1_def d2_def)
    have "ss_init (states d2 ! i) = ss_init (states d ! i) \<and> (i < pos \<longrightarrow> states d2 ! i = states d ! i)"
      if "i < length (states d)" for i
      using that less.prems(4) by (simp add: d1_def d2_def nth_append min_def)
    moreover have "d2 = d\<lparr>states := states d2\<rparr>" using less.prems(2,3) by (simp add: d1_def d2_def)
    ultimately have s: "same_but pos d d2" using less.prems(4) by (simp add: same_but_def d1_def d2_def)
    have "nat (b - (v + 1)) < nat (b - v)" using True by linarith
    from less.hyps[OF this d2] obtain d' where
      "first_branch b (map_option pure_filter f) ns pos (v + 1) d2 = Some (False, next_answer (v + 1) b f ns, d')"
      "same_but pos d2 d'" by blast
    then show ?thesis using True s same_but_trans d1 next_answer_step[of v b f ns]
      by (subst first_branch.simps) (auto simp: d2_def[symmetric] rejected_pure)
  next
    case False
    have "same_but pos d d" by (simp add: same_but_def)
    then show ?thesis using False next_answer_step[of v b f ns]
      by (subst first_branch.simps) (auto simp: rejected_pure)
  qed
qed

lemma next_answer_cases:
  "answers_from v b f ns = [] \<Longrightarrow> b \<le> next_answer v b f ns"
  "answers_from v b f ns = w # ws \<Longrightarrow> next_answer v b f ns = w \<and> w < b"
  using answers_from_Cons[of v b f ns w ws] by (simp_all add: next_answer_def)

text \<open>Backtracking at the end of the path.\<close>

lemma backtrack_stack:
  assumes "same_but (length q) d d'" "length (states d) = mx" "length q < mx" "decision_depth d = int (length q)"
    "\<not> use_debug_sequence d" "\<not> all_done d"
    "\<forall>i < length q. ss_init (states d ! i) \<and> ss_value (states d ! i) = q ! i"
  shows "\<exists>d2. backtrack (length q) d' = Some (-1, d2) \<and> stack mx q d2 \<and> error d2 = BACKTRACKING_ERROR \<and>
    (all_done d2 \<longleftrightarrow> q = [])"
proof -
  have d': "decision_depth d' = int (length q)" "\<not> use_debug_sequence d'" "\<not> all_done d'" "length (states d') = mx"
    "\<forall>i < length q. states d' ! i = states d ! i"
    using assms(2-6) same_but_fields[OF assms(1)] assms(1) by (simp_all add: same_but_def)
  define d1 where "d1 = d'\<lparr>current_pos := int (length q),
    states := take (length q) (states d') @ map uninit (drop (length q) (states d'))\<rparr>"
  have "states_from (int (length q)) uninit (d'\<lparr>current_pos := int (length q)\<rparr>) = Some d1"
    by (simp add: states_from_def d1_def)
  moreover have "stack mx q (d1\<lparr>decision_depth := decision_depth d1 - 1, all_done := x, error := y\<rparr>)" for x y
    using d' assms(3,7) by (auto simp: stack_def d1_def nth_append min_def uninit_def)
  moreover have "decision_depth d1 = int (length q)" "\<not> all_done d1" using d' by (simp_all add: d1_def)
  ultimately show ?thesis
    by (auto simp: backtrack_def set_error_def stack_def Let_def)
qed

text \<open>The state at a node whose branches are being tried.\<close>

definition at_node :: "nat \<Rightarrow> int list \<Rightarrow> dfs \<Rightarrow> bool" where
  "at_node mx q d \<longleftrightarrow> length (states d) = mx \<and> length q < mx \<and> decision_depth d = int (length q) \<and>
     current_pos d = int (length q) \<and> \<not> use_debug_sequence d \<and> \<not> all_done d \<and> error d = SUCCESS \<and> seq d = path_seq q \<and>
     (\<forall>i < length q. ss_init (states d ! i) \<and> ss_value (states d ! i) = q ! i) \<and> ss_init (states d ! length q) \<and>
     (\<forall>i. length q < i \<longrightarrow> i < mx \<longrightarrow> \<not> ss_init (states d ! i))"

lemma same_but_set_value:
  "same_but pos d d' \<Longrightarrow> pos < length (states d) \<Longrightarrow> same_but pos d (update_state pos (\<lambda>st. st\<lparr>ss_value := w\<rparr>) d')"
proof -
  assume a: "same_but pos d d'" "pos < length (states d)"
  then obtain ss where "d' = d\<lparr>states := ss\<rparr>" unfolding same_but_def by blast
  then show ?thesis using a unfolding same_but_def update_state_def by (auto simp: nth_list_update)
qed

lemma node_accept:
  assumes "at_node mx q d" "same_but (length q) d d'"
  shows "at_path mx (q @ [w]) [] (record_answer w (int (length q)) (update_state (length q) (\<lambda>st. st\<lparr>ss_value := w\<rparr>) d'))"
proof -
  note f = same_but_fields[OF assms(2)]
  have st: "length (states d') = mx" "\<forall>i < mx. ss_init (states d' ! i) = ss_init (states d ! i)"
    "\<forall>i < length q. states d' ! i = states d ! i"
    using assms by (auto simp: at_node_def same_but_def)
  have "stack mx (q @ [w]) (update_state (length q) (\<lambda>st. st\<lparr>ss_value := w\<rparr>) d')"
    using assms(1) st f by (auto simp: stack_def at_node_def nth_append less_Suc_eq)
  then show ?thesis
    using assms(1) f by (simp add: at_path_def at_node_def record_answer_def path_seq_add stack_def)
qed

lemma node_backtrack:
  assumes "at_node mx q d" "same_but (length q) d d'"
  shows "\<exists>d2. backtrack (length q) d' = Some (-1, d2) \<and> stack mx q d2 \<and> error d2 = BACKTRACKING_ERROR \<and>
    (all_done d2 \<longleftrightarrow> q = [])"
  using backtrack_stack[OF assms(2), of mx] assms(1) by (simp add: at_node_def)

lemma error_codes [simp]: "SUCCESS \<noteq> BACKTRACKING_ERROR" "BACKTRACKING_ERROR \<noteq> SUCCESS"
  "EXCEED_MAX_DEPTH_ERROR \<noteq> SUCCESS" "SUCCESS \<noteq> EXCEED_MAX_DEPTH_ERROR"
  by (simp_all add: SUCCESS_def BACKTRACKING_ERROR_def EXCEED_MAX_DEPTH_ERROR_def)

text \<open>The three cases of a request.\<close>

lemma choice_revisit:
  assumes "at_path mx q (v # p) d" "p \<noteq> []" "v < b"
  shows "\<exists>d'. random_choice b (map_option pure_filter f) ns d = Some (v, d') \<and> at_path mx (q @ [v]) p d'"
proof -
  let ?k = "length q"
  define d1 where "d1 = update_state ?k (\<lambda>st. st\<lparr>ss_bound := b\<rparr>) (d\<lparr>current_pos := current_pos d + 1\<rparr>)"
  have k: "?k < length (states d)" "current_pos d = int ?k - 1" "decision_depth d = int (?k + length p)" "error d = SUCCESS"
    "\<not> use_debug_sequence d" "length (states d) = mx" "?k + length p < mx" "ss_init (states d ! ?k)" "ss_value (states d ! ?k) = v"
    using assms(1) by (auto simp: at_path_def stack_def nth_append dest: spec[of _ ?k])
  have pos: "0 < length p" using assms(2) by simp
  have st: "ss_init (states d1 ! ?k)" "ss_value (states d1 ! ?k) = v" "error d1 = SUCCESS" "current_pos d1 = int ?k"
    "decision_depth d1 = int (?k + length p)" "max_depth d1 = int mx"
    using k by (simp_all add: d1_def max_depth_def)
  have "random_choice b (map_option pure_filter f) ns d = revisit_node ?k b (map_option pure_filter f) d1"
    using k st pos by (simp add: random_choice_def max_depth_def Let_def d1_def)
  also have "\<dots> = Some (v, record_answer v (int ?k) d1)"
    using st assms(3) k by (cases f) (simp_all add: revisit_node_def pure_filter_def)
  finally have rc: "random_choice b (map_option pure_filter f) ns d = Some (v, record_answer v (int ?k) d1)" .
  have same: "ss_init (states d1 ! i) = ss_init (states d ! i) \<and> ss_value (states d1 ! i) = ss_value (states d ! i)"
    if "i < mx" for i
    using that k by (cases "i = ?k") (simp_all add: d1_def)
  have sd: "stack mx (q @ v # p) d" using assms(1) by (simp add: at_path_def)
  have "length (states d1) = mx" "decision_depth d1 = decision_depth d" "use_debug_sequence d1 = use_debug_sequence d"
    using k by (simp_all add: d1_def)
  then have "stack mx (q @ v # p) d1" using sd same by (simp add: stack_def)
  then have "at_path mx (q @ [v]) p (record_answer v (int ?k) d1)"
    using assms(1) st by (simp add: at_path_def record_answer_def d1_def path_seq_add stack_def)
  then show ?thesis using rc by blast
qed

lemma choice_next:
  assumes "at_path mx q [v] d"
  shows "\<exists>d'. random_choice b (map_option pure_filter f) ns d =
      Some (case answers_from (v + 1) b f ns of [] \<Rightarrow> -1 | w # _ \<Rightarrow> w, d') \<and>
    (case answers_from (v + 1) b f ns of
       [] \<Rightarrow> stack mx q d' \<and> error d' = BACKTRACKING_ERROR \<and> (all_done d' \<longleftrightarrow> q = [])
     | w # _ \<Rightarrow> at_path mx (q @ [w]) [] d')"
proof -
  let ?k = "length q" and ?w = "next_answer (v + 1) b f ns"
  define d1 where "d1 = update_state ?k (\<lambda>st. st\<lparr>ss_bound := b\<rparr>) (d\<lparr>current_pos := int ?k\<rparr>)"
  have k: "?k < length (states d)" "current_pos d = int ?k - 1" "decision_depth d = int ?k" "error d = SUCCESS"
    "\<not> use_debug_sequence d" "length (states d) = mx" "ss_init (states d ! ?k)" "ss_value (states d ! ?k) = v" "\<not> all_done d"
    "seq d = path_seq q"
    using assms(1) by (auto simp: at_path_def stack_def nth_append dest: spec[of _ ?k])
  have below: "ss_init (states d ! i) \<and> ss_value (states d ! i) = q ! i" if "i < ?k" for i
    using assms that unfolding at_path_def stack_def by (metis length_append nth_append trans_less_add1)
  have above: "\<not> ss_init (states d ! i)" if "?k < i" "i < mx" for i
    using assms that by (simp add: at_path_def stack_def)
  have st: "ss_init (states d1 ! ?k)" "ss_value (states d1 ! ?k) = v" "error d1 = SUCCESS" "current_pos d1 = int ?k"
    "decision_depth d1 = int ?k" "length (states d1) = mx"
    using k by (simp_all add: d1_def)
  have node: "at_node mx q d1"
    using k below above by (auto simp: at_node_def d1_def)
  have len: "?k < length (states d1)" using k by (simp add: d1_def)
  obtain d2 where d2: "next_branch b (map_option pure_filter f) ns ?k (int ?k) v d1 = Some (False, ?w, d2)" "same_but ?k d1 d2"
    using next_branch_pure[OF st(3,4,5) len] by blast
  define d3 where "d3 = update_state ?k (\<lambda>st. st\<lparr>ss_value := ?w\<rparr>) d2"
  have d3: "same_but ?k d1 d3" "error d3 = SUCCESS"
    using same_but_set_value[OF d2(2) len] same_but_fields[OF d2(2)] st(3) by (simp_all add: d3_def)
  have rc: "random_choice b (map_option pure_filter f) ns d =
      (if ?w \<ge> b then backtrack ?k d3 else Some (?w, record_answer ?w (int ?k) d3))"
    using k st d2(1) d3(2) by (simp add: random_choice_def max_depth_def Let_def d1_def[symmetric] d3_def[symmetric])
  show ?thesis
  proof (cases "answers_from (v + 1) b f ns")
    case Nil
    then show ?thesis using rc node_backtrack[OF node d3(1)] next_answer_cases(1)[OF Nil] by auto
  next
    case (Cons w ws)
    then show ?thesis
      using rc node_accept[OF node d2(2), of w] next_answer_cases(2)[OF Cons] by (simp add: d3_def)
  qed
qed

lemma choice_first:
  assumes "at_path mx q [] d" "length q < mx"
  shows "\<exists>d'. random_choice b (map_option pure_filter f) ns d =
      Some (case answers_from 0 b f ns of [] \<Rightarrow> -1 | w # _ \<Rightarrow> w, d') \<and>
    (case answers_from 0 b f ns of
       [] \<Rightarrow> stack mx q d' \<and> error d' = BACKTRACKING_ERROR \<and> (all_done d' \<longleftrightarrow> q = [])
     | w # _ \<Rightarrow> at_path mx (q @ [w]) [] d')"
proof -
  let ?k = "length q" and ?w = "next_answer 0 b f ns"
  define d0 where "d0 = update_state ?k (\<lambda>st. st\<lparr>ss_bound := b\<rparr>) (d\<lparr>current_pos := int ?k\<rparr>)"
  define d1 where "d1 = update_state ?k (\<lambda>st. \<lparr>ss_init = True, ss_value = 0, ss_bound = b\<rparr>)
    (d0\<lparr>decision_depth := int ?k\<rparr>)"
  have k: "?k < length (states d)" "current_pos d = int ?k - 1" "decision_depth d = int ?k - 1" "error d = SUCCESS"
    "\<not> use_debug_sequence d" "length (states d) = mx" "\<not> ss_init (states d ! ?k)" "\<not> all_done d" "seq d = path_seq q"
    using assms by (auto simp: at_path_def stack_def nth_append)
  have below: "ss_init (states d ! i) \<and> ss_value (states d ! i) = q ! i" if "i < ?k" for i
    using assms(1) that by (simp add: at_path_def stack_def)
  have above: "\<not> ss_init (states d ! i)" if "?k < i" "i < mx" for i
    using assms(1) that by (simp add: at_path_def stack_def)
  have st: "error d1 = SUCCESS" "current_pos d1 = int ?k" "decision_depth d1 = int ?k" "length (states d1) = mx"
    using k by (simp_all add: d1_def d0_def)
  have node: "at_node mx q d1"
    using k below above assms(2) by (auto simp: at_node_def d1_def d0_def)
  have len: "?k < length (states d1)" using k by (simp add: d1_def d0_def)
  obtain d2 where d2: "first_branch b (map_option pure_filter f) ns ?k 0 d1 = Some (False, ?w, d2)" "same_but ?k d1 d2"
    using first_branch_pure[OF st(1,2,3) len] by blast
  have eq: "d2\<lparr>decision_depth := current_pos d2\<rparr> = d2"
    using same_but_fields[OF d2(2)] st by (cases d2) simp
  have err: "error d2 = SUCCESS" using same_but_fields[OF d2(2)] st by simp
  have "\<not> ss_init (states d0 ! ?k)" "decision_depth d0 = int ?k - 1" "current_pos d0 = int ?k" "max_depth d0 = int mx"
    using k by (simp_all add: d0_def max_depth_def)
  then have rc: "random_choice b (map_option pure_filter f) ns d =
      (if ?w \<ge> b then backtrack ?k d2
       else Some (?w, record_answer ?w (int ?k) (update_state ?k (\<lambda>st. st\<lparr>ss_value := ?w\<rparr>) d2)))"
    using k st d2(1) err eq
    by (simp add: random_choice_def max_depth_def Let_def d0_def[symmetric] d1_def[symmetric])
  show ?thesis
  proof (cases "answers_from 0 b f ns")
    case Nil
    then show ?thesis using rc node_backtrack[OF node d2(2)] next_answer_cases(1)[OF Nil] by auto
  next
    case (Cons w ws)
    then show ?thesis
      using rc node_accept[OF node d2(2), of w] next_answer_cases(2)[OF Cons] by simp
  qed
qed

section \<open>Runs\<close>

text \<open>A generator that asks at all; one that never asks would be run for ever.\<close>

primrec asks :: "'a prog \<Rightarrow> bool" where
  "asks (Finished a) = False"
| "asks (Ask b f ns kk) = True"
| "asks (Guard n t) = asks t"

definition run_end :: "nat \<Rightarrow> int list \<Rightarrow> 'a option \<Rightarrow> int list \<Rightarrow> dfs \<Rightarrow> bool" where
  "run_end mx q r p d \<longleftrightarrow> stack mx (q @ p) d \<and> (all_done d \<longleftrightarrow> q @ p = []) \<and>
     (case r of None \<Rightarrow> error d \<noteq> SUCCESS | Some a \<Rightarrow> error d = SUCCESS \<and> seq d = path_seq (q @ p))"

lemma run_end_shift: "run_end mx (q @ [w]) r p d \<longleftrightarrow> run_end mx q r (w # p) d"
  by (cases r) (simp_all add: run_end_def)

lemma guard_passes:
  "current_pos d = int k - 1 \<Longrightarrow> max_depth d = int mx \<Longrightarrow> \<not> too_deep mx k n \<Longrightarrow> eager_backtracking n d = Some (False, d)"
  by (auto simp: eager_backtracking_def too_deep_def)

lemma guard_cuts:
  assumes "at_path mx q [] d" "too_deep mx (length q) n"
  shows "\<exists>d'. eager_backtracking n d = Some (True, d') \<and> run_end mx q None [] d'"
proof -
  have k: "current_pos d = int (length q) - 1" "decision_depth d = int (length q) - 1" "length (states d) = mx" "2 \<le> length q"
    "max_depth d = int mx" "\<not> all_done d" "q \<noteq> []"
    using assms by (auto simp: at_path_def stack_def max_depth_def too_deep_def)
  define d' where "d' = set_error BACKTRACKING_ERROR (d\<lparr>decision_depth := current_pos d,
    states := take (length q) (states d) @ map uninit (drop (length q) (states d))\<rparr>)"
  have "eager_backtracking n d = Some (True, d')"
    using k assms(2) by (simp add: eager_backtracking_def too_deep_def states_from_def d'_def nat_diff_distrib)
  moreover have "run_end mx q None [] d'"
    using assms(1) k by (auto simp: run_end_def d'_def set_error_def at_path_def stack_def nth_append min_def uninit_def)
  ultimately show ?thesis by blast
qed

lemma exceed:
  assumes "at_path mx q [] d" "mx \<le> length q" "0 < mx"
  shows "\<exists>d'. random_choice b f ns d = Some (-1, d') \<and> run_end mx q None [] d'"
proof -
  have k: "length q = mx" "current_pos d = int mx - 1" "error d = SUCCESS" "\<not> use_debug_sequence d" "max_depth d = int mx" "q \<noteq> []"
    using assms by (auto simp: at_path_def stack_def max_depth_def)
  have "random_choice b f ns d = Some (-1, set_error EXCEED_MAX_DEPTH_ERROR (d\<lparr>current_pos := int mx\<rparr>))"
    using k by (simp add: random_choice_def Let_def max_depth_def)
  moreover have "run_end mx q None [] (set_error EXCEED_MAX_DEPTH_ERROR (d\<lparr>current_pos := int mx\<rparr>))"
    using assms(1) k by (simp add: run_end_def set_error_def at_path_def stack_def)
  ultimately show ?thesis by blast
qed

lemma run_visit:
  assumes "at_path mx q [] d" "0 < mx" "q \<noteq> [] \<or> asks t" "visit t mx (length q) = (r, p)"
  shows "\<exists>d'. run_prog t d = Some (r, d') \<and> run_end mx q r p d'"
  using assms
proof (induction t arbitrary: q d r p)
  case (Finished a)
  then show ?case by (auto simp: run_end_def at_path_def)
next
  case (Guard n t)
  show ?case
  proof (cases "too_deep mx (length q) n")
    case True
    then show ?thesis using guard_cuts[OF Guard.prems(1) True] Guard.prems(4) by auto
  next
    case False
    have "current_pos d = int (length q) - 1" "max_depth d = int mx"
      using Guard.prems(1) by (simp_all add: at_path_def stack_def max_depth_def)
    then have "eager_backtracking n d = Some (False, d)" using False by (rule guard_passes)
    then show ?thesis using Guard False by simp
  qed
next
  case (Ask b f ns kk)
  show ?case
  proof (cases "mx \<le> length q")
    case True
    obtain d' where "random_choice b (map_option pure_filter f) ns d = Some (-1, d')" "run_end mx q None [] d'"
      using exceed[OF Ask.prems(1) True Ask.prems(2)] by blast
    then show ?thesis using Ask.prems(4) True by (simp add: run_end_def)
  next
    case False
    obtain d1 where d1: "random_choice b (map_option pure_filter f) ns d =
        Some (case answers_from 0 b f ns of [] \<Rightarrow> -1 | w # _ \<Rightarrow> w, d1)"
      "case answers_from 0 b f ns of
         [] \<Rightarrow> stack mx q d1 \<and> error d1 = BACKTRACKING_ERROR \<and> (all_done d1 \<longleftrightarrow> q = [])
       | w # _ \<Rightarrow> at_path mx (q @ [w]) [] d1"
      using choice_first[OF Ask.prems(1), of b f ns] False by auto
    show ?thesis
    proof (cases "answers_from 0 b f ns")
      case Nil
      then show ?thesis using d1 Ask.prems(4) False by (auto simp: run_end_def)
    next
      case (Cons w ws)
      then have at: "at_path mx (q @ [w]) [] d1" using d1(2) by simp
      obtain r0 p0 where vis: "visit (kk w) mx (length (q @ [w])) = (r0, p0)" by fastforce
      obtain d' where d': "run_prog (kk w) d1 = Some (r0, d')" "run_end mx (q @ [w]) r0 p0 d'"
        using Ask.IH[OF _ at Ask.prems(2) _ vis] by auto
      have "error d1 = SUCCESS" using at by (simp add: at_path_def)
      then show ?thesis
        using d1(1) d' Cons vis Ask.prems(4) False by (auto simp: run_end_shift)
    qed
  qed
qed

lemma run_resume:
  assumes "at_path mx q p d" "0 < mx" "p \<noteq> []" "on_path t p mx (length q)" "resume t p mx (length q) = (r, p')"
  shows "\<exists>d'. run_prog t d = Some (r, d') \<and> run_end mx q r p' d'"
  using assms
proof (induction t arbitrary: q p d r p')
  case (Finished a)
  then show ?case by simp
next
  case (Guard n t)
  have "current_pos d = int (length q) - 1" "max_depth d = int mx"
    using Guard.prems(1) by (simp_all add: at_path_def stack_def max_depth_def)
  moreover have ok: "\<not> too_deep mx (length q) n" using Guard.prems(3,4) by simp
  ultimately have "eager_backtracking n d = Some (False, d)" by (rule guard_passes)
  then show ?case using Guard by simp
next
  case (Ask b f ns kk)
  obtain v p0 where p: "p = v # p0" using Ask.prems(3) by (cases p) auto
  have v: "v < b" "on_path (kk v) p0 mx (Suc (length q))"
    using Ask.prems(4) p by (simp_all add: answers_from_mem)
  show ?case
  proof (cases p0)
    case Nil
    obtain d1 where d1: "random_choice b (map_option pure_filter f) ns d =
        Some (case answers_from (v + 1) b f ns of [] \<Rightarrow> -1 | w # _ \<Rightarrow> w, d1)"
      "case answers_from (v + 1) b f ns of
         [] \<Rightarrow> stack mx q d1 \<and> error d1 = BACKTRACKING_ERROR \<and> (all_done d1 \<longleftrightarrow> q = [])
       | w # _ \<Rightarrow> at_path mx (q @ [w]) [] d1"
      using choice_next[of mx q v d b f ns] Ask.prems(1) p Nil by auto
    show ?thesis
    proof (cases "answers_from (v + 1) b f ns")
      case Nil
      then show ?thesis using d1 Ask.prems(5) p \<open>p0 = []\<close> by (auto simp: run_end_def)
    next
      case (Cons w ws)
      then have at: "at_path mx (q @ [w]) [] d1" using d1(2) by simp
      obtain r0 p1 where vis: "visit (kk w) mx (length (q @ [w])) = (r0, p1)" by fastforce
      obtain d' where d': "run_prog (kk w) d1 = Some (r0, d')" "run_end mx (q @ [w]) r0 p1 d'"
        using run_visit[OF at Ask.prems(2) _ vis] by auto
      have "error d1 = SUCCESS" using at by (simp add: at_path_def)
      then show ?thesis
        using d1(1) d' Cons vis Ask.prems(5) p \<open>p0 = []\<close> by (auto simp: run_end_shift)
    qed
  next
    case (Cons v' q')
    obtain d1 where d1: "random_choice b (map_option pure_filter f) ns d = Some (v, d1)" "at_path mx (q @ [v]) p0 d1"
      using choice_revisit[of mx q v p0 d b f ns] Ask.prems(1) p Cons v(1) by auto
    obtain r0 p1 where res: "resume (kk v) p0 mx (length (q @ [v])) = (r0, p1)" by fastforce
    obtain d' where d': "run_prog (kk v) d1 = Some (r0, d')" "run_end mx (q @ [v]) r0 p1 d'"
      using Ask.IH[OF _ d1(2) Ask.prems(2) _ _ res] v(2) Cons by auto
    have "error d1 = SUCCESS" using d1(2) by (simp add: at_path_def)
    then show ?thesis
      using d1(1) d' Cons res Ask.prems(5) p by (auto simp: run_end_shift)
  qed
qed

section \<open>All programs, once each\<close>

definition listing :: "(int list \<times> 'a) list \<Rightarrow> (lseq \<times> 'a option) list" where
  "listing ps = map (\<lambda>(p, a). (path_seq p, Some a)) ps"

lemma next_run:
  assumes "run_end mx [] r p d"
  shows "p = [] \<Longrightarrow> all_done (reset_state d)" "p \<noteq> [] \<Longrightarrow> at_path mx [] p (set_error SUCCESS (reset_state d))"
    "p \<noteq> [] \<Longrightarrow> \<not> all_done (reset_state d)"
  using assms by (auto simp: run_end_def reset_state_def at_path_def set_error_def stack_def path_seq_def)

lemma go_generator_step:
  assumes "run_prog t (set_error SUCCESS d) = Some (r, d1)" "run_end mx [] r p d1" "\<not> all_done d"
    "go_generator (run_prog t) (reset_state d1) = Some (listing ps, d2)"
  shows "go_generator (run_prog t) d = Some (listing ((case r of None \<Rightarrow> [] | Some a \<Rightarrow> [(p, a)]) @ ps), d2)"
  using assms
  by (subst go_generator.simps) (auto simp: run_end_def listing_def split: option.splits)

lemma go_generator_left:
  assumes "at_path mx [] p (set_error SUCCESS d)" "\<not> all_done d" "0 < mx" "p \<noteq> []" "on_path t p mx 0"
  shows "\<exists>d'. go_generator (run_prog t) d = Some (listing (left_after t p mx 0), d') \<and> all_done d'"
  using assms
proof (induction "runs_after t p mx 0" arbitrary: p d rule: less_induct)
  case (less p d)
  obtain r p' where res: "resume t p mx 0 = (r, p')" by fastforce
  obtain d1 where d1: "run_prog t (set_error SUCCESS d) = Some (r, d1)" "run_end mx [] r p' d1"
    using run_resume[OF less.prems(1,3,4), of t r p'] less.prems(5) res by auto
  have path: "on_path t p' mx 0" "runs_after t p' mx 0 < runs_after t p mx 0"
    using resume_on_path[OF res less.prems(5,4)] by auto
  note next_d = next_run[OF d1(2)]
  have "\<exists>d2. go_generator (run_prog t) (reset_state d1) = Some (listing (left_after t p' mx 0), d2) \<and> all_done d2"
  proof (cases "p' = []")
    case True
    then show ?thesis using next_d(1) by (subst go_generator.simps) (simp add: listing_def)
  next
    case False
    then show ?thesis using less.hyps[OF path(2) next_d(2,3) less.prems(3) False path(1)] by blast
  qed
  then show ?case
    using go_generator_step[OF d1 less.prems(2)] resume_left[OF res less.prems(5,4)] by auto
qed

text \<open>C3: The exhaustive mode runs the program generator until it has seen every sequence of acceptable
  answers within the depth bound: the loop ends, and it outputs exactly the finished programs of the
  generator's tree of requests, each once, in the order of the answers, and each with the recorded
  sequence of its answers.\<close>

theorem go_generator_exhaustive:
  assumes "asks t" "0 < mx"
  shows "\<exists>d. go_generator (run_prog t) (new_dfs mx) =
      Some (map (\<lambda>(p, a). (path_seq p, Some a)) (programs t mx 0), d) \<and> all_done d"
proof -
  let ?d = "new_dfs mx"
  have new: "at_path mx [] [] (set_error SUCCESS ?d)" "\<not> all_done ?d"
    by (simp_all add: at_path_def stack_def new_dfs_def set_error_def path_seq_def new_search_state_def)
  obtain r p where vis: "visit t mx 0 = (r, p)" by fastforce
  obtain d1 where d1: "run_prog t (set_error SUCCESS ?d) = Some (r, d1)" "run_end mx [] r p d1"
    using run_visit[OF new(1) assms(2), of t r p] assms(1) vis by auto
  note next_d = next_run[OF d1(2)]
  have "\<exists>d2. go_generator (run_prog t) (reset_state d1) = Some (listing (left_after t p mx 0), d2) \<and> all_done d2"
  proof (cases "p = []")
    case True
    then show ?thesis using next_d(1) by (subst go_generator.simps) (simp add: listing_def)
  next
    case False
    then show ?thesis using go_generator_left[OF next_d(2,3) assms(2)] visit_on_path[OF vis] by blast
  qed
  then show ?thesis
    using go_generator_step[OF d1 new(2)] visit_programs[OF vis] by (auto simp: listing_def)
qed

definition two_coins :: "(int \<times> int) prog" where
  "two_coins = Ask 2 None None (\<lambda>a. Ask 3 (Some (\<lambda>v. v = a)) None (\<lambda>b. Finished (a, b)))"

theorem go_generator_exhaustive_witness:
  "\<exists>d. go_generator (run_prog two_coins) (new_dfs 4) =
      Some ([(path_seq [0, 1], Some (0, 1)), (path_seq [0, 2], Some (0, 2)),
             (path_seq [1, 0], Some (1, 0)), (path_seq [1, 2], Some (1, 2))], d)"
  using go_generator_exhaustive[of two_coins 4]
  by (auto simp: two_coins_def answers_from_def refuses_def filter_invalid_nums_def upto.simps)

section \<open>Replay of a recorded sequence\<close>

lemma extract_show_nat: "int n \<le> INT_MAX \<Longrightarrow> extract_int i (show_nat n) = int n"
proof -
  assume n: "int n \<le> INT_MAX"
  obtain c cs where s: "show_nat n = c # cs" by (cases "show_nat n") auto
  have "is_digit c" using show_nat_digits[of c n] s by simp
  then have c: "\<not> stream_blank c" "c \<noteq> CHR ''-''" "c \<noteq> CHR ''+''"
    by (auto simp: is_digit_def stream_blank_def)
  have "\<forall>x \<in> set (c # cs). is_digit x" using show_nat_digits[of _ n] s by simp
  then have digits: "takeWhile is_digit (c # cs) = c # cs" by (simp only: takeWhile_eq_all_conv)
  have "read_nat (c # cs) = n" using read_show_nat[of n] s by simp
  then show ?thesis using c n by (simp add: extract_int_def Let_def s digits del: takeWhile.simps)
qed

definition seq_text :: "int list \<Rightarrow> string" where
  "seq_text p = (case p of [] \<Rightarrow> [] | v # q \<Rightarrow> show_int v @ concat (map (\<lambda>w. sep_char # show_int w) q))"

lemma seq_text_Cons: "seq_text (v # w # q) = show_int v @ sep_char # seq_text (w # q)"
  by (simp add: seq_text_def)

lemma map_of_path_seq: "i < length p \<Longrightarrow> map_of (path_seq p) (int i) = Some (p ! i)"
proof -
  assume i: "i < length p"
  have "map fst (path_seq p) = map int (map fst (enumerate 0 p))"
    by (simp only: path_seq_def case_prod_unfold comp_def map_map fst_conv)
  then have "distinct (map fst (path_seq p))" by (simp add: distinct_map)
  moreover have "(int i, p ! i) \<in> set (path_seq p)"
    using i by (auto simp: path_seq_def in_set_enumerate_eq intro!: rev_image_eqI[of "(i, p ! i)"])
  ultimately show ?thesis by simp
qed

lemma path_seq_length [simp]: "length (path_seq p) = length p"
  by (simp add: path_seq_def)

lemma lseq_out_path:
  "i < length p \<Longrightarrow> lseq_out i (path_seq p) = Some (seq_text (drop i p), path_seq p)"
proof (induction "length p - i" arbitrary: i)
  case (Suc n)
  have r: "lseq_ref (int i) (path_seq p) = (p ! i, path_seq p)"
    using map_of_path_seq[OF Suc.prems] by (simp add: lseq_ref_def)
  have d: "drop i p = p ! i # drop (Suc i) p" using Suc.prems by (simp add: Cons_nth_drop_Suc)
  show ?case
  proof (cases "Suc i < length p")
    case True
    then have "drop (Suc i) p = p ! Suc i # drop (Suc (Suc i)) p" by (simp add: Cons_nth_drop_Suc)
    then show ?thesis
      using Suc.hyps(1)[of "Suc i"] Suc.hyps(2) True r d
      by (subst lseq_out.simps) (simp add: seq_text_Cons less_diff_conv)
  next
    case False
    then have "drop (Suc i) p = []" by simp
    then show ?thesis using False r d
      by (subst lseq_out.simps) (simp add: seq_text_def less_diff_conv)
  qed
qed simp

lemma parse_seq_text:
  assumes "p \<noteq> []" "\<forall>v \<in> set p. 0 \<le> v \<and> v \<le> INT_MAX"
  shows "parse_sequence sep_char (seq_text p) q = (True, q @ p)"
  using assms
proof (induction p arbitrary: q)
  case (Cons v p)
  have v: "show_int v = show_nat (nat v)" "int (nat v) \<le> INT_MAX" using Cons.prems(2) by (simp_all add: show_int_def)
  have digit: "is_digit c" if "c \<in> set (show_int v)" for c using that v show_nat_digits by simp
  have no: "\<not> is_digit (CHR '' '')" "\<not> is_digit sep_char" by (simp_all add: is_digit_def sep_char_def)
  have "show_int v \<noteq> []" unfolding v(1) by (rule show_nat_not_Nil)
  then obtain c cs where c: "show_int v = c # cs" using list.exhaust by blast
  have "c \<noteq> CHR '' ''" using digit[of c] no(1) c by auto
  then have tok: "dropWhile (\<lambda>c. c = CHR '' '') (show_int v @ r) = show_int v @ r" for r
    by (simp add: c)
  have cut: "takeWhile (\<lambda>c. c \<noteq> sep_char) (show_int v @ r) = show_int v @ takeWhile (\<lambda>c. c \<noteq> sep_char) r"
    "dropWhile (\<lambda>c. c \<noteq> sep_char) (show_int v @ r) = dropWhile (\<lambda>c. c \<noteq> sep_char) r" for r
    using digit no(2) by (auto intro!: takeWhile_append2 dropWhile_append2)
  have num: "seq_str2int (show_int v) = v" using extract_show_nat[OF v(2)] v Cons.prems(2) by (simp add: seq_str2int_def)
  show ?case
  proof (cases p)
    case Nil
    have alone: "takeWhile (\<lambda>c. c \<noteq> sep_char) (show_int v) = show_int v"
      "dropWhile (\<lambda>c. c \<noteq> sep_char) (show_int v) = []" "dropWhile (\<lambda>c. c = CHR '' '') (show_int v) = show_int v"
      using cut[of "[]"] tok[of "[]"] by simp_all
    show ?thesis using num Cons.prems(2)
      by (subst parse_sequence.simps) (simp add: Nil seq_text_def Let_def alone)
  next
    case (Cons w p')
    then show ?thesis using tok cut num Cons.prems(2) Cons.IH
      by (subst parse_sequence.simps) (simp add: seq_text_Cons)
  qed
qed simp

text \<open>The generator in replay: no search, and the answer at every position comes from the sequence.\<close>

definition replaying :: "nat \<Rightarrow> int list \<Rightarrow> nat \<Rightarrow> dfs \<Rightarrow> bool" where
  "replaying mx p k d \<longleftrightarrow> use_debug_sequence d \<and> seq d = path_seq p \<and> current_pos d = int k - 1 \<and>
     decision_depth d = -1 \<and> length (states d) = mx \<and> error d = SUCCESS"

lemma replay_choice:
  assumes "replaying mx p k d" "k < length p" "0 \<le> p ! k"
  shows "\<exists>d'. random_choice b (map_option pure_filter f) ns d = Some (p ! k, d') \<and> replaying mx p (Suc k) d' \<and>
    (all_done d' \<longleftrightarrow> all_done d \<or> length p \<le> Suc k)"
  using assms map_of_path_seq[OF assms(2)]
  by (cases f) (auto simp: random_choice_def replaying_def Let_def lseq_get_by_pos_def lseq_ref_def pure_filter_def)

lemma replay_run:
  assumes "replaying mx (q @ p) (length q) d" "(p, a) \<in> set (programs t mx (length q))"
    "all_done d \<longleftrightarrow> q \<noteq> [] \<and> p = []" "p \<noteq> [] \<or> q \<noteq> []"
  shows "\<exists>d'. run_prog t d = Some (Some a, d') \<and> all_done d' \<and> error d' = SUCCESS \<and> seq d' = path_seq (q @ p)"
  using assms
proof (induction t arbitrary: q p d)
  case (Finished a)
  then show ?case by (simp add: replaying_def)
next
  case (Guard n t)
  then have deep: "\<not> too_deep mx (length q) n" "(p, a) \<in> set (programs t mx (length q))" by (auto split: if_splits)
  have "eager_backtracking n d = Some (False, d)"
    using Guard.prems(1) deep(1) by (intro guard_passes) (simp_all add: replaying_def max_depth_def)
  then show ?case using Guard.IH[OF Guard.prems(1) deep(2) Guard.prems(3,4)] by simp
next
  case (Ask b f ns kk)
  obtain v p' where p: "p = v # p'" "v \<in> set (answers_from 0 b f ns)" "(p', a) \<in> set (programs (kk v) mx (Suc (length q)))"
    using Ask.prems(2) by (auto split: if_splits)
  then have v: "0 \<le> (q @ p) ! length q" by (simp add: answers_from_mem)
  obtain d1 where d1: "random_choice b (map_option pure_filter f) ns d = Some (v, d1)"
    "replaying mx (q @ p) (Suc (length q)) d1" "all_done d1 \<longleftrightarrow> p' = []"
    using replay_choice[OF Ask.prems(1) _ v, of b f ns] p(1) Ask.prems(3) by auto
  have "error d1 = SUCCESS" using d1(2) by (simp add: replaying_def)
  moreover have "replaying mx ((q @ [v]) @ p') (length (q @ [v])) d1" using d1(2) p(1) by simp
  from Ask.IH[of "kk v", OF _ this] p(3) d1(3) obtain d' where
    "run_prog (kk v) d1 = Some (Some a, d')" "all_done d'" "error d' = SUCCESS" "seq d' = path_seq (q @ p)"
    using p(1) by auto
  ultimately show ?case using d1(1) by simp
qed

lemma debug_dfs_replaying: "replaying mx p 0 (debug_dfs mx p)" "\<not> all_done (debug_dfs mx p)"
proof -
  have "fold (\<lambda>(i, x). lseq_add x (int i)) (enumerate (length q) r) (path_seq q) = path_seq (q @ r)" for q r
  proof (induction r arbitrary: q)
    case (Cons a r)
    show ?case using Cons.IH[of "q @ [a]"] by (simp add: path_seq_add)
  qed simp
  from this[of "[]" p] show "replaying mx p 0 (debug_dfs mx p)" "\<not> all_done (debug_dfs mx p)"
    by (simp_all add: debug_dfs_def new_dfs_def replaying_def path_seq_def)
qed

text \<open>C38: A program found by the exhaustive search can be generated again from the sequence in its name:
  the printed sequence parses back, and the generator started with it makes that program, and only it.\<close>

theorem replay_recorded:
  assumes "(p, a) \<in> set (programs t mx 0)" "asks t" "\<forall>v \<in> set p. v \<le> INT_MAX"
  shows "\<exists>s. lseq_get_sequence (path_seq p) = Some (s, path_seq p) \<and>
    (\<exists>d d'. make_rndnum_generator mx s = Some d \<and> go_generator (run_prog t) d = Some ([(path_seq p, Some a)], d'))"
proof -
  have ne: "p \<noteq> []" using assms(1,2) by (induction t) (auto split: if_splits)
  have nn: "\<forall>v \<in> set p. 0 \<le> v" if "(p, a) \<in> set (programs t mx k)" for p a k t
    using that by (induction t arbitrary: p k) (force simp: answers_from_mem split: if_splits)+
  let ?s = "seq_text p"
  have s: "lseq_get_sequence (path_seq p) = Some (?s, path_seq p)"
    using ne lseq_out_path[of 0 p] by (auto simp: lseq_get_sequence_def path_seq_def enumerate_eq_zip)
  have "seq_text p \<noteq> []" using ne by (auto simp: seq_text_def show_int_def split: list.split)
  then have m: "make_rndnum_generator mx ?s = Some (debug_dfs mx p)"
    using parse_seq_text[OF ne, of "[]"] nn[OF assms(1)] assms(3) by (simp add: make_rndnum_generator_def)
  have "set_error SUCCESS (debug_dfs mx p) = debug_dfs mx p" by (simp add: set_error_def debug_dfs_def new_dfs_def)
  moreover obtain d1 where d1: "run_prog t (debug_dfs mx p) = Some (Some a, d1)" "all_done d1" "error d1 = SUCCESS"
    "seq d1 = path_seq p"
    using replay_run[of mx "[]" p "debug_dfs mx p" a t] debug_dfs_replaying assms(1) ne by auto
  moreover have "go_generator (run_prog t) (reset_state d1) = Some ([], reset_state d1)"
    using d1(2) by (subst go_generator.simps) (simp add: reset_state_def)
  ultimately have "go_generator (run_prog t) (debug_dfs mx p) = Some ([(path_seq p, Some a)], reset_state d1)"
    using debug_dfs_replaying(2)[of mx p] by (subst go_generator.simps) simp
  with s m show ?thesis by blast
qed

theorem replay_recorded_witness:
  "\<exists>s d d'. make_rndnum_generator 4 s = Some d \<and> go_generator (run_prog two_coins) d = Some ([(path_seq [1, 2], Some (1, 2))], d')"
  using replay_recorded[of "[1, 2]" "(1, 2)" two_coins 4]
  by (auto simp: two_coins_def answers_from_def refuses_def filter_invalid_nums_def upto.simps INT_MAX_def)

end
