(* ===== verification/DepthSpec.thy ===== *)
theory DepthSpec
  imports Exhaustive Rng
begin

text \<open>
  DepthSpec.cpp: the number of random choices each construct needs at least, and the guards that cut
  off a program in the exhaustive mode when fewer are left.  The getters take the flag of the code; a
  getter called without a flag gets -1.
\<close>

definition ATOMIC_DEPTH_INCR :: int where "ATOMIC_DEPTH_INCR = 1"
definition GOOD_DEPTH :: int where "GOOD_DEPTH = 0"
definition BAD_DEPTH :: int where "BAD_DEPTH = -1"

text \<open>The enumeration bounds the flags are compared with.\<close>

definition MAX_STATEMENT_TYPE :: int where "MAX_STATEMENT_TYPE = 11"
definition MAX_TERM_TYPES :: int where "MAX_TERM_TYPES = 6"
definition MAX_VAR_SCOPE :: int where "MAX_VAR_SCOPE = 4"
definition sOpBinary :: int where "sOpBinary = 1"

datatype dtype =
    dtFirstFunction | dtFunction | dtBlock | dtStatement | dtStatementAssign | dtStatementFor
  | dtStatementIf | dtStatementExpr | dtStatementReturn | dtFunctionInvocationUnary
  | dtFunctionInvocationBinary | dtFunctionInvocationRandomUnary
  | dtFunctionInvocationRandomRegularBinary | dtFunctionInvocationRandomBinaryPointer
  | dtFunctionInvocationRandomBinary | dtFunctionInvocationRandom | dtFunctionInvocationStdFunc
  | dtFunctionUserBuildInvocation | dtExpression | dtExpressionRandomParam | dtExpressionFuncall
  | dtExpressionVariable | dtLhs | dtReturnType | dtRandomTypeFromType | dtFunctionGenerateBody
  | dtGenerateParamList | dtTypeChooseSimple | dtSelectLValue | dtSelectVariable
  | dtSelectDerefPointer | dtSelectExistingVariable | dtInitVariable | dtSelectGlobal
  | dtGenerateNewGlobal | dtSelectParentLocal | dtGenerateNewParentLocal | dtGenerateNewVariable
  | dtInitPointerValue | dtSafeOpFlags

section \<open>The depths\<close>

definition dtVariableSelection_minimal_depth :: "cgoptions \<Rightarrow> int \<Rightarrow> int" where
  "dtVariableSelection_minimal_depth o1 flag = 1"

definition dtLoopControl_minimal_depth :: "cgoptions \<Rightarrow> int \<Rightarrow> int" where
  "dtLoopControl_minimal_depth o1 flag = 3"

definition dtTypeNonVoidSimple_minimal_depth :: "cgoptions \<Rightarrow> int \<Rightarrow> int" where
  "dtTypeNonVoidSimple_minimal_depth o1 flag = 1"

definition dtTypeChooseRandom_minimal_depth :: "cgoptions \<Rightarrow> int \<Rightarrow> int" where
  "dtTypeChooseRandom_minimal_depth o1 flag = 1"

definition dtChooseRandomPointerType_minimal_depth :: "cgoptions \<Rightarrow> int \<Rightarrow> int" where
  "dtChooseRandomPointerType_minimal_depth o1 flag = 1"

definition dtConstant_minimal_depth :: "cgoptions \<Rightarrow> int \<Rightarrow> int" where
  "dtConstant_minimal_depth o1 flag = 0"

definition dtInitVariable_minimal_depth :: "cgoptions \<Rightarrow> int \<Rightarrow> int" where
  "dtInitVariable_minimal_depth o1 flag = 1"

definition dtExpression_minimal_depth :: "cgoptions \<Rightarrow> int \<Rightarrow> int" where
  "dtExpression_minimal_depth o1 flag = (let rv = dtConstant_minimal_depth o1 flag in if flag =
     MAX_TERM_TYPES then rv + 1 else rv)"

definition dtExpressionRandomParam_minimal_depth :: "cgoptions \<Rightarrow> int \<Rightarrow> int" where
  "dtExpressionRandomParam_minimal_depth o1 flag = (let rv = dtConstant_minimal_depth o1 flag in if flag =
     MAX_TERM_TYPES then rv + 1 else rv)"

definition dtSelectVariable_minimal_depth :: "cgoptions \<Rightarrow> int \<Rightarrow> int" where
  "dtSelectVariable_minimal_depth o1 flag = (if flag = MAX_VAR_SCOPE then dtVariableSelection_minimal_depth
     o1 flag + 1 else dtVariableSelection_minimal_depth o1 flag)"

definition dtSafeOpFlags_minimal_depth :: "cgoptions \<Rightarrow> int \<Rightarrow> int" where
  "dtSafeOpFlags_minimal_depth o1 flag = (if flag = sOpBinary then 2 else 3)"

definition dtLhs_minimal_depth :: "cgoptions \<Rightarrow> int \<Rightarrow> int" where
  "dtLhs_minimal_depth o1 flag = 1"

definition dtExpressionVariable_minimal_depth :: "cgoptions \<Rightarrow> int \<Rightarrow> int" where
  "dtExpressionVariable_minimal_depth o1 flag = dtSelectVariable_minimal_depth o1 (-1)"

definition dtStatementReturn_minimal_depth :: "cgoptions \<Rightarrow> int \<Rightarrow> int" where
  "dtStatementReturn_minimal_depth o1 flag = dtExpressionVariable_minimal_depth o1 (-1)"

definition dtStatement_minimal_depth_inner :: "cgoptions \<Rightarrow> int \<Rightarrow> int" where
  "dtStatement_minimal_depth_inner o1 flag = dtStatementReturn_minimal_depth o1 (-1) + 1"

definition dtBlock_minimal_depth :: "cgoptions \<Rightarrow> int \<Rightarrow> int" where
  "dtBlock_minimal_depth o1 flag = dtStatement_minimal_depth_inner o1 0 + 1"

definition dtStatement_minimal_depth :: "cgoptions \<Rightarrow> int \<Rightarrow> int" where
  "dtStatement_minimal_depth o1 flag = (if flag = MAX_STATEMENT_TYPE then dtStatement_minimal_depth_inner
     o1 0 + 1 else dtStatement_minimal_depth_inner o1 0)"

definition dtSelectLValue_minimal_depth :: "cgoptions \<Rightarrow> int \<Rightarrow> int" where
  "dtSelectLValue_minimal_depth o1 flag = dtSelectVariable_minimal_depth o1 flag"

definition dtStatementAssign_minimal_depth :: "cgoptions \<Rightarrow> int \<Rightarrow> int" where
  "dtStatementAssign_minimal_depth o1 flag = (let extra = (if opt_compound_assignment o1 then 1 else 0) in
     dtSelectLValue_minimal_depth o1 (-1) + dtExpression_minimal_depth o1 (-1) + dtLhs_minimal_depth o1
     (-1) + dtSafeOpFlags_minimal_depth o1 (-1) + extra)"

definition dtFunctionInvocationUnary_minimal_depth :: "cgoptions \<Rightarrow> int \<Rightarrow> int" where
  "dtFunctionInvocationUnary_minimal_depth o1 flag = dtSafeOpFlags_minimal_depth o1 (-1)"

definition dtFunctionInvocationBinary_minimal_depth :: "cgoptions \<Rightarrow> int \<Rightarrow> int" where
  "dtFunctionInvocationBinary_minimal_depth o1 flag = dtSafeOpFlags_minimal_depth o1 (-1)"

definition dtStatementFor_minimal_depth :: "cgoptions \<Rightarrow> int \<Rightarrow> int" where
  "dtStatementFor_minimal_depth o1 flag = dtSelectLValue_minimal_depth o1 (-1) +
     dtLoopControl_minimal_depth o1 (-1) + dtSafeOpFlags_minimal_depth o1 (-1) +
     dtFunctionInvocationBinary_minimal_depth o1 (-1) + dtSafeOpFlags_minimal_depth o1 (-1) +
     ATOMIC_DEPTH_INCR + dtBlock_minimal_depth o1 (-1)"

definition dtStatementIf_minimal_depth :: "cgoptions \<Rightarrow> int \<Rightarrow> int" where
  "dtStatementIf_minimal_depth o1 flag = dtExpression_minimal_depth o1 (-1) + 2 * dtBlock_minimal_depth o1
     (-1)"

definition dtFunctionInvocationRandomUnary_minimal_depth :: "cgoptions \<Rightarrow> int \<Rightarrow> int" where
  "dtFunctionInvocationRandomUnary_minimal_depth o1 flag = ATOMIC_DEPTH_INCR + dtSafeOpFlags_minimal_depth
     o1 (-1) + dtExpression_minimal_depth o1 (-1)"

definition dtFunctionInvocationRandomRegularBinary_minimal_depth :: "cgoptions \<Rightarrow> int \<Rightarrow> int" where
  "dtFunctionInvocationRandomRegularBinary_minimal_depth o1 flag = ATOMIC_DEPTH_INCR +
     dtSafeOpFlags_minimal_depth o1 (-1) + 2 * dtExpression_minimal_depth o1 (-1)"

definition dtFunctionInvocationRandomBinaryPointer_minimal_depth :: "cgoptions \<Rightarrow> int \<Rightarrow> int" where
  "dtFunctionInvocationRandomBinaryPointer_minimal_depth o1 flag = 1 + dtSafeOpFlags_minimal_depth o1 (-1)
     + dtChooseRandomPointerType_minimal_depth o1 (-1) + 2 * dtExpression_minimal_depth o1 (-1)"

definition dtFunctionInvocationRandomBinary_minimal_depth :: "cgoptions \<Rightarrow> int \<Rightarrow> int" where
  "dtFunctionInvocationRandomBinary_minimal_depth o1 flag = 1 + min
     (dtFunctionInvocationRandomRegularBinary_minimal_depth o1 (-1))
     (dtFunctionInvocationRandomBinaryPointer_minimal_depth o1 (-1))"

definition dtFunctionUserBuildInvocation_minimal_depth :: "cgoptions \<Rightarrow> int \<Rightarrow> int" where
  "dtFunctionUserBuildInvocation_minimal_depth o1 flag = dtExpressionRandomParam_minimal_depth o1 flag"

definition dtFunctionInvocationStdFunc_minimal_depth :: "cgoptions \<Rightarrow> int \<Rightarrow> int" where
  "dtFunctionInvocationStdFunc_minimal_depth o1 flag = min (dtFunctionInvocationRandomUnary_minimal_depth
     o1 (-1)) (dtFunctionInvocationRandomBinary_minimal_depth o1 (-1)) + 1"

definition dtFunctionInvocationRandom_minimal_depth :: "cgoptions \<Rightarrow> int \<Rightarrow> int" where
  "dtFunctionInvocationRandom_minimal_depth o1 flag = min (min
     (dtFunctionInvocationRandomUnary_minimal_depth o1 (-1))
     (dtFunctionInvocationRandomBinary_minimal_depth o1 (-1))) (dtFunctionUserBuildInvocation_minimal_depth
     o1 (-1))"

definition dtStatementExpr_minimal_depth :: "cgoptions \<Rightarrow> int \<Rightarrow> int" where
  "dtStatementExpr_minimal_depth o1 flag = dtFunctionInvocationRandom_minimal_depth o1 (-1)"

definition dtExpressionFuncall_minimal_depth :: "cgoptions \<Rightarrow> int \<Rightarrow> int" where
  "dtExpressionFuncall_minimal_depth o1 flag = dtFunctionInvocationRandom_minimal_depth o1 (-1)"

definition dtReturnType_minimal_depth :: "cgoptions \<Rightarrow> int \<Rightarrow> int" where
  "dtReturnType_minimal_depth o1 flag = dtTypeChooseRandom_minimal_depth o1 (-1)"

definition dtRandomTypeFromType_minimal_depth :: "cgoptions \<Rightarrow> int \<Rightarrow> int" where
  "dtRandomTypeFromType_minimal_depth o1 flag = dtTypeChooseRandom_minimal_depth o1 (-1)"

definition dtFunctionGenerateBody_minimal_depth :: "cgoptions \<Rightarrow> int \<Rightarrow> int" where
  "dtFunctionGenerateBody_minimal_depth o1 flag = dtBlock_minimal_depth o1 (-1)"

definition dtGenerateParamList_minimal_depth :: "cgoptions \<Rightarrow> int \<Rightarrow> int" where
  "dtGenerateParamList_minimal_depth o1 flag = ATOMIC_DEPTH_INCR + dtSelectVariable_minimal_depth o1 (-1)"

definition dtFunction_minimal_depth_inner :: "cgoptions \<Rightarrow> int \<Rightarrow> int" where
  "dtFunction_minimal_depth_inner o1 flag = dtGenerateParamList_minimal_depth o1 (-1) +
     dtFunctionGenerateBody_minimal_depth o1 (-1)"

definition dtFunction_minimal_depth :: "cgoptions \<Rightarrow> int \<Rightarrow> int" where
  "dtFunction_minimal_depth o1 flag = dtFunction_minimal_depth_inner o1 0"

definition dtFirstFunction_minimal_depth :: "cgoptions \<Rightarrow> int \<Rightarrow> int" where
  "dtFirstFunction_minimal_depth o1 flag = dtReturnType_minimal_depth o1 (-1) +
     dtFunctionGenerateBody_minimal_depth o1 (-1)"

definition dtTypeChooseSimple_minimal_depth :: "cgoptions \<Rightarrow> int \<Rightarrow> int" where
  "dtTypeChooseSimple_minimal_depth o1 flag = dtTypeNonVoidSimple_minimal_depth o1 flag"

definition dtSelectDerefPointer_minimal_depth :: "cgoptions \<Rightarrow> int \<Rightarrow> int" where
  "dtSelectDerefPointer_minimal_depth o1 flag = 0"

definition dtSelectExistingVariable_minimal_depth :: "cgoptions \<Rightarrow> int \<Rightarrow> int" where
  "dtSelectExistingVariable_minimal_depth o1 flag = dtVariableSelection_minimal_depth o1 flag"

definition dtGenerateNewGlobal_minimal_depth_inner :: "cgoptions \<Rightarrow> int \<Rightarrow> int" where
  "dtGenerateNewGlobal_minimal_depth_inner o1 flag = dtInitVariable_minimal_depth o1 flag"

definition dtSelectGlobal_minimal_depth :: "cgoptions \<Rightarrow> int \<Rightarrow> int" where
  "dtSelectGlobal_minimal_depth o1 flag = dtInitVariable_minimal_depth o1 flag +
     dtGenerateNewGlobal_minimal_depth_inner o1 flag"

definition dtGenerateNewGlobal_minimal_depth :: "cgoptions \<Rightarrow> int \<Rightarrow> int" where
  "dtGenerateNewGlobal_minimal_depth o1 flag = 1 + dtGenerateNewGlobal_minimal_depth_inner o1 flag"

definition dtSelectParentLocal_minimal_depth :: "cgoptions \<Rightarrow> int \<Rightarrow> int" where
  "dtSelectParentLocal_minimal_depth o1 flag = 1 + dtRandomTypeFromType_minimal_depth o1 flag"

definition dtGenerateNewParentLocal_minimal_depth_inner :: "cgoptions \<Rightarrow> int \<Rightarrow> int" where
  "dtGenerateNewParentLocal_minimal_depth_inner o1 flag = dtInitVariable_minimal_depth o1 flag"

definition dtGenerateNewParentLocal_minimal_depth :: "cgoptions \<Rightarrow> int \<Rightarrow> int" where
  "dtGenerateNewParentLocal_minimal_depth o1 flag = 2 + dtGenerateNewParentLocal_minimal_depth_inner o1
     flag"

definition dtGenerateNewVariable_minimal_depth :: "cgoptions \<Rightarrow> int \<Rightarrow> int" where
  "dtGenerateNewVariable_minimal_depth o1 flag = (let depth = (if dtGenerateNewParentLocal_minimal_depth o1
     (-1) \<le> dtGenerateNewGlobal_minimal_depth o1 (-1) then dtGenerateNewParentLocal_minimal_depth o1
     (-1) else dtGenerateNewGlobal_minimal_depth o1 (-1)) in depth + 1)"

definition dtInitPointerValue_minimal_depth :: "cgoptions \<Rightarrow> int \<Rightarrow> int" where
  "dtInitPointerValue_minimal_depth o1 flag = (let depth = (if dtGenerateNewParentLocal_minimal_depth o1
     (-1) \<le> dtGenerateNewGlobal_minimal_depth o1 (-1) then dtGenerateNewParentLocal_minimal_depth o1
     (-1) else dtGenerateNewGlobal_minimal_depth o1 (-1)) in dtRandomTypeFromType_minimal_depth o1 (-1) +
     depth)"

section \<open>The guards\<close>

text \<open>The switch has no case for two of the types: the assertion of its default fails.\<close>

fun minimal_depth :: "dtype \<Rightarrow> cgoptions \<Rightarrow> int \<Rightarrow> int option" where
  "minimal_depth dtFirstFunction o1 flag = Some (dtFirstFunction_minimal_depth o1 flag)"
| "minimal_depth dtFunction o1 flag = Some (dtFunction_minimal_depth o1 flag)"
| "minimal_depth dtBlock o1 flag = Some (dtBlock_minimal_depth o1 flag)"
| "minimal_depth dtStatement o1 flag = Some (dtStatement_minimal_depth o1 flag)"
| "minimal_depth dtStatementAssign o1 flag = Some (dtStatementAssign_minimal_depth o1 flag)"
| "minimal_depth dtStatementFor o1 flag = Some (dtStatementFor_minimal_depth o1 flag)"
| "minimal_depth dtStatementIf o1 flag = Some (dtStatementIf_minimal_depth o1 flag)"
| "minimal_depth dtStatementExpr o1 flag = Some (dtStatementExpr_minimal_depth o1 flag)"
| "minimal_depth dtStatementReturn o1 flag = Some (dtStatementReturn_minimal_depth o1 flag)"
| "minimal_depth dtFunctionInvocationUnary o1 flag = Some (dtFunctionInvocationUnary_minimal_depth o1 flag)"
| "minimal_depth dtFunctionInvocationBinary o1 flag = Some (dtFunctionInvocationBinary_minimal_depth o1 flag)"
| "minimal_depth dtFunctionInvocationRandomUnary o1 flag = Some (dtFunctionInvocationRandomUnary_minimal_depth o1 flag)"
| "minimal_depth dtFunctionInvocationRandomRegularBinary o1 flag = None"
| "minimal_depth dtFunctionInvocationRandomBinaryPointer o1 flag = None"
| "minimal_depth dtFunctionInvocationRandomBinary o1 flag = Some (dtFunctionInvocationRandomBinary_minimal_depth o1 flag)"
| "minimal_depth dtFunctionInvocationRandom o1 flag = Some (dtFunctionInvocationRandom_minimal_depth o1 flag)"
| "minimal_depth dtFunctionInvocationStdFunc o1 flag = Some (dtFunctionInvocationStdFunc_minimal_depth o1 flag)"
| "minimal_depth dtFunctionUserBuildInvocation o1 flag = Some (dtFunctionUserBuildInvocation_minimal_depth o1 flag)"
| "minimal_depth dtExpression o1 flag = Some (dtExpression_minimal_depth o1 flag)"
| "minimal_depth dtExpressionRandomParam o1 flag = Some (dtExpressionRandomParam_minimal_depth o1 flag)"
| "minimal_depth dtExpressionFuncall o1 flag = Some (dtExpressionFuncall_minimal_depth o1 flag)"
| "minimal_depth dtExpressionVariable o1 flag = Some (dtExpressionVariable_minimal_depth o1 flag)"
| "minimal_depth dtLhs o1 flag = Some (dtLhs_minimal_depth o1 flag)"
| "minimal_depth dtReturnType o1 flag = Some (dtReturnType_minimal_depth o1 flag)"
| "minimal_depth dtRandomTypeFromType o1 flag = Some (dtRandomTypeFromType_minimal_depth o1 flag)"
| "minimal_depth dtFunctionGenerateBody o1 flag = Some (dtFunctionGenerateBody_minimal_depth o1 flag)"
| "minimal_depth dtGenerateParamList o1 flag = Some (dtGenerateParamList_minimal_depth o1 flag)"
| "minimal_depth dtTypeChooseSimple o1 flag = Some (dtTypeChooseSimple_minimal_depth o1 flag)"
| "minimal_depth dtSelectLValue o1 flag = Some (dtSelectLValue_minimal_depth o1 flag)"
| "minimal_depth dtSelectVariable o1 flag = Some (dtSelectVariable_minimal_depth o1 flag)"
| "minimal_depth dtSelectDerefPointer o1 flag = Some (dtSelectDerefPointer_minimal_depth o1 flag)"
| "minimal_depth dtSelectExistingVariable o1 flag = Some (dtSelectExistingVariable_minimal_depth o1 flag)"
| "minimal_depth dtInitVariable o1 flag = Some (dtInitVariable_minimal_depth o1 flag)"
| "minimal_depth dtSelectGlobal o1 flag = Some (dtSelectGlobal_minimal_depth o1 flag)"
| "minimal_depth dtGenerateNewGlobal o1 flag = Some (dtGenerateNewGlobal_minimal_depth o1 flag)"
| "minimal_depth dtSelectParentLocal o1 flag = Some (dtSelectParentLocal_minimal_depth o1 flag)"
| "minimal_depth dtGenerateNewParentLocal o1 flag = Some (dtGenerateNewParentLocal_minimal_depth o1 flag)"
| "minimal_depth dtGenerateNewVariable o1 flag = Some (dtGenerateNewVariable_minimal_depth o1 flag)"
| "minimal_depth dtInitPointerValue o1 flag = Some (dtInitPointerValue_minimal_depth o1 flag)"
| "minimal_depth dtSafeOpFlags o1 flag = Some (dtSafeOpFlags_minimal_depth o1 flag)"

definition backtracking :: "int \<Rightarrow> dfs \<Rightarrow> (int \<times> dfs) option" where
  "backtracking depth_needed d = do {
     (b, d1) \<leftarrow> eager_backtracking depth_needed d;
     Some (if b then BAD_DEPTH else GOOD_DEPTH, d1) }"

definition depth_guard_by_depth :: "cgoptions \<Rightarrow> int \<Rightarrow> dfs \<Rightarrow> (int \<times> dfs) option" where
  "depth_guard_by_depth o1 depth_needed d =
    (if \<not> opt_dfs_exhaustive o1 then Some (GOOD_DEPTH, d) else backtracking depth_needed d)"

definition depth_guard_by_type :: "cgoptions \<Rightarrow> dtype \<Rightarrow> int \<Rightarrow> dfs \<Rightarrow> (int \<times> dfs) option" where
  "depth_guard_by_type o1 ty extra_flag d =
    (if \<not> opt_dfs_exhaustive o1 then Some (GOOD_DEPTH, d)
     else do { n \<leftarrow> minimal_depth ty o1 extra_flag; backtracking n d })"

lemmas depth_defs =
  dtVariableSelection_minimal_depth_def dtLoopControl_minimal_depth_def
  dtTypeNonVoidSimple_minimal_depth_def dtTypeChooseRandom_minimal_depth_def
  dtChooseRandomPointerType_minimal_depth_def dtConstant_minimal_depth_def dtInitVariable_minimal_depth_def
  dtExpression_minimal_depth_def dtExpressionRandomParam_minimal_depth_def
  dtSelectVariable_minimal_depth_def dtSafeOpFlags_minimal_depth_def dtLhs_minimal_depth_def
  dtExpressionVariable_minimal_depth_def dtStatementReturn_minimal_depth_def
  dtStatement_minimal_depth_inner_def dtBlock_minimal_depth_def dtStatement_minimal_depth_def
  dtSelectLValue_minimal_depth_def dtStatementAssign_minimal_depth_def
  dtFunctionInvocationUnary_minimal_depth_def dtFunctionInvocationBinary_minimal_depth_def
  dtStatementFor_minimal_depth_def dtStatementIf_minimal_depth_def
  dtFunctionInvocationRandomUnary_minimal_depth_def
  dtFunctionInvocationRandomRegularBinary_minimal_depth_def
  dtFunctionInvocationRandomBinaryPointer_minimal_depth_def
  dtFunctionInvocationRandomBinary_minimal_depth_def dtFunctionUserBuildInvocation_minimal_depth_def
  dtFunctionInvocationStdFunc_minimal_depth_def dtFunctionInvocationRandom_minimal_depth_def
  dtStatementExpr_minimal_depth_def dtExpressionFuncall_minimal_depth_def dtReturnType_minimal_depth_def
  dtRandomTypeFromType_minimal_depth_def dtFunctionGenerateBody_minimal_depth_def
  dtGenerateParamList_minimal_depth_def dtFunction_minimal_depth_inner_def dtFunction_minimal_depth_def
  dtFirstFunction_minimal_depth_def dtTypeChooseSimple_minimal_depth_def
  dtSelectDerefPointer_minimal_depth_def dtSelectExistingVariable_minimal_depth_def
  dtGenerateNewGlobal_minimal_depth_inner_def dtSelectGlobal_minimal_depth_def
  dtGenerateNewGlobal_minimal_depth_def dtSelectParentLocal_minimal_depth_def
  dtGenerateNewParentLocal_minimal_depth_inner_def dtGenerateNewParentLocal_minimal_depth_def
  dtGenerateNewVariable_minimal_depth_def dtInitPointerValue_minimal_depth_def
  ATOMIC_DEPTH_INCR_def MAX_STATEMENT_TYPE_def MAX_TERM_TYPES_def MAX_VAR_SCOPE_def sOpBinary_def

section \<open>What a guard does\<close>

lemma minimal_depth_bounds: "minimal_depth ty o1 flag = Some n \<Longrightarrow> 0 \<le> n \<and> n \<le> 17"
  by (cases ty) (auto simp: depth_defs Let_def split: if_splits)

text \<open>A depth guard demands between 0 and 17 further choices.  Outside the exhaustive mode it never
  cuts and never touches the generator; in that mode it cuts exactly when a choice other than the
  first was made and fewer choices than demanded are left, and a cut leaves the backtracking error.\<close>

lemma depth_guard_by_type_correct:
  assumes "minimal_depth ty o1 flag = Some n"
  shows "0 \<le> n \<and> n \<le> 17 \<and> (\<exists>r d'. depth_guard_by_type o1 ty flag d = Some (r, d') \<and>
    (r = GOOD_DEPTH \<longleftrightarrow> \<not> opt_dfs_exhaustive o1 \<or> current_pos d \<le> 0 \<or> max_depth d - current_pos d \<ge> n) \<and>
    (r = GOOD_DEPTH \<longrightarrow> d' = d) \<and> (r \<noteq> GOOD_DEPTH \<longrightarrow> r = BAD_DEPTH \<and> error d' = BACKTRACKING_ERROR))"
proof -
  have codes: "GOOD_DEPTH \<noteq> BAD_DEPTH" by (simp add: GOOD_DEPTH_def BAD_DEPTH_def)
  have "\<exists>r d'. backtracking n d = Some (r, d') \<and>
      (r = GOOD_DEPTH \<longleftrightarrow> current_pos d \<le> 0 \<or> max_depth d - current_pos d \<ge> n) \<and>
      (r = GOOD_DEPTH \<longrightarrow> d' = d) \<and> (r \<noteq> GOOD_DEPTH \<longrightarrow> r = BAD_DEPTH \<and> error d' = BACKTRACKING_ERROR)"
  proof (cases "current_pos d \<le> 0 \<or> max_depth d - current_pos d \<ge> n")
    case True
    then show ?thesis by (auto simp: backtracking_def eager_backtracking_def)
  next
    case False
    then obtain d' where "eager_backtracking n d = Some (True, d')" "error d' = BACKTRACKING_ERROR"
      by (cases "current_pos d > decision_depth d") (simp_all add: eager_backtracking_def set_error_def states_from_def)
    then show ?thesis using False codes by (simp add: backtracking_def)
  qed
  then show ?thesis
    using minimal_depth_bounds[OF assms] assms by (simp add: depth_guard_by_type_def)
qed

text \<open>The guard before a new local variable of a parent block passes the number of the enumerator
  \<open>dtGenerateNewParentLocal\<close> where a depth is expected: it demands 36 choices, not 3.\<close>

definition dtype_index :: "dtype \<Rightarrow> nat" where
  "dtype_index ty = length (takeWhile (\<lambda>t. t \<noteq> ty) [
     dtFirstFunction, dtFunction, dtBlock, dtStatement, dtStatementAssign, dtStatementFor,
     dtStatementIf, dtStatementExpr, dtStatementReturn, dtFunctionInvocationUnary,
     dtFunctionInvocationBinary, dtFunctionInvocationRandomUnary,
     dtFunctionInvocationRandomRegularBinary, dtFunctionInvocationRandomBinaryPointer,
     dtFunctionInvocationRandomBinary, dtFunctionInvocationRandom, dtFunctionInvocationStdFunc,
     dtFunctionUserBuildInvocation, dtExpression, dtExpressionRandomParam, dtExpressionFuncall,
     dtExpressionVariable, dtLhs, dtReturnType, dtRandomTypeFromType, dtFunctionGenerateBody,
     dtGenerateParamList, dtTypeChooseSimple, dtSelectLValue, dtSelectVariable, dtSelectDerefPointer,
     dtSelectExistingVariable, dtInitVariable, dtSelectGlobal, dtGenerateNewGlobal,
     dtSelectParentLocal, dtGenerateNewParentLocal, dtGenerateNewVariable, dtInitPointerValue,
     dtSafeOpFlags])"

lemma parent_local_guard_index:
  "dtype_index dtGenerateNewParentLocal = 36 \<and> minimal_depth dtGenerateNewParentLocal o1 flag = Some 3"
  by (simp add: dtype_index_def depth_defs)

end
