(* ===== verification/MessagePassing.thy ===== *)
theory MessagePassing
  imports Tables
begin

text \<open>
  CLSmith/StatementMessage.cpp: message passing between the threads of a work group.  Every
  \<open>StatementMessage\<close> of the program is a node with the thread that runs it.  At the end of the program
  generation \<open>Message::CreateOrdering\<close> chooses an order of the nodes, in which two nodes may
  share a step, and gives every node the code to wait for its turn, update the message, and signal
  the next step through the four flags of the message.

  Nodes are numbered in the order of their registration, as \<open>AssignID\<close> does, and the flags are the
  message fields 0 to 3, the items the fields 4 to 13.  The semantics is in \<open>MessageSteps\<close>, and the proof that the
  threads cannot block one another in \<open>MessageProgress\<close>; this theory ends with what the counters of the flags
  promise.
\<close>

section \<open>Generated code\<close>

type_synonym constraint = "nat \<times> int"
type_synonym constraints = "constraint set"

datatype mstmt =
    MemFence
  | BreakIfGe constraints
  | IfEq constraints "mstmt list"
  | ContinueUnlessEq constraints
  | AddAssign nat int
  | MulAssign nat int
  | SetFlag nat int
  | BreakLoop

record node_code =
  nc_wait :: "mstmt list"
  nc_update :: "mstmt list"
  nc_signal :: "mstmt list"

text \<open>The signals of a node and of an unlock are sets with one element in the code; they are lists here,
  which fixes the order of the assignments.\<close>

type_synonym lock = "constraints \<times> constraint list"

definition MakeConstraintUpdate :: "constraint list \<Rightarrow> mstmt list" where
  "MakeConstraintUpdate updates = map (\<lambda>(f, v). SetFlag f v) updates"

definition unlock_stmt :: "lock \<Rightarrow> mstmt" where
  "unlock_stmt lk = IfEq (fst lk) (MakeConstraintUpdate (snd lk))"

definition MakeWait :: "lock list \<Rightarrow> constraints \<Rightarrow> constraint list \<Rightarrow> mstmt list" where
  "MakeWait unlocks cs signals =
     [MemFence, BreakIfGe (cs \<union> set signals)] @ map unlock_stmt unlocks @ [ContinueUnlessEq cs]"

definition MakeSignal :: "constraint list \<Rightarrow> mstmt list" where
  "MakeSignal cs = MakeConstraintUpdate cs @ [MemFence, BreakLoop]"

text \<open>\<open>x += y; x *= y\<close> on the items whose bit is set.\<close>

fun update_bits :: "nat \<Rightarrow> nat \<Rightarrow> rng \<Rightarrow> (mstmt list \<times> rng) option" where
  "update_bits bits idx s =
    (if bits = 0 then Some ([], s)
     else if odd bits then do {
       (y, s1) \<leftarrow> rnd_upto 15 None None s;
       (r, s2) \<leftarrow> update_bits (bits div 2) (Suc idx) s1;
       Some (AddAssign idx (int y + 1) # MulAssign idx (int y + 1) # r, s2) }
     else update_bits (bits div 2) (Suc idx) s)"

declare update_bits.simps [simp del]

definition MakeUpdate :: "rng \<Rightarrow> (mstmt list \<times> rng) option" where
  "MakeUpdate s = do { (bits, s1) \<leftarrow> rnd_upto 1024 None None s; update_bits bits 4 s1 }"

definition GetUpdatedVars :: "mstmt list \<Rightarrow> nat set" where
  "GetUpdatedVars upd = set (List.map_filter (\<lambda>st. case st of AddAssign i k \<Rightarrow> Some i | MulAssign i k \<Rightarrow> Some i | _ \<Rightarrow> None) upd)"

fun async_items :: "nat set \<Rightarrow> nat list \<Rightarrow> rng \<Rightarrow> (mstmt list \<times> rng) option" where
  "async_items used [] s = Some ([], s)"
| "async_items used (idx # is) s =
    (if idx \<in> used then async_items used is s
     else do {
       (y, s1) \<leftarrow> rnd_upto 16 None None s;
       (r, s2) \<leftarrow> async_items used is s1;
       Some (AddAssign idx (int y) # MulAssign idx (int y) # r, s2) })"

definition MakeAsynchronousUpdate :: "mstmt list \<Rightarrow> rng \<Rightarrow> (mstmt list \<times> rng) option" where
  "MakeAsynchronousUpdate node_update s = async_items (GetUpdatedVars node_update) [4..<14] s"

text \<open>The thread of a new node, with at most five threads (\<open>StatementMessage::make_random\<close>).\<close>

definition make_random_tid :: "nat \<Rightarrow> rng \<Rightarrow> (nat \<times> rng) option" where
  "make_random_tid threads s = rnd_upto (if threads > 5 then 5 else threads) None None s"

lemma make_random_tid_less: "make_random_tid threads s = Some (t, s1) \<Longrightarrow> t < 5"
  unfolding make_random_tid_def using rnd_upto_SomeD(1) by (fastforce split: if_splits)

section \<open>The order\<close>

text \<open>\<open>tids\<close> lists the thread of every node.  \<open>sb_graph\<close> has the nodes of every thread, sequenced before
  one another.\<close>

definition max_tid :: "nat list \<Rightarrow> nat" where
  "max_tid tids = fold (\<lambda>t mx. if t > mx then t else mx) tids 0"

definition sb_graph :: "nat list \<Rightarrow> nat list list" where
  "sb_graph tids = fold (\<lambda>n sb. sb[tids ! n := sb ! (tids ! n) @ [n]]) [0..<length tids] (replicate (max_tid tids + 1) [])"

type_synonym step = "nat \<times> nat option"

definition tid_table :: "nat list list \<Rightarrow> nat list \<Rightarrow> nat list \<Rightarrow> dist_table" where
  "tid_table sb its last_tids = build_dist (map (\<lambda>t. (int t, int (length (sb ! t)) - int (its ! t)))
     (filter (\<lambda>t. t \<notin> set last_tids) [0..<length sb]))"

definition take_node :: "nat list list \<Rightarrow> nat list \<Rightarrow> nat \<Rightarrow> (nat \<times> nat list) option" where
  "take_node sb its t = do {
     nodes \<leftarrow> vec_at sb t;
     i \<leftarrow> vec_at its t;
     n \<leftarrow> vec_at nodes i;
     Some (n, its[t := Suc i]) }"

definition order_step :: "cgoptions \<Rightarrow> nat list list \<Rightarrow> nat list \<Rightarrow> dist_table \<Rightarrow> rng \<Rightarrow>
    (step \<times> nat list \<times> nat list \<times> rng) option" where
  "order_step o1 sb its tbl s = do {
     let f = new_vector_filter (Some tbl) [] True;
     (v, s1) \<leftarrow> rnd_upto (nat (get_max tbl)) None None s;
     k \<leftarrow> vf_lookup o1 f (int v);
     (n, its1) \<leftarrow> take_node sb its (nat k);
     (b, s2) \<leftarrow> (if key_to_prob k tbl \<noteq> get_max tbl then rnd_flipcoin 10 None s1 else Some (False, s1));
     if b then do {
       (k2, s3) \<leftarrow> choose_key o1 (vf_add k f) s2;
       (m, its2) \<leftarrow> take_node sb its1 (nat k2);
       Some ((n, Some m), its2, [nat k, nat k2], s3) }
     else Some ((n, None), its1, [nat k], s2) }"

partial_function (option) order_loop :: "cgoptions \<Rightarrow> nat list list \<Rightarrow> nat list \<Rightarrow> nat list \<Rightarrow> rng \<Rightarrow>
    (step list \<times> rng) option" where
  "order_loop o1 sb its last_tids s =
    (let tbl = tid_table sb its last_tids in
     if get_max tbl = 0 then Some ([], s)
     else do {
       (st, its1, used, s1) \<leftarrow> order_step o1 sb its tbl s;
       (r, s2) \<leftarrow> order_loop o1 sb its1 used s1;
       Some (st # r, s2) })"

definition choose_order :: "cgoptions \<Rightarrow> nat list \<Rightarrow> rng \<Rightarrow> (step list \<times> rng) option" where
  "choose_order o1 tids s = (let sb = sb_graph tids in order_loop o1 sb (replicate (length sb) 0) [] s)"

section \<open>The constraints\<close>

text \<open>The counters of the four flags, which pair of flags is in use, and the number of nodes in
  the previous step.\<close>

record flag_state =
  cnt :: "nat \<Rightarrow> int"
  flag_set :: bool
  prev_size :: nat

definition init_flags :: flag_state where
  "init_flags = \<lparr>cnt = (\<lambda>_. 0), flag_set = False, prev_size = 0\<rparr>"

text \<open>The macro \<open>SelectConstraint\<close>.\<close>

definition select_flag :: "bool \<Rightarrow> nat \<Rightarrow> nat \<Rightarrow> nat" where
  "select_flag fs f g = (if \<not> fs then f else g)"

definition select_constraint :: "bool \<Rightarrow> nat \<Rightarrow> nat \<Rightarrow> (nat \<Rightarrow> int) \<Rightarrow> constraint" where
  "select_constraint fs f g c = (select_flag fs f g, c (select_flag fs f g))"

text \<open>One step of the order: what each of its nodes checks and signals.\<close>

type_synonym plan = "nat \<times> constraints \<times> constraint"

definition plan_step :: "flag_state \<Rightarrow> step \<Rightarrow> plan list \<times> flag_state" where
  "plan_step st sp =
    (let c = cnt st; fs = flag_set st; asyncs = (if snd sp = None then 1 else 2);
         cs = {select_constraint fs 0 2 c} \<union>
           (if prev_size st = 0 \<or> prev_size st = 2 then {select_constraint fs 1 3 c} else {});
         flip = (fs \<or> asyncs = 2);
         fs' = (if flip then \<not> fs else fs);
         checks1 = (if flip then insert (select_constraint fs' 0 2 c) cs else cs);
         f1 = select_flag fs' 0 2;
         c1 = c(f1 := c f1 + 1);
         checks2 = (if flip then insert (select_constraint fs' 1 3 c1) cs else cs);
         f2 = select_flag fs' 1 3;
         c2 = c1(f2 := c1 f2 + 1)
     in case snd sp of
          None \<Rightarrow> ([(fst sp, checks1, (f1, c1 f1))], \<lparr>cnt = c1, flag_set = fs', prev_size = asyncs\<rparr>)
        | Some m \<Rightarrow> ([(fst sp, checks1, (f1, c1 f1)), (m, checks2, (f2, c2 f2))],
             \<lparr>cnt = c2, flag_set = fs', prev_size = asyncs\<rparr>))"

text \<open>The locks collected for later nodes and for the end of every thread, and the code so far.\<close>

record ordering =
  unlock_map :: "nat \<Rightarrow> lock list"
  end_checks :: "nat \<Rightarrow> lock list"
  node_codes :: "nat \<rightharpoonup> node_code"

definition later_nodes :: "nat list \<Rightarrow> nat \<Rightarrow> nat list" where
  "later_nodes tids n = tl (dropWhile (\<lambda>m. m \<noteq> n) (sb_graph tids ! (tids ! n)))"

definition emit_node :: "nat list \<Rightarrow> plan \<Rightarrow> mstmt list \<Rightarrow> ordering \<Rightarrow> ordering" where
  "emit_node tids p upd ord = (case p of (n, checks, sg) \<Rightarrow>
     ord\<lparr>node_codes := (node_codes ord)(n \<mapsto>
           \<lparr>nc_wait = MakeWait (unlock_map ord n) checks [sg], nc_update = upd, nc_signal = MakeSignal [sg]\<rparr>),
         unlock_map := (\<lambda>m. if m \<in> set (later_nodes tids n) then unlock_map ord m @ [(checks, [sg])] else unlock_map ord m),
         end_checks := (end_checks ord)(tids ! n := end_checks ord (tids ! n) @ [(checks, [sg])])\<rparr>)"

fun make_constraints :: "nat list \<Rightarrow> flag_state \<Rightarrow> step list \<Rightarrow> ordering \<Rightarrow> rng \<Rightarrow> (ordering \<times> rng) option" where
  "make_constraints tids st [] ord s = Some (ord, s)"
| "make_constraints tids st (sp # sps) ord s = do {
     let (ps, st') = plan_step st sp;
     (upd, s1) \<leftarrow> MakeUpdate s;
     let ord1 = emit_node tids (hd ps) upd ord;
     (ord2, s2) \<leftarrow> (case tl ps of
         [] \<Rightarrow> Some (ord1, s1)
       | p # _ \<Rightarrow> do { (upd2, s2) \<leftarrow> MakeAsynchronousUpdate upd s1; Some (emit_node tids p upd2 ord1, s2) });
     make_constraints tids st' sps ord2 s2 }"

definition empty_ordering :: ordering where
  "empty_ordering = \<lparr>unlock_map = (\<lambda>_. []), end_checks = (\<lambda>_. []), node_codes = Map.empty\<rparr>"

definition CreateOrdering :: "cgoptions \<Rightarrow> nat list \<Rightarrow> rng \<Rightarrow> (step list \<times> ordering \<times> rng) option" where
  "CreateOrdering o1 tids s = do {
     (order, s1) \<leftarrow> choose_order o1 tids s;
     (ord, s2) \<leftarrow> make_constraints tids init_flags order empty_ordering s1;
     Some (order, ord, s2) }"

section \<open>What a thread runs\<close>

text \<open>\<open>StatementMessage::Output\<close> prints a node as an infinite loop over its three blocks, and nothing for a
  node that has no code; \<open>OutputEndChecks\<close> prints a loop at the end of every thread that has ordered
  nodes.\<close>

definition node_loop :: "node_code \<Rightarrow> mstmt list" where
  "node_loop nc = nc_wait nc @ nc_update nc @ nc_signal nc"

definition end_loop :: "lock list \<Rightarrow> mstmt list" where
  "end_loop locks = [MemFence] @ map unlock_stmt locks @
     [MemFence, BreakIfGe (fst (last locks) \<union> set (snd (last locks)))]"

definition loops_of :: "ordering \<Rightarrow> nat \<Rightarrow> nat list \<Rightarrow> mstmt list list" where
  "loops_of ord t visited = map node_loop (List.map_filter (node_codes ord) visited) @
     (if end_checks ord t = [] then [] else [end_loop (end_checks ord t)])"

section \<open>Taking turns\<close>

text \<open>What the counters of the flags promise: \<open>plans\<close> has the nodes of every step with what they check and
  signal, and \<open>cnt i\<close> the values of the flags when the steps before \<open>i\<close> are done.  A state of the
  memory is a cut when some steps and a part of the next one are done.\<close>

definition sig_flag :: "plan \<Rightarrow> nat" where "sig_flag p = fst (snd (snd p))"
definition sig_val :: "plan \<Rightarrow> int" where "sig_val p = snd (snd (snd p))"
definition plan_checks :: "plan \<Rightarrow> constraints" where "plan_checks p = fst (snd p)"

definition all_eq :: "constraints \<Rightarrow> (nat \<Rightarrow> int) \<Rightarrow> bool" where
  "all_eq cs mem \<longleftrightarrow> (\<forall>(f, v) \<in> cs. mem f = v)"

definition all_ge :: "constraints \<Rightarrow> (nat \<Rightarrow> int) \<Rightarrow> bool" where
  "all_ge cs mem \<longleftrightarrow> (\<forall>(f, v) \<in> cs. mem f \<ge> v)"

definition cut :: "plan list list \<Rightarrow> (nat \<Rightarrow> nat \<Rightarrow> int) \<Rightarrow> nat \<Rightarrow> plan set \<Rightarrow> (nat \<Rightarrow> int) \<Rightarrow> bool" where
  "cut plans cn i D mem \<longleftrightarrow> i \<le> length plans \<and> (if i < length plans then D \<subset> set (plans ! i) else D = {}) \<and>
     (\<forall>f < 4. mem f = cn i f + (if \<exists>p \<in> D. sig_flag p = f then 1 else 0))"

locale relay =
  fixes plans :: "plan list list" and cn :: "nat \<Rightarrow> nat \<Rightarrow> int"
  assumes start: "cn 0 f = 0"
    and nonempty: "i < length plans \<Longrightarrow> plans ! i \<noteq> []"
    and signal: "i < length plans \<Longrightarrow> p \<in> set (plans ! i) \<Longrightarrow>
      sig_flag p < 4 \<and> sig_val p = cn i (sig_flag p) + 1 \<and> (sig_flag p, cn i (sig_flag p)) \<in> plan_checks p"
    and checks: "i < length plans \<Longrightarrow> p \<in> set (plans ! i) \<Longrightarrow> (f, v) \<in> plan_checks p \<Longrightarrow> f < 4 \<and> v = cn i f"
    and separate: "i < length plans \<Longrightarrow> p \<in> set (plans ! i) \<Longrightarrow> q \<in> set (plans ! i) \<Longrightarrow> p \<noteq> q \<Longrightarrow>
      sig_flag p \<noteq> sig_flag q \<and> sig_flag q \<notin> fst ` plan_checks p"
    and count: "i < length plans \<Longrightarrow> cn (Suc i) f = cn i f + (if \<exists>p \<in> set (plans ! i). sig_flag p = f then 1 else 0)"
    and linked: "Suc i < length plans \<Longrightarrow> p \<in> set (plans ! i) \<Longrightarrow> q \<in> set (plans ! Suc i) \<Longrightarrow>
      (sig_flag p, cn (Suc i) (sig_flag p)) \<in> plan_checks q"
begin

lemma same_flag:
  "i < length plans \<Longrightarrow> p \<in> set (plans ! i) \<Longrightarrow> q \<in> set (plans ! i) \<Longrightarrow> sig_flag p = sig_flag q \<Longrightarrow> p = q"
  using separate by blast

lemma cut_part: "cut plans cn i D mem \<Longrightarrow> i < length plans \<Longrightarrow> D \<subset> set (plans ! i)"
  by (simp add: cut_def)

lemma count_mono: "i \<le> j \<Longrightarrow> j \<le> length plans \<Longrightarrow> cn i f \<le> cn j f"
proof (induction j rule: dec_induct)
  case (step n)
  then show ?case using count[of n f] by auto
qed simp

lemma count_signal: "i < length plans \<Longrightarrow> p \<in> set (plans ! i) \<Longrightarrow> cn (Suc i) (sig_flag p) = cn i (sig_flag p) + 1"
  using count[of i "sig_flag p"] by auto

lemma cut_range:
  assumes "cut plans cn i D mem" "f < 4"
  shows "cn i f \<le> mem f" "i < length plans \<Longrightarrow> mem f \<le> cn (Suc i) f"
proof -
  have m: "mem f = cn i f + (if \<exists>p \<in> D. sig_flag p = f then 1 else 0)" using assms by (simp add: cut_def)
  then show "cn i f \<le> mem f" by simp
  assume i: "i < length plans"
  then have "D \<subseteq> set (plans ! i)" using assms(1) by (auto simp: cut_def)
  then show "mem f \<le> cn (Suc i) f" using m count[OF i, of f] by auto
qed

text \<open>A signal belongs to one node.\<close>

lemma signal_inj:
  assumes "i < length plans" "p \<in> set (plans ! i)" "j < length plans" "q \<in> set (plans ! j)"
    "sig_flag p = sig_flag q" "sig_val p = sig_val q"
  shows "i = j \<and> p = q"
proof -
  have v: "cn i (sig_flag p) = cn j (sig_flag p)" using signal[OF assms(1,2)] signal[OF assms(3,4)] assms(5,6) by simp
  have "i = j"
  proof (rule linorder_cases[of i j])
    assume "i < j"
    then show ?thesis using count_mono[of "Suc i" j "sig_flag p"] count_signal[OF assms(1,2)] assms(3) v by simp
  next
    assume "j < i"
    then show ?thesis using count_mono[of "Suc j" i "sig_flag p"] count_signal[OF assms(3,4)] assms(1,5) v by simp
  qed
  then show ?thesis using same_flag[OF assms(1,2)] assms(4,5) by simp
qed

text \<open>The checks of a node hold exactly when it is its turn.\<close>

lemma turn:
  assumes "cut plans cn i D mem" "j < length plans" "p \<in> set (plans ! j)"
  shows "all_eq (plan_checks p) mem \<longleftrightarrow> j = i \<and> p \<notin> D"
proof
  note sg = signal[OF assms(2,3)]
  assume eq: "all_eq (plan_checks p) mem"
  then have g: "mem (sig_flag p) = cn j (sig_flag p)" using sg by (auto simp: all_eq_def)
  have "\<not> j < i"
  proof
    assume "j < i"
    then have "cn (Suc j) (sig_flag p) \<le> cn i (sig_flag p)" using assms(1) by (intro count_mono) (auto simp: cut_def)
    then show False using g cut_range(1)[OF assms(1), of "sig_flag p"] count_signal[OF assms(2,3)] sg by simp
  qed
  moreover have "\<not> i < j"
  proof
    assume ij: "i < j"
    then obtain k where k: "j = Suc k" "i \<le> k" by (cases j) auto
    have kl: "k < length plans" using k assms(2) by simp
    have "\<exists>q \<in> set (plans ! k). mem (sig_flag q) < cn j (sig_flag q)"
    proof (cases "i = k")
      case True
      then obtain q where q: "q \<in> set (plans ! k)" "q \<notin> D" using assms(1) kl by (auto simp: cut_def)
      have "\<not> (\<exists>p' \<in> D. sig_flag p' = sig_flag q)"
        using same_flag[OF kl _ q(1)] cut_part[OF assms(1)] q True kl by blast
      then have "mem (sig_flag q) = cn k (sig_flag q)" using assms(1) signal[OF kl q(1)] True by (simp add: cut_def)
      then show ?thesis using q(1) count_signal[OF kl q(1)] k(1) by (intro bexI[of _ q]) auto
    next
      case False
      obtain q where q: "q \<in> set (plans ! k)" using nonempty[OF kl] by (cases "plans ! k") auto
      have "mem (sig_flag q) \<le> cn (Suc i) (sig_flag q)"
        using cut_range(2)[OF assms(1)] signal[OF kl q] k assms(2) by simp
      also have "\<dots> \<le> cn k (sig_flag q)" using False k kl by (intro count_mono) auto
      finally show ?thesis using q count_signal[OF kl q] k(1) by (intro bexI[of _ q]) auto
    qed
    then obtain q where q: "q \<in> set (plans ! k)" "mem (sig_flag q) < cn j (sig_flag q)" by blast
    have "(sig_flag q, cn j (sig_flag q)) \<in> plan_checks p"
      using linked[of k q p] q(1) assms(2,3) k(1) by simp
    then show False using eq q(2) by (auto simp: all_eq_def)
  qed
  ultimately have "j = i" by simp
  moreover have "p \<notin> D" if "j = i"
  proof
    assume "p \<in> D"
    then have "mem (sig_flag p) = cn i (sig_flag p) + 1" using assms(1) sg by (auto simp: cut_def)
    then show False using g that by simp
  qed
  ultimately show "j = i \<and> p \<notin> D" by blast
next
  assume p: "j = i \<and> p \<notin> D"
  have "mem f = v" if fv: "(f, v) \<in> plan_checks p" for f v
  proof -
    have "\<not> (\<exists>q \<in> D. sig_flag q = f)"
    proof
      assume "\<exists>q \<in> D. sig_flag q = f"
      then obtain q where q: "q \<in> D" "sig_flag q = f" by blast
      then have "q \<in> set (plans ! j)" "p \<noteq> q" using assms(1,2) p by (auto simp: cut_def)
      then show False using separate[OF assms(2,3), of q] q(2) fv by (auto simp: image_iff)
    qed
    then show ?thesis using checks[OF assms(2,3) fv] assms(1) p by (simp add: cut_def)
  qed
  then show "all_eq (plan_checks p) mem" by (auto simp: all_eq_def)
qed

text \<open>A node can be skipped exactly when it is done.\<close>

lemma passed:
  assumes "cut plans cn i D mem" "j < length plans" "p \<in> set (plans ! j)"
  shows "all_ge (insert (sig_flag p, sig_val p) (plan_checks p)) mem \<longleftrightarrow> j < i \<or> j = i \<and> p \<in> D"
proof
  note sg = signal[OF assms(2,3)]
  assume "all_ge (insert (sig_flag p, sig_val p) (plan_checks p)) mem"
  then have g: "cn j (sig_flag p) + 1 \<le> mem (sig_flag p)" using sg by (auto simp: all_ge_def)
  have "\<not> i < j"
  proof
    assume "i < j"
    then have "mem (sig_flag p) \<le> cn (Suc i) (sig_flag p)" "cn (Suc i) (sig_flag p) \<le> cn j (sig_flag p)"
      using cut_range(2)[OF assms(1)] sg assms(2) by (auto intro!: count_mono)
    then show False using g by simp
  qed
  moreover have "p \<in> D" if "j = i"
  proof -
    have "mem (sig_flag p) = cn j (sig_flag p) + (if \<exists>q \<in> D. sig_flag q = sig_flag p then 1 else 0)"
      using assms(1) sg that by (simp add: cut_def)
    then have "\<exists>q \<in> D. sig_flag q = sig_flag p" using g by (simp split: if_splits)
    then obtain q where q: "q \<in> D" "sig_flag q = sig_flag p" by blast
    then have "q \<in> set (plans ! j)" using cut_part[OF assms(1)] assms(2) that by blast
    then show ?thesis using same_flag[OF assms(2) _ assms(3)] q by blast
  qed
  ultimately show "j < i \<or> j = i \<and> p \<in> D" by force
next
  note sg = signal[OF assms(2,3)]
  assume d: "j < i \<or> j = i \<and> p \<in> D"
  have "cn j f \<le> mem f" if "f < 4" for f
    using count_mono[of j i f] cut_range(1)[OF assms(1) that] d assms(1) by (auto simp: cut_def)
  moreover have "cn j (sig_flag p) + 1 \<le> mem (sig_flag p)"
  proof (cases "j < i")
    case True
    then have "cn (Suc j) (sig_flag p) \<le> cn i (sig_flag p)" using assms(1) by (intro count_mono) (auto simp: cut_def)
    then show ?thesis using count_signal[OF assms(2,3)] cut_range(1)[OF assms(1)] sg by force
  next
    case False
    then show ?thesis using d assms(1) sg by (auto simp: cut_def)
  qed
  ultimately show "all_ge (insert (sig_flag p, sig_val p) (plan_checks p)) mem"
    using sg checks[OF assms(2,3)] by (auto simp: all_ge_def)
qed

text \<open>The signal of a node whose turn it is leads to the next cut.\<close>

lemma signal_cut:
  assumes "cut plans cn i D mem" "i < length plans" "p \<in> set (plans ! i)" "p \<notin> D"
  shows "cut plans cn (if insert p D = set (plans ! i) then Suc i else i)
     (if insert p D = set (plans ! i) then {} else insert p D) (mem(sig_flag p := sig_val p))"
proof -
  note sg = signal[OF assms(2,3)]
  have D: "D \<subset> set (plans ! i)" using assms(1,2) by (simp add: cut_def)
  have "\<not> (\<exists>q \<in> D. sig_flag q = sig_flag p)"
    using same_flag[OF assms(2) _ assms(3)] D assms(4) by blast
  then have upd: "(mem(sig_flag p := sig_val p)) f = cn i f + (if \<exists>q \<in> insert p D. sig_flag q = f then 1 else 0)" if "f < 4" for f
    using assms(1) sg that by (auto simp: cut_def)
  show ?thesis
  proof (cases "insert p D = set (plans ! i)")
    case True
    have "\<forall>f < 4. (mem(sig_flag p := sig_val p)) f = cn (Suc i) f"
      using upd count[OF assms(2)] True by simp
    moreover have "Suc i < length plans \<Longrightarrow> {} \<subset> set (plans ! Suc i)" using nonempty[of "Suc i"] by auto
    ultimately show ?thesis using True assms(2) by (auto simp: cut_def)
  next
    case False
    then have "insert p D \<subset> set (plans ! i)" using D assms(3) by blast
    then show ?thesis using False upd assms(2) by (auto simp: cut_def)
  qed
qed

end

section \<open>The plans of an order\<close>

fun plan_steps :: "flag_state \<Rightarrow> step list \<Rightarrow> plan list list" where
  "plan_steps st [] = []"
| "plan_steps st (sp # sps) = (let (ps, st') = plan_step st sp in ps # plan_steps st' sps)"

fun state_at :: "flag_state \<Rightarrow> step list \<Rightarrow> nat \<Rightarrow> flag_state" where
  "state_at st (sp # sps) (Suc i) = state_at (snd (plan_step st sp)) sps i"
| "state_at st _ _ = st"

lemma plan_steps_length [simp]: "length (plan_steps st sps) = length sps"
  by (induction sps arbitrary: st) (auto simp: split_beta Let_def)

lemma plan_steps_nth: "i < length sps \<Longrightarrow> plan_steps st sps ! i = fst (plan_step (state_at st sps i) (sps ! i))"
proof (induction sps arbitrary: st i)
  case (Cons sp sps)
  then show ?case by (cases i) (auto simp: split_beta Let_def)
qed simp

lemma state_at_0 [simp]: "state_at st sps 0 = st" by (cases sps) auto

lemma state_at_Suc: "i < length sps \<Longrightarrow> state_at st sps (Suc i) = snd (plan_step (state_at st sps i) (sps ! i))"
proof (induction sps arbitrary: st i)
  case (Cons sp sps)
  then show ?case by (cases i) auto
qed simp

lemma select_flag_simps [simp]:
  "select_flag b 0 2 < 4" "select_flag b 1 3 < 4"
  "select_flag b 0 2 = select_flag c 0 2 \<longleftrightarrow> b = c" "select_flag b 1 3 = select_flag c 1 3 \<longleftrightarrow> b = c"
  "select_flag b 0 2 \<noteq> select_flag c 1 3" "select_flag b 1 3 \<noteq> select_flag c 0 2"
  by (auto simp: select_flag_def)

lemmas select_flag_simps' [simp] = select_flag_simps[unfolded One_nat_def]

text \<open>One step, whatever the state it starts from.\<close>

lemmas plan_views = sig_flag_def sig_val_def plan_checks_def

lemma plan_step_signal:
  assumes "p \<in> set (fst (plan_step st sp))"
  shows "sig_flag p < 4 \<and> sig_val p = cnt st (sig_flag p) + 1 \<and> (sig_flag p, cnt st (sig_flag p)) \<in> plan_checks p"
  using assms
  by (cases "snd sp"; cases "flag_set st") (auto simp: plan_step_def Let_def plan_views select_constraint_def)

lemma plan_step_checks:
  assumes "p \<in> set (fst (plan_step st sp))" "(f, v) \<in> plan_checks p"
  shows "f < 4 \<and> v = cnt st f"
  using assms
  by (cases "snd sp"; cases "flag_set st")
    (auto simp: plan_step_def Let_def plan_views select_constraint_def split: if_splits)

definition waits_for :: "flag_state \<Rightarrow> constraints" where
  "waits_for st = {select_constraint (flag_set st) 0 2 (cnt st)} \<union>
     (if prev_size st = 0 \<or> prev_size st = 2 then {select_constraint (flag_set st) 1 3 (cnt st)} else {})"

lemma plan_step_two:
  "fst (plan_step st (n, Some m)) =
    (let a = select_flag (\<not> flag_set st) 0 2; b = select_flag (\<not> flag_set st) 1 3 in
     [(n, insert (a, cnt st a) (waits_for st), (a, cnt st a + 1)), (m, insert (b, cnt st b) (waits_for st), (b, cnt st b + 1))])"
  by (simp add: plan_step_def Let_def waits_for_def select_constraint_def)

lemma plan_step_one: "\<exists>p. fst (plan_step st (n, None)) = [p]"
  by (simp add: plan_step_def Let_def)

lemma waits_for_flags: "x \<in> waits_for st \<Longrightarrow> fst x \<noteq> select_flag (\<not> flag_set st) 0 2 \<and> fst x \<noteq> select_flag (\<not> flag_set st) 1 3"
  by (auto simp: waits_for_def select_constraint_def split: if_splits)

lemma plan_step_separate:
  assumes "p \<in> set (fst (plan_step st sp))" "q \<in> set (fst (plan_step st sp))" "p \<noteq> q"
  shows "sig_flag p \<noteq> sig_flag q \<and> sig_flag q \<notin> fst ` plan_checks p"
proof (cases sp)
  case (Pair n m)
  show ?thesis
  proof (cases m)
    case None
    then show ?thesis using assms Pair plan_step_one[of st n] by auto
  next
    case (Some k)
    define a where "a = select_flag (\<not> flag_set st) 0 2"
    define b where "b = select_flag (\<not> flag_set st) 1 3"
    have ab: "a \<noteq> b" "b \<noteq> a" by (simp_all add: a_def b_def)
    have w: "a \<notin> fst ` waits_for st" "b \<notin> fst ` waits_for st" by (auto simp: a_def b_def dest!: waits_for_flags)
    define P where "P = (n, insert (a, cnt st a) (waits_for st), (a, cnt st a + 1))"
    define Q where "Q = (k, insert (b, cnt st b) (waits_for st), (b, cnt st b + 1))"
    have "set (fst (plan_step st sp)) = {P, Q}"
      unfolding Pair Some plan_step_two Let_def a_def b_def P_def Q_def by simp
    then have "p \<in> {P, Q}" "q \<in> {P, Q}" using assms(1,2) by simp_all
    then have pq: "p = P \<and> q = Q \<or> p = Q \<and> q = P" using assms(3) by auto
    have "sig_flag P = a" "sig_flag Q = b" "fst ` plan_checks P = insert a (fst ` waits_for st)"
      "fst ` plan_checks Q = insert b (fst ` waits_for st)" by (simp_all add: P_def Q_def plan_views)
    then show ?thesis using pq ab w by (elim disjE) simp_all
  qed
qed

lemma plan_step_count:
  "cnt (snd (plan_step st sp)) f = cnt st f + (if \<exists>p \<in> set (fst (plan_step st sp)). sig_flag p = f then 1 else 0)"
  by (cases "snd sp"; cases "flag_set st") (auto simp: plan_step_def Let_def plan_views)

lemma plan_step_linked:
  assumes "p \<in> set (fst (plan_step st sp))" "q \<in> set (fst (plan_step (snd (plan_step st sp)) sq))"
  shows "(sig_flag p, cnt (snd (plan_step st sp)) (sig_flag p)) \<in> plan_checks q"
  using assms
  by (cases "snd sp"; cases "flag_set st"; cases "snd sq")
    (auto simp: plan_step_def Let_def plan_views select_constraint_def)

lemma plan_step_nonempty: "fst (plan_step st sp) \<noteq> []"
  by (cases "snd sp") (auto simp: plan_step_def Let_def)

definition cnt_at :: "step list \<Rightarrow> nat \<Rightarrow> nat \<Rightarrow> int" where
  "cnt_at order i f = cnt (state_at init_flags order i) f"

definition plans_of :: "step list \<Rightarrow> plan list list" where
  "plans_of order = plan_steps init_flags order"

interpretation rl: relay "plans_of order" "cnt_at order" for order
proof
  let ?st = "\<lambda>i. state_at init_flags order i"
  fix f i p q v
  show "cnt_at order 0 f = 0" by (simp add: cnt_at_def init_flags_def)
  {
    assume i: "i < length (plans_of order)"
    then have nth: "plans_of order ! i = fst (plan_step (?st i) (order ! i))"
      by (simp add: plans_of_def plan_steps_nth)
    show "plans_of order ! i \<noteq> []" by (simp add: nth plan_step_nonempty)
    have "?st (Suc i) = snd (plan_step (?st i) (order ! i))" using i by (simp add: plans_of_def state_at_Suc)
    then show "cnt_at order (Suc i) f = cnt_at order i f + (if \<exists>p \<in> set (plans_of order ! i). sig_flag p = f then 1 else 0)"
      using plan_step_count[of "?st i" "order ! i" f] by (simp add: nth cnt_at_def)
    assume p: "p \<in> set (plans_of order ! i)"
    then show "sig_flag p < 4 \<and> sig_val p = cnt_at order i (sig_flag p) + 1 \<and>
        (sig_flag p, cnt_at order i (sig_flag p)) \<in> plan_checks p"
      using plan_step_signal nth by (simp add: cnt_at_def)
    show "(f, v) \<in> plan_checks p \<Longrightarrow> f < 4 \<and> v = cnt_at order i f"
      using p plan_step_checks nth by (simp add: cnt_at_def)
    show "q \<in> set (plans_of order ! i) \<Longrightarrow> p \<noteq> q \<Longrightarrow> sig_flag p \<noteq> sig_flag q \<and> sig_flag q \<notin> fst ` plan_checks p"
      using p plan_step_separate nth by metis
  }
  assume i: "Suc i < length (plans_of order)" and "p \<in> set (plans_of order ! i)" "q \<in> set (plans_of order ! Suc i)"
  moreover have "?st (Suc i) = snd (plan_step (?st i) (order ! i))" using i by (simp add: plans_of_def state_at_Suc)
  ultimately show "(sig_flag p, cnt_at order (Suc i) (sig_flag p)) \<in> plan_checks q"
    using plan_step_linked[of p "?st i" "order ! i" q "order ! Suc i"]
    by (simp add: plans_of_def plan_steps_nth cnt_at_def)
qed

section \<open>The update function\<close>

text \<open>\<open>x += y; x *= y\<close> is \<open>(x + y) * y\<close>.  The header says that this is associative, which the text needs for
  its argument; it is not.  And \<open>MakeAsynchronousUpdate\<close> draws its \<open>y\<close> without the \<open>+ 1\<close> of
  \<open>MakeUpdate\<close>: with 0 the item forgets every update before.\<close>

definition item_update :: "int \<Rightarrow> int \<Rightarrow> int" where
  "item_update x y = (x + y) * y"

lemma item_update_not_associative: "item_update (item_update 1 2) 3 \<noteq> item_update 1 (item_update 2 3)"
  by (simp add: item_update_def)

lemma item_update_zero_forgets: "item_update x 0 = item_update x' 0"
  by (simp add: item_update_def)

end
