(* ===== verification/MessageSteps.thy ===== *)
theory MessageSteps
  imports MessagePassing
begin

text \<open>
  The generated message passing at run time.  The threads of a work group interleave statement by
  statement; a thread runs the loops of the nodes it visits, in any order and any number of times, and
  then the loop of its end checks.  The properties are about what \<open>Message::CreateOrdering\<close> promises: no
  two threads update the same item of the message at the same time, and the threads never block one
  another.

  A condition over several flags is evaluated in one step, and memory is sequentially consistent.
  The flags count nodes, which fit an \<open>int\<close>; the items have the width of their types, which is the
  parameter \<open>wr\<close>.
\<close>

section \<open>Threads\<close>

text \<open>\<open>Running rem body rest\<close>: the rest of this pass through the loop, the body of the loop, the loops that
  follow it.\<close>

datatype thread = Running "mstmt list" "mstmt list" "mstmt list list" | Finished

fun next_loop :: "mstmt list list \<Rightarrow> thread" where
  "next_loop [] = Finished"
| "next_loop (b # bs) = Running b b bs"

type_synonym memory = "nat \<Rightarrow> int"

fun tstep :: "(nat \<Rightarrow> int \<Rightarrow> int) \<Rightarrow> memory \<Rightarrow> thread \<Rightarrow> memory \<times> thread" where
  "tstep wr mem Finished = (mem, Finished)"
| "tstep wr mem (Running [] body rest) = (mem, Running body body rest)"
| "tstep wr mem (Running (MemFence # rem) body rest) = (mem, Running rem body rest)"
| "tstep wr mem (Running (BreakIfGe cs # rem) body rest) =
     (mem, if all_ge cs mem then next_loop rest else Running rem body rest)"
| "tstep wr mem (Running (IfEq cs sts # rem) body rest) =
     (mem, Running (if all_eq cs mem then sts @ rem else rem) body rest)"
| "tstep wr mem (Running (ContinueUnlessEq cs # rem) body rest) =
     (mem, Running (if all_eq cs mem then rem else body) body rest)"
| "tstep wr mem (Running (AddAssign i k # rem) body rest) = (mem(i := wr i (mem i + k)), Running rem body rest)"
| "tstep wr mem (Running (MulAssign i k # rem) body rest) = (mem(i := wr i (mem i * k)), Running rem body rest)"
| "tstep wr mem (Running (SetFlag f v # rem) body rest) = (mem(f := v), Running rem body rest)"
| "tstep wr mem (Running (BreakLoop # rem) body rest) = (mem, next_loop rest)"

inductive gstep :: "(nat \<Rightarrow> int \<Rightarrow> int) \<Rightarrow> memory \<times> thread list \<Rightarrow> memory \<times> thread list \<Rightarrow> bool" for wr where
  gstepI: "t < length ts \<Longrightarrow> ts ! t \<noteq> Finished \<Longrightarrow> tstep wr mem (ts ! t) = (mem', th) \<Longrightarrow>
    gstep wr (mem, ts) (mem', ts[t := th])"

inductive_cases gstepE: "gstep wr (mem, ts) st"

abbreviation gsteps :: "(nat \<Rightarrow> int \<Rightarrow> int) \<Rightarrow> memory \<times> thread list \<Rightarrow> memory \<times> thread list \<Rightarrow> bool" where
  "gsteps wr \<equiv> (gstep wr)\<^sup>*\<^sup>*"

text \<open>The threads of a work group of \<open>n\<close> threads, the flags all zero.\<close>

definition start_threads :: "ordering \<Rightarrow> (nat \<Rightarrow> nat list) \<Rightarrow> nat \<Rightarrow> thread list" where
  "start_threads ord visited n = map (\<lambda>t. next_loop (loops_of ord t (visited t))) [0..<n]"

definition flags_zero :: "memory \<Rightarrow> bool" where
  "flags_zero mem \<longleftrightarrow> (\<forall>f < 4. mem f = 0)"

text \<open>The item a thread updates next.\<close>

fun next_item :: "thread \<Rightarrow> nat option" where
  "next_item (Running (AddAssign i k # rem) body rest) = Some i"
| "next_item (Running (MulAssign i k # rem) body rest) = Some i"
| "next_item _ = None"

section \<open>The order\<close>

definition node_list :: "step list \<Rightarrow> nat list" where
  "node_list order = concat (map (\<lambda>(n, m). n # (case m of None \<Rightarrow> [] | Some k \<Rightarrow> [k])) order)"

lemma sb_graph_gen:
  assumes "xs = [0..<k]" "k \<le> length tids" "\<forall>t \<in> set tids. t \<le> mx"
  shows "fold (\<lambda>n sb. sb[tids ! n := sb ! (tids ! n) @ [n]]) xs (replicate (mx + 1) []) =
    map (\<lambda>t. filter (\<lambda>n. tids ! n = t) [0..<k]) [0..<mx + 1]"
  using assms
proof (induction k arbitrary: xs)
  case 0
  then show ?case by (simp add: map_replicate_const)
next
  case (Suc k)
  have "tids ! k \<le> mx" using Suc.prems by simp
  then show ?case using Suc.IH[OF refl] Suc.prems by (auto intro!: nth_equalityI simp: nth_list_update nth_append)
qed

lemma max_tid_ge: "t \<in> set tids \<Longrightarrow> t \<le> max_tid tids"
proof -
  have "\<forall>mx. mx \<le> fold (\<lambda>t mx. if t > mx then t else mx) tids mx \<and>
      (\<forall>t \<in> set tids. t \<le> fold (\<lambda>t mx. if t > mx then t else mx) tids mx)" for tids :: "nat list"
  proof (induction tids)
    case (Cons a tids)
    show ?case
    proof
      fix mx
      show "mx \<le> fold (\<lambda>t mx. if t > mx then t else mx) (a # tids) mx \<and>
          (\<forall>t \<in> set (a # tids). t \<le> fold (\<lambda>t mx. if t > mx then t else mx) (a # tids) mx)"
        using Cons[rule_format, of a] Cons[rule_format, of mx] by auto
    qed
  qed simp
  then show "t \<in> set tids \<Longrightarrow> t \<le> max_tid tids" by (simp add: max_tid_def)
qed

lemma sb_graph_eq: "sb_graph tids = map (\<lambda>t. filter (\<lambda>n. tids ! n = t) [0..<length tids]) [0..<max_tid tids + 1]"
  unfolding sb_graph_def by (rule sb_graph_gen) (auto intro: max_tid_ge)

lemma sb_graph_nth: "t \<le> max_tid tids \<Longrightarrow> sb_graph tids ! t = filter (\<lambda>n. tids ! n = t) [0..<length tids]"
  by (simp add: sb_graph_eq del: upt_Suc)

text \<open>The iterators stay inside the lists of the threads.\<close>

definition its_ok :: "nat list list \<Rightarrow> nat list \<Rightarrow> bool" where
  "its_ok sb its \<longleftrightarrow> length its = length sb \<and> (\<forall>t < length sb. its ! t \<le> length (sb ! t))"

lemma tid_table_keys: "dkeys (tid_table sb its last_tids) = map int (filter (\<lambda>t. t \<notin> set last_tids) [0..<length sb])"
  by (simp add: tid_table_def o_def)

lemma key_to_prob_map:
  "k \<in> set ks \<Longrightarrow> key_to_prob_loop (int k) (map int ks) (map g ks) = g k"
  by (induction ks) auto

lemma tid_table_prob:
  assumes "t < length sb" "t \<notin> set last_tids"
  shows "key_to_prob (int t) (tid_table sb its last_tids) = int (length (sb ! t)) - int (its ! t)"
  using key_to_prob_map[of t "filter (\<lambda>t. t \<notin> set last_tids) [0..<length sb]" "\<lambda>t. int (length (sb ! t)) - int (its ! t)"] assms
  by (simp add: key_to_prob_def tid_table_def o_def)

lemma tid_table_wf: "its_ok sb its \<Longrightarrow> wf_dist (tid_table sb its last_tids)"
  by (auto simp: tid_table_def its_ok_def intro!: wf_build_dist)

lemma tid_table_key:
  assumes "its_ok sb its" "rnd_num_to_key v (tid_table sb its last_tids) = Some k"
  shows "\<exists>t. k = int t \<and> t < length sb \<and> t \<notin> set last_tids \<and> its ! t < length (sb ! t)"
proof -
  let ?t = "tid_table sb its last_tids"
  have v: "0 \<le> v" "length (dkeys ?t) = length (probs ?t)" "rnd_loop v (dkeys ?t) (probs ?t) = Some k"
    using assms(2) by (auto simp: rnd_num_to_key_def bind_eq_Some_conv)
  have "distinct (dkeys ?t)" by (simp add: tid_table_keys distinct_map)
  then have "0 < key_to_prob k ?t" "k \<in> set (dkeys ?t)"
    using rnd_loop_pos[OF v(3,1) _ v(2)] by (simp_all add: key_to_prob_def)
  then show ?thesis using tid_table_prob[of _ sb last_tids its] by (auto simp: tid_table_keys)
qed

lemma take_node_SomeD:
  "take_node sb its t = Some (n, its') \<Longrightarrow>
   t < length sb \<and> t < length its \<and> its ! t < length (sb ! t) \<and> n = sb ! t ! (its ! t) \<and> its' = its[t := Suc (its ! t)]"
  by (auto simp: take_node_def bind_eq_Some_conv)

lemma take_node_total:
  "its_ok sb its \<Longrightarrow> t < length sb \<Longrightarrow> its ! t < length (sb ! t) \<Longrightarrow>
   take_node sb its t = Some (sb ! t ! (its ! t), its[t := Suc (its ! t)])"
  by (simp add: take_node_def its_ok_def vec_at_less)

lemma its_ok_Suc: "its_ok sb its \<Longrightarrow> t < length sb \<Longrightarrow> its ! t < length (sb ! t) \<Longrightarrow> its_ok sb (its[t := Suc (its ! t)])"
  by (auto simp: its_ok_def nth_list_update)

lemma lookup_new: "opt_random_based o1 \<Longrightarrow> vf_lookup o1 (new_vector_filter (Some tbl) [] True) v = rnd_num_to_key v tbl"
  "opt_random_based o1 \<Longrightarrow> vf_lookup o1 (vf_add k (new_vector_filter (Some tbl) [] True)) v = rnd_num_to_key v tbl"
  by (simp_all add: vf_lookup_def new_vector_filter_def vf_add_def valid_filter_def)

text \<open>What one step of the ordering does: it takes the next node of a thread outside the last step, and
  perhaps the next node of another such thread.\<close>

definition step_taken :: "nat list list \<Rightarrow> nat list \<Rightarrow> nat list \<Rightarrow> step \<Rightarrow> nat list \<Rightarrow> nat list \<Rightarrow> bool" where
  "step_taken sb its last_tids sp its1 used \<longleftrightarrow>
     (\<exists>t < length sb. t \<notin> set last_tids \<and> its ! t < length (sb ! t) \<and> fst sp = sb ! t ! (its ! t) \<and>
       (case snd sp of
          None \<Rightarrow> its1 = its[t := Suc (its ! t)] \<and> used = [t]
        | Some m \<Rightarrow> \<exists>u < length sb. u \<notin> set last_tids \<and> u \<noteq> t \<and> its ! u < length (sb ! u) \<and> m = sb ! u ! (its ! u) \<and>
            its1 = its[t := Suc (its ! t), u := Suc (its ! u)] \<and> used = [t, u]))"

lemma vf_add_rejects:
  assumes "opt_random_based o1" "\<not> vf_pred o1 (vf_add k (new_vector_filter (Some tbl) [] True)) v"
  shows "\<exists>j. rnd_num_to_key (int v) tbl = Some j \<and> u32 j \<noteq> k"
  using assms
  by (auto simp: vf_pred_def vf_filter_def vf_lookup_def new_vector_filter_def vf_add_def valid_filter_def bind_eq_Some_conv
      split: option.splits)

lemma order_step_SomeD:
  assumes "order_step o1 sb its (tid_table sb its last_tids) s = Some (sp, its1, used, s1)"
    and "opt_random_based o1" "its_ok sb its" "length sb \<le> 5"
  shows "step_taken sb its last_tids sp its1 used"
proof -
  let ?tbl = "tid_table sb its last_tids" and ?f = "new_vector_filter (Some (tid_table sb its last_tids)) [] True"
  obtain v s2 k n itsa b s3 where v: "rnd_num_to_key (int v) ?tbl = Some k"
    and n: "take_node sb its (nat k) = Some (n, itsa)"
    and r: "(if b then do { (k2, s3) \<leftarrow> choose_key o1 (vf_add k ?f) s3; (m, its2) \<leftarrow> take_node sb itsa (nat k2);
          Some ((n, Some m), its2, [nat k, nat k2], s3) } else Some ((n, None), itsa, [nat k], s3)) = Some (sp, its1, used, s1)"
    using assms(1) assms(2) by (auto simp: order_step_def lookup_new bind_eq_Some_conv Let_def)
  from tid_table_key[OF assms(3) v] obtain t where t: "k = int t" "t < length sb" "t \<notin> set last_tids" "its ! t < length (sb ! t)" by blast
  have n': "n = sb ! t ! (its ! t)" "itsa = its[t := Suc (its ! t)]" using take_node_SomeD[OF n] t(1) by auto
  show ?thesis
  proof (cases b)
    case False
    then show ?thesis using r t n' by (auto simp: step_taken_def)
  next
    case True
    then obtain k2 s4 m its2 where c: "choose_key o1 (vf_add k ?f) s3 = Some (k2, s4)"
      and m: "take_node sb itsa (nat k2) = Some (m, its2)" and e: "sp = (n, Some m)" "its1 = its2" "used = [nat k, nat k2]"
      using r by (auto simp: bind_eq_Some_conv)
    obtain v2 where v2: "rnd_num_to_key (int v2) ?tbl = Some k2" "\<not> vf_pred o1 (vf_add k ?f) v2"
      using c assms(2) rnd_upto_SomeD(2) by (auto simp: choose_key_def lookup_new bind_eq_Some_conv rejects_def dest!: rnd_upto_SomeD(2))
    from tid_table_key[OF assms(3) v2(1)] obtain u where u: "k2 = int u" "u < length sb" "u \<notin> set last_tids" "its ! u < length (sb ! u)" by blast
    have "u32 k2 = k2" using u assms(4) by (simp add: u32_def)
    then have "u \<noteq> t" using vf_add_rejects[OF assms(2) v2(2)] v2(1) t(1) u(1) by auto
    then show ?thesis using take_node_SomeD[OF m] t u e n' by (auto simp: step_taken_def intro!: exI[of _ t])
  qed
qed

text \<open>What \<open>lrand48\<close> documents: its values are the numbers below \<open>2 ^ 31\<close>; the underlying linear congruential
  sequence runs through all states again and again, so each of the values keeps coming.\<close>

definition fair :: "rng \<Rightarrow> bool" where
  "fair s \<longleftrightarrow> (\<forall>j. draws s j < 2 ^ 31) \<and> (\<forall>v < 2 ^ 31. \<forall>k. \<exists>j \<ge> k. draws s j = v)"

lemma fair_reaches:
  assumes "fair s" "m < n" "n \<le> 2 ^ 31"
  shows "\<exists>j. draws s (drawn s + j) mod n = m"
proof -
  have "m < 2 ^ 31" using assms(2,3) by simp
  then obtain i where "drawn s \<le> i" "draws s i = m" using assms(1) unfolding fair_def by blast
  then show ?thesis using assms(2) by (metis le_iff_add mod_less)
qed

lemma rnd_upto_fair:
  assumes "fair s" "m < n" "n \<le> 2 ^ 31" "\<not> rejects f m"
  shows "\<exists>v t. rnd_upto n f w s = Some (v, t) \<and> fair t"
proof -
  obtain j where "draws s (drawn s + j) mod n = m" using fair_reaches assms(1-3) by blast
  then obtain v t where v: "rnd_upto n f w s = Some (v, t)" using rnd_upto_total[of n f s j w] assms by auto
  moreover have "fair t" using rnd_upto_SomeD(3)[OF v] assms(1) by (simp add: fair_def)
  ultimately show ?thesis by blast
qed

lemma rnd_flipcoin_fair: "p \<le> 100 \<Longrightarrow> fair s \<Longrightarrow> \<exists>b t. rnd_flipcoin p f s = Some (b, t) \<and> fair t"
proof -
  assume a: "p \<le> 100" "fair s"
  then obtain b t where b: "rnd_flipcoin p f s = Some (b, t)" using rnd_flipcoin_total by blast
  then have "draws t = draws s" using rnd_flipcoin_SomeD by blast
  then show ?thesis using a(2) b by (simp add: fair_def)
qed

lemma step_taken_its_ok:
  "step_taken sb its last_tids sp its1 used \<Longrightarrow> its_ok sb its \<Longrightarrow> its_ok sb its1"
  by (auto simp: step_taken_def its_ok_def nth_list_update split: option.splits)

text \<open>The nodes that are left.\<close>

definition left_over :: "nat list list \<Rightarrow> nat list \<Rightarrow> nat" where
  "left_over sb its = (\<Sum>t < length sb. length (sb ! t) - its ! t)"

lemma left_over_Suc:
  assumes "its_ok sb its" "t < length sb" "its ! t < length (sb ! t)"
  shows "left_over sb (its[t := Suc (its ! t)]) < left_over sb its"
  unfolding left_over_def using assms
  by (intro sum_strict_mono_ex1) (auto simp: its_ok_def nth_list_update intro!: bexI[of _ t])

lemma step_taken_left_over:
  assumes "step_taken sb its last_tids sp its1 used" "its_ok sb its"
  shows "left_over sb its1 < left_over sb its"
proof -
  obtain t where t: "t < length sb" "its ! t < length (sb ! t)"
    and c: "its1 = its[t := Suc (its ! t)] \<or> (\<exists>u < length sb. u \<noteq> t \<and> its ! u < length (sb ! u) \<and>
      its1 = its[t := Suc (its ! t), u := Suc (its ! u)])"
    using assms(1) unfolding step_taken_def by (cases "snd sp") fastforce+
  note o = its_ok_Suc[OF assms(2) t] and l = left_over_Suc[OF assms(2) t]
  from c show ?thesis
  proof
    assume "\<exists>u < length sb. u \<noteq> t \<and> its ! u < length (sb ! u) \<and> its1 = its[t := Suc (its ! t), u := Suc (its ! u)]"
    then obtain u where "u < length sb" "u \<noteq> t" "its ! u < length (sb ! u)" "its1 = its[t := Suc (its ! t), u := Suc (its ! u)]" by blast
    then show ?thesis using left_over_Suc[OF o, of u] l by simp
  qed (use l in simp)
qed

text \<open>The weights are at most the nodes that are left.\<close>

lemma get_max_left_over:
  assumes "its_ok sb its"
  shows "nat (get_max (tid_table sb its last_tids)) \<le> left_over sb its"
proof -
  let ?w = "\<lambda>u. int (length (sb ! u)) - int (its ! u)"
  have w: "?w u = int (length (sb ! u) - its ! u)" "0 \<le> ?w u" if "u < length sb" for u
    using assms that by (auto simp: its_ok_def)
  have "get_max (tid_table sb its last_tids) = sum ?w (set (filter (\<lambda>t. t \<notin> set last_tids) [0..<length sb]))"
    by (simp add: get_max_def tid_table_def o_def sum_list_distinct_conv_sum_set)
  also have "\<dots> \<le> sum ?w {..<length sb}" using w(2) by (intro sum_mono2) auto
  also have "\<dots> = int (left_over sb its)" using w(1) by (simp add: left_over_def)
  finally show ?thesis by simp
qed

text \<open>If the weight of a thread is not the whole weight, the choice of a second thread returns.\<close>

lemma other_thread:
  assumes "its_ok sb its" "t < length sb" "t \<notin> set last_tids"
    "key_to_prob (int t) (tid_table sb its last_tids) \<noteq> get_max (tid_table sb its last_tids)"
  shows "\<exists>u. u < length sb \<and> u \<notin> set last_tids \<and> u \<noteq> t \<and> its ! u < length (sb ! u)"
proof (rule ccontr)
  assume none: "\<not> ?thesis"
  let ?w = "\<lambda>u. int (length (sb ! u)) - int (its ! u)"
  let ?ts = "filter (\<lambda>t. t \<notin> set last_tids) [0..<length sb]"
  have z: "\<forall>u \<in> set ?ts. u \<noteq> t \<longrightarrow> ?w u = 0" using none assms(1) by (fastforce simp: its_ok_def)
  have "get_max (tid_table sb its last_tids) = sum ?w (set ?ts)"
    by (simp add: get_max_def tid_table_def o_def sum_list_distinct_conv_sum_set)
  also have "\<dots> = sum ?w {t}" using z assms(2,3) by (intro sum.mono_neutral_right) auto
  finally show False using assms(4) tid_table_prob[OF assms(2,3), of its] by simp
qed

lemma second_choice_total:
  assumes "fair s" "opt_random_based o1" "its_ok sb its" "length sb \<le> 5" "t < length sb" "t \<notin> set last_tids"
    "key_to_prob (int t) (tid_table sb its last_tids) \<noteq> get_max (tid_table sb its last_tids)" "left_over sb its \<le> 2 ^ 31"
  shows "\<exists>w s1. choose_key o1 (vf_add (int t) (new_vector_filter (Some (tid_table sb its last_tids)) [] True)) s = Some (int w, s1) \<and>
    fair s1 \<and> w < length sb \<and> w \<noteq> t \<and> its ! w < length (sb ! w)"
proof -
  let ?tbl = "tid_table sb its last_tids" and ?f = "vf_add (int t) (new_vector_filter (Some (tid_table sb its last_tids)) [] True)"
  note wf = tid_table_wf[OF assms(3), of last_tids]
  from other_thread[OF assms(3,5,6,7)] obtain u
    where u: "u < length sb" "u \<notin> set last_tids" "u \<noteq> t" "its ! u < length (sb ! u)" by blast
  have "0 < key_to_prob (int u) ?tbl" using tid_table_prob[OF u(1,2), of its] u(4) by simp
  then have "0 < card {r. 0 \<le> r \<and> r < sum_list (probs ?tbl) \<and> rnd_loop r (dkeys ?tbl) (probs ?tbl) = Some (int u)}"
    using rnd_loop_card[of "dkeys ?tbl" "probs ?tbl" "int u"] wf
    by (simp add: key_to_prob_def wf_dist_def tid_table_keys distinct_map)
  then obtain r where r: "0 \<le> r" "r < get_max ?tbl" "rnd_num_to_key r ?tbl = Some (int u)"
    using wf by (auto simp: card_gt_0_iff rnd_num_to_key_def wf_dist_def get_max_def)
  have "\<not> vf_pred o1 ?f (nat r)"
    using r u(1,3) assms(2,4)
    by (simp add: vf_pred_def vf_filter_def vf_lookup_def new_vector_filter_def vf_add_def valid_filter_def u32_def)
  then obtain v s1 where v: "rnd_upto (nat (get_max ?tbl)) (Some (vf_pred o1 ?f)) None s = Some (v, s1)" "fair s1"
    using rnd_upto_fair[OF assms(1), of "nat r" "nat (get_max ?tbl)" "Some (vf_pred o1 ?f)" None] r(1,2)
      get_max_left_over[OF assms(3), of last_tids] assms(8) by (auto simp: rejects_def)
  have "\<not> vf_pred o1 ?f v" using rnd_upto_SomeD(2)[OF v(1)] by (simp add: rejects_def)
  from vf_add_rejects[OF assms(2) this] obtain k where k: "rnd_num_to_key (int v) ?tbl = Some k" "u32 k \<noteq> int t" by blast
  from tid_table_key[OF assms(3) k(1)] obtain w where w: "k = int w" "w < length sb" "its ! w < length (sb ! w)" by blast
  have "w \<noteq> t" using k(2) w(1,2) assms(4) by (auto simp: u32_def)
  moreover have "choose_key o1 ?f s = Some (int w, s1)"
    using v(1) k(1) w(1) assms(2) by (simp add: choose_key_def lookup_new get_max_prob_def new_vector_filter_def vf_add_def
        vf_lookup_def valid_filter_def)
  ultimately show ?thesis using w v(2) by blast
qed

lemma order_step_total:
  assumes "fair s" "opt_random_based o1" "its_ok sb its" "0 < get_max (tid_table sb its last_tids)" "length sb \<le> 5"
    "left_over sb its \<le> 2 ^ 31"
  shows "\<exists>sp its1 used s1. order_step o1 sb its (tid_table sb its last_tids) s = Some (sp, its1, used, s1) \<and> fair s1"
proof -
  let ?tbl = "tid_table sb its last_tids" and ?f = "new_vector_filter (Some (tid_table sb its last_tids)) [] True"
  from rnd_upto_fair[OF assms(1), of 0 "nat (get_max ?tbl)" None None] assms(4,6) get_max_left_over[OF assms(3), of last_tids]
  obtain v s1 where v: "rnd_upto (nat (get_max ?tbl)) None None s = Some (v, s1)" "fair s1" by (auto simp: rejects_def)
  have "int v < get_max ?tbl" using rnd_upto_SomeD(1)[OF v(1)] by simp
  then obtain k where k: "rnd_num_to_key (int v) ?tbl = Some k"
    using rnd_num_to_key_total[OF tid_table_wf[OF assms(3)], of "int v"] by auto
  from tid_table_key[OF assms(3) k] obtain t where t: "k = int t" "t < length sb" "t \<notin> set last_tids" "its ! t < length (sb ! t)" by blast
  define its1 where "its1 = its[t := Suc (its ! t)]"
  note n = take_node_total[OF assms(3) t(2,4)]
  obtain b s2 where b: "(if key_to_prob k ?tbl \<noteq> get_max ?tbl then rnd_flipcoin 10 None s1 else Some (False, s1)) = Some (b, s2)"
      "fair s2" "b \<Longrightarrow> key_to_prob (int t) ?tbl \<noteq> get_max ?tbl"
    using rnd_flipcoin_fair[of 10 s1 None] v(2) t(1) by (cases "key_to_prob k ?tbl = get_max ?tbl") auto
  have pre: "order_step o1 sb its ?tbl s = (if b then do { (k2, s3) \<leftarrow> choose_key o1 (vf_add k ?f) s2; (m, its2) \<leftarrow> take_node sb its1 (nat k2);
          Some ((sb ! t ! (its ! t), Some m), its2, [t, nat k2], s3) } else Some ((sb ! t ! (its ! t), None), its1, [t], s2))"
    using v(1) k n b(1) t(1) assms(2) by (simp add: order_step_def lookup_new its1_def Let_def)
  show ?thesis
  proof (cases b)
    case False
    then show ?thesis using pre b(2) by auto
  next
    case True
    from second_choice_total[OF b(2) assms(2,3,5) t(2,3) b(3)[OF True] assms(6)] obtain w s3
      where w: "choose_key o1 (vf_add k ?f) s2 = Some (int w, s3)" "fair s3" "w < length sb" "w \<noteq> t" "its ! w < length (sb ! w)"
      using t(1) by blast
    then have "take_node sb its1 w = Some (sb ! w ! (its ! w), its1[w := Suc (its ! w)])"
      using take_node_total[OF its_ok_Suc[OF assms(3) t(2,4)]] by (simp add: its1_def)
    then show ?thesis using pre True w(1,2) by simp
  qed
qed

text \<open>The loop ends, and its order is one of the nodes still to come.\<close>

lemma order_loop_total:
  "fair s \<Longrightarrow> opt_random_based o1 \<Longrightarrow> its_ok sb its \<Longrightarrow> length sb \<le> 5 \<Longrightarrow> left_over sb its \<le> 2 ^ 31 \<Longrightarrow>
   \<exists>r s1. order_loop o1 sb its last_tids s = Some (r, s1) \<and> fair s1"
proof (induction "left_over sb its" arbitrary: its last_tids s rule: less_induct)
  case less
  let ?tbl = "tid_table sb its last_tids"
  show ?case
  proof (cases "get_max ?tbl = 0")
    case True
    then show ?thesis using less.prems(1) by (subst order_loop.simps) simp
  next
    case False
    have "0 \<le> sum_list (probs ?tbl)" using tid_table_wf[OF less.prems(3), of last_tids]
      by (intro sum_list_nonneg) (auto simp: wf_dist_def)
    then have "0 < get_max ?tbl" using False tid_table_wf[OF less.prems(3), of last_tids] by (simp add: get_max_def wf_dist_def)
    from order_step_total[OF less.prems(1,2,3) this less.prems(4,5)] obtain sp its1 used s1
      where st: "order_step o1 sb its ?tbl s = Some (sp, its1, used, s1)" "fair s1" by blast
    note tk = order_step_SomeD[OF st(1) less.prems(2,3,4)]
    have "left_over sb its1 \<le> 2 ^ 31" using step_taken_left_over[OF tk less.prems(3)] less.prems(5) by simp
    from less.hyps[OF step_taken_left_over[OF tk less.prems(3)] st(2) less.prems(2) step_taken_its_ok[OF tk less.prems(3)] less.prems(4) this]
    obtain r s2 where "order_loop o1 sb its1 used s1 = Some (r, s2)" "fair s2" by blast
    then show ?thesis using False st by (subst order_loop.simps) (simp add: Let_def)
  qed
qed

text \<open>The threads of a step.\<close>

definition step_tids :: "nat list \<Rightarrow> step \<Rightarrow> nat list" where
  "step_tids tids sp = map (\<lambda>n. tids ! n) (node_list [sp])"

fun turns :: "nat list \<Rightarrow> nat list \<Rightarrow> step list \<Rightarrow> bool" where
  "turns tids last_tids [] \<longleftrightarrow> True"
| "turns tids last_tids (sp # sps) \<longleftrightarrow> distinct (step_tids tids sp) \<and> set (step_tids tids sp) \<inter> set last_tids = {} \<and>
     turns tids (step_tids tids sp) sps"

fun last_used :: "nat list \<Rightarrow> nat list \<Rightarrow> step list \<Rightarrow> nat list" where
  "last_used tids last_tids [] = last_tids"
| "last_used tids last_tids (sp # sps) = last_used tids (step_tids tids sp) sps"

definition takes_prefixes :: "nat list \<Rightarrow> nat list list \<Rightarrow> nat list \<Rightarrow> nat list \<Rightarrow> step list \<Rightarrow> bool" where
  "takes_prefixes tids sb its last_tids r \<longleftrightarrow> (\<forall>n \<in> set (node_list r). tids ! n < length sb) \<and>
     (\<forall>t < length sb. \<exists>k. filter (\<lambda>n. tids ! n = t) (node_list r) = take k (drop (its ! t) (sb ! t)) \<and>
       (t \<notin> set (last_used tids last_tids r) \<longrightarrow> filter (\<lambda>n. tids ! n = t) (node_list r) = drop (its ! t) (sb ! t)))"

lemma node_list_simps [simp]:
  "node_list [] = []" "node_list (sp # sps) = node_list [sp] @ node_list sps"
  by (simp_all add: node_list_def)

declare node_list_simps(2) [simp del]

lemma node_list_one: "node_list [(n, None)] = [n]" "node_list [(n, Some m)] = [n, m]"
  by (simp_all add: node_list_def)

text \<open>The nodes of a step in the lists of their threads.\<close>

lemma step_taken_nodes:
  assumes "step_taken sb its last_tids sp its1 used" "its_ok sb its"
    and sb: "\<forall>t < length sb. \<forall>n \<in> set (sb ! t). tids ! n = t"
  shows "step_tids tids sp = used" "distinct used" "set used \<inter> set last_tids = {}" "set used \<subseteq> {..<length sb}"
    and "t < length sb \<Longrightarrow> drop (its ! t) (sb ! t) = filter (\<lambda>n. tids ! n = t) (node_list [sp]) @ drop (its1 ! t) (sb ! t)"
proof -
  obtain a where a: "a < length sb" "a \<notin> set last_tids" "its ! a < length (sb ! a)" "fst sp = sb ! a ! (its ! a)"
    and c: "case snd sp of None \<Rightarrow> its1 = its[a := Suc (its ! a)] \<and> used = [a]
        | Some m \<Rightarrow> \<exists>u < length sb. u \<notin> set last_tids \<and> u \<noteq> a \<and> its ! u < length (sb ! u) \<and> m = sb ! u ! (its ! u) \<and>
            its1 = its[a := Suc (its ! a), u := Suc (its ! u)] \<and> used = [a, u]"
    using assms(1) unfolding step_taken_def by blast
  have len: "length its = length sb" using assms(2) by (simp add: its_ok_def)
  have ta: "tids ! (sb ! a ! (its ! a)) = a" using sb a(1,3) by simp
  have "step_tids tids sp = used \<and> distinct used \<and> set used \<inter> set last_tids = {} \<and> set used \<subseteq> {..<length sb} \<and>
     (\<forall>t < length sb. drop (its ! t) (sb ! t) = filter (\<lambda>n. tids ! n = t) (node_list [sp]) @ drop (its1 ! t) (sb ! t))"
  proof (cases "snd sp")
    case None
    then have e: "sp = (sb ! a ! (its ! a), None)" "its1 = its[a := Suc (its ! a)]" "used = [a]" using a(4) c by (cases sp; simp)+
    then show ?thesis using a ta len
      by (auto simp: step_tids_def node_list_one nth_list_update Cons_nth_drop_Suc)
  next
    case (Some m)
    then obtain u where u: "u < length sb" "u \<notin> set last_tids" "u \<noteq> a" "its ! u < length (sb ! u)" "m = sb ! u ! (its ! u)"
        "its1 = its[a := Suc (its ! a), u := Suc (its ! u)]" "used = [a, u]" using c by auto
    have tu: "tids ! (sb ! u ! (its ! u)) = u" using sb u(1,4) by simp
    have "sp = (sb ! a ! (its ! a), Some (sb ! u ! (its ! u)))" using a(4) Some u(5) by (cases sp) simp
    then show ?thesis using a ta tu u len
      by (auto simp: step_tids_def node_list_one nth_list_update Cons_nth_drop_Suc)
  qed
  then show "step_tids tids sp = used" "distinct used" "set used \<inter> set last_tids = {}" "set used \<subseteq> {..<length sb}"
    and "t < length sb \<Longrightarrow> drop (its ! t) (sb ! t) = filter (\<lambda>n. tids ! n = t) (node_list [sp]) @ drop (its1 ! t) (sb ! t)"
    by blast+
qed

lemma takes_prefixes_Cons:
  assumes "takes_prefixes tids sb its1 used r" "step_taken sb its last_tids sp its1 used" "its_ok sb its"
    and sb: "\<forall>t < length sb. \<forall>n \<in> set (sb ! t). tids ! n = t"
  shows "takes_prefixes tids sb its last_tids (sp # r)"
proof -
  note n = step_taken_nodes[OF assms(2,3) sb]
  have "\<exists>k. filter (\<lambda>n. tids ! n = t) (node_list (sp # r)) = take k (drop (its ! t) (sb ! t)) \<and>
      (t \<notin> set (last_used tids last_tids (sp # r)) \<longrightarrow> filter (\<lambda>n. tids ! n = t) (node_list (sp # r)) = drop (its ! t) (sb ! t))"
    if t: "t < length sb" for t
  proof -
    obtain k where k: "filter (\<lambda>n. tids ! n = t) (node_list r) = take k (drop (its1 ! t) (sb ! t))"
        "t \<notin> set (last_used tids used r) \<Longrightarrow> filter (\<lambda>n. tids ! n = t) (node_list r) = drop (its1 ! t) (sb ! t)"
      using assms(1) t unfolding takes_prefixes_def by blast
    show ?thesis
      using k n(1) by (intro exI[of _ "length (filter (\<lambda>n. tids ! n = t) (node_list [sp])) + k"])
        (auto simp: n(5)[OF t] node_list_simps(2)[of sp r])
  qed
  moreover have "\<forall>n \<in> set (node_list (sp # r)). tids ! n < length sb"
  proof
    fix m
    assume "m \<in> set (node_list (sp # r))"
    then consider "m \<in> set (node_list [sp])" | "m \<in> set (node_list r)" by (auto simp: node_list_simps(2)[of sp r])
    then show "tids ! m < length sb"
    proof cases
      case 1
      then have "tids ! m \<in> set (step_tids tids sp)" by (simp add: step_tids_def)
      then show ?thesis using n(1,4) by auto
    qed (use assms(1) in \<open>simp add: takes_prefixes_def\<close>)
  qed
  ultimately show ?thesis by (simp add: takes_prefixes_def)
qed

lemma order_loop_valid:
  "order_loop o1 sb its last_tids s = Some (r, s1) \<Longrightarrow> opt_random_based o1 \<Longrightarrow> its_ok sb its \<Longrightarrow> length sb \<le> 5 \<Longrightarrow>
   \<forall>t < length sb. \<forall>n \<in> set (sb ! t). tids ! n = t \<Longrightarrow>
   takes_prefixes tids sb its last_tids r \<and> turns tids last_tids r"
proof (induction "left_over sb its" arbitrary: its last_tids s r rule: less_induct)
  case less
  let ?tbl = "tid_table sb its last_tids"
  show ?case
  proof (cases "get_max ?tbl = 0")
    case True
    then have r: "r = []" using less.prems(1) by (subst (asm) order_loop.simps) simp
    have "length (sb ! t) = its ! t" if "t < length sb" "t \<notin> set last_tids" for t
    proof -
      have "sum_list (probs ?tbl) = 0" "\<forall>p \<in> set (probs ?tbl). 0 \<le> p"
        using True tid_table_wf[OF less.prems(3), of last_tids] by (simp_all add: get_max_def wf_dist_def)
      then have "\<forall>p \<in> set (probs ?tbl). p = 0" by (simp add: sum_list_nonneg_eq_0_iff)
      then show ?thesis using that by (auto simp: tid_table_def)
    qed
    then show ?thesis by (auto simp: r takes_prefixes_def intro: exI[of _ 0])
  next
    case False
    then obtain sp its1 used s2 r' where st: "order_step o1 sb its ?tbl s = Some (sp, its1, used, s2)"
        and rr: "order_loop o1 sb its1 used s2 = Some (r', s1)" "r = sp # r'"
      using less.prems(1) by (subst (asm) order_loop.simps) (auto simp: Let_def bind_eq_Some_conv)
    note tk = order_step_SomeD[OF st less.prems(2,3,4)]
    note n = step_taken_nodes[OF tk less.prems(3,5)]
    note IH = less.hyps[OF step_taken_left_over[OF tk less.prems(3)] rr(1) less.prems(2) step_taken_its_ok[OF tk less.prems(3)] less.prems(4,5)]
    then show ?thesis using takes_prefixes_Cons[OF _ tk less.prems(3,5)] n rr(2) by simp
  qed
qed

text \<open>The order as a whole.\<close>

lemma sb_graph_tids: "\<forall>t < length (sb_graph tids). \<forall>n \<in> set (sb_graph tids ! t). tids ! n = t"
  by (simp add: sb_graph_eq del: upt_Suc)

lemma sb_graph_length: "\<forall>t \<in> set tids. t < 5 \<Longrightarrow> length (sb_graph tids) \<le> 5"
proof -
  assume b: "\<forall>t \<in> set tids. t < 5"
  have "fold (\<lambda>t mx. if t > mx then t else mx) ts mx < 5" if "mx < 5" "\<forall>t \<in> set ts. t < 5" for ts and mx :: nat
    using that by (induction ts arbitrary: mx) auto
  then have "max_tid tids < 5" using b by (simp add: max_tid_def)
  then show ?thesis by (simp add: sb_graph_eq)
qed

lemma start_its_ok: "its_ok (sb_graph tids) (replicate (length (sb_graph tids)) 0)"
  by (simp add: its_ok_def)

definition order_valid :: "nat list \<Rightarrow> step list \<Rightarrow> bool" where
  "order_valid tids order \<longleftrightarrow>
     distinct (node_list order) \<and> set (node_list order) \<subseteq> {..<length tids} \<and>
     (\<forall>t. \<exists>k. filter (\<lambda>n. tids ! n = t) (node_list order) = take k (filter (\<lambda>n. tids ! n = t) [0..<length tids])) \<and>
     turns tids [] order \<and>
     (\<forall>n < length tids. n \<notin> set (node_list order) \<longrightarrow> tids ! n \<in> set (last_used tids [] order))"

lemma distinct_by_class:
  assumes "\<And>t. distinct (filter (\<lambda>n. f n = t) xs)"
  shows "distinct xs"
  using assms
proof (induction xs)
  case (Cons x xs)
  have "distinct (filter (\<lambda>n. f n = t) xs)" for t using Cons.prems[of t] by (simp split: if_splits)
  then have "distinct xs" by (rule Cons.IH)
  moreover have "x \<notin> set xs" using Cons.prems[of "f x"] by simp
  ultimately show ?case by simp
qed simp

lemma choose_order_valid_lemma:
  assumes "choose_order o1 tids s = Some (order, s1)" "opt_random_based o1" "\<forall>t \<in> set tids. t < 5"
  shows "order_valid tids order"
proof -
  let ?sb = "sb_graph tids"
  have "order_loop o1 ?sb (replicate (length ?sb) 0) [] s = Some (order, s1)"
    using assms(1) by (simp add: choose_order_def Let_def)
  from order_loop_valid[OF this assms(2) start_its_ok sb_graph_length[OF assms(3)] sb_graph_tids]
  have "takes_prefixes tids ?sb (replicate (length ?sb) 0) [] order \<and> turns tids [] order" .
  then have tp: "takes_prefixes tids ?sb (replicate (length ?sb) 0) [] order" "turns tids [] order" by blast+
  have len: "length ?sb = max_tid tids + 1" by (simp add: sb_graph_eq)
  have pre: "\<exists>k. filter (\<lambda>n. tids ! n = t) (node_list order) = take k (filter (\<lambda>n. tids ! n = t) [0..<length tids]) \<and>
      (t \<notin> set (last_used tids [] order) \<longrightarrow> filter (\<lambda>n. tids ! n = t) (node_list order) = filter (\<lambda>n. tids ! n = t) [0..<length tids])" for t
  proof (cases "t \<le> max_tid tids")
    case True
    then have t: "t < length ?sb" "replicate (length ?sb) 0 ! t = (0::nat)" using len by (auto simp del: replicate_Suc)
    then show ?thesis using tp(1) sb_graph_nth[OF True] unfolding takes_prefixes_def by (metis drop0)
  next
    case False
    have "filter (\<lambda>n. tids ! n = t) (node_list order) = []"
      using tp(1) len False by (force simp: takes_prefixes_def filter_empty_conv)
    moreover have "filter (\<lambda>n. tids ! n = t) [0..<length tids] = []"
      using False by (auto simp: filter_empty_conv dest!: max_tid_ge[OF nth_mem])
    ultimately show ?thesis by simp
  qed
  have "distinct (filter (\<lambda>n. tids ! n = t) (node_list order))" for t
    using pre[of t] by (metis distinct_filter distinct_take distinct_upt)
  then have "distinct (node_list order)" by (rule distinct_by_class)
  moreover have "set (node_list order) \<subseteq> {..<length tids}"
  proof
    fix n
    assume "n \<in> set (node_list order)"
    then have "n \<in> set (filter (\<lambda>m. tids ! m = tids ! n) (node_list order))" by simp
    then have "n \<in> set (filter (\<lambda>m. tids ! m = tids ! n) [0..<length tids])" using pre[of "tids ! n"] by (metis in_set_takeD)
    then show "n \<in> {..<length tids}" by simp
  qed
  moreover have "tids ! n \<in> set (last_used tids [] order)" if "n < length tids" "n \<notin> set (node_list order)" for n
  proof (rule ccontr)
    assume "\<not> ?thesis"
    then have "filter (\<lambda>m. tids ! m = tids ! n) (node_list order) = filter (\<lambda>m. tids ! m = tids ! n) [0..<length tids]"
      using pre[of "tids ! n"] by blast
    then have "n \<in> set (filter (\<lambda>m. tids ! m = tids ! n) (node_list order))" using that(1) by simp
    then show False using that(2) by simp
  qed
  ultimately show ?thesis using pre tp(2) unfolding order_valid_def by blast
qed

text \<open>Two nodes of one thread appear in the order in which they were registered.\<close>

lemma order_valid_later:
  assumes "order_valid tids order" "node_list order = xs @ m # ys" "n \<in> set xs" "tids ! n = tids ! m"
  shows "m \<in> set (later_nodes tids n)"
proof -
  let ?P = "\<lambda>k. tids ! k = tids ! m" and ?sb = "filter (\<lambda>k. tids ! k = tids ! m) [0..<length tids]"
  obtain k where k: "filter ?P (node_list order) = take k ?sb" using assms(1) unfolding order_valid_def by blast
  have "n \<in> set (node_list order)" using assms(2,3) by simp
  then have n: "n < length tids" using assms(1) by (auto simp: order_valid_def)
  then have sb: "sb_graph tids ! (tids ! n) = ?sb"
    using assms(4) sb_graph_nth[OF max_tid_ge[OF nth_mem[OF n]]] by simp
  obtain us vs where u: "xs = us @ n # vs" "n \<notin> set us" using assms(3) by (meson split_list_first)
  have "?sb = take k ?sb @ drop k ?sb" by simp
  also have "take k ?sb = filter ?P us @ n # filter ?P vs @ m # filter ?P ys"
    using k[symmetric] assms(2,4) u(1) by simp
  finally have e: "?sb = filter ?P us @ n # filter ?P vs @ m # filter ?P ys @ drop k ?sb" by simp
  have "dropWhile (\<lambda>k. k \<noteq> n) ?sb = n # filter ?P vs @ m # filter ?P ys @ drop k ?sb"
    using u(2) by (subst e) (subst dropWhile_append2, auto)
  then show ?thesis by (simp add: later_nodes_def sb)
qed

section \<open>The code of the nodes\<close>

declare split_paired_Ex [simp del] split_paired_All [simp del]

text \<open>What a node is given: its wait unlocks the earlier nodes of its thread.\<close>

definition lock_of :: "plan \<Rightarrow> lock" where
  "lock_of p = (plan_checks p, [(sig_flag p, sig_val p)])"

definition code_of :: "nat list \<Rightarrow> plan list \<Rightarrow> plan \<Rightarrow> mstmt list \<Rightarrow> node_code" where
  "code_of tids before p upd =
     \<lparr>nc_wait = MakeWait (map lock_of (filter (\<lambda>q. fst p \<in> set (later_nodes tids (fst q))) before)) (plan_checks p) [(sig_flag p, sig_val p)],
      nc_update = upd, nc_signal = MakeSignal [(sig_flag p, sig_val p)]\<rparr>"

definition emitted :: "nat list \<Rightarrow> plan list \<Rightarrow> (nat \<Rightarrow> mstmt list) \<Rightarrow> ordering \<Rightarrow> bool" where
  "emitted tids ps upd ord \<longleftrightarrow>
     (\<forall>n. unlock_map ord n = map lock_of (filter (\<lambda>q. n \<in> set (later_nodes tids (fst q))) ps)) \<and>
     (\<forall>t. end_checks ord t = map lock_of (filter (\<lambda>q. tids ! fst q = t) ps)) \<and>
     dom (node_codes ord) = fst ` set ps \<and>
     (\<forall>xs p ys. ps = xs @ p # ys \<longrightarrow> node_codes ord (fst p) = Some (code_of tids xs p (upd (fst p))))"

lemma emitted_Nil: "emitted tids [] upd empty_ordering"
  by (simp add: emitted_def empty_ordering_def)

lemma emit_node_emitted:
  assumes "emitted tids ps upd ord" "fst p \<notin> fst ` set ps"
  shows "emitted tids (ps @ [p]) (upd(fst p := u)) (emit_node tids p u ord)"
proof -
  obtain n checks sg where p: "p = (n, checks, sg)" by (metis prod_cases3)
  have l: "lock_of p = (checks, [sg])" by (simp add: p lock_of_def plan_views)
  have code: "node_codes (emit_node tids p u ord) (fst q) = Some (code_of tids xs q ((upd(fst p := u)) (fst q)))"
    if e: "ps @ [p] = xs @ q # ys" for xs q ys
  proof (cases ys rule: rev_cases)
    case Nil
    then have q: "xs = ps" "q = (n, checks, sg)" using e p by simp_all
    have "unlock_map ord n = map lock_of (filter (\<lambda>q. n \<in> set (later_nodes tids (fst q))) ps)"
      using assms(1) unfolding emitted_def by blast
    then show ?thesis by (simp add: emit_node_def p q code_of_def plan_views)
  next
    case (snoc zs z)
    then have e: "ps = xs @ q # zs" using e by simp
    then have "node_codes ord (fst q) = Some (code_of tids xs q (upd (fst q)))" using assms(1) unfolding emitted_def by blast
    moreover have "fst q \<noteq> fst p" using e assms(2) by auto
    ultimately show ?thesis by (auto simp: emit_node_def p)
  qed
  have um: "\<forall>n. unlock_map ord n = map lock_of (filter (\<lambda>q. n \<in> set (later_nodes tids (fst q))) ps)"
      and ec: "\<forall>t. end_checks ord t = map lock_of (filter (\<lambda>q. tids ! fst q = t) ps)"
      and dm: "dom (node_codes ord) = fst ` set ps" using assms(1) unfolding emitted_def by blast+
  have "\<forall>n. unlock_map (emit_node tids p u ord) n = map lock_of (filter (\<lambda>q. n \<in> set (later_nodes tids (fst q))) (ps @ [p]))"
       "\<forall>t. end_checks (emit_node tids p u ord) t = map lock_of (filter (\<lambda>q. tids ! fst q = t) (ps @ [p]))"
       "dom (node_codes (emit_node tids p u ord)) = fst ` set (ps @ [p])"
    using um ec dm l by (simp_all add: emit_node_def p)
  then show ?thesis unfolding emitted_def using code by blast
qed

text \<open>The two nodes of one step update different items.\<close>

definition upd_ok :: "mstmt list \<Rightarrow> bool" where
  "upd_ok upd \<longleftrightarrow> (\<forall>st \<in> set upd. \<exists>i k. 4 \<le> i \<and> (st = AddAssign i k \<or> st = MulAssign i k))"

lemma updated_vars_simps [simp]:
  "GetUpdatedVars [] = {}"
  "GetUpdatedVars (AddAssign i k # upd) = insert i (GetUpdatedVars upd)"
  "GetUpdatedVars (MulAssign i k # upd) = insert i (GetUpdatedVars upd)"
  by (simp_all add: GetUpdatedVars_def List.map_filter_simps)

lemma upd_ok_simps [simp]:
  "upd_ok []"
  "upd_ok (st # upd) \<longleftrightarrow> (\<exists>i k. 4 \<le> i \<and> (st = AddAssign i k \<or> st = MulAssign i k)) \<and> upd_ok upd"
  by (simp_all add: upd_ok_def)

lemma update_bits_ok: "update_bits bits idx s = Some (upd, s1) \<Longrightarrow> 4 \<le> idx \<Longrightarrow> upd_ok upd"
proof (induction bits idx s arbitrary: upd s1 rule: update_bits.induct)
  case (1 bits idx s)
  show ?case
  proof (cases "bits = 0 \<or> \<not> odd bits")
    case True
    then show ?thesis using 1 by (subst (asm) update_bits.simps) (auto simp: upd_ok_def split: if_splits)
  next
    case False
    then obtain y s2 r where y: "rnd_upto 15 None None s = Some (y, s2)" "update_bits (bits div 2) (Suc idx) s2 = Some (r, s1)"
        "upd = AddAssign idx (int y + 1) # MulAssign idx (int y + 1) # r"
      using "1.prems"(1) by (subst (asm) update_bits.simps) (auto simp: bind_eq_Some_conv)
    then have "upd_ok r" using False "1.IH"(1)[of "(y, s2)"] "1.prems"(2) by auto
    then show ?thesis using y(3) "1.prems"(2) by (auto simp: upd_ok_def)
  qed
qed

lemma MakeUpdate_ok: "MakeUpdate s = Some (upd, s1) \<Longrightarrow> upd_ok upd"
  by (auto simp: MakeUpdate_def bind_eq_Some_conv intro: update_bits_ok)

lemma async_items_ok:
  "async_items used is s = Some (upd, s1) \<Longrightarrow> \<forall>i \<in> set is. 4 \<le> i \<Longrightarrow> upd_ok upd \<and> GetUpdatedVars upd \<inter> used = {}"
proof (induction "is" arbitrary: s upd)
  case (Cons idx "is")
  show ?case
  proof (cases "idx \<in> used")
    case False
    then obtain y s2 r where "async_items used is s2 = Some (r, s1)" "upd = AddAssign idx (int y) # MulAssign idx (int y) # r"
      using Cons.prems(1) by (auto simp: bind_eq_Some_conv)
    then show ?thesis using Cons.IH Cons.prems(2) False by simp
  qed (use Cons in simp)
qed simp

lemma MakeAsynchronousUpdate_ok:
  "MakeAsynchronousUpdate nu s = Some (upd, s1) \<Longrightarrow> upd_ok upd \<and> GetUpdatedVars upd \<inter> GetUpdatedVars nu = {}"
  unfolding MakeAsynchronousUpdate_def by (rule async_items_ok) (assumption, simp)

text \<open>The code of a whole order: every plan is emitted, with updates that exclude one another in a step.\<close>

lemma plan_nodes: "map fst (fst (plan_step st sp)) = node_list [sp]"
  by (cases sp; cases "snd sp") (auto simp: plan_step_def Let_def node_list_one)

definition step_apart :: "(nat \<Rightarrow> mstmt list) \<Rightarrow> plan list \<Rightarrow> bool" where
  "step_apart upd ps \<longleftrightarrow> (\<forall>p \<in> set ps. upd_ok (upd (fst p))) \<and>
     (\<forall>p \<in> set ps. \<forall>q \<in> set ps. fst p \<noteq> fst q \<longrightarrow> GetUpdatedVars (upd (fst p)) \<inter> GetUpdatedVars (upd (fst q)) = {})"

lemma plan_step_cases:
  obtains p where "fst (plan_step st sp) = [p]" | p q where "fst (plan_step st sp) = [p, q]"
  by (cases "snd sp") (auto simp: plan_step_def Let_def)

lemma step_apart_cong: "(\<And>p. p \<in> set ps \<Longrightarrow> upd (fst p) = upd' (fst p)) \<Longrightarrow> step_apart upd ps = step_apart upd' ps"
  by (auto simp: step_apart_def)

lemma make_constraints_emitted:
  assumes "make_constraints tids st order ord s = Some (ord', s')" "emitted tids ps upd ord"
    "distinct (map fst ps @ node_list order)"
  shows "\<exists>upd'. emitted tids (ps @ concat (plan_steps st order)) upd' ord' \<and>
    (\<forall>p \<in> set ps. upd' (fst p) = upd (fst p)) \<and> (\<forall>x \<in> set (plan_steps st order). step_apart upd' x)"
  using assms
proof (induction order arbitrary: st ord s ps upd)
  case Nil
  then show ?case by auto
next
  case (Cons sp sps)
  obtain pl st' where pl: "plan_step st sp = (pl, st')" by force
  have nd: "map fst pl = node_list [sp]" using plan_nodes[of st sp] pl by simp
  have dist: "distinct (map fst ps @ map fst pl @ node_list sps)"
    using Cons.prems(3) nd by (simp add: node_list_simps(2)[of sp sps])
  obtain u s1 where u: "MakeUpdate s = Some (u, s1)" using Cons.prems(1) pl by (auto simp: bind_eq_Some_conv)
  have "\<exists>ord2 s2 upd2. make_constraints tids st' sps ord2 s2 = Some (ord', s') \<and> emitted tids (ps @ pl) upd2 ord2 \<and>
      (\<forall>p \<in> set ps. upd2 (fst p) = upd (fst p)) \<and> step_apart upd2 pl"
  proof (cases rule: plan_step_cases[of st sp])
    case (1 p)
    then have p: "pl = [p]" using pl by simp
    have em: "emitted tids (ps @ [p]) (upd(fst p := u)) (emit_node tids p u ord)"
      using dist p by (intro emit_node_emitted Cons.prems(2)) auto
    have "make_constraints tids st' sps (emit_node tids p u ord) s1 = Some (ord', s')"
      using Cons.prems(1) pl u p by simp
    moreover have "step_apart (upd(fst p := u)) pl" using MakeUpdate_ok[OF u] p by (simp add: step_apart_def)
    moreover have "\<forall>q \<in> set ps. (upd(fst p := u)) (fst q) = upd (fst q)"
      using dist p by (auto simp: rev_image_eqI)
    ultimately show ?thesis using em p by blast
  next
    case (2 p q)
    then have p: "pl = [p, q]" using pl by simp
    obtain v s2 where v: "MakeAsynchronousUpdate u s1 = Some (v, s2)"
        "make_constraints tids st' sps (emit_node tids q v (emit_node tids p u ord)) s2 = Some (ord', s')"
      using Cons.prems(1) pl u p by (auto simp: bind_eq_Some_conv)
    have em: "emitted tids (ps @ [p]) (upd(fst p := u)) (emit_node tids p u ord)"
      using dist p by (intro emit_node_emitted Cons.prems(2)) auto
    have "emitted tids ((ps @ [p]) @ [q]) (upd(fst p := u, fst q := v)) (emit_node tids q v (emit_node tids p u ord))"
      using dist p by (intro emit_node_emitted[OF em]) auto
    moreover have "step_apart (upd(fst p := u, fst q := v)) pl"
      using MakeUpdate_ok[OF u] MakeAsynchronousUpdate_ok[OF v(1)] dist p by (auto simp: step_apart_def)
    moreover have "\<forall>r \<in> set ps. (upd(fst p := u, fst q := v)) (fst r) = upd (fst r)"
      using dist p by (auto simp: rev_image_eqI)
    ultimately show ?thesis using v(2) p
      by (intro exI[of _ "emit_node tids q v (emit_node tids p u ord)"] exI[of _ s2] exI[of _ "upd(fst p := u, fst q := v)"] conjI) simp_all
  qed
  then obtain ord2 s2 upd2 where n: "make_constraints tids st' sps ord2 s2 = Some (ord', s')" "emitted tids (ps @ pl) upd2 ord2"
      "\<forall>p \<in> set ps. upd2 (fst p) = upd (fst p)" "step_apart upd2 pl" by blast
  have IH: "\<exists>upd'. emitted tids ((ps @ pl) @ concat (plan_steps st' sps)) upd' ord' \<and>
      (\<forall>p \<in> set (ps @ pl). upd' (fst p) = upd2 (fst p)) \<and> (\<forall>x \<in> set (plan_steps st' sps). step_apart upd' x)"
    using dist nd by (intro Cons.IH[OF n(1,2)]) simp
  then obtain upd' where "emitted tids ((ps @ pl) @ concat (plan_steps st' sps)) upd' ord'"
      "\<forall>p \<in> set (ps @ pl). upd' (fst p) = upd2 (fst p)" "\<forall>x \<in> set (plan_steps st' sps). step_apart upd' x" by blast
  moreover have "step_apart upd' pl" using calculation(2) n(4) step_apart_cong[of pl upd' upd2] by simp
  ultimately show ?case using n(3) pl by (intro exI[of _ upd']) auto
qed

section \<open>The invariant\<close>

definition sig :: "plan \<Rightarrow> constraint" where "sig p = (sig_flag p, sig_val p)"

text \<open>The signal that is about to be sent, with nothing but updates before it.\<close>

fun pend :: "mstmt list \<Rightarrow> constraint option" where
  "pend (SetFlag f v # rem) = Some (f, v)"
| "pend (MemFence # rem) = pend rem"
| "pend (AddAssign i k # rem) = pend rem"
| "pend (MulAssign i k # rem) = pend rem"
| "pend _ = None"

fun code_ok :: "(plan \<Rightarrow> bool) \<Rightarrow> (nat \<Rightarrow> mstmt list) \<Rightarrow> mstmt list \<Rightarrow> bool" where
  "code_ok P upd [] \<longleftrightarrow> True"
| "code_ok P upd (MemFence # rem) \<longleftrightarrow> code_ok P upd rem"
| "code_ok P upd (BreakLoop # rem) \<longleftrightarrow> code_ok P upd rem"
| "code_ok P upd (BreakIfGe cs # rem) \<longleftrightarrow> pend rem = None \<and> code_ok P upd rem"
| "code_ok P upd (IfEq cs sts # rem) \<longleftrightarrow>
     (\<exists>p. P p \<and> cs = plan_checks p \<and> sts = [SetFlag (sig_flag p) (sig_val p)]) \<and> pend rem = None \<and> code_ok P upd rem"
| "code_ok P upd (ContinueUnlessEq cs # rem) \<longleftrightarrow>
     (\<exists>p. P p \<and> cs = plan_checks p \<and> pend rem = Some (sig p)) \<and> code_ok P upd rem"
| "code_ok P upd (AddAssign i k # rem) \<longleftrightarrow>
     4 \<le> i \<and> (\<exists>p. P p \<and> pend rem = Some (sig p) \<and> i \<in> GetUpdatedVars (upd (fst p))) \<and> code_ok P upd rem"
| "code_ok P upd (MulAssign i k # rem) \<longleftrightarrow>
     4 \<le> i \<and> (\<exists>p. P p \<and> pend rem = Some (sig p) \<and> i \<in> GetUpdatedVars (upd (fst p))) \<and> code_ok P upd rem"
| "code_ok P upd (SetFlag f v # rem) \<longleftrightarrow> pend rem = None \<and> code_ok P upd rem"

lemma code_ok_update:
  "upd_ok us \<Longrightarrow> GetUpdatedVars us \<subseteq> GetUpdatedVars (upd (fst p)) \<Longrightarrow> P p \<Longrightarrow>
   code_ok P upd (us @ MakeSignal [sig p]) \<and> pend (us @ MakeSignal [sig p]) = Some (sig p)"
proof (induction us)
  case Nil
  then show ?case by (simp add: MakeSignal_def MakeConstraintUpdate_def sig_def)
next
  case (Cons st us)
  then show ?case by auto
qed

lemma unlock_lock_of: "unlock_stmt (lock_of q) = IfEq (plan_checks q) [SetFlag (sig_flag q) (sig_val q)]"
  by (simp add: unlock_stmt_def lock_of_def MakeConstraintUpdate_def)

lemma code_ok_unlocks:
  "\<forall>q \<in> set qs. P q \<Longrightarrow> code_ok P upd rem \<Longrightarrow> pend rem = None \<Longrightarrow>
   code_ok P upd (map unlock_stmt (map lock_of qs) @ rem) \<and> pend (map unlock_stmt (map lock_of qs) @ rem) = None"
  by (induction qs) (auto simp: unlock_lock_of)

lemma code_ok_node:
  assumes "P p" "\<forall>q \<in> set before. fst p \<in> set (later_nodes tids (fst q)) \<longrightarrow> P q" "upd_ok (upd (fst p))"
  shows "code_ok P upd (node_loop (code_of tids before p (upd (fst p)))) \<and> pend (node_loop (code_of tids before p (upd (fst p)))) = None"
proof -
  let ?r = "upd (fst p) @ MakeSignal [sig p]"
  let ?qs = "filter (\<lambda>q. fst p \<in> set (later_nodes tids (fst q))) before"
  have "code_ok P upd ?r \<and> pend ?r = Some (sig p)" using assms by (intro code_ok_update) auto
  then have "code_ok P upd (map unlock_stmt (map lock_of ?qs) @ [ContinueUnlessEq (plan_checks p)] @ ?r) \<and>
      pend (map unlock_stmt (map lock_of ?qs) @ [ContinueUnlessEq (plan_checks p)] @ ?r) = None"
    using assms by (intro code_ok_unlocks) auto
  then show ?thesis by (simp add: node_loop_def code_of_def MakeWait_def sig_def)
qed

lemma code_ok_end:
  assumes "\<forall>q \<in> set qs. P q"
  shows "code_ok P upd (end_loop (map lock_of qs)) \<and> pend (end_loop (map lock_of qs)) = None"
  using code_ok_unlocks[OF assms, of upd "[MemFence, BreakIfGe (fst (last (map lock_of qs)) \<union> set (snd (last (map lock_of qs))))]"]
  by (simp add: end_loop_def)

text \<open>A thread is about to signal only for a node of its own whose turn it is.\<close>

definition of_thread :: "nat list \<Rightarrow> step list \<Rightarrow> nat \<Rightarrow> plan \<Rightarrow> bool" where
  "of_thread tids order t p \<longleftrightarrow> p \<in> set (concat (plans_of order)) \<and> tids ! fst p = t"

definition enabled :: "step list \<Rightarrow> nat \<Rightarrow> plan set \<Rightarrow> plan \<Rightarrow> bool" where
  "enabled order i D p \<longleftrightarrow> i < length (plans_of order) \<and> p \<in> set (plans_of order ! i) \<and> p \<notin> D"

definition due :: "nat list \<Rightarrow> step list \<Rightarrow> nat \<Rightarrow> plan set \<Rightarrow> nat \<Rightarrow> constraint \<Rightarrow> bool" where
  "due tids order i D t s \<longleftrightarrow> (\<exists>p. enabled order i D p \<and> tids ! fst p = t \<and> sig p = s)"

lemma dueI: "enabled order i D p \<Longrightarrow> tids ! fst p = t \<Longrightarrow> due tids order i D t (sig p)"
  by (auto simp: due_def)

fun thread_inv :: "nat list \<Rightarrow> step list \<Rightarrow> (nat \<Rightarrow> mstmt list) \<Rightarrow> nat \<Rightarrow> plan set \<Rightarrow> nat \<Rightarrow> thread \<Rightarrow> bool" where
  "thread_inv tids order upd i D t Finished \<longleftrightarrow> True"
| "thread_inv tids order upd i D t (Running rem body rest) \<longleftrightarrow>
     code_ok (of_thread tids order t) upd rem \<and>
     (\<forall>b \<in> set (body # rest). code_ok (of_thread tids order t) upd b \<and> pend b = None) \<and>
     (\<forall>s. pend rem = Some s \<longrightarrow> due tids order i D t s)"

definition group_inv :: "nat list \<Rightarrow> step list \<Rightarrow> (nat \<Rightarrow> mstmt list) \<Rightarrow> nat \<Rightarrow> plan set \<Rightarrow> memory \<times> thread list \<Rightarrow> bool" where
  "group_inv tids order upd i D st \<longleftrightarrow>
     cut (plans_of order) (cnt_at order) i D (fst st) \<and> (\<forall>t < length (snd st). thread_inv tids order upd i D t (snd st ! t))"

lemma of_thread_turn:
  assumes "cut (plans_of order) (cnt_at order) i D mem" "of_thread tids order t p"
  shows "all_eq (plan_checks p) mem \<longleftrightarrow> enabled order i D p"
proof -
  obtain j where j: "j < length (plans_of order)" "p \<in> set (plans_of order ! j)"
    using assms(2) by (auto simp: of_thread_def in_set_conv_nth[of _ "plans_of order"])
  have uniq: "j = i" if "enabled order i D p"
    using rl.signal_inj[OF j, of i p] that by (simp add: enabled_def)
  show ?thesis using rl.turn[OF assms(1) j] uniq j by (auto simp: enabled_def)
qed

lemma next_loop_inv:
  "\<forall>b \<in> set rest. code_ok (of_thread tids order t) upd b \<and> pend b = None \<Longrightarrow> thread_inv tids order upd i D t (next_loop rest)"
  by (cases rest) auto

text \<open>A step either leaves the flags alone or sends the signal of a node whose turn it is.\<close>

lemma thread_step:
  assumes "cut (plans_of order) (cnt_at order) i D mem" "thread_inv tids order upd i D t (Running rem body rest)"
    "tstep wr mem (Running rem body rest) = (mem', th)"
  shows "(\<forall>f < 4. mem' f = mem f) \<and> thread_inv tids order upd i D t th \<or>
    (\<exists>p. enabled order i D p \<and> tids ! fst p = t \<and> mem' = mem(sig_flag p := sig_val p) \<and> (\<forall>j E. thread_inv tids order upd j E t th))"
proof (cases rem)
  case Nil
  then show ?thesis using assms(2,3) by auto
next
  case (Cons st rem')
  note nl = next_loop_inv[of rest tids order t upd i D]
  show ?thesis
  proof (cases st)
    case (SetFlag f v)
    then have "pend rem' = None" "due tids order i D t (f, v)" using assms(2) Cons by auto
    moreover obtain p where p: "enabled order i D p" "tids ! fst p = t" "sig p = (f, v)"
      using calculation(2) unfolding due_def by blast
    ultimately have "\<forall>j E. thread_inv tids order upd j E t th" "mem' = mem(sig_flag p := sig_val p)"
      using assms(2,3) Cons SetFlag by (auto simp: sig_def)
    then show ?thesis using p by blast
  next
    case (IfEq cs sts)
    then obtain p where p: "of_thread tids order t p" "cs = plan_checks p" "sts = [SetFlag (sig_flag p) (sig_val p)]" "pend rem' = None"
      using assms(2) Cons by auto
    have "due tids order i D t (sig_flag p, sig_val p)" if "all_eq cs mem"
      using of_thread_turn[OF assms(1) p(1)] that p(1,2) dueI[of order i D p tids t] by (simp add: of_thread_def sig_def)
    then have "thread_inv tids order upd i D t th" "mem' = mem" using assms(2,3) Cons IfEq p(3,4) by auto
    then show ?thesis by simp
  next
    case (ContinueUnlessEq cs)
    then obtain p where p: "of_thread tids order t p" "cs = plan_checks p" "pend rem' = Some (sig p)"
      using assms(2) Cons by auto
    have "due tids order i D t (sig p)" if "all_eq cs mem"
      using of_thread_turn[OF assms(1) p(1)] that p(1,2) dueI[of order i D p tids t] by (simp add: of_thread_def)
    then have "thread_inv tids order upd i D t th" "mem' = mem" using assms(2,3) Cons ContinueUnlessEq p(3) by auto
    then show ?thesis by simp
  qed (use assms(2,3) Cons nl in auto)
qed

text \<open>What another thread waits for stays its turn.\<close>

lemma other_thread_inv:
  assumes "thread_inv tids order upd i D u th" "enabled order i D p" "tids ! fst p \<noteq> u" "D \<subseteq> set (plans_of order ! i)"
  shows "thread_inv tids order upd (if insert p D = set (plans_of order ! i) then Suc i else i)
     (if insert p D = set (plans_of order ! i) then {} else insert p D) u th"
proof (cases th)
  case (Running rem body rest)
  have "due tids order (if insert p D = set (plans_of order ! i) then Suc i else i)
       (if insert p D = set (plans_of order ! i) then {} else insert p D) u s"
    if s: "due tids order i D u s" for s
  proof -
    obtain q where q: "enabled order i D q" "tids ! fst q = u" "sig q = s" using s unfolding due_def by blast
    have "q \<noteq> p" using q(2) assms(3) by auto
    then have "insert p D \<noteq> set (plans_of order ! i)" using q(1) by (auto simp: enabled_def)
    then show ?thesis using q \<open>q \<noteq> p\<close> by (auto simp: due_def enabled_def intro: exI[of _ q])
  qed
  then show ?thesis using assms(1) Running by (simp only: thread_inv.simps) blast
qed simp

lemma group_step:
  assumes "group_inv tids order upd i D st" "gstep wr st st'"
  shows "\<exists>j E. group_inv tids order upd j E st'"
  using assms(2)
proof cases
  case (gstepI t ts mem mem' th)
  have cut: "cut (plans_of order) (cnt_at order) i D mem" and inv: "\<forall>u < length ts. thread_inv tids order upd i D u (ts ! u)"
    using assms(1) gstepI(1) by (simp_all add: group_inv_def)
  obtain rem body rest where r: "ts ! t = Running rem body rest" using gstepI(4) by (cases "ts ! t") auto
  have ti: "thread_inv tids order upd i D t (Running rem body rest)" using inv gstepI(3) r by metis
  have ts: "tstep wr mem (Running rem body rest) = (mem', th)" using gstepI(5) r by simp
  from thread_step[OF cut ti ts] show ?thesis
  proof
    assume a: "(\<forall>f < 4. mem' f = mem f) \<and> thread_inv tids order upd i D t th"
    then have "cut (plans_of order) (cnt_at order) i D mem'" using cut by (simp add: cut_def)
    moreover have "\<forall>u < length ts. thread_inv tids order upd i D u (ts[t := th] ! u)"
    proof (intro allI impI)
      fix u
      assume "u < length ts"
      then show "thread_inv tids order upd i D u (ts[t := th] ! u)" using a inv by (cases "u = t") simp_all
    qed
    ultimately have "group_inv tids order upd i D st'" using gstepI(2) by (simp add: group_inv_def)
    then show ?thesis by blast
  next
    assume "\<exists>p. enabled order i D p \<and> tids ! fst p = t \<and> mem' = mem(sig_flag p := sig_val p) \<and> (\<forall>j E. thread_inv tids order upd j E t th)"
    then obtain p where p: "enabled order i D p" "tids ! fst p = t" "mem' = mem(sig_flag p := sig_val p)"
        "\<And>j E. thread_inv tids order upd j E t th" by blast
    let ?j = "if insert p D = set (plans_of order ! i) then Suc i else i"
    let ?E = "if insert p D = set (plans_of order ! i) then {} else insert p D"
    have en: "i < length (plans_of order)" "p \<in> set (plans_of order ! i)" "p \<notin> D" using p(1) by (simp_all add: enabled_def)
    have "cut (plans_of order) (cnt_at order) ?j ?E mem'" using rl.signal_cut[OF cut en] p(3) by simp
    moreover have "thread_inv tids order upd ?j ?E u (ts[t := th] ! u)" if "u < length ts" for u
    proof (cases "u = t")
      case False
      have "D \<subseteq> set (plans_of order ! i)" using rl.cut_part[OF cut en(1)] by blast
      then show ?thesis using other_thread_inv[OF inv[rule_format, OF that] p(1)] p(2) False by auto
    qed (use p(4) gstepI(3) in simp)
    ultimately have "group_inv tids order upd ?j ?E st'" using gstepI(2) by (simp add: group_inv_def)
    then show ?thesis by blast
  qed
qed

lemma group_reach:
  assumes "gsteps wr st st'" "group_inv tids order upd i D st"
  shows "\<exists>j E. group_inv tids order upd j E st'"
  using assms by (induction rule: rtranclp_induct) (blast intro: group_step)+

section \<open>The start\<close>

lemma plans_nodes: "map fst (concat (plans_of order)) = node_list order"
proof -
  have "map fst (concat (plan_steps st order)) = node_list order" for st
  proof (induction order arbitrary: st)
    case (Cons sp sps)
    obtain pl st' where pl: "plan_step st sp = (pl, st')" by force
    then show ?case using Cons[of st'] plan_nodes[of st sp] by (simp add: node_list_simps(2)[of sp sps])
  qed simp
  then show ?thesis by (simp add: plans_of_def)
qed

lemma CreateOrdering_facts:
  assumes "CreateOrdering o1 tids s = Some (order, ord, s')" "opt_random_based o1" "\<forall>t \<in> set tids. t < 5"
  obtains upd where "order_valid tids order" "emitted tids (concat (plans_of order)) upd ord"
    "\<forall>x \<in> set (plans_of order). step_apart upd x"
proof -
  obtain s1 where c: "choose_order o1 tids s = Some (order, s1)" and m: "make_constraints tids init_flags order empty_ordering s1 = Some (ord, s')"
    using assms(1) by (auto simp: CreateOrdering_def bind_eq_Some_conv)
  have v: "order_valid tids order" by (rule choose_order_valid_lemma[OF c assms(2,3)])
  then have d: "distinct (map fst ([] :: plan list) @ node_list order)" by (simp add: order_valid_def)
  from make_constraints_emitted[OF m emitted_Nil d] obtain upd
    where "emitted tids (concat (plans_of order)) upd ord" "\<forall>x \<in> set (plans_of order). step_apart upd x"
    by (auto simp: plans_of_def)
  then show ?thesis using that v by blast
qed

lemma later_same_thread: "n < length tids \<Longrightarrow> m \<in> set (later_nodes tids n) \<Longrightarrow> tids ! m = tids ! n"
proof -
  assume n: "n < length tids" and m: "m \<in> set (later_nodes tids n)"
  have "sb_graph tids ! (tids ! n) = filter (\<lambda>k. tids ! k = tids ! n) [0..<length tids]"
    using sb_graph_nth[OF max_tid_ge[OF nth_mem[OF n]]] .
  moreover have "set (tl (dropWhile P xs)) \<subseteq> set xs" for P and xs :: "nat list"
    by (metis list.set_sel(2) set_dropWhileD subsetI tl_Nil)
  ultimately have "m \<in> set (filter (\<lambda>k. tids ! k = tids ! n) [0..<length tids])"
    using m unfolding later_nodes_def by (metis subsetD)
  then show ?thesis by simp
qed

text \<open>The loop of a node and of an end check, as the invariants need them.\<close>

definition node_of :: "nat list \<Rightarrow> step list \<Rightarrow> (nat \<Rightarrow> mstmt list) \<Rightarrow> nat \<Rightarrow> mstmt list \<Rightarrow> bool" where
  "node_of tids order upd t b \<longleftrightarrow> (\<exists>xs p ys. concat (plans_of order) = xs @ p # ys \<and> tids ! fst p = t \<and>
     b = node_loop (code_of tids xs p (upd (fst p))))"

definition end_of :: "nat list \<Rightarrow> step list \<Rightarrow> nat \<Rightarrow> mstmt list" where
  "end_of tids order t = end_loop (map lock_of (filter (\<lambda>q. tids ! fst q = t) (concat (plans_of order))))"

lemma plan_in_range: "order_valid tids order \<Longrightarrow> p \<in> set (concat (plans_of order)) \<Longrightarrow> fst p < length tids"
  using plans_nodes[of order] unfolding order_valid_def by (metis imageI lessThan_iff list.set_map subsetD)

lemma loops_shape:
  assumes "order_valid tids order" "emitted tids (concat (plans_of order)) upd ord"
    "\<forall>m \<in> set visited. tids ! m = t"
  shows "\<exists>bs. loops_of ord t visited = bs @ (if filter (\<lambda>q. tids ! fst q = t) (concat (plans_of order)) = [] then [] else [end_of tids order t]) \<and>
    (\<forall>b \<in> set bs. node_of tids order upd t b)"
proof -
  let ?bs = "map node_loop (List.map_filter (node_codes ord) visited)"
  have ec: "end_checks ord t = map lock_of (filter (\<lambda>q. tids ! fst q = t) (concat (plans_of order)))"
    using assms(2) unfolding emitted_def by blast
  have mf: "\<exists>m \<in> set visited. node_codes ord m = Some y" if "y \<in> set (List.map_filter (node_codes ord) visited)" for y
    using that by (induction visited) (auto simp: List.map_filter_simps split: option.splits)
  have "node_of tids order upd t b" if b: "b \<in> set ?bs" for b
  proof -
    obtain nc m where m: "m \<in> set visited" "node_codes ord m = Some nc" "b = node_loop nc"
    proof -
      obtain nc where "nc \<in> set (List.map_filter (node_codes ord) visited)" "b = node_loop nc" using b by auto
      then show thesis using mf that by blast
    qed
    then have "m \<in> fst ` set (concat (plans_of order))" using assms(2) unfolding emitted_def by blast
    then obtain p where p: "p \<in> set (concat (plans_of order))" "m = fst p" by blast
    from split_list[OF p(1)] obtain xs ys where x: "concat (plans_of order) = xs @ p # ys" by blast
    then have "node_codes ord (fst p) = Some (code_of tids xs p (upd (fst p)))"
      using assms(2) unfolding emitted_def by blast
    then show ?thesis using m p x assms(3) unfolding node_of_def by auto
  qed
  then show ?thesis using ec by (intro exI[of _ ?bs]) (simp add: loops_of_def end_of_def)
qed

lemma node_of_code_ok:
  assumes "order_valid tids order" "\<forall>x \<in> set (plans_of order). step_apart upd x" "node_of tids order upd t b"
  shows "code_ok (of_thread tids order t) upd b \<and> pend b = None"
proof -
  obtain xs p ys where p: "concat (plans_of order) = xs @ p # ys" "tids ! fst p = t" "b = node_loop (code_of tids xs p (upd (fst p)))"
    using assms(3) unfolding node_of_def by blast
  have "p \<in> set (concat (plans_of order))" using p(1) by simp
  then have "upd_ok (upd (fst p))" using assms(2) by (auto simp: step_apart_def)
  moreover have "of_thread tids order t q" if "q \<in> set xs" "fst p \<in> set (later_nodes tids (fst q))" for q
  proof -
    have q: "q \<in> set (concat (plans_of order))" using p(1) that(1) by simp
    then show ?thesis using later_same_thread[OF plan_in_range[OF assms(1) q] that(2)] p(2) by (simp add: of_thread_def)
  qed
  moreover have "of_thread tids order t p" using p(1,2) by (simp add: of_thread_def)
  ultimately show ?thesis unfolding p(3) by (intro code_ok_node) simp_all
qed

lemma end_of_code_ok: "code_ok (of_thread tids order t) upd (end_of tids order t) \<and> pend (end_of tids order t) = None"
  unfolding end_of_def by (rule code_ok_end) (auto simp: of_thread_def)

lemma start_cut: "flags_zero mem \<Longrightarrow> cut (plans_of order) (cnt_at order) 0 {} mem"
  using rl.nonempty[of 0 order] rl.start by (auto simp: cut_def flags_zero_def)

lemma start_inv:
  assumes "order_valid tids order" "emitted tids (concat (plans_of order)) upd ord"
    "\<forall>x \<in> set (plans_of order). step_apart upd x" "\<forall>t < n. \<forall>m \<in> set (visited t). tids ! m = t" "flags_zero mem"
  shows "group_inv tids order upd 0 {} (mem, start_threads ord visited n)"
proof -
  have "thread_inv tids order upd 0 {} t (next_loop (loops_of ord t (visited t)))" if "t < n" for t
  proof (rule next_loop_inv)
    show "\<forall>b \<in> set (loops_of ord t (visited t)). code_ok (of_thread tids order t) upd b \<and> pend b = None"
      using loops_shape[OF assms(1,2), of "visited t" t] node_of_code_ok[OF assms(1,3), of t] end_of_code_ok[of tids order t upd] assms(4) that
      by (auto split: if_splits)
  qed
  then show ?thesis using start_cut[OF assms(5)] by (simp add: group_inv_def start_threads_def)
qed

section \<open>Totality\<close>

lemma update_bits_total: "fair s \<Longrightarrow> \<exists>upd s1. update_bits bits idx s = Some (upd, s1) \<and> fair s1"
proof (induction bits idx s rule: update_bits.induct)
  case (1 bits idx s)
  show ?case
  proof (cases "bits = 0 \<or> \<not> odd bits")
    case True
    then show ?thesis using 1 by (subst update_bits.simps) auto
  next
    case False
    from rnd_upto_fair[OF "1.prems", of 0 15 None None] obtain y s2
      where y: "rnd_upto 15 None None s = Some (y, s2)" "fair s2" by (auto simp: rejects_def)
    then obtain r s3 where "update_bits (bits div 2) (Suc idx) s2 = Some (r, s3)" "fair s3"
      using False "1.IH"(1)[of "(y, s2)"] by auto
    then show ?thesis using y(1) False by (subst update_bits.simps) auto
  qed
qed

lemma MakeUpdate_total: "fair s \<Longrightarrow> \<exists>upd s1. MakeUpdate s = Some (upd, s1) \<and> fair s1"
proof -
  assume "fair s"
  from rnd_upto_fair[OF this, of 0 1024 None None] obtain bits s2
    where "rnd_upto 1024 None None s = Some (bits, s2)" "fair s2" by (auto simp: rejects_def)
  then show ?thesis using update_bits_total[of s2 bits 4] by (auto simp: MakeUpdate_def)
qed

lemma async_items_total: "fair s \<Longrightarrow> \<exists>upd s1. async_items used is s = Some (upd, s1) \<and> fair s1"
proof (induction "is" arbitrary: s)
  case (Cons i "is")
  from rnd_upto_fair[OF Cons.prems, of 0 16 None None] obtain y s2
    where y: "rnd_upto 16 None None s = Some (y, s2)" "fair s2" by (auto simp: rejects_def)
  then show ?case using Cons.IH[OF y(2)] Cons.IH[OF Cons.prems] by auto
qed simp

lemma make_constraints_total: "fair s \<Longrightarrow> \<exists>ord' s1. make_constraints tids st order ord s = Some (ord', s1) \<and> fair s1"
proof (induction order arbitrary: st ord s)
  case (Cons sp sps)
  obtain ps st' where p: "plan_step st sp = (ps, st')" by force
  obtain u s2 where u: "MakeUpdate s = Some (u, s2)" "fair s2" using MakeUpdate_total[OF Cons.prems] by blast
  show ?case
  proof (cases "tl ps")
    case Nil
    then show ?thesis using Cons.IH[OF u(2)] p u(1) by simp
  next
    case (Cons q qs)
    obtain v s3 where v: "MakeAsynchronousUpdate u s2 = Some (v, s3)" "fair s3"
      using async_items_total[OF u(2)] unfolding MakeAsynchronousUpdate_def by blast
    then show ?thesis using Cons.IH[OF v(2)] p u(1) Cons by simp
  qed
qed simp

lemma sum_filter_length: "(\<Sum>t < k. length (filter (\<lambda>n. f n = t) xs)) \<le> length xs" for f :: "nat \<Rightarrow> nat"
proof (induction xs)
  case (Cons x xs)
  have "(\<Sum>t < k. length (filter (\<lambda>n. f n = t) (x # xs))) =
      (\<Sum>t < k. length (filter (\<lambda>n. f n = t) xs) + (if f x = t then 1 else 0))"
    by (intro sum.cong) auto
  also have "\<dots> = (\<Sum>t < k. length (filter (\<lambda>n. f n = t) xs)) + (\<Sum>t < k. if f x = t then 1 else 0)"
    by (rule sum.distrib)
  also have "(\<Sum>t < k. if f x = t then 1 else 0) \<le> (1 :: nat)" by simp
  finally show ?case using Cons by simp
qed simp

lemma left_over_start: "left_over (sb_graph tids) (replicate (length (sb_graph tids)) 0) \<le> length tids"
proof -
  have "left_over (sb_graph tids) (replicate (length (sb_graph tids)) 0) =
      (\<Sum>t < max_tid tids + 1. length (filter (\<lambda>n. tids ! n = t) [0..<length tids]))"
    unfolding left_over_def by (intro sum.cong) (simp_all add: sb_graph_eq del: upt_Suc replicate_Suc)
  then show ?thesis using sum_filter_length[of "\<lambda>n. tids ! n" "[0..<length tids]" "max_tid tids + 1"] by simp
qed

lemma CreateOrdering_total:
  assumes "fair s" "opt_random_based o1" "\<forall>t \<in> set tids. t < 5" "length tids \<le> 2 ^ 31"
  shows "\<exists>order ord s'. CreateOrdering o1 tids s = Some (order, ord, s')"
proof -
  have "left_over (sb_graph tids) (replicate (length (sb_graph tids)) 0) \<le> 2 ^ 31"
    using left_over_start[of tids] assms(4) by simp
  from order_loop_total[OF assms(1,2) start_its_ok sb_graph_length[OF assms(3)] this, of "[]"]
  obtain order s1 where o: "choose_order o1 tids s = Some (order, s1)" "fair s1" by (auto simp: choose_order_def Let_def)
  then show ?thesis using make_constraints_total[OF o(2), of tids init_flags order empty_ordering] by (auto simp: CreateOrdering_def)
qed

text \<open>A fair generator: it counts through the values.\<close>

definition counting_rng :: rng where
  "counting_rng = (rng_of [])\<lparr>draws := (\<lambda>k. k mod 2 ^ 31)\<rparr>"

lemma counting_rng_fair: "fair counting_rng"
proof -
  have "\<exists>j \<ge> k. j mod 2 ^ 31 = v" if "v < 2 ^ 31" for v k :: nat
  proof (intro exI conjI)
    show "k \<le> v + 2 ^ 31 * k" by simp
    show "(v + 2 ^ 31 * k) mod 2 ^ 31 = v" using that by (metis mod_less mod_mult_self2)
  qed
  then show ?thesis by (simp add: fair_def counting_rng_def)
qed

section \<open>Properties of the order and of the updates\<close>

lemma default_random_based: "opt_random_based (default_settings cgoptions_zero)"
  by (simp add: default_settings_def set_default_builtin_kinds_def)

text \<open>C40: the ordering of the message nodes is total and right. When every value that \<open>lrand48\<close> may return keeps
  coming and there are at most \<open>2 ^ 31\<close> nodes, \<open>CreateOrdering\<close> returns. Every node is in its order at most once, the
  nodes of each thread in the order of their registration, the threads of a step differ from one another and
  from those of the step before, and nodes are left out only when their thread has the last turn.\<close>

theorem CreateOrdering_correct:
  assumes "fair s" "opt_random_based o1" "\<forall>t \<in> set tids. t < 5" "length tids \<le> 2 ^ 31"
  shows "\<exists>order ord s'. CreateOrdering o1 tids s = Some (order, ord, s') \<and>
    distinct (node_list order) \<and> set (node_list order) \<subseteq> {..<length tids} \<and>
    (\<forall>t. \<exists>k. filter (\<lambda>n. tids ! n = t) (node_list order) = take k (filter (\<lambda>n. tids ! n = t) [0..<length tids])) \<and>
    turns tids [] order \<and>
    (\<forall>n < length tids. n \<notin> set (node_list order) \<longrightarrow> tids ! n \<in> set (last_used tids [] order))"
proof -
  obtain order ord s' where c: "CreateOrdering o1 tids s = Some (order, ord, s')"
    using CreateOrdering_total[OF assms] by blast
  then obtain s1 where "choose_order o1 tids s = Some (order, s1)" by (auto simp: CreateOrdering_def bind_eq_Some_conv)
  from choose_order_valid_lemma[OF this assms(2,3)] show ?thesis
    using c unfolding order_valid_def by (intro exI[of _ order] exI[of _ ord] exI[of _ s']) blast
qed

lemma CreateOrdering_correct_witness:
  "\<exists>order ord s'. CreateOrdering (default_settings cgoptions_zero) [0, 1, 0, 2] counting_rng = Some (order, ord, s') \<and>
    distinct (node_list order) \<and> set (node_list order) \<subseteq> {0, 1, 2, 3}"
proof -
  have t: "\<forall>t \<in> set [0, 1, 0, 2 :: nat]. t < 5" by simp
  have l: "length [0, 1, 0, 2 :: nat] \<le> 2 ^ 31" by simp
  from CreateOrdering_correct[OF counting_rng_fair default_random_based t l] obtain order ord s'
    where "CreateOrdering (default_settings cgoptions_zero) [0, 1, 0, 2] counting_rng = Some (order, ord, s')"
      "distinct (node_list order)" "set (node_list order) \<subseteq> {..<length [0, 1, 0, 2 :: nat]}" by blast
  then show ?thesis by (intro exI[of _ order] exI[of _ ord] exI[of _ s'] conjI) (assumption | simp add: lessThan_Suc | auto)+
qed

text \<open>C11: No two threads update the same item of the message at the same time.  Whatever nodes the threads
  visit and however they interleave, when a thread is at an update of an item no other thread is at an
  update of it.\<close>

theorem message_race_free:
  assumes "CreateOrdering o1 tids s = Some (order, ord, s')" "opt_random_based o1" "\<forall>t \<in> set tids. t < 5"
    and "\<forall>t < n. \<forall>m \<in> set (visited t). tids ! m = t" "flags_zero mem"
    and "gsteps wr (mem, start_threads ord visited n) (mem', ts)"
    and "t < length ts" "u < length ts" "t \<noteq> u" "next_item (ts ! t) = Some i"
  shows "next_item (ts ! u) \<noteq> Some i"
proof
  assume nu: "next_item (ts ! u) = Some i"
  obtain upd where f: "order_valid tids order" "emitted tids (concat (plans_of order)) upd ord"
      "\<forall>x \<in> set (plans_of order). step_apart upd x" by (rule CreateOrdering_facts[OF assms(1-3)])
  from group_reach[OF assms(6) start_inv[OF f assms(4,5)]] obtain j E
    where inv: "group_inv tids order upd j E (mem', ts)" by blast
  have item: "\<exists>p. enabled order j E p \<and> tids ! fst p = v \<and> i \<in> GetUpdatedVars (upd (fst p))"
    if v: "v < length ts" "next_item (ts ! v) = Some i" for v
  proof -
    obtain rem body rest k where r: "ts ! v = Running rem body rest" "\<exists>rem'. rem = AddAssign i k # rem' \<or> rem = MulAssign i k # rem'"
      using v(2) by (cases "ts ! v" rule: next_item.cases) auto
    have ti: "thread_inv tids order upd j E v (ts ! v)" using inv v(1) by (simp add: group_inv_def)
    obtain p where p: "of_thread tids order v p" "pend rem = Some (sig p)" "i \<in> GetUpdatedVars (upd (fst p))"
      using ti r by auto
    have "due tids order j E v (sig p)" using ti r(1) p(2) by simp
    then obtain q where q: "enabled order j E q" "tids ! fst q = v" "sig q = sig p" unfolding due_def by blast
    obtain k where k: "k < length (plans_of order)" "p \<in> set (plans_of order ! k)"
      using p(1) by (auto simp: of_thread_def in_set_conv_nth[of _ "plans_of order"])
    have "q = p" using rl.signal_inj[OF _ _ k, of j q] q by (auto simp: enabled_def sig_def)
    then show ?thesis using q p(3) by blast
  qed
  obtain p q where p: "enabled order j E p" "tids ! fst p = t" "i \<in> GetUpdatedVars (upd (fst p))"
      and q: "enabled order j E q" "tids ! fst q = u" "i \<in> GetUpdatedVars (upd (fst q))"
    using item[OF assms(7,10)] item[OF assms(8) nu] by blast
  have "fst p \<noteq> fst q" using p(2) q(2) assms(9) by auto
  then show False using f(3) p(1,3) q(1,3) unfolding step_apart_def enabled_def by (metis IntI empty_iff nth_mem)
qed

text \<open>A schedule picks the thread of every step.\<close>

fun run_schedule :: "(nat \<Rightarrow> int \<Rightarrow> int) \<Rightarrow> nat list \<Rightarrow> memory \<times> thread list \<Rightarrow> memory \<times> thread list" where
  "run_schedule wr [] st = st"
| "run_schedule wr (t # sched) (mem, ts) =
     (if t < length ts \<and> ts ! t \<noteq> Finished
      then let (mem', th) = tstep wr mem (ts ! t) in run_schedule wr sched (mem', ts[t := th])
      else run_schedule wr sched (mem, ts))"

lemma run_schedule_gsteps: "gsteps wr st (run_schedule wr sched st)"
proof (induction wr sched st rule: run_schedule.induct)
  case (2 wr t sched mem ts)
  show ?case
  proof (cases "t < length ts \<and> ts ! t \<noteq> Finished")
    case True
    obtain m th where s: "tstep wr mem (ts ! t) = (m, th)" by force
    have "gstep wr (mem, ts) (m, ts[t := th])" using True s by (intro gstepI) auto
    then show ?thesis using True s "2.IH"(1)[OF True refl, of m th] by (simp add: converse_rtranclp_into_rtranclp)
  qed (use 2 in auto)
qed simp

text \<open>A run of two threads that update the message in the same step.\<close>

lemma rnd_upto_draw: "0 < n \<Longrightarrow> \<not> rejects f (draws s (drawn s) mod n) \<Longrightarrow>
   \<exists>t. rnd_upto n f w s = Some (draws s (drawn s) mod n, t) \<and> draws t = draws s \<and> drawn t = Suc (drawn s)"
  unfolding rnd_upto_def by (subst retry.simps) (simp add: genrand_def Let_def split: option.splits)

definition two_table :: dist_table where
  "two_table = \<lparr>max_prob = 2, dkeys = [0, 1], probs = [1, 1]\<rparr>"

lemma two_table_eq: "tid_table [[0], [1]] [0, 0] [] = two_table"
  by (simp add: tid_table_def two_table_def build_dist_def empty_dist_def add_entry_def)

definition two_rng :: rng where "two_rng = rng_of [0, 5, 1, 1, 6]"

lemma two_step:
  assumes "draws s = draws two_rng" "drawn s = 0" "opt_random_based o1"
  shows "\<exists>s1. order_step o1 [[0], [1]] [0, 0] two_table s = Some ((0, Some 1), [1, 1], [0, 1], s1) \<and> draws s1 = draws two_rng \<and> drawn s1 = 3"
proof -
  let ?f = "vf_add 0 (new_vector_filter (Some two_table) [] True)"
  obtain s1 where s1: "rnd_upto 2 None None s = Some (0, s1)" "draws s1 = draws two_rng" "drawn s1 = 1"
    using rnd_upto_draw[of 2 None s None] assms by (auto simp: rejects_def two_rng_def rng_of_def)
  obtain s2 where s2: "rnd_flipcoin 10 None s1 = Some (True, s2)" "draws s2 = draws two_rng" "drawn s2 = 2"
    using s1 by (auto simp: rnd_flipcoin_def genrand_def Let_def two_rng_def rng_of_def)
  have "\<not> vf_pred o1 ?f 1"
    using assms(3) by (simp add: vf_pred_def vf_filter_def vf_lookup_def vf_add_def new_vector_filter_def valid_filter_def
        rnd_num_to_key_def two_table_def u32_def)
  then obtain s3 where "rnd_upto 2 (Some (vf_pred o1 ?f)) None s2 = Some (1, s3)" "draws s3 = draws two_rng" "drawn s3 = 3"
    using rnd_upto_draw[of 2 "Some (vf_pred o1 ?f)" s2 None] s2 by (auto simp: rejects_def two_rng_def rng_of_def)
  moreover from this have "choose_key o1 ?f s2 = Some (1, s3)"
    using assms(3) by (simp add: choose_key_def get_max_prob_def vf_add_def new_vector_filter_def vf_lookup_def valid_filter_def
        two_table_def get_max_def rnd_num_to_key_def)
  ultimately show ?thesis using s1 s2 assms(3)
    by (simp add: order_step_def lookup_new take_node_def vec_at_less two_table_def get_max_def rnd_num_to_key_def key_to_prob_def)
qed

lemma two_order:
  assumes "opt_random_based o1"
  shows "\<exists>s1. choose_order o1 [0, 1] two_rng = Some ([(0, Some 1)], s1) \<and> draws s1 = draws two_rng \<and> drawn s1 = 3"
proof -
  have sb: "sb_graph [0, 1] = [[0], [1]]" by (simp add: sb_graph_def max_tid_def)
  obtain s1 where s1: "order_step o1 [[0], [1]] [0, 0] two_table two_rng = Some ((0, Some 1), [1, 1], [0, 1], s1)"
      "draws s1 = draws two_rng" "drawn s1 = 3"
    using two_step[OF refl _ assms] by (auto simp: two_rng_def rng_of_def)
  have e: "order_loop o1 [[0], [1]] [1, 1] [0, 1] s1 = Some ([], s1)"
    by (subst order_loop.simps) (simp add: tid_table_def get_max_def)
  have "order_loop o1 [[0], [1]] [0, 0] [] two_rng = Some ([(0, Some 1)], s1)"
    by (subst order_loop.simps) (use s1(1) e in \<open>simp add: two_table_eq[simplified] two_table_def get_max_def\<close>)
  then show ?thesis using s1 by (simp add: choose_order_def sb[simplified] numeral_2_eq_2)
qed

lemma two_update:
  assumes "draws s = draws two_rng" "drawn s = 3"
  shows "\<exists>s1. MakeUpdate s = Some ([AddAssign 4 7, MulAssign 4 7], s1) \<and> draws s1 = draws two_rng \<and> drawn s1 = 5"
proof -
  obtain s1 where s1: "rnd_upto 1024 None None s = Some (1, s1)" "draws s1 = draws two_rng" "drawn s1 = 4"
    using rnd_upto_draw[of 1024 None s None] assms by (auto simp: rejects_def two_rng_def rng_of_def)
  obtain s2 where s2: "rnd_upto 15 None None s1 = Some (6, s2)" "draws s2 = draws two_rng" "drawn s2 = 5"
    using rnd_upto_draw[of 15 None s1 None] s1 by (auto simp: rejects_def two_rng_def rng_of_def)
  then show ?thesis using s1 by (simp add: MakeUpdate_def update_bits.simps[of "Suc 0"] update_bits.simps[of 0])
qed

lemma zero_updates:
  assumes "draws s = draws two_rng" "5 \<le> drawn s" "used = {4}" "\<forall>i \<in> set is. i \<noteq> 4"
  shows "\<exists>s1. async_items used is s = Some (concat (map (\<lambda>i. [AddAssign i 0, MulAssign i 0]) is), s1)"
  using assms
proof (induction "is" arbitrary: s)
  case (Cons i "is")
  obtain s1 where s1: "rnd_upto 16 None None s = Some (0, s1)" "draws s1 = draws two_rng" "drawn s1 = Suc (drawn s)"
    using rnd_upto_draw[of 16 None s None] Cons.prems(1,2) by (auto simp: rejects_def two_rng_def rng_of_def)
  then show ?case using Cons.IH[of s1] Cons.prems by auto
qed simp


definition two_ordering :: ordering where
  "two_ordering = emit_node [0, 1] (1, {(0, 0), (1, 0), (3, 0)}, (3, 1)) (concat (map (\<lambda>i. [AddAssign i 0, MulAssign i 0]) [5..<14]))
     (emit_node [0, 1] (0, {(0, 0), (1, 0), (2, 0)}, (2, 1)) [AddAssign 4 7, MulAssign 4 7] empty_ordering)"

lemma two_plan:
  "fst (plan_step init_flags (0, Some 1)) = [(0, {(0, 0), (1, 0), (2, 0)}, (2, 1)), (1, {(0, 0), (1, 0), (3, 0)}, (3, 1))]"
  by (auto simp: plan_step_two init_flags_def waits_for_def select_constraint_def select_flag_def)

lemma two_CreateOrdering:
  assumes "opt_random_based o1"
  shows "\<exists>s'. CreateOrdering o1 [0, 1] two_rng = Some ([(0, Some 1)], two_ordering, s')"
proof -
  obtain s1 where s1: "choose_order o1 [0, 1] two_rng = Some ([(0, Some 1)], s1)" "draws s1 = draws two_rng" "drawn s1 = 3"
    using two_order[OF assms] by blast
  obtain s2 where s2: "MakeUpdate s1 = Some ([AddAssign 4 7, MulAssign 4 7], s2)" "draws s2 = draws two_rng" "drawn s2 = 5"
    using two_update[OF s1(2,3)] by blast
  obtain s3 where "MakeAsynchronousUpdate [AddAssign 4 7, MulAssign 4 7] s2 =
      Some (concat (map (\<lambda>i. [AddAssign i 0, MulAssign i 0]) [5..<14]), s3)"
  proof -
    have "[4..<14] = 4 # [5..<14]" by (simp add: upt_rec)
    then show ?thesis using that zero_updates[of s2 "{4}" "[5..<14]"] s2 by (auto simp: MakeAsynchronousUpdate_def simp del: upt_rec_numeral)
  qed
  then show ?thesis using s1(1) s2(1)
    by (simp add: CreateOrdering_def two_plan[unfolded One_nat_def] Let_def split_beta two_ordering_def del: upt_rec_numeral)
qed

definition two_state :: "memory \<times> thread list" where
  "two_state = run_schedule (\<lambda>_ k. k) [0, 0, 0, 1, 1, 1] (\<lambda>_. 0, start_threads two_ordering (\<lambda>t. [t]) 2)"

lemma two_state_items: "length (snd two_state) = 2" "next_item (snd two_state ! 0) = Some 4" "next_item (snd two_state ! 1) = Some 5"
  by (simp_all add: two_state_def start_threads_def loops_of_def two_ordering_def emit_node_def node_loop_def MakeWait_def
      empty_ordering_def later_nodes_def sb_graph_def max_tid_def List.map_filter_simps upt_rec all_ge_def all_eq_def)

lemma message_race_free_witness: "next_item (snd two_state ! 1) \<noteq> Some 4"
proof -
  obtain s' where c: "CreateOrdering (default_settings cgoptions_zero) [0, 1] two_rng = Some ([(0, Some 1)], two_ordering, s')"
    using two_CreateOrdering[OF default_random_based] by blast
  have g: "gsteps (\<lambda>_ k. k) (\<lambda>_. 0, start_threads two_ordering (\<lambda>t. [t]) 2) (fst two_state, snd two_state)"
    unfolding two_state_def prod.collapse by (rule run_schedule_gsteps)
  show ?thesis
  proof (rule message_race_free[OF c default_random_based _ _ _ g])
    show "next_item (snd two_state ! 0) = Some 4" by (rule two_state_items(2))
  qed (auto simp: flags_zero_def two_state_items(1) less_2_cases_iff)
qed

end
