(* ===== verification/MessageProgress.thy ===== *)
theory MessageProgress
  imports MessageSteps
begin

text \<open>
  The threads of a work group cannot block one another: from every state they can reach, some schedule
  leads to a state in which every thread is finished and every ordered node has been signalled,
  by its own thread or by an unlock.  A thread is followed alone until it sends the signal whose turn it
  is; the end checks make sure that it does.
\<close>

section \<open>A thread alone\<close>

inductive solo :: "(nat \<Rightarrow> int \<Rightarrow> int) \<Rightarrow> memory \<times> thread \<Rightarrow> memory \<times> thread \<Rightarrow> bool" for wr where
  soloI: "th \<noteq> Finished \<Longrightarrow> tstep wr mem th = st \<Longrightarrow> solo wr (mem, th) st"

abbreviation solos :: "(nat \<Rightarrow> int \<Rightarrow> int) \<Rightarrow> memory \<times> thread \<Rightarrow> memory \<times> thread \<Rightarrow> bool" where
  "solos wr \<equiv> (solo wr)\<^sup>*\<^sup>*"

lemma solos_gsteps:
  assumes "solos wr (mem, th) (mem', th')" "t < length ts" "ts ! t = th"
  shows "gsteps wr (mem, ts) (mem', ts[t := th'])"
  using assms(1)
proof (induction rule: rtranclp_induct2)
  case refl
  then show ?case using assms(2,3) by (metis list_update_id rtranclp.rtrancl_refl)
next
  case (step m1 th1 m2 th2)
  from step(2) have "th1 \<noteq> Finished" "tstep wr m1 th1 = (m2, th2)" by (auto elim: solo.cases)
  then have "gstep wr (m1, ts[t := th1]) (m2, (ts[t := th1])[t := th2])" using assms(2) by (intro gstepI) auto
  then show ?case using step(3) by simp
qed

lemma solos_step: "tstep wr mem (Running rem body rest) = (m, th) \<Longrightarrow> solos wr (m, th) st \<Longrightarrow> solos wr (mem, Running rem body rest) st"
  by (rule converse_rtranclp_into_rtranclp[of "solo wr" _ "(m, th)"]) (auto intro: soloI)

text \<open>The thread has sent the signal of \<open>p\<close>, the other flags unchanged.\<close>

definition signalled :: "nat list \<Rightarrow> step list \<Rightarrow> (nat \<Rightarrow> mstmt list) \<Rightarrow> nat \<Rightarrow> plan set \<Rightarrow> nat \<Rightarrow> memory \<Rightarrow> memory \<Rightarrow> thread \<Rightarrow> bool" where
  "signalled tids order upd i D t mem mem' th \<longleftrightarrow>
     (\<exists>p. enabled order i D p \<and> tids ! fst p = t \<and> (\<forall>f < 4. mem' f = (mem(sig_flag p := sig_val p)) f) \<and>
       (\<forall>j E. thread_inv tids order upd j E t th))"

lemma signalled_cong:
  "\<forall>f < 4. mem1 f = mem f \<Longrightarrow> signalled tids order upd i D t mem1 mem' th \<Longrightarrow> signalled tids order upd i D t mem mem' th"
  unfolding signalled_def by fastforce

lemma cut_cong: "\<forall>f < 4. mem1 f = mem f \<Longrightarrow> cut plans cn i D mem1 = cut plans cn i D mem"
  by (simp add: cut_def)

section \<open>Threads that have not finished\<close>

text \<open>A thread with ordered nodes ends with its end checks, and is not finished before all its nodes are
  passed.\<close>

definition done_node :: "plan \<Rightarrow> memory \<Rightarrow> bool" where
  "done_node p mem \<longleftrightarrow> all_ge (insert (sig p) (plan_checks p)) mem"

definition end_brk :: "nat list \<Rightarrow> step list \<Rightarrow> nat \<Rightarrow> constraints" where
  "end_brk tids order t = (let p = last (filter (\<lambda>q. tids ! fst q = t) (concat (plans_of order))) in insert (sig p) (plan_checks p))"

definition tail_ok :: "nat list \<Rightarrow> step list \<Rightarrow> nat \<Rightarrow> mstmt list \<Rightarrow> bool" where
  "tail_ok tids order t rem \<longleftrightarrow> BreakLoop \<notin> set rem \<and> (\<forall>cs. BreakIfGe cs \<in> set rem \<longrightarrow> cs = end_brk tids order t)"

fun live :: "nat list \<Rightarrow> step list \<Rightarrow> (nat \<Rightarrow> mstmt list) \<Rightarrow> memory \<Rightarrow> nat \<Rightarrow> thread \<Rightarrow> bool" where
  "live tids order upd mem t Finished \<longleftrightarrow> (\<forall>p. of_thread tids order t p \<longrightarrow> done_node p mem)"
| "live tids order upd mem t (Running rem body rest) \<longleftrightarrow> (\<exists>p. of_thread tids order t p) \<and>
     (\<exists>bs. body # rest = bs @ [end_of tids order t] \<and> (\<forall>b \<in> set bs. node_of tids order upd t b)) \<and>
     (rest = [] \<longrightarrow> tail_ok tids order t rem)"

lemma plan_steps_at: "p \<in> set (concat (plans_of order)) \<Longrightarrow> \<exists>j < length (plans_of order). p \<in> set (plans_of order ! j)"
  by (auto simp: in_set_conv_nth[of _ "plans_of order"])

lemma of_thread_at: "of_thread tids order t p \<Longrightarrow> \<exists>j < length (plans_of order). p \<in> set (plans_of order ! j)"
  using plan_steps_at unfolding of_thread_def by blast

lemma done_node_iff:
  assumes "cut (plans_of order) (cnt_at order) i D mem" "j < length (plans_of order)" "p \<in> set (plans_of order ! j)"
  shows "done_node p mem \<longleftrightarrow> j < i \<or> j = i \<and> p \<in> D"
  using rl.passed[OF assms] by (simp add: done_node_def sig_def)

lemma done_node_mono:
  assumes "done_node p mem" "of_thread tids order t p" "\<forall>f < 4. mem f \<le> mem' f"
  shows "done_node p mem'"
proof -
  obtain j where j: "j < length (plans_of order)" "p \<in> set (plans_of order ! j)"
    using of_thread_at[OF assms(2)] by blast
  have "\<forall>(f, v) \<in> insert (sig p) (plan_checks p). f < 4" using rl.signal[OF j] rl.checks[OF j] by (auto simp: sig_def)
  then show ?thesis using assms(1,3) unfolding done_node_def all_ge_def by fastforce
qed

text \<open>Two nodes of one thread are in different steps, in the order of \<open>concat (plans_of order)\<close>.\<close>

lemma turns_distinct: "turns tids last_tids order \<Longrightarrow> i < length order \<Longrightarrow> distinct (step_tids tids (order ! i))"
proof (induction order arbitrary: last_tids i)
  case (Cons sp sps)
  then show ?case by (cases i) auto
qed simp

lemma one_per_step:
  assumes "order_valid tids order" "i < length (plans_of order)" "p \<in> set (plans_of order ! i)" "q \<in> set (plans_of order ! i)"
    "tids ! fst p = tids ! fst q"
  shows "p = q"
proof -
  have i: "i < length order" using assms(2) by (simp add: plans_of_def)
  have "map fst (plans_of order ! i) = node_list [order ! i]"
    using i by (simp add: plans_of_def plan_steps_nth plan_nodes)
  then have "step_tids tids (order ! i) = map (\<lambda>n. tids ! n) (map fst (plans_of order ! i))"
    by (simp only: step_tids_def)
  also have "\<dots> = map (\<lambda>p. tids ! fst p) (plans_of order ! i)" by simp
  finally have "step_tids tids (order ! i) = map (\<lambda>p. tids ! fst p) (plans_of order ! i)" .
  moreover have "distinct (step_tids tids (order ! i))"
    using assms(1) i by (intro turns_distinct[of tids "[]"]) (simp_all add: order_valid_def)
  ultimately have "inj_on (\<lambda>p. tids ! fst p) (set (plans_of order ! i))" by (simp add: distinct_map)
  then show ?thesis using assms(3-5) by (auto dest: inj_onD)
qed

lemma split_unique: "distinct (xs @ q # ys) \<Longrightarrow> xs @ q # ys = us @ q # zs \<Longrightarrow> xs = us"
proof -
  assume d: "distinct (xs @ q # ys)" and e: "xs @ q # ys = us @ q # zs"
  have "q \<notin> set xs" "q \<notin> set ys" using d by simp_all
  then show "xs = us" using append_Cons_eq_iff[of q xs ys us zs] e by blast
qed

lemma before_in_order:
  assumes "order_valid tids order" "concat (plans_of order) = xs @ q # ys" "j < length (plans_of order)" "q \<in> set (plans_of order ! j)"
    "p \<in> set (plans_of order ! i)" "i < j"
  shows "p \<in> set xs"
proof -
  obtain us vs where u: "plans_of order ! j = us @ q # vs" using assms(4) by (meson split_list)
  have "concat (plans_of order) = concat (take j (plans_of order)) @ plans_of order ! j @ concat (drop (Suc j) (plans_of order))"
    by (subst id_take_nth_drop[OF assms(3)]) simp
  then have e: "concat (plans_of order) = (concat (take j (plans_of order)) @ us) @ q # vs @ concat (drop (Suc j) (plans_of order))"
    using u by simp
  have "distinct (map fst (concat (plans_of order)))" using assms(1) by (simp add: plans_nodes order_valid_def)
  then have d: "distinct (concat (plans_of order))" by (simp only: distinct_map)
  have "distinct (xs @ q # ys)" using d unfolding assms(2) .
  moreover have "xs @ q # ys = (concat (take j (plans_of order)) @ us) @ q # vs @ concat (drop (Suc j) (plans_of order))"
    using e unfolding assms(2) .
  ultimately have "xs = concat (take j (plans_of order)) @ us" by (rule split_unique)
  moreover have "i < length (take j (plans_of order))" "take j (plans_of order) ! i = plans_of order ! i" using assms(3,6) by simp_all
  then have "plans_of order ! i \<in> set (take j (plans_of order))" by (metis nth_mem)
  then have "p \<in> set (concat (take j (plans_of order)))" using assms(5) by auto
  ultimately show ?thesis by simp
qed

text \<open>When the last node of a thread is passed, all its nodes are.\<close>

lemma last_done:
  assumes "order_valid tids order" "cut (plans_of order) (cnt_at order) i D mem" "all_ge (end_brk tids order t) mem" "of_thread tids order t p"
  shows "done_node p mem"
proof -
  let ?l = "filter (\<lambda>q. tids ! fst q = t) (concat (plans_of order))"
  define q where "q = last ?l"
  have "p \<in> set ?l" using assms(4) by (simp add: of_thread_def)
  then have ne: "?l \<noteq> []" by (metis empty_iff list.set(1))
  then have "q \<in> set ?l" unfolding q_def by (rule last_in_set)
  then have q: "q \<in> set (concat (plans_of order))" "tids ! fst q = t" by simp_all
  obtain j where j: "j < length (plans_of order)" "q \<in> set (plans_of order ! j)" using plan_steps_at[OF q(1)] by blast
  obtain k where k: "k < length (plans_of order)" "p \<in> set (plans_of order ! k)"
    using of_thread_at[OF assms(4)] by blast
  have dq: "done_node q mem" using assms(3) by (simp add: end_brk_def Let_def done_node_def q_def)
  then have ji: "j < i \<or> j = i \<and> q \<in> D" using done_node_iff[OF assms(2) j] by blast
  have "\<not> j < k"
  proof
    assume jk: "j < k"
    have "p \<in> set (concat (plans_of order))" using assms(4) by (simp add: of_thread_def)
    then obtain xs ys where x: "concat (plans_of order) = xs @ p # ys" by (meson split_list)
    have qx: "q \<in> set xs" by (rule before_in_order[OF assms(1) x k j(2) jk])
    have "distinct (map fst (concat (plans_of order)))" using assms(1) by (simp add: plans_nodes order_valid_def)
    then have d: "distinct (xs @ p # ys)" unfolding x[symmetric] by (simp only: distinct_map)
    have "q = last (filter (\<lambda>q. tids ! fst q = t) xs @ p # filter (\<lambda>q. tids ! fst q = t) ys)"
      using assms(4) by (simp add: q_def x of_thread_def)
    then have "q \<in> set (p # filter (\<lambda>q. tids ! fst q = t) ys)" by (metis last_appendR last_in_set list.distinct(1))
    then show False using qx d by auto
  qed
  then consider "k < j" | "k = j" by linarith
  then show ?thesis
  proof cases
    case 1
    then show ?thesis using done_node_iff[OF assms(2) k] ji by auto
  next
    case 2
    then have "p = q" using one_per_step[OF assms(1) j(1) _ j(2), of p] k(2) q(2) assms(4) by (simp add: of_thread_def)
    then show ?thesis using dq by simp
  qed
qed

text \<open>Every step keeps that.\<close>

lemma live_mono:
  assumes "live tids order upd mem t th" "\<forall>f < 4. mem f \<le> mem' f"
  shows "live tids order upd mem' t th"
  using assms by (cases th) (auto intro: done_node_mono)

lemma end_tail:
  assumes "of_thread tids order t p"
  shows "tail_ok tids order t (end_of tids order t)"
proof -
  let ?qs = "filter (\<lambda>q. tids ! fst q = t) (concat (plans_of order))"
  have "p \<in> set ?qs" using assms by (simp add: of_thread_def)
  then have "?qs \<noteq> []" by (metis empty_iff list.set(1))
  then have "fst (last (map lock_of ?qs)) \<union> set (snd (last (map lock_of ?qs))) = end_brk tids order t"
    by (simp add: last_map end_brk_def Let_def lock_of_def sig_def)
  then show ?thesis by (auto simp: tail_ok_def end_of_def end_loop_def unlock_stmt_def)
qed

lemma live_next_loop:
  assumes "live tids order upd mem t (Running rem body rest)" "rest \<noteq> []"
  shows "live tids order upd mem' t (next_loop rest)"
proof -
  obtain b r where r: "rest = b # r" using assms(2) by (cases rest) auto
  obtain bs where bs: "body # b # r = bs @ [end_of tids order t]" "\<forall>b \<in> set bs. node_of tids order upd t b" "\<exists>p. of_thread tids order t p"
    using assms(1) r by auto
  then obtain bs' where bs': "bs = body # bs'" "b # r = bs' @ [end_of tids order t]" by (cases bs) auto
  obtain p where p: "of_thread tids order t p" using bs(3) by blast
  have "tail_ok tids order t (end_of tids order t)" by (rule end_tail[OF p])
  then have "r = [] \<longrightarrow> tail_ok tids order t b" using bs'(2) by auto
  moreover have "\<exists>bs. b # r = bs @ [end_of tids order t] \<and> (\<forall>b \<in> set bs. node_of tids order upd t b)"
    using bs'(1) bs(2) by (intro exI[of _ bs'] conjI bs'(2)) simp
  ultimately have "live tids order upd mem' t (Running b b r)" using bs(3) by (simp only: live.simps simp_thms)
  then show ?thesis by (simp add: r)
qed

lemma live_step:
  assumes "cut (plans_of order) (cnt_at order) i D mem" "thread_inv tids order upd i D t (Running rem body rest)"
    "live tids order upd mem t (Running rem body rest)" "order_valid tids order" "tstep wr mem (Running rem body rest) = (mem', th)"
  shows "live tids order upd mem' t th"
proof (cases "th = next_loop rest")
  case True
  show ?thesis
  proof (cases "rest = []")
    case False
    then show ?thesis using live_next_loop[OF assms(3) False] True by simp
  next
    case nil: True
    then have th: "th = Finished" and tl: "tail_ok tids order t rem" using True assms(3) by simp_all
    have "all_ge (end_brk tids order t) mem \<and> mem' = mem"
    proof (cases rem)
      case (Cons st rem')
      then show ?thesis using assms(5) th nil tl by (cases st) (auto simp: tail_ok_def split: if_splits)
    qed (use assms(5) th in simp)
    then have "\<forall>p. of_thread tids order t p \<longrightarrow> done_node p mem'" using last_done[OF assms(4,1)] by blast
    then show ?thesis using th by simp
  qed
next
  case False
  then obtain rem' where th: "th = Running rem' body rest"
    "rem' = body \<or> (\<exists>st r. rem = st # r \<and> (rem' = r \<or> (\<exists>cs sts. st = IfEq cs sts \<and> rem' = sts @ r)))"
  proof (cases rem)
    case (Cons st r)
    then show ?thesis using assms(5) False that by (cases st) (auto split: if_splits)
  qed (use assms(5) in auto)
  have "tail_ok tids order t rem'" if nil: "rest = []"
  proof -
    have tl: "tail_ok tids order t rem" and b: "body = end_of tids order t" "\<exists>p. of_thread tids order t p" using assms(3) nil by auto
    have "tail_ok tids order t body" using b end_tail by blast
    moreover have "\<exists>p. sts = [SetFlag (sig_flag p) (sig_val p)]" if "rem = IfEq cs sts # r" for cs sts r
      using assms(2) that by auto
    ultimately show ?thesis using th(2) tl by (auto simp: tail_ok_def)
  qed
  then show ?thesis using th(1) assms(3) by auto
qed

section \<open>Passes through a loop\<close>

text \<open>One pass through the loop ends with a signal, at the start of the loop, or in the next loop.\<close>

lemma finish_pass:
  assumes "cut (plans_of order) (cnt_at order) i D mem" "thread_inv tids order upd i D t (Running rem body rest)"
    "live tids order upd mem t (Running rem body rest)" "order_valid tids order"
  shows "\<exists>mem' th. solos wr (mem, Running rem body rest) (mem', th) \<and>
    ((\<forall>f < 4. mem' f = mem f) \<and> thread_inv tids order upd i D t th \<and> live tids order upd mem' t th \<and> (th = Running body body rest \<or> th = next_loop rest) \<or>
     signalled tids order upd i D t mem mem' th)"
  using assms
proof (induction "size_list size rem" arbitrary: rem mem rule: less_induct)
  case less
  obtain m th where ts: "tstep wr mem (Running rem body rest) = (m, th)" by force
  have one: "solos wr (mem, Running rem body rest) (m, th)" by (rule solos_step[OF ts]) simp
  have lv: "live tids order upd m t th" by (rule live_step[OF less.prems ts])
  from thread_step[OF less.prems(1,2) ts] show ?case
  proof
    assume a: "(\<forall>f < 4. m f = mem f) \<and> thread_inv tids order upd i D t th"
    consider "th = Running body body rest \<or> th = next_loop rest"
      | rem' where "th = Running rem' body rest" "size_list size rem' < size_list size rem"
    proof (cases rem)
      case Nil
      then show ?thesis using ts that(1) by simp
    next
      case (Cons st rem')
      then show ?thesis using ts that by (cases st) (auto split: if_splits)
    qed
    then show ?thesis
    proof cases
      case 1
      then show ?thesis using one a lv by blast
    next
      case 2
      have c: "cut (plans_of order) (cnt_at order) i D m" using less.prems(1) cut_cong a by blast
      from less.hyps[OF 2(2) c _ _ less.prems(4)] a lv 2(1) obtain mem' th' where r: "solos wr (m, th) (mem', th')"
        "(\<forall>f < 4. mem' f = m f) \<and> thread_inv tids order upd i D t th' \<and> live tids order upd mem' t th' \<and> (th' = Running body body rest \<or> th' = next_loop rest) \<or>
         signalled tids order upd i D t m mem' th'" by blast
      then show ?thesis using solos_step[OF ts r(1)] a signalled_cong[of m mem] by (intro exI[of _ mem'] exI[of _ th']) auto
    qed
  next
    assume "\<exists>p. enabled order i D p \<and> tids ! fst p = t \<and> m = mem(sig_flag p := sig_val p) \<and> (\<forall>j E. thread_inv tids order upd j E t th)"
    then have "signalled tids order upd i D t mem m th" by (auto simp: signalled_def)
    then show ?thesis using one by blast
  qed
qed

text \<open>With a signal pending, the pass ends with it.\<close>

lemma pending_signal:
  assumes "cut (plans_of order) (cnt_at order) i D mem" "thread_inv tids order upd i D t (Running rem body rest)" "pend rem \<noteq> None"
  shows "\<exists>mem' th. solos wr (mem, Running rem body rest) (mem', th) \<and> signalled tids order upd i D t mem mem' th"
  using assms
proof (induction rem arbitrary: mem)
  case (Cons st rem)
  obtain m th where ts: "tstep wr mem (Running (st # rem) body rest) = (m, th)" by force
  have one: "solos wr (mem, Running (st # rem) body rest) (m, th)" by (rule solos_step[OF ts]) simp
  from thread_step[OF Cons.prems(1,2) ts] show ?case
  proof
    assume a: "(\<forall>f < 4. m f = mem f) \<and> thread_inv tids order upd i D t th"
    have th: "th = Running rem body rest \<and> pend rem \<noteq> None \<or> (\<exists>f v. st = SetFlag f v)"
      using Cons.prems(3) ts by (cases st) auto
    have c: "cut (plans_of order) (cnt_at order) i D m" using Cons.prems(1) cut_cong a by blast
    show ?thesis
    proof (cases "\<exists>f v. st = SetFlag f v")
      case False
      then have n: "th = Running rem body rest" "pend rem \<noteq> None" using th by auto
      obtain mem' th' where "solos wr (m, th) (mem', th')" "signalled tids order upd i D t m mem' th'"
        using Cons.IH[OF c _ n(2)] a n(1) by blast
      then show ?thesis using solos_step[OF ts] signalled_cong[of m mem] a by blast
    next
      case True
      then obtain f v where st: "st = SetFlag f v" by blast
      have "due tids order i D t (f, v)" "pend rem = None" using Cons.prems(2) st by auto
      then obtain p where p: "enabled order i D p" "tids ! fst p = t" "sig p = (f, v)" unfolding due_def by blast
      have m: "m = mem(f := v)" "th = Running rem body rest" using ts st by auto
      then have "\<forall>j E. thread_inv tids order upd j E t th" using Cons.prems(2) st \<open>pend rem = None\<close> by auto
      then have "signalled tids order upd i D t mem m th" using p m(1) unfolding signalled_def sig_def by auto
      then show ?thesis using one by blast
    qed
  next
    assume "\<exists>p. enabled order i D p \<and> tids ! fst p = t \<and> m = mem(sig_flag p := sig_val p) \<and> (\<forall>j E. thread_inv tids order upd j E t th)"
    then have "signalled tids order upd i D t mem m th" by (auto simp: signalled_def)
    then show ?thesis using one by blast
  qed
qed simp

text \<open>The unlocks of a loop: the thread signals if one of the nodes has its turn, and goes on otherwise.\<close>

lemma unlocks_pass:
  assumes "cut (plans_of order) (cnt_at order) i D mem"
    "thread_inv tids order upd i D t (Running (map unlock_stmt (map lock_of qs) @ r) body rest)" "pend r = None"
    "\<forall>q \<in> set qs. of_thread tids order t q"
  shows "if \<exists>q \<in> set qs. enabled order i D q
    then \<exists>mem' th. solos wr (mem, Running (map unlock_stmt (map lock_of qs) @ r) body rest) (mem', th) \<and> signalled tids order upd i D t mem mem' th
    else solos wr (mem, Running (map unlock_stmt (map lock_of qs) @ r) body rest) (mem, Running r body rest)"
  using assms
proof (induction qs)
  case (Cons q qs)
  let ?r = "map unlock_stmt (map lock_of qs) @ r"
  have turn: "all_eq (plan_checks q) mem \<longleftrightarrow> enabled order i D q" using of_thread_turn[OF Cons.prems(1), of tids t q] Cons.prems(4) by simp
  have ok: "code_ok (of_thread tids order t) upd ?r" "pend ?r = None"
    using Cons.prems(2) by (simp_all add: unlock_lock_of)
  show ?case
  proof (cases "enabled order i D q")
    case True
    have ts: "tstep wr mem (Running (map unlock_stmt (map lock_of (q # qs)) @ r) body rest) =
        (mem, Running (SetFlag (sig_flag q) (sig_val q) # ?r) body rest)"
      using turn True by (simp add: unlock_lock_of)
    have "tids ! fst q = t" using Cons.prems(4) by (simp add: of_thread_def)
    then have "due tids order i D t (sig_flag q, sig_val q)" using dueI[OF True, of tids t] by (simp add: sig_def)
    then have "thread_inv tids order upd i D t (Running (SetFlag (sig_flag q) (sig_val q) # ?r) body rest)"
      using Cons.prems(2) ok by simp
    from pending_signal[OF Cons.prems(1) this, of wr] obtain mem' th
      where "solos wr (mem, Running (SetFlag (sig_flag q) (sig_val q) # ?r) body rest) (mem', th)" "signalled tids order upd i D t mem mem' th"
      by auto
    then show ?thesis using solos_step[OF ts] True by auto
  next
    case False
    have ts: "tstep wr mem (Running (map unlock_stmt (map lock_of (q # qs)) @ r) body rest) = (mem, Running ?r body rest)"
      using turn False by (simp add: unlock_lock_of)
    have "thread_inv tids order upd i D t (Running ?r body rest)" using Cons.prems(2) ok by simp
    from Cons.IH[OF Cons.prems(1) this Cons.prems(3)] Cons.prems(4) solos_step[OF ts] False show ?thesis by (auto split: if_splits)
  qed
qed simp

lemma code_ok_suffix: "code_ok P upd (xs @ ys) \<Longrightarrow> code_ok P upd ys"
proof (induction xs)
  case (Cons st xs)
  then show ?case by (cases st) auto
qed simp

lemma node_body:
  "node_loop (code_of tids xs q upd) = MemFence # BreakIfGe (insert (sig q) (plan_checks q)) #
     map unlock_stmt (map lock_of (filter (\<lambda>p. fst q \<in> set (later_nodes tids (fst p))) xs)) @ ContinueUnlessEq (plan_checks q) # upd @ MakeSignal [sig q]"
  by (simp add: node_loop_def code_of_def MakeWait_def sig_def)

text \<open>A passed node is left at once.\<close>

lemma node_pass_done:
  assumes "done_node q mem" "b = node_loop (code_of tids xs q u)"
  shows "solos wr (mem, Running b b rest) (mem, next_loop rest)"
proof -
  have 1: "tstep wr mem (Running b b rest) = (mem, Running (tl b) b rest)" by (simp add: assms(2) node_body)
  have 2: "tstep wr mem (Running (tl b) b rest) = (mem, next_loop rest)"
    using assms(1) by (simp add: assms(2) node_body done_node_def)
  show ?thesis by (rule solos_step[OF 1], rule solos_step[OF 2]) simp
qed

text \<open>At a node that is not passed, a thread with a node whose turn it is signals.\<close>

lemma node_pass_signal:
  assumes "cut (plans_of order) (cnt_at order) i D mem" "thread_inv tids order upd i D t (Running b b rest)"
    "order_valid tids order" "concat (plans_of order) = xs @ q # ys" "tids ! fst q = t" "b = node_loop (code_of tids xs q (upd (fst q)))"
    "\<not> done_node q mem" "enabled order i D p" "tids ! fst p = t"
  shows "\<exists>mem' th. solos wr (mem, Running b b rest) (mem', th) \<and> signalled tids order upd i D t mem mem' th"
proof -
  let ?qs = "filter (\<lambda>p. fst q \<in> set (later_nodes tids (fst p))) xs"
  let ?r = "ContinueUnlessEq (plan_checks q) # upd (fst q) @ MakeSignal [sig q]"
  let ?m = "map unlock_stmt (map lock_of ?qs) @ ?r"
  have b: "b = MemFence # BreakIfGe (insert (sig q) (plan_checks q)) # ?m" using assms(6) node_body by simp
  have 1: "tstep wr mem (Running b b rest) = (mem, Running (tl b) b rest)" by (simp add: b)
  have 2: "tstep wr mem (Running (tl b) b rest) = (mem, Running ?m b rest)"
    using assms(7) by (simp add: b done_node_def)
  have bo: "code_ok (of_thread tids order t) upd b" "pend b = None" using assms(2) by simp_all
  have inv: "thread_inv tids order upd i D t (Running ?m b rest)"
    using assms(2) bo b by simp
  have qt: "of_thread tids order t q" using assms(4,5) by (simp add: of_thread_def)
  obtain j where j: "j < length (plans_of order)" "q \<in> set (plans_of order ! j)" using of_thread_at[OF qt] by blast
  have ms: "\<forall>p \<in> set ?qs. of_thread tids order t p"
  proof
    fix p'
    assume p': "p' \<in> set ?qs"
    then have c: "p' \<in> set (concat (plans_of order))" using assms(4) by simp
    then have "tids ! fst q = tids ! fst p'" using later_same_thread[OF plan_in_range[OF assms(3) c]] p' by simp
    then show "of_thread tids order t p'" using c assms(5) by (simp add: of_thread_def)
  qed
  have pi: "i < length (plans_of order)" "p \<in> set (plans_of order ! i)" using assms(8) by (simp_all add: enabled_def)
  have "enabled order i D q \<or> (\<exists>p \<in> set ?qs. enabled order i D p)"
  proof (cases "j = i")
    case True
    then show ?thesis using done_node_iff[OF assms(1) j] assms(7) j by (auto simp: enabled_def)
  next
    case False
    then have ij: "i < j" using done_node_iff[OF assms(1) j] assms(7) by auto
    have px: "p \<in> set xs" by (rule before_in_order[OF assms(3,4) j pi(2) ij])
    have "node_list order = map fst xs @ fst q # map fst ys" using plans_nodes[of order] assms(4) by simp
    from order_valid_later[OF assms(3) this, of "fst p"] have "fst q \<in> set (later_nodes tids (fst p))"
      using px assms(5,9) by simp
    then show ?thesis using px assms(8) by auto
  qed
  moreover have "\<exists>mem' th. solos wr (mem, Running ?m b rest) (mem', th) \<and> signalled tids order upd i D t mem mem' th"
    if en: "enabled order i D q" "\<not> (\<exists>p \<in> set ?qs. enabled order i D p)"
  proof -
    have 3: "solos wr (mem, Running ?m b rest) (mem, Running ?r b rest)"
      using unlocks_pass[OF assms(1) inv _ ms] en(2) by (simp only: if_False pend.simps simp_thms)
    have 4: "tstep wr mem (Running ?r b rest) = (mem, Running (upd (fst q) @ MakeSignal [sig q]) b rest)"
      using of_thread_turn[OF assms(1) qt] en(1) by simp
    have "b = (MemFence # BreakIfGe (insert (sig q) (plan_checks q)) # map unlock_stmt (map lock_of ?qs)) @ ?r" using b by simp
    then have rc: "code_ok (of_thread tids order t) upd ?r" using bo(1) code_ok_suffix by metis
    then obtain q' where q': "of_thread tids order t q'" "pend (upd (fst q) @ MakeSignal [sig q]) = Some (sig q')" "plan_checks q = plan_checks q'"
      by auto
    have "enabled order i D q'" using of_thread_turn[OF assms(1) q'(1)] of_thread_turn[OF assms(1) qt] en(1) q'(3) by simp
    then have "due tids order i D t (sig q')" using dueI q'(1) by (auto simp: of_thread_def)
    then have "thread_inv tids order upd i D t (Running (upd (fst q) @ MakeSignal [sig q]) b rest)"
      using assms(2) rc q'(2) by simp
    from pending_signal[OF assms(1) this, of wr] q'(2) obtain mem' th
      where "solos wr (mem, Running (upd (fst q) @ MakeSignal [sig q]) b rest) (mem', th)" "signalled tids order upd i D t mem mem' th" by auto
    then show ?thesis using rtranclp_trans[OF 3 solos_step[OF 4]] by blast
  qed
  moreover have "\<exists>mem' th. solos wr (mem, Running ?m b rest) (mem', th) \<and> signalled tids order upd i D t mem mem' th"
    if "\<exists>p \<in> set ?qs. enabled order i D p"
    using unlocks_pass[OF assms(1) inv _ ms, of wr] that by (simp only: if_True pend.simps simp_thms)
  ultimately obtain mem' th where "solos wr (mem, Running ?m b rest) (mem', th)" "signalled tids order upd i D t mem mem' th" by blast
  then show ?thesis using solos_step[OF 1 solos_step[OF 2]] by blast
qed

text \<open>The end checks.\<close>

lemma end_body:
  assumes "of_thread tids order t p"
  shows "end_of tids order t = MemFence # map unlock_stmt (map lock_of (filter (\<lambda>q. tids ! fst q = t) (concat (plans_of order)))) @
    [MemFence, BreakIfGe (end_brk tids order t)]"
proof -
  let ?qs = "filter (\<lambda>q. tids ! fst q = t) (concat (plans_of order))"
  have "p \<in> set ?qs" using assms by (simp add: of_thread_def)
  then have "?qs \<noteq> []" by (metis empty_iff list.set(1))
  then have "fst (last (map lock_of ?qs)) \<union> set (snd (last (map lock_of ?qs))) = end_brk tids order t"
    by (simp add: last_map end_brk_def Let_def lock_of_def sig_def)
  then show ?thesis by (simp add: end_of_def end_loop_def)
qed

lemma end_unlocks:
  assumes "cut (plans_of order) (cnt_at order) i D mem" "thread_inv tids order upd i D t (Running b b rest)"
    "b = end_of tids order t" "of_thread tids order t q"
  shows "if \<exists>p. of_thread tids order t p \<and> enabled order i D p
    then \<exists>mem' th. solos wr (mem, Running b b rest) (mem', th) \<and> signalled tids order upd i D t mem mem' th
    else solos wr (mem, Running b b rest) (mem, Running [MemFence, BreakIfGe (end_brk tids order t)] b rest)"
proof -
  let ?qs = "filter (\<lambda>q. tids ! fst q = t) (concat (plans_of order))"
  let ?m = "map unlock_stmt (map lock_of ?qs) @ [MemFence, BreakIfGe (end_brk tids order t)]"
  have b: "b = MemFence # ?m" unfolding assms(3) by (rule end_body[OF assms(4)])
  have 1: "tstep wr mem (Running b b rest) = (mem, Running ?m b rest)" by (subst b) simp
  have inv: "thread_inv tids order upd i D t (Running ?m b rest)" using assms(2) b by simp
  have ms: "\<forall>q \<in> set ?qs. of_thread tids order t q" by (auto simp: of_thread_def)
  have en: "(\<exists>q \<in> set ?qs. enabled order i D q) \<longleftrightarrow> (\<exists>p. of_thread tids order t p \<and> enabled order i D p)"
    by (auto simp: of_thread_def)
  have u: "if \<exists>p. of_thread tids order t p \<and> enabled order i D p
    then \<exists>mem' th. solos wr (mem, Running ?m b rest) (mem', th) \<and> signalled tids order upd i D t mem mem' th
    else solos wr (mem, Running ?m b rest) (mem, Running [MemFence, BreakIfGe (end_brk tids order t)] b rest)"
    using unlocks_pass[OF assms(1) inv _ ms, of wr] unfolding en by simp
  show ?thesis
  proof (cases "\<exists>p. of_thread tids order t p \<and> enabled order i D p")
    case True
    then show ?thesis using u solos_step[OF 1] by (simp only: if_True) blast
  next
    case False
    then show ?thesis using u solos_step[OF 1] by (simp only: if_False)
  qed
qed

lemma end_pass_done:
  assumes "cut (plans_of order) (cnt_at order) i D mem" "thread_inv tids order upd i D t (Running b b rest)"
    "b = end_of tids order t" "of_thread tids order t q" "\<forall>p. of_thread tids order t p \<longrightarrow> done_node p mem"
  shows "solos wr (mem, Running b b rest) (mem, next_loop rest)"
proof -
  have "\<not> enabled order i D p" if "of_thread tids order t p" for p
  proof
    assume en: "enabled order i D p"
    then show False using done_node_iff[OF assms(1), of i p] assms(5) that by (auto simp: enabled_def)
  qed
  then have 1: "solos wr (mem, Running b b rest) (mem, Running [MemFence, BreakIfGe (end_brk tids order t)] b rest)"
    using end_unlocks[OF assms(1-4), of wr] by (simp split: if_splits)
  have "all_ge (end_brk tids order t) mem"
  proof -
    let ?l = "filter (\<lambda>q. tids ! fst q = t) (concat (plans_of order))"
    have "q \<in> set ?l" using assms(4) by (simp add: of_thread_def)
    then have "?l \<noteq> []" by (metis empty_iff list.set(1))
    then have "last ?l \<in> set ?l" by (rule last_in_set)
    then have "of_thread tids order t (last ?l)" by (simp add: of_thread_def)
    then show ?thesis using assms(5) by (simp add: end_brk_def Let_def done_node_def)
  qed
  then have 3: "tstep wr mem (Running [BreakIfGe (end_brk tids order t)] b rest) = (mem, next_loop rest)" by simp
  have 2: "tstep wr mem (Running [MemFence, BreakIfGe (end_brk tids order t)] b rest) = (mem, Running [BreakIfGe (end_brk tids order t)] b rest)"
    by simp
  show ?thesis by (rule rtranclp_trans[OF 1], rule solos_step[OF 2], rule solos_step[OF 3]) simp
qed

section \<open>Progress of a thread\<close>

text \<open>The loop a thread is about to start is one of its nodes or its end checks, as \<open>live\<close> says.\<close>

lemma live_cases:
  assumes "live tids order upd mem t (Running rem body rest)"
  obtains "rest = []" "body = end_of tids order t" | b r where "rest = b # r" "node_of tids order upd t body"
proof -
  obtain bs where bs: "body # rest = bs @ [end_of tids order t]" "\<forall>b \<in> set bs. node_of tids order upd t b"
    using assms by auto
  show ?thesis
  proof (cases bs)
    case Nil
    then show ?thesis using bs that(1) by simp
  next
    case (Cons b cs)
    then have "rest = cs @ [end_of tids order t]" "body = b" "node_of tids order upd t b" using bs by auto
    then show ?thesis using that(2)[of "hd rest" "tl rest"] by simp
  qed
qed

text \<open>A thread with a node whose turn it is signals.\<close>

lemma thread_progress:
  assumes "cut (plans_of order) (cnt_at order) i D mem" "thread_inv tids order upd i D t (Running rem body rest)"
    "live tids order upd mem t (Running rem body rest)" "order_valid tids order" "enabled order i D p" "of_thread tids order t p"
  shows "\<exists>mem' th. solos wr (mem, Running rem body rest) (mem', th) \<and> signalled tids order upd i D t mem mem' th"
  using assms(1-3)
proof (induction rest arbitrary: rem body mem)
  case Nil
  from finish_pass[OF Nil assms(4), of wr] obtain mem1 th1 where r: "solos wr (mem, Running rem body []) (mem1, th1)"
    "(\<forall>f < 4. mem1 f = mem f) \<and> thread_inv tids order upd i D t th1 \<and> live tids order upd mem1 t th1 \<and> (th1 = Running body body [] \<or> th1 = next_loop []) \<or>
     signalled tids order upd i D t mem mem1 th1" by blast
  have body: "body = end_of tids order t" using Nil.prems(3) by (rule live_cases) auto
  from r(2) consider "signalled tids order upd i D t mem mem1 th1"
    | "\<forall>f < 4. mem1 f = mem f" "thread_inv tids order upd i D t th1" "live tids order upd mem1 t th1" "th1 = Running body body [] \<or> th1 = Finished"
    by auto
  then show ?case
  proof cases
    case 1
    then show ?thesis using r(1) by blast
  next
    case 2
    have c: "cut (plans_of order) (cnt_at order) i D mem1" using Nil.prems(1) cut_cong 2(1) by blast
    have "th1 \<noteq> Finished"
    proof
      assume "th1 = Finished"
      then have "done_node p mem1" using 2(3) assms(6) by simp
      then show False using done_node_iff[OF c, of i p] assms(5) by (auto simp: enabled_def)
    qed
    then have th: "th1 = Running body body []" using 2(4) by blast
    have ti: "thread_inv tids order upd i D t (Running body body [])" using 2(2) th by simp
    obtain mem2 th2 where "solos wr (mem1, Running body body []) (mem2, th2)" "signalled tids order upd i D t mem1 mem2 th2"
    proof -
      have "\<exists>p. of_thread tids order t p \<and> enabled order i D p" using assms(5,6) by blast
      then have "\<exists>mem' th. solos wr (mem1, Running body body []) (mem', th) \<and> signalled tids order upd i D t mem1 mem' th"
        using end_unlocks[OF c ti body assms(6), of wr] by (simp only: if_True)
      then show thesis using that by blast
    qed
    then show ?thesis using rtranclp_trans[OF r(1)] th signalled_cong[OF 2(1)] by blast
  qed
next
  case (Cons b rest)
  from finish_pass[OF Cons.prems assms(4), of wr] obtain mem1 th1 where r: "solos wr (mem, Running rem body (b # rest)) (mem1, th1)"
    "(\<forall>f < 4. mem1 f = mem f) \<and> thread_inv tids order upd i D t th1 \<and> live tids order upd mem1 t th1 \<and>
       (th1 = Running body body (b # rest) \<or> th1 = next_loop (b # rest)) \<or>
     signalled tids order upd i D t mem mem1 th1" by blast
  have "node_of tids order upd t body" using Cons.prems(3) by (rule live_cases) auto
  then obtain xs q ys where q: "concat (plans_of order) = xs @ q # ys" "tids ! fst q = t" "body = node_loop (code_of tids xs q (upd (fst q)))"
    unfolding node_of_def by blast
  have onward: ?case if n: "solos wr (mem, Running rem body (b # rest)) (m, Running b b rest)" "\<forall>f < 4. m f = mem f"
      "thread_inv tids order upd i D t (Running b b rest)" "live tids order upd m t (Running b b rest)" for m
  proof -
    have c: "cut (plans_of order) (cnt_at order) i D m" using Cons.prems(1) cut_cong n(2) by blast
    from Cons.IH[OF c n(3,4)] show ?thesis using rtranclp_trans[OF n(1)] signalled_cong[OF n(2)] by blast
  qed
  from r(2) consider "signalled tids order upd i D t mem mem1 th1"
    | "\<forall>f < 4. mem1 f = mem f" "thread_inv tids order upd i D t th1" "live tids order upd mem1 t th1" "th1 = Running b b rest"
    | "\<forall>f < 4. mem1 f = mem f" "thread_inv tids order upd i D t th1" "live tids order upd mem1 t th1" "th1 = Running body body (b # rest)"
    by auto
  then show ?case
  proof cases
    case 1
    then show ?thesis using r(1) by blast
  next
    case 2
    then show ?thesis using onward[of mem1] r(1) by simp
  next
    case 3
    have c: "cut (plans_of order) (cnt_at order) i D mem1" using Cons.prems(1) cut_cong 3(1) by blast
    have ti: "thread_inv tids order upd i D t (Running body body (b # rest))" using 3 by simp
    show ?thesis
    proof (cases "done_node q mem1")
      case True
      have s: "solos wr (mem1, Running body body (b # rest)) (mem1, Running b b rest)"
        using node_pass_done[OF True q(3), of wr "b # rest"] by simp
      have "live tids order upd mem1 t (Running b b rest)" using live_next_loop[of tids order upd mem1 t body body "b # rest" mem1] 3 by simp
      moreover have "thread_inv tids order upd i D t (Running b b rest)" using ti by simp
      ultimately show ?thesis using onward[of mem1] rtranclp_trans[OF r(1)] s 3(1,4) by blast
    next
      case False
      have "tids ! fst p = t" using assms(6) by (simp add: of_thread_def)
      from node_pass_signal[OF c ti assms(4) q False assms(5) this, of wr]
      show ?thesis using rtranclp_trans[OF r(1)] 3(4) signalled_cong[OF 3(1)] by blast
    qed
  qed
qed

text \<open>When every node is done, a thread runs to its end.\<close>

lemma thread_finish:
  assumes "cut (plans_of order) (cnt_at order) i D mem" "thread_inv tids order upd i D t (Running rem body rest)"
    "live tids order upd mem t (Running rem body rest)" "order_valid tids order" "\<And>p. \<not> enabled order i D p"
    "\<And>p m. of_thread tids order t p \<Longrightarrow> cut (plans_of order) (cnt_at order) i D m \<Longrightarrow> done_node p m"
  shows "\<exists>mem'. solos wr (mem, Running rem body rest) (mem', Finished) \<and> (\<forall>f < 4. mem' f = mem f)"
  using assms(1-3)
proof (induction rest arbitrary: rem body mem)
  case Nil
  from finish_pass[OF Nil assms(4), of wr] obtain mem1 th1 where r: "solos wr (mem, Running rem body []) (mem1, th1)"
    "\<forall>f < 4. mem1 f = mem f" "thread_inv tids order upd i D t th1" "th1 = Running body body [] \<or> th1 = Finished"
    using assms(5) by (auto simp: signalled_def)
  have body: "body = end_of tids order t" using Nil.prems(3) by (rule live_cases) auto
  show ?case
  proof (cases "th1 = Finished")
    case False
    then have th: "th1 = Running body body []" using r(4) by blast
    have c: "cut (plans_of order) (cnt_at order) i D mem1" using Nil.prems(1) cut_cong r(2) by blast
    obtain p where p: "of_thread tids order t p" using Nil.prems(3) by auto
    have ti: "thread_inv tids order upd i D t (Running body body [])" using r(3) th by simp
    have "solos wr (mem1, Running body body []) (mem1, Finished)"
      using end_pass_done[OF c ti body p, of wr] assms(6)[OF _ c] by simp
    then show ?thesis using rtranclp_trans[OF r(1)] th r(2) by blast
  qed (use r in blast)
next
  case (Cons b rest)
  from finish_pass[OF Cons.prems assms(4), of wr] obtain mem1 th1 where r: "solos wr (mem, Running rem body (b # rest)) (mem1, th1)"
    "\<forall>f < 4. mem1 f = mem f" "thread_inv tids order upd i D t th1" "live tids order upd mem1 t th1"
    "th1 = Running body body (b # rest) \<or> th1 = Running b b rest"
    using assms(5) by (auto simp: signalled_def)
  have "node_of tids order upd t body" using Cons.prems(3) by (rule live_cases) auto
  then obtain xs q ys where q: "concat (plans_of order) = xs @ q # ys" "tids ! fst q = t" "body = node_loop (code_of tids xs q (upd (fst q)))"
    unfolding node_of_def by blast
  have c: "cut (plans_of order) (cnt_at order) i D mem1" using Cons.prems(1) cut_cong r(2) by blast
  have "solos wr (mem, Running rem body (b # rest)) (mem1, Running b b rest) \<and> thread_inv tids order upd i D t (Running b b rest) \<and>
      live tids order upd mem1 t (Running b b rest)"
  proof (cases "th1 = Running b b rest")
    case False
    then have th: "th1 = Running body body (b # rest)" using r(5) by blast
    have "of_thread tids order t q" using q(1,2) by (simp add: of_thread_def)
    then have "solos wr (mem1, Running body body (b # rest)) (mem1, Running b b rest)"
      using node_pass_done[OF assms(6)[OF _ c] q(3), of wr "b # rest"] by simp
    moreover have "live tids order upd mem1 t (Running b b rest)"
      using live_next_loop[of tids order upd mem1 t body body "b # rest" mem1] r(4) th by simp
    ultimately show ?thesis using rtranclp_trans[OF r(1)] th r(3) by simp
  qed (use r in simp)
  then obtain mem2 where "solos wr (mem1, Running b b rest) (mem2, Finished)" "\<forall>f < 4. mem2 f = mem1 f"
    and "solos wr (mem, Running rem body (b # rest)) (mem1, Running b b rest)"
    using Cons.IH[OF c] by blast
  moreover from this have "\<forall>f < 4. mem2 f = mem f" using r(2) by simp
  ultimately show ?case using rtranclp_trans[of "solo wr"] by blast
qed

section \<open>Progress of the group\<close>

definition group_live :: "nat list \<Rightarrow> step list \<Rightarrow> (nat \<Rightarrow> mstmt list) \<Rightarrow> memory \<times> thread list \<Rightarrow> bool" where
  "group_live tids order upd st \<longleftrightarrow> (\<forall>t < length (snd st). live tids order upd (fst st) t (snd st ! t))"

lemma group_live_step:
  assumes "group_inv tids order upd i D st" "group_live tids order upd st" "order_valid tids order" "gstep wr st st'"
  shows "group_live tids order upd st'"
  using assms(4)
proof cases
  case (gstepI t ts mem mem' th)
  obtain rem body rest where r: "ts ! t = Running rem body rest" using gstepI(4) by (cases "ts ! t") auto
  have cut: "cut (plans_of order) (cnt_at order) i D mem" using assms(1) gstepI(1) by (simp add: group_inv_def)
  have inv: "thread_inv tids order upd i D t (Running rem body rest)" using assms(1) gstepI(1,3) r by (metis fst_conv group_inv_def snd_conv)
  have lv: "live tids order upd mem t (Running rem body rest)" using assms(2) gstepI(1,3) r by (metis fst_conv group_live_def snd_conv)
  have ts: "tstep wr mem (Running rem body rest) = (mem', th)" using gstepI(5) r by simp
  have "\<forall>f < 4. mem f \<le> mem' f"
  proof -
    have "mem f \<le> (mem(sig_flag p := sig_val p)) f" if "enabled order i D p" "f < 4" for p f
    proof -
      have p: "i < length (plans_of order)" "p \<in> set (plans_of order ! i)" "p \<notin> D" using that(1) by (simp_all add: enabled_def)
      have "\<not> (\<exists>q \<in> D. sig_flag q = sig_flag p)" using rl.same_flag[OF p(1) _ p(2)] rl.cut_part[OF cut p(1)] p(3) by blast
      then show ?thesis using rl.signal[OF p(1,2)] cut by (auto simp: cut_def)
    qed
    then show ?thesis using thread_step[OF cut inv ts] by auto
  qed
  then have "live tids order upd mem' u (ts[t := th] ! u)" if "u < length ts" for u
    using live_step[OF cut inv lv assms(3) ts] assms(2) gstepI(1,3) that live_mono
    by (cases "u = t") (auto simp: group_live_def)
  then show ?thesis using gstepI(2) by (simp add: group_live_def)
qed

lemma group_reach_live:
  assumes "gsteps wr st st'" "\<exists>i D. group_inv tids order upd i D st" "group_live tids order upd st" "order_valid tids order"
  shows "(\<exists>i D. group_inv tids order upd i D st') \<and> group_live tids order upd st'"
  using assms(1)
proof (induction rule: rtranclp_induct)
  case (step y z)
  then show ?case using group_step group_live_step assms(4) by meson
qed (use assms in blast)

text \<open>How far the flags are from their last values.\<close>

definition to_signal :: "step list \<Rightarrow> memory \<Rightarrow> nat" where
  "to_signal order mem = nat (\<Sum>f < 4. cnt_at order (length (plans_of order)) f - mem f)"

lemma cut_le_last:
  assumes "cut (plans_of order) (cnt_at order) i D mem" "f < 4"
  shows "mem f \<le> cnt_at order (length (plans_of order)) f"
proof (cases "i < length (plans_of order)")
  case True
  then show ?thesis using rl.cut_range(2)[OF assms True] rl.count_mono[of "Suc i" "length (plans_of order)" order f] by simp
next
  case False
  then show ?thesis using assms by (auto simp: cut_def)
qed

lemma signalled_less:
  assumes "cut (plans_of order) (cnt_at order) i D mem" "cut (plans_of order) (cnt_at order) j E mem'" "signalled tids order upd i D t mem mem' th"
  shows "to_signal order mem' < to_signal order mem"
proof -
  obtain p where p: "enabled order i D p" "\<forall>f < 4. mem' f = (mem(sig_flag p := sig_val p)) f"
    using assms(3) unfolding signalled_def by blast
  have e: "i < length (plans_of order)" "p \<in> set (plans_of order ! i)" "p \<notin> D" using p(1) by (simp_all add: enabled_def)
  have "\<not> (\<exists>q \<in> D. sig_flag q = sig_flag p)" using rl.same_flag[OF e(1) _ e(2)] rl.cut_part[OF assms(1) e(1)] e(3) by blast
  then have s: "sig_flag p < 4" "sig_val p = mem (sig_flag p) + 1" using rl.signal[OF e(1,2)] assms(1) by (auto simp: cut_def)
  let ?c = "cnt_at order (length (plans_of order))"
  have "(\<Sum>f < 4. ?c f - mem' f) < (\<Sum>f < 4. ?c f - mem f)"
    using p(2) s by (intro sum_strict_mono_ex1) (auto intro!: bexI[of _ "sig_flag p"])
  moreover have "0 \<le> (\<Sum>f < 4. ?c f - mem' f)" using cut_le_last[OF assms(2)] by (intro sum_nonneg) simp
  ultimately show ?thesis by (simp add: to_signal_def)
qed

text \<open>First every node is signalled, then every thread finishes.\<close>

lemma group_signal_all:
  assumes "\<exists>i D. group_inv tids order upd i D st" "group_live tids order upd st" "order_valid tids order" "\<forall>t \<in> set tids. t < length (snd st)"
  shows "\<exists>st'. gsteps wr st st' \<and> length (snd st') = length (snd st) \<and> group_inv tids order upd (length (plans_of order)) {} st'"
  using assms(1,2,4)
proof (induction "to_signal order (fst st)" arbitrary: st rule: less_induct)
  case less
  obtain mem ts where st: "st = (mem, ts)" by force
  obtain i D where inv: "group_inv tids order upd i D (mem, ts)" using less.prems(1) st by blast
  have cut: "cut (plans_of order) (cnt_at order) i D mem" using inv by (simp add: group_inv_def)
  show ?case
  proof (cases "i < length (plans_of order)")
    case False
    then have "i = length (plans_of order)" "D = {}" using cut by (auto simp: cut_def)
    then show ?thesis using inv st by blast
  next
    case True
    have "D \<subset> set (plans_of order ! i)" by (rule rl.cut_part[OF cut True])
    then obtain p where p: "enabled order i D p" using True by (auto simp: enabled_def)
    define t where "t = tids ! fst p"
    have pc: "p \<in> set (concat (plans_of order))" using p True nth_mem[OF True] by (auto simp: enabled_def)
    then have pt: "of_thread tids order t p" by (simp add: of_thread_def t_def)
    have t: "t < length ts" using plan_in_range[OF assms(3) pc] less.prems(3) st by (simp add: t_def)
    have lv: "live tids order upd mem t (ts ! t)" using less.prems(2) st t by (simp add: group_live_def)
    obtain rem body rest where r: "ts ! t = Running rem body rest"
    proof (cases "ts ! t")
      case Finished
      then have "done_node p mem" using lv pt by simp
      then have False using done_node_iff[OF cut True] p by (auto simp: enabled_def)
      then show ?thesis by blast
    qed
    have ti: "thread_inv tids order upd i D t (Running rem body rest)" using inv t r by (metis group_inv_def snd_conv)
    have lv': "live tids order upd mem t (Running rem body rest)" using lv r by simp
    from thread_progress[OF cut ti lv' assms(3) p pt, of wr] obtain mem' th
      where s: "solos wr (mem, Running rem body rest) (mem', th)" "signalled tids order upd i D t mem mem' th" by blast
    have g: "gsteps wr (mem, ts) (mem', ts[t := th])" by (rule solos_gsteps[OF s(1) t r])
    have n: "(\<exists>i D. group_inv tids order upd i D (mem', ts[t := th])) \<and> group_live tids order upd (mem', ts[t := th])"
      using group_reach_live[OF g _ _ assms(3)] inv less.prems(2) st by blast
    then obtain j E where "cut (plans_of order) (cnt_at order) j E mem'" by (auto simp: group_inv_def)
    then have "to_signal order mem' < to_signal order mem" using signalled_less[OF cut _ s(2)] by blast
    then obtain st' where "gsteps wr (mem', ts[t := th]) st'" "length (snd st') = length ts"
        "group_inv tids order upd (length (plans_of order)) {} st'"
      using less.hyps[of "(mem', ts[t := th])"] n less.prems(3) st by auto
    moreover have "gsteps wr st st'" using rtranclp_trans[OF g] calculation(1) st by blast
    ultimately show ?thesis using st by (intro exI[of _ st']) simp
  qed
qed

lemma group_finish:
  assumes "group_inv tids order upd (length (plans_of order)) {} st" "group_live tids order upd st" "order_valid tids order"
  shows "\<exists>mem'. gsteps wr st (mem', replicate (length (snd st)) Finished) \<and> (\<forall>f < 4. mem' f = fst st f)"
  using assms(1,2)
proof (induction "card {t. t < length (snd st) \<and> snd st ! t \<noteq> Finished}" arbitrary: st rule: less_induct)
  case less
  obtain mem ts where st: "st = (mem, ts)" by force
  show ?case
  proof (cases "\<forall>t < length ts. ts ! t = Finished")
    case True
    then have "ts = replicate (length ts) Finished" by (simp add: list_eq_iff_nth_eq)
    then have "gsteps wr st (mem, replicate (length (snd st)) Finished)" using st by simp
    then show ?thesis using st by (intro exI[of _ mem]) simp
  next
    case False
    then obtain t where t: "t < length ts" "ts ! t \<noteq> Finished" by blast
    then obtain rem body rest where r: "ts ! t = Running rem body rest" by (cases "ts ! t") auto
    have cut: "cut (plans_of order) (cnt_at order) (length (plans_of order)) {} mem" using less.prems(1) st by (simp add: group_inv_def)
    have ti: "thread_inv tids order upd (length (plans_of order)) {} t (Running rem body rest)"
      using less.prems(1) st t r by (metis group_inv_def snd_conv)
    have lv: "live tids order upd mem t (Running rem body rest)"
      using less.prems(2) st t r by (metis fst_conv group_live_def snd_conv)
    have ne: "\<not> enabled order (length (plans_of order)) {} p" for p by (simp add: enabled_def)
    have dn: "done_node p m" if "of_thread tids order t p" "cut (plans_of order) (cnt_at order) (length (plans_of order)) {} m" for p m
      using of_thread_at[OF that(1)] done_node_iff[OF that(2)] by blast
    from thread_finish[OF cut ti lv assms(3) ne dn, of wr] obtain mem'
      where s: "solos wr (mem, Running rem body rest) (mem', Finished)" "\<forall>f < 4. mem' f = mem f" by blast
    have g: "gsteps wr (mem, ts) (mem', ts[t := Finished])" by (rule solos_gsteps[OF s(1) t(1) r])
    have "group_live tids order upd (mem', ts[t := Finished])"
      using group_reach_live[OF g _ _ assms(3)] less.prems st by blast
    moreover have "group_inv tids order upd (length (plans_of order)) {} (mem', ts[t := Finished])"
    proof -
      have "thread_inv tids order upd (length (plans_of order)) {} u (ts[t := Finished] ! u)" if "u < length ts" for u
        using less.prems(1) st that t(1) by (cases "u = t") (simp_all add: group_inv_def)
      then show ?thesis using cut_cong[OF s(2)] cut by (simp add: group_inv_def)
    qed
    moreover have "card {u. u < length (ts[t := Finished]) \<and> ts[t := Finished] ! u \<noteq> Finished} < card {u. u < length ts \<and> ts ! u \<noteq> Finished}"
    proof (rule psubset_card_mono)
      show "{u. u < length (ts[t := Finished]) \<and> ts[t := Finished] ! u \<noteq> Finished} \<subset> {u. u < length ts \<and> ts ! u \<noteq> Finished}"
        using t by (auto simp: nth_list_update split: if_splits)
    qed simp
    ultimately obtain mem2 where "gsteps wr (mem', ts[t := Finished]) (mem2, replicate (length ts) Finished)" "\<forall>f < 4. mem2 f = mem' f"
      using less.hyps[of "(mem', ts[t := Finished])"] st by auto
    then show ?thesis using rtranclp_trans[OF g] st s(2) by auto
  qed
qed

lemma start_live:
  assumes "order_valid tids order" "emitted tids (concat (plans_of order)) upd ord"
    "\<forall>t < n. \<forall>m \<in> set (visited t). tids ! m = t"
  shows "group_live tids order upd (mem, start_threads ord visited n)"
proof -
  have "live tids order upd mem t (next_loop (loops_of ord t (visited t)))" if t: "t < n" for t
  proof -
    let ?e = "filter (\<lambda>q. tids ! fst q = t) (concat (plans_of order))"
    obtain bs where bs: "loops_of ord t (visited t) = bs @ (if ?e = [] then [] else [end_of tids order t])"
        "\<forall>b \<in> set bs. node_of tids order upd t b"
      using loops_shape[OF assms(1,2), of "visited t" t] assms(3) t by blast
    show ?thesis
    proof (cases "?e = []")
      case True
      have no: "\<not> of_thread tids order t p" for p
      proof
        assume "of_thread tids order t p"
        then have "p \<in> set ?e" by (simp add: of_thread_def)
        then show False unfolding True by simp
      qed
      have "bs = []"
      proof (cases bs)
        case (Cons b cs)
        then obtain xs p ys where "concat (plans_of order) = xs @ p # ys" "tids ! fst p = t"
          using bs(2) unfolding node_of_def by auto
        then have "of_thread tids order t p" by (simp add: of_thread_def)
        then show ?thesis using no by blast
      qed simp
      then show ?thesis using bs(1) True no by simp
    next
      case False
      then have "hd ?e \<in> set ?e" by (rule hd_in_set)
      then have p: "of_thread tids order t (hd ?e)" by (simp add: of_thread_def)
      obtain b r where br: "bs @ [end_of tids order t] = b # r" by (cases "bs @ [end_of tids order t]") auto
      have "r = [] \<longrightarrow> b = end_of tids order t" using br by (cases bs) auto
      then have "r = [] \<longrightarrow> tail_ok tids order t b" using end_tail[OF p] by blast
      then have "live tids order upd mem t (Running b b r)" using p br[symmetric] bs(2) unfolding live.simps by blast
      then show ?thesis using bs(1) False br by simp
    qed
  qed
  then show ?thesis by (simp add: group_live_def start_threads_def)
qed

section \<open>Properties\<close>

text \<open>C2: The threads cannot block one another.  From every state that the threads of the work group can
  reach, whatever nodes they visit, a schedule leads to a state in which every thread has finished and
  every ordered node has been signalled.\<close>

theorem messages_never_stuck:
  assumes "CreateOrdering o1 tids s = Some (order, ord, s')" "opt_random_based o1" "\<forall>t \<in> set tids. t < 5 \<and> t < n"
    and "\<forall>t < n. \<forall>m \<in> set (visited t). tids ! m = t" "flags_zero mem"
    and "gsteps wr (mem, start_threads ord visited n) st"
  shows "\<exists>mem'. gsteps wr st (mem', replicate n Finished) \<and>
    (\<forall>ps \<in> set (plans_of order). \<forall>p \<in> set ps. sig_val p \<le> mem' (sig_flag p))"
proof -
  have t5: "\<forall>t \<in> set tids. t < 5" using assms(3) by blast
  obtain upd where f: "order_valid tids order" "emitted tids (concat (plans_of order)) upd ord"
      "\<forall>x \<in> set (plans_of order). step_apart upd x" by (rule CreateOrdering_facts[OF assms(1,2) t5])
  have inv: "(\<exists>i D. group_inv tids order upd i D st) \<and> group_live tids order upd st"
    using group_reach_live[OF assms(6) _ start_live[OF f(1,2) assms(4)] f(1)] start_inv[OF f assms(4,5)] by blast
  have len: "length (snd st') = length (snd st0)" if "gsteps wr st0 st'" for st0 st'
    using that by (induction rule: rtranclp_induct) (auto elim!: gstep.cases)
  have n: "length (snd st) = n" using len[OF assms(6)] by (simp add: start_threads_def)
  obtain st1 where s1: "gsteps wr st st1" "length (snd st1) = n" "group_inv tids order upd (length (plans_of order)) {} st1"
    using group_signal_all[of tids order upd st wr] inv f(1) assms(3) n by blast
  have "group_live tids order upd st1" using group_reach_live[OF s1(1) _ _ f(1)] inv by blast
  from group_finish[OF s1(3) this f(1), of wr] obtain mem'
    where fin: "gsteps wr st1 (mem', replicate n Finished)" "\<forall>f < 4. mem' f = fst st1 f" using s1(2) by auto
  have "cut (plans_of order) (cnt_at order) (length (plans_of order)) {} (fst st1)" using s1(3) by (simp add: group_inv_def)
  then have cut: "cut (plans_of order) (cnt_at order) (length (plans_of order)) {} mem'" using cut_cong[OF fin(2)] by blast
  have "sig_val p \<le> mem' (sig_flag p)" if "ps \<in> set (plans_of order)" "p \<in> set ps" for ps p
  proof -
    have "p \<in> set (concat (plans_of order))" using that by auto
    then obtain j where "j < length (plans_of order)" "p \<in> set (plans_of order ! j)" using plan_steps_at by blast
    then have "done_node p mem'" using done_node_iff[OF cut] by blast
    then show ?thesis by (auto simp: done_node_def all_ge_def sig_def)
  qed
  then show ?thesis using rtranclp_trans[OF s1(1) fin(1)] by blast
qed

lemma messages_never_stuck_witness:
  "\<exists>mem'. gsteps (\<lambda>_ k. k) two_state (mem', replicate 2 Finished) \<and> 1 \<le> mem' 2 \<and> 1 \<le> mem' 3"
proof -
  obtain s' where c: "CreateOrdering (default_settings cgoptions_zero) [0, 1] two_rng = Some ([(0, Some 1)], two_ordering, s')"
    using two_CreateOrdering[OF default_random_based] by blast
  have g: "gsteps (\<lambda>_ k. k) (\<lambda>_. 0, start_threads two_ordering (\<lambda>t. [t]) 2) two_state"
    unfolding two_state_def by (rule run_schedule_gsteps)
  have "\<exists>mem'. gsteps (\<lambda>_ k. k) two_state (mem', replicate 2 Finished) \<and>
      (\<forall>ps \<in> set (plans_of [(0, Some 1)]). \<forall>p \<in> set ps. sig_val p \<le> mem' (sig_flag p))"
    by (rule messages_never_stuck[OF c default_random_based _ _ _ g]) (auto simp: flags_zero_def less_2_cases_iff)
  moreover have "plans_of [(0, Some 1)] = [[(0, {(0, 0), (1, 0), (2, 0)}, (2, 1)), (1, {(0, 0), (1, 0), (3, 0)}, (3, 1))]]"
    using two_plan by (simp add: plans_of_def split_beta Let_def)
  ultimately show ?thesis by (auto simp: plan_views)
qed

end
