(* ===== verification/Context.thy ===== *)
theory Context
  imports FactFlow "HOL-Library.Word"
begin

unbundle bit_operations_syntax

text \<open>
  CGContext.cpp: the context in which the generator makes a statement or an expression.  It holds
  the function and its stack of blocks, the blocks of the pending calls, the effects that code running
  before or around the current place may already have (\<open>effect_context\<close>), the effect collected so far
  (\<open>effect_accum\<close>, which may be absent) and the variables that must not be touched.  A variable is read
  or written only after a check against all of these.

  The checks visit the index expressions of array variables; the visit is a parameter here and is
  defined in the theory on expressions.  The counters of Bookkeeper are left out.
\<close>

section \<open>Data\<close>

text \<open>A function with its number and the stack of its open blocks; a block is given by its scope.\<close>

record gfunc = func +
  gf_id :: nat
  gf_stack :: "scope list"

record rw_directive =
  no_read_vars :: "variable list"
  no_write_vars :: "variable list"
  must_read_vars :: "variable list"
  must_write_vars :: "variable list"

definition IN_LOOP :: "32 word" where "IN_LOOP = 2"
definition NO_DANGLING_PTR :: "32 word" where "NO_DANGLING_PTR = 8"
definition INVISIBLE :: int where "INVISIBLE = 9999"
definition INACTIVE :: int where "INACTIVE = 8888"

record cgcontext =
  current_func :: "gfunc option"
  blk_depth :: int
  expr_depth :: int
  cg_flags :: "32 word"
  call_chain :: "scope list"
  curr_blk :: "scope option"
  directive :: "rw_directive option"
  iv_bounds :: "(variable \<times> 32 word) list"
  curr_rhs :: "expr option"
  effect_context :: effect
  effect_accum :: "effect option"
  effect_stm :: effect
  atomic_context :: bool
  emi_context :: bool

text \<open>The four constructors: for a function that is entered, for parameters, for a callee, for the
  body of a loop.\<close>

definition function_context :: "gfunc option \<Rightarrow> effect \<Rightarrow> effect option \<Rightarrow> cgcontext" where
  "function_context f eff_context eff_accum = \<lparr>current_func = f, blk_depth = 0, expr_depth = 0,
     cg_flags = 0, call_chain = [], curr_blk = None, directive = None, iv_bounds = [],
     curr_rhs = None, effect_context = eff_context, effect_accum = eff_accum,
     effect_stm = empty_effect, atomic_context = False, emi_context = False\<rparr>"

definition param_context :: "cgcontext \<Rightarrow> effect \<Rightarrow> effect option \<Rightarrow> cgcontext" where
  "param_context cgc eff_context eff_accum = cgc\<lparr>curr_rhs := None, effect_context := eff_context,
     effect_accum := eff_accum, effect_stm := empty_effect\<rparr>"

definition get_current_block :: "cgcontext \<Rightarrow> scope option" where
  "get_current_block c = (case current_func c of
      None \<Rightarrow> None
    | Some f \<Rightarrow> if length (gf_stack f) > 0 then Some (last (gf_stack f)) else None)"

definition extend_call_chain :: "cgcontext \<Rightarrow> cgcontext \<Rightarrow> cgcontext" where
  "extend_call_chain cg_context c =
    (let b = (case get_current_block cg_context of None \<Rightarrow> curr_blk cg_context | Some b \<Rightarrow> Some b)
     in c\<lparr>call_chain := call_chain cg_context @ (case b of None \<Rightarrow> [] | Some b \<Rightarrow> [b])\<rparr>)"

definition callee_context :: "cgcontext \<Rightarrow> gfunc \<Rightarrow> effect \<Rightarrow> effect option \<Rightarrow> cgcontext" where
  "callee_context cgc f eff_context eff_accum = extend_call_chain cgc
     (cgc\<lparr>current_func := Some f, blk_depth := 0, expr_depth := 0, curr_rhs := None,
        effect_context := eff_context, effect_accum := eff_accum, effect_stm := empty_effect,
        emi_context := False\<rparr>)"

definition loop_context :: "cgcontext \<Rightarrow> rw_directive option \<Rightarrow> variable option \<Rightarrow> 32 word \<Rightarrow> cgcontext" where
  "loop_context cgc rwd iv bound = cgc\<lparr>expr_depth := 0, cg_flags := cg_flags cgc OR IN_LOOP,
     directive := rwd, curr_rhs := None, effect_stm := empty_effect,
     iv_bounds := (case iv of None \<Rightarrow> iv_bounds cgc | Some v \<Rightarrow> AList.update v bound (iv_bounds cgc))\<rparr>"

section \<open>Queries\<close>

text \<open>The first element with a property whose test may abort.\<close>

fun any_opt :: "('a \<Rightarrow> bool option) \<Rightarrow> 'a list \<Rightarrow> bool option" where
  "any_opt p [] = Some False"
| "any_opt p (x # xs) = do { b \<leftarrow> p x; if b then Some True else any_opt p xs }"

definition or_opt :: "bool option \<Rightarrow> bool option \<Rightarrow> bool option" where
  "or_opt a b = do { x \<leftarrow> a; if x then Some True else b }"

definition is_nonreadable :: "cgcontext \<Rightarrow> variable \<Rightarrow> bool" where
  "is_nonreadable c v = (case directive c of
      None \<Rightarrow> False | Some d \<Rightarrow> list_ex (\<lambda>x. var_match x v) (no_read_vars d))"

definition is_nonwritable :: "printer \<Rightarrow> cgcontext \<Rightarrow> variable \<Rightarrow> bool option" where
  "is_nonwritable pr c v = or_opt
     (case directive c of None \<Rightarrow> Some False
      | Some d \<Rightarrow> any_opt (\<lambda>x. or_opt (loose_match pr x v) (loose_match pr v x)) (no_write_vars d))
     (any_opt (\<lambda>(iv, bound). loose_match pr v iv) (iv_bounds c))"

definition allow_volatile :: "cgcontext \<Rightarrow> bool" where
  "allow_volatile c = side_effect_free (effect_context c)"

definition accept_type :: "cgcontext \<Rightarrow> ctype \<Rightarrow> bool option" where
  "accept_type c t = (if side_effect_free (effect_context c) then Some True
     else map_option Not (is_volatile_struct_union t))"

definition is_frame_var :: "cgcontext \<Rightarrow> variable \<Rightarrow> bool option" where
  "is_frame_var c v = do {
     b \<leftarrow> get_current_block c;
     Some (if is_visible_local (Some b) v then True
           else list_ex (\<lambda>b. is_visible_local (Some b) v) (call_chain c)) }"

text \<open>What both branches of \<open>in_conflict\<close> and the checks of a single access share: a write the context
  already has, or a volatile access after a side effect.\<close>

definition forbidden_access :: "printer \<Rightarrow> cgcontext \<Rightarrow> variable \<Rightarrow> bool option" where
  "forbidden_access pr c v = or_opt (is_written_partially pr (effect_context c) v)
     (do { vol \<leftarrow> var_is_volatile v; Some (vol \<and> \<not> side_effect_free (effect_context c)) })"

definition read_conflict :: "printer \<Rightarrow> cgcontext \<Rightarrow> variable \<Rightarrow> bool option" where
  "read_conflict pr c v = or_opt (Some (is_nonreadable c v)) (forbidden_access pr c v)"

definition write_conflict :: "printer \<Rightarrow> cgcontext \<Rightarrow> variable \<Rightarrow> bool option" where
  "write_conflict pr c v = or_opt (is_nonwritable pr c v) (or_opt (var_is_const v)
     (or_opt (is_written_partially pr (effect_context c) v)
       (or_opt (is_read_partially pr (effect_context c) v)
         (do { vol \<leftarrow> var_is_volatile v; Some (vol \<and> \<not> side_effect_free (effect_context c)) }))))"

definition in_conflict :: "printer \<Rightarrow> cgcontext \<Rightarrow> effect \<Rightarrow> bool option" where
  "in_conflict pr c eff = or_opt (any_opt (read_conflict pr c) (read_vars eff))
     (any_opt (write_conflict pr c) (write_vars eff))"

section \<open>Scopes of variables\<close>

text \<open>The search through the pending calls counts the parents of a block in the index of the outer
  loop, as the code does; an index past the end is undefined, and the loop need not end.\<close>

definition in_scope :: "scope \<Rightarrow> variable \<Rightarrow> nat option" where
  "in_scope b v = find_index (\<lambda>(n, ls). find_variable_in_set ls v \<noteq> None) (sc_chain b)"

partial_function (option) stack_search :: "scope list \<Rightarrow> variable \<Rightarrow> int \<Rightarrow> int option" where
  "stack_search chain v i =
    (if i < 0 then Some INACTIVE
     else if i \<ge> int (length chain) then None
     else if in_scope (chain ! nat i) v \<noteq> None then Some INVISIBLE
     else stack_search chain v (i + int (length (sc_chain (chain ! nat i))) - 1))"

definition find_variable_scope :: "cgcontext \<Rightarrow> variable \<Rightarrow> int option" where
  "find_variable_scope c v =
    (if var_is_global v then Some (-1)
     else do {
       f \<leftarrow> current_func c;
       if list_ex (\<lambda>p. var_match p v) (f_params f) then Some 0
       else do {
         b \<leftarrow> get_current_block c;
         case in_scope b v of
           Some i \<Rightarrow> Some (int i + 1)
         | None \<Rightarrow> stack_search (call_chain c) v (int (length (call_chain c)) - 1) } })"

section \<open>Variables handed to and from other contexts\<close>

definition find_reachable_frame_vars :: "cgcontext \<Rightarrow> fact list \<Rightarrow> variable list \<Rightarrow> variable list option" where
  "find_reachable_frame_vars c facts frame_vars = foldM (\<lambda>f vars. case f of
      FUnion v k \<Rightarrow> Some vars
    | FPointTo p ps \<Rightarrow> foldM (\<lambda>v vars. do {
        b \<leftarrow> is_frame_var c v; Some (if b then vars @ [v] else vars) }) ps vars) facts frame_vars"

definition get_external_no_reads_writes :: "cgcontext \<Rightarrow> variable list \<Rightarrow> variable list \<times> variable list" where
  "get_external_no_reads_writes c frame_vars =
    (let ext = filter (\<lambda>v. var_is_global v \<or> find_variable_in_set frame_vars v \<noteq> None) in
     case directive c of
       None \<Rightarrow> ([], ext (map fst (iv_bounds c)))
     | Some d \<Rightarrow> (ext (no_read_vars d), ext (no_write_vars d) @ ext (map fst (iv_bounds c))))"

definition find_must_use_arrays :: "rw_directive \<Rightarrow> variable list" where
  "find_must_use_arrays d = fold (\<lambda>v avs. if isArray v \<and> \<not> is_variable_in_set avs v then avs @ [v] else avs)
     (must_read_vars d @ must_write_vars d) []"

section \<open>Recording accesses\<close>

text \<open>What the code relies on outside the context: the options, how names print, the variables marked
  for a single access, the calls of the points-to analysis, and the function each call invokes.\<close>

record visit_env =
  ve_opts :: cgoptions
  ve_printer :: printer
  ve_access_once :: "variable \<Rightarrow> bool"
  ve_calls :: call_env
  ve_callee :: "nat \<Rightarrow> gfunc"

text \<open>The state a visit changes besides the context: the facts, the effect of each function, and the
  effects the fact manager keeps for the assignments visited.\<close>

record visit_state =
  vs_facts :: "fact list"
  vs_feffects :: "nat \<Rightarrow> effect"
  vs_stm_effects :: "(expr \<times> effect) list"

type_synonym visited = "(bool \<times> visit_state \<times> cgcontext) option"
type_synonym visitor = "expr \<Rightarrow> visit_state \<Rightarrow> cgcontext \<Rightarrow> visited"

text \<open>Sequencing of checks: the first one that fails ends the sequence.\<close>

definition and_then :: "visited \<Rightarrow> (visit_state \<Rightarrow> cgcontext \<Rightarrow> visited) \<Rightarrow> visited" where
  "and_then r k = do { (b, s, c) \<leftarrow> r; if b then k s c else Some (False, s, c) }"

definition refuse_if :: "bool option \<Rightarrow> visit_state \<Rightarrow> cgcontext \<Rightarrow> visited" where
  "refuse_if t s c = do { b \<leftarrow> t; Some (\<not> b, s, c) }"

text \<open>Updates of the collected effect, if there is one, and of the effect of the statement.\<close>

definition touch_effects :: "(effect \<Rightarrow> effect option) \<Rightarrow> (effect \<Rightarrow> effect option) \<Rightarrow> cgcontext \<Rightarrow> cgcontext option" where
  "touch_effects f g c = do {
     a \<leftarrow> (case effect_accum c of None \<Rightarrow> Some None | Some e \<Rightarrow> map_option Some (f e));
     s \<leftarrow> g (effect_stm c);
     Some (c\<lparr>effect_accum := a, effect_stm := s\<rparr>) }"

definition cg_read_var :: "visit_env \<Rightarrow> variable \<Rightarrow> cgcontext \<Rightarrow> cgcontext option" where
  "cg_read_var E v0 c = do {
     v \<leftarrow> get_collective (ve_printer E) v0;
     assert_that (\<not> is_nonreadable c v);
     touch_effects (read_var (ve_access_once E) v) (read_var (ve_access_once E) v) c }"

definition cg_write_var :: "visit_env \<Rightarrow> variable \<Rightarrow> cgcontext \<Rightarrow> cgcontext option" where
  "cg_write_var E v0 c = do {
     v \<leftarrow> get_collective (ve_printer E) v0;
     b \<leftarrow> is_nonwritable (ve_printer E) c v;
     assert_that (\<not> b);
     touch_effects (write_var (ve_access_once E) v) (write_var (ve_access_once E) v) c }"

definition cg_add_effect :: "effect \<Rightarrow> bool \<Rightarrow> cgcontext \<Rightarrow> cgcontext option" where
  "cg_add_effect e include_lhs_effects c =
     touch_effects (\<lambda>a. Some (add_effect e include_lhs_effects a)) (\<lambda>a. Some (add_effect e False a)) c"

definition merge_param_context :: "cgcontext \<Rightarrow> bool \<Rightarrow> cgcontext \<Rightarrow> cgcontext option" where
  "merge_param_context param_cg_context include_lhs_effects c = do {
     e \<leftarrow> effect_accum param_cg_context;
     c1 \<leftarrow> cg_add_effect e include_lhs_effects c;
     Some (c1\<lparr>expr_depth := expr_depth param_cg_context\<rparr>) }"

definition cg_add_external_effect :: "visit_env \<Rightarrow> effect \<Rightarrow> cgcontext \<Rightarrow> cgcontext option" where
  "cg_add_external_effect E e c =
     touch_effects (add_external_effect (ve_access_once E) e []) (add_external_effect (ve_access_once E) e []) c"

definition add_visible_effect :: "visit_env \<Rightarrow> effect \<Rightarrow> scope \<Rightarrow> cgcontext \<Rightarrow> cgcontext option" where
  "add_visible_effect E e b c =
    (let callers = call_chain c @ [b] in
     touch_effects (add_external_effect (ve_access_once E) e callers)
       (add_external_effect (ve_access_once E) e callers) c)"

definition reset_effect_accum :: "effect \<Rightarrow> cgcontext \<Rightarrow> cgcontext" where
  "reset_effect_accum e c = c\<lparr>effect_accum := map_option (\<lambda>a. effect_assign a e) (effect_accum c)\<rparr>"

definition check_deref_volatile :: "visit_env \<Rightarrow> variable \<Rightarrow> int \<Rightarrow> visit_state \<Rightarrow> cgcontext \<Rightarrow> visited" where
  "check_deref_volatile E v deref_level s c =
    (if \<not> opt_strict_volatile_rule (ve_opts E) then Some (True, s, c)
     else do {
       bad \<leftarrow> (if side_effect_free (effect_context c) then Some False else deref_volatile v (nat deref_level));
       if bad then Some (False, s, c)
       else do {
         c1 \<leftarrow> touch_effects (access_deref_volatile (ve_opts E) v deref_level)
                 (access_deref_volatile (ve_opts E) v deref_level) c;
         Some (True, s, c1) } })"

section \<open>Checked accesses\<close>

fun visit_all :: "visitor \<Rightarrow> expr list \<Rightarrow> visit_state \<Rightarrow> cgcontext \<Rightarrow> visited" where
  "visit_all vis [] s c = Some (True, s, c)"
| "visit_all vis (e # es) s c = and_then (vis e s c) (visit_all vis es)"

fun get_indices :: "variable \<Rightarrow> expr list" where
  "get_indices (Arr i e es vec c b ss xs) = xs"
| "get_indices _ = []"

text \<open>The array a variable is or is a part of.\<close>

definition get_array :: "variable \<Rightarrow> variable option" where
  "get_array v = (if isArray v then Some v else if is_array_field v then array_parent v else None)"

text \<open>The indices are visited with a copy of the facts.\<close>

definition read_indices :: "visitor \<Rightarrow> variable \<Rightarrow> visit_state \<Rightarrow> cgcontext \<Rightarrow> visited" where
  "read_indices vis v s c = (case get_array v of
      None \<Rightarrow> Some (True, s, c)
    | Some av \<Rightarrow> do {
        (b, s1, c1) \<leftarrow> visit_all vis (get_indices av) s c;
        Some (b, s1\<lparr>vs_facts := vs_facts s\<rparr>, c1) })"

definition dangling_pointer :: "visit_env \<Rightarrow> variable \<Rightarrow> fact list \<Rightarrow> bool" where
  "dangling_pointer E v facts \<longleftrightarrow> var_is_pointer v \<and> is_dangling_ptr (ve_opts E) v facts"

definition check_read_var :: "visitor \<Rightarrow> visit_env \<Rightarrow> variable \<Rightarrow> visit_state \<Rightarrow> cgcontext \<Rightarrow> visited" where
  "check_read_var vis E v0 s0 c0 = and_then (read_indices vis v0 s0 c0) (\<lambda>s c. do {
     v \<leftarrow> get_collective (ve_printer E) v0;
     and_then (refuse_if (or_opt (is_nonreadable_field (ve_opts E) v (vs_facts s))
         (or_opt (read_conflict (ve_printer E) c v) (Some (dangling_pointer E v (vs_facts s))))) s c)
       (\<lambda>s c. do { c1 \<leftarrow> cg_read_var E v c; Some (True, s, c1) }) })"

definition check_write_var :: "visitor \<Rightarrow> visit_env \<Rightarrow> variable \<Rightarrow> visit_state \<Rightarrow> cgcontext \<Rightarrow> visited" where
  "check_write_var vis E v0 s0 c0 = and_then (read_indices vis v0 s0 c0) (\<lambda>s c. do {
     v \<leftarrow> get_collective (ve_printer E) v0;
     and_then (refuse_if (or_opt (write_conflict (ve_printer E) c v)
         (Some (cg_flags c AND NO_DANGLING_PTR \<noteq> 0 \<and> dangling_pointer E v (vs_facts s)))) s c)
       (\<lambda>s c. do { c1 \<leftarrow> cg_write_var E v c; Some (True, s, c1) }) })"

text \<open>Every pointer on the way is checked as a read; the targets of the last dereference are read or
  written.\<close>

fun check_pointees :: "(variable \<Rightarrow> visit_state \<Rightarrow> cgcontext \<Rightarrow> visited) \<Rightarrow> variable list \<Rightarrow>
    visit_state \<Rightarrow> cgcontext \<Rightarrow> visited" where
  "check_pointees chk [] s c = Some (True, s, c)"
| "check_pointees chk (p # ps) s c =
    (if is_special_ptr p then check_pointees chk ps s c
     else and_then (chk p s c) (check_pointees chk ps))"

definition bad_pointees :: "cgoptions \<Rightarrow> variable list \<Rightarrow> bool" where
  "bad_pointees o1 tmp \<longleftrightarrow> length tmp = 0 \<or>
     (\<not> opt_null_pointer_dereference_prob o1 > 0 \<and> is_variable_in_set tmp null_ptr) \<or>
     (\<not> opt_dead_pointer_dereference_prob o1 > 0 \<and> is_variable_in_set tmp garbage_ptr)"

fun trace_pointers :: "visit_env \<Rightarrow> (variable \<Rightarrow> visit_state \<Rightarrow> cgcontext \<Rightarrow> visited) \<Rightarrow>
    (variable \<Rightarrow> visit_state \<Rightarrow> cgcontext \<Rightarrow> visited) \<Rightarrow> nat \<Rightarrow> variable list \<Rightarrow>
    visit_state \<Rightarrow> cgcontext \<Rightarrow> visited" where
  "trace_pointers E chk_read chk_last 0 tmp s c = Some (True, s, c)"
| "trace_pointers E chk_read chk_last (Suc n) tmp s c = do {
     tmp1 \<leftarrow> merge_pointees_of_pointers tmp (vs_facts s);
     and_then (refuse_if (Some (bad_pointees (ve_opts E) tmp1)) s c) (\<lambda>s c.
       and_then (check_pointees (if n = 0 then chk_last else chk_read) tmp1 s c)
         (trace_pointers E chk_read chk_last n tmp1)) }"

text \<open>On failure the collected effect is restored; the copy dereferences the pointer to it.\<close>

definition access_pointed :: "visitor \<Rightarrow> visit_env \<Rightarrow> (variable \<Rightarrow> visit_state \<Rightarrow> cgcontext \<Rightarrow> visited) \<Rightarrow>
    variable \<Rightarrow> ctype \<Rightarrow> visit_state \<Rightarrow> cgcontext \<Rightarrow> visited" where
  "access_pointed vis E chk_last v t s0 c0 = do {
     effect_accum_copy \<leftarrow> map_option effect_copy (effect_accum c0);
     indirect \<leftarrow> indirect_level v t;
     assert_that (indirect > 0);
     and_then (read_indices vis v s0 c0) (\<lambda>s c. do {
       cv \<leftarrow> get_collective (ve_printer E) v;
       (b, s1, c1) \<leftarrow> trace_pointers E (check_read_var vis E) chk_last (nat indirect) [cv] s c;
       Some (b, s1, if b then c1 else reset_effect_accum effect_accum_copy c1) }) }"

definition read_pointed :: "visitor \<Rightarrow> visit_env \<Rightarrow> variable \<Rightarrow> ctype \<Rightarrow> visit_state \<Rightarrow> cgcontext \<Rightarrow> visited" where
  "read_pointed vis E = access_pointed vis E (check_read_var vis E)"

definition write_pointed :: "visitor \<Rightarrow> visit_env \<Rightarrow> variable \<Rightarrow> ctype \<Rightarrow> visit_state \<Rightarrow> cgcontext \<Rightarrow> visited" where
  "write_pointed vis E = access_pointed vis E (check_write_var vis E)"

section \<open>Laws of the checks\<close>

lemma any_opt_False_iff: "any_opt p xs = Some False \<longleftrightarrow> (\<forall>x \<in> set xs. p x = Some False)"
  by (induction xs) (auto simp: bind_eq_Some_conv)

lemma or_opt_False_iff [simp]: "or_opt a b = Some False \<longleftrightarrow> a = Some False \<and> b = Some False"
  by (auto simp: or_opt_def bind_eq_Some_conv)

definition permitted :: "printer \<Rightarrow> cgcontext \<Rightarrow> effect \<Rightarrow> bool" where
  "permitted pr c e \<longleftrightarrow> in_conflict pr c e = Some False"

lemma permitted_iff: "permitted pr c e \<longleftrightarrow>
    (\<forall>v \<in> set (read_vars e). read_conflict pr c v = Some False) \<and>
    (\<forall>v \<in> set (write_vars e). write_conflict pr c v = Some False)"
  by (simp add: permitted_def in_conflict_def any_opt_False_iff)

lemma permitted_empty [simp]: "permitted pr c empty_effect"
  by (simp add: permitted_iff empty_effect_def)

lemma permitted_subset:
  "permitted pr c e \<Longrightarrow> set (read_vars f) \<subseteq> set (read_vars e) \<Longrightarrow> set (write_vars f) \<subseteq> set (write_vars e) \<Longrightarrow>
     permitted pr c f"
  by (auto simp: permitted_iff)

text \<open>The same place: contexts that differ in what was collected only.\<close>

definition same_place :: "cgcontext \<Rightarrow> cgcontext \<Rightarrow> bool" where
  "same_place c d \<longleftrightarrow> current_func d = current_func c \<and> cg_flags d = cg_flags c \<and> call_chain d = call_chain c \<and>
     curr_blk d = curr_blk c \<and> directive d = directive c \<and> iv_bounds d = iv_bounds c \<and>
     effect_context d = effect_context c \<and> curr_rhs d = curr_rhs c \<and> blk_depth d = blk_depth c \<and>
     atomic_context d = atomic_context c \<and> emi_context d = emi_context c"

lemma same_place_refl [simp]: "same_place c c"
  by (simp add: same_place_def)

lemma same_place_trans: "same_place a b \<Longrightarrow> same_place b c \<Longrightarrow> same_place a c"
  by (simp add: same_place_def)

lemma same_place_permitted: "same_place c d \<Longrightarrow> permitted pr d = permitted pr c"
  by (simp add: fun_eq_iff same_place_def permitted_iff read_conflict_def write_conflict_def is_nonreadable_def
      forbidden_access_def is_nonwritable_def)

text \<open>What the checked operations keep of a context: the place, and that every access collected is
  permitted there.\<close>

definition clean_step :: "printer \<Rightarrow> cgcontext \<Rightarrow> cgcontext \<Rightarrow> bool" where
  "clean_step pr c d \<longleftrightarrow> same_place c d \<and> (case effect_accum c of
      None \<Rightarrow> effect_accum d = None
    | Some a \<Rightarrow> \<exists>b. effect_accum d = Some b \<and> (permitted pr c a \<longrightarrow> permitted pr c b))"

lemma clean_step_refl [simp]: "clean_step pr c c"
  by (simp add: clean_step_def split: option.splits)

lemma clean_step_trans:
  assumes "clean_step pr a b" "clean_step pr b c"
  shows "clean_step pr a c"
proof -
  have p: "same_place a b" "same_place b c" "permitted pr b = permitted pr a"
    using assms same_place_permitted by (auto simp: clean_step_def)
  show ?thesis
    using assms same_place_trans[OF p(1,2)] p(3) by (auto simp: clean_step_def split: option.splits)
qed

definition clean :: "printer \<Rightarrow> cgcontext \<Rightarrow> visited \<Rightarrow> bool" where
  "clean pr c r \<longleftrightarrow> (\<forall>b s d. r = Some (b, s, d) \<longrightarrow> clean_step pr c d)"

lemma clean_None [simp, intro]: "clean pr c None"
  and clean_Some [simp]: "clean pr c (Some (b, s, d)) \<longleftrightarrow> clean_step pr c d"
  by (simp_all add: clean_def)

lemma clean_and_then [intro]:
  assumes "clean pr c r" "\<And>s d. clean_step pr c d \<Longrightarrow> clean pr d (k s d)"
  shows "clean pr c (and_then r k)"
  using assms clean_step_trans unfolding clean_def and_then_def
  by (fastforce simp: bind_eq_Some_conv split: if_splits)

lemma clean_bind [intro]:
  assumes "\<And>x. m = Some x \<Longrightarrow> clean pr c (f x)"
  shows "clean pr c (m \<bind> f)"
  using assms by (cases m) auto

lemma clean_refuse [simp, intro]: "clean pr c (refuse_if t s c)"
  by (auto simp: refuse_if_def)

lemma refuse_ifD: "refuse_if t s c = Some (b, s', c') \<Longrightarrow> s' = s \<and> c' = c \<and> t = Some (\<not> b)"
  by (auto simp: refuse_if_def bind_eq_Some_conv)

lemma clean_test:
  assumes "t = Some False \<Longrightarrow> clean pr c (k s c)"
  shows "clean pr c (and_then (refuse_if t s c) k)"
  using assms unfolding and_then_def refuse_if_def by (cases t) auto

lemma touch_effects_place: "touch_effects f g c = Some d \<Longrightarrow> same_place c d"
  by (auto simp: touch_effects_def same_place_def bind_eq_Some_conv)

lemma touch_effects_accum:
  "touch_effects f g c = Some d \<Longrightarrow> (case effect_accum c of None \<Rightarrow> effect_accum d = None
     | Some a \<Rightarrow> \<exists>b. effect_accum d = Some b \<and> f a = Some b)"
  by (auto simp: touch_effects_def bind_eq_Some_conv split: option.splits)

lemma touch_effects_clean:
  assumes "touch_effects f g c = Some d" "\<And>a b. permitted pr c a \<Longrightarrow> f a = Some b \<Longrightarrow> permitted pr c b"
  shows "clean_step pr c d"
  using assms(2) touch_effects_place[OF assms(1)] touch_effects_accum[OF assms(1)]
  by (auto simp: clean_step_def split: option.splits)

text \<open>Recording a variable adds nothing else.\<close>

lemma read_var_members:
  "read_var acc v a = Some b \<Longrightarrow> set (read_vars b) \<subseteq> insert v (set (read_vars a)) \<and> write_vars b = write_vars a"
  by (auto simp: read_var_def bind_eq_Some_conv split: if_splits)

lemma write_var_members:
  "write_var acc v a = Some b \<Longrightarrow> set (write_vars b) \<subseteq> insert v (set (write_vars a)) \<and> read_vars b = read_vars a"
  by (auto simp: write_var_def bind_eq_Some_conv split: if_splits)

lemma cg_read_var_clean:
  assumes "cg_read_var E v c = Some d" "get_collective (ve_printer E) v = Some v"
    "read_conflict (ve_printer E) c v = Some False"
  shows "clean_step (ve_printer E) c d"
proof -
  have "touch_effects (read_var (ve_access_once E) v) (read_var (ve_access_once E) v) c = Some d"
    using assms(1,2) by (auto simp: cg_read_var_def bind_eq_Some_conv)
  then show ?thesis
    by (rule touch_effects_clean) (use assms(3) read_var_members in \<open>fastforce simp: permitted_iff\<close>)
qed

lemma cg_write_var_clean:
  assumes "cg_write_var E v c = Some d" "get_collective (ve_printer E) v = Some v"
    "write_conflict (ve_printer E) c v = Some False"
  shows "clean_step (ve_printer E) c d"
proof -
  have "touch_effects (write_var (ve_access_once E) v) (write_var (ve_access_once E) v) c = Some d"
    using assms(1,2) by (auto simp: cg_write_var_def bind_eq_Some_conv)
  then show ?thesis
    by (rule touch_effects_clean) (use assms(3) write_var_members in \<open>fastforce simp: permitted_iff\<close>)
qed

lemma access_deref_volatile_members:
  "access_deref_volatile o1 v l a = Some b \<Longrightarrow> read_vars b = read_vars a \<and> write_vars b = write_vars a"
  by (auto simp: access_deref_volatile_def bind_eq_Some_conv split: if_splits)

lemma check_deref_volatile_clean: "clean (ve_printer E) c (check_deref_volatile E v l s c)"
proof -
  have "clean_step (ve_printer E) c d" if
    "touch_effects (access_deref_volatile o1 v l) (access_deref_volatile o1 v l) c = Some d" for o1 d
    by (rule touch_effects_clean[OF that]) (auto simp: permitted_iff dest!: access_deref_volatile_members)
  then show ?thesis
    unfolding check_deref_volatile_def by (auto simp: clean_def bind_eq_Some_conv split: if_splits)
qed

lemma add_effect_members:
  "set (read_vars (add_effect e b a)) \<subseteq> set (read_vars a) \<union> set (read_vars e) \<and>
   set (write_vars (add_effect e b a)) \<subseteq> set (write_vars a) \<union> set (write_vars e)"
  using add_uncovered_subset by (simp add: add_effect_def)

lemma merge_param_context_clean:
  assumes "merge_param_context pc b c = Some d" "effect_accum pc = Some e" "permitted pr c e"
  shows "clean_step pr c d"
proof -
  obtain c1 where c1: "cg_add_effect e b c = Some c1" "d = c1\<lparr>expr_depth := expr_depth pc\<rparr>"
    using assms(1,2) by (auto simp: merge_param_context_def bind_eq_Some_conv)
  have "permitted pr c (add_effect e b a)" if "permitted pr c a" for a
    using that assms(3) add_effect_members[of e b a] unfolding permitted_iff by blast
  then have "clean_step pr c c1"
    using c1(1) unfolding cg_add_effect_def by (elim touch_effects_clean) auto
  then show ?thesis by (simp add: c1(2) clean_step_def same_place_def split: option.splits)
qed

lemma reset_effect_accum_clean:
  assumes "clean_step pr c d" "effect_accum c = Some a"
  shows "clean_step pr c (reset_effect_accum (effect_copy a) d)"
  using assms by (auto simp: clean_step_def same_place_def reset_effect_accum_def permitted_iff
      effect_assign_def effect_copy_def split: option.splits)

locale clean_visitor =
  fixes E :: visit_env and vis :: visitor
  assumes vis_clean: "clean (ve_printer E) c (vis e s c)"
begin

lemma visit_all_clean: "clean (ve_printer E) c (visit_all vis es s c)"
  by (induction es arbitrary: s c) (auto intro!: clean_and_then vis_clean)

lemma read_indices_clean: "clean (ve_printer E) c (read_indices vis v s c)"
  using visit_all_clean by (fastforce simp: read_indices_def clean_def bind_eq_Some_conv split: option.splits)

lemma check_read_var_clean: "clean (ve_printer E) c (check_read_var vis E v s c)"
  unfolding check_read_var_def
proof (rule clean_and_then[OF read_indices_clean], rule clean_bind)
  fix s d w assume w: "get_collective (ve_printer E) v = Some w"
  show "clean (ve_printer E) d (and_then (refuse_if (or_opt (is_nonreadable_field (ve_opts E) w (vs_facts s))
      (or_opt (read_conflict (ve_printer E) d w) (Some (dangling_pointer E w (vs_facts s))))) s d)
      (\<lambda>s c. cg_read_var E w c \<bind> (\<lambda>c1. Some (True, s, c1))))"
    by (rule clean_test) (use cg_read_var_clean[OF _ get_collective_idem[OF w]] in \<open>auto simp: clean_def bind_eq_Some_conv\<close>)
qed

lemma check_write_var_clean: "clean (ve_printer E) c (check_write_var vis E v s c)"
  unfolding check_write_var_def
proof (rule clean_and_then[OF read_indices_clean], rule clean_bind)
  fix s d w assume w: "get_collective (ve_printer E) v = Some w"
  show "clean (ve_printer E) d (and_then (refuse_if (or_opt (write_conflict (ve_printer E) d w)
      (Some (cg_flags d AND NO_DANGLING_PTR \<noteq> 0 \<and> dangling_pointer E w (vs_facts s)))) s d)
      (\<lambda>s c. cg_write_var E w c \<bind> (\<lambda>c1. Some (True, s, c1))))"
    by (rule clean_test) (use cg_write_var_clean[OF _ get_collective_idem[OF w]] in \<open>auto simp: clean_def bind_eq_Some_conv\<close>)
qed

lemma check_pointees_clean:
  "(\<And>p s c. clean (ve_printer E) c (chk p s c)) \<Longrightarrow> clean (ve_printer E) c (check_pointees chk ps s c)"
  by (induction ps arbitrary: s c) (auto intro!: clean_and_then)

lemma trace_pointers_clean:
  assumes "\<And>p s c. clean (ve_printer E) c (chk_last p s c)"
  shows "clean (ve_printer E) c (trace_pointers E (check_read_var vis E) chk_last n tmp s c)"
proof (induction n arbitrary: tmp s c)
  case (Suc n)
  show ?case
    unfolding trace_pointers.simps
    by (intro clean_bind clean_and_then clean_refuse check_pointees_clean Suc.IH)
      (use assms check_read_var_clean in \<open>simp split: if_splits\<close>)
qed simp

lemma access_pointed_clean:
  assumes "\<And>p s c. clean (ve_printer E) c (chk_last p s c)"
  shows "clean (ve_printer E) c (access_pointed vis E chk_last v t s c)"
proof (cases "effect_accum c")
  case (Some a)
  have main: "clean (ve_printer E) c (and_then (read_indices vis v s c) (\<lambda>s c1. do {
       cv \<leftarrow> get_collective (ve_printer E) v;
       (b, s1, c2) \<leftarrow> trace_pointers E (check_read_var vis E) chk_last n [cv] s c1;
       Some (b, s1, if b then c2 else reset_effect_accum (effect_copy a) c2) }))" for n
    unfolding clean_def
  proof (intro allI impI)
    fix b s' d
    assume "and_then (read_indices vis v s c) (\<lambda>s c1. do {
       cv \<leftarrow> get_collective (ve_printer E) v;
       (b, s1, c2) \<leftarrow> trace_pointers E (check_read_var vis E) chk_last n [cv] s c1;
       Some (b, s1, if b then c2 else reset_effect_accum (effect_copy a) c2) }) = Some (b, s', d)"
    then obtain b1 s1 c1 where 1: "read_indices vis v s c = Some (b1, s1, c1)" and
      2: "(if b1 then do {
        cv \<leftarrow> get_collective (ve_printer E) v;
        (b, s1, c2) \<leftarrow> trace_pointers E (check_read_var vis E) chk_last n [cv] s1 c1;
        Some (b, s1, if b then c2 else reset_effect_accum (effect_copy a) c2) } else Some (False, s1, c1)) = Some (b, s', d)"
      unfolding and_then_def by (cases "read_indices vis v s c") auto
    have i: "clean_step (ve_printer E) c c1" using read_indices_clean[of c v s] 1 unfolding clean_def by blast
    show "clean_step (ve_printer E) c d"
    proof (cases b1)
      case True
      then obtain cv b2 s2 c2 where t: "trace_pointers E (check_read_var vis E) chk_last n [cv] s1 c1 = Some (b2, s2, c2)"
        and d: "d = (if b2 then c2 else reset_effect_accum (effect_copy a) c2)"
        using 2 by (auto simp: bind_eq_Some_conv)
      have "clean (ve_printer E) c1 (trace_pointers E (check_read_var vis E) chk_last n [cv] s1 c1)"
        by (rule trace_pointers_clean) (rule assms)
      then have "clean_step (ve_printer E) c c2" using clean_step_trans[OF i] by (simp add: t)
      then show ?thesis using reset_effect_accum_clean[OF _ Some] d by simp
    qed (use i 2 in simp)
  qed
  show ?thesis unfolding access_pointed_def Some using main by (auto intro!: clean_bind)
qed (simp add: access_pointed_def)

lemma read_pointed_clean: "clean (ve_printer E) c (read_pointed vis E v t s c)"
  unfolding read_pointed_def by (rule access_pointed_clean[OF check_read_var_clean])

lemma write_pointed_clean: "clean (ve_printer E) c (write_pointed vis E v t s c)"
  unfolding write_pointed_def by (rule access_pointed_clean[OF check_write_var_clean])

end

end
