(* ===== verification/ExprVisit.thy ===== *)
theory ExprVisit
  imports Context
begin

text \<open>
  The visits of expressions: \<open>visit_facts\<close> of ExpressionVariable.cpp, Lhs.cpp, FunctionInvocation.cpp,
  FunctionInvocationBinary.cpp, ExpressionFuncall.cpp, ExpressionComma.cpp, ExpressionAssign.cpp and
  StatementAssign.cpp.  A visit checks each access of the expression against its context, collects the
  effect and updates the facts; the operands of an operator are visited in a context that grows by the
  effects of the operands before them.

  The body of a called function is the parameter \<open>revisit\<close>.  The visits follow the index
  expressions of variables that come out of the facts, so the recursion has a fuel; theory
  \<open>ExprFuel\<close> shows how much is enough.
\<close>

section \<open>Variables and left-hand sides\<close>

fun isBitfield :: "variable \<Rightarrow> bool option" where
  "isBitfield (Fld p j) = do { t \<leftarrow> vtype p; i \<leftarrow> vec_at (named_fields t) j; is_bitfield t i }"
| "isBitfield _ = Some False"

definition visit_variable :: "visitor \<Rightarrow> visit_env \<Rightarrow> variable \<Rightarrow> ctype \<Rightarrow> visit_state \<Rightarrow> cgcontext \<Rightarrow> visited" where
  "visit_variable vis E v t s c = do {
     deref_level \<leftarrow> indirect_level v t;
     if deref_level > 0 then
       and_then (refuse_if (Some (\<not> is_valid_ptr (ve_opts E) v (vs_facts s))) s c) (\<lambda>s c.
       and_then (check_read_var vis E v s c) (\<lambda>s c.
       and_then (read_pointed vis E v t s c) (check_deref_volatile E v deref_level)))
     else if deref_level < 0 then refuse_if (isBitfield v) s c
     else check_read_var vis E v s c }"

fun get_eval_to_subexps :: "expr \<Rightarrow> expr list" where
  "get_eval_to_subexps (EComma a b) = get_eval_to_subexps b"
| "get_eval_to_subexps (EAssign v t op e r) = [ELhs v t]"
| "get_eval_to_subexps (ECL t es) = ECL t es # concat (map get_eval_to_subexps es)"
| "get_eval_to_subexps e = [e]"

definition have_overlapping_fields :: "printer \<Rightarrow> expr \<Rightarrow> expr \<Rightarrow> fact list \<Rightarrow> bool option" where
  "have_overlapping_fields pr e1 e2 facts = do {
     vars1 \<leftarrow> find_union_pointees pr facts e1;
     if length vars1 = 0 then Some False
     else do {
       vars2 \<leftarrow> find_union_pointees pr facts e2;
       Some (list_ex (is_variable_in_set vars1) vars2) } }"

fun var_or_lhs :: "expr \<Rightarrow> bool" where
  "var_or_lhs (EVar v t) = True"
| "var_or_lhs (ELhs v t) = True"
| "var_or_lhs _ = False"

definition overlaps_rhs :: "printer \<Rightarrow> cgcontext \<Rightarrow> variable \<Rightarrow> ctype \<Rightarrow> fact list \<Rightarrow> bool option" where
  "overlaps_rhs pr c v t facts = (case curr_rhs c of
      None \<Rightarrow> Some False
    | Some rhs \<Rightarrow> any_opt (\<lambda>e. if var_or_lhs e then have_overlapping_fields pr e (ELhs v t) facts else Some False)
        (get_eval_to_subexps rhs))"

text \<open>Whether the right-hand side writes a pointer the left-hand side goes through.\<close>

fun written_on_way :: "effect \<Rightarrow> nat \<Rightarrow> variable list \<Rightarrow> fact list \<Rightarrow> bool option" where
  "written_on_way e 0 tmp facts = Some False"
| "written_on_way e (Suc n) tmp facts = do {
     tmp1 \<leftarrow> merge_pointees_of_pointers tmp facts;
     if list_ex (is_written e) tmp1 then Some True else written_on_way e n tmp1 facts }"

definition ptr_modified_in_rhs :: "printer \<Rightarrow> variable \<Rightarrow> ctype \<Rightarrow> fact list \<Rightarrow> cgcontext \<Rightarrow> bool option" where
  "ptr_modified_in_rhs pr v t facts c = do {
     indirect \<leftarrow> indirect_level v t;
     assert_that (indirect > 0);
     if is_written (effect_stm c) v then Some True
     else do {
       cv \<leftarrow> get_collective pr v;
       written_on_way (effect_stm c) (nat indirect - 1) [cv] facts } }"

text \<open>The indices of the left-hand side are visited in a context of their own, which collects no effect.\<close>

definition visit_indices :: "visitor \<Rightarrow> variable \<Rightarrow> visit_state \<Rightarrow> cgcontext \<Rightarrow> visited" where
  "visit_indices vis v s c = (case get_array v of
      None \<Rightarrow> Some (True, s, c)
    | Some av \<Rightarrow> do {
        let eff = add_effect (effect_stm c) False (effect_copy (effect_context c));
        (b, s1, rhs_context) \<leftarrow> visit_all vis (get_indices av) s (function_context (current_func c) eff None);
        Some (b, s1, c) })"

definition set_lhs_writes :: "cgcontext \<Rightarrow> cgcontext" where
  "set_lhs_writes c = c\<lparr>effect_accum := map_option (\<lambda>e. e\<lparr>lhs_write_vars := write_vars e\<rparr>) (effect_accum c)\<rparr>"

definition visit_lhs_access :: "visitor \<Rightarrow> visit_env \<Rightarrow> variable \<Rightarrow> ctype \<Rightarrow> visit_state \<Rightarrow> cgcontext \<Rightarrow> visited" where
  "visit_lhs_access vis E v t s c = do {
     deref_level \<leftarrow> indirect_level v t;
     if deref_level > 0 then
       and_then (refuse_if (Some (\<not> is_valid_ptr (ve_opts E) v (vs_facts s))) s c) (\<lambda>s c.
       and_then (refuse_if (ptr_modified_in_rhs (ve_printer E) v t (vs_facts s) c) s c) (\<lambda>s c.
       and_then (check_read_var vis E v s c) (\<lambda>s c.
       and_then (write_pointed vis E v t s c) (check_deref_volatile E v deref_level))))
     else check_write_var vis E v s c }"

definition visit_lhs :: "visitor \<Rightarrow> visit_env \<Rightarrow> variable \<Rightarrow> ctype \<Rightarrow> bool \<Rightarrow> visit_state \<Rightarrow> cgcontext \<Rightarrow> visited" where
  "visit_lhs vis E v t for_compound_assign s0 c0 =
     and_then (if for_compound_assign then visit_variable vis E v t s0 c0 else Some (True, s0, c0)) (\<lambda>s c.
     and_then (visit_indices vis v s c) (\<lambda>s c.
     and_then (refuse_if (overlaps_rhs (ve_printer E) c v t (vs_facts s)) s c) (\<lambda>s c.
     and_then (visit_lhs_access vis E v t s c) (\<lambda>s c. Some (True, s, set_lhs_writes c)))))"

section \<open>Operators, calls and assignments\<close>

text \<open>The operands, with the effects collected for each of them.\<close>

fun visit_params :: "visitor \<Rightarrow> bool \<Rightarrow> expr list \<Rightarrow> effect \<Rightarrow> visit_state \<Rightarrow> cgcontext \<Rightarrow>
    (bool \<times> visit_state \<times> cgcontext \<times> effect list) option" where
  "visit_params vis is_func_call [] running s c = Some (True, s, c, [])"
| "visit_params vis is_func_call (e # es) running s c = do {
     (b, s1, pc) \<leftarrow> vis e s (param_context c running (Some empty_effect));
     if \<not> b then Some (False, s1, c, [])
     else do {
       acc \<leftarrow> effect_accum pc;
       c1 \<leftarrow> merge_param_context pc (\<not> is_func_call) c;
       (b2, s2, c2, accs) \<leftarrow> visit_params vis is_func_call es (add_effect acc False running) s1 c1;
       Some (b2, s2, c2, acc # accs) } }"

definition visit_operands :: "visitor \<Rightarrow> bool \<Rightarrow> expr list \<Rightarrow> visit_state \<Rightarrow> cgcontext \<Rightarrow> visited" where
  "visit_operands vis is_func_call es s c = do {
     (b, s1, c1, accs) \<leftarrow> visit_params vis is_func_call es (effect_copy (effect_context c)) s c;
     Some (b, s1, c1) }"

fun is_ordered_op :: "prim_op \<Rightarrow> bool" where
  "is_ordered_op (eBinaryPrim eFunc) = (eFunc = eAnd \<or> eFunc = eOr)"
| "is_ordered_op _ = False"

definition visit_ordered :: "visitor \<Rightarrow> visit_env \<Rightarrow> expr list \<Rightarrow> visit_state \<Rightarrow> cgcontext \<Rightarrow> visited" where
  "visit_ordered vis E es s0 c0 = do {
     assert_that (length es = 2);
     and_then (vis (es ! 0) s0 c0) (\<lambda>s1 c1. and_then (vis (es ! 1) s1 c1) (\<lambda>s c. do {
       (fs, changed) \<leftarrow> merge_facts (ve_opts E) (vs_facts s) (vs_facts s1);
       Some (True, s\<lparr>vs_facts := fs\<rparr>, c) })) }"

definition visit_call :: "(nat \<Rightarrow> expr list \<Rightarrow> visit_state \<Rightarrow> cgcontext \<Rightarrow> visited) \<Rightarrow> visit_env \<Rightarrow> nat \<Rightarrow>
    expr list \<Rightarrow> visit_state \<Rightarrow> cgcontext \<Rightarrow> visited" where
  "visit_call revisit E n es s c = do {
     let f = ve_callee E n;
     (b, s1, new_context) \<leftarrow> revisit n es s (callee_context c f (effect_context c) (Some empty_effect));
     if \<not> b then Some (False, s1, c)
     else do {
       blk \<leftarrow> curr_blk c;
       e \<leftarrow> effect_accum new_context;
       c1 \<leftarrow> add_visible_effect E e blk c;
       fe \<leftarrow> add_external_effect (ve_access_once E) e (call_chain c1) (vs_feffects s1 (gf_id f));
       Some (True, s1\<lparr>vs_feffects := (vs_feffects s1)(gf_id f := fe)\<rparr>, c1) } }"

definition lhs_cg_context :: "cgcontext \<Rightarrow> effect \<Rightarrow> cgcontext \<Rightarrow> expr \<Rightarrow> cgcontext" where
  "lhs_cg_context c running rhs_cg_context e =
     (let pc = param_context c running (Some empty_effect) in
      pc\<lparr>effect_stm := effect_assign (effect_stm pc) (effect_stm rhs_cg_context), curr_rhs := Some e\<rparr>)"

definition visit_assign :: "visitor \<Rightarrow> visit_env \<Rightarrow> variable \<Rightarrow> ctype \<Rightarrow> assign_op \<Rightarrow> expr \<Rightarrow> expr \<Rightarrow>
    visit_state \<Rightarrow> cgcontext \<Rightarrow> visited" where
  "visit_assign vis E v t op e rhs s c = do {
     let running = effect_copy (effect_context c);
     (b, s1, rhs_cg_context) \<leftarrow> vis e s (param_context c running (Some empty_effect));
     if \<not> b then Some (False, s1, c)
     else do {
       rhs_accum \<leftarrow> effect_accum rhs_cg_context;
       let running1 = (if op \<noteq> eSimpleAssign then add_effect rhs_accum False running else running);
       c1 \<leftarrow> merge_param_context rhs_cg_context True c;
       running2 \<leftarrow> write_var_set (ve_access_once E) (lhs_write_vars rhs_accum) running1;
       (b2, s2, lc) \<leftarrow> visit_lhs vis E v t (op \<noteq> eSimpleAssign) s1 (lhs_cg_context c1 running2 rhs_cg_context e);
       if \<not> b2 then Some (False, s2, c1)
       else do {
         c2 \<leftarrow> merge_param_context lc True c1;
         (fs, changed) \<leftarrow> update_fact_for_assign (ve_opts E) (ve_printer E) (ve_calls E) v t (Some rhs) (vs_facts s2);
         Some (True, s2\<lparr>vs_facts := fs,
           vs_stm_effects := AList.update (EAssign v t op e rhs) (effect_copy (effect_stm c2)) (vs_stm_effects s2)\<rparr>, c2) } } }"

fun visit_expr :: "(nat \<Rightarrow> expr list \<Rightarrow> visit_state \<Rightarrow> cgcontext \<Rightarrow> visited) \<Rightarrow> visit_env \<Rightarrow> nat \<Rightarrow> visitor" where
  "visit_expr revisit E 0 e s c = None"
| "visit_expr revisit E (Suc n) e s c =
    (let vis = visit_expr revisit E n in
     case e of
       EConst t str \<Rightarrow> Some (True, s, c)
     | ECL t es \<Rightarrow> Some (True, s, c)
     | EVar v t \<Rightarrow> visit_variable vis E v t s c
     | ELhs v t \<Rightarrow> visit_lhs vis E v t False s c
     | EComma a b \<Rightarrow> and_then (vis a s c) (vis b)
     | EPrim op t es \<Rightarrow> if is_ordered_op op then visit_ordered vis E es s c else visit_operands vis False es s c
     | ECall m t es \<Rightarrow> and_then (visit_operands vis True es s c) (visit_call revisit E m es)
     | EAssign v t op a rhs \<Rightarrow> visit_assign vis E v t op a rhs s c)"

section \<open>Growing contexts\<close>

text \<open>A context whose effects only grew permits less.\<close>

definition grown :: "effect \<Rightarrow> effect \<Rightarrow> bool" where
  "grown e f \<longleftrightarrow> (\<exists>rs ws. read_vars f = read_vars e @ rs \<and> write_vars f = write_vars e @ ws) \<and>
     (side_effect_free f \<longrightarrow> side_effect_free e)"

lemma grown_refl [simp]: "grown e e"
  by (simp add: grown_def)

lemma grown_copy [simp]: "grown e (effect_copy e)"
  by (simp add: grown_def effect_copy_def)

lemma grown_trans: "grown a b \<Longrightarrow> grown b c \<Longrightarrow> grown a c"
  by (auto simp: grown_def)

lemma add_uncovered_append: "\<exists>us. add_uncovered q s t = s @ us"
proof (induction t arbitrary: s)
  case (Cons x t)
  show ?case using Cons[of s] Cons[of "s @ [x]"] by auto
qed simp

lemma grown_add_effect: "grown e (add_effect f b e)"
  using add_uncovered_append[of read_in "read_vars e" "read_vars f"]
    add_uncovered_append[of written_in "write_vars e" "write_vars f"]
  by (simp add: grown_def add_effect_def)

lemma grown_write_var_set: "write_var_set acc vars e = Some f \<Longrightarrow> grown e f"
  unfolding write_var_set_def
  by (rule foldM_invariant[where I = "grown e"])
    (auto simp: grown_def write_var_def bind_eq_Some_conv)

lemma same_union_prefix: "same_union_in pr u (xs @ ys) = Some False \<Longrightarrow> same_union_in pr u xs = Some False"
  by (induction xs) (auto simp: bind_eq_Some_conv split: if_splits)

lemma sibling_prefix:
  "sibling_union_field_in pr (xs @ ys) v = Some False \<Longrightarrow> sibling_union_field_in pr xs v = Some False"
  using same_union_prefix by (fastforce simp: sibling_union_field_in_def bind_eq_Some_conv split: option.splits)

lemma is_written_partially_mono:
  assumes "grown e f" "is_written_partially pr f v = Some False"
  shows "is_written_partially pr e v = Some False"
proof -
  obtain ws where w: "write_vars f = write_vars e @ ws" using assms(1) by (auto simp: grown_def)
  then have "is_written e x \<Longrightarrow> is_written f x" for x by (auto simp: is_written_def written_in_iff)
  then show ?thesis
    using assms(2) sibling_prefix[of pr "write_vars e" ws v]
    by (auto simp: is_written_partially_def sibling_union_field_is_written_def field_is_written_def
        field_touched_iff w split: if_splits)
qed

lemma is_read_partially_mono:
  assumes "grown e f" "is_read_partially pr f v = Some False"
  shows "is_read_partially pr e v = Some False"
proof -
  obtain rs where r: "read_vars f = read_vars e @ rs" using assms(1) by (auto simp: grown_def)
  then have "is_read e x \<Longrightarrow> is_read f x" for x by (auto simp: is_read_def read_in_iff)
  then show ?thesis
    using assms(2) sibling_prefix[of pr "read_vars e" rs v]
    by (auto simp: is_read_partially_def sibling_union_field_is_read_def field_is_read_def
        field_touched_iff r split: if_splits)
qed

text \<open>A place with the same restrictions and fewer effects.\<close>

definition looser :: "cgcontext \<Rightarrow> cgcontext \<Rightarrow> bool" where
  "looser c d \<longleftrightarrow> directive d = directive c \<and> iv_bounds d = iv_bounds c \<and>
     grown (effect_context c) (effect_context d)"

lemma looser_conflicts:
  assumes "looser c d"
  shows "read_conflict pr d v = Some False \<Longrightarrow> read_conflict pr c v = Some False"
    "write_conflict pr d v = Some False \<Longrightarrow> write_conflict pr c v = Some False"
proof -
  have g: "grown (effect_context c) (effect_context d)" using assms by (simp add: looser_def)
  have r: "is_nonreadable d v = is_nonreadable c v" "is_nonwritable pr d v = is_nonwritable pr c v"
    using assms by (simp_all add: looser_def is_nonreadable_def is_nonwritable_def)
  have v: "(do { vol \<leftarrow> var_is_volatile v; Some (vol \<and> \<not> side_effect_free (effect_context d)) }) = Some False \<Longrightarrow>
      (do { vol \<leftarrow> var_is_volatile v; Some (vol \<and> \<not> side_effect_free (effect_context c)) }) = Some False"
    using g by (cases "var_is_volatile v") (auto simp: grown_def)
  show "read_conflict pr d v = Some False \<Longrightarrow> read_conflict pr c v = Some False"
    using v is_written_partially_mono[OF g] by (simp add: read_conflict_def forbidden_access_def r)
  show "write_conflict pr d v = Some False \<Longrightarrow> write_conflict pr c v = Some False"
    using v is_written_partially_mono[OF g] is_read_partially_mono[OF g] by (simp add: write_conflict_def r)
qed

lemma looser_permitted: "looser c d \<Longrightarrow> permitted pr d e \<Longrightarrow> permitted pr c e"
  using looser_conflicts by (auto simp: permitted_iff)

lemma same_place_looser: "same_place c d \<Longrightarrow> looser c d"
  by (simp add: looser_def same_place_def)

section \<open>Visits keep a context clean\<close>

lemma clean_if: "(b \<Longrightarrow> clean pr c x) \<Longrightarrow> (\<not> b \<Longrightarrow> clean pr c y) \<Longrightarrow> clean pr c (if b then x else y)"
  by simp

lemmas clean_rules = clean_bind clean_and_then clean_refuse clean_if

lemma set_lhs_writes_clean: "clean_step pr c (set_lhs_writes c)"
  by (auto simp: clean_step_def same_place_def set_lhs_writes_def permitted_iff split: option.splits)

lemma param_context_looser:
  "grown (effect_context c) running \<Longrightarrow> looser c (param_context c running a)"
  by (simp add: looser_def param_context_def)

lemma external_reads_members:
  "foldM (\<lambda>v s. if P v then read_var acc v s else Some s) vs1 a = Some b \<Longrightarrow>
     set (read_vars b) \<subseteq> set (read_vars a) \<union> set vs1 \<and> write_vars b = write_vars a"
proof (induction vs1 arbitrary: a)
  case (Cons x vs1)
  then obtain a1 where "(if P x then read_var acc x a else Some a) = Some a1"
    "foldM (\<lambda>v s. if P v then read_var acc v s else Some s) vs1 a1 = Some b"
    by (auto simp: bind_eq_Some_conv)
  then show ?case using Cons.IH[of a1] read_var_members[of acc x a a1] by (cases "P x") auto
qed simp

lemma external_writes_members:
  "foldM (\<lambda>v s. if P v then do { s1 \<leftarrow> write_var acc v s; Some (s1\<lparr>pure := False\<rparr>) } else Some s) vs1 a = Some b \<Longrightarrow>
     set (write_vars b) \<subseteq> set (write_vars a) \<union> set vs1 \<and> read_vars b = read_vars a"
proof (induction vs1 arbitrary: a)
  case (Cons x vs1)
  let ?f = "\<lambda>v s. if P v then do { s1 \<leftarrow> write_var acc v s; Some (s1\<lparr>pure := False\<rparr>) } else Some s"
  from Cons.prems obtain a1 where a1: "?f x a = Some a1" "foldM ?f vs1 a1 = Some b"
    by (auto simp: bind_eq_Some_conv split: if_splits)
  have "set (write_vars a1) \<subseteq> insert x (set (write_vars a)) \<and> read_vars a1 = read_vars a"
    using a1(1) write_var_members[of acc x a] by (cases "P x") (auto simp: bind_eq_Some_conv)
  then show ?case using Cons.IH[OF a1(2)] by auto
qed simp

lemma add_external_effect_members:
  assumes "add_external_effect acc e chain a = Some b"
  shows "set (read_vars b) \<subseteq> set (read_vars a) \<union> set (read_vars e) \<and>
    set (write_vars b) \<subseteq> set (write_vars a) \<union> set (write_vars e)"
proof -
  obtain e1 e2 where "foldM (\<lambda>v s. if seen_by chain v then read_var acc v s else Some s) (read_vars e) a = Some e1"
    "foldM (\<lambda>v s. if seen_by chain v
       then do { s1 \<leftarrow> write_var acc v s; Some (s1\<lparr>pure := False\<rparr>) } else Some s) (write_vars e) e1 = Some e2"
    "b = e2\<lparr>side_effect_free := side_effect_free e2 \<and> side_effect_free e\<rparr>"
    using assms unfolding add_external_effect_def bind_eq_Some_conv by blast
  then show ?thesis using external_reads_members external_writes_members by fastforce
qed

context clean_visitor
begin

lemma visit_variable_clean: "clean (ve_printer E) c (visit_variable vis E v t s c)"
  unfolding visit_variable_def
  by (intro clean_rules check_read_var_clean read_pointed_clean check_deref_volatile_clean)

lemma visit_indices_clean: "clean (ve_printer E) c (visit_indices vis v s c)"
  by (auto simp: visit_indices_def clean_def bind_eq_Some_conv Let_def split: option.splits)

lemma visit_lhs_access_clean: "clean (ve_printer E) c (visit_lhs_access vis E v t s c)"
  unfolding visit_lhs_access_def
  by (intro clean_rules check_read_var_clean check_write_var_clean write_pointed_clean check_deref_volatile_clean)

lemma visit_lhs_clean: "clean (ve_printer E) c (visit_lhs vis E v t b s c)"
  unfolding visit_lhs_def
  by (intro clean_rules visit_variable_clean visit_indices_clean visit_lhs_access_clean)
    (simp_all add: set_lhs_writes_clean)

text \<open>A visit with an effect of its own collects what is permitted in its context, so also in the
  contexts it was made from.\<close>

lemma visit_collects:
  assumes "vis e s (param_context c running (Some empty_effect)) = Some (b, s', pc)" "effect_accum pc = Some acc"
  shows "permitted (ve_printer E) (param_context c running None) acc"
proof -
  have "clean_step (ve_printer E) (param_context c running (Some empty_effect)) pc"
    using vis_clean[of "param_context c running (Some empty_effect)" e s] assms(1) by simp
  then have "permitted (ve_printer E) (param_context c running (Some empty_effect)) acc"
    using assms(2) by (auto simp: clean_step_def param_context_def)
  then show ?thesis by (rule looser_permitted[rotated]) (simp add: looser_def param_context_def)
qed

text \<open>Each operand is checked in a context that holds the effects of the operands before it.\<close>

lemma visit_params_clean:
  "visit_params vis fc es running s c = Some (b, s', c', accs) \<Longrightarrow> grown (effect_context c) running \<Longrightarrow>
     clean_step (ve_printer E) c c' \<and>
     (\<forall>i < length accs. permitted (ve_printer E)
        (param_context c (fold (\<lambda>a r. add_effect a False r) (take i accs) running) None) (accs ! i))"
proof (induction es arbitrary: running s c accs)
  case (Cons e es)
  obtain b1 s1 pc where 1: "vis e s (param_context c running (Some empty_effect)) = Some (b1, s1, pc)"
    using Cons.prems(1) by (auto simp: bind_eq_Some_conv)
  show ?case
  proof (cases b1)
    case False
    then show ?thesis using Cons.prems(1) 1 by auto
  next
    case True
    then obtain acc c1 accs' where 2: "effect_accum pc = Some acc" "merge_param_context pc (\<not> fc) c = Some c1"
      "visit_params vis fc es (add_effect acc False running) s1 c1 = Some (b, s', c', accs')"
      "accs = acc # accs'"
      using Cons.prems(1) 1 by (auto simp: bind_eq_Some_conv)
    have p: "permitted (ve_printer E) (param_context c running None) acc" by (rule visit_collects[OF 1 2(1)])
    then have pc: "permitted (ve_printer E) c acc"
      by (rule looser_permitted[OF param_context_looser[OF Cons.prems(2)]])
    have st: "clean_step (ve_printer E) c c1" by (rule merge_param_context_clean[OF 2(2,1) pc])
    have pl: "same_place c c1" using st by (simp add: clean_step_def)
    have g: "grown (effect_context c1) (add_effect acc False running)"
      using pl grown_trans[OF Cons.prems(2) grown_add_effect] by (simp add: same_place_def)
    have same: "permitted pr (param_context c1 r None) a \<Longrightarrow> permitted pr (param_context c r None) a" for pr r a
      by (rule looser_permitted[rotated], assumption) (use pl in \<open>simp add: looser_def same_place_def param_context_def\<close>)
    have ih: "clean_step (ve_printer E) c1 c'"
      "\<forall>i < length accs'. permitted (ve_printer E)
        (param_context c1 (fold (\<lambda>a r. add_effect a False r) (take i accs') (add_effect acc False running)) None) (accs' ! i)"
      using Cons.IH[OF 2(3) g] by blast+
    have "permitted (ve_printer E) (param_context c (fold (\<lambda>a r. add_effect a False r) (take i accs) running) None) (accs ! i)"
      if "i < length accs" for i
      using that p ih(2) same by (cases i) (auto simp: 2(4))
    then show ?thesis using clean_step_trans[OF st ih(1)] by blast
  qed
qed simp

lemma visit_operands_clean: "clean (ve_printer E) c (visit_operands vis fc es s c)"
  using visit_params_clean[OF _ grown_copy] by (fastforce simp: visit_operands_def clean_def bind_eq_Some_conv)

lemma visit_ordered_clean: "clean (ve_printer E) c (visit_ordered vis E es s c)"
  unfolding visit_ordered_def
  by (intro clean_rules vis_clean) (auto intro!: clean_rules)

lemma visit_assign_clean: "clean (ve_printer E) c (visit_assign vis E v t op e rhs s c)"
  unfolding clean_def
proof (intro allI impI)
  fix b s' d assume a: "visit_assign vis E v t op e rhs s c = Some (b, s', d)"
  let ?run = "effect_copy (effect_context c)"
  obtain b1 s1 pc where 1: "vis e s (param_context c ?run (Some empty_effect)) = Some (b1, s1, pc)"
    using a by (auto simp: visit_assign_def Let_def bind_eq_Some_conv)
  show "clean_step (ve_printer E) c d"
  proof (cases b1)
    case False
    then show ?thesis using a 1 by (simp add: visit_assign_def Let_def)
  next
    case True
    let ?run1 = "\<lambda>acc. if op \<noteq> eSimpleAssign then add_effect acc False ?run else ?run"
    let ?lc = "\<lambda>c1 run. lhs_cg_context c1 run pc e"
    obtain acc c1 run b2 s2 lc where 2: "effect_accum pc = Some acc" "merge_param_context pc True c = Some c1"
      "write_var_set (ve_access_once E) (lhs_write_vars acc) (?run1 acc) = Some run"
      "visit_lhs vis E v t (op \<noteq> eSimpleAssign) s1 (?lc c1 run) = Some (b2, s2, lc)"
      "(if \<not> b2 then Some (False, s2, c1)
        else do {
          c2 \<leftarrow> merge_param_context lc True c1;
          (fs, changed) \<leftarrow> update_fact_for_assign (ve_opts E) (ve_printer E) (ve_calls E) v t (Some rhs) (vs_facts s2);
          Some (True, s2\<lparr>vs_facts := fs,
            vs_stm_effects := AList.update (EAssign v t op e rhs) (effect_copy (effect_stm c2)) (vs_stm_effects s2)\<rparr>, c2) })
        = Some (b, s', d)"
      using a 1 True by (auto simp: visit_assign_def Let_def bind_eq_Some_conv simp del: if_split split del: if_split)
    have pc: "permitted (ve_printer E) c acc"
      by (rule looser_permitted[OF param_context_looser[OF grown_copy] visit_collects[OF 1 2(1)]])
    have st: "clean_step (ve_printer E) c c1" by (rule merge_param_context_clean[OF 2(2,1) pc])
    have "grown ?run run"
      using grown_write_var_set[OF 2(3)] grown_add_effect[of ?run acc False] grown_trans by (auto split: if_splits)
    then have g: "grown (effect_context c1) run"
      using st grown_trans[OF grown_copy] by (simp add: clean_step_def same_place_def)
    have lc: "clean_step (ve_printer E) (?lc c1 run) lc"
      using visit_lhs_clean[of "?lc c1 run" v t "op \<noteq> eSimpleAssign" s1] 2(4) by simp
    then obtain la where la: "effect_accum lc = Some la" "permitted (ve_printer E) (?lc c1 run) la"
      by (auto simp: clean_step_def lhs_cg_context_def param_context_def Let_def)
    have pl: "permitted (ve_printer E) c1 la"
      by (rule looser_permitted[OF _ la(2)])
        (use g in \<open>simp add: looser_def lhs_cg_context_def param_context_def Let_def\<close>)
    have "d = c1 \<or> merge_param_context lc True c1 = Some d"
      using 2(5) by (auto simp: bind_eq_Some_conv split: if_splits)
    then show ?thesis using st clean_step_trans[OF st] merge_param_context_clean[OF _ la(1) pl] by blast
  qed
qed

end

text \<open>The bodies of called functions are visited by the same rules.\<close>

locale call_rules =
  fixes E :: visit_env and revisit :: "nat \<Rightarrow> expr list \<Rightarrow> visit_state \<Rightarrow> cgcontext \<Rightarrow> visited"
  assumes revisit_clean: "clean (ve_printer E) c (revisit n es s c)"
begin

lemma visit_call_clean: "clean (ve_printer E) c (visit_call revisit E n es s c)"
  unfolding clean_def
proof (intro allI impI)
  fix b s' d assume a: "visit_call revisit E n es s c = Some (b, s', d)"
  let ?nc = "callee_context c (ve_callee E n) (effect_context c) (Some empty_effect)"
  obtain b1 s1 nc where 1: "revisit n es s ?nc = Some (b1, s1, nc)"
    using a by (auto simp: visit_call_def Let_def bind_eq_Some_conv)
  show "clean_step (ve_printer E) c d"
  proof (cases b1)
    case True
    then obtain blk e where 2: "effect_accum nc = Some e" "add_visible_effect E e blk c = Some d"
      using a 1 by (auto simp: visit_call_def Let_def bind_eq_Some_conv)
    have "clean_step (ve_printer E) ?nc nc" using revisit_clean[of ?nc n es s] 1 by simp
    then have "permitted (ve_printer E) ?nc e"
      using 2(1) by (auto simp: clean_step_def callee_context_def extend_call_chain_def Let_def)
    then have p: "permitted (ve_printer E) c e"
      by (rule looser_permitted[rotated]) (simp add: looser_def callee_context_def extend_call_chain_def Let_def)
    have "permitted (ve_printer E) c y" if "add_external_effect acc e chain x = Some y" "permitted (ve_printer E) c x" for acc chain x y
      using that(2) p add_external_effect_members[OF that(1)] unfolding permitted_iff by blast
    then show ?thesis
      using touch_effects_clean[OF 2(2)[unfolded add_visible_effect_def Let_def]] by blast
  qed (use a 1 in \<open>simp add: visit_call_def Let_def\<close>)
qed

lemma visit_expr_clean: "clean (ve_printer E) c (visit_expr revisit E n e s c)"
proof (induction n arbitrary: e s c)
  case (Suc n)
  have v: "clean_visitor E (visit_expr revisit E n)" by unfold_locales (rule Suc.IH)
  note rules = clean_visitor.visit_variable_clean[OF v] clean_visitor.visit_lhs_clean[OF v]
    clean_visitor.visit_assign_clean[OF v] clean_visitor.visit_operands_clean[OF v]
    clean_visitor.visit_ordered_clean[OF v]
  show ?case
    by (cases e) (auto simp: Let_def intro!: rules clean_and_then visit_call_clean Suc.IH)
qed simp

end

sublocale call_rules \<subseteq> visit: clean_visitor E "visit_expr revisit E n" for n
  by unfold_locales (rule visit_expr_clean)

section \<open>Accesses that are kept apart\<close>

text \<open>The condition under which reads of unions are recognised: collective variables of the program,
  where what is read as a whole has no union inside.\<close>

definition no_inner_union :: "variable \<Rightarrow> bool" where
  "no_inner_union r \<longleftrightarrow> (\<forall>w \<in> set (descendants r). \<not> var_is_union w)"

definition tidy_effect :: "printer \<Rightarrow> effect \<Rightarrow> bool" where
  "tidy_effect pr e \<longleftrightarrow> (\<forall>x \<in> set (read_vars e) \<union> set (write_vars e). genuine x \<and> get_collective pr x = Some x) \<and>
     (\<forall>x \<in> set (read_vars e). no_inner_union x)"

lemma tidy_genuine: "tidy_effect pr e \<Longrightarrow> genuine_effect e"
  by (simp add: tidy_effect_def genuine_effect_def)

lemma ancestors_step: "u \<in> set (ancestors p) \<Longrightarrow> u \<noteq> Fld p j"
  using ancestors_depth[of u p] by auto

lemma struct_chain_up:
  "genuine v \<Longrightarrow> r \<in> set (ancestors v) \<Longrightarrow>
     (\<And>u. u \<in> set (ancestors v) \<Longrightarrow> r \<in> set (ancestors u) \<Longrightarrow> u \<noteq> v \<Longrightarrow> \<not> var_is_union u) \<Longrightarrow> r \<in> struct_chain v"
proof (induction v)
  case (Fld p j)
  show ?case
  proof (cases "r = Fld p j")
    case False
    then have r: "r \<in> set (ancestors p)" using Fld.prems(2) by simp
    have u: "\<not> var_is_union u" if "u \<in> set (ancestors p)" "r \<in> set (ancestors u)" for u
      using Fld.prems(3)[of u] that ancestors_step by simp
    have "var_is_struct p"
      using Fld.prems(1) u[of p] r by (auto simp: field_vars_iff var_is_struct_def var_is_union_def is_aggregate_def)
    then show ?thesis using Fld.IH(1)[OF _ r] Fld.prems(1) u by simp
  qed simp
qed auto

lemma first_union:
  "r \<in> set (ancestors v) \<Longrightarrow> var_is_union r \<Longrightarrow>
     (\<And>u. u \<in> set (ancestors v) \<Longrightarrow> r \<in> set (ancestors u) \<Longrightarrow> u \<noteq> r \<Longrightarrow> \<not> var_is_union u) \<Longrightarrow>
     find var_is_union (ancestors v) = Some r"
proof (induction v)
  case (Fld p j)
  show ?case
  proof (cases "r = Fld p j")
    case False
    then have r: "r \<in> set (ancestors p)" using Fld.prems(1) by simp
    have "\<not> var_is_union (Fld p j)" using Fld.prems(3)[of "Fld p j"] r False by auto
    moreover have "find var_is_union (ancestors p) = Some r"
      by (rule Fld.IH(1)[OF r Fld.prems(2)]) (use Fld.prems(3) in auto)
    ultimately show ?thesis by simp
  qed (use Fld.prems in simp)
qed auto

lemma same_union_False:
  "same_union_in pr u xs = Some False \<Longrightarrow> x \<in> set xs \<Longrightarrow> get_collective pr x = Some x \<Longrightarrow>
     get_container_union x \<noteq> Some u"
  by (induction xs) (auto simp: bind_eq_Some_conv split: if_splits)

lemma read_apart:
  assumes t: "tidy_effect pr e" and v: "genuine v" "get_collective pr v = Some v"
    and n: "is_read_partially pr e v = Some False" and r: "r \<in> set (read_vars e)"
  shows "\<not> var_match r v \<and> \<not> var_match v r"
proof -
  have g: "genuine r" "get_collective pr r = Some r" "no_inner_union r"
    using t r by (auto simp: tidy_effect_def)
  have nr: "\<not> is_read e v" "\<not> field_is_read e v" "sibling_union_field_in pr (read_vars e) v = Some False"
    using n by (auto simp: is_read_partially_def sibling_union_field_is_read_def split: if_splits)
  have self: "r' \<in> struct_chain w \<Longrightarrow> r' \<in> set (read_vars e) \<Longrightarrow> is_read e w" for r' w
    by (auto simp: is_read_def read_in_iff)
  have out: "v \<notin> set (ancestors r)"
  proof
    assume "v \<in> set (ancestors r)"
    then have "r = v \<or> r \<in> set (descendants v)" using ancestors_descendants[OF g(1)] by blast
    then show False
      using self[OF struct_chain_self r] nr by (auto simp: field_is_read_def field_touched_iff)
  qed
  have "r \<notin> set (ancestors v)"
  proof
    assume a: "r \<in> set (ancestors v)"
    have rv: "r \<noteq> v" using out by auto
    have inner: "\<not> var_is_union u" if "u \<in> set (ancestors v)" "r \<in> set (ancestors u)" "u \<noteq> r" for u
      using g(3) ancestors_descendants[OF genuine_ancestors[OF v(1) that(1)] that(2,3)]
      by (auto simp: no_inner_union_def)
    show False
    proof (cases "var_is_union r")
      case False
      have "r \<in> struct_chain v" by (rule struct_chain_up[OF v(1) a]) (use inner False in blast)
      then show False using self r nr by blast
    next
      case True
      have "vtype v \<noteq> None" using genuine_match[OF v(1)] a rv by (auto simp: var_match_iff)
      then have "get_container_union v = Some r"
        using first_union[OF a True inner] by (simp add: get_container_union_def)
      then have "same_union_in pr r (read_vars e) = Some False" using nr(3) v(2) by (simp add: sibling_union_field_in_def)
      moreover have "get_container_union r = Some r"
        using True by (cases r) (auto simp: get_container_union_def var_is_union_def split: option.splits)
      ultimately show False using same_union_False[OF _ r g(2)] by blast
    qed
  qed
  then show ?thesis using out genuine_match[OF v(1)] genuine_match[OF g(1)] by blast
qed

text \<open>The fields of unions a variable lies in: the unions around it with the position of the field.\<close>

fun union_fields :: "variable \<Rightarrow> (variable \<times> nat) list" where
  "union_fields (Fld p j) = (if var_is_union p then [(p, j)] else []) @ union_fields p"
| "union_fields _ = []"

text \<open>Two variables may share storage when one is inside the other or they are inside different fields of
  the same union; all other variables are stored apart.\<close>

definition may_share :: "variable \<Rightarrow> variable \<Rightarrow> bool" where
  "may_share u v \<longleftrightarrow> u \<in> set (ancestors v) \<or> v \<in> set (ancestors u) \<or>
     list_ex (\<lambda>(p, i). list_ex (\<lambda>(q, j). p = q \<and> i \<noteq> j) (union_fields v)) (union_fields u)"

lemma union_fields_iff: "(p, i) \<in> set (union_fields v) \<longleftrightarrow> var_is_union p \<and> Fld p i \<in> set (ancestors v)"
  by (induction v) auto

lemma may_share_iff:
  "may_share u v \<longleftrightarrow> u \<in> set (ancestors v) \<or> v \<in> set (ancestors u) \<or>
     (\<exists>p i j. var_is_union p \<and> i \<noteq> j \<and> Fld p i \<in> set (ancestors u) \<and> Fld p j \<in> set (ancestors v))"
proof -
  have e: "list_ex (\<lambda>(p, i). list_ex (\<lambda>(q, j). p = q \<and> i \<noteq> j) ys) xs \<longleftrightarrow>
      (\<exists>p i j. i \<noteq> j \<and> (p, i) \<in> set xs \<and> (p, j) \<in> set ys)" for xs ys :: "(variable \<times> nat) list"
    unfolding list_ex_iff split_beta by (metis fst_conv snd_conv prod.collapse)
  show ?thesis unfolding may_share_def e union_fields_iff by blast
qed

lemma may_share_sym: "may_share u v \<longleftrightarrow> may_share v u"
  unfolding may_share_iff by metis

text \<open>What shares storage with a part shares it with the whole.\<close>

lemma may_share_up:
  assumes "may_share w x" "r \<in> set (ancestors w)"
  shows "may_share r x"
  using assms(1) unfolding may_share_iff
proof (elim disjE exE conjE)
  assume "w \<in> set (ancestors x)"
  then show "r \<in> set (ancestors x) \<or> x \<in> set (ancestors r) \<or> (\<exists>p i j. var_is_union p \<and> i \<noteq> j \<and>
      Fld p i \<in> set (ancestors r) \<and> Fld p j \<in> set (ancestors x))" using ancestors_trans[OF assms(2)] by blast
next
  assume "x \<in> set (ancestors w)"
  then show "r \<in> set (ancestors x) \<or> x \<in> set (ancestors r) \<or> (\<exists>p i j. var_is_union p \<and> i \<noteq> j \<and>
      Fld p i \<in> set (ancestors r) \<and> Fld p j \<in> set (ancestors x))" using ancestors_chain assms(2) by blast
next
  fix p i j assume a: "var_is_union p" "i \<noteq> j" "Fld p i \<in> set (ancestors w)" "Fld p j \<in> set (ancestors x)"
  have "Fld p i \<in> set (ancestors r) \<or> r \<in> set (ancestors (Fld p i))" using ancestors_chain[OF a(3) assms(2)] by blast
  moreover have "r \<in> set (ancestors x)" if "r \<in> set (ancestors (Fld p i))" "r \<noteq> Fld p i"
  proof -
    have "r \<in> set (ancestors (Fld p j))" using that by simp
    then show ?thesis using ancestors_trans a(4) by blast
  qed
  ultimately show "r \<in> set (ancestors x) \<or> x \<in> set (ancestors r) \<or> (\<exists>p i j. var_is_union p \<and> i \<noteq> j \<and>
      Fld p i \<in> set (ancestors r) \<and> Fld p j \<in> set (ancestors x))"
    using a ancestors_self by blast
qed

text \<open>At most one union around a variable, itself included.\<close>

definition single_union :: "variable \<Rightarrow> bool" where
  "single_union v \<longleftrightarrow> length (filter var_is_union (ancestors v)) \<le> 1"

definition plain_unions :: "effect \<Rightarrow> bool" where
  "plain_unions e \<longleftrightarrow> list_all single_union (read_vars e @ write_vars e)"

lemma single_union_container:
  assumes "single_union v" "var_is_union p" "p \<in> set (ancestors v)" "vtype v \<noteq> None"
  shows "get_container_union v = Some p"
proof -
  obtain q where q: "find var_is_union (ancestors v) = Some q" "q \<in> set (ancestors v)" "var_is_union q"
    using assms(2,3) by (cases "find var_is_union (ancestors v)") (auto simp: find_None_iff find_Some_iff)
  have "{p, q} \<subseteq> set (filter var_is_union (ancestors v))" using q assms(2,3) by simp
  moreover obtain u where "filter var_is_union (ancestors v) = [] \<or> filter var_is_union (ancestors v) = [u]"
    using assms(1) by (auto simp: single_union_def le_Suc_eq length_Suc_conv)
  ultimately have "p = q" by (metis empty_iff empty_set insert_subset list.set(2) singletonD)
  then show ?thesis using q assms(4) by (simp add: get_container_union_def)
qed

text \<open>The queries on partial accesses, exactly: an access that contains the variable or lies inside it, or one
  that has the same union around it.\<close>

definition partial_in :: "variable list \<Rightarrow> variable \<Rightarrow> bool" where
  "partial_in s v \<longleftrightarrow> list_ex (\<lambda>r. r \<in> set (ancestors v) \<or> v \<in> set (ancestors r) \<or>
     (get_container_union v \<noteq> None \<and> get_container_union r = get_container_union v)) s"

lemma same_union_exact:
  "\<forall>x \<in> set xs. get_collective pr x = Some x \<Longrightarrow> same_union_in pr u xs = Some (\<exists>x \<in> set xs. get_container_union x = Some u)"
  by (induction xs) auto

lemma sibling_exact:
  assumes "\<forall>x \<in> set xs. get_collective pr x = Some x" "get_collective pr v = Some v"
  shows "sibling_union_field_in pr xs v =
    Some (\<exists>x \<in> set xs. get_container_union v \<noteq> None \<and> get_container_union x = get_container_union v)"
  using assms by (cases "get_container_union v") (simp_all add: sibling_union_field_in_def same_union_exact)

lemma written_exact:
  assumes "tidy_effect pr e" "genuine v" "get_collective pr v = Some v"
  shows "is_written_partially pr e v = Some (partial_in (write_vars e) v)"
proof -
  have g: "\<forall>r \<in> set (write_vars e). genuine r \<and> get_collective pr r = Some r"
    using assms(1) by (simp add: tidy_effect_def)
  have "is_written e v \<or> field_is_written e v \<longleftrightarrow> (\<exists>r \<in> set (write_vars e). var_match r v \<or> var_match v r)"
    unfolding field_is_written_def
    by (rule below_overlap[OF _ assms(2)]) (use g in \<open>auto simp: is_written_def written_in_iff intro: ancestors_self\<close>)
  then have "is_written e v \<or> field_is_written e v \<longleftrightarrow>
      (\<exists>r \<in> set (write_vars e). r \<in> set (ancestors v) \<or> v \<in> set (ancestors r))"
    using g genuine_match assms(2) by blast
  then show ?thesis
    using sibling_exact[of "write_vars e" pr v] g assms(3)
    by (auto simp: is_written_partially_def sibling_union_field_is_written_def partial_in_def list_ex_iff)
qed

lemma read_exact:
  assumes "tidy_effect pr e" "genuine v" "get_collective pr v = Some v"
  shows "is_read_partially pr e v = Some (partial_in (read_vars e) v)"
proof -
  have g: "\<forall>r \<in> set (read_vars e). genuine r \<and> get_collective pr r = Some r"
    using assms(1) by (simp add: tidy_effect_def)
  have s: "sibling_union_field_is_read pr e v =
      Some (\<exists>x \<in> set (read_vars e). get_container_union v \<noteq> None \<and> get_container_union x = get_container_union v)"
    using sibling_exact[of "read_vars e" pr v] g assms(3) by (simp add: sibling_union_field_is_read_def)
  have up: "\<exists>r \<in> set (read_vars e). r \<in> set (ancestors v) \<or> v \<in> set (ancestors r)" if rd: "is_read e v \<or> field_is_read e v"
  proof -
    obtain w r where w: "v \<in> set (ancestors w)" "r \<in> set (read_vars e)" "r \<in> struct_chain w"
    proof (cases "is_read e v")
      case True
      then show thesis using that[of v] by (auto simp: is_read_def read_in_iff)
    next
      case False
      then have "field_is_read e v" using rd by blast
      then show thesis using that descendants_ancestors
        by (auto simp: field_is_read_def field_touched_iff is_read_def read_in_iff)
    qed
    then show ?thesis using struct_chain_outwards ancestors_chain by blast
  qed
  have down: "is_read_partially pr e v = Some True"
    if "r \<in> set (read_vars e)" "r \<in> set (ancestors v) \<or> v \<in> set (ancestors r)" for r
  proof (rule ccontr)
    assume "is_read_partially pr e v \<noteq> Some True"
    then have "is_read_partially pr e v = Some False" using s by (auto simp: is_read_partially_def split: if_splits)
    from read_apart[OF assms this that(1)] show False using that g assms(2) genuine_match by blast
  qed
  show ?thesis
  proof (cases "\<exists>r \<in> set (read_vars e). r \<in> set (ancestors v) \<or> v \<in> set (ancestors r)")
    case True
    then show ?thesis using down by (auto simp: partial_in_def list_ex_iff)
  next
    case False
    then have "\<not> is_read e v \<and> \<not> field_is_read e v" using up by blast
    then show ?thesis using False s by (auto simp: is_read_partially_def partial_in_def list_ex_iff)
  qed
qed

lemma partial_in_apart:
  assumes "\<not> partial_in s v" "r \<in> set s" "single_union r" "single_union v" "genuine r" "genuine v"
  shows "\<not> may_share r v"
proof
  assume "may_share r v"
  then obtain p i j where p: "var_is_union p" "Fld p i \<in> set (ancestors r)" "Fld p j \<in> set (ancestors v)"
    using assms(1,2) by (auto simp: may_share_iff partial_in_def list_ex_iff)
  have "p \<in> set (ancestors r)" "p \<in> set (ancestors v)"
    using p(2,3) ancestors_trans[of p "Fld p i" r] ancestors_trans[of p "Fld p j" v] by auto
  moreover have "vtype x \<noteq> None" if "genuine x" "Fld p k \<in> set (ancestors x)" for x k
  proof -
    have "x = Fld p k \<or> var_match (Fld p k) x" using genuine_match[OF that(1)] that(2) by blast
    moreover have "genuine (Fld p k)" using genuine_ancestors[OF that] .
    then have "vtype (Fld p k) \<noteq> None" by (auto simp: field_vars_iff vec_at_def)
    ultimately show ?thesis by (auto simp: var_match_iff)
  qed
  ultimately have "get_container_union r = Some p" "get_container_union v = Some p"
    using single_union_container assms(3-6) p by blast+
  then show False using assms(1,2) by (auto simp: partial_in_def list_ex_iff)
qed

lemma written_apart_touches:
  assumes "tidy_effect pr e" "genuine v" "get_collective pr v = Some v" "is_written_partially pr e v = Some False"
  shows "\<not> (\<exists>w. touches (write_vars e) w \<and> var_match v w)"
proof -
  have "\<not> partial_in (write_vars e) v" using assms(4) by (simp add: written_exact[OF assms(1-3)])
  then have "r \<notin> set (ancestors v) \<and> v \<notin> set (ancestors r)" if "r \<in> set (write_vars e)" for r
    using that by (auto simp: partial_in_def list_ex_iff)
  moreover have "genuine r" if "r \<in> set (write_vars e)" for r using assms(1) that by (simp add: tidy_effect_def)
  ultimately have "\<not> var_match r v \<and> \<not> var_match v r" if "r \<in> set (write_vars e)" for r
    using genuine_match[of r v] genuine_match[OF assms(2), of r] that by blast
  then show ?thesis using vm.contains_chain by (auto simp: touches_def)
qed

lemma read_apart_touches:
  assumes "tidy_effect pr e" "genuine v" "get_collective pr v = Some v" "is_read_partially pr e v = Some False"
  shows "\<not> (\<exists>w. touches (read_vars e) w \<and> var_match v w)"
  using read_apart[OF assms] vm.contains_chain by (auto simp: touches_def) 

text \<open>What is permitted next to an effect does not race with it.\<close>

lemma permitted_no_race:
  assumes p: "permitted pr c a" and t: "tidy_effect pr (effect_context c)" "tidy_effect pr a"
  shows "\<not> has_race_with (effect_context c) a"
proof -
  let ?e = "effect_context c"
  have w: "\<not> (\<exists>w. touches (write_vars ?e) w \<and> var_match y w)"
    if "y \<in> set (read_vars a) \<union> set (write_vars a)" for y
  proof -
    have g: "genuine y" "get_collective pr y = Some y" using t(2) that by (auto simp: tidy_effect_def)
    have "is_written_partially pr ?e y = Some False"
      using p that by (auto simp: permitted_iff read_conflict_def write_conflict_def forbidden_access_def)
    then show ?thesis by (rule written_apart_touches[OF t(1) g])
  qed
  have r: "\<not> (\<exists>w. touches (read_vars ?e) w \<and> var_match y w)" if "y \<in> set (write_vars a)" for y
    by (rule read_apart_touches[OF t(1)])
      (use p t(2) that in \<open>auto simp: tidy_effect_def permitted_iff write_conflict_def\<close>)
  have m: "touches s z \<Longrightarrow> \<exists>y \<in> set s. var_match y z" for s z by (simp add: touches_def)
  show ?thesis unfolding race_iff using w r m[of "read_vars a"] m[of "write_vars a"] by blast
qed

lemma touches_add_effect:
  assumes "genuine_effect a"
  shows "touches (read_vars (add_effect a b e)) w \<longleftrightarrow> touches (read_vars e) w \<or> touches (read_vars a) w"
    "touches (write_vars (add_effect a b e)) w \<longleftrightarrow> touches (write_vars e) w \<or> touches (write_vars a) w"
  using assms touches_add_uncovered[OF read_in_outwards] touches_add_uncovered[OF written_in_outwards]
  by (simp_all add: add_effect_def genuine_effect_def)

lemma tidy_add_effect: "tidy_effect pr e \<Longrightarrow> tidy_effect pr a \<Longrightarrow> tidy_effect pr (add_effect a b e)"
  using add_effect_members[of a b e] unfolding tidy_effect_def by blast

lemma race_add_effect:
  assumes "genuine_effect a" "\<not> has_race_with (add_effect a b e) f"
  shows "\<not> has_race_with a f \<and> \<not> has_race_with e f"
  using assms(2) unfolding race_iff touches_add_effect[OF assms(1)] by blast

lemma fold_effects_apart:
  "tidy_effect pr e \<Longrightarrow> \<forall>a \<in> set as. tidy_effect pr a \<Longrightarrow>
     tidy_effect pr (fold (\<lambda>a r. add_effect a False r) as e) \<and>
     (\<not> has_race_with (fold (\<lambda>a r. add_effect a False r) as e) f \<longrightarrow>
        \<not> has_race_with e f \<and> (\<forall>a \<in> set as. \<not> has_race_with a f))"
proof (induction as arbitrary: e)
  case (Cons a as)
  then have "tidy_effect pr (add_effect a False e)" using tidy_add_effect by simp
  note ih = Cons.IH[OF this]
  have a: "genuine_effect a" using Cons.prems(2) tidy_genuine by auto
  have rest: "\<forall>x \<in> set as. tidy_effect pr x" using Cons.prems(2) by simp
  have f: "fold (\<lambda>a r. add_effect a False r) (a # as) e = fold (\<lambda>a r. add_effect a False r) as (add_effect a False e)"
    by simp
  show ?case unfolding f using ih[OF rest] race_add_effect[OF a, of False e f] by (metis set_ConsD)
qed simp

context clean_visitor
begin

lemma operands_apart:
  assumes v: "visit_params vis fc es running s c = Some (b, s', c', accs)" "grown (effect_context c) running"
    and t: "tidy_effect (ve_printer E) running" "\<forall>a \<in> set accs. tidy_effect (ve_printer E) a"
    and j: "j < length accs"
  shows "\<not> has_race_with running (accs ! j) \<and> (\<forall>i < j. \<not> has_race_with (accs ! i) (accs ! j))"
proof -
  let ?run = "fold (\<lambda>a r. add_effect a False r) (take j accs) running"
  have p: "permitted (ve_printer E) (param_context c ?run None) (accs ! j)"
    using visit_params_clean[OF v] j by blast
  have tk: "\<forall>a \<in> set (take j accs). tidy_effect (ve_printer E) a" using t(2) by (meson in_set_takeD)
  note f = fold_effects_apart[OF t(1) tk, of "accs ! j"]
  have "\<not> has_race_with ?run (accs ! j)"
    using permitted_no_race[OF p] f t(2) j by (simp add: param_context_def)
  moreover have "accs ! i \<in> set (take j accs)" if "i < j" for i
    using that j by (metis in_set_conv_nth length_take min.absorb4 nth_take)
  ultimately show ?thesis using f by blast
qed

end

text \<open>A program whose functions call none, as generated with a single function, has no body to revisit.\<close>

definition no_user_calls :: "nat \<Rightarrow> expr list \<Rightarrow> visit_state \<Rightarrow> cgcontext \<Rightarrow> visited" where
  "no_user_calls n es s c = None"

interpretation single: call_rules E no_user_calls for E
  by unfold_locales (simp add: no_user_calls_def)

section \<open>Properties\<close>

text \<open>C4: the visit of an expression never collects an access that its context forbids: if the effect
  collected so far is not in conflict with the context (no forbidden variable read, no constant, no
  loop control variable and nothing forbidden written, nothing touched that the surrounding effects
  already write, nothing written that they read, no volatile access after a side effect), then the
  effect collected afterwards is not either, whether the visit succeeds or not.\<close>

theorem visit_expr_permitted:
  assumes "\<And>m es s c. clean (ve_printer E) c (revisit m es s c)"
    and "visit_expr revisit E n e s c = Some (b, s', c')" "effect_accum c = Some a"
    and "in_conflict (ve_printer E) c a = Some False"
  shows "\<exists>a'. effect_accum c' = Some a' \<and> in_conflict (ve_printer E) c' a' = Some False \<and>
    in_conflict (ve_printer E) c a' = Some False"
proof -
  have "call_rules E revisit" using assms(1) by unfold_locales
  then have st: "clean_step (ve_printer E) c c'"
    using call_rules.visit_expr_clean[of E revisit c n e s] assms(2) by simp
  then show ?thesis
    using assms(3,4) same_place_permitted by (auto simp: clean_step_def permitted_def[symmetric])
qed

text \<open>C14: the operands of an operator, whose order of evaluation is unspecified, do not race: for every
  two of them, neither writes what the other reads or writes, and none races with the effects of
  the context, provided the variables are collectives of the program and no variable with a union
  inside is read as a whole.\<close>

theorem operands_race_free:
  assumes "\<And>m es s c. clean (ve_printer E) c (revisit m es s c)"
    and "visit_params (visit_expr revisit E n) is_func_call es (effect_copy (effect_context c)) s c =
      Some (b, s', c', accs)"
    and "tidy_effect (ve_printer E) (effect_context c)" "\<forall>a \<in> set accs. tidy_effect (ve_printer E) a"
    and "i < j" "j < length accs"
  shows "\<not> has_race_with (accs ! i) (accs ! j) \<and> \<not> has_race_with (effect_context c) (accs ! j)"
proof -
  have "call_rules E revisit" using assms(1) by unfold_locales
  then have v: "clean_visitor E (visit_expr revisit E n)"
    by (intro clean_visitor.intro call_rules.visit_expr_clean)
  have t: "tidy_effect (ve_printer E) (effect_copy (effect_context c))"
    using assms(3) by (simp add: tidy_effect_def effect_copy_def)
  have "has_race_with (effect_copy e) f = has_race_with e f" for e f
    by (simp add: has_race_with_def effect_copy_def)
  then show ?thesis
    using clean_visitor.operands_apart[OF v assms(2) grown_copy t assms(4,6)] assms(5) by blast
qed

definition sample_env :: visit_env where
  "sample_env = \<lparr>ve_opts = default_options, ve_printer = sample_printer, ve_access_once = (\<lambda>v. False),
     ve_calls = no_calls, ve_callee = (\<lambda>n. \<lparr>f_params = [], f_rv = f_rv no_params, f_blocks = [], gf_id = n, gf_stack = []\<rparr>)\<rparr>"

definition sample_state :: visit_state where
  "sample_state = \<lparr>vs_facts = [FPointTo ptr_var [int_var]], vs_feffects = (\<lambda>n. empty_effect), vs_stm_effects = []\<rparr>"

definition sample_context :: cgcontext where
  "sample_context = function_context None empty_effect (Some empty_effect)"


text \<open>The operands of \<open>(*g_20 = 1) + (g_20 == 0)\<close>, say, where \<open>g_20\<close> points to \<open>g_21\<close>.\<close>

definition sample_operands :: "expr list" where
  "sample_operands = [EAssign ptr_var (TSimple eInt) eSimpleAssign (EConst (TSimple eInt) ''1'') (EConst (TSimple eInt) ''1''),
     EVar ptr_var int_ptr]"

lemma sample_operands_visit:
  "case visit_params (visit_expr no_user_calls sample_env 4) False sample_operands
      (effect_copy (effect_context sample_context)) sample_state sample_context of
     Some (b, s, c, accs) \<Rightarrow> b \<and> map read_vars accs = [[ptr_var], [ptr_var]] \<and> map write_vars accs = [[int_var], []]
   | None \<Rightarrow> False"
  by code_simp

lemma sample_vars_tidy:
  "genuine ptr_var" "genuine int_var" "get_collective pr ptr_var = Some ptr_var"
  "get_collective pr int_var = Some int_var" "no_inner_union ptr_var"
  by (simp_all add: ptr_var_def int_var_def plain_var_def get_collective_def is_field_var_def no_inner_union_def
      descendants_nonaggregate var_is_aggregate_def int_ptr_def is_aggregate_def)

lemma operands_race_free_witness:
  "\<exists>s c a b. visit_params (visit_expr no_user_calls sample_env 4) False sample_operands
      (effect_copy (effect_context sample_context)) sample_state sample_context = Some (True, s, c, [a, b]) \<and>
     write_vars a = [int_var] \<and> \<not> has_race_with a b"
proof -
  obtain b s c accs where v: "visit_params (visit_expr no_user_calls sample_env 4) False sample_operands
      (effect_copy (effect_context sample_context)) sample_state sample_context = Some (b, s, c, accs)"
    and r: "b" "map read_vars accs = [[ptr_var], [ptr_var]]" "map write_vars accs = [[int_var], []]"
    using sample_operands_visit by (auto split: option.splits)
  obtain a1 a2 where accs: "accs = [a1, a2]" using r(2) by auto
  have t: "tidy_effect (ve_printer sample_env) (effect_context sample_context)"
    by (simp add: tidy_effect_def sample_context_def function_context_def empty_effect_def)
  have t2: "\<forall>a \<in> set accs. tidy_effect (ve_printer sample_env) a"
    using r(2,3) by (simp add: accs tidy_effect_def sample_vars_tidy)
  have "\<not> has_race_with (accs ! 0) (accs ! 1)"
    by (rule operands_race_free[OF _ v t t2, THEN conjunct1]) (simp_all add: single.revisit_clean accs)
  then show ?thesis using v r accs by auto
qed

lemma visit_expr_permitted_witness:
  "\<exists>b s c a. visit_expr no_user_calls sample_env 4 (hd sample_operands) sample_state sample_context = Some (b, s, c) \<and>
     effect_accum c = Some a \<and> write_vars a = [int_var] \<and> in_conflict (ve_printer sample_env) c a = Some False"
proof -
  have "case visit_expr no_user_calls sample_env 4 (hd sample_operands) sample_state sample_context of
      Some (b, s, c) \<Rightarrow> (case effect_accum c of Some a \<Rightarrow> write_vars a = [int_var] | None \<Rightarrow> False) | None \<Rightarrow> False"
    by code_simp
  then obtain b s c a where v: "visit_expr no_user_calls sample_env 4 (hd sample_operands) sample_state sample_context = Some (b, s, c)"
    "effect_accum c = Some a" "write_vars a = [int_var]" by (auto split: option.splits)
  have "\<exists>a'. effect_accum c = Some a' \<and> in_conflict (ve_printer sample_env) c a' = Some False \<and>
      in_conflict (ve_printer sample_env) sample_context a' = Some False"
    by (rule visit_expr_permitted[OF single.revisit_clean v(1), of empty_effect])
      (simp add: sample_context_def function_context_def, rule permitted_empty[unfolded permitted_def])
  then show ?thesis using v by auto
qed

text \<open>A second operand that reads what the first one writes through the pointer is refused.\<close>

lemma conflicting_operand_refused:
  "map_option fst (visit_params (visit_expr no_user_calls sample_env 4) False
     [hd sample_operands, EVar int_var (TSimple eInt)]
     (effect_copy (effect_context sample_context)) sample_state sample_context) = Some False"
  by code_simp

text \<open>C27: the queries on partial accesses answer exactly whether a recorded variable contains the variable
  asked for, lies inside it, or has the same union around it. So, as long as no union is nested in a union, a
  variable of which the query finds no part written (read) shares no storage with a written (read) one: neither
  lies inside the other, nor are they in different fields of one union. Arrays are asked for by their collective
  variable, and the variables read as a whole have no union inside.\<close>

theorem partial_access_sound:
  assumes "tidy_effect pr e" "genuine v" "get_collective pr v = Some v"
  shows "is_written_partially pr e v = Some (partial_in (write_vars e) v) \<and>
    is_read_partially pr e v = Some (partial_in (read_vars e) v) \<and>
    (plain_unions e \<longrightarrow> single_union v \<longrightarrow>
      (is_written_partially pr e v = Some False \<longrightarrow> (\<forall>r \<in> set (write_vars e). \<not> may_share r v)) \<and>
      (is_read_partially pr e v = Some False \<longrightarrow> (\<forall>r \<in> set (read_vars e). \<not> may_share r v)))"
proof -
  have "genuine r" if "r \<in> set (read_vars e) \<union> set (write_vars e)" for r
    using assms(1) that by (simp add: tidy_effect_def)
  then show ?thesis
    using written_exact[OF assms] read_exact[OF assms] partial_in_apart assms(2)
    by (auto simp: plain_unions_def list_all_iff)
qed

lemma union_field_plain:
  "genuine union_var" "\<not> var_is_aggregate (Fld union_var 0)" "Fld union_var 0 \<in> set (field_vars union_var)"
  "get_collective sample_printer (Fld union_var 0) = Some (Fld union_var 0)"
  by code_simp+

lemma partial_access_sound_witness:
  "let e = sample_effect [Fld union_var 0] [Fld union_var 0] in
     is_written_partially sample_printer e (Fld union_var 1) = Some True \<and> is_read_partially sample_printer e (Fld union_var 1) = Some True \<and>
     is_written_partially sample_printer e int_var = Some False \<and> \<not> may_share (Fld union_var 0) int_var"
proof -
  let ?e = "sample_effect [Fld union_var 0] [Fld union_var 0]"
  have t: "tidy_effect sample_printer ?e"
    by (auto simp: tidy_effect_def sample_effect_def empty_effect_def no_inner_union_def descendants_nonaggregate union_field_plain)
  have v: "genuine (Fld union_var 1)" "get_collective sample_printer (Fld union_var 1) = Some (Fld union_var 1)"
    "genuine int_var" "get_collective sample_printer int_var = Some int_var" "plain_unions ?e" "single_union int_var"
    "partial_in (write_vars ?e) (Fld union_var 1)" "partial_in (read_vars ?e) (Fld union_var 1)"
    "\<not> partial_in (write_vars ?e) int_var" "Fld union_var 0 \<in> set (write_vars ?e)"
    by code_simp+
  show ?thesis using partial_access_sound[OF t v(1,2)] partial_access_sound[OF t v(3,4)] v(5-) by (simp add: Let_def)
qed

text \<open>The query finds the innermost union around a variable only. A union may have a struct with a union inside as
  a field: after a write of another field of the outer union, a query on a field of the inner one is answered no,
  although the two share storage.\<close>

definition nested_union :: variable where
  "nested_union = Var \<lparr>vi_id = 9, vi_name = ''g_9'',
     vi_type = Some (TAgg False 4 False [TSimple eInt, TAgg True 5 False [sample_union] [cvq_new [False] [False]] [-1]]
       [cvq_new [False] [False], cvq_new [False] [False]] [-1, -1]),
     vi_qfer = cvq_new [False] [False], vi_expanded = True\<rparr> None"

lemma nested_union_missed:
  "is_written_partially sample_printer (sample_effect [] [Fld nested_union 0]) (Fld (Fld (Fld nested_union 1) 0) 1) = Some False"
  "may_share (Fld nested_union 0) (Fld (Fld (Fld nested_union 1) 0) 1)"
  by code_simp+

end
