(* ===== verification/ExprAccess.thy ===== *)
theory ExprAccess
  imports ExprVisit
begin

text \<open>
  The accesses of an expression against its visit: a successful visit collects every variable the
  expression touches by name (its operands, the indices of its arrays, the targets of its
  assignments), and only adds to what was collected before.  With the permission of what is collected this
  says that the operands of an operator never touch overlapping variables unless both read.
\<close>

section \<open>Nothing is missed\<close>

text \<open>A successful check or visit only adds to what the collected effect covers.\<close>

definition covers_more :: "effect \<Rightarrow> effect \<Rightarrow> bool" where
  "covers_more a b \<longleftrightarrow> (\<forall>w. is_read a w \<longrightarrow> is_read b w) \<and> (\<forall>w. is_written a w \<longrightarrow> is_written b w)"

lemma covers_more_refl [simp]: "covers_more a a"
  by (simp add: covers_more_def)

lemma covers_more_trans: "covers_more a b \<Longrightarrow> covers_more b c \<Longrightarrow> covers_more a c"
  by (simp add: covers_more_def)

lemma covers_add_effect:
  "is_read (add_effect e b a) w \<longleftrightarrow> is_read a w \<or> is_read e w"
  "is_written (add_effect e b a) w \<longleftrightarrow> is_written a w \<or> is_written e w"
  by (simp_all add: is_read_def is_written_def add_effect_def rd.covers_add_uncovered wr.covers_add_uncovered)

definition more_step :: "cgcontext \<Rightarrow> cgcontext \<Rightarrow> bool" where
  "more_step c d \<longleftrightarrow> (\<forall>a. effect_accum c = Some a \<longrightarrow> (\<exists>b. effect_accum d = Some b \<and> covers_more a b))"

lemma more_step_refl [simp]: "more_step c c"
  by (simp add: more_step_def)

lemma more_step_trans: "more_step a b \<Longrightarrow> more_step b c \<Longrightarrow> more_step a c"
  unfolding more_step_def using covers_more_trans by blast

definition more :: "cgcontext \<Rightarrow> visited \<Rightarrow> bool" where
  "more c r \<longleftrightarrow> (\<forall>s d. r = Some (True, s, d) \<longrightarrow> more_step c d)"

lemma more_None [simp]: "more c None"
  and more_Some [simp]: "more c (Some (b, s, d)) \<longleftrightarrow> (b \<longrightarrow> more_step c d)"
  by (auto simp: more_def)

lemma and_then_True: "and_then r k = Some (True, s, d) \<longleftrightarrow> (\<exists>s1 c1. r = Some (True, s1, c1) \<and> k s1 c1 = Some (True, s, d))"
  by (auto simp: and_then_def bind_eq_Some_conv split: if_splits)

lemma refuse_if_True: "refuse_if t s c = Some (True, s', d) \<longleftrightarrow> t = Some False \<and> s' = s \<and> d = c"
  by (auto simp: refuse_if_def bind_eq_Some_conv)

lemma more_and_then: "more c r \<Longrightarrow> (\<And>s d. more d (k s d)) \<Longrightarrow> more c (and_then r k)"
  unfolding more_def and_then_True using more_step_trans by blast

lemma more_bind: "(\<And>x. m = Some x \<Longrightarrow> more c (f x)) \<Longrightarrow> more c (m \<bind> f)"
  by (cases m) auto

lemma more_refuse [simp]: "more c (refuse_if t s c)"
  by (auto simp: more_def refuse_if_True)

lemma more_if: "(b \<Longrightarrow> more c x) \<Longrightarrow> (\<not> b \<Longrightarrow> more c y) \<Longrightarrow> more c (if b then x else y)"
  by simp

lemmas more_rules = more_bind more_and_then more_refuse more_if

lemma touch_effects_more:
  assumes "touch_effects f g c = Some d" "\<And>a b. f a = Some b \<Longrightarrow> covers_more a b"
  shows "more_step c d"
  using assms(2) touch_effects_accum[OF assms(1)] by (auto simp: more_step_def)

lemma read_var_covers: "read_var acc v a = Some b \<Longrightarrow> covers_more a b \<and> is_read b v"
  using read_var_spec[of acc v a b] by (simp add: covers_more_def is_written_def)

lemma write_var_covers: "write_var acc v a = Some b \<Longrightarrow> covers_more a b \<and> is_written b v"
  using write_var_spec[of acc v a b] by (simp add: covers_more_def is_read_def)

lemma cg_read_var_more:
  assumes "cg_read_var E v c = Some d"
  shows "more_step c d" "get_collective (ve_printer E) v = Some w \<Longrightarrow> effect_accum d = Some b \<Longrightarrow> is_read b w"
proof -
  obtain w' where w: "get_collective (ve_printer E) v = Some w'"
    "touch_effects (read_var (ve_access_once E) w') (read_var (ve_access_once E) w') c = Some d"
    using assms by (auto simp: cg_read_var_def bind_eq_Some_conv)
  show "more_step c d" by (rule touch_effects_more[OF w(2)]) (simp add: read_var_covers)
  show "get_collective (ve_printer E) v = Some w \<Longrightarrow> effect_accum d = Some b \<Longrightarrow> is_read b w"
    using touch_effects_accum[OF w(2)] w(1) read_var_covers by (fastforce split: option.splits)
qed

lemma cg_write_var_more:
  assumes "cg_write_var E v c = Some d"
  shows "more_step c d" "get_collective (ve_printer E) v = Some w \<Longrightarrow> effect_accum d = Some b \<Longrightarrow> is_written b w"
proof -
  obtain w' where w: "get_collective (ve_printer E) v = Some w'"
    "touch_effects (write_var (ve_access_once E) w') (write_var (ve_access_once E) w') c = Some d"
    using assms by (auto simp: cg_write_var_def bind_eq_Some_conv)
  show "more_step c d" by (rule touch_effects_more[OF w(2)]) (simp add: write_var_covers)
  show "get_collective (ve_printer E) v = Some w \<Longrightarrow> effect_accum d = Some b \<Longrightarrow> is_written b w"
    using touch_effects_accum[OF w(2)] w(1) write_var_covers by (fastforce split: option.splits)
qed

lemma check_deref_volatile_more: "more c (check_deref_volatile E v l s c)"
proof -
  have "more_step c d" if
    "touch_effects (access_deref_volatile o1 v l) (access_deref_volatile o1 v l) c = Some d" for o1 d
    by (rule touch_effects_more[OF that])
      (auto simp: covers_more_def is_read_def is_written_def dest!: access_deref_volatile_members)
  then show ?thesis
    unfolding check_deref_volatile_def by (auto simp: more_def bind_eq_Some_conv split: if_splits)
qed

lemma merge_param_context_more:
  assumes "merge_param_context pc b c = Some d"
  shows "more_step c d" "effect_accum pc = Some e \<Longrightarrow> effect_accum c = Some a \<Longrightarrow>
    \<exists>f. effect_accum d = Some f \<and> covers_more e f"
proof -
  obtain e' c1 where c1: "effect_accum pc = Some e'" "cg_add_effect e' b c = Some c1" "d = c1\<lparr>expr_depth := expr_depth pc\<rparr>"
    using assms by (auto simp: merge_param_context_def bind_eq_Some_conv)
  note t = touch_effects_accum[OF c1(2)[unfolded cg_add_effect_def]]
  show "more_step c d" "effect_accum pc = Some e \<Longrightarrow> effect_accum c = Some a \<Longrightarrow>
    \<exists>f. effect_accum d = Some f \<and> covers_more e f"
    using t c1 by (auto simp: more_step_def covers_more_def covers_add_effect split: option.splits)
qed

locale growing_visitor =
  fixes E :: visit_env and vis :: visitor
  assumes vis_more: "more c (vis e s c)"
begin

lemma visit_all_more: "more c (visit_all vis es s c)"
  by (induction es arbitrary: s c) (auto intro!: more_and_then vis_more)

lemma read_indices_more: "more c (read_indices vis v s c)"
  using visit_all_more by (fastforce simp: read_indices_def more_def bind_eq_Some_conv split: option.splits)

lemma check_read_var_more: "more c (check_read_var vis E v s c)"
  unfolding check_read_var_def
  by (intro more_rules read_indices_more) (simp add: cg_read_var_more)

lemma check_write_var_more: "more c (check_write_var vis E v s c)"
  unfolding check_write_var_def
  by (intro more_rules read_indices_more) (simp add: cg_write_var_more)

lemma check_pointees_more:
  "(\<And>p s c. more c (chk p s c)) \<Longrightarrow> more c (check_pointees chk ps s c)"
  by (induction ps arbitrary: s c) (auto intro!: more_and_then)

lemma trace_pointers_more:
  assumes "\<And>p s c. more c (chk_last p s c)"
  shows "more c (trace_pointers E (check_read_var vis E) chk_last n tmp s c)"
proof (induction n arbitrary: tmp s c)
  case (Suc n)
  show ?case
    unfolding trace_pointers.simps
    by (intro more_bind more_and_then more_refuse check_pointees_more Suc.IH)
      (use assms check_read_var_more in \<open>simp split: if_splits\<close>)
qed simp

lemma access_pointed_more:
  assumes "\<And>p s c. more c (chk_last p s c)"
  shows "more c (access_pointed vis E chk_last v t s c)"
proof -
  have "more d (do {
       (b, s1, c1) \<leftarrow> trace_pointers E (check_read_var vis E) chk_last n tmp s d;
       Some (b, s1, if b then c1 else reset_effect_accum e c1) })" for d e n tmp s
    using trace_pointers_more[of chk_last d n tmp s] assms by (auto simp: more_def bind_eq_Some_conv split: if_splits)
  then show ?thesis
    unfolding access_pointed_def
    by (rule more_bind[OF more_bind[OF more_bind[OF more_and_then[OF read_indices_more more_bind]]]])
qed

lemma read_pointed_more: "more c (read_pointed vis E v t s c)"
  unfolding read_pointed_def by (rule access_pointed_more[OF check_read_var_more])

lemma write_pointed_more: "more c (write_pointed vis E v t s c)"
  unfolding write_pointed_def by (rule access_pointed_more[OF check_write_var_more])

lemma visit_variable_more: "more c (visit_variable vis E v t s c)"
  unfolding visit_variable_def
  by (intro more_rules check_read_var_more read_pointed_more check_deref_volatile_more)

lemma visit_indices_more: "more c (visit_indices vis v s c)"
  by (auto simp: visit_indices_def more_def bind_eq_Some_conv Let_def split: option.splits)

lemma visit_lhs_access_more: "more c (visit_lhs_access vis E v t s c)"
  unfolding visit_lhs_access_def
  by (intro more_rules check_read_var_more check_write_var_more write_pointed_more check_deref_volatile_more)

lemma set_lhs_writes_more: "more_step c (set_lhs_writes c)"
  by (auto simp: more_step_def set_lhs_writes_def covers_more_def is_read_def is_written_def)

lemma visit_lhs_more: "more c (visit_lhs vis E v t b s c)"
  unfolding visit_lhs_def
  by (intro more_rules visit_variable_more visit_indices_more visit_lhs_access_more)
    (simp_all add: set_lhs_writes_more)

definition gathered :: "expr \<Rightarrow> cgcontext \<Rightarrow> bool" where
  "gathered e d \<longleftrightarrow> (\<exists>c1 s1 s2 pc acc f. vis e s1 c1 = Some (True, s2, pc) \<and> effect_accum c1 = Some empty_effect \<and>
     effect_accum pc = Some acc \<and> effect_accum d = Some f \<and> covers_more acc f)"

lemma gathered_step: "gathered e c \<Longrightarrow> more_step c d \<Longrightarrow> gathered e d"
  unfolding gathered_def more_step_def using covers_more_trans by metis

lemma visit_params_more:
  "visit_params vis fc es running s c = Some (True, s', c', accs) \<Longrightarrow> effect_accum c = Some a \<Longrightarrow>
     more_step c c' \<and> (\<forall>e \<in> set es. gathered e c')"
proof (induction es arbitrary: running s c accs a)
  case (Cons e es)
  obtain s1 pc acc c1 accs' where 1: "vis e s (param_context c running (Some empty_effect)) = Some (True, s1, pc)"
    "effect_accum pc = Some acc" "merge_param_context pc (\<not> fc) c = Some c1"
    "visit_params vis fc es (add_effect acc False running) s1 c1 = Some (True, s', c', accs')"
    using Cons.prems(1) by (auto simp: bind_eq_Some_conv split: if_splits)
  note m = merge_param_context_more[OF 1(3)]
  obtain f where f: "effect_accum c1 = Some f" "covers_more acc f" using m(2)[OF 1(2) Cons.prems(2)] by blast
  note ih = Cons.IH[OF 1(4) f(1)]
  have "effect_accum (param_context c running (Some empty_effect)) = Some empty_effect" by (simp add: param_context_def)
  then have "gathered e c1" unfolding gathered_def using 1(1,2) f by blast
  then have "gathered e c'" using ih gathered_step by blast
  moreover have "more_step c c'" using m(1) ih more_step_trans by blast
  ultimately show ?case using ih by simp
qed simp

lemma visit_ordered_more: "more c (visit_ordered vis E es s c)"
  unfolding visit_ordered_def by (intro more_rules vis_more) (auto intro!: more_rules)

lemma visit_assign_parts:
  assumes "visit_assign vis E v t op e rhs s c = Some (True, s', d)" "effect_accum c \<noteq> None"
  shows "\<exists>run s1 pc acc s2 lc la f. vis e s (param_context c run (Some empty_effect)) = Some (True, s1, pc) \<and>
    effect_accum pc = Some acc \<and> (\<exists>pc2. effect_accum pc2 = Some empty_effect \<and>
      visit_lhs vis E v t (op \<noteq> eSimpleAssign) s1 pc2 = Some (True, s2, lc)) \<and> effect_accum lc = Some la \<and>
    effect_accum d = Some f \<and> covers_more acc f \<and> covers_more la f \<and> more_step c d"
proof -
  let ?run = "effect_copy (effect_context c)"
  obtain s1 pc acc c1 run s2 lc where 1: "vis e s (param_context c ?run (Some empty_effect)) = Some (True, s1, pc)"
    "effect_accum pc = Some acc" "merge_param_context pc True c = Some c1"
    "visit_lhs vis E v t (op \<noteq> eSimpleAssign) s1 (lhs_cg_context c1 run pc e) = Some (True, s2, lc)"
    "merge_param_context lc True c1 = Some d"
    using assms(1) by (auto simp: visit_assign_def Let_def bind_eq_Some_conv split: if_splits)
  obtain a where a: "effect_accum c = Some a" using assms(2) by auto
  note m1 = merge_param_context_more[OF 1(3)] and m2 = merge_param_context_more[OF 1(5)]
  obtain f1 where f1: "effect_accum c1 = Some f1" "covers_more acc f1" using m1(2)[OF 1(2) a] by blast
  obtain la where la: "effect_accum lc = Some la" using 1(5) by (auto simp: merge_param_context_def bind_eq_Some_conv)
  obtain f where f: "effect_accum d = Some f" "covers_more la f" using m2(2)[OF la f1(1)] by blast
  have "covers_more acc f" using m2(1) f1 f(1) covers_more_trans by (auto simp: more_step_def)
  moreover have "effect_accum (lhs_cg_context c1 run pc e) = Some empty_effect"
    by (simp add: lhs_cg_context_def param_context_def Let_def)
  moreover have "more_step c d" by (rule more_step_trans[OF m1(1) m2(1)])
  ultimately show ?thesis using 1 la f by blast
qed

lemma visit_assign_more: "more c (visit_assign vis E v t op e rhs s c)"
  using visit_assign_parts unfolding more_def by (metis more_step_def option.distinct(1))

lemma visit_operands_more: "more c (visit_operands vis fc es s c)"
proof -
  have "more_step c c'" if "visit_params vis fc es run s c = Some (True, s', c', accs)" for run s' c' accs
    using visit_params_more[OF that] by (cases "effect_accum c") (auto simp: more_step_def)
  then show ?thesis by (auto simp: visit_operands_def more_def bind_eq_Some_conv)
qed

text \<open>What a check records.\<close>

lemma check_read_var_records:
  assumes "check_read_var vis E v s c = Some (True, s', d)" "get_collective (ve_printer E) v = Some w"
    "effect_accum d = Some b"
  shows "is_read b w"
proof -
  obtain c1 where "cg_read_var E w c1 = Some d"
    using assms(1,2) by (auto simp: check_read_var_def and_then_True refuse_if_True bind_eq_Some_conv)
  then show ?thesis using cg_read_var_more(2) get_collective_idem[OF assms(2)] assms(3) by blast
qed

lemma check_write_var_records:
  assumes "check_write_var vis E v s c = Some (True, s', d)" "get_collective (ve_printer E) v = Some w"
    "effect_accum d = Some b"
  shows "is_written b w"
proof -
  obtain c1 where "cg_write_var E w c1 = Some d"
    using assms(1,2) by (auto simp: check_write_var_def and_then_True refuse_if_True bind_eq_Some_conv)
  then show ?thesis using cg_write_var_more(2) get_collective_idem[OF assms(2)] assms(3) by blast
qed

end

lemma add_external_effect_covers:
  assumes "add_external_effect acc e chain a = Some b"
  shows "covers_more a b"
proof -
  obtain e1 e2 where 1: "foldM (\<lambda>v s. if seen_by chain v then read_var acc v s else Some s) (read_vars e) a = Some e1"
    "foldM (\<lambda>v s. if seen_by chain v
       then do { s1 \<leftarrow> write_var acc v s; Some (s1\<lparr>pure := False\<rparr>) } else Some s) (write_vars e) e1 = Some e2"
    "b = e2\<lparr>side_effect_free := side_effect_free e2 \<and> side_effect_free e\<rparr>"
    using assms unfolding add_external_effect_def bind_eq_Some_conv by blast
  show ?thesis
    using external_reads_spec[OF 1(1)] external_writes_spec[OF 1(2)]
    by (auto simp: covers_more_def 1(3) is_read_def is_written_def)
qed

lemma visit_call_more: "more c (visit_call revisit E n es s c)"
proof -
  have "more_step c d" if "add_visible_effect E e b c = Some d" for e b d
    by (rule touch_effects_more[OF that[unfolded add_visible_effect_def Let_def]]) (rule add_external_effect_covers)
  then show ?thesis by (auto simp: more_def visit_call_def Let_def bind_eq_Some_conv split: if_splits)
qed

lemma visit_expr_more: "more c (visit_expr revisit E n e s c)"
proof (induction n arbitrary: e s c)
  case (Suc n)
  have v: "growing_visitor (visit_expr revisit E n)" by unfold_locales (rule Suc.IH)
  note rules = growing_visitor.visit_variable_more[OF v] growing_visitor.visit_lhs_more[OF v]
    growing_visitor.visit_assign_more[OF v] growing_visitor.visit_operands_more[OF v]
    growing_visitor.visit_ordered_more[OF v]
  show ?case
    by (cases e) (auto simp: Let_def intro!: rules more_and_then visit_call_more Suc.IH)
qed simp

interpretation collected: growing_visitor E "visit_expr revisit E n" for E revisit n
  by unfold_locales (rule visit_expr_more)

section \<open>Accesses by name\<close>

text \<open>The collective variables an expression reads (\<open>False\<close>) and writes (\<open>True\<close>), except for those
  behind pointers, in called functions, and in the OpenCL expressions.\<close>

inductive accesses :: "printer \<Rightarrow> expr \<Rightarrow> bool \<Rightarrow> variable \<Rightarrow> bool" for pr where
  var_read: "indirect_level v t = Some l \<Longrightarrow> 0 \<le> l \<Longrightarrow> get_collective pr v = Some w \<Longrightarrow> accesses pr (EVar v t) False w"
| var_index: "indirect_level v t = Some l \<Longrightarrow> 0 \<le> l \<Longrightarrow> get_array v = Some av \<Longrightarrow> e \<in> set (get_indices av) \<Longrightarrow>
    accesses pr e k w \<Longrightarrow> accesses pr (EVar v t) k w"
| lhs_write: "indirect_level v t = Some l \<Longrightarrow> l \<le> 0 \<Longrightarrow> get_collective pr v = Some w \<Longrightarrow> accesses pr (ELhs v t) True w"
| lhs_read: "indirect_level v t = Some l \<Longrightarrow> 0 < l \<Longrightarrow> get_collective pr v = Some w \<Longrightarrow> accesses pr (ELhs v t) False w"
| lhs_index: "get_array v = Some av \<Longrightarrow> e \<in> set (get_indices av) \<Longrightarrow>
    accesses pr e k w \<Longrightarrow> accesses pr (ELhs v t) k w"
| prim: "e \<in> set es \<Longrightarrow> accesses pr e k w \<Longrightarrow> accesses pr (EPrim op t es) k w"
| arg: "e \<in> set es \<Longrightarrow> accesses pr e k w \<Longrightarrow> accesses pr (ECall m t es) k w"
| comma_left: "accesses pr a k w \<Longrightarrow> accesses pr (EComma a b) k w"
| comma_right: "accesses pr b k w \<Longrightarrow> accesses pr (EComma a b) k w"
| assigned: "accesses pr e k w \<Longrightarrow> accesses pr (EAssign v t op e r) k w"
| target: "accesses pr (ELhs v t) k w \<Longrightarrow> accesses pr (EAssign v t op e r) k w"
| updated: "op \<noteq> eSimpleAssign \<Longrightarrow> accesses pr (EVar v t) k w \<Longrightarrow> accesses pr (EAssign v t op e r) k w"

inductive_simps accesses_simps:
  "accesses pr (EConst t str) k w" "accesses pr (ECL t es) k w" "accesses pr (EVar v t) k w"
  "accesses pr (ELhs v t) k w" "accesses pr (EPrim op t es) k w" "accesses pr (ECall m t es) k w"
  "accesses pr (EComma a b) k w" "accesses pr (EAssign v t op e r) k w"

definition recorded :: "bool \<Rightarrow> effect \<Rightarrow> variable \<Rightarrow> bool" where
  "recorded k a w \<longleftrightarrow> (if k then is_written a w else is_read a w)"

lemma recorded_more: "covers_more a b \<Longrightarrow> recorded k a w \<Longrightarrow> recorded k b w"
  by (auto simp: covers_more_def recorded_def split: if_splits)

text \<open>A context whose collected effect covers the accesses of an expression.\<close>

definition noted :: "printer \<Rightarrow> expr \<Rightarrow> cgcontext \<Rightarrow> bool" where
  "noted pr e d \<longleftrightarrow> (\<forall>b k w. effect_accum d = Some b \<longrightarrow> accesses pr e k w \<longrightarrow> recorded k b w)"

lemma noted_step: "noted pr e c \<Longrightarrow> effect_accum c = Some a \<Longrightarrow> more_step c d \<Longrightarrow> noted pr e d"
  unfolding noted_def more_step_def using recorded_more by (metis option.inject)

lemma noted_None: "effect_accum d = None \<Longrightarrow> noted pr e d"
  by (simp add: noted_def)

locale noting_visitor = growing_visitor +
  assumes vis_noted: "vis e s c = Some (True, s', d) \<Longrightarrow> effect_accum c = Some a \<Longrightarrow> noted (ve_printer E) e d"
begin

lemma visit_all_noted:
  "visit_all vis es s c = Some (True, s', d) \<Longrightarrow> effect_accum c = Some a \<Longrightarrow> e \<in> set es \<Longrightarrow> noted (ve_printer E) e d"
proof (induction es arbitrary: s c a)
  case (Cons x es)
  obtain s1 c1 where 1: "vis x s c = Some (True, s1, c1)" "visit_all vis es s1 c1 = Some (True, s', d)"
    using Cons.prems(1) by (auto simp: and_then_True)
  have m: "more_step c c1" using vis_more[of c x s] 1(1) by simp
  then obtain a1 where a1: "effect_accum c1 = Some a1" using Cons.prems(2) by (auto simp: more_step_def)
  have m1: "more_step c1 d" using visit_all_more[of c1 es s1] 1(2) by simp
  show ?case
    using Cons.prems(3) Cons.IH[OF 1(2) a1] noted_step[OF vis_noted[OF 1(1) Cons.prems(2)] a1 m1] by auto
qed simp

lemma read_indices_noted:
  assumes "read_indices vis v s c = Some (True, s', d)" "effect_accum c = Some a"
    "get_array v = Some av" "e \<in> set (get_indices av)"
  shows "noted (ve_printer E) e d"
proof -
  obtain s1 where "visit_all vis (get_indices av) s c = Some (True, s1, d)"
    using assms(1,3) by (auto simp: read_indices_def bind_eq_Some_conv)
  then show ?thesis by (rule visit_all_noted[OF _ assms(2,4)])
qed

lemma check_read_var_noted:
  assumes "check_read_var vis E v s c = Some (True, s', d)" "effect_accum c = Some a"
    "get_array v = Some av" "e \<in> set (get_indices av)"
  shows "noted (ve_printer E) e d"
proof -
  obtain s1 c1 w where 1: "read_indices vis v s c = Some (True, s1, c1)" "cg_read_var E w c1 = Some d"
    using assms(1) by (auto simp: check_read_var_def and_then_True refuse_if_True bind_eq_Some_conv)
  have "more_step c c1" using read_indices_more[of c v s] 1(1) by simp
  then obtain a1 where "effect_accum c1 = Some a1" using assms(2) by (auto simp: more_step_def)
  then show ?thesis using noted_step[OF read_indices_noted[OF 1(1) assms(2-4)]] cg_read_var_more(1)[OF 1(2)] by blast
qed

lemma check_write_var_noted:
  assumes "check_write_var vis E v s c = Some (True, s', d)" "effect_accum c = Some a"
    "get_array v = Some av" "e \<in> set (get_indices av)"
  shows "noted (ve_printer E) e d"
proof -
  obtain s1 c1 w where 1: "read_indices vis v s c = Some (True, s1, c1)" "cg_write_var E w c1 = Some d"
    using assms(1) by (auto simp: check_write_var_def and_then_True refuse_if_True bind_eq_Some_conv)
  have "more_step c c1" using read_indices_more[of c v s] 1(1) by simp
  then obtain a1 where "effect_accum c1 = Some a1" using assms(2) by (auto simp: more_step_def)
  then show ?thesis using noted_step[OF read_indices_noted[OF 1(1) assms(2-4)]] cg_write_var_more(1)[OF 1(2)] by blast
qed

text \<open>Both kinds of left-hand and right-hand variables go through a check.\<close>

lemma variable_noted:
  assumes "check_read_var vis E v s c = Some (True, s', d)" "effect_accum c = Some a" "more_step d f"
  shows "noted (ve_printer E) (EVar v t) f" "0 < the (indirect_level v t) \<Longrightarrow> noted (ve_printer E) (ELhs v t) f"
proof -
  have "more_step c d" using check_read_var_more[of c v s] assms(1) by simp
  then obtain b where b: "effect_accum d = Some b" using assms(2) by (auto simp: more_step_def)
  have r: "noted (ve_printer E) (EVar v t) d"
    using check_read_var_noted[OF assms(1,2)] check_read_var_records[OF assms(1)]
    by (auto simp: noted_def accesses_simps recorded_def)
  have l: "noted (ve_printer E) (ELhs v t) d" if "0 < the (indirect_level v t)"
    using that check_read_var_noted[OF assms(1,2)] check_read_var_records[OF assms(1)]
    by (auto simp: noted_def accesses_simps recorded_def)
  show "noted (ve_printer E) (EVar v t) f" "0 < the (indirect_level v t) \<Longrightarrow> noted (ve_printer E) (ELhs v t) f"
    using noted_step[OF _ b assms(3)] r l by blast+
qed

lemma visit_variable_noted:
  assumes "visit_variable vis E v t s c = Some (True, s', d)" "effect_accum c = Some a"
  shows "noted (ve_printer E) (EVar v t) d"
proof -
  obtain l where l: "indirect_level v t = Some l" using assms(1) by (auto simp: visit_variable_def bind_eq_Some_conv)
  consider "l < 0" | "l = 0" | "0 < l" by linarith
  then show ?thesis
  proof cases
    case 1
    then show ?thesis using l by (auto simp: noted_def accesses_simps)
  next
    case 2
    then have "check_read_var vis E v s c = Some (True, s', d)" using assms(1) l by (simp add: visit_variable_def)
    then show ?thesis by (rule variable_noted(1)[OF _ assms(2) more_step_refl])
  next
    case 3
    then obtain s1 c1 where 1: "check_read_var vis E v s c = Some (True, s1, c1)"
      "and_then (read_pointed vis E v t s1 c1) (check_deref_volatile E v l) = Some (True, s', d)"
      using assms(1) l by (auto simp: visit_variable_def and_then_True refuse_if_True)
    have "more c1 (and_then (read_pointed vis E v t s1 c1) (check_deref_volatile E v l))"
      by (intro more_rules read_pointed_more check_deref_volatile_more)
    then show ?thesis using variable_noted(1)[OF 1(1) assms(2)] 1(2) by simp
  qed
qed

lemma visit_lhs_access_noted:
  assumes "visit_lhs_access vis E v t s c = Some (True, s', d)" "effect_accum c = Some a"
  shows "noted (ve_printer E) (ELhs v t) d"
proof -
  obtain l where l: "indirect_level v t = Some l" using assms(1) by (auto simp: visit_lhs_access_def bind_eq_Some_conv)
  show ?thesis
  proof (cases "0 < l")
    case False
    then have 1: "check_write_var vis E v s c = Some (True, s', d)" using assms(1) l by (simp add: visit_lhs_access_def)
    then show ?thesis
      using False l check_write_var_noted[OF 1 assms(2)] check_write_var_records[OF 1]
      by (auto simp: noted_def accesses_simps recorded_def)
  next
    case True
    then obtain s1 c1 where 1: "check_read_var vis E v s c = Some (True, s1, c1)"
      "and_then (write_pointed vis E v t s1 c1) (check_deref_volatile E v l) = Some (True, s', d)"
      using assms(1) l by (auto simp: visit_lhs_access_def and_then_True refuse_if_True)
    have "more c1 (and_then (write_pointed vis E v t s1 c1) (check_deref_volatile E v l))"
      by (intro more_rules write_pointed_more check_deref_volatile_more)
    then show ?thesis using variable_noted(2)[OF 1(1) assms(2)] 1(2) True l by simp
  qed
qed

lemma visit_lhs_noted:
  assumes "visit_lhs vis E v t cmp s c = Some (True, s', d)" "effect_accum c = Some a"
  shows "noted (ve_printer E) (ELhs v t) d \<and> (cmp \<longrightarrow> noted (ve_printer E) (EVar v t) d)"
proof -
  obtain s1 c1 s2 c2 s3 c3 where 1: "(if cmp then visit_variable vis E v t s c else Some (True, s, c)) = Some (True, s1, c1)"
    "visit_indices vis v s1 c1 = Some (True, s2, c2)" "visit_lhs_access vis E v t s2 c2 = Some (True, s3, c3)"
    "d = set_lhs_writes c3"
    using assms(1) by (auto simp: visit_lhs_def and_then_True refuse_if_True)
  have m1: "more_step c c1" using 1(1) visit_variable_more[of c v t s] by (cases cmp) simp_all
  have m2: "more_step c1 c2" using 1(2) visit_indices_more[of c1 v s1] by simp
  have m3: "more_step c2 c3" using 1(3) visit_lhs_access_more[of c2 v t s2] by simp
  have m4: "more_step c3 d" by (simp add: 1(4) set_lhs_writes_more)
  obtain a1 a2 a3 where a: "effect_accum c1 = Some a1" "effect_accum c2 = Some a2" "effect_accum c3 = Some a3"
    using assms(2) m1 m2 m3 by (auto simp: more_step_def)
  have "noted (ve_printer E) (ELhs v t) d" by (rule noted_step[OF visit_lhs_access_noted[OF 1(3) a(2)] a(3) m4])
  moreover have "noted (ve_printer E) (EVar v t) d" if cmp
  proof -
    have "noted (ve_printer E) (EVar v t) c1" using 1(1) that visit_variable_noted[OF _ assms(2)] by simp
    then show ?thesis by (rule noted_step[OF _ a(1)]) (rule more_step_trans[OF m2 more_step_trans[OF m3 m4]])
  qed
  ultimately show ?thesis by blast
qed

lemma gathered_noted: "gathered e d \<Longrightarrow> noted (ve_printer E) e d"
  unfolding gathered_def using vis_noted recorded_more unfolding noted_def by (metis option.inject)

lemma visit_operands_noted:
  assumes "visit_operands vis fc es s c = Some (True, s', d)" "effect_accum c = Some a" "e \<in> set es"
  shows "noted (ve_printer E) e d"
proof -
  obtain accs where "visit_params vis fc es (effect_copy (effect_context c)) s c = Some (True, s', d, accs)"
    using assms(1) by (auto simp: visit_operands_def bind_eq_Some_conv)
  then show ?thesis using visit_params_more[OF _ assms(2)] assms(3) gathered_noted by blast
qed

lemma visit_pair_noted:
  assumes "vis x s c = Some (True, s1, c1)" "vis y s1 c1 = Some (True, s2, d)" "effect_accum c = Some a"
  shows "noted (ve_printer E) x d \<and> noted (ve_printer E) y d"
proof -
  have m: "more_step c c1" "more_step c1 d" using vis_more[of c x s] vis_more[of c1 y s1] assms(1,2) by simp_all
  then obtain a1 where a1: "effect_accum c1 = Some a1" using assms(3) by (auto simp: more_step_def)
  show ?thesis
    using noted_step[OF vis_noted[OF assms(1,3)] a1 m(2)] vis_noted[OF assms(2) a1] by blast
qed

lemma visit_ordered_noted:
  assumes "visit_ordered vis E es s c = Some (True, s', d)" "effect_accum c = Some a" "e \<in> set es"
  shows "noted (ve_printer E) e d"
proof -
  obtain x y where es: "es = [x, y]"
    using assms(1) by (auto simp: visit_ordered_def bind_eq_Some_conv length_Suc_conv numeral_2_eq_2)
  obtain s1 c1 s2 where "vis x s c = Some (True, s1, c1)" "vis y s1 c1 = Some (True, s2, d)"
    using assms(1) by (auto simp: es visit_ordered_def and_then_True bind_eq_Some_conv)
  then show ?thesis using visit_pair_noted[OF _ _ assms(2)] assms(3) es by auto
qed

lemma visit_assign_noted:
  assumes "visit_assign vis E v t op e rhs s c = Some (True, s', d)" "effect_accum c = Some a"
  shows "noted (ve_printer E) (EAssign v t op e rhs) d"
proof -
  obtain run s1 pc acc pc2 s2 lc la f where 1: "vis e s (param_context c run (Some empty_effect)) = Some (True, s1, pc)"
    "effect_accum pc = Some acc" "effect_accum pc2 = Some empty_effect"
    "visit_lhs vis E v t (op \<noteq> eSimpleAssign) s1 pc2 = Some (True, s2, lc)" "effect_accum lc = Some la"
    "effect_accum d = Some f" "covers_more acc f" "covers_more la f"
    using visit_assign_parts[OF assms(1)] assms(2) by auto
  have "noted (ve_printer E) e pc" by (rule vis_noted[OF 1(1)]) (simp add: param_context_def)
  then have "noted (ve_printer E) e d" using 1(2,6,7) recorded_more by (auto simp: noted_def)
  moreover have "noted (ve_printer E) (ELhs v t) lc \<and> (op \<noteq> eSimpleAssign \<longrightarrow> noted (ve_printer E) (EVar v t) lc)"
    using visit_lhs_noted[OF 1(4,3)] by blast
  then have "noted (ve_printer E) (ELhs v t) d \<and> (op \<noteq> eSimpleAssign \<longrightarrow> noted (ve_printer E) (EVar v t) d)"
    using 1(5,6,8) recorded_more unfolding noted_def by (metis option.inject)
  ultimately show ?thesis by (auto simp: noted_def accesses_simps(8))
qed

end

lemma visit_expr_noted:
  "visit_expr revisit E n e s c = Some (True, s', d) \<Longrightarrow> effect_accum c = Some a \<Longrightarrow> noted (ve_printer E) e d"
proof (induction n arbitrary: e s c s' d a)
  case (Suc n)
  have v: "noting_visitor E (visit_expr revisit E n)"
    by unfold_locales (use Suc.IH visit_expr_more in blast)+
  note rules = noting_visitor.visit_variable_noted[OF v] noting_visitor.visit_lhs_noted[OF v]
    noting_visitor.visit_assign_noted[OF v] noting_visitor.visit_operands_noted[OF v]
    noting_visitor.visit_ordered_noted[OF v] noting_visitor.visit_pair_noted[OF v]
  have m: "visit_call revisit E m es s1 c1 = Some (True, s2, d) \<Longrightarrow> more_step c1 d" for m es s1 c1 s2
    using visit_call_more[of c1 revisit E m es s1] by simp
  show ?case
  proof (cases e)
    case (ECall m t es)
    then obtain s1 c1 where 1: "visit_operands (visit_expr revisit E n) True es s c = Some (True, s1, c1)"
      "visit_call revisit E m es s1 c1 = Some (True, s', d)"
      using Suc.prems(1) by (auto simp: Let_def and_then_True)
    have "more_step c c1" using collected.visit_operands_more[of c revisit E n True es s] 1(1) by simp
    then obtain a1 where a1: "effect_accum c1 = Some a1" using Suc.prems(2) by (auto simp: more_step_def)
    have "noted (ve_printer E) x d" if "x \<in> set es" for x
      using noted_step[OF rules(4)[OF 1(1) Suc.prems(2) that] a1 m[OF 1(2)]] .
    then show ?thesis by (auto simp: ECall noted_def accesses_simps)
  next
    case (EComma x y)
    then obtain s1 c1 where "visit_expr revisit E n x s c = Some (True, s1, c1)" "visit_expr revisit E n y s1 c1 = Some (True, s', d)"
      using Suc.prems(1) by (auto simp: Let_def and_then_True)
    then show ?thesis using rules(6)[OF _ _ Suc.prems(2)] by (auto simp: EComma noted_def accesses_simps)
  next
    case (EPrim op t es)
    have "noted (ve_printer E) x d" if "x \<in> set es" for x
      using Suc.prems rules(4)[OF _ Suc.prems(2) that] rules(5)[OF _ Suc.prems(2) that]
      by (auto simp: EPrim Let_def split: if_splits)
    then show ?thesis by (auto simp: EPrim noted_def accesses_simps)
  qed (use Suc.prems rules(1-3) in \<open>auto simp: Let_def noted_def accesses_simps(1,2)\<close>)
qed simp

interpretation collected: noting_visitor E "visit_expr revisit E n" for E revisit n
  by unfold_locales (rule visit_expr_noted)







section \<open>Properties\<close>


definition named_operands :: "expr list" where
  "named_operands = [EAssign int_var (TSimple eInt) eSimpleAssign (EConst (TSimple eInt) ''1'') (EConst (TSimple eInt) ''1''),
     EVar ptr_var int_ptr]"



section \<open>Where the analysis and the intention of the code differ\<close>

text \<open>The search of \<open>find_variable_scope\<close> through the pending calls, once there is one, never finds a
  variable inactive: it ends only by finding it.\<close>

lemma stack_search_visible:
  assumes "stack_search chain v i = Some r" "0 \<le> i" "\<forall>b \<in> set chain. sc_chain b \<noteq> []"
  shows "r = INVISIBLE"
proof -
  have "0 \<le> i \<longrightarrow> (\<forall>b \<in> set chain. sc_chain b \<noteq> []) \<longrightarrow> r = INVISIBLE"
  proof (rule stack_search.raw_induct[where P = "\<lambda>chain v i r. 0 \<le> i \<longrightarrow> (\<forall>b \<in> set chain. sc_chain b \<noteq> []) \<longrightarrow> r = INVISIBLE", OF _ assms(1)], goal_cases)
    case (1 search chain v i r)
    show ?case
    proof (intro impI)
      assume i: "0 \<le> i" and b: "\<forall>b \<in> set chain. sc_chain b \<noteq> []"
      show "r = INVISIBLE"
      proof (cases "i < int (length chain) \<and> in_scope (chain ! nat i) v = None")
        case True
        have "chain ! nat i \<in> set chain" using True i by (simp add: nat_less_iff)
        then have "1 \<le> int (length (sc_chain (chain ! nat i)))" using b by (auto simp: Suc_le_eq)
        moreover have "search chain v (i + int (length (sc_chain (chain ! nat i))) - 1) = Some r"
          using 1(2) i True by (auto split: if_splits)
        ultimately show ?thesis using 1(1)[of chain v "i + int (length (sc_chain (chain ! nat i))) - 1" r] i b by linarith
      qed (use 1(2) i in \<open>auto split: if_splits\<close>)
    qed
  qed
  then show ?thesis using assms by blast
qed

lemma find_variable_scope_never_inactive:
  assumes "call_chain c \<noteq> []" "\<forall>b \<in> set (call_chain c). sc_chain b \<noteq> []" "find_variable_scope c v = Some r"
    "\<forall>b. get_current_block c = Some b \<longrightarrow> length (sc_chain b) < 8000"
  shows "r \<noteq> INACTIVE"
proof -
  have "in_scope b v = Some i \<Longrightarrow> i < length (sc_chain b)" for b i
    by (auto simp: in_scope_def dest!: find_index_SomeD)
  then show ?thesis
    using assms(3,4) stack_search_visible[OF _ _ assms(2), of v "int (length (call_chain c)) - 1" r] assms(1)
    by (fastforce simp: find_variable_scope_def INVISIBLE_def INACTIVE_def bind_eq_Some_conv Suc_le_eq split: if_splits option.splits)
qed

text \<open>A field of a union is not recognised as read when a struct around the union is read as a whole.\<close>

definition wrapped_union :: variable where
  "wrapped_union = Var \<lparr>vi_id = 40, vi_name = ''g_40'',
     vi_type = Some (TAgg True 9 False [sample_union] [cvq_new [False] [False]] [-1]),
     vi_qfer = cvq_new [False] [False], vi_expanded = True\<rparr> None"

lemma union_inside_read_missed:
  "is_read_partially sample_printer (sample_effect [wrapped_union] []) (Fld (Fld wrapped_union 0) 1) = Some False"
  "var_match wrapped_union (Fld (Fld wrapped_union 0) 1)"
  by code_simp+

text \<open>The sub-expressions of an OpenCL expression are not visited: an assignment in one operand of an
  operator and the variable it changes in the other one are accepted.\<close>

lemma vector_operand_missed:
  "map_option (\<lambda>(b, s, c, accs). (b, map write_vars accs))
     (visit_params (visit_expr no_user_calls sample_env 4) False
       [ECL (TVector eInt 2) [hd named_operands], EVar int_var (TSimple eInt)]
       (effect_copy (effect_context sample_context)) sample_state sample_context) = Some (True, [[], []])"
  by code_simp

text \<open>\<open>ptr_modified_in_rhs\<close> asks for the itemized member, while effects hold the collective array: that the
  right-hand side changes the pointer the left-hand side goes through is missed for array members.\<close>

lemma item_pointer_missed:
  assumes "v = Arr i e es None (Some coll) b ss xs" "isArray coll" "collective_of coll = coll"
    "effect_stm c = sample_effect [] [coll]" "indirect_level v t = Some 1"
  shows "get_collective pr v = Some coll \<and> is_written (effect_stm c) coll \<and>
    ptr_modified_in_rhs pr v t facts c = Some False"
proof -
  have "coll \<noteq> v"
  proof
    assume "coll = v"
    then have "size coll = size v" by simp
    then show False by (simp add: assms(1))
  qed
  moreover have "collective_of v = coll" using assms(1-3) by (cases coll) auto
  ultimately show ?thesis
    using assms by (auto simp: ptr_modified_in_rhs_def is_written_def sample_effect_def empty_effect_def get_collective_def
        is_field_var_def written_in_iff)
qed

end
