(* ===== verification/ExprFuel.thy ===== *)
theory ExprFuel
  imports ExprVisit
begin

text \<open>
  The depth of the visits of expressions.  The code's recursion follows the expression and the indices
  of its array members; it also visits the indices of the array members that pointers may point to.
  The facts hold collective variables only, which have no indices, so the recursion is bounded by the
  size of the expression: with more fuel than that, a visit yields \<open>None\<close> only where the code
  aborts.
\<close>

section \<open>More fuel\<close>

text \<open>A visitor that answers whenever another does, and then the same; the checks of accesses keep the
  order, so more fuel never changes the result of a visit.\<close>

definition extends :: "'a option \<Rightarrow> 'a option \<Rightarrow> bool" where
  "extends r r' \<longleftrightarrow> (\<forall>x. r = Some x \<longrightarrow> r' = Some x)"

lemma extends_refl [simp]: "extends r r"
  by (simp add: extends_def)

lemma extends_None [simp]: "extends None r"
  by (simp add: extends_def)

lemma extends_bind: "extends r r' \<Longrightarrow> (\<And>x. extends (f x) (g x)) \<Longrightarrow> extends (r \<bind> f) (r' \<bind> g)"
  by (auto simp: extends_def bind_eq_Some_conv)

lemma extends_and_then: "extends r r' \<Longrightarrow> (\<And>s c. extends (k s c) (k' s c)) \<Longrightarrow> extends (and_then r k) (and_then r' k')"
  unfolding and_then_def by (rule extends_bind) auto

lemma extends_if: "extends x x' \<Longrightarrow> extends y y' \<Longrightarrow> extends (if b then x else y) (if b then x' else y')"
  by simp

lemmas extends_rules = extends_bind extends_and_then extends_if extends_refl

locale fuller_visitor =
  fixes vis vis' :: visitor
  assumes fuller: "extends (vis e s c) (vis' e s c)"
begin

lemma visit_all_fuller: "extends (visit_all vis es s c) (visit_all vis' es s c)"
  by (induction es arbitrary: s c) (auto intro!: extends_and_then fuller)

lemma read_indices_fuller: "extends (read_indices vis v s c) (read_indices vis' v s c)"
  unfolding read_indices_def
  by (auto split: option.split intro!: extends_bind visit_all_fuller)

lemma check_read_var_fuller: "extends (check_read_var vis E v s c) (check_read_var vis' E v s c)"
  unfolding check_read_var_def by (intro extends_and_then read_indices_fuller extends_refl)

lemma check_write_var_fuller: "extends (check_write_var vis E v s c) (check_write_var vis' E v s c)"
  unfolding check_write_var_def by (intro extends_and_then read_indices_fuller extends_refl)

lemma check_pointees_fuller:
  "(\<And>p s c. extends (chk p s c) (chk' p s c)) \<Longrightarrow> extends (check_pointees chk ps s c) (check_pointees chk' ps s c)"
  by (induction ps arbitrary: s c) (auto intro!: extends_and_then)

lemma trace_pointers_fuller:
  assumes "\<And>p s c. extends (chk p s c) (chk' p s c)" "\<And>p s c. extends (lst p s c) (lst' p s c)"
  shows "extends (trace_pointers E chk lst n ps s c) (trace_pointers E chk' lst' n ps s c)"
proof (induction n arbitrary: ps s c)
  case (Suc n)
  show ?case
    unfolding trace_pointers.simps
    by (intro extends_rules Suc) (cases n; simp add: check_pointees_fuller assms)
qed simp

lemma access_pointed_fuller:
  assumes "\<And>p s c. extends (lst p s c) (lst' p s c)"
  shows "extends (access_pointed vis E lst v t s c) (access_pointed vis' E lst' v t s c)"
  unfolding access_pointed_def
  by (intro extends_rules read_indices_fuller) (auto intro!: extends_bind trace_pointers_fuller check_read_var_fuller assms)

lemma read_pointed_fuller: "extends (read_pointed vis E v t s c) (read_pointed vis' E v t s c)"
  unfolding read_pointed_def by (rule access_pointed_fuller[OF check_read_var_fuller])

lemma write_pointed_fuller: "extends (write_pointed vis E v t s c) (write_pointed vis' E v t s c)"
  unfolding write_pointed_def by (rule access_pointed_fuller[OF check_write_var_fuller])

lemma visit_variable_fuller: "extends (visit_variable vis E v t s c) (visit_variable vis' E v t s c)"
  unfolding visit_variable_def by (intro extends_rules check_read_var_fuller read_pointed_fuller)

lemma visit_indices_fuller: "extends (visit_indices vis v s c) (visit_indices vis' v s c)"
  unfolding visit_indices_def Let_def
  by (auto split: option.split intro!: extends_bind visit_all_fuller)

lemma visit_lhs_access_fuller: "extends (visit_lhs_access vis E v t s c) (visit_lhs_access vis' E v t s c)"
  unfolding visit_lhs_access_def
  by (intro extends_rules check_read_var_fuller check_write_var_fuller write_pointed_fuller)

lemma visit_lhs_fuller: "extends (visit_lhs vis E v t b s c) (visit_lhs vis' E v t b s c)"
  unfolding visit_lhs_def
  by (intro extends_rules visit_variable_fuller visit_indices_fuller visit_lhs_access_fuller)

lemma visit_params_fuller: "extends (visit_params vis b es r s c) (visit_params vis' b es r s c)"
  by (induction es arbitrary: r s c) (auto intro!: extends_bind fuller)

lemma visit_operands_fuller: "extends (visit_operands vis b es s c) (visit_operands vis' b es s c)"
  unfolding visit_operands_def by (auto intro!: extends_bind visit_params_fuller)

lemma visit_ordered_fuller: "extends (visit_ordered vis E es s c) (visit_ordered vis' E es s c)"
  unfolding visit_ordered_def by (intro extends_rules fuller)

lemma visit_assign_fuller: "extends (visit_assign vis E v t op a e s c) (visit_assign vis' E v t op a e s c)"
  unfolding visit_assign_def Let_def
  by (auto intro!: extends_bind fuller visit_lhs_fuller)

end

lemma visit_expr_fuller: "extends (visit_expr revisit E n e s c) (visit_expr revisit E (n + k) e s c)"
proof (induction n arbitrary: e s c)
  case (Suc n)
  have v: "fuller_visitor (visit_expr revisit E n) (visit_expr revisit E (n + k))" by unfold_locales (rule Suc)
  note rules = fuller_visitor.visit_variable_fuller[OF v] fuller_visitor.visit_lhs_fuller[OF v]
    fuller_visitor.visit_operands_fuller[OF v] fuller_visitor.visit_ordered_fuller[OF v]
    fuller_visitor.visit_assign_fuller[OF v]
  show ?case by (cases e) (auto simp: Let_def intro!: extends_and_then Suc rules)
qed simp

section \<open>Facts without items\<close>

definition item_free :: "variable \<Rightarrow> bool" where
  "item_free v \<longleftrightarrow> (case get_array v of None \<Rightarrow> True | Some a \<Rightarrow> get_indices a = [])"

fun flat_fact :: "fact \<Rightarrow> bool" where
  "flat_fact (FPointTo v ps) = list_all item_free ps"
| "flat_fact (FUnion v k) = True"

definition flat :: "fact list \<Rightarrow> bool" where
  "flat fs \<longleftrightarrow> list_all flat_fact fs"

lemma flat_simps [simp]:
  "flat []" "flat (f # fs) \<longleftrightarrow> flat_fact f \<and> flat fs" "flat (fs @ gs) \<longleftrightarrow> flat fs \<and> flat gs"
  by (auto simp: flat_def)

lemma item_free_special [simp]: "item_free null_ptr" "item_free garbage_ptr"
  by (simp_all add: item_free_def get_array_def null_ptr_def garbage_ptr_def special_var_def)

lemma add_variables_free:
  "list_all item_free xs \<Longrightarrow> list_all item_free ys \<Longrightarrow> add_variables_to_set xs ys = (zs, c) \<Longrightarrow> list_all item_free zs"
  using add_variables_spec[of xs ys zs c] by (auto simp: list_all_iff)

lemma join_flat: "join o1 f g = Some (h, c) \<Longrightarrow> flat_fact f \<Longrightarrow> flat_fact g \<Longrightarrow> flat_fact h"
  by (cases f; cases g)
    (auto simp: bind_eq_Some_conv split: if_splits prod.splits dest: add_variables_free)

lemma merge_fact_flat: "merge_fact o1 fs g = Some (hs, c) \<Longrightarrow> flat fs \<Longrightarrow> flat_fact g \<Longrightarrow> flat hs"
  unfolding merge_fact_def
  by (induction fs arbitrary: hs c) (auto simp: bind_eq_Some_conv split: if_splits dest: join_flat)

lemma merge_facts_flat: "merge_facts o1 fs gs = Some (hs, c) \<Longrightarrow> flat fs \<Longrightarrow> flat gs \<Longrightarrow> flat hs"
  unfolding merge_facts_def
  by (induction gs arbitrary: fs hs c) (auto simp: bind_eq_Some_conv dest: merge_fact_flat)

lemma renew_fact_flat: "flat fs \<Longrightarrow> flat_fact g \<Longrightarrow> flat (fst (renew_fact fs g))"
  by (induction fs) (auto simp: Let_def split: prod.splits)

lemma apply_facts_flat: "apply_facts o1 fs gs = Some hs \<Longrightarrow> flat fs \<Longrightarrow> flat gs \<Longrightarrow> flat hs"
  unfolding apply_facts_def
  by (cases gs) (auto split: if_splits dest: merge_facts_flat renew_fact_flat)

lemma related_flat:
  assumes "find_related_fact fs f = Some (FPointTo v ps)" "flat fs"
  shows "list_all item_free ps"
proof -
  have "FPointTo v ps \<in> set fs" using assms(1) by (auto simp: find_related_fact_def find_Some_iff)
  then show ?thesis using assms(2) by (auto simp: flat_def list_all_iff)
qed

lemma pointees_free:
  assumes "pointees_of_facts fs p = Some ps" "flat fs"
  shows "list_all item_free ps"
proof -
  obtain v where "find_related_fact fs (FPointTo p []) = Some (FPointTo v ps)"
    using assms(1) by (auto simp: pointees_of_facts.simps split: option.splits fact.splits)
  from related_flat[OF this assms(2)] show ?thesis .
qed

lemma merge_loop_free:
  "merge_pointees_loop ps fs acc = Some qs \<Longrightarrow> flat fs \<Longrightarrow> list_all item_free acc \<Longrightarrow> list_all item_free qs"
proof (induction ps arbitrary: acc)
  case (Cons p ps)
  show ?case
  proof (cases "is_special_ptr p")
    case False
    then obtain rs where r: "pointees_of_facts fs p = Some rs"
      "merge_pointees_loop ps fs (fst (add_variables_to_set acc rs)) = Some qs"
      using Cons.prems(1) by (auto simp: bind_eq_Some_conv)
    have "list_all item_free (fst (add_variables_to_set acc rs))"
      using add_variables_free[OF Cons.prems(3) pointees_free[OF r(1) Cons.prems(2)]] by (metis prod.collapse)
    then show ?thesis using Cons.IH[OF r(2) Cons.prems(2)] by blast
  qed (use Cons in simp)
qed simp

lemma merge_pointees_free: "merge_pointees_of_pointers ps fs = Some qs \<Longrightarrow> flat fs \<Longrightarrow> list_all item_free qs"
  by (simp add: merge_pointees_of_pointers_def merge_loop_free)

lemma merge_iter_free:
  "merge_pointees_iter n ps fs = Some qs \<Longrightarrow> flat fs \<Longrightarrow> list_all item_free ps \<or> n > 0 \<Longrightarrow> list_all item_free qs"
  by (induction n arbitrary: ps) (auto simp: bind_eq_Some_conv dest: merge_pointees_free)

lemma merge_pointer_free:
  "merge_pointees_of_pointer p k fs = Some qs \<Longrightarrow> flat fs \<Longrightarrow> k > 0 \<Longrightarrow> list_all item_free qs"
  by (simp add: merge_pointees_of_pointer_def merge_iter_free)

lemma make_facts_flat: "list_all item_free ps \<Longrightarrow> flat (make_facts xs ps)"
  by (simp add: make_facts_def flat_def list_all_iff)


fun tame_var :: "printer \<Rightarrow> variable \<Rightarrow> bool"
  and tame :: "printer \<Rightarrow> expr \<Rightarrow> bool" where
  "tame_var pr (Var i e) = True"
| "tame_var pr (Arr i e es vec c b ss xs) = list_all (tame pr) xs"
| "tame_var pr (Fld p j) = tame_var pr p"
| "tame pr (EVar v t) = (tame_var pr v \<and> (case get_collective pr v of None \<Rightarrow> True | Some c \<Rightarrow> item_free c))"
| "tame pr (ELhs v t) = tame_var pr v"
| "tame pr (EAssign v t op e rhs) = (tame_var pr v \<and> tame pr e \<and> tame pr rhs)"
| "tame pr (EComma a b) = (tame pr a \<and> tame pr b)"
| "tame pr (EPrim op t es) = list_all (tame pr) es"
| "tame pr (ECall n t es) = list_all (tame pr) es"
| "tame pr e = True"

lemma aggregate_flat:
  assumes "aggregate_transfer o1 fs ls xs = Some r" "flat fs"
  shows "flat r"
proof -
  have step: "flat r1" if "foldM (\<lambda>(l, p) ret1. do { ps \<leftarrow> merge_pointees_of_pointer p 1 fs;
      (ret2, c) \<leftarrow> merge_fact o1 ret1 (FPointTo l ps); Some ret2 }) zs r0 = Some r1" "flat r0" for zs r0 r1
    using that(1)
    by (rule foldM_invariant[where I = flat, OF _ that(2)])
      (auto simp: bind_eq_Some_conv dest!: merge_pointer_free[OF _ assms(2)] merge_fact_flat)
  show ?thesis
    using assms(1) unfolding aggregate_transfer_def
    by (rule foldM_invariant[where I = flat]) (auto simp: bind_eq_Some_conv Let_def dest!: step)
qed

lemma return_flat:
  "(case f of FPointTo v ps \<Rightarrow> Some ps | _ \<Rightarrow> None) = Some ps \<Longrightarrow> return_fact ce n g = Some f \<Longrightarrow>
    flat (ce_facts ce n) \<Longrightarrow> list_all item_free ps"
  by (cases f) (auto simp: return_fact_def dest: related_flat)

lemma call_aggregate_flat: "call_aggregate ce n ls ps = Some r \<Longrightarrow> flat (ce_facts ce n) \<Longrightarrow> flat r"
proof (induction ce n ls ps arbitrary: r rule: call_aggregate.induct)
  case (3 ce n l ls p ptrs)
  then obtain f ps fs where f: "return_fact ce n (FPointTo p []) = Some f"
    "(case f of FPointTo v ps \<Rightarrow> Some ps | _ \<Rightarrow> None) = Some ps" "call_aggregate ce n ls ptrs = Some fs"
    "r = FPointTo l ps # fs"
    by (auto simp: bind_eq_Some_conv)
  then show ?case using 3(1)[OF f(1-3) 3(3)] return_flat[OF f(2,1) 3(3)] by simp
qed auto

lemma call_transfer_flat: "call_transfer ce ls n t = Some r \<Longrightarrow> flat (ce_facts ce n) \<Longrightarrow> flat r"
  unfolding call_transfer_def
  by (auto simp: bind_eq_Some_conv split: if_splits intro!: make_facts_flat dest: call_aggregate_flat return_flat)

lemma variable_transfer_flat:
  assumes "variable_transfer o1 pr fs ls v t = Some r" "flat fs" "tame pr (EVar v t)"
  shows "flat r"
proof -
  obtain k c where k: "indirect_level v t = Some k" "get_collective pr v = Some c"
    using assms(1) by (auto simp: variable_transfer_def bind_eq_Some_conv)
  have c: "item_free c" using assms(3) k by simp
  consider "k = -1" | "k \<ge> 0" "is_aggregate t" | "k \<ge> 0" "\<not> is_aggregate t"
    using assms(1) k by (cases "k < 0"; cases "is_aggregate t") (auto simp: variable_transfer_def bind_eq_Some_conv)
  then show ?thesis
  proof cases
    case 1
    then have "r = make_facts ls [c]" using assms(1) k by (simp add: variable_transfer_def)
    then show ?thesis using c by (simp add: make_facts_flat)
  next
    case 2
    then show ?thesis using assms(1,2) k aggregate_flat by (auto simp: variable_transfer_def bind_eq_Some_conv)
  next
    case 3
    then obtain ps where "merge_pointees_of_pointer c (k + 1) fs = Some ps" "r = make_facts ls ps"
      using assms(1) k by (auto simp: variable_transfer_def bind_eq_Some_conv)
    then show ?thesis using merge_pointer_free[OF _ assms(2)] 3 by (simp add: make_facts_flat)
  qed
qed

lemma transfer_flat:
  "rhs_to_lhs_transfer o1 pr ce fs ls rhs = Some r \<Longrightarrow> flat fs \<Longrightarrow> (\<And>n. flat (ce_facts ce n)) \<Longrightarrow>
    (\<And>e. rhs = Some e \<Longrightarrow> tame pr e) \<Longrightarrow> flat r"
  "rhs_transfer o1 pr ce fs ls e = Some r \<Longrightarrow> flat fs \<Longrightarrow> (\<And>n. flat (ce_facts ce n)) \<Longrightarrow> tame pr e \<Longrightarrow> flat r"
proof (induction o1 pr ce fs ls rhs and o1 pr ce fs ls e arbitrary: r and r rule: rhs_to_lhs_transfer_rhs_transfer.induct)
  case (1 o1 pr ce fs ls rhs)
  then show ?case
    by (auto simp: rhs_to_lhs_transfer.simps[of _ _ _ _ _ rhs] bind_eq_Some_conv intro!: make_facts_flat
        split: if_splits option.splits)
next
  case (2 o1 pr ce fs ls e)
  have c: "flat r" if "call_transfer ce ls n t = Some r" for n t
    using call_transfer_flat[OF that 2(5)] .
  have k: "flat r" if "constant_transfer ce ls t s = Some r" for t s
    using that by (auto simp: constant_transfer_def bind_eq_Some_conv intro!: make_facts_flat split: if_splits)
  show ?case
  proof (cases e)
    case (EConst u str)
    then show ?thesis using 2(3) k
      by (subst (asm) rhs_transfer.simps) (auto simp: bind_eq_Some_conv intro!: make_facts_flat split: if_splits)
  next
    case (EVar v u)
    then show ?thesis using 2(3,4,6) variable_transfer_flat
      by (subst (asm) rhs_transfer.simps) (auto simp: bind_eq_Some_conv intro!: make_facts_flat split: if_splits)
  next
    case (ECall n u es)
    then show ?thesis using 2(3) c
      by (subst (asm) rhs_transfer.simps) (auto simp: bind_eq_Some_conv intro!: make_facts_flat split: if_splits)
  next
    case (EAssign v u op x y)
    then show ?thesis using 2
      by (subst (asm) (1) rhs_transfer.simps) (auto simp: bind_eq_Some_conv intro!: make_facts_flat split: if_splits)
  next
    case (EComma x y)
    then show ?thesis using 2
      by (subst (asm) (1) rhs_transfer.simps) (auto simp: bind_eq_Some_conv intro!: make_facts_flat split: if_splits)
  next
    case (EPrim op u es)
    then show ?thesis using 2(3)
      by (subst (asm) rhs_transfer.simps) (auto simp: bind_eq_Some_conv intro!: make_facts_flat split: if_splits)
  next
    case (ELhs v u)
    then show ?thesis using 2(3)
      by (subst (asm) rhs_transfer.simps) (auto simp: bind_eq_Some_conv intro!: make_facts_flat split: if_splits)
  next
    case (ECL u es)
    then show ?thesis using 2(3)
      by (subst (asm) rhs_transfer.simps) (auto simp: bind_eq_Some_conv intro!: make_facts_flat split: if_splits)
  qed
qed


lemma make_union_facts_flat: "make_union_facts xs k = Some r \<Longrightarrow> flat r"
  by (auto simp: make_union_facts_def flat_def list_all_iff bind_eq_Some_conv)

lemma union_fact_flat: "(case f of FPointTo v ps \<Rightarrow> None | FUnion w k \<Rightarrow> make_union_facts ls k) = Some r \<Longrightarrow> flat r"
  by (cases f) (auto dest: make_union_facts_flat)

lemma union_transfer_flat: "union_transfer o1 pr ce fs ls e = Some r \<Longrightarrow> flat r"
  by (induction o1 pr ce fs ls e arbitrary: r rule: union_transfer.induct)
    (auto simp: bind_eq_Some_conv split: option.splits dest: make_union_facts_flat union_fact_flat)

lemma union_write_flat: "union_write b v = Some (Some f) \<Longrightarrow> flat_fact f"
  by (auto simp: union_write_def bind_eq_Some_conv split: variable.splits if_splits)

lemma union_assign_flat:
  assumes "union_assign o1 pr ce fs v t rhs = Some r"
  shows "flat r"
proof (cases rhs)
  case (Some e)
  then obtain ls where "union_transfer o1 pr ce fs ls e = Some r \<or>
      (\<exists>fus. mapM (union_write (length ls > 1)) ls = Some fus \<and> r = List.map_filter id fus)"
    using assms by (auto simp: union_assign_def bind_eq_Some_conv split: if_splits)
  then show ?thesis
  proof
    assume "\<exists>fus. mapM (union_write (length ls > 1)) ls = Some fus \<and> r = List.map_filter id fus"
    then obtain fus where f: "mapM (union_write (length ls > 1)) ls = Some fus" "r = List.map_filter id fus" by blast
    have "\<exists>v. union_write (length ls > 1) v = Some x" if "x \<in> set fus" for x
      using f(1) that by (fastforce simp: mapM_eq_Some_iff list_all2_conv_all_nth in_set_conv_nth)
    then show ?thesis using f(2) union_write_flat by (auto simp: flat_def list_all_iff List.map_filter_def) metis
  qed (rule union_transfer_flat)
qed (use assms in \<open>simp add: union_assign_def\<close>)

lemma points_to_assign_flat:
  assumes "points_to_assign o1 pr ce fs v t (Some e) = Some r" "flat fs" "\<And>n. flat (ce_facts ce n)" "tame pr e"
  shows "flat r"
proof -
  have tr: "flat x" if "rhs_to_lhs_transfer o1 pr ce fs ls (Some e) = Some x" for ls x
    using transfer_flat(1)[OF that assms(2,3)] assms(4) by simp
  obtain ls where "rhs_to_lhs_transfer o1 pr ce fs ls (Some e) = Some r \<or>
      foldM (\<lambda>v ret. do {
         w \<leftarrow> (if is_inside_union_field v then get_container_union v else Some v);
         new_facts \<leftarrow> rhs_to_lhs_transfer o1 pr ce fs (find_pointer_fields w) (Some e);
         Some (ret @ new_facts) }) ls [] = Some r"
    using assms(1) by (auto simp: points_to_assign_def bind_eq_Some_conv split: if_splits)
  then show ?thesis
  proof
    assume "foldM (\<lambda>v ret. do {
         w \<leftarrow> (if is_inside_union_field v then get_container_union v else Some v);
         new_facts \<leftarrow> rhs_to_lhs_transfer o1 pr ce fs (find_pointer_fields w) (Some e);
         Some (ret @ new_facts) }) ls [] = Some r"
    then show ?thesis
      by (rule foldM_invariant[where I = flat]) (auto simp: bind_eq_Some_conv dest: tr)
  qed (rule tr)
qed

lemma update_fact_flat:
  assumes "update_fact_for_assign o1 pr ce v t (Some e) fs = Some (r, b)" "flat fs" "\<And>n. flat (ce_facts ce n)" "tame pr e"
  shows "flat r"
proof -
  obtain gs fs1 hs where u: "points_to_assign o1 pr ce fs v t (Some e) = Some gs" "apply_facts o1 fs gs = Some fs1"
    "union_assign o1 pr ce fs1 v t (Some e) = Some hs" "apply_facts o1 fs1 hs = Some r"
    using assms(1) by (auto simp: update_fact_for_assign_def bind_eq_Some_conv)
  have "flat fs1" using apply_facts_flat[OF u(2) assms(2) points_to_assign_flat[OF u(1) assms(2-4)]] .
  then show ?thesis using apply_facts_flat[OF u(4) _ union_assign_flat[OF u(3)]] by blast
qed


section \<open>Enough fuel\<close>

text \<open>Two visits that agree, and leave facts without items.\<close>

definition steady :: "visited \<Rightarrow> visited \<Rightarrow> bool" where
  "steady r r' \<longleftrightarrow> r = r' \<and> (\<forall>b s d. r = Some (b, s, d) \<longrightarrow> flat (vs_facts s))"

lemma steady_None [simp]: "steady None None"
  by (simp add: steady_def)

lemma steady_Some [simp]: "steady (Some (b, s, d)) (Some (b, s, d)) \<longleftrightarrow> flat (vs_facts s)"
  by (auto simp: steady_def)

lemma steady_bind: "(\<And>x. m = Some x \<Longrightarrow> steady (f x) (g x)) \<Longrightarrow> steady (m \<bind> f) (m \<bind> g)"
  by (cases m) auto

lemma steady_visit:
  assumes "steady r r'" "\<And>b s d. r = Some (b, s, d) \<Longrightarrow> flat (vs_facts s) \<Longrightarrow> steady (f (b, s, d)) (g (b, s, d))"
  shows "steady (r \<bind> f) (r' \<bind> g)"
  using assms by (cases r) (auto simp: steady_def)

lemma steady_and_then:
  assumes "steady r r'" "\<And>s d. flat (vs_facts s) \<Longrightarrow> steady (k s d) (k' s d)"
  shows "steady (and_then r k) (and_then r' k')"
  unfolding and_then_def by (rule steady_visit[OF assms(1)]) (auto intro: assms(2))

lemma steady_refuse: "flat (vs_facts s) \<Longrightarrow> steady (refuse_if t s c) (refuse_if t s c)"
  by (cases t) (auto simp: refuse_if_def)

lemma steady_if: "(b \<Longrightarrow> steady x x') \<Longrightarrow> (\<not> b \<Longrightarrow> steady y y') \<Longrightarrow> steady (if b then x else y) (if b then x' else y')"
  by simp

lemmas steady_rules = steady_bind steady_and_then steady_refuse steady_if

lemma parent_tame: "array_parent v = Some a \<Longrightarrow> tame_var pr v \<Longrightarrow> tame_var pr a \<and> size a < size v"
  by (induction v) (auto split: if_splits)

lemma indices_tame:
  assumes "get_array v = Some a" "tame_var pr v" "e \<in> set (get_indices a)"
  shows "tame pr e \<and> size e < size v"
proof -
  have a: "tame_var pr a" "size a \<le> size v"
    using assms(1,2) parent_tame by (fastforce simp: get_array_def split: if_splits)+
  obtain i x es vec c b ss xs where x: "a = Arr i x es vec c b ss xs" "e \<in> set xs"
    using assms(3) by (cases a) auto
  then have "size e < size a" using size_list_estimation'[of e xs "size e" size] by auto
  then show ?thesis using a x by (auto simp: list_all_iff)
qed

lemma check_deref_steady: "flat (vs_facts s) \<Longrightarrow> steady (check_deref_volatile E v l s c) (check_deref_volatile E v l s c)"
  unfolding check_deref_volatile_def by (intro steady_rules) (auto intro!: steady_bind)

text \<open>Two visitors that agree on the expressions below a size; an access may go to a variable that is
  small enough, or without indices.\<close>

locale settled_visitor =
  fixes E :: visit_env and vis vis' :: visitor and k :: nat
  assumes settled: "tame (ve_printer E) e \<Longrightarrow> size e < k \<Longrightarrow> flat (vs_facts s) \<Longrightarrow> steady (vis e s c) (vis' e s c)"
    and flat_calls: "flat (ce_facts (ve_calls E) n)"
begin

definition near :: "variable \<Rightarrow> bool" where
  "near v \<longleftrightarrow> (tame_var (ve_printer E) v \<and> size v \<le> k) \<or> item_free v"

lemma nearI: "tame_var (ve_printer E) v \<Longrightarrow> size v \<le> k \<Longrightarrow> near v"
  by (simp add: near_def)

lemma visit_all_settled:
  "\<forall>e \<in> set es. tame (ve_printer E) e \<and> size e < k \<Longrightarrow> flat (vs_facts s) \<Longrightarrow>
    steady (visit_all vis es s c) (visit_all vis' es s c)"
  by (induction es arbitrary: s c) (auto intro!: steady_and_then settled)

lemma near_indices:
  assumes "near v" "get_array v = Some a"
  shows "\<forall>e \<in> set (get_indices a). tame (ve_printer E) e \<and> size e < k"
  using assms indices_tame[OF assms(2)] unfolding near_def item_free_def by fastforce

lemma read_indices_settled:
  "near v \<Longrightarrow> flat (vs_facts s) \<Longrightarrow> steady (read_indices vis v s c) (read_indices vis' v s c)"
  unfolding read_indices_def
  by (auto split: option.split intro!: steady_visit visit_all_settled dest: near_indices)

lemma check_read_var_settled:
  "near v \<Longrightarrow> flat (vs_facts s) \<Longrightarrow> steady (check_read_var vis E v s c) (check_read_var vis' E v s c)"
  unfolding check_read_var_def by (intro steady_rules read_indices_settled) auto

lemma check_write_var_settled:
  "near v \<Longrightarrow> flat (vs_facts s) \<Longrightarrow> steady (check_write_var vis E v s c) (check_write_var vis' E v s c)"
  unfolding check_write_var_def by (intro steady_rules read_indices_settled) auto

lemma check_pointees_settled:
  assumes "\<And>p s c. near p \<Longrightarrow> flat (vs_facts s) \<Longrightarrow> steady (chk p s c) (chk' p s c)"
  shows "list_all near ps \<Longrightarrow> flat (vs_facts s) \<Longrightarrow> steady (check_pointees chk ps s c) (check_pointees chk' ps s c)"
  by (induction ps arbitrary: s c) (auto intro!: steady_and_then assms)

lemma trace_pointers_settled:
  assumes "\<And>p s c. near p \<Longrightarrow> flat (vs_facts s) \<Longrightarrow> steady (lst p s c) (lst' p s c)"
  shows "flat (vs_facts s) \<Longrightarrow> steady (trace_pointers E (check_read_var vis E) lst n ps s c)
    (trace_pointers E (check_read_var vis' E) lst' n ps s c)"
proof (induction n arbitrary: ps s c)
  case (Suc n)
  have "steady (check_pointees (if n = 0 then lst else check_read_var vis E) qs s c)
      (check_pointees (if n = 0 then lst' else check_read_var vis' E) qs s c)"
    if "merge_pointees_of_pointers ps (vs_facts s0) = Some qs" "flat (vs_facts s0)" "flat (vs_facts s)" for qs s s0 c
  proof -
    have "list_all near qs" using merge_pointees_free[OF that(1,2)] by (auto simp: list_all_iff near_def)
    then show ?thesis using check_pointees_settled[OF assms] check_pointees_settled[OF check_read_var_settled] that(3) by simp
  qed
  then show ?case
    unfolding trace_pointers.simps using Suc by (intro steady_rules) auto
qed simp

lemma access_pointed_settled:
  assumes "\<And>p s c. near p \<Longrightarrow> flat (vs_facts s) \<Longrightarrow> steady (lst p s c) (lst' p s c)" "near v" "flat (vs_facts s)"
  shows "steady (access_pointed vis E lst v t s c) (access_pointed vis' E lst' v t s c)"
  unfolding access_pointed_def
  by (intro steady_rules read_indices_settled assms(2,3)) (auto intro!: steady_visit trace_pointers_settled assms(1))

lemma visit_variable_settled:
  "near v \<Longrightarrow> flat (vs_facts s) \<Longrightarrow> steady (visit_variable vis E v t s c) (visit_variable vis' E v t s c)"
  unfolding visit_variable_def read_pointed_def
  by (intro steady_rules check_read_var_settled access_pointed_settled check_deref_steady)

lemma visit_indices_settled:
  "near v \<Longrightarrow> flat (vs_facts s) \<Longrightarrow> steady (visit_indices vis v s c) (visit_indices vis' v s c)"
  unfolding visit_indices_def Let_def
  by (auto split: option.split intro!: steady_visit visit_all_settled dest: near_indices)

lemma visit_lhs_access_settled:
  "near v \<Longrightarrow> flat (vs_facts s) \<Longrightarrow> steady (visit_lhs_access vis E v t s c) (visit_lhs_access vis' E v t s c)"
  unfolding visit_lhs_access_def write_pointed_def
  by (intro steady_rules check_read_var_settled check_write_var_settled access_pointed_settled check_deref_steady)

lemma visit_lhs_settled:
  "near v \<Longrightarrow> flat (vs_facts s) \<Longrightarrow> steady (visit_lhs vis E v t b s c) (visit_lhs vis' E v t b s c)"
  unfolding visit_lhs_def
  by (intro steady_rules visit_variable_settled visit_indices_settled visit_lhs_access_settled) auto

text \<open>Operands, in the order they are visited.\<close>

lemma visit_params_settled:
  "\<forall>e \<in> set es. tame (ve_printer E) e \<and> size e < k \<Longrightarrow> flat (vs_facts s) \<Longrightarrow>
    visit_params vis b es r s c = visit_params vis' b es r s c \<and>
    (\<forall>b' s' d accs. visit_params vis b es r s c = Some (b', s', d, accs) \<longrightarrow> flat (vs_facts s'))"
proof (induction es arbitrary: r s c)
  case (Cons e es)
  have v: "steady (vis e s (param_context c r (Some empty_effect))) (vis' e s (param_context c r (Some empty_effect)))"
    using Cons.prems by (auto intro!: settled)
  show ?case
  proof (cases "vis e s (param_context c r (Some empty_effect))")
    case (Some x)
    obtain b1 s1 d1 where x: "x = (b1, s1, d1)" by (cases x)
    have f: "flat (vs_facts s1)" "vis' e s (param_context c r (Some empty_effect)) = Some (b1, s1, d1)"
      using v Some x by (simp_all add: steady_def)
    have "\<forall>e \<in> set es. tame (ve_printer E) e \<and> size e < k" using Cons.prems(1) by simp
    note ih = Cons.IH[OF this f(1)]
    show ?thesis
      using f Some x ih by (cases b1; cases "effect_accum d1"; cases "merge_param_context d1 (\<not> b) c")
        (auto simp: bind_eq_Some_conv)
  qed (use v in \<open>simp add: steady_def\<close>)
qed simp

lemma visit_operands_settled:
  "\<forall>e \<in> set es. tame (ve_printer E) e \<and> size e < k \<Longrightarrow> flat (vs_facts s) \<Longrightarrow>
    steady (visit_operands vis b es s c) (visit_operands vis' b es s c)"
  using visit_params_settled[of es s b "effect_copy (effect_context c)" c]
  by (auto simp: visit_operands_def steady_def bind_eq_Some_conv)

lemma visit_ordered_settled:
  assumes "\<forall>e \<in> set es. tame (ve_printer E) e \<and> size e < k" "flat (vs_facts s)"
  shows "steady (visit_ordered vis E es s c) (visit_ordered vis' E es s c)"
proof (cases "length es = 2")
  case True
  have "steady (vis (es ! i) s c) (vis' (es ! i) s c)" if "i < 2" "flat (vs_facts s)" for i s c
    using that True assms(1) by (auto intro!: settled)
  then show ?thesis
    unfolding visit_ordered_def
    by (intro steady_rules assms(2)) (auto simp: assms(2) intro!: steady_bind dest: merge_facts_flat)
qed (simp add: visit_ordered_def)

lemma visit_assign_settled:
  assumes "near v" "tame (ve_printer E) e" "size e < k" "tame (ve_printer E) rhs" "flat (vs_facts s)"
  shows "steady (visit_assign vis E v t op e rhs s c) (visit_assign vis' E v t op e rhs s c)"
proof -
  have up: "flat fs" if "update_fact_for_assign (ve_opts E) (ve_printer E) (ve_calls E) v t (Some rhs) (vs_facts s2) = Some (fs, ch)"
    "flat (vs_facts s2)" for fs ch and s2 :: visit_state
    using update_fact_flat[OF that flat_calls assms(4)] .
  show ?thesis
    unfolding visit_assign_def Let_def
    by (rule steady_visit[OF settled[OF assms(2,3,5)]])
      (auto intro!: steady_bind steady_visit visit_lhs_settled assms(1) up)
qed

end

text \<open>What the analysis of a called function's body has to keep.\<close>

definition keeps_flat :: "(nat \<Rightarrow> expr list \<Rightarrow> visit_state \<Rightarrow> cgcontext \<Rightarrow> visited) \<Rightarrow> bool" where
  "keeps_flat revisit \<longleftrightarrow> (\<forall>n es s c b s' d. flat (vs_facts s) \<longrightarrow> revisit n es s c = Some (b, s', d) \<longrightarrow> flat (vs_facts s'))"

lemma visit_call_settled:
  assumes "keeps_flat revisit" "flat (vs_facts s)"
  shows "steady (visit_call revisit E n es s c) (visit_call revisit E n es s c)"
proof -
  have "steady (revisit n es s d) (revisit n es s d)" for d
    using assms by (auto simp: steady_def keeps_flat_def)
  then show ?thesis
    unfolding visit_call_def Let_def by (rule steady_visit) (auto intro!: steady_bind)
qed

lemma visit_expr_settled:
  assumes "keeps_flat revisit" "\<And>n. flat (ce_facts (ve_calls E) n)"
  shows "tame (ve_printer E) e \<Longrightarrow> size e < n \<Longrightarrow> size e < m \<Longrightarrow> flat (vs_facts s) \<Longrightarrow>
    steady (visit_expr revisit E n e s c) (visit_expr revisit E m e s c)"
proof (induction n arbitrary: m e s c)
  case (Suc n)
  then obtain m' where m: "m = Suc m'" by (cases m) auto
  have w: "settled_visitor E (visit_expr revisit E n) (visit_expr revisit E m') k" if "k \<le> size e" for k
    using that Suc m assms(2) by unfold_locales auto
  obtain K where K: "size e = K" by simp
  then have v: "settled_visitor E (visit_expr revisit E n) (visit_expr revisit E m') K" using w by simp
  note rules = settled_visitor.visit_variable_settled[OF v] settled_visitor.visit_lhs_settled[OF v]
    settled_visitor.visit_operands_settled[OF v] settled_visitor.visit_ordered_settled[OF v]
    settled_visitor.visit_assign_settled[OF v] visit_call_settled[OF assms(1)] settled_visitor.settled[OF v]
    settled_visitor.nearI[OF w]
  have list: "\<forall>x \<in> set es. tame (ve_printer E) x \<and> size x < K"
    if "e = EPrim op t es \<or> e = ECall i t es" for es op i t
    using that Suc.prems(1) K size_list_estimation'[of _ es _ size] by (auto simp: list_all_iff less_Suc_eq_le)
  show ?case
  proof (cases e)
    case (EPrim op t es)
    then show ?thesis using Suc.prems(4) list[of op t es] m by (auto simp: Let_def intro!: rules)
  next
    case (ECall i t es)
    then show ?thesis using Suc.prems(4) list[of _ t es i] m by (auto simp: Let_def intro!: steady_and_then rules)
  qed (use Suc.prems m K in \<open>auto simp: Let_def intro!: steady_and_then rules\<close>)
qed simp

text \<open>Without calls of user functions there are no recorded facts, and the analyses need no more depth
  than the expression has.\<close>

definition without_calls :: "visit_env \<Rightarrow> visit_env" where
  "without_calls E = E\<lparr>ve_calls := (ve_calls E)\<lparr>ce_facts := \<lambda>n. []\<rparr>\<rparr>"

lemma no_user_calls_flat: "keeps_flat no_user_calls"
  by (simp add: keeps_flat_def no_user_calls_def)

interpretation fuel: fuller_visitor "visit_expr revisit E n" "visit_expr revisit E (n + k)" for revisit E n k
  by unfold_locales (rule visit_expr_fuller)

interpretation alone: settled_visitor "without_calls E" "visit_expr no_user_calls (without_calls E) k"
    "visit_expr no_user_calls (without_calls E) (k + j)" k for E k j
  by unfold_locales (auto simp: without_calls_def intro!: visit_expr_settled no_user_calls_flat)

section \<open>Properties\<close>

text \<open>C8: the analysis of an expression ends, within the depth of the expression: whatever the analysis of
  the called functions' bodies is (a parameter, which keeps the facts about collectives), a visit with
  more fuel than the expression's size has the same outcome as with just that much, and any
  outcome reached with some fuel is that outcome.  So with this much fuel, a visit without a result
  is an abort of the code.\<close>

theorem visit_expr_enough_fuel:
  assumes "keeps_flat revisit" "\<And>n. flat (ce_facts (ve_calls E) n)"
    and "flat (vs_facts s)" "tame (ve_printer E) e"
  shows "visit_expr revisit E (Suc (size e) + k) e s c = visit_expr revisit E (Suc (size e)) e s c \<and>
    ((\<exists>m. visit_expr revisit E m e s c = Some r) \<longleftrightarrow> visit_expr revisit E (Suc (size e)) e s c = Some r)"
proof -
  have same: "visit_expr revisit E (Suc (size e) + j) e s c = visit_expr revisit E (Suc (size e)) e s c" for j
    using visit_expr_settled[OF assms(1,2,4) _ _ assms(3), of "Suc (size e) + j" "Suc (size e)" c]
    by (simp add: steady_def)
  have "visit_expr revisit E (Suc (size e)) e s c = Some r" if "visit_expr revisit E m e s c = Some r" for m
  proof -
    have "visit_expr revisit E (m + Suc (size e)) e s c = Some r"
      using that visit_expr_fuller[of revisit E m e s c "Suc (size e)"] by (simp add: extends_def)
    then show ?thesis using same[of m] by (simp only: add.commute)
  qed
  then show ?thesis using same by blast
qed

lemma visit_expr_enough_fuel_witness:
  "\<exists>s c. visit_expr no_user_calls sample_env (Suc (size (hd sample_operands)) + 100) (hd sample_operands) sample_state
     sample_context = Some (True, s, c)"
proof -
  let ?e = "hd sample_operands"
  have "case visit_expr no_user_calls sample_env 4 ?e sample_state sample_context of Some (b, s, c) \<Rightarrow> b | None \<Rightarrow> False"
    by code_simp
  then obtain s c where v: "visit_expr no_user_calls sample_env 4 ?e sample_state sample_context = Some (True, s, c)"
    by (auto split: option.splits)
  have "flat (vs_facts sample_state)" "tame (ve_printer sample_env) ?e" "flat (ce_facts (ve_calls sample_env) n)" for n
    by code_simp+
  note e = visit_expr_enough_fuel[OF no_user_calls_flat this(3,1,2)]
  then show ?thesis using v by metis
qed

end
