(* ===== verification/Constants.thy ===== *)
theory Constants
  imports Variables
begin

text \<open>
  Constant.cpp: the text of random constants.  A constant of a simple type is a small decimal number
  or a run of random hexadecimal digits, a pointer constant is 0, and a struct or union constant is a
  braced list of constants for its fields, in which a bit-field gets a number that fits its width and
  a bit-field of width zero (padding) gets none.

  What a text denotes in C is given by \<open>scalar_text\<close> and \<open>constant_text\<close>: they are the specification
  the generator is checked against.
\<close>

section \<open>Texts\<close>

definition long_suffix :: "cgoptions \<Rightarrow> string" where
  "long_suffix o1 = (if opt_ccomp o1 \<or> \<not> opt_longlong o1 then [] else ''L'')"

text \<open>The sign bit of a hexadecimal constant is cleared: its first digit is made smaller than 8.\<close>

definition PutRandomSignedConstantInRange :: "string \<Rightarrow> string option" where
  "PutRandomSignedConstantInRange ch = do {
     first_digit \<leftarrow> str2int stream_dec stream_hex (take 3 ch);
     Some (if first_digit \<ge> 8 then ch[2 := char_of (48 + nat (first_digit - 8))] else ch) }"

definition hex_constant :: "nat \<Rightarrow> string \<Rightarrow> rng \<Rightarrow> string \<times> rng" where
  "hex_constant n suffix s = (let (ds, s1) = RandomHexDigits n s in (''0x'' @ ds @ suffix, s1))"

definition GenerateRandomCharConstant :: "cgoptions \<Rightarrow> rng \<Rightarrow> string \<times> rng" where
  "GenerateRandomCharConstant o1 = hex_constant 2 (long_suffix o1)"

definition GenerateRandomIntConstant :: "cgoptions \<Rightarrow> rng \<Rightarrow> string \<times> rng" where
  "GenerateRandomIntConstant o1 = hex_constant 8 (long_suffix o1)"

definition GenerateRandomShortConstant :: "cgoptions \<Rightarrow> rng \<Rightarrow> string \<times> rng" where
  "GenerateRandomShortConstant o1 = hex_constant 4 (long_suffix o1)"

definition GenerateRandomLongConstant :: "cgoptions \<Rightarrow> rng \<Rightarrow> string \<times> rng" where
  "GenerateRandomLongConstant o1 = hex_constant 8 (if \<not> opt_longlong o1 then [] else ''L'')"

definition GenerateRandomLongLongConstant :: "rng \<Rightarrow> string \<times> rng" where
  "GenerateRandomLongLongConstant = hex_constant 16 ''L''"

text \<open>\<open>pow(2, bound / 2.0)\<close> truncated to an integer is the integer square root of \<open>2 ^ bound\<close>; the
  conversion to \<open>int\<close> is undefined when it does not fit.\<close>

fun int_sqrt :: "nat \<Rightarrow> nat" where
  "int_sqrt n = (if n = 0 then 0
     else let r = 2 * int_sqrt (n div 4) in if (r + 1) * (r + 1) \<le> n then r + 1 else r)"

declare int_sqrt.simps [simp del]

definition range_limit :: "int \<Rightarrow> nat option" where
  "range_limit bound = (if 0 \<le> bound \<and> bound < 62 then Some (int_sqrt (2 ^ nat bound)) else None)"

definition mark_mutable :: "cgoptions \<Rightarrow> string \<Rightarrow> string" where
  "mark_mutable o1 v = (if opt_mark_mutable_const o1 then ''('' @ v @ '')'' else v)"

text \<open>In the unsigned case the code also guards against a negative limit, which cannot come out of a
  conversion that is defined.\<close>

definition GenerateRandomConstantInRange :: "cgoptions \<Rightarrow> ctype \<Rightarrow> int \<Rightarrow> rng \<Rightarrow> (string \<times> rng) option" where
  "GenerateRandomConstantInRange o1 t bound s = do {
     assert_that (is_simple t);
     if t = TSimple eInt then do {
       b \<leftarrow> range_limit bound;
       (num, s1) \<leftarrow> pure_rnd_upto b None None s;
       (flag, s2) \<leftarrow> pure_rnd_flipcoin 50 None s1;
       Some (mark_mutable o1 (if flag then show_nat num else ''-'' @ show_nat num), s2) }
     else if t = TSimple eUInt then do {
       b \<leftarrow> range_limit bound;
       (num, s1) \<leftarrow> pure_rnd_upto b None None s;
       Some (mark_mutable o1 (show_nat num), s1) }
     else None }"

text \<open>A small number, printed at the width of an unsigned type and with the suffix of the type.\<close>

definition small_number :: "cgoptions \<Rightarrow> simple_type \<Rightarrow> int \<Rightarrow> string" where
  "small_number o1 st num =
     (case st of
        eUChar \<Rightarrow> show_int (num mod 2 ^ 8)
      | eUShort \<Rightarrow> show_int (num mod 2 ^ 16)
      | eUInt \<Rightarrow> show_int (num mod 2 ^ 32)
      | eULong \<Rightarrow> show_int (num mod 2 ^ 32)
      | eULongLong \<Rightarrow> show_int (if \<not> opt_longlong o1 then num mod 2 ^ 32 else num mod 2 ^ 64)
      | _ \<Rightarrow> show_int num) @
     (if opt_ccomp o1 \<or> \<not> opt_longlong o1
      then (if is_signed (TSimple st) then [] else ''U'')
      else (if is_signed (TSimple st) then ''L'' else ''UL''))"

definition hex_number :: "cgoptions \<Rightarrow> simple_type \<Rightarrow> rng \<Rightarrow> string \<times> rng" where
  "hex_number o1 st s = (case st of
      eVoid \<Rightarrow> (''/* void */'', s)
    | eChar \<Rightarrow> GenerateRandomCharConstant o1 s
    | eInt \<Rightarrow> GenerateRandomIntConstant o1 s
    | eShort \<Rightarrow> GenerateRandomShortConstant o1 s
    | eLong \<Rightarrow> GenerateRandomLongConstant o1 s
    | eLongLong \<Rightarrow> GenerateRandomLongLongConstant s
    | eUChar \<Rightarrow> GenerateRandomCharConstant o1 s
    | eUInt \<Rightarrow> GenerateRandomIntConstant o1 s
    | eUShort \<Rightarrow> GenerateRandomShortConstant o1 s
    | eULong \<Rightarrow> GenerateRandomLongConstant o1 s
    | eULongLong \<Rightarrow> GenerateRandomLongLongConstant s)"

definition generate_simple :: "cgoptions \<Rightarrow> simple_type \<Rightarrow> rng \<Rightarrow> (string \<times> rng) option" where
  "generate_simple o1 st s = do {
     assert_that (st \<noteq> eVoid);
     (small, s1) \<leftarrow> pure_rnd_flipcoin 50 None s;
     if small then do {
       (tiny, s2) \<leftarrow> pure_rnd_flipcoin 50 None s1;
       (num, s3) \<leftarrow> (if tiny then do { (n, s3) \<leftarrow> pure_rnd_upto 3 None None s2; Some (s32 (u32 (int n - 1)), s3) }
                    else do { (n, s3) \<leftarrow> pure_rnd_upto 20 None None s2; Some (s32 (u32 (int n - 10)), s3) });
       Some (small_number o1 st num, s3) }
     else do {
       let (v, s2) = hex_number o1 st s1;
       v1 \<leftarrow> (if is_signed (TSimple st) then PutRandomSignedConstantInRange v else Some v);
       Some (v1, s2) } }"

text \<open>\<open>GenerateRandomStructConstant\<close> is the loop \<open>struct_constants\<close>, with the position as an argument.\<close>

fun GenerateRandomConstant :: "cgoptions \<Rightarrow> ctype \<Rightarrow> rng \<Rightarrow> (string \<times> rng) option"
  and struct_constants :: "cgoptions \<Rightarrow> ctype list \<Rightarrow> int list \<Rightarrow> nat \<Rightarrow> rng \<Rightarrow> (string \<times> rng) option" where
  "GenerateRandomConstant o1 (TAgg st sid p fs qs ls) s = do {
     assert_that (length fs = length ls);
     (body, s1) \<leftarrow> (if st then struct_constants o1 fs ls 0 s
       else (case fs of [] \<Rightarrow> None | f # _ \<Rightarrow> GenerateRandomConstant o1 f s));
     Some (''{'' @ body @ ''}'', s1) }"
| "GenerateRandomConstant o1 (TPointer t) s = Some (''0'', s)"
| "GenerateRandomConstant o1 (TSimple st) s =
     do { (v, s1) \<leftarrow> generate_simple o1 st s; Some (mark_mutable o1 v, s1) }"
| "GenerateRandomConstant o1 (TVector st n) s = None"
| "struct_constants o1 [] ls i s = Some ([], s)"
| "struct_constants o1 (f # fs) [] i s = None"
| "struct_constants o1 (f # fs) (l # ls) i s =
    (if l = 0 then struct_constants o1 fs ls (Suc i) s
     else do {
       (v, s1) \<leftarrow> (if l > 0 then GenerateRandomConstantInRange o1 f l s else GenerateRandomConstant o1 f s);
       (rest, s2) \<leftarrow> struct_constants o1 fs ls (Suc i) s1;
       Some ((if i > 0 then '','' else []) @ v @ rest, s2) })"

section \<open>Constants\<close>

definition make_random_constant :: "cgoptions \<Rightarrow> ctype option \<Rightarrow> rng \<Rightarrow> (string \<times> rng) option" where
  "make_random_constant o1 t s = (case t of
      None \<Rightarrow> Some (''0'', s)
    | Some t \<Rightarrow> GenerateRandomConstant o1 t s)"

definition make_random_upto :: "nat \<Rightarrow> rng \<Rightarrow> (expr \<times> rng) option" where
  "make_random_upto limit s =
     do { (n, s1) \<leftarrow> rnd_upto limit None None s; Some (EConst (TSimple eUInt) (show_nat n), s1) }"

text \<open>The stream extraction of \<open>str2int\<close> on a whole constant is a parameter: a run of digits may be out
  of the range of \<open>int\<close>.\<close>

partial_function (option) nonzero_loop ::
  "(string \<Rightarrow> int option) \<Rightarrow> cgoptions \<Rightarrow> ctype \<Rightarrow> string \<Rightarrow> rng \<Rightarrow> (string \<times> rng) option" where
  "nonzero_loop to_int o1 t v s = do {
     i \<leftarrow> to_int v;
     if i = 0 then do { (v1, s1) \<leftarrow> GenerateRandomConstant o1 t s; nonzero_loop to_int o1 t v1 s1 }
     else Some (v, s) }"

definition make_random_nonzero ::
  "(string \<Rightarrow> int option) \<Rightarrow> cgoptions \<Rightarrow> ctype \<Rightarrow> rng \<Rightarrow> (expr \<times> rng) option" where
  "make_random_nonzero to_int o1 t s = do {
     (v, s1) \<leftarrow> GenerateRandomConstant o1 t s;
     (v1, s2) \<leftarrow> nonzero_loop to_int o1 t v s1;
     Some (EConst t v1, s2) }"

definition make_int :: "cgoptions \<Rightarrow> int \<Rightarrow> expr" where
  "make_int o1 v = EConst (TSimple eInt) (mark_mutable o1 (show_int v))"

definition constant_equals :: "(string \<Rightarrow> int option) \<Rightarrow> string \<Rightarrow> int \<Rightarrow> bool option" where
  "constant_equals to_int value num = map_option (\<lambda>i. i = num) (to_int value)"

definition constant_not_equals :: "(string \<Rightarrow> int option) \<Rightarrow> string \<Rightarrow> int \<Rightarrow> bool option" where
  "constant_not_equals to_int value num = map_option (\<lambda>i. i \<noteq> num) (to_int value)"

definition constant_less_than :: "(string \<Rightarrow> int option) \<Rightarrow> string \<Rightarrow> int \<Rightarrow> bool option" where
  "constant_less_than to_int value num = map_option (\<lambda>i. i < num) (to_int value)"

definition get_field :: "string \<Rightarrow> nat \<Rightarrow> string" where
  "get_field value fid = (let fields = split_string_any value ''{},'' in
     if fid < length fields then fields ! fid else [])"

definition output_cast :: "cgoptions \<Rightarrow> ctype option \<Rightarrow> string" where
  "output_cast o1 cast_type = (case cast_type of
      Some t \<Rightarrow> if opt_ccomp o1 \<or> opt_lang_cpp o1 then ''('' @ type_output t @ '') '' else []
    | None \<Rightarrow> [])"

definition constant_output ::
  "(string \<Rightarrow> int option) \<Rightarrow> cgoptions \<Rightarrow> ctype option \<Rightarrow> ctype \<Rightarrow> string \<Rightarrow> string option" where
  "constant_output to_int o1 cast_type t value = do {
     null \<leftarrow> (if value \<noteq> [] \<and> value ! 0 = CHR ''-'' then Some False
             else if is_pointer t then constant_equals to_int value 0 else Some False);
     Some (output_cast o1 cast_type @
       (if value \<noteq> [] \<and> value ! 0 = CHR ''-'' then ''('' @ value @ '')''
        else if null then (if opt_lang_cpp o1 then ''NULL'' else ''(void*)'' @ value)
        else value)) }"

section \<open>What a text denotes\<close>

text \<open>An integer literal of C with its value.\<close>

definition suffixes :: "string list" where "suffixes = [[], ''L'', ''U'', ''UL'']"

definition hex_digit_value :: "char \<Rightarrow> nat" where
  "hex_digit_value c = (case find_index (\<lambda>d. d = c) hex1 of None \<Rightarrow> 0 | Some i \<Rightarrow> i)"

definition read_hex :: "string \<Rightarrow> nat" where
  "read_hex = foldl (\<lambda>n c. 16 * n + hex_digit_value c) 0"

inductive scalar_text :: "string \<Rightarrow> int \<Rightarrow> bool" where
  decimal: "suffix \<in> set suffixes \<Longrightarrow> scalar_text (show_nat n @ suffix) (int n)"
| negative: "suffix \<in> set suffixes \<Longrightarrow> scalar_text (''-'' @ show_nat n @ suffix) (- int n)"
| hexadecimal: "ds \<noteq> [] \<Longrightarrow> set ds \<subseteq> set hex1 \<Longrightarrow> suffix \<in> set suffixes \<Longrightarrow>
    scalar_text (''0x'' @ ds @ suffix) (int (read_hex ds))"
| enclosed: "scalar_text v i \<Longrightarrow> scalar_text (''('' @ v @ '')'') i"

text \<open>The values of an integer type with a number of bits.\<close>

definition fits_bits :: "bool \<Rightarrow> nat \<Rightarrow> int \<Rightarrow> bool" where
  "fits_bits signd bits i \<longleftrightarrow>
    (if signd then - (2 ^ (bits - 1)) \<le> i \<and> i < 2 ^ (bits - 1) else 0 \<le> i \<and> i < 2 ^ bits)"

definition type_bits :: "simple_type \<Rightarrow> nat" where
  "type_bits st = nat (8 * simple_size st)"

fun join_plain :: "string list \<Rightarrow> string" where
  "join_plain [] = []"
| "join_plain [x] = x"
| "join_plain (x # y # xs) = x @ '','' @ join_plain (y # xs)"

text \<open>The texts that are constants of a type: the fields of a struct in their order without the padding,
  the first field of a union (at its declared type, also when it is a bit-field).\<close>

inductive constant_text :: "ctype \<Rightarrow> string \<Rightarrow> bool"
  and fields_text :: "ctype list \<Rightarrow> int list \<Rightarrow> string list \<Rightarrow> bool" where
  simple: "scalar_text v i \<Longrightarrow> fits_bits (is_signed (TSimple st)) (type_bits st) i \<Longrightarrow> constant_text (TSimple st) v"
| pointer: "constant_text (TPointer t) ''0''"
| struct: "fields_text fs ls parts \<Longrightarrow> constant_text (TAgg True sid p fs qs ls) (''{'' @ join_plain parts @ ''}'')"
| union: "constant_text f v \<Longrightarrow> constant_text (TAgg False sid p (f # fs) qs ls) (''{'' @ v @ ''}'')"
| no_fields: "fields_text [] [] []"
| padding: "fields_text fs ls parts \<Longrightarrow> fields_text (f # fs) (0 # ls) parts"
| bit_field: "l > 0 \<Longrightarrow> scalar_text v i \<Longrightarrow> fits_bits (is_signed f) (nat l) i \<Longrightarrow> fields_text fs ls parts \<Longrightarrow>
    fields_text (f # fs) (l # ls) (v # parts)"
| regular: "l < 0 \<Longrightarrow> constant_text f v \<Longrightarrow> fields_text fs ls parts \<Longrightarrow> fields_text (f # fs) (l # ls) (v # parts)"

section \<open>Numbers\<close>

lemma int_sqrt_bounds: "int_sqrt n * int_sqrt n \<le> n \<and> n < (int_sqrt n + 1) * (int_sqrt n + 1)"
proof (induction n rule: int_sqrt.induct)
  case (1 n)
  show ?case
  proof (cases "n = 0")
    case False
    let ?r = "int_sqrt (n div 4)"
    have ih: "?r * ?r \<le> n div 4" "n div 4 < (?r + 1) * (?r + 1)" using 1 False by auto
    have lo: "4 * (?r * ?r) \<le> n" using ih(1) by linarith
    have "n < 4 * (n div 4 + 1)" using div_mult_mod_eq[of n 4] mod_less_divisor[of 4 n] by simp
    moreover have "n div 4 + 1 \<le> (?r + 1) * (?r + 1)" using ih(2) by simp
    ultimately have hi: "n < 4 * ((?r + 1) * (?r + 1))" by linarith
    show ?thesis using lo hi False by (subst (1 2 3 4) int_sqrt.simps) (auto simp: Let_def algebra_simps)
  qed (simp add: int_sqrt.simps)
qed

lemma square_less_imp: "(a::nat) * a < b * b \<Longrightarrow> a < b"
  by (meson linorder_not_less mult_le_mono)

lemma square_le_imp: "(a::nat) * a \<le> b * b \<Longrightarrow> a \<le> b"
  by (meson linorder_not_less mult_strict_mono' zero_le order_le_less_trans)

text \<open>The limit for a bit-field of width \<open>w\<close> is at most half of its values (one for width 1).\<close>

lemma int_sqrt_pos: "0 < n \<Longrightarrow> 0 < int_sqrt n"
  using int_sqrt_bounds[of n] by (cases "int_sqrt n") auto

lemma int_sqrt_width: "0 < w \<Longrightarrow> int_sqrt (2 ^ w) \<le> max 1 (2 ^ (w - 1))"
proof -
  assume w: "0 < w"
  show ?thesis
  proof (cases "w = 1")
    case True
    have "int_sqrt 2 * int_sqrt 2 < 2 * 2" using int_sqrt_bounds[of 2] by linarith
    then have "int_sqrt 2 < 2" by (rule square_less_imp)
    then show ?thesis using True by simp
  next
    case False
    then have "w \<le> w - 1 + (w - 1)" using w by simp
    then have "(2::nat) ^ w \<le> 2 ^ (w - 1 + (w - 1))" by (rule power_increasing) simp
    then have "(2::nat) ^ w \<le> 2 ^ (w - 1) * 2 ^ (w - 1)" by (simp only: power_add)
    then have "int_sqrt (2 ^ w) * int_sqrt (2 ^ w) \<le> 2 ^ (w - 1) * 2 ^ (w - 1)"
      using int_sqrt_bounds[of "2 ^ w"] by linarith
    then have "int_sqrt (2 ^ w) \<le> 2 ^ (w - 1)" by (rule square_le_imp)
    then show ?thesis by simp
  qed
qed

lemma read_hex_bound: "read_hex ds < 16 ^ length ds"
proof (induction ds rule: rev_induct)
  case (snoc d ds)
  have d: "hex_digit_value d < 16"
    by (auto simp: hex_digit_value_def hex1_def split: option.splits dest!: find_index_SomeD)
  have "read_hex (ds @ [d]) = 16 * read_hex ds + hex_digit_value d" by (simp add: read_hex_def)
  also have "\<dots> < 16 * (read_hex ds + 1)" using d by simp
  also have "\<dots> \<le> 16 * 16 ^ length ds" using snoc by (intro mult_le_mono2) simp
  finally show ?case by simp
qed (simp add: read_hex_def)

lemma read_hex_Cons: "read_hex (d # ds) = hex_digit_value d * 16 ^ length ds + read_hex ds"
proof -
  have "foldl (\<lambda>n c. 16 * n + hex_digit_value c) a ds = a * 16 ^ length ds + read_hex ds" for a
  proof (induction ds rule: rev_induct)
    case (snoc x xs)
    then show ?case by (simp add: read_hex_def add_mult_distrib2)
  qed (simp add: read_hex_def)
  from this[of "hex_digit_value d"] show ?thesis by (simp add: read_hex_def)
qed

text \<open>A digit below 8 in front keeps the number below half of the range.\<close>

lemma read_hex_small_front:
  assumes "hex_digit_value d < 8"
  shows "read_hex (d # ds) < 8 * 16 ^ length ds"
proof -
  have "read_hex (d # ds) < (hex_digit_value d + 1) * 16 ^ length ds"
    using read_hex_bound[of ds] by (simp add: read_hex_Cons algebra_simps)
  also have "\<dots> \<le> 8 * 16 ^ length ds" using assms by (intro mult_le_mono1) simp
  finally show ?thesis .
qed

lemma hex_digits:
  assumes "d \<in> set hex1"
  shows "\<exists>c < 16. d = hex1 ! c \<and> hex_digit_value d = c"
  using assms by (auto simp: hex1_def hex_digit_value_def)

lemma random_digits_set:
  assumes "0 < base" "base \<le> length digits"
  shows "length (fst (random_digits digits base n s)) = n \<and> set (fst (random_digits digits base n s)) \<subseteq> set digits"
proof (induction n arbitrary: s)
  case (Suc n)
  have "digits ! (fst (genrand s) mod base) \<in> set digits"
    using assms by (intro nth_mem) (meson mod_less_divisor order_less_le_trans)
  then show ?case using Suc by (simp add: case_prod_unfold Let_def)
qed simp

lemma RandomHexDigits_set: "RandomHexDigits n s = (ds, t) \<Longrightarrow> length ds = n \<and> set ds \<subseteq> set hex1"
  using random_digits_set[of 16 hex1 n s] by (simp add: RandomHexDigits_def hex1_def)

section \<open>Scalars\<close>

lemma s32_u32: "s32 (u32 i) = s32 i"
  by (simp add: s32_def u32_def mod_simps)

lemma pure_rnd_upto_total:
  "\<exists>v t. pure_rnd_upto n None w s = Some (v, t) \<and> (0 < n \<longrightarrow> v < n) \<and> (n = 0 \<longrightarrow> v = 0)"
proof (cases "n = 0")
  case False
  then obtain v t where r: "rnd_upto n None w s = Some (v, t)"
    using rnd_upto_total[of n None s 0 w] by (auto simp: rejects_def)
  then have "v < n" by (rule rnd_upto_SomeD)
  then show ?thesis using r False by (simp add: pure_rnd_upto_def)
qed (simp add: pure_rnd_upto_def)

lemma pure_rnd_flipcoin_total: "p \<le> 100 \<Longrightarrow> \<exists>b t. pure_rnd_flipcoin p None s = Some (b, t)"
  by (simp add: pure_rnd_flipcoin_def rnd_flipcoin_total)

lemma suffix_mem: "long_suffix o1 \<in> set suffixes" "(if \<not> opt_longlong o1 then [] else ''L'') \<in> set suffixes"
  "''L'' \<in> set suffixes"
  by (auto simp: long_suffix_def suffixes_def)

lemma scalar_show_int: "suffix \<in> set suffixes \<Longrightarrow> scalar_text (show_int i @ suffix) i"
  using decimal[of suffix "nat i"] negative[of suffix "nat (- i)"] by (auto simp: show_int_def)

lemma mark_mutable_text: "scalar_text v i \<Longrightarrow> scalar_text (mark_mutable o1 v) i"
  using scalar_text.enclosed[of v i] by (simp add: mark_mutable_def)

lemma signed_types [simp]:
  "is_signed (TSimple eInt)" "is_signed (TSimple eChar)" "is_signed (TSimple eShort)" "is_signed (TSimple eLong)"
  "is_signed (TSimple eLongLong)" "\<not> is_signed (TSimple eUInt)" "\<not> is_signed (TSimple eUChar)"
  "\<not> is_signed (TSimple eUShort)" "\<not> is_signed (TSimple eULong)" "\<not> is_signed (TSimple eULongLong)"
  by (simp_all add: is_signed_def unsigned_codes_def)

text \<open>The number a small constant denotes.\<close>

definition small_value :: "cgoptions \<Rightarrow> simple_type \<Rightarrow> int \<Rightarrow> int" where
  "small_value o1 st num = (if is_signed (TSimple st) then num
     else num mod 2 ^ (if st = eUChar then 8 else if st = eUShort then 16
       else if st = eULongLong \<and> opt_longlong o1 then 64 else 32))"

lemma small_number_text:
  assumes "- 10 \<le> num" "num < 10" "st \<noteq> eVoid"
  shows "scalar_text (small_number o1 st num) (small_value o1 st num) \<and>
    fits_bits (is_signed (TSimple st)) (type_bits st) (small_value o1 st num)"
proof
  have u: "suf \<in> {[], ''L'', ''U'', ''UL''} \<Longrightarrow> scalar_text (show_int i @ suf) i" for suf i
    by (rule scalar_show_int) (auto simp: suffixes_def)
  have p: "scalar_text (show_int i) i" for i using u[of "[]" i] by simp
  show "scalar_text (small_number o1 st num) (small_value o1 st num)"
    by (cases st; use assms(3) in \<open>auto simp: small_number_def small_value_def intro!: u p\<close>)
  have m: "0 \<le> num mod (2 ^ b)" "num mod (2 ^ b) < 2 ^ b" for b by simp_all
  have "num mod 2 ^ 32 < 2 ^ 64" using m(2)[of 32] by simp
  then show "fits_bits (is_signed (TSimple st)) (type_bits st) (small_value o1 st num)"
    using assms m(2)[of 8] m(2)[of 16] m(2)[of 32] m(2)[of 64]
    by (cases st) (auto simp: small_value_def fits_bits_def type_bits_def)
qed

lemma first_digits:
  "list_all (\<lambda>d. str2int stream_dec stream_hex (''0x'' @ [d]) = Some (int (hex_digit_value d))) hex1"
  by code_simp

lemma first_digit_value:
  "d \<in> set hex1 \<Longrightarrow> str2int stream_dec stream_hex (''0x'' @ [d]) = Some (int (hex_digit_value d))"
  using first_digits by (auto simp: list_all_iff)

lemma cleared_digits:
  "list_all (\<lambda>d. hex_digit_value d \<ge> 8 \<longrightarrow> char_of (48 + nat (int (hex_digit_value d) - 8)) = hex1 ! (hex_digit_value d - 8) \<and>
     hex_digit_value (hex1 ! (hex_digit_value d - 8)) < 8 \<and> hex1 ! (hex_digit_value d - 8) \<in> set hex1) hex1"
  by code_simp

lemma cleared_digit:
  assumes "d \<in> set hex1" "hex_digit_value d \<ge> 8"
  shows "char_of (48 + nat (int (hex_digit_value d) - 8)) = hex1 ! (hex_digit_value d - 8)"
    "hex_digit_value (hex1 ! (hex_digit_value d - 8)) < 8" "hex1 ! (hex_digit_value d - 8) \<in> set hex1"
  using cleared_digits assms by (auto simp: list_all_iff)

lemma sign_cleared:
  assumes "ds \<noteq> []" "set ds \<subseteq> set hex1"
  shows "\<exists>ds'. PutRandomSignedConstantInRange (''0x'' @ ds @ suffix) = Some (''0x'' @ ds' @ suffix) \<and>
     length ds' = length ds \<and> set ds' \<subseteq> set hex1 \<and> read_hex ds' < 8 * 16 ^ (length ds - 1)"
proof -
  obtain d r where ds: "ds = d # r" using assms(1) by (cases ds) auto
  have d: "d \<in> set hex1" using assms(2) ds by simp
  have f: "str2int stream_dec stream_hex (take 3 (''0x'' @ ds @ suffix)) = Some (int (hex_digit_value d))"
    using first_digit_value[OF d] by (simp add: ds)
  show ?thesis
  proof (cases "hex_digit_value d \<ge> 8")
    case True
    note v = cleared_digit[OF d True]
    have "PutRandomSignedConstantInRange (''0x'' @ ds @ suffix) = Some (''0x'' @ (hex1 ! (hex_digit_value d - 8) # r) @ suffix)"
      unfolding PutRandomSignedConstantInRange_def f using True by (simp add: ds v(1))
    then show ?thesis
      using read_hex_small_front[OF v(2), of r] v(3) assms(2) by (intro exI[of _ "hex1 ! (hex_digit_value d - 8) # r"]) (simp add: ds)
  next
    case False
    then have "PutRandomSignedConstantInRange (''0x'' @ ds @ suffix) = Some (''0x'' @ ds @ suffix)"
      unfolding PutRandomSignedConstantInRange_def f by simp
    then show ?thesis using read_hex_small_front[of d r] False assms(2) by (intro exI[of _ ds]) (simp add: ds)
  qed
qed

text \<open>Every branch of the switch yields the hexadecimal digits that fill the type.\<close>

lemma hex_number_text:
  assumes "st \<noteq> eVoid"
  shows "\<exists>ds suffix t. hex_number o1 st s = (''0x'' @ ds @ suffix, t) \<and> 4 * length ds = type_bits st \<and>
    set ds \<subseteq> set hex1 \<and> suffix \<in> set suffixes"
proof -
  have c: "\<exists>ds suf t. hex_constant n suffix s = (''0x'' @ ds @ suf, t) \<and> 4 * length ds = b \<and>
      set ds \<subseteq> set hex1 \<and> suf \<in> set suffixes" if "suffix \<in> set suffixes" "4 * n = b" for n suffix b
    using RandomHexDigits_set[of n s] that by (cases "RandomHexDigits n s") (auto simp: hex_constant_def)
  note gens = GenerateRandomCharConstant_def GenerateRandomIntConstant_def GenerateRandomShortConstant_def
    GenerateRandomLongConstant_def GenerateRandomLongLongConstant_def
  show ?thesis
    by (cases st; use assms in \<open>simp only: hex_number_def simple_type.case gens\<close>;
        (rule c)?; simp add: suffix_mem type_bits_def)
qed

lemma generate_simple_text:
  assumes "st \<noteq> eVoid"
  shows "\<exists>v t i. generate_simple o1 st s = Some (v, t) \<and> scalar_text v i \<and>
    fits_bits (is_signed (TSimple st)) (type_bits st) i"
proof -
  obtain small s1 where b: "pure_rnd_flipcoin 50 None s = Some (small, s1)"
    using pure_rnd_flipcoin_total[of 50] by fastforce
  show ?thesis
  proof (cases small)
    case True
    obtain tiny s2 where t: "pure_rnd_flipcoin 50 None s1 = Some (tiny, s2)"
      using pure_rnd_flipcoin_total[of 50] by fastforce
    have c: "s32 (u32 (int n - k)) = int n - k" if "n < 20" "0 \<le> k" "k \<le> 10" for n k
      unfolding s32_u32 by (rule s32_id) (use that in \<open>simp_all add: INT_MIN_def INT_MAX_def\<close>)
    obtain n3 t3 where n3: "pure_rnd_upto 3 None None s2 = Some (n3, t3)" "n3 < 3"
      using pure_rnd_upto_total[of 3 None s2] by auto
    obtain n20 t20 where n20: "pure_rnd_upto 20 None None s2 = Some (n20, t20)" "n20 < 20"
      using pure_rnd_upto_total[of 20 None s2] by auto
    let ?num = "if tiny then int n3 - 1 else int n20 - 10"
    have g: "generate_simple o1 st s = Some (small_number o1 st ?num, if tiny then t3 else t20)"
      using assms b t n3 n20 True c[of n3 1] c[of n20 10] by (simp add: generate_simple_def)
    have "- 10 \<le> ?num" "?num < 10" using n3(2) n20(2) by auto
    from small_number_text[OF this assms] show ?thesis unfolding g by blast
  next
    case False
    obtain ds suf t where h: "hex_number o1 st s1 = (''0x'' @ ds @ suf, t)" "4 * length ds = type_bits st"
      "set ds \<subseteq> set hex1" "suf \<in> set suffixes"
      using hex_number_text[OF assms] by blast
    have ne: "ds \<noteq> []" using h(2) assms by (cases st) (auto simp: type_bits_def)
    have len: "(16::nat) ^ length ds = 2 ^ type_bits st"
      unfolding h(2)[symmetric] by (simp add: power_mult)
    show ?thesis
    proof (cases "is_signed (TSimple st)")
      case True
      obtain ds' where d: "PutRandomSignedConstantInRange (''0x'' @ ds @ suf) = Some (''0x'' @ ds' @ suf)"
        "length ds' = length ds" "set ds' \<subseteq> set hex1" "read_hex ds' < 8 * 16 ^ (length ds - 1)"
        using sign_cleared[OF ne h(3)] by blast
      have "(8::nat) * 16 ^ (length ds - 1) = 2 ^ (type_bits st - 1)"
        unfolding h(2)[symmetric] using ne by (cases "length ds") (simp_all add: power_add power_mult)
      then have "int (read_hex ds') < 2 ^ (type_bits st - 1)"
        using d(4) by (metis of_nat_less_iff of_nat_numeral of_nat_power)
      then have "fits_bits True (type_bits st) (int (read_hex ds'))"
        by (simp add: fits_bits_def) (meson int_ops(1) le_numeral_extra(3) neg_le_0_iff_le order_trans zero_le_numeral zero_le_power of_nat_0_le_iff)
      moreover have "scalar_text (''0x'' @ ds' @ suf) (int (read_hex ds'))"
        using d(2) ne h(4) d(3) by (intro hexadecimal) auto
      moreover have "generate_simple o1 st s = Some (''0x'' @ ds' @ suf, t)"
        using assms b h(1) d(1) False True by (simp add: generate_simple_def)
      ultimately show ?thesis using True by (auto intro!: exI)
    next
      case sg: False
      have "int (read_hex ds) < 2 ^ type_bits st"
        using read_hex_bound[of ds] len by (metis of_nat_less_iff of_nat_numeral of_nat_power)
      then have "fits_bits False (type_bits st) (int (read_hex ds))" by (simp add: fits_bits_def)
      moreover have "scalar_text (''0x'' @ ds @ suf) (int (read_hex ds))"
        using ne h(3,4) by (intro hexadecimal) auto
      moreover have "generate_simple o1 st s = Some (''0x'' @ ds @ suf, t)"
        using assms b h(1) False sg by (simp add: generate_simple_def)
      ultimately show ?thesis using sg by (auto intro!: exI)
    qed
  qed
qed

lemma GenerateRandomConstantInRange_text:
  assumes "0 < l" "l < 62" "f = TSimple eInt \<or> f = TSimple eUInt"
  shows "\<exists>v t i. GenerateRandomConstantInRange o1 f l s = Some (v, t) \<and> scalar_text v i \<and> fits_bits (is_signed f) (nat l) i"
proof -
  let ?b = "int_sqrt (2 ^ nat l)"
  have lim: "range_limit l = Some ?b" using assms by (simp add: range_limit_def)
  obtain num s1 where n: "pure_rnd_upto ?b None None s = Some (num, s1)" "num < ?b"
    using pure_rnd_upto_total[of ?b None s] int_sqrt_pos[of "2 ^ nat l"] by auto
  obtain flag s2 where c: "pure_rnd_flipcoin 50 None s1 = Some (flag, s2)"
    using pure_rnd_flipcoin_total[of 50] by fastforce
  have w: "?b \<le> max 1 (2 ^ (nat l - 1))" using assms(1) by (intro int_sqrt_width) simp
  then have half: "num < max 1 (2 ^ (nat l - 1))" using n(2) by linarith
  then have "num < 2 ^ (nat l - 1)" by (auto simp: max_def split: if_splits)
  then have h: "int num < 2 ^ (nat l - 1)" by (metis of_nat_less_iff of_nat_numeral of_nat_power)
  also have "(2::int) ^ (nat l - 1) \<le> 2 ^ nat l" by (rule power_increasing) auto
  finally have u: "int num < 2 ^ nat l" .
  have "- (2 ^ (nat l - 1)) \<le> - int num" using h by simp
  moreover have "- int num \<le> int num" by simp
  ultimately have fs: "fits_bits True (nat l) (if flag then int num else - int num)"
    using h unfolding fits_bits_def by (smt (verit) if_split)
  have dec: "scalar_text (show_nat num) (int num)" using decimal[of "[]" num] by (simp add: suffixes_def)
  have neg: "scalar_text (''-'' @ show_nat num) (- int num)" using negative[of "[]" num] by (simp add: suffixes_def)
  from assms(3) show ?thesis
  proof
    assume f: "f = TSimple eInt"
    have "GenerateRandomConstantInRange o1 f l s =
        Some (mark_mutable o1 (if flag then show_nat num else ''-'' @ show_nat num), s2)"
      using f lim n(1) c by (simp add: GenerateRandomConstantInRange_def)
    moreover have "scalar_text (mark_mutable o1 (if flag then show_nat num else ''-'' @ show_nat num))
        (if flag then int num else - int num)"
      using dec neg by (auto intro!: mark_mutable_text)
    moreover have "fits_bits (is_signed f) (nat l) (if flag then int num else - int num)"
      using fs f by simp
    ultimately show ?thesis by blast
  next
    assume f: "f = TSimple eUInt"
    have "GenerateRandomConstantInRange o1 f l s = Some (mark_mutable o1 (show_nat num), s1)"
      using f lim n(1) by (simp add: GenerateRandomConstantInRange_def)
    moreover have "scalar_text (mark_mutable o1 (show_nat num)) (int num)" using dec by (rule mark_mutable_text)
    moreover have "fits_bits (is_signed f) (nat l) (int num)" using u f by (simp add: fits_bits_def)
    ultimately show ?thesis by blast
  qed
qed

section \<open>Aggregates\<close>

text \<open>The types constants are made for: no void and no vector, the parallel vectors agree, a bit-field is
  an integer of a representable width, and the first field of a struct is not padding.\<close>

fun constant_ok :: "ctype \<Rightarrow> bool" where
  "constant_ok (TSimple st) = (st \<noteq> eVoid)"
| "constant_ok (TVector st n) = False"
| "constant_ok (TPointer t) = True"
| "constant_ok (TAgg st sid p fs qs ls) =
    (fs \<noteq> [] \<and> (st \<longrightarrow> hd ls \<noteq> 0) \<and> list_all constant_ok fs \<and>
     list_all2 (\<lambda>f l. l < 62 \<and> (l > 0 \<longrightarrow> f = TSimple eInt \<or> f = TSimple eUInt)) fs ls)"

definition comma_parts :: "string list \<Rightarrow> string" where
  "comma_parts parts = concat (map (\<lambda>v. '','' @ v) parts)"

lemma join_plain_Cons: "join_plain (x # xs) = x @ comma_parts xs"
  unfolding comma_parts_def by (induction xs arbitrary: x) auto

lemma GenerateRandomConstant_text:
  "constant_ok t \<Longrightarrow> \<exists>v r. GenerateRandomConstant o1 t s = Some (v, r) \<and> constant_text t v"
  "list_all constant_ok fs \<Longrightarrow>
   list_all2 (\<lambda>f l. l < 62 \<and> (l > 0 \<longrightarrow> f = TSimple eInt \<or> f = TSimple eUInt)) fs ls \<Longrightarrow>
   \<exists>parts text r. struct_constants o1 fs ls i s = Some (text, r) \<and> fields_text fs ls parts \<and>
     (i > 0 \<longrightarrow> text = comma_parts parts) \<and>
     (i = 0 \<longrightarrow> (ls \<noteq> [] \<longrightarrow> hd ls \<noteq> 0) \<longrightarrow> text = join_plain parts)"
proof (induction o1 t s and o1 fs ls i s rule: GenerateRandomConstant_struct_constants.induct)
  case (1 o1 st sid p fs qs ls s)
  have len: "length fs = length ls" using 1(3) by (auto dest: list_all2_lengthD)
  show ?case
  proof (cases st)
    case True
    then obtain parts r where "struct_constants o1 fs ls 0 s = Some (join_plain parts, r)" "fields_text fs ls parts"
      using 1(1)[of "()"] 1(3) len by auto
    then show ?thesis using True len struct by auto
  next
    case False
    then obtain f gs where fs: "fs = f # gs" using 1(3) by (cases fs) auto
    then obtain v r where "GenerateRandomConstant o1 f s = Some (v, r)" "constant_text f v"
      using 1(2)[of "()" f gs] 1(3) len False by auto
    then show ?thesis using False len fs union by auto
  qed
next
  case (2 o1 t s)
  then show ?case using pointer by auto
next
  case (3 o1 st s)
  then obtain v r i where g: "generate_simple o1 st s = Some (v, r)" "scalar_text v i"
    "fits_bits (is_signed (TSimple st)) (type_bits st) i"
    using generate_simple_text[of st o1 s] by auto
  then show ?case using simple[OF mark_mutable_text[OF g(2)] g(3)] by auto
next
  case (5 o1 ls i s)
  then show ?case using no_fields by (auto simp: comma_parts_def)
next
  case (7 o1 f fs l ls i s)
  show ?case
  proof (cases "l = 0")
    case True
    then obtain parts body r where "struct_constants o1 fs ls (Suc i) s = Some (body, r)" "fields_text fs ls parts"
      "body = comma_parts parts"
      using 7(1) 7(4,5) by auto
    then show ?thesis using True by (intro exI[of _ parts]) (simp add: padding)
  next
    case False
    let ?gen = "if l > 0 then GenerateRandomConstantInRange o1 f l s else GenerateRandomConstant o1 f s"
    obtain v s1 where v: "?gen = Some (v, s1)" and
      fv: "\<And>parts. fields_text fs ls parts \<Longrightarrow> fields_text (f # fs) (l # ls) (v # parts)"
    proof (cases "l > 0")
      case True
      then show ?thesis using GenerateRandomConstantInRange_text[of l f o1 s] 7(5) that bit_field by auto
    next
      case neg: False
      then have "l < 0" using False by simp
      then show ?thesis using 7(2)[OF False neg] 7(4) that regular by auto
    qed
    obtain parts r where "struct_constants o1 fs ls (Suc i) s1 = Some (comma_parts parts, r)" "fields_text fs ls parts"
      using 7(3)[OF False v refl] 7(4,5) by auto
    then show ?thesis
      using False v fv by (intro exI[of _ "v # parts"]) (simp add: join_plain_Cons comma_parts_def)
  qed
qed auto

text \<open>The constants with a fixed value.\<close>

lemma make_int_text: "\<exists>v. make_int o1 i = EConst (TSimple eInt) v \<and> scalar_text v i"
  using mark_mutable_text[OF scalar_show_int[of "[]" i]] by (simp add: make_int_def suffixes_def)

text \<open>The constants that must not be 0.\<close>

lemma nonzero_loop_SomeD:
  assumes "nonzero_loop to_int o1 t v s = Some y" "constant_ok t" "constant_text t v"
  shows "constant_text t (fst y) \<and> (\<exists>i. to_int (fst y) = Some i \<and> i \<noteq> 0)"
proof -
  have "constant_ok t \<longrightarrow> constant_text t v \<longrightarrow> constant_text t (fst y) \<and> (\<exists>i. to_int (fst y) = Some i \<and> i \<noteq> 0)"
  proof (rule nonzero_loop.raw_induct[where P = "\<lambda>to_int o1 t v s y. constant_ok t \<longrightarrow> constant_text t v \<longrightarrow>
      constant_text t (fst y) \<and> (\<exists>i. to_int (fst y) = Some i \<and> i \<noteq> 0)", OF _ assms(1)], goal_cases)
    case (1 loop to_int o1 t v s y)
    from 1(2) obtain i where i: "to_int v = Some i" by (auto simp: bind_eq_Some_conv)
    show ?case
    proof (cases "i = 0")
      case True
      then obtain v1 s1 where g: "GenerateRandomConstant o1 t s = Some (v1, s1)" "loop to_int o1 t v1 s1 = Some y"
        using 1(2) i by (auto simp: bind_eq_Some_conv)
      have "constant_ok t \<longrightarrow> constant_text t v1"
        using GenerateRandomConstant_text(1)[of t o1 s] g(1) by auto
      then show ?thesis using 1(1)[OF g(2)] by blast
    next
      case False
      then show ?thesis using 1(2) i by auto
    qed
  qed
  then show ?thesis using assms(2,3) by blast
qed

lemma make_random_nonzero_text:
  assumes "make_random_nonzero to_int o1 t s = Some (e, s1)" "constant_ok t"
  shows "\<exists>v i. e = EConst t v \<and> constant_text t v \<and> to_int v = Some i \<and> i \<noteq> 0"
proof -
  obtain v s2 v1 where g: "GenerateRandomConstant o1 t s = Some (v, s2)"
    "nonzero_loop to_int o1 t v s2 = Some (v1, s1)" "e = EConst t v1"
    using assms(1) by (auto simp: make_random_nonzero_def bind_eq_Some_conv)
  have "constant_text t v" using GenerateRandomConstant_text(1)[OF assms(2), of o1 s] g(1) by auto
  from nonzero_loop_SomeD[OF g(2) assms(2) this] g(3) show ?thesis by auto
qed

text \<open>C20: every random constant is a constant of its type.  For every type without void, vectors and
  leading padding, the generator always ends with a text, and the text is a constant of C for the type:
  an integer literal whose value the type represents (the sign bit of hexadecimal digits is cleared for
  the signed types), 0 for a pointer, and for a struct a braced list with one constant for every field
  that is not padding, each bit-field with a number that fits its width.\<close>

theorem GenerateRandomConstant_correct:
  assumes "constant_ok t"
  shows "\<exists>v r. make_random_constant o1 (Some t) s = Some (v, r) \<and> constant_text t v"
  using GenerateRandomConstant_text(1)[OF assms, of o1 s] by (simp add: make_random_constant_def)

definition padded_struct :: ctype where
  "padded_struct = TAgg True 1 False [TSimple eInt, TSimple eUInt, TSimple eChar]
     [cvq_new [False] [False], cvq_new [False] [False], cvq_new [False] [False]] [3, 0, -1]"

lemma GenerateRandomConstant_correct_witness:
  "\<exists>v r. make_random_constant (default_settings cgoptions_zero) (Some padded_struct) (rng_of [1, 70, 80, 15, 9]) = Some (v, r) \<and>
     constant_text padded_struct v"
  by (rule GenerateRandomConstant_correct) (simp add: padded_struct_def)

end
