(* ===== verification/Arrays.thy ===== *)
theory Arrays
  imports Constants
begin

text \<open>
  ArrayVariable.cpp and CLSmith/Vector.cpp: the creation of arrays and OpenCL vectors, the members and
  components that are picked from them (itemization), and the text of their initializers.

  A new variable object gets its number as an argument.  The two kinds of arrays share the
  constructor \<open>Arr\<close>: a vector keeps the components it selects instead of index expressions.
\<close>

section \<open>Creating an array\<close>

text \<open>The number of dimensions falls out of a random number below 100: the loop subtracts 50, 25, 12, ...\<close>

function dimension_loop :: "int \<Rightarrow> nat \<Rightarrow> nat \<Rightarrow> nat" where
  "dimension_loop num step dimension =
    (if num > 0 then
       let step1 = (if step div 2 = 0 then 1 else step div 2)
       in dimension_loop (num - int step1) step1 (dimension + 1)
     else dimension)"
  by pat_completeness auto
termination
  by (relation "measure (\<lambda>(num, step, dimension). nat num)") (auto simp: Let_def div_greater_zero_iff)

declare dimension_loop.simps [simp del]

definition array_dimension :: "cgoptions \<Rightarrow> nat \<Rightarrow> nat" where
  "array_dimension o1 n = (let dimension = dimension_loop (int n + 1) 100 0 in
     if int dimension > opt_max_array_dimensions o1 then nat (opt_max_array_dimensions o1) else dimension)"

text \<open>The sizes, with the product of the sizes so far; a dimension that would make the array too long is
  cut, and left out when nothing is left for it.\<close>

fun array_sizes :: "cgoptions \<Rightarrow> nat \<Rightarrow> int \<Rightarrow> rng \<Rightarrow> (nat list \<times> int \<times> rng) option" where
  "array_sizes o1 0 total_size s = Some ([], total_size, s)"
| "array_sizes o1 (Suc n) total_size s = do {
     (d, s1) \<leftarrow> rnd_upto (nat (u32 (opt_max_array_length_per_dimension o1))) None None s;
     let size1 = u32 (int d + 1);
     let dimen_size = (if u32 (total_size * size1) > u32 (opt_max_array_length o1)
       then u32 (opt_max_array_length o1 sdiv total_size) else size1);
     (rest, total, s2) \<leftarrow> array_sizes o1 n (if dimen_size \<noteq> 0 then s32 (total_size * dimen_size) else total_size) s1;
     Some ((if dimen_size \<noteq> 0 then [nat dimen_size] else []) @ rest, total, s2) }"

fun more_values :: "(rng \<Rightarrow> (expr \<times> rng) option) \<Rightarrow> nat \<Rightarrow> rng \<Rightarrow> (expr list \<times> rng) option" where
  "more_values gen 0 s = Some ([], s)"
| "more_values gen (Suc n) s = do {
     (e, s1) \<leftarrow> gen s;
     (es, s2) \<leftarrow> more_values gen n s1;
     Some (e # es, s2) }"

text \<open>The initial value of a pointer is chosen by the selection of variables, a parameter here.\<close>

definition CreateArrayVariable ::
  "cgoptions \<Rightarrow> (rng \<Rightarrow> (expr \<times> rng) option) \<Rightarrow> nat \<Rightarrow> nat option \<Rightarrow> string \<Rightarrow> ctype \<Rightarrow> expr option \<Rightarrow> cvq \<Rightarrow>
   rng \<Rightarrow> (variable \<times> rng) option" where
  "CreateArrayVariable o1 make_init_value vid blk name t init qfer s = do {
     assert_that (t \<noteq> TSimple eVoid);
     (n, s1) \<leftarrow> rnd_upto 99 None None s;
     (sizes, total_size, s2) \<leftarrow> array_sizes o1 (array_dimension o1 n) 1 s1;
     (init_num, s3) \<leftarrow> pure_rnd_upto (nat (u32 (total_size sdiv 2))) None None s2;
     (vals, s4) \<leftarrow> more_values
        (if \<not> is_pointer t \<or> opt_strict_const_arrays o1
         then (\<lambda>s. do { (v, s') \<leftarrow> make_random_constant o1 (Some t) s; Some (EConst t v, s') })
         else make_init_value) init_num s3;
     Some (Arr \<lparr>vi_id = vid, vi_name = name, vi_type = Some t, vi_qfer = qfer, vi_expanded = is_aggregate t\<rparr>
       init vals None None blk sizes [], s4) }"

text \<open>\<open>get_size\<close> and \<open>size_in_bytes\<close> of an array.\<close>

definition get_array_size :: "nat list \<Rightarrow> nat" where
  "get_array_size sizes = fold (\<lambda>n len. len * n) sizes 1"

section \<open>Itemization\<close>

fun array_type :: "variable \<Rightarrow> ctype option" where
  "array_type (Arr i e es comps c b ss xs) = vi_type i"
| "array_type _ = None"

fun array_sizes_of :: "variable \<Rightarrow> nat list" where
  "array_sizes_of (Arr i e es comps c b ss xs) = ss"
| "array_sizes_of _ = []"

fun alternative_values :: "variable \<Rightarrow> expr list" where
  "alternative_values (Arr i e es comps c b ss xs) = es"
| "alternative_values _ = []"

fun is_vector_var :: "variable \<Rightarrow> bool" where
  "is_vector_var (Arr i e es comps c b ss xs) = (comps \<noteq> None)"
| "is_vector_var _ = False"

definition index_const :: "nat \<Rightarrow> expr" where
  "index_const n = EConst (TSimple eInt) (show_nat n)"

text \<open>The copy of an array with indices; a struct or union member is expanded.\<close>

fun itemize_with :: "nat \<Rightarrow> variable \<Rightarrow> expr list \<Rightarrow> nat option \<Rightarrow> variable option" where
  "itemize_with vid (Arr i e es comps None b ss xs) indices blk =
     (if length ss \<le> length indices
      then Some (Arr (i\<lparr>vi_id := vid, vi_expanded := (case vi_type i of None \<Rightarrow> False | Some t \<Rightarrow> is_aggregate t)\<rparr>)
        e es comps (Some (Arr i e es comps None b ss xs)) blk ss (xs @ take (length ss) indices))
      else None)"
| "itemize_with vid v indices blk = None"

fun block_of :: "variable \<Rightarrow> nat option" where
  "block_of (Arr i e es comps c b ss xs) = b"
| "block_of _ = None"

definition itemize_consts :: "nat \<Rightarrow> variable \<Rightarrow> nat list \<Rightarrow> variable option" where
  "itemize_consts vid av const_indices = do {
     assert_that (length const_indices = length (array_sizes_of av));
     itemize_with vid av (map index_const const_indices) (block_of av) }"

definition itemize_vars :: "nat \<Rightarrow> variable \<Rightarrow> (variable \<times> ctype) list \<Rightarrow> nat option \<Rightarrow> variable option" where
  "itemize_vars vid av indices blk = itemize_with vid av (map (\<lambda>(v, t). EVar v t) indices) blk"

fun random_indices :: "nat list \<Rightarrow> rng \<Rightarrow> (nat list \<times> rng) option" where
  "random_indices [] s = Some ([], s)"
| "random_indices (n # ns) s = do {
     (k, s1) \<leftarrow> rnd_upto n None None s;
     (ks, s2) \<leftarrow> random_indices ns s1;
     Some (k # ks, s2) }"

text \<open>A vector keeps its components; its object is not expanded and stays in its block.\<close>

fun itemize_simd_at :: "nat \<Rightarrow> variable \<Rightarrow> nat list \<Rightarrow> variable option" where
  "itemize_simd_at vid (Arr i e es (Some comps) None b ss xs) const_indices =
     (if const_indices \<noteq> []
      then Some (Arr (i\<lparr>vi_id := vid\<rparr>) e es (Some const_indices)
        (Some (Arr i e es (Some comps) None b ss xs)) b ss xs)
      else None)"
| "itemize_simd_at vid v const_indices = None"

fun vector_itemize_at :: "nat \<Rightarrow> variable \<Rightarrow> nat list \<Rightarrow> variable option" where
  "vector_itemize_at vid (Arr i e es (Some comps) None b ss xs) const_indices =
     (if length const_indices = 1
      then Some (Arr (i\<lparr>vi_id := vid\<rparr>) e es (Some (comps @ const_indices))
        (Some (Arr i e es (Some comps) None b ss xs)) b ss xs)
      else None)"
| "vector_itemize_at vid v const_indices = None"

definition vector_itemize :: "nat \<Rightarrow> variable \<Rightarrow> rng \<Rightarrow> (variable \<times> rng) option" where
  "vector_itemize vid av s = do {
     n \<leftarrow> vec_at (array_sizes_of av) 0;
     (k, s1) \<leftarrow> rnd_upto n None None s;
     v \<leftarrow> vector_itemize_at vid av [k];
     Some (v, s1) }"

definition kSizes :: "nat list" where "kSizes = [2, 4, 8, 16]"

definition itemize_simd_count :: "nat \<Rightarrow> variable \<Rightarrow> nat \<Rightarrow> rng \<Rightarrow> (variable \<times> rng) option" where
  "itemize_simd_count vid av access_count s = do {
     assert_that (access_count \<in> {1, 2, 4, 8, 16});
     n \<leftarrow> vec_at (array_sizes_of av) 0;
     (access, s1) \<leftarrow> random_indices (replicate access_count n) s;
     v \<leftarrow> itemize_simd_at vid av access;
     Some (v, s1) }"

definition itemize_simd :: "nat \<Rightarrow> variable \<Rightarrow> rng \<Rightarrow> (variable \<times> rng) option" where
  "itemize_simd vid av s = do {
     (num, s1) \<leftarrow> rnd_upto 5 None None s;
     if num = 4 then vector_itemize vid av s1 else itemize_simd_count vid av (kSizes ! num) s1 }"

text \<open>The virtual \<open>itemize()\<close>: a random member, or a random component of a vector.\<close>

definition itemize :: "nat \<Rightarrow> variable \<Rightarrow> rng \<Rightarrow> (variable \<times> rng) option" where
  "itemize vid av s =
    (if is_vector_var av then vector_itemize vid av s
     else do {
       (ks, s1) \<leftarrow> random_indices (array_sizes_of av) s;
       v \<leftarrow> itemize_with vid av (map index_const ks) (block_of av);
       Some (v, s1) })"

section \<open>Variants of a member\<close>

fun count_expr_key_var :: "expr \<Rightarrow> nat option" where
  "count_expr_key_var (EVar v t) = Some 1"
| "count_expr_key_var (EConst t c) = Some 0"
| "count_expr_key_var (ECall n t es) = Some 2"
| "count_expr_key_var (EPrim oper t [e]) = count_expr_key_var e"
| "count_expr_key_var (EPrim oper t [a, b]) =
     do { m \<leftarrow> count_expr_key_var a; n \<leftarrow> count_expr_key_var b; Some (m + n) }"
| "count_expr_key_var _ = None"

fun find_expr_key_var :: "expr \<Rightarrow> variable option option" where
  "find_expr_key_var (EVar v t) = Some (Some v)"
| "find_expr_key_var (EPrim oper t es) =
    (if oper = eBuiltIn then Some None
     else case es of
         [e] \<Rightarrow> find_expr_key_var e
       | [a, b] \<Rightarrow> do {
           v0 \<leftarrow> find_expr_key_var a;
           v1 \<leftarrow> find_expr_key_var b;
           Some (if v0 = None \<and> v1 \<noteq> None then v1 else if v0 \<noteq> None \<and> v1 = None then v0 else None) }
       | _ \<Rightarrow> None)"
| "find_expr_key_var _ = Some None"

fun same_keys :: "expr list \<Rightarrow> expr list \<Rightarrow> bool option" where
  "same_keys (e # es) (e1 # es1) = do {
     m \<leftarrow> count_expr_key_var e;
     bad \<leftarrow> (if m \<noteq> 1 then Some True
            else do {
              n \<leftarrow> count_expr_key_var e1;
              if n \<noteq> 1 then Some True
              else do { a \<leftarrow> find_expr_key_var e; b \<leftarrow> find_expr_key_var e1; Some (a \<noteq> b) } });
     if bad then Some False else same_keys es es1 }"
| "same_keys _ _ = Some True"

definition is_variant :: "variable \<Rightarrow> variable \<Rightarrow> bool option" where
  "is_variant this v = (case (this, v) of
      (Arr i e es comps c b ss xs, Arr i1 e1 es1 comps1 c1 b1 ss1 xs1) \<Rightarrow>
        if c1 \<noteq> None \<and> c = c1 \<and> length xs1 = length xs then same_keys xs xs1 else Some False
    | _ \<Rightarrow> Some False)"

section \<open>Output\<close>

text \<open>\<open>is_const()\<close> is asked of the collective.\<close>

definition no_loop_initializer :: "cgoptions \<Rightarrow> variable \<Rightarrow> bool option" where
  "no_loop_initializer o1 v = (case v of
      Arr i e es comps c b ss xs \<Rightarrow>
        if opt_deputy o1 then Some True
        else do {
          t \<leftarrow> vi_type i;
          if is_struct t \<or> is_union t then Some True
          else do {
            k \<leftarrow> var_is_const v;
            Some (k \<or> b = None \<or> length es > 0) } }
    | _ \<Rightarrow> None)"

text \<open>\<open>build_init_recursive\<close> for the dimensions from \<open>dimen\<close> on; the seed lives in one call.\<close>

fun init_row :: "string list \<Rightarrow> nat \<Rightarrow> nat \<Rightarrow> nat \<Rightarrow> string" where
  "init_row strs seed i 0 = []"
| "init_row strs seed i (Suc n) =
    (let rnd_index = ((seed * seed + (i + 7) * (i + 13)) * 487) mod 2 ^ 64 mod length strs;
         seed1 = (if seed + 1 \<ge> 0x7AB then 0xAB else seed + 1)
     in strs ! rnd_index @ (if n \<noteq> 0 then '','' else []) @ init_row strs seed1 (i + 1) n)"

fun repeat_with :: "string \<Rightarrow> string \<Rightarrow> nat \<Rightarrow> string" where
  "repeat_with sep str 0 = []"
| "repeat_with sep str (Suc n) = str @ (if n \<noteq> 0 then sep else []) @ repeat_with sep str n"

fun build_init_recursive :: "nat list \<Rightarrow> string list \<Rightarrow> string option" where
  "build_init_recursive [] strs = None"
| "build_init_recursive [n] strs = Some (''{'' @ init_row strs 0xAB 0 n @ ''}'')"
| "build_init_recursive (n # m # ns) strs = do {
     inner \<leftarrow> build_init_recursive (m # ns) strs;
     Some (''{'' @ repeat_with '','' inner n @ ''}'') }"

text \<open>The other builder works from the last dimension outwards, with the rows of the last dimension
  chosen by a formula in its number \<open>i\<close>.\<close>

fun uniform_row :: "string list \<Rightarrow> nat \<Rightarrow> nat \<Rightarrow> nat \<Rightarrow> string" where
  "uniform_row strs i j 0 = []"
| "uniform_row strs i j (Suc n) =
    (let rnd_index = ((i + (j + 7) * (j + 13)) * 52369) mod 2 ^ 64 mod length strs
     in strs ! rnd_index @ (if n \<noteq> 0 then '', '' else []) @ uniform_row strs i (j + 1) n)"

fun build_outwards :: "string list \<Rightarrow> nat \<Rightarrow> nat list \<Rightarrow> string" where
  "build_outwards strs i [] = []"
| "build_outwards strs i [n] = ''{'' @ uniform_row strs i 0 n @ ''}''"
| "build_outwards strs i (n # m # ns) =
     ''{'' @ repeat_with '', '' (build_outwards strs (i + 1) (m # ns)) n @ ''}''"

definition build_initializer_str :: "cgoptions \<Rightarrow> nat list \<Rightarrow> string list \<Rightarrow> string option" where
  "build_initializer_str o1 sizes strs =
    (if opt_force_non_uniform_array_init o1 then build_init_recursive sizes strs
     else Some (build_outwards strs 0 sizes))"

definition output_dimensions :: "nat list \<Rightarrow> string" where
  "output_dimensions sizes = concat (map (\<lambda>n. ''['' @ show_nat n @ '']'') sizes)"

definition ArrayVariable_OutputDecl :: "cgoptions \<Rightarrow> printer \<Rightarrow> variable \<Rightarrow> string option" where
  "ArrayVariable_OutputDecl o1 pr v = do {
     t \<leftarrow> vtype v;
     q \<leftarrow> vqfer v;
     qualified \<leftarrow> output_qualified_type o1 t q;
     Some ((if opt_force_globals_static o1 \<and> var_is_global v then ''static '' else []) @ qualified @
       get_actual_name pr v @ output_dimensions (array_sizes_of v)) }"

fun init_strings :: "printer \<Rightarrow> variable \<Rightarrow> string list option" where
  "init_strings pr (Arr i (Some e) es comps c b ss xs) = Some (map (pr_expr pr) (e # es))"
| "init_strings pr v = None"

definition ArrayVariable_OutputDef :: "cgoptions \<Rightarrow> printer \<Rightarrow> variable \<Rightarrow> string option" where
  "ArrayVariable_OutputDef o1 pr v = do {
     no_loop \<leftarrow> no_loop_initializer o1 v;
     decl \<leftarrow> ArrayVariable_OutputDecl o1 pr v;
     if \<not> no_loop then Some (decl @ '';'')
     else do {
       strs \<leftarrow> init_strings pr v;
       str \<leftarrow> build_initializer_str o1 (array_sizes_of v) strs;
       Some (decl @ '' = '' @ str @ '';'') } }"

definition output_with_indices :: "printer \<Rightarrow> variable \<Rightarrow> variable list \<Rightarrow> string option" where
  "output_with_indices pr v cvs = do {
     assert_that (length (array_sizes_of v) \<le> length cvs);
     Some (get_actual_name pr v @ concat (map (\<lambda>cv. ''['' @ var_output pr cv @ '']'')
       (take (length (array_sizes_of v)) cvs))) }"

definition OutputUpperBound :: "printer \<Rightarrow> variable \<Rightarrow> string" where
  "OutputUpperBound pr v =
     vname pr v @ concat (map (\<lambda>n. ''['' @ show_int (u32 (int n - 1)) @ '']'') (array_sizes_of v))"

definition OutputLowerBound :: "printer \<Rightarrow> variable \<Rightarrow> string" where
  "OutputLowerBound pr v = vname pr v @ concat (map (\<lambda>n. ''[0]'') (array_sizes_of v))"

section \<open>Vectors\<close>

definition GetRandomVectorLength :: "nat \<Rightarrow> rng \<Rightarrow> (nat \<times> rng) option" where
  "GetRandomVectorLength max1 s =
    (let limit = (if max1 = 0 then kSizes ! 3 else max1);
         ok = filter (\<lambda>k. kSizes ! k \<le> limit) [0..<4]
     in if ok = [] then Some (0, s)
        else do { (k, s1) \<leftarrow> rnd_upto (last ok + 1) None None s; Some (kSizes ! k, s1) })"

definition PromoteTypeToVectorType :: "ctype \<Rightarrow> nat \<Rightarrow> rng \<Rightarrow> (ctype \<times> rng) option" where
  "PromoteTypeToVectorType t size1 s = do {
     (n, s1) \<leftarrow> (if size1 = 0 then GetRandomVectorLength 0 s else Some (size1, s));
     case t of
       TVector st m \<Rightarrow> if m = n then Some (t, s1)
         else do { assert_that (st \<noteq> eVoid \<and> n \<in> set kSizes); Some (TVector st n, s1) }
     | TSimple st \<Rightarrow> do { assert_that (st \<noteq> eVoid \<and> n \<in> set kSizes); Some (TVector st n, s1) }
     | _ \<Rightarrow> None }"

fun DemoteVectorTypeToType :: "ctype \<Rightarrow> ctype" where
  "DemoteVectorTypeToType (TVector st n) = TSimple st"
| "DemoteVectorTypeToType t = t"

definition GetSuffixString :: "nat \<Rightarrow> string" where
  "GetSuffixString suffix = (if suffix = 0 then ''hi'' else if suffix = 1 then ''lo''
     else if suffix = 2 then ''even'' else if suffix = 3 then ''odd'' else [])"

definition OutputVectorType :: "ctype \<Rightarrow> nat \<Rightarrow> string" where
  "OutputVectorType t vector_size =
     ''VECTOR('' @ type_output (DemoteVectorTypeToType t) @ '', '' @ show_nat vector_size @ '')''"

definition CreateVectorVariable ::
  "cgoptions \<Rightarrow> nat \<Rightarrow> nat option \<Rightarrow> string \<Rightarrow> ctype \<Rightarrow> expr option \<Rightarrow> cvq \<Rightarrow> rng \<Rightarrow> (variable \<times> rng) option" where
  "CreateVectorVariable o1 vid blk name t init qfer s = do {
     assert_that ((is_simple t \<or> is_vector t) \<and> simple_type_of t \<noteq> Some eVoid);
     (size1, s1) \<leftarrow> (case t of TVector st n \<Rightarrow> Some (n, s) | _ \<Rightarrow> GetRandomVectorLength 0 s);
     let t1 = DemoteVectorTypeToType t;
     (v, s2) \<leftarrow> make_random_constant o1 (Some t1) s1;
     Some (Arr \<lparr>vi_id = vid, vi_name = name, vi_type = Some t1, vi_qfer = qfer, vi_expanded = False\<rparr>
       init [EConst t1 v] (Some []) None blk [size1] [], s2) }"

text \<open>The largest vector that leaves a component over: the loop counts down from the last size.\<close>

fun max_size_index :: "nat \<Rightarrow> nat \<Rightarrow> nat" where
  "max_size_index items_left 0 = 0"
| "max_size_index items_left (Suc k) =
    (if kSizes ! Suc k > items_left - 1 then max_size_index items_left k else Suc k)"

text \<open>The list of initializers, in which a run of components may be grouped into a smaller vector.  The
  seed never changes: its increment is commented out in the code.\<close>

definition vector_random :: "nat \<Rightarrow> nat" where
  "vector_random idx = ((0xAB * 0xAB + (idx + 7) * (idx + 13)) * 487) mod 2 ^ 64"

lemma max_size_index_le: "max_size_index items_left k \<le> k"
  by (induction k) auto

lemma max_size_fits: "2 < items_left \<Longrightarrow> k < 4 \<Longrightarrow> j \<le> max_size_index items_left k \<Longrightarrow> kSizes ! j < items_left"
proof (induction k)
  case 0
  then show ?case by (simp add: kSizes_def)
next
  case (Suc k)
  show ?case
  proof (cases "kSizes ! Suc k > items_left - 1")
    case False
    have "kSizes ! j \<le> kSizes ! Suc k"
      using Suc.prems(2,3) False by (auto simp: kSizes_def numeral_eq_Suc less_Suc_eq le_Suc_eq)
    then show ?thesis using False Suc.prems(1) by linarith
  qed (use Suc in auto)
qed

definition group_size :: "nat \<Rightarrow> nat \<Rightarrow> nat" where
  "group_size items_left rnd_index = kSizes ! (rnd_index mod (max_size_index items_left 3 + 1))"

lemma group_size_bounds:
  assumes "2 < items_left"
  shows "group_size items_left r < items_left" "2 \<le> group_size items_left r"
    "group_size items_left r \<in> set kSizes"
proof -
  let ?j = "r mod (max_size_index items_left 3 + 1)"
  have j: "?j \<le> max_size_index items_left 3" by (simp add: less_Suc_eq_le[symmetric])
  show "group_size items_left r < items_left"
    unfolding group_size_def by (rule max_size_fits[OF assms _ j]) simp
  have k: "kSizes ! i \<in> set kSizes" "2 \<le> kSizes ! i" if "i < 4" for i
    using that by (auto simp: kSizes_def numeral_eq_Suc less_Suc_eq)
  have "?j < 4" using j max_size_index_le[of items_left 3] by linarith
  then show "2 \<le> group_size items_left r" "group_size items_left r \<in> set kSizes"
    unfolding group_size_def by (rule k)+
qed

function vector_items :: "ctype \<Rightarrow> string list \<Rightarrow> nat \<Rightarrow> nat \<Rightarrow> string" where
  "vector_items t strs size1 idx =
    (if idx \<ge> size1 then []
     else
       let rnd_index = vector_random idx; items_left = size1 - idx;
           sep = (if items_left > 1 then '', '' else [])
       in if items_left > 2 \<and> rnd_index mod 500 \<ge> 250 then
            let n = group_size items_left rnd_index
            in (''('' @ OutputVectorType t n @ '')('' @ vector_items t strs n 0 @ '')'') @ sep @
               vector_items t strs size1 (idx + n)
          else strs ! (rnd_index mod length strs) @ sep @ vector_items t strs size1 (idx + 1))"
  by pat_completeness auto
termination
proof (relation "(\<lambda>(t, strs, size1, idx). size1) <*mlex*> measure (\<lambda>(t, strs, size1, idx). size1 - idx)", goal_cases)
  case (2 t strs size1 idx rnd items sep n)
  then show ?case using group_size_bounds(1)[of items rnd] by (auto intro!: mlex_less)
next
  case (3 t strs size1 idx rnd items sep n)
  then show ?case using group_size_bounds[of items rnd] by (auto intro!: mlex_leq)
qed (auto intro: wf_mlex mlex_leq)

declare vector_items.simps [simp del]

definition vector_initializer :: "ctype \<Rightarrow> nat \<Rightarrow> string list \<Rightarrow> string" where
  "vector_initializer t size1 strs = ''('' @ OutputVectorType t size1 @ '')('' @ vector_items t strs size1 0 @ '')''"

definition Vector_OutputDef :: "cgoptions \<Rightarrow> printer \<Rightarrow> variable \<Rightarrow> string option" where
  "Vector_OutputDef o1 pr v = do {
     t \<leftarrow> vtype v;
     q \<leftarrow> vqfer v;
     quals \<leftarrow> OutputFirstQuals o1 q;
     n \<leftarrow> vec_at (array_sizes_of v) 0;
     let decl = quals @ OutputVectorType t n @ '' '' @ get_actual_name pr v;
     no_loop \<leftarrow> no_loop_initializer o1 v;
     if \<not> no_loop then Some (decl @ '';'')
     else do {
       strs \<leftarrow> init_strings pr v;
       Some (decl @ '' = '' @ vector_initializer t n strs @ '';'') } }"

section \<open>The shape of a new array\<close>

lemma dimension_loop_ge: "dimension \<le> dimension_loop num step dimension"
proof (induction num step dimension rule: dimension_loop.induct)
  case (1 num step dimension)
  show ?case
  proof (cases "num > 0")
    case True
    then show ?thesis using 1[OF True refl] by (subst dimension_loop.simps) (simp add: Let_def)
  qed (subst dimension_loop.simps, simp)
qed

lemma dimension_loop_pos: "0 < num \<Longrightarrow> dimension < dimension_loop num step dimension"
  using dimension_loop_ge[of "dimension + 1" "num - int (if step div 2 = 0 then 1 else step div 2)"
      "if step div 2 = 0 then 1 else step div 2"]
  by (subst dimension_loop.simps) (simp add: Let_def)

text \<open>The comment of the code promises one dimension in 60% of the cases and two in 30%; of the 99 numbers
  that can be drawn, 50 give one dimension and 25 give two.\<close>

lemma dimension_frequencies:
  "length (filter (\<lambda>n. dimension_loop (int n + 1) 100 0 = 1) [0..<99]) = 50"
  "length (filter (\<lambda>n. dimension_loop (int n + 1) 100 0 = 2) [0..<99]) = 25"
  by code_simp+

lemma u32_id: "0 \<le> i \<Longrightarrow> i < 4294967296 \<Longrightarrow> u32 i = i"
  by (simp add: u32_def)

definition array_limits :: "cgoptions \<Rightarrow> bool" where
  "array_limits o1 \<longleftrightarrow> 1 \<le> opt_max_array_length o1 \<and> opt_max_array_length o1 \<le> INT_MAX \<and>
     1 \<le> opt_max_array_length_per_dimension o1 \<and> opt_max_array_length_per_dimension o1 \<le> INT_MAX \<and>
     opt_max_array_length o1 * opt_max_array_length_per_dimension o1 < 4294967296 \<and> 1 \<le> opt_max_array_dimensions o1"

lemma array_sizes_ok:
  assumes "array_limits o1"
  shows "array_sizes o1 n tl0 s = Some (ns, total1, s1) \<Longrightarrow> 1 \<le> tl0 \<Longrightarrow> tl0 \<le> opt_max_array_length o1 \<Longrightarrow>
    length ns = n \<and> (\<forall>k \<in> set ns. 1 \<le> k \<and> int k \<le> opt_max_array_length_per_dimension o1) \<and>
    total1 = tl0 * int (prod_list ns) \<and> total1 \<le> opt_max_array_length o1"
proof (induction n arbitrary: tl0 s ns total1 s1)
  case (Suc n)
  let ?L = "opt_max_array_length o1" and ?P = "opt_max_array_length_per_dimension o1"
  have L: "1 \<le> ?L" "?L \<le> INT_MAX" "1 \<le> ?P" "?P \<le> INT_MAX" "?L * ?P < 4294967296"
    using assms by (auto simp: array_limits_def)
  obtain d t rest tot where d: "rnd_upto (nat (u32 ?P)) None None s = Some (d, t)" and
    rest: "array_sizes o1 n (if (if u32 (tl0 * u32 (int d + 1)) > u32 ?L then u32 (?L sdiv tl0) else u32 (int d + 1)) \<noteq> 0
      then s32 (tl0 * (if u32 (tl0 * u32 (int d + 1)) > u32 ?L then u32 (?L sdiv tl0) else u32 (int d + 1))) else tl0) t =
      Some (rest, tot, s1)" and
    ns: "ns = (if (if u32 (tl0 * u32 (int d + 1)) > u32 ?L then u32 (?L sdiv tl0) else u32 (int d + 1)) \<noteq> 0
      then [nat (if u32 (tl0 * u32 (int d + 1)) > u32 ?L then u32 (?L sdiv tl0) else u32 (int d + 1))] else []) @ rest" and
    tot: "total1 = tot"
    using Suc.prems(1) by (auto simp: bind_eq_Some_conv Let_def)
  have "d < nat ?P" using rnd_upto_SomeD(1)[OF d] L by (simp add: u32_id INT_MAX_def)
  then have dP: "int d + 1 \<le> ?P" by linarith
  have "tl0 * (int d + 1) \<le> ?L * ?P"
    using Suc.prems(2,3) dP L by (intro mult_mono) auto
  then have prod: "0 \<le> tl0 * (int d + 1)" "tl0 * (int d + 1) < 4294967296"
    using L(5) Suc.prems(2) by auto
  have div: "?L sdiv tl0 = ?L div tl0" using Suc.prems(2) L by (simp add: signed_divide_int_def)
  have q: "1 \<le> ?L div tl0" using Suc.prems(2,3) by (metis div_self nonzero_mult_div_cancel_right not_one_le_zero zdiv_mono1 zero_less_one order_less_le_trans order.strict_implies_not_eq)
  have qL: "?L div tl0 \<le> ?L" using Suc.prems(2) L div_le_dividend int_div_less_self
    by (metis dual_order.trans le_cases less_le_not_le div_by_1 int_one_le_iff_zero_less not_le zdiv_mono2 zero_less_one)
  let ?k = "if tl0 * (int d + 1) > ?L then ?L div tl0 else int d + 1"
  have k: "(if u32 (tl0 * u32 (int d + 1)) > u32 ?L then u32 (?L sdiv tl0) else u32 (int d + 1)) = ?k"
    using prod L dP q qL by (simp add: u32_id div INT_MAX_def)
  have k1: "1 \<le> ?k" using q by auto
  have dm: "tl0 * (?L div tl0) \<le> ?L"
    using mult_div_mod_eq[of tl0 ?L] pos_mod_sign[of tl0 ?L] Suc.prems(2) by linarith
  have kL: "tl0 * ?k \<le> ?L" using dm by auto
  have kP: "?k \<le> ?P"
  proof (cases "tl0 * (int d + 1) > ?L")
    case True
    then have "tl0 * (?L div tl0) < tl0 * (int d + 1)"
      using dm by linarith
    then show ?thesis using Suc.prems(2) dP True by (simp add: mult_less_cancel_left)
  qed (use dP in simp)
  have t0: "1 \<le> tl0 * ?k" using Suc.prems(2) k1 mult_mono[of 1 tl0 1 ?k] by simp
  have rest': "array_sizes o1 n (tl0 * ?k) t = Some (rest, tot, s1)"
    using rest k1 kL L t0 unfolding k by (simp add: INT_MAX_def)
  have "nat ?k \<in> {1..}" "int (nat ?k) = ?k" using k1 by auto
  moreover have "ns = nat ?k # rest" using ns k1 unfolding k by auto
  ultimately show ?case using Suc.IH[OF rest' t0 kL] kP k1 tot by (auto simp: algebra_simps)
qed auto

lemma array_dimension_bounds:
  "1 \<le> opt_max_array_dimensions o1 \<Longrightarrow>
     1 \<le> array_dimension o1 n \<and> int (array_dimension o1 n) \<le> opt_max_array_dimensions o1"
  using dimension_loop_pos[of "int n + 1" 0 100] by (auto simp: array_dimension_def Let_def)

lemma more_values_length: "more_values gen n s = Some (es, t) \<Longrightarrow> length es = n"
  by (induction n arbitrary: s es t) (auto simp: bind_eq_Some_conv)

lemma get_array_size_prod: "get_array_size ns = prod_list ns"
proof -
  have "fold (\<lambda>n len. len * n) ns k = k * prod_list ns" for k :: nat
    by (induction ns arbitrary: k) (auto simp: ac_simps)
  then show ?thesis by (simp add: get_array_size_def)
qed

section \<open>Random members\<close>

lemma random_indices_bounds:
  "random_indices ns s = Some (ks, t) \<Longrightarrow> length ks = length ns \<and> list_all2 (<) ks ns"
  by (induction ns arbitrary: s ks t) (auto simp: bind_eq_Some_conv dest!: rnd_upto_SomeD(1))

lemma random_indices_total: "\<forall>n \<in> set ns. 0 < n \<Longrightarrow> \<exists>ks t. random_indices ns s = Some (ks, t)"
proof (induction ns arbitrary: s)
  case (Cons n ns)
  then obtain k s1 where "rnd_upto n None None s = Some (k, s1)"
    using rnd_upto_total[of n None s 0 None] by (auto simp: rejects_def)
  moreover obtain ks t where "random_indices ns s1 = Some (ks, t)" using Cons.IH[of s1] Cons.prems by auto
  ultimately show ?case by simp
qed simp

text \<open>What a random pick from an array is: a member of it with constant indices inside its dimensions, or
  a component of the vector.\<close>

definition picked :: "variable \<Rightarrow> variable \<Rightarrow> bool" where
  "picked av v \<longleftrightarrow> (case v of
      Arr i e es comps c b ss xs \<Rightarrow> c = Some av \<and> vi_type i = array_type av \<and> ss = array_sizes_of av \<and>
        b = block_of av \<and>
        (case comps of
           None \<Rightarrow> \<exists>ks. xs = map index_const ks \<and> list_all2 (<) ks ss
         | Some cs \<Rightarrow> cs \<noteq> [] \<and> (\<forall>k \<in> set cs. k < ss ! 0))
    | _ \<Rightarrow> False)"

text \<open>A collective: an array that is not a member and has no indices.\<close>

definition is_collective :: "variable \<Rightarrow> bool" where
  "is_collective v \<longleftrightarrow> (case v of
      Arr i e es comps c b ss xs \<Rightarrow> c = None \<and> xs = [] \<and> ss \<noteq> [] \<and> (\<forall>n \<in> set ss. 0 < n) \<and>
        (comps \<noteq> None \<longrightarrow> comps = Some [] \<and> length ss = 1)
    | _ \<Rightarrow> False)"

lemma itemize_picks:
  assumes "is_collective av"
  shows "\<exists>v t. itemize vid av s = Some (v, t) \<and> picked av v"
proof -
  obtain i e es comps b ss where av: "av = Arr i e es comps None b ss []"
    using assms by (auto simp: is_collective_def split: variable.splits)
  have ss: "ss \<noteq> []" "\<forall>n \<in> set ss. 0 < n" "comps \<noteq> None \<longrightarrow> comps = Some []"
    using assms by (auto simp: is_collective_def av)
  show ?thesis
  proof (cases "comps = None")
    case True
    obtain ks t where "random_indices ss s = Some (ks, t)" using random_indices_total[OF ss(2)] by blast
    then show ?thesis using random_indices_bounds[of ss s ks t]
      by (auto simp: itemize_def av True picked_def dest: list_all2_lengthD)
  next
    case False
    have "0 < ss ! 0" using ss by (cases ss) auto
    then obtain k t where k: "rnd_upto (ss ! 0) None None s = Some (k, t)"
      using rnd_upto_total[of "ss ! 0" None s 0 None] by (auto simp: rejects_def)
    then show ?thesis using rnd_upto_SomeD(1)[OF k] ss False
      by (auto simp: itemize_def vector_itemize_def av picked_def bind_eq_Some_conv)
  qed
qed

text \<open>Several components of a vector at once.\<close>

lemma itemize_simd_count_picks:
  assumes "itemize_simd_count vid av n s = Some (v, t)"
  shows "picked av v \<and> (\<exists>i e es cs c b ss xs. v = Arr i e es (Some cs) c b ss xs \<and> length cs = n)"
proof -
  obtain m access s1 where m: "vec_at (array_sizes_of av) 0 = Some m" and
    a: "random_indices (replicate n m) s = Some (access, s1)" "itemize_simd_at vid av access = Some v" and n: "0 < n"
    using assms by (auto simp: itemize_simd_count_def bind_eq_Some_conv)
  have len: "length access = n" and lt: "\<forall>k \<in> set access. k < m"
    using random_indices_bounds[OF a(1)] by (auto simp: list_all2_conv_all_nth in_set_conv_nth)
  show ?thesis using a(2) m len lt n
    by (induction vid av access rule: itemize_simd_at.induct) (auto simp: picked_def split: if_splits)
qed

text \<open>C21: a new array keeps the limits of the options and its members lie inside it. It has between one
  dimension and the maximal number, every dimension has at least one and at most the maximal number of
  elements, their product is at most the maximal length, the alternative initial values are fewer than
  half of it, and a member picked at random from it exists and has constant indices below the sizes. The limits are
  positive ints, and the limit on the length times the limit per dimension is below \<open>2 ^ 32\<close>, so that the product
  in the code does not wrap around; the default options are like that.\<close>

theorem CreateArrayVariable_correct:
  assumes "array_limits o1" "CreateArrayVariable o1 gen vid blk name t init qfer s = Some (av, s1)"
  shows "1 \<le> length (array_sizes_of av) \<and> int (length (array_sizes_of av)) \<le> opt_max_array_dimensions o1 \<and>
    (\<forall>n \<in> set (array_sizes_of av). 1 \<le> n \<and> int n \<le> opt_max_array_length_per_dimension o1) \<and>
    int (get_array_size (array_sizes_of av)) \<le> opt_max_array_length o1 \<and>
    2 * length (alternative_values av) < get_array_size (array_sizes_of av) \<and>
    (\<exists>v s2. itemize vid1 av s1 = Some (v, s2) \<and> picked av v)"
proof -
  obtain n s2 sizes total s3 k s4 vals gen1 where
    sz: "array_sizes o1 (array_dimension o1 n) 1 s2 = Some (sizes, total, s3)" and
    av: "av = Arr \<lparr>vi_id = vid, vi_name = name, vi_type = Some t, vi_qfer = qfer, vi_expanded = is_aggregate t\<rparr>
      init vals None None blk sizes []" and
    k: "pure_rnd_upto (nat (u32 (total sdiv 2))) None None s3 = Some (k, s4)" "more_values gen1 k s4 = Some (vals, s1)"
    using assms(2) by (auto simp: CreateArrayVariable_def bind_eq_Some_conv)
  have lim: "1 \<le> opt_max_array_length o1" "opt_max_array_length o1 \<le> INT_MAX" "1 \<le> opt_max_array_dimensions o1"
    using assms(1) by (auto simp: array_limits_def)
  note ok = array_sizes_ok[OF assms(1) sz order_refl lim(1)]
  have pos: "1 \<le> prod_list sizes" using ok prod_list_zero_iff[of sizes] by (cases "prod_list sizes") auto
  have "2 * length vals < prod_list sizes"
  proof (cases "k = 0")
    case False
    have "total sdiv 2 = total div 2" "0 \<le> total" "total \<le> INT_MAX" using ok lim(1,2) by (auto simp: signed_divide_int_def)
    then have "nat (u32 (total sdiv 2)) = prod_list sizes div 2"
      using ok by (simp add: u32_id INT_MAX_def nat_div_distrib)
    then have "k < prod_list sizes div 2"
      using k(1) False rnd_upto_SomeD(1)[of _ None None s3 k s4] by (auto simp: pure_rnd_upto_def split: if_splits)
    then show ?thesis using more_values_length[OF k(2)] by linarith
  qed (use pos more_values_length[OF k(2)] in simp)
  moreover have "is_collective av"
    using ok array_dimension_bounds[OF lim(3), of n] by (auto simp: is_collective_def av Suc_le_eq)
  ultimately show ?thesis
    using ok array_dimension_bounds[OF lim(3), of n] itemize_picks[of av vid1 s1]
    by (simp add: av get_array_size_prod)
qed

text \<open>For constant initial values the creation always succeeds.\<close>

lemma array_sizes_total: "0 < nat (u32 (opt_max_array_length_per_dimension o1)) \<Longrightarrow> \<exists>r. array_sizes o1 n k s = Some r"
proof (induction n arbitrary: k s)
  case (Suc n)
  then obtain d s1 where d: "rnd_upto (nat (u32 (opt_max_array_length_per_dimension o1))) None None s = Some (d, s1)"
    using rnd_upto_total[of "nat (u32 (opt_max_array_length_per_dimension o1))" None s 0 None]
    by (auto simp: rejects_def)
  moreover obtain ns t s2 where "array_sizes o1 n (if (if u32 (k * u32 (int d + 1)) > u32 (opt_max_array_length o1)
      then u32 (opt_max_array_length o1 sdiv k) else u32 (int d + 1)) \<noteq> 0
      then s32 (k * (if u32 (k * u32 (int d + 1)) > u32 (opt_max_array_length o1)
      then u32 (opt_max_array_length o1 sdiv k) else u32 (int d + 1))) else k) s1 = Some (ns, t, s2)"
    using Suc.IH[OF Suc.prems] by (metis prod_cases3)
  ultimately show ?case by (simp only: array_sizes.simps Let_def bind.bind_lunit prod.case option.inject ex_simps)
    blast
qed simp

lemma more_values_total: "(\<And>s. \<exists>e t. gen s = Some (e, t)) \<Longrightarrow> \<exists>es t. more_values gen n s = Some (es, t)"
proof (induction n arbitrary: s)
  case (Suc n)
  obtain e s1 where "gen s = Some (e, s1)" using Suc.prems by blast
  moreover obtain es t where "more_values gen n s1 = Some (es, t)" using Suc by blast
  ultimately show ?case by simp
qed simp

lemma CreateArrayVariable_total:
  assumes "array_limits o1" "constant_ok t" "\<not> is_pointer t"
  shows "\<exists>av s1. CreateArrayVariable o1 gen vid blk name t init qfer s = Some (av, s1)"
proof -
  have P: "0 < nat (u32 (opt_max_array_length_per_dimension o1))"
    using assms(1) by (auto simp: array_limits_def u32_id INT_MAX_def)
  obtain n s1 where n: "rnd_upto 99 None None s = Some (n, s1)"
    using rnd_upto_total[of 99 None s 0 None] by (auto simp: rejects_def)
  obtain sizes k s2 where sz: "array_sizes o1 (array_dimension o1 n) 1 s1 = Some (sizes, k, s2)"
    using array_sizes_total[OF P] by (metis prod_cases3)
  obtain m s3 where m: "pure_rnd_upto (nat (u32 (k sdiv 2))) None None s2 = Some (m, s3)"
    using pure_rnd_upto_total by blast
  let ?gen = "\<lambda>s. do { (v, s') \<leftarrow> make_random_constant o1 (Some t) s; Some (EConst t v, s') }"
  have g: "\<exists>e u. ?gen s = Some (e, u)" for s
    using GenerateRandomConstant_text(1)[OF assms(2), of o1 s] by (auto simp: make_random_constant_def)
  obtain es u where "more_values ?gen m s3 = Some (es, u)"
    using more_values_total[of ?gen, OF g] by blast
  moreover have "t \<noteq> TSimple eVoid" using assms(2) by auto
  ultimately show ?thesis using n sz m assms(3) by (simp add: CreateArrayVariable_def)
qed

lemma CreateArrayVariable_correct_witness:
  "\<exists>av s1. CreateArrayVariable (default_settings cgoptions_zero) (\<lambda>s. None) 1 None ''g_1'' (TSimple eInt) None
      (cvq_new [False] [False]) (rng_of [60, 3, 9]) = Some (av, s1) \<and>
    1 \<le> length (array_sizes_of av) \<and> 2 * length (alternative_values av) < get_array_size (array_sizes_of av) \<and>
    (\<exists>v s2. itemize 2 av s1 = Some (v, s2) \<and> picked av v)"
proof -
  have lim: "array_limits (default_settings cgoptions_zero)"
    by (simp add: array_limits_def default_settings_def set_default_builtin_kinds_def INT_MAX_def)
  obtain av s1 where c: "CreateArrayVariable (default_settings cgoptions_zero) (\<lambda>s. None) 1 None ''g_1'' (TSimple eInt) None
      (cvq_new [False] [False]) (rng_of [60, 3, 9]) = Some (av, s1)"
    using CreateArrayVariable_total[OF lim, of "TSimple eInt" "\<lambda>s. None" 1 None "''g_1''" None "cvq_new [False] [False]"
      "rng_of [60, 3, 9]"] by auto
  show ?thesis using CreateArrayVariable_correct[OF lim c, of 2] c by blast
qed

section \<open>The shape of initializers\<close>

text \<open>What the text of an initializer stands for.\<close>

datatype init_tree = Leaf string | Node "init_tree list"

fun join_with :: "string \<Rightarrow> string list \<Rightarrow> string" where
  "join_with sep [] = []"
| "join_with sep [x] = x"
| "join_with sep (x # y # xs) = x @ sep @ join_with sep (y # xs)"

fun render :: "string \<Rightarrow> init_tree \<Rightarrow> string" where
  "render sep (Leaf str) = str"
| "render sep (Node ts) = ''{'' @ join_with sep (map (render sep) ts) @ ''}''"

text \<open>One level of braces per dimension, with as many entries as the dimension has elements.\<close>

fun shaped :: "string set \<Rightarrow> nat list \<Rightarrow> init_tree \<Rightarrow> bool" where
  "shaped strs [] t = (\<exists>str \<in> strs. t = Leaf str)"
| "shaped strs (n # ns) t = (\<exists>ts. t = Node ts \<and> length ts = n \<and> (\<forall>u \<in> set ts. shaped strs ns u))"

lemma join_with_Cons: "join_with sep (x # xs) = x @ (if xs \<noteq> [] then sep @ join_with sep xs else [])"
  by (cases xs) auto

lemma init_row_leaves:
  assumes "strs \<noteq> []"
  shows "\<exists>xs. length xs = n \<and> set xs \<subseteq> set strs \<and> init_row strs seed i n = join_with '','' xs"
proof (induction n arbitrary: seed i)
  case (Suc n)
  let ?x = "strs ! (((seed * seed + (i + 7) * (i + 13)) * 487) mod 2 ^ 64 mod length strs)"
  obtain xs where xs: "length xs = n" "set xs \<subseteq> set strs"
    "init_row strs (if seed + 1 \<ge> 0x7AB then 0xAB else seed + 1) (i + 1) n = join_with '','' xs"
    using Suc by blast
  have "?x \<in> set strs" using assms by (intro nth_mem) simp
  then show ?case using xs
    by (intro exI[of _ "?x # xs"]) (auto simp: join_with_Cons Let_def simp del: mod_mod_trivial)
qed simp

lemma uniform_row_leaves:
  assumes "strs \<noteq> []"
  shows "\<exists>xs. length xs = n \<and> set xs \<subseteq> set strs \<and> uniform_row strs i j n = join_with '', '' xs"
proof (induction n arbitrary: j)
  case (Suc n)
  let ?x = "strs ! (((i + (j + 7) * (j + 13)) * 52369) mod 2 ^ 64 mod length strs)"
  obtain xs where xs: "length xs = n" "set xs \<subseteq> set strs" "uniform_row strs i (j + 1) n = join_with '', '' xs"
    using Suc by blast
  have "?x \<in> set strs" using assms by (intro nth_mem) simp
  then show ?case using xs
    by (intro exI[of _ "?x # xs"]) (auto simp: join_with_Cons Let_def simp del: mod_mod_trivial)
qed simp

lemma repeat_with_join: "repeat_with sep str n = join_with sep (replicate n str)"
  by (induction n) (auto simp: join_with_Cons)

lemma row_shaped:
  "length xs = n \<Longrightarrow> set xs \<subseteq> strs \<Longrightarrow>
     \<exists>t. ''{'' @ join_with sep xs @ ''}'' = render sep t \<and> shaped strs [n] t"
  by (intro exI[of _ "Node (map Leaf xs)"]) (auto simp: comp_def)

lemma block_shaped:
  "shaped strs ns t \<Longrightarrow>
     \<exists>u. ''{'' @ repeat_with sep (render sep t) n @ ''}'' = render sep u \<and> shaped strs (n # ns) u"
  by (intro exI[of _ "Node (replicate n t)"]) (auto simp: repeat_with_join)

lemma build_init_recursive_shape:
  "strs \<noteq> [] \<Longrightarrow> ns \<noteq> [] \<Longrightarrow>
     \<exists>t. build_init_recursive ns strs = Some (render '','' t) \<and> shaped (set strs) ns t"
proof (induction ns strs rule: build_init_recursive.induct)
  case (2 n strs)
  then show ?case using init_row_leaves[of strs n 171 0] row_shaped[of _ n "set strs"] by fastforce
next
  case (3 n m ns strs)
  then obtain t where "build_init_recursive (m # ns) strs = Some (render '','' t)" "shaped (set strs) (m # ns) t"
    by auto
  then show ?case using block_shaped[of "set strs" "m # ns" t "'',''" n] by simp
qed auto

lemma build_outwards_shape:
  "strs \<noteq> [] \<Longrightarrow> ns \<noteq> [] \<Longrightarrow> \<exists>t. build_outwards strs i ns = render '', '' t \<and> shaped (set strs) ns t"
proof (induction strs i ns rule: build_outwards.induct)
  case (2 strs i n)
  then show ?case using uniform_row_leaves[of strs n i 0] row_shaped by fastforce
next
  case (3 strs i n m ns)
  then obtain t where t: "build_outwards strs (i + 1) (m # ns) = render '', '' t" "shaped (set strs) (m # ns) t"
    by auto
  show ?case using block_shaped[OF t(2), of "'', ''" n] t(1) by simp
qed auto

text \<open>An initializer of a vector: components, and groups that are vectors themselves.\<close>

datatype vector_tree = Component string | Group nat "vector_tree list"

fun vrender :: "ctype \<Rightarrow> vector_tree \<Rightarrow> string" where
  "vrender t (Component str) = str"
| "vrender t (Group n us) =
     ''('' @ OutputVectorType t n @ '')('' @ join_with '', '' (map (vrender t) us) @ '')''"

fun width :: "vector_tree \<Rightarrow> nat" where
  "width (Component str) = 1"
| "width (Group n us) = n"

text \<open>Every group has a length of a vector and as many components as its length says.\<close>

fun fitting :: "string set \<Rightarrow> vector_tree \<Rightarrow> bool" where
  "fitting strs (Component str) = (str \<in> strs)"
| "fitting strs (Group n us) = (n \<in> set kSizes \<and> sum_list (map width us) = n \<and> (\<forall>u \<in> set us. fitting strs u))"

lemma vector_items_fit:
  "strs \<noteq> [] \<Longrightarrow> \<exists>us. vector_items t strs n idx = join_with '', '' (map (vrender t) us) \<and>
     sum_list (map width us) = n - idx \<and> (\<forall>u \<in> set us. fitting (set strs) u)"
proof (induction t strs n idx rule: vector_items.induct)
  case (1 t strs n idx)
  let ?r = "vector_random idx"
  consider (finished) "n \<le> idx" | (group) "idx < n" "n - idx > 2" "?r mod 500 \<ge> 250"
    | (single) "idx < n" "\<not> (n - idx > 2 \<and> ?r mod 500 \<ge> 250)" by linarith
  then show ?case
  proof cases
    case finished
    then show ?thesis by (subst vector_items.simps) (auto intro: exI[of _ "[]"])
  next
    case group
    let ?g = "group_size (n - idx) ?r"
    note g = group_size_bounds[OF group(2), of ?r]
    obtain inner where inner: "vector_items t strs ?g 0 = join_with '', '' (map (vrender t) inner)"
      "sum_list (map width inner) = ?g" "\<forall>u \<in> set inner. fitting (set strs) u"
      using 1(1)[OF _ refl refl refl _ refl] group 1(4) by auto
    obtain us where us: "vector_items t strs n (idx + ?g) = join_with '', '' (map (vrender t) us)"
      "sum_list (map width us) = n - (idx + ?g)" "\<forall>u \<in> set us. fitting (set strs) u"
      using 1(2)[OF _ refl refl refl _ refl] group 1(4) by auto
    have ne: "us \<noteq> []" using us(2) g(1) by auto
    show ?thesis
      by (rule exI[of _ "Group ?g inner # us"], subst vector_items.simps)
        (use group g inner us ne in \<open>auto simp: Let_def join_with_Cons\<close>)
  next
    case single
    have mem: "strs ! (?r mod length strs) \<in> set strs" using 1(4) by (intro nth_mem) simp
    obtain us where us: "vector_items t strs n (idx + 1) = join_with '', '' (map (vrender t) us)"
      "sum_list (map width us) = n - (idx + 1)" "\<forall>u \<in> set us. fitting (set strs) u"
      using 1(3)[OF _ refl refl refl] single 1(4) by auto
    have pos: "0 < width u" if "fitting (set strs) u" for u
      using that by (cases u) (auto simp: kSizes_def)
    have ne: "us = [] \<longleftrightarrow> n - idx \<le> 1"
      using us(2,3) single(1) pos by (cases us) fastforce+
    show ?thesis
      by (rule exI[of _ "Component (strs ! (?r mod length strs)) # us"], subst vector_items.simps)
        (use single us ne mem in \<open>auto simp: Let_def join_with_Cons\<close>)
  qed
qed

text \<open>C29: the initializers match what they initialize.  The text for an array, by either of the two
  builders, has one level of braces per dimension with as many entries as the dimension has elements;
  the text for an OpenCL vector, whose components are partly grouped into smaller vectors, has groups
  whose lengths are lengths of vectors and whose components add up to them; and every leaf is one of
  the initial values of the variable.\<close>

theorem initializers_correct:
  assumes "strs \<noteq> []" "sizes \<noteq> []" "n \<in> set kSizes"
  shows "(\<exists>sep t. build_initializer_str o1 sizes strs = Some (render sep t) \<and> shaped (set strs) sizes t) \<and>
    (\<exists>us. vector_initializer ty n strs = vrender ty (Group n us) \<and> fitting (set strs) (Group n us))"
proof
  show "\<exists>sep t. build_initializer_str o1 sizes strs = Some (render sep t) \<and> shaped (set strs) sizes t"
    using build_init_recursive_shape[OF assms(1,2)] build_outwards_shape[OF assms(1,2), of 0]
    by (auto simp: build_initializer_str_def)
  obtain us where "vector_items ty strs n 0 = join_with '', '' (map (vrender ty) us)"
    "sum_list (map width us) = n" "\<forall>u \<in> set us. fitting (set strs) u"
    using vector_items_fit[OF assms(1), of ty n 0] by auto
  then show "\<exists>us. vector_initializer ty n strs = vrender ty (Group n us) \<and> fitting (set strs) (Group n us)"
    using assms(3) by (intro exI[of _ us]) (simp add: vector_initializer_def)
qed

lemma initializers_correct_witness:
  "(\<exists>sep t. build_initializer_str (default_settings cgoptions_zero) [2, 3] [''1'', ''2''] = Some (render sep t) \<and>
      shaped (set [''1'', ''2'']) [2, 3] t) \<and>
   (\<exists>us. vector_initializer (TSimple eInt) 8 [''1'', ''2''] = vrender (TSimple eInt) (Group 8 us) \<and>
      fitting (set [''1'', ''2'']) (Group 8 us))"
  by (rule initializers_correct) (simp_all add: kSizes_def)

end
