(* ===== verification/Selection.thy ===== *)
theory Selection
  imports ExprVisit Arrays "HOL-Library.Multiset"
begin

text \<open>
  VariableSelector.cpp: the choice of an existing variable to read, write or take the address of.
  The candidates are expanded into their fields, filtered by type, qualifiers and by what the context
  permits, and one of them is drawn; from an array a random member is taken.

  Testing a member of an array visits its indices in a copy of the context, but the copy shares the
  collected effect with the original; the tests therefore return the state they leave behind.
  The number of a new object (an array member) is an argument.
\<close>

section \<open>Lists of candidates\<close>

definition own_type :: "ctype option \<Rightarrow> variable \<Rightarrow> bool" where
  "own_type ty v \<longleftrightarrow> vtype v = ty"

text \<open>\<open>expand_struct_union_vars\<close>: an aggregate of another type is erased from its place, and its fields
  are appended at the end.\<close>

definition expandable :: "ctype option \<Rightarrow> variable \<Rightarrow> bool" where
  "expandable ty v \<longleftrightarrow> \<not> is_virtual v \<and> var_is_aggregate v \<and> \<not> own_type ty v"

lemma size_list_filter: "sum_list (map (\<lambda>i. size (fs ! i) + 1) (filter P [0..<length fs])) \<le> size_list size (fs :: ctype list)"
proof -
  have "sum_list (map (\<lambda>i. size (fs ! i) + 1) (filter P is)) \<le> sum_list (map (\<lambda>i. size (fs ! i) + 1) is)" for "is"
    by (induction "is") auto
  also have "map (\<lambda>i. size (fs ! i) + 1) [0..<length fs] = map (\<lambda>f. size f + 1) fs"
    by (rule nth_equalityI) simp_all
  also have "sum_list (map (\<lambda>f. size f + 1) fs) = size_list size fs" by (induction fs) auto
  finally show ?thesis .
qed

lemma field_weights: "var_is_aggregate v \<Longrightarrow> sum_list (map (\<lambda>f. type_weight f + 1) (field_vars v)) < type_weight v + 1"
proof -
  assume "var_is_aggregate v"
  then obtain t where t: "vtype v = Some t" "is_aggregate t" by (auto simp: var_is_aggregate_def split: option.splits)
  have w: "type_weight (Fld v j) = size (type_fields t ! (named_fields t ! j))" if "j < length (named_fields t)" for j
    using that t by (simp add: type_weight_def)
  have "map (\<lambda>j. type_weight (Fld v j) + 1) [0..<length (named_fields t)] =
      map (\<lambda>i. size (type_fields t ! i) + 1) (named_fields t)"
    by (intro nth_equalityI) (simp_all add: w)
  then have s: "sum_list (map (\<lambda>f. type_weight f + 1) (field_vars v)) \<le> sum_list (map (\<lambda>i. size (type_fields t ! i) + 1) (named_fields t))"
    using t by (auto simp: field_vars_def comp_def)
  also have "\<dots> \<le> size_list size (type_fields t)" unfolding named_fields_def by (rule size_list_filter)
  also have "\<dots> < type_weight v + 1" using t by (cases t) (auto simp: type_weight_def)
  finally show ?thesis .
qed

function expand_loop :: "ctype option \<Rightarrow> nat \<Rightarrow> variable list \<Rightarrow> variable list" where
  "expand_loop ty i vars =
    (if i < length vars then
       let tmpvar = vars ! i
       in if expandable ty tmpvar then expand_loop ty i (take i vars @ drop (Suc i) vars @ field_vars tmpvar)
          else expand_loop ty (Suc i) vars
     else vars)"
  by pat_completeness auto
termination
proof (relation "measure (\<lambda>(ty, i, vars). sum_list (map (\<lambda>v. type_weight v + 1) (drop i vars)))", goal_cases)
  case (2 ty i vars tmp)
  have d: "drop i vars = vars ! i # drop (Suc i) vars" using 2(1) by (simp add: Cons_nth_drop_Suc)
  have "var_is_aggregate (vars ! i)" using 2 by (simp add: expandable_def)
  from field_weights[OF this] show ?case using 2 d by simp
next
  case (3 ty i vars tmp)
  have "drop i vars = vars ! i # drop (Suc i) vars" using 3(1) by (simp add: Cons_nth_drop_Suc)
  then show ?case by simp
qed simp

declare expand_loop.simps [simp del]

definition expand_struct_union_vars :: "variable list \<Rightarrow> ctype option \<Rightarrow> variable list" where
  "expand_struct_union_vars vars ty = expand_loop ty 0 vars"

text \<open>The visible variables; a block is given by its chain of blocks.\<close>

definition find_all_non_bitfield_visible_vars :: "variable list \<Rightarrow> scope \<Rightarrow> variable list option" where
  "find_all_non_bitfield_visible_vars globals b = foldM (\<lambda>v acc. do { bf \<leftarrow> isBitfield v; Some (if bf then acc else acc @ [v]) })
     (globals @ concat (map snd (sc_chain b))) []"

definition find_all_non_array_visible_vars :: "variable list \<Rightarrow> scope option \<Rightarrow> variable list" where
  "find_all_non_array_visible_vars globals blk = filter (\<lambda>v. \<not> isArray v) globals @
     (case blk of None \<Rightarrow> []
      | Some b \<Rightarrow> sc_params b @ filter (\<lambda>v. \<not> isArray v) (concat (map snd (sc_chain b))))"

definition get_all_array_vars :: "variable list \<Rightarrow> variable list" where
  "get_all_array_vars globals = filter isArray globals"

definition get_all_local_vars :: "scope option \<Rightarrow> variable list" where
  "get_all_local_vars blk = (case blk of None \<Rightarrow> [] | Some b \<Rightarrow> concat (map snd (sc_chain b)))"

definition find_all_visible_vars :: "variable list \<Rightarrow> scope option \<Rightarrow> variable list" where
  "find_all_visible_vars globals blk = globals @ get_all_local_vars blk"

section \<open>Eligible variables\<close>

fun has_substring :: "string \<Rightarrow> string \<Rightarrow> bool" where
  "has_substring p [] = (p = [])"
| "has_substring p (c # cs) = (take (length p) (c # cs) = p \<or> has_substring p cs)"

text \<open>Two places of the code keep vectors and the variables of the inter-thread communication from being
  pointed to.\<close>

definition comm_name :: "printer \<Rightarrow> variable \<Rightarrow> bool" where
  "comm_name pr v = has_substring ''comm_'' (vname pr v)"

definition ineligible :: "visit_env \<Rightarrow> variable \<Rightarrow> int \<Rightarrow> access \<Rightarrow> fact list \<Rightarrow> cgcontext \<Rightarrow> bool option" where
  "ineligible E v deref_level acc facts c = do {
     is_const \<leftarrow> var_is_const_after_deref deref_level v;
     is_volatile \<leftarrow> or_opt (var_is_volatile_after_deref deref_level v) (var_is_volatile v);
     or_opt (Some (is_volatile \<and> \<not> side_effect_free (effect_context c)))
       (or_opt (is_written_partially (ve_printer E) (effect_context c) v)
       (or_opt (if acc = WRITE \<and> deref_level = 0 then is_read_partially (ve_printer E) (effect_context c) v else Some False)
       (or_opt (Some (acc = WRITE \<and> is_const))
       (or_opt (if acc = READ then or_opt (Some (is_nonreadable c v)) (is_nonreadable_field (ve_opts E) v facts) else Some False)
       (or_opt (if acc = WRITE then is_nonwritable (ve_printer E) c v else Some False)
         (Some (deref_level \<noteq> 0 \<and> (is_vector_var v \<or> comm_name (ve_printer E) v))))))))}"

definition is_eligible_var :: "visitor \<Rightarrow> visit_env \<Rightarrow> variable \<Rightarrow> int \<Rightarrow> access \<Rightarrow> visit_state \<Rightarrow> cgcontext \<Rightarrow> visited" where
  "is_eligible_var vis E var deref_level acc s c = do {
     coll \<leftarrow> get_collective (ve_printer E) var;
     (ok, s1, c1) \<leftarrow> (if coll \<noteq> var then do {
         (b, s1, c1) \<leftarrow> read_indices vis var s c;
         Some (b, s1, c\<lparr>effect_accum := effect_accum c1\<rparr>) }
       else Some (True, s, c));
     if \<not> ok then Some (False, s1, c1)
     else do { bad \<leftarrow> ineligible E coll deref_level acc (vs_facts s) c; Some (\<not> bad, s1, c1) } }"

text \<open>The type filter; a null type matches everything, and a null qualifier too.\<close>

definition right_kind :: "visit_env \<Rightarrow> ctype option \<Rightarrow> match_type \<Rightarrow> cvq option \<Rightarrow> variable \<Rightarrow> bool option" where
  "right_kind E ty mt qfer v = do {
     vt \<leftarrow> vtype v;
     if (case ty of None \<Rightarrow> False | Some t \<Rightarrow> \<not> type_match t vt mt) then Some False
     else (case qfer of None \<Rightarrow> Some True
       | Some q \<Rightarrow> do { vq \<leftarrow> vqfer v; match_indirect (ve_opts E) q vq }) }"

fun has_eligible_volatile_var :: "visitor \<Rightarrow> visit_env \<Rightarrow> ctype option \<Rightarrow> cvq option \<Rightarrow> access \<Rightarrow> variable list \<Rightarrow>
    visit_state \<Rightarrow> cgcontext \<Rightarrow> visited" where
  "has_eligible_volatile_var vis E ty qfer acc [] s c = Some (False, s, c)"
| "has_eligible_volatile_var vis E ty qfer acc (v # vars) s c = do {
     k \<leftarrow> right_kind E ty eFlexible qfer v;
     if \<not> k then has_eligible_volatile_var vis E ty qfer acc vars s c
     else do {
       t \<leftarrow> ty;
       deref_level \<leftarrow> indirect_level v t;
       (b, s1, c1) \<leftarrow> is_eligible_var vis E v deref_level acc s c;
       vol \<leftarrow> (if b then var_is_volatile v else Some False);
       if vol then Some (True, s1, c1) else has_eligible_volatile_var vis E ty qfer acc vars s1 c1 } }"

definition has_dereferenceable_var :: "visit_env \<Rightarrow> variable list \<Rightarrow> ctype option \<Rightarrow> fact list \<Rightarrow> bool option" where
  "has_dereferenceable_var E vars ty facts = any_opt (\<lambda>v. do {
     t \<leftarrow> ty;
     vt \<leftarrow> vtype v;
     Some (is_dereferenced_from t vt \<and> is_valid_ptr (ve_opts E) v facts) }) vars"

fun eligible_vars :: "visitor \<Rightarrow> visit_env \<Rightarrow> bool \<Rightarrow> ctype option \<Rightarrow> match_type \<Rightarrow> cvq option \<Rightarrow> variable list \<Rightarrow> access \<Rightarrow>
    variable list \<Rightarrow> visit_state \<Rightarrow> cgcontext \<Rightarrow> (variable list \<times> visit_state \<times> cgcontext) option" where
  "eligible_vars vis E no_bitfield ty mt qfer invalid_vars acc [] s c = Some ([], s, c)"
| "eligible_vars vis E no_bitfield ty mt qfer invalid_vars acc (v # vars) s c = do {
     bf \<leftarrow> (if no_bitfield then isBitfield v else Some False);
     k \<leftarrow> (if bf then Some False else right_kind E ty mt qfer v);
     if \<not> k \<or> is_variable_in_set invalid_vars v
     then eligible_vars vis E no_bitfield ty mt qfer invalid_vars acc vars s c
     else do {
       t \<leftarrow> ty;
       deref_level \<leftarrow> indirect_level v t;
       (b, s1, c1) \<leftarrow> is_eligible_var vis E v deref_level acc s c;
       (oks, s2, c2) \<leftarrow> eligible_vars vis E no_bitfield ty mt qfer invalid_vars acc vars s1 c1;
       Some (if b then v # oks else oks, s2, c2) } }"

section \<open>Drawing one\<close>

text \<open>\<open>choose_ok_var\<close>: from a collective a member is taken, from a component of a vector another
  component.\<close>

definition random_var :: "variable list \<Rightarrow> rng \<Rightarrow> (variable option \<times> rng) option" where
  "random_var vars r =
    (if length vars > 1 then do { (i, r1) \<leftarrow> rnd_upto (length vars) None None r; Some (Some (vars ! i), r1) }
     else if length vars = 1 then Some (Some (vars ! 0), r)
     else Some (None, r))"

definition take_member :: "nat \<Rightarrow> variable \<Rightarrow> rng \<Rightarrow> (variable \<times> rng) option" where
  "take_member vid v r = (case v of
      Arr i e es comps None b ss xs \<Rightarrow> itemize vid v r
    | Arr i e es (Some comps) (Some coll) b ss xs \<Rightarrow> itemize vid coll r
    | _ \<Rightarrow> Some (v, r))"

definition choose_ok_var :: "nat \<Rightarrow> variable list \<Rightarrow> rng \<Rightarrow> (variable option \<times> rng) option" where
  "choose_ok_var vid vars r = do {
     (v, r1) \<leftarrow> random_var vars r;
     case v of
       None \<Rightarrow> Some (None, r1)
     | Some u \<Rightarrow> do { (w, r2) \<leftarrow> take_member vid u r1; Some (Some w, r2) } }"

definition choose_visible_read_var ::
  "visit_env \<Rightarrow> nat \<Rightarrow> scope \<Rightarrow> variable list \<Rightarrow> ctype \<Rightarrow> fact list \<Rightarrow> rng \<Rightarrow> (variable option \<times> rng) option" where
  "choose_visible_read_var E vid b candidates t facts r = do {
     ok_vars \<leftarrow> foldM (\<lambda>v oks. do {
         vt \<leftarrow> vtype v;
         ok \<leftarrow> (if type_match t vt eConvert \<and> (is_var_on_stack b v \<or> var_is_global v) \<and> \<not> is_virtual v
               then map_option Not (or_opt (var_is_volatile v) (is_nonreadable_field (ve_opts E) v facts))
               else Some False);
         Some (if ok then oks @ [v] else oks) })
       (expand_struct_union_vars candidates (Some t)) [];
     choose_ok_var vid ok_vars r }"

definition higher_vars :: "ctype \<Rightarrow> variable list \<Rightarrow> variable list" where
  "higher_vars t vars = filter (\<lambda>v. case vtype v of None \<Rightarrow> False | Some u \<Rightarrow> get_indirect_level t < get_indirect_level u) vars"

definition addressable_vars :: "visit_env \<Rightarrow> ctype \<Rightarrow> variable list \<Rightarrow> variable list" where
  "addressable_vars E t vars = filter (\<lambda>v. case vtype v of None \<Rightarrow> False
     | Some u \<Rightarrow> get_indirect_level t > get_indirect_level u \<and>
         \<not> (\<not> opt_take_union_field_addr (ve_opts E) \<and> is_inside_union_field v) \<and>
         \<not> is_vector_var v \<and> \<not> comm_name (ve_printer E) v) vars"

text \<open>Pointers to dereference come first, then variables to take the address of.\<close>

definition draw_preferred :: "visit_env \<Rightarrow> nat \<Rightarrow> ctype option \<Rightarrow> variable list \<Rightarrow> rng \<Rightarrow> (variable option \<times> rng) option" where
  "draw_preferred E vid ty ok_vars r = (case ty of
      None \<Rightarrow> choose_ok_var vid ok_vars r
    | Some t \<Rightarrow>
        if length ok_vars > 1 \<and> higher_vars t ok_vars \<noteq> [] then choose_ok_var vid (higher_vars t ok_vars) r
        else if length ok_vars > 1 \<and> is_pointer t \<and> addressable_vars E t ok_vars \<noteq> []
          then choose_ok_var vid (addressable_vars E t ok_vars) r
        else choose_ok_var vid ok_vars r)"

definition candidates :: "bool \<Rightarrow> ctype option \<Rightarrow> variable list \<Rightarrow> variable list" where
  "candidates no_expand ty vars =
    (if \<not> no_expand \<and> (case ty of None \<Rightarrow> False | Some t \<Rightarrow> is_simple t \<or> is_aggregate t)
     then expand_struct_union_vars vars ty else vars)"

definition choose_var :: "visitor \<Rightarrow> visit_env \<Rightarrow> nat \<Rightarrow> variable list \<Rightarrow> access \<Rightarrow> ctype option \<Rightarrow> cvq option \<Rightarrow>
    match_type \<Rightarrow> variable list \<Rightarrow> bool \<Rightarrow> bool \<Rightarrow> visit_state \<Rightarrow> cgcontext \<Rightarrow> rng \<Rightarrow>
    (variable option \<times> visit_state \<times> cgcontext \<times> rng) option" where
  "choose_var vis E vid vars0 acc ty qfer mt invalid_vars no_bitfield no_expand s c r = do {
     let vars = candidates no_expand ty vars0;
     found \<leftarrow> has_dereferenceable_var E vars ty (vs_facts s);
     (vol, s1, c1) \<leftarrow> has_eligible_volatile_var vis E ty qfer acc vars s c;
     (ok_vars, s2, c2) \<leftarrow> eligible_vars vis E no_bitfield ty mt qfer invalid_vars acc vars s1 c1;
     (v, r1) \<leftarrow> draw_preferred E vid ty ok_vars r;
     Some (v, s2, c2, r1) }"

section \<open>Expansion\<close>

text \<open>The reference: the fields of a variable that is broken up, recursively.\<close>

function leaves :: "ctype option \<Rightarrow> variable \<Rightarrow> variable list" where
  "leaves ty v = (if expandable ty v then concat (map (leaves ty) (field_vars v)) else [v])"
  by pat_completeness auto
termination
  by (relation "measure (\<lambda>(ty, v). type_weight v)") (simp_all add: field_vars_weight)

declare leaves.simps [simp del]

lemma expand_loop_leaves:
  "mset (expand_loop ty i vars) = mset (take i vars) + mset (concat (map (leaves ty) (drop i vars)))"
proof (induction ty i vars rule: expand_loop.induct)
  case (1 ty i vars)
  show ?case
  proof (cases "i < length vars")
    case True
    have d: "drop i vars = vars ! i # drop (Suc i) vars" using True by (simp add: Cons_nth_drop_Suc)
    show ?thesis
    proof (cases "expandable ty (vars ! i)")
      case exp: True
      have "leaves ty (vars ! i) = concat (map (leaves ty) (field_vars (vars ! i)))"
        using exp by (subst leaves.simps) simp
      then show ?thesis
        using 1(1)[OF True refl exp] True exp by (subst expand_loop.simps) (simp add: d)
    next
      case False
      have "leaves ty (vars ! i) = [vars ! i]" using False by (subst leaves.simps) simp
      then show ?thesis
        using 1(2)[OF True refl False] True False by (subst expand_loop.simps) (simp add: d take_Suc_conv_app_nth)
    qed
  qed (subst expand_loop.simps, simp)
qed

lemma self_ancestor [simp]: "v \<in> set (ancestors v)"
  by (cases v) auto

lemma leaves_sound: "w \<in> set (leaves ty v) \<Longrightarrow> \<not> expandable ty w \<and> v \<in> set (ancestors w)"
proof (induction ty v rule: leaves.induct)
  case (1 ty v)
  show ?case
  proof (cases "expandable ty v")
    case True
    then obtain f where f: "f \<in> set (field_vars v)" "w \<in> set (leaves ty f)"
      using 1(2) by (subst (asm) leaves.simps) auto
    obtain j where j: "f = Fld v j" using f(1) by (auto simp: field_vars_def split: option.splits if_splits)
    have "Fld v j \<in> set (ancestors w)" "\<not> expandable ty w" using 1(1)[OF True f] j by auto
    moreover from this(1) have "v \<in> set (ancestors w)"
      by (induction w rule: ancestors.induct) auto
    ultimately show ?thesis by simp
  next
    case False
    then have "w = v" using 1(2) by (subst (asm) leaves.simps) simp
    then show ?thesis using False by (cases v) auto
  qed
qed

section \<open>Candidates\<close>

lemma read_indices_facts: "read_indices vis v s c = Some (b, s1, c1) \<Longrightarrow> vs_facts s1 = vs_facts s"
  by (auto simp: read_indices_def bind_eq_Some_conv split: option.splits)

text \<open>Contexts that differ in the collected effect only.\<close>

definition accum_only :: "cgcontext \<Rightarrow> cgcontext \<Rightarrow> bool" where
  "accum_only c d \<longleftrightarrow> (\<exists>a. d = c\<lparr>effect_accum := a\<rparr>)"

lemma accum_only_refl [simp]: "accum_only c c"
  unfolding accum_only_def by (rule exI[of _ "effect_accum c"]) simp

lemma accum_only_update [simp]: "accum_only c (c\<lparr>effect_accum := a\<rparr>)"
  unfolding accum_only_def by blast

lemma accum_only_trans: "accum_only a b \<Longrightarrow> accum_only b c \<Longrightarrow> accum_only a c"
  by (auto simp: accum_only_def)

lemma is_eligible_varE:
  assumes "is_eligible_var vis E v d acc s c = Some (b, s1, c1)"
  obtains coll where "get_collective (ve_printer E) v = Some coll" "vs_facts s1 = vs_facts s" "accum_only c c1"
    "b \<longrightarrow> ineligible E coll d acc (vs_facts s) c = Some False"
    "b \<longrightarrow> coll \<noteq> v \<longrightarrow> (\<exists>s2 c2. read_indices vis v s c = Some (True, s2, c2))"
proof -
  obtain coll where coll: "get_collective (ve_printer E) v = Some coll"
    using assms by (cases "get_collective (ve_printer E) v") (simp_all add: is_eligible_var_def)
  show ?thesis
  proof (cases "coll = v")
    case True
    then obtain bad where "ineligible E coll d acc (vs_facts s) c = Some bad" "b = (\<not> bad)" "s1 = s" "c1 = c"
      using assms coll by (cases "ineligible E coll d acc (vs_facts s) c") (simp_all add: is_eligible_var_def)
    then show ?thesis using that[OF coll] True by simp
  next
    case False
    then obtain ok s2 c2 where r: "read_indices vis v s c = Some (ok, s2, c2)"
      using assms coll by (cases "read_indices vis v s c") (auto simp: is_eligible_var_def)
    note f = read_indices_facts[OF r]
    show ?thesis
    proof (cases ok)
      case True
      then obtain bad where "ineligible E coll d acc (vs_facts s) c = Some bad" "b = (\<not> bad)" "s1 = s2"
        "c1 = c\<lparr>effect_accum := effect_accum c2\<rparr>"
        using assms coll r False f by (cases "ineligible E coll d acc (vs_facts s) c") (simp_all add: is_eligible_var_def)
      then show ?thesis using that[OF coll] True r f by simp
    next
      case nok: False
      then have "b = False" "s1 = s2" "c1 = c\<lparr>effect_accum := effect_accum c2\<rparr>"
        using assms coll r False by (simp_all add: is_eligible_var_def)
      then show ?thesis using that[OF coll] f by simp
    qed
  qed
qed

lemma is_eligible_var_frame:
  assumes "is_eligible_var vis E v d acc s c = Some (b, s1, c1)"
  shows "vs_facts s1 = vs_facts s \<and> accum_only c c1"
  using is_eligible_varE[OF assms] by metis

lemma ineligible_accum:
  assumes "accum_only c d"
  shows "ineligible E v l acc facts d = ineligible E v l acc facts c"
proof -
  have e: "effect_context d = effect_context c" "is_nonreadable d v = is_nonreadable c v"
    "is_nonwritable (ve_printer E) d v = is_nonwritable (ve_printer E) c v"
    using assms by (auto simp: accum_only_def is_nonreadable_def is_nonwritable_def)
  show ?thesis unfolding ineligible_def e ..
qed

lemma is_eligible_varD:
  assumes "is_eligible_var vis E v d acc s c = Some (True, s1, c1)"
  shows "\<exists>coll. get_collective (ve_printer E) v = Some coll \<and> ineligible E coll d acc (vs_facts s) c = Some False"
  using is_eligible_varE[OF assms] by metis

text \<open>What a candidate that is kept satisfies.\<close>

definition candidate_ok :: "visit_env \<Rightarrow> bool \<Rightarrow> ctype option \<Rightarrow> match_type \<Rightarrow> cvq option \<Rightarrow> variable list \<Rightarrow> access \<Rightarrow>
    fact list \<Rightarrow> cgcontext \<Rightarrow> variable \<Rightarrow> bool" where
  "candidate_ok E no_bitfield ty mt qfer invalid_vars acc facts c v \<longleftrightarrow>
     (no_bitfield \<longrightarrow> isBitfield v = Some False) \<and> right_kind E ty mt qfer v = Some True \<and> v \<notin> set invalid_vars \<and>
     (\<exists>t d coll. ty = Some t \<and> indirect_level v t = Some d \<and> get_collective (ve_printer E) v = Some coll \<and>
        ineligible E coll d acc facts c = Some False)"

lemma candidate_ok_accum:
  "accum_only c d \<Longrightarrow> candidate_ok E nb ty mt qfer inv1 acc facts d v = candidate_ok E nb ty mt qfer inv1 acc facts c v"
  by (simp add: candidate_ok_def ineligible_accum)

lemma eligible_vars_SomeD:
  "eligible_vars vis E nb ty mt qfer inv1 acc vars s c = Some (oks, s1, c1) \<Longrightarrow>
     vs_facts s1 = vs_facts s \<and> accum_only c c1 \<and>
     (\<forall>v \<in> set oks. v \<in> set vars \<and> candidate_ok E nb ty mt qfer inv1 acc (vs_facts s) c v)"
proof (induction vars arbitrary: s c oks s1 c1)
  case (Cons v vars)
  obtain bf k where bf: "(if nb then isBitfield v else Some False) = Some bf"
    and k: "(if bf then Some False else right_kind E ty mt qfer v) = Some k"
    and rest: "(if \<not> k \<or> is_variable_in_set inv1 v then eligible_vars vis E nb ty mt qfer inv1 acc vars s c
      else do {
       t \<leftarrow> ty;
       deref_level \<leftarrow> indirect_level v t;
       (b, s1, c1) \<leftarrow> is_eligible_var vis E v deref_level acc s c;
       (oks, s2, c2) \<leftarrow> eligible_vars vis E nb ty mt qfer inv1 acc vars s1 c1;
       Some (if b then v # oks else oks, s2, c2) }) = Some (oks, s1, c1)"
    using Cons.prems by (auto simp: bind_eq_Some_conv)
  show ?case
  proof (cases "\<not> k \<or> v \<in> set inv1")
    case True
    then show ?thesis using Cons.IH rest by auto
  next
    case False
    then obtain t d b s2 c2 oks1 where t: "ty = Some t" "indirect_level v t = Some d"
      "is_eligible_var vis E v d acc s c = Some (b, s2, c2)"
      and r: "eligible_vars vis E nb ty mt qfer inv1 acc vars s2 c2 = Some (oks1, s1, c1)"
      and oks: "oks = (if b then v # oks1 else oks1)"
      using rest by (auto simp: bind_eq_Some_conv)
    have fr: "vs_facts s2 = vs_facts s" "accum_only c c2"
      using is_eligible_var_frame[OF t(3)] by auto
    have ih: "vs_facts s1 = vs_facts s" "accum_only c2 c1"
      "\<forall>v \<in> set oks1. v \<in> set vars \<and> candidate_ok E nb ty mt qfer inv1 acc (vs_facts s) c2 v"
      using Cons.IH[OF r] fr by auto
    have c1: "accum_only c c1" using accum_only_trans[OF fr(2) ih(2)] .
    have ok: "\<forall>v \<in> set oks1. v \<in> set vars \<and> candidate_ok E nb ty mt qfer inv1 acc (vs_facts s) c v"
      using ih(3) candidate_ok_accum[OF fr(2)] by simp
    have "candidate_ok E nb ty mt qfer inv1 acc (vs_facts s) c v" if b
      using is_eligible_varD[of vis E v d acc s c s2 c2] t that bf k False
      by (auto simp: candidate_ok_def split: if_splits)
    then show ?thesis using ih(1) c1 ok oks by auto
  qed
qed simp

lemma has_eligible_volatile_var_frame:
  "has_eligible_volatile_var vis E ty qfer acc vars s c = Some (b, s1, c1) \<Longrightarrow>
     vs_facts s1 = vs_facts s \<and> accum_only c c1"
proof (induction vars arbitrary: s c)
  case (Cons v vars)
  obtain k where k: "right_kind E ty eFlexible qfer v = Some k" using Cons.prems by (auto simp: bind_eq_Some_conv)
  show ?case
  proof (cases k)
    case False
    then show ?thesis using Cons k by auto
  next
    case True
    then obtain t d b1 s2 c2 vol where e: "is_eligible_var vis E v d acc s c = Some (b1, s2, c2)" and
      r: "(if vol then Some (True, s2, c2) else has_eligible_volatile_var vis E ty qfer acc vars s2 c2) = Some (b, s1, c1)"
      using Cons.prems k by (auto simp: bind_eq_Some_conv)
    note fr = is_eligible_var_frame[OF e]
    show ?thesis
    proof (cases vol)
      case False
      then have "vs_facts s1 = vs_facts s2 \<and> accum_only c2 c1" using Cons.IH r by simp
      then show ?thesis using fr accum_only_trans by auto
    qed (use r fr in auto)
  qed
qed simp

section \<open>The draw\<close>

text \<open>Arrays that are not members are collectives, and vectors are components of collectives.\<close>

definition wf_array :: "variable \<Rightarrow> bool" where
  "wf_array v \<longleftrightarrow> (case v of
      Arr i e es comps None b ss xs \<Rightarrow> is_collective v
    | Arr i e es (Some comps) (Some coll) b ss xs \<Rightarrow> is_collective coll
    | _ \<Rightarrow> True)"

lemma collective_of_collective: "is_collective v \<Longrightarrow> collective_of v = v"
  by (auto simp: is_collective_def split: variable.splits)

lemma take_member_SomeD:
  assumes "wf_array u" "take_member vid u r = Some (v, r1)"
  shows "v = u \<or> picked (collective_of u) v"
proof -
  have p: "picked coll v" if "is_collective coll" "itemize vid coll r = Some (v, r1)" for coll
    using itemize_picks[OF that(1), of vid r] that(2) by auto
  show ?thesis
  proof (cases u)
    case (Arr i e es comps c b ss xs)
    show ?thesis
    proof (cases c)
      case None
      then have "is_collective u" "itemize vid u r = Some (v, r1)"
        using assms Arr by (cases comps; auto simp: wf_array_def take_member_def)+
      then show ?thesis using p collective_of_collective by simp
    next
      case (Some coll)
      show ?thesis
      proof (cases comps)
        case None
        then show ?thesis using assms Arr Some by (auto simp: take_member_def)
      next
        case comps: (Some cs)
        then have k: "is_collective coll" "itemize vid coll r = Some (v, r1)"
          using assms Arr Some by (auto simp: wf_array_def take_member_def)
        moreover have "collective_of u = coll"
          using collective_of_collective[OF k(1)] k(1) Arr Some by (auto simp: is_collective_def split: variable.splits)
        ultimately show ?thesis using p by simp
      qed
    qed
  qed (use assms in \<open>auto simp: take_member_def\<close>)
qed

lemma random_var_SomeD: "random_var vars r = Some (Some v, r1) \<Longrightarrow> v \<in> set vars"
  by (auto simp: random_var_def bind_eq_Some_conv dest!: rnd_upto_SomeD(1) split: if_splits)

lemma random_var_None: "random_var vars r = Some (None, r1) \<Longrightarrow> vars = []"
  by (cases vars; cases "tl vars") (auto simp: random_var_def bind_eq_Some_conv split: if_splits)

lemma choose_ok_var_SomeD:
  assumes "choose_ok_var vid vars r = Some (Some v, r1)" "\<forall>u \<in> set vars. wf_array u"
  shows "\<exists>u \<in> set vars. v = u \<or> picked (collective_of u) v"
proof -
  obtain u r2 where u: "random_var vars r = Some (Some u, r2)" "take_member vid u r2 = Some (v, r1)"
    using assms(1) by (auto simp: choose_ok_var_def bind_eq_Some_conv split: option.splits)
  then show ?thesis using random_var_SomeD[OF u(1)] take_member_SomeD[OF _ u(2)] assms(2) by blast
qed

lemma choose_ok_var_None: "choose_ok_var vid vars r = Some (None, r1) \<Longrightarrow> vars = []"
  using random_var_None by (fastforce simp: choose_ok_var_def bind_eq_Some_conv split: option.splits)

lemma draw_preferred_SomeD:
  assumes "draw_preferred E vid ty vars r = Some (Some v, r1)" "\<forall>u \<in> set vars. wf_array u"
  shows "\<exists>u \<in> set vars. v = u \<or> picked (collective_of u) v"
proof -
  have s: "set (higher_vars t vars) \<subseteq> set vars" "set (addressable_vars E t vars) \<subseteq> set vars" for t
    by (auto simp: higher_vars_def addressable_vars_def)
  show ?thesis
    using assms s choose_ok_var_SomeD[of vid _ r v r1] unfolding draw_preferred_def
    by (auto split: option.splits if_splits) blast+
qed

lemma draw_preferred_None: "draw_preferred E vid ty vars r = Some (None, r1) \<Longrightarrow> vars = []"
  using choose_ok_var_None by (auto simp: draw_preferred_def split: option.splits if_splits)

text \<open>The parts of eligibility.\<close>

lemma ineligible_FalseD:
  assumes "ineligible E v d acc facts c = Some False"
  shows "is_written_partially (ve_printer E) (effect_context c) v = Some False"
    "var_is_volatile v = Some True \<longrightarrow> side_effect_free (effect_context c)"
    "acc = WRITE \<longrightarrow> var_is_const_after_deref d v = Some False \<and> is_nonwritable (ve_printer E) c v = Some False"
    "acc = WRITE \<longrightarrow> d = 0 \<longrightarrow> is_read_partially (ve_printer E) (effect_context c) v = Some False"
    "acc = READ \<longrightarrow> \<not> is_nonreadable c v \<and> is_nonreadable_field (ve_opts E) v facts = Some False"
    "d \<noteq> 0 \<longrightarrow> \<not> is_vector_var v \<and> \<not> comm_name (ve_printer E) v"
proof -
  obtain k w where k: "var_is_const_after_deref d v = Some k"
    "or_opt (var_is_volatile_after_deref d v) (var_is_volatile v) = Some w"
    and r: "or_opt (Some (w \<and> \<not> side_effect_free (effect_context c)))
       (or_opt (is_written_partially (ve_printer E) (effect_context c) v)
       (or_opt (if acc = WRITE \<and> d = 0 then is_read_partially (ve_printer E) (effect_context c) v else Some False)
       (or_opt (Some (acc = WRITE \<and> k))
       (or_opt (if acc = READ then or_opt (Some (is_nonreadable c v)) (is_nonreadable_field (ve_opts E) v facts) else Some False)
       (or_opt (if acc = WRITE then is_nonwritable (ve_printer E) c v else Some False)
         (Some (d \<noteq> 0 \<and> (is_vector_var v \<or> comm_name (ve_printer E) v)))))))) = Some False"
    using assms by (auto simp: ineligible_def bind_eq_Some_conv)
  show "is_written_partially (ve_printer E) (effect_context c) v = Some False"
    "acc = WRITE \<longrightarrow> var_is_const_after_deref d v = Some False \<and> is_nonwritable (ve_printer E) c v = Some False"
    "acc = WRITE \<longrightarrow> d = 0 \<longrightarrow> is_read_partially (ve_printer E) (effect_context c) v = Some False"
    "acc = READ \<longrightarrow> \<not> is_nonreadable c v \<and> is_nonreadable_field (ve_opts E) v facts = Some False"
    "d \<noteq> 0 \<longrightarrow> \<not> is_vector_var v \<and> \<not> comm_name (ve_printer E) v"
    using r k(1) by auto
  have "w" if "var_is_volatile v = Some True"
    using k(2) that by (auto simp: or_opt_def bind_eq_Some_conv split: if_splits)
  then show "var_is_volatile v = Some True \<longrightarrow> side_effect_free (effect_context c)" using r by auto
qed

section \<open>Properties\<close>

text \<open>C28: the expansion of candidates ends, and is the recursive breaking-up of each of them: the
  resulting list has, with the same multiplicities, the leaves of the given variables, where an
  aggregate of another type is replaced by the leaves of its fields; every result is a given
  variable or inside one, and nothing that could be broken up further is left.\<close>

theorem expand_struct_union_vars_correct:
  "mset (expand_struct_union_vars vars ty) = mset (concat (map (leaves ty) vars)) \<and>
   (\<forall>w \<in> set (expand_struct_union_vars vars ty). \<not> expandable ty w \<and> (\<exists>v \<in> set vars. v \<in> set (ancestors w)))"
proof -
  have m: "mset (expand_struct_union_vars vars ty) = mset (concat (map (leaves ty) vars))"
    using expand_loop_leaves[of ty 0 vars] by (simp add: expand_struct_union_vars_def)
  then have "set (expand_struct_union_vars vars ty) = set (concat (map (leaves ty) vars))"
    by (rule mset_eq_setD)
  then show ?thesis using m leaves_sound by fastforce
qed

definition nested_var :: variable where
  "nested_var = (let q = cvq_new [False] [False]; inner = TAgg True 0 False [TSimple eChar, TSimple eInt] [q, q] [-1, -1] in
     Var \<lparr>vi_id = 22, vi_name = ''g_22'', vi_type = Some (TAgg True 1 False [TSimple eInt, inner] [q, q] [-1, -1]),
       vi_qfer = q, vi_expanded = True\<rparr> None)"

lemma expand_struct_union_vars_correct_witness:
  "mset (expand_struct_union_vars [nested_var, int_var] (Some (TSimple eInt))) =
     {#Fld nested_var 0, Fld (Fld nested_var 1) 0, Fld (Fld nested_var 1) 1, int_var#} \<and>
   \<not> expandable (Some (TSimple eInt)) (Fld (Fld nested_var 1) 0)"
proof -
  note ex = expand_struct_union_vars_correct[of "[nested_var, int_var]" "Some (TSimple eInt)"]
  have "concat (map (leaves (Some (TSimple eInt))) [nested_var, int_var]) =
    [Fld nested_var 0, Fld (Fld nested_var 1) 0, Fld (Fld nested_var 1) 1, int_var]" by code_simp
  then have m: "mset (expand_struct_union_vars [nested_var, int_var] (Some (TSimple eInt))) =
     {#Fld nested_var 0, Fld (Fld nested_var 1) 0, Fld (Fld nested_var 1) 1, int_var#}" using ex by simp
  then have "Fld (Fld nested_var 1) 0 \<in> set (expand_struct_union_vars [nested_var, int_var] (Some (TSimple eInt)))"
    by (metis insert_iff set_mset_add_mset_insert set_mset_mset)
  then show ?thesis using m ex by blast
qed

lemma leaves_fields: "w \<in> set (leaves ty v) \<Longrightarrow> w = v \<or> is_field_var w"
proof (induction ty v rule: leaves.induct)
  case (1 ty v)
  show ?case
  proof (cases "expandable ty v")
    case True
    then obtain f where f: "f \<in> set (field_vars v)" "w \<in> set (leaves ty f)"
      using 1(2) by (subst (asm) leaves.simps) auto
    have "is_field_var f" using f(1) by (auto simp: field_vars_def is_field_var_def split: option.splits if_splits)
    then show ?thesis using 1(1)[OF True f] by auto
  next
    case False
    then show ?thesis using 1(2) by (subst (asm) leaves.simps) simp
  qed
qed

lemma candidates_wf: "\<forall>u \<in> set vars. wf_array u \<Longrightarrow> \<forall>u \<in> set (candidates no_expand ty vars). wf_array u"
proof -
  assume w: "\<forall>u \<in> set vars. wf_array u"
  have f: "wf_array u" if "is_field_var u" for u using that by (cases u) (auto simp: is_field_var_def wf_array_def)
  have "mset (expand_struct_union_vars vars ty) = mset (concat (map (leaves ty) vars))"
    using expand_loop_leaves[of ty 0 vars] by (simp add: expand_struct_union_vars_def)
  then have e: "set (expand_struct_union_vars vars ty) = set (concat (map (leaves ty) vars))" by (rule mset_eq_setD)
  have "wf_array u" if "u \<in> set (leaves ty v)" "v \<in> set vars" for u v
    using leaves_fields[OF that(1)] f w that(2) by blast
  then have "\<forall>u \<in> set (expand_struct_union_vars vars ty). wf_array u" unfolding e by auto
  then show ?thesis using w unfolding candidates_def by simp
qed

text \<open>C7: a variable that is chosen may be used.  If \<open>choose_var\<close> yields a variable, it is one of the
  expanded candidates, or a random member of one of them with constant indices inside the dimensions;
  the candidate matches the type, is not one of the excluded variables and is no bit-field when none
  is wanted; and its collective is not written by the effects around, is not volatile after a side
  effect, is readable when it is to be read, and when it is to be written is not constant and neither
  protected nor a loop control variable.\<close>

theorem choose_var_correct:
  assumes "choose_var vis E vid vars acc (Some t) qfer mt invalid_vars no_bitfield no_expand s c r = Some (res, s', c', r')"
    and "\<forall>u \<in> set vars. wf_array u" "res = Some v"
  shows "\<exists>u coll d. u \<in> set (candidates no_expand (Some t) vars) \<and> (v = u \<or> picked (collective_of u) v) \<and> u \<notin> set invalid_vars \<and>
    (no_bitfield \<longrightarrow> isBitfield u = Some False) \<and> (\<exists>ut. vtype u = Some ut \<and> type_match t ut mt) \<and>
    indirect_level u t = Some d \<and> get_collective (ve_printer E) u = Some coll \<and>
    is_written_partially (ve_printer E) (effect_context c) coll = Some False \<and>
    (var_is_volatile coll = Some True \<longrightarrow> side_effect_free (effect_context c)) \<and>
    (acc = READ \<longrightarrow> \<not> is_nonreadable c coll \<and> is_nonreadable_field (ve_opts E) coll (vs_facts s) = Some False) \<and>
    (acc = WRITE \<longrightarrow> var_is_const_after_deref d coll = Some False \<and> is_nonwritable (ve_printer E) c coll = Some False) \<and>
    vs_facts s' = vs_facts s \<and> accum_only c c'"
proof -
  obtain b s1 c1 oks where vol: "has_eligible_volatile_var vis E (Some t) qfer acc (candidates no_expand (Some t) vars) s c = Some (b, s1, c1)"
    and el: "eligible_vars vis E no_bitfield (Some t) mt qfer invalid_vars acc (candidates no_expand (Some t) vars) s1 c1 = Some (oks, s', c')"
    and dr: "draw_preferred E vid (Some t) oks r = Some (Some v, r')"
    using assms(1,3) by (auto simp: choose_var_def bind_eq_Some_conv Let_def)
  note f1 = has_eligible_volatile_var_frame[OF vol]
  note e = eligible_vars_SomeD[OF el]
  have ac: "accum_only c c'" using f1 e accum_only_trans by blast
  have "\<forall>u \<in> set oks. wf_array u" using e candidates_wf[OF assms(2)] by blast
  then obtain u where u: "u \<in> set oks" "v = u \<or> picked (collective_of u) v" using draw_preferred_SomeD[OF dr] by blast
  then have "candidate_ok E no_bitfield (Some t) mt qfer invalid_vars acc (vs_facts s) c u" "u \<in> set (candidates no_expand (Some t) vars)"
    using e f1 candidate_ok_accum[of c c1] by auto
  then obtain d coll where k: "no_bitfield \<longrightarrow> isBitfield u = Some False" "right_kind E (Some t) mt qfer u = Some True"
    "u \<notin> set invalid_vars" "indirect_level u t = Some d" "get_collective (ve_printer E) u = Some coll"
    "ineligible E coll d acc (vs_facts s) c = Some False"
    by (auto simp: candidate_ok_def)
  have "\<exists>ut. vtype u = Some ut \<and> type_match t ut mt"
    using k(2) by (auto simp: right_kind_def bind_eq_Some_conv split: if_splits)
  then show ?thesis using u k ineligible_FalseD[OF k(6)] \<open>u \<in> set (candidates no_expand (Some t) vars)\<close> ac f1 e by auto
qed

lemma choose_var_correct_witness:
  "\<exists>s c r. choose_var (visit_expr no_user_calls sample_env 4) sample_env 99 [ptr_var, int_var] WRITE (Some (TSimple eInt))
      None eConvert [] True False sample_state sample_context (rng_of []) = Some (Some int_var, s, c, r) \<and>
     is_nonwritable (ve_printer sample_env) sample_context int_var = Some False"
proof -
  let ?vis = "visit_expr no_user_calls sample_env 4" and ?t = "Some (TSimple eInt)"
  have 1: "candidates False ?t [ptr_var, int_var] = [ptr_var, int_var]"
    "has_dereferenceable_var sample_env [ptr_var, int_var] ?t (vs_facts sample_state) \<noteq> None" by code_simp+
  have 2: "map_option fst (has_eligible_volatile_var ?vis sample_env ?t None WRITE [ptr_var, int_var] sample_state sample_context) = Some False"
    "case has_eligible_volatile_var ?vis sample_env ?t None WRITE [ptr_var, int_var] sample_state sample_context of
       None \<Rightarrow> False | Some (b, s, c) \<Rightarrow> map_option fst
         (eligible_vars ?vis sample_env True ?t eConvert None [] WRITE [ptr_var, int_var] s c) = Some [int_var]"
    by code_simp+
  obtain d s1 c1 s2 c2 where 3: "has_dereferenceable_var sample_env [ptr_var, int_var] ?t (vs_facts sample_state) = Some d"
    "has_eligible_volatile_var ?vis sample_env ?t None WRITE [ptr_var, int_var] sample_state sample_context = Some (False, s1, c1)"
    "eligible_vars ?vis sample_env True ?t eConvert None [] WRITE [ptr_var, int_var] s1 c1 = Some ([int_var], s2, c2)"
    using 1(2) 2 by (auto split: option.splits)
  have 4: "draw_preferred sample_env 99 ?t [int_var] (rng_of []) = Some (Some int_var, rng_of [])"
    by (simp add: draw_preferred_def choose_ok_var_def random_var_def take_member_def int_var_def plain_var_def)
  have v: "choose_var ?vis sample_env 99 [ptr_var, int_var] WRITE
      ?t None eConvert [] True False sample_state sample_context (rng_of []) = Some (Some int_var, s2, c2, rng_of [])"
    by (simp add: choose_var_def 1(1) 3 4 del: eligible_vars.simps has_eligible_volatile_var.simps visit_expr.simps)
  have w: "\<forall>u \<in> set [ptr_var, int_var]. wf_array u" by (simp add: wf_array_def ptr_var_def int_var_def plain_var_def)
  from choose_var_correct[OF v w refl] obtain u coll where "u \<in> set (candidates False (Some (TSimple eInt)) [ptr_var, int_var])"
    "int_var = u \<or> picked (collective_of u) int_var" "get_collective (ve_printer sample_env) u = Some coll"
    "is_nonwritable (ve_printer sample_env) sample_context coll = Some False"
    by auto
  moreover have "\<not> picked x int_var" for x by (simp add: picked_def int_var_def plain_var_def)
  ultimately show ?thesis using v sample_vars_tidy(4)[of "ve_printer sample_env"] by auto
qed

lemma eligible_not_refused_by:
  assumes "clean_visitor E vis" "is_eligible_var vis E v 0 acc s c = Some (True, s1, c1)"
    and "get_collective (ve_printer E) v = Some coll" "coll = v \<longrightarrow> read_indices vis v s c = Some (True, s2, c2)"
  shows "(acc = READ \<longrightarrow> check_read_var vis E v s c = Some (b, s', c') \<longrightarrow> (b \<longleftrightarrow> \<not> dangling_pointer E coll (vs_facts s))) \<and>
    (acc = WRITE \<longrightarrow> check_write_var vis E v s c = Some (b, s', c') \<longrightarrow>
      (b \<longleftrightarrow> \<not> (cg_flags c AND NO_DANGLING_PTR \<noteq> 0 \<and> dangling_pointer E coll (vs_facts s))))"
proof -
  obtain s3 c3 where ri: "read_indices vis v s c = Some (True, s3, c3)"
    and el: "ineligible E coll 0 acc (vs_facts s) c = Some False"
    using is_eligible_varE[OF assms(2)] assms(3,4) by (metis option.inject)
  have f: "vs_facts s3 = vs_facts s" using read_indices_facts[OF ri] .
  have sp: "same_place c c3"
    using clean_visitor.read_indices_clean[OF assms(1), of c v s] ri by (simp add: clean_step_def)
  note d = ineligible_FalseD[OF el]
  have w: "var_is_const coll = var_is_const_after_deref 0 coll" by (simp add: var_is_const_def)
  have sf: "effect_context c3 = effect_context c" "is_nonreadable c3 coll = is_nonreadable c coll"
    "is_nonwritable (ve_printer E) c3 coll = is_nonwritable (ve_printer E) c coll" "cg_flags c3 = cg_flags c"
    using sp by (auto simp: same_place_def is_nonreadable_def is_nonwritable_def)
  have vol: "(do { vol \<leftarrow> var_is_volatile coll; Some (vol \<and> \<not> side_effect_free (effect_context c)) }) \<noteq> Some True"
    using d(2) by (cases "var_is_volatile coll") auto
  have r: "read_conflict (ve_printer E) c3 coll \<noteq> Some True" if "acc = READ"
    using d(1,5) that vol sf by (auto simp: read_conflict_def forbidden_access_def or_opt_def bind_eq_Some_conv)
  have wr: "write_conflict (ve_printer E) c3 coll \<noteq> Some True" if "acc = WRITE"
    using d(1,3,4) that vol sf w by (auto simp: write_conflict_def or_opt_def bind_eq_Some_conv)
  have p1: "b \<longleftrightarrow> \<not> dangling_pointer E coll (vs_facts s)" if "acc = READ" "check_read_var vis E v s c = Some (b, s', c')"
    using ri f assms(3) r[OF that(1)] d(5) that
    by (auto simp: check_read_var_def and_then_def refuse_if_def or_opt_def bind_eq_Some_conv split: if_splits)
  have p2: "b \<longleftrightarrow> \<not> (cg_flags c AND NO_DANGLING_PTR \<noteq> 0 \<and> dangling_pointer E coll (vs_facts s))"
    if "acc = WRITE" "check_write_var vis E v s c = Some (b, s', c')"
    using ri f sf(4) assms(3) wr[OF that(1)] that
    by (auto simp: check_write_var_def and_then_def refuse_if_def or_opt_def bind_eq_Some_conv split: if_splits)
  show ?thesis using p1 p2 by blast
qed

text \<open>C22: selection and analysis agree. For a variable that is eligible to be read or written (not through a
  pointer) and whose indices can be read, the check that the analysis makes afterwards at the same place, when it
  returns, refuses a read exactly if the variable is a pointer that may dangle, and a write exactly if, moreover, the
  context has the flag against dangling pointers: in a context that allows them no write is refused. The revisit
  of the body of a called function, which an index may contain, collects only what its context permits.\<close>

theorem eligible_not_refused:
  assumes "\<And>m es s c. clean (ve_printer E) c (revisit m es s c)"
    and "is_eligible_var (visit_expr revisit E n) E v 0 acc s c = Some (True, s1, c1)"
    and "get_collective (ve_printer E) v = Some coll"
    and "coll = v \<longrightarrow> read_indices (visit_expr revisit E n) v s c = Some (True, s2, c2)"
  shows "(acc = READ \<longrightarrow> check_read_var (visit_expr revisit E n) E v s c = Some (b, s', c') \<longrightarrow>
      (b \<longleftrightarrow> \<not> dangling_pointer E coll (vs_facts s))) \<and>
    (acc = WRITE \<longrightarrow> check_write_var (visit_expr revisit E n) E v s c = Some (b, s', c') \<longrightarrow>
      (b \<longleftrightarrow> \<not> (cg_flags c AND NO_DANGLING_PTR \<noteq> 0 \<and> dangling_pointer E coll (vs_facts s))))"
proof -
  have "call_rules E revisit" using assms(1) by unfold_locales
  then have "clean_visitor E (visit_expr revisit E n)"
    by (intro clean_visitor.intro call_rules.visit_expr_clean)
  from eligible_not_refused_by[OF this assms(2-4)] show ?thesis .
qed

text \<open>A pointer that may dangle, in a context without and in one with the flag.\<close>

definition dangling_state :: visit_state where
  "dangling_state = sample_state\<lparr>vs_facts := [FPointTo ptr_var [garbage_ptr]]\<rparr>"

lemma eligible_not_refused_witness:
  "let vis = visit_expr no_user_calls sample_env 4; c = sample_context; c' = sample_context\<lparr>cg_flags := NO_DANGLING_PTR\<rparr> in
     dangling_pointer sample_env ptr_var (vs_facts dangling_state) \<and>
     map_option fst (is_eligible_var vis sample_env ptr_var 0 WRITE dangling_state c) = Some True \<and>
     map_option fst (check_write_var vis sample_env ptr_var dangling_state c) = Some True \<and>
     map_option fst (check_write_var vis sample_env ptr_var dangling_state c') = Some False"
proof -
  let ?vis = "visit_expr no_user_calls sample_env 4" and ?c' = "sample_context\<lparr>cg_flags := NO_DANGLING_PTR\<rparr>"
  have e: "map_option fst (is_eligible_var ?vis sample_env ptr_var 0 WRITE dangling_state sample_context) = Some True"
    "map_option fst (is_eligible_var ?vis sample_env ptr_var 0 WRITE dangling_state ?c') = Some True" by code_simp+
  have w: "check_write_var ?vis sample_env ptr_var dangling_state sample_context \<noteq> None"
    "check_write_var ?vis sample_env ptr_var dangling_state ?c' \<noteq> None" by code_simp+
  have d: "dangling_pointer sample_env ptr_var (vs_facts dangling_state)" by code_simp
  have g: "get_array ptr_var = None" by (simp add: get_array_def ptr_var_def plain_var_def)
  obtain s1 c1 where e1: "is_eligible_var ?vis sample_env ptr_var 0 WRITE dangling_state sample_context = Some (True, s1, c1)"
    using e(1) by auto
  obtain s2 c2 where e2: "is_eligible_var ?vis sample_env ptr_var 0 WRITE dangling_state ?c' = Some (True, s2, c2)"
    using e(2) by auto
  obtain b1 t1 d1 where w1: "check_write_var ?vis sample_env ptr_var dangling_state sample_context = Some (b1, t1, d1)"
    using w(1) by auto
  obtain b2 t2 d2 where w2: "check_write_var ?vis sample_env ptr_var dangling_state ?c' = Some (b2, t2, d2)"
    using w(2) by auto
  note th = eligible_not_refused[OF single.revisit_clean _ sample_vars_tidy(3)]
  have "b1" using th[OF e1, of dangling_state sample_context b1 t1 d1] w1 g
    by (simp add: read_indices_def sample_context_def function_context_def)
  then have m1: "map_option fst (check_write_var ?vis sample_env ptr_var dangling_state sample_context) = Some True" using w1 by simp
  have "\<not> b2" using th[OF e2, of dangling_state ?c' b2 t2 d2] w2 g d by (simp add: read_indices_def NO_DANGLING_PTR_def)
  then have m2: "map_option fst (check_write_var ?vis sample_env ptr_var dangling_state ?c') = Some False" using w2 by simp
  show ?thesis unfolding Let_def using d e(1) m1 m2 by blast
qed

end
