(* ===== verification/Loops.thy ===== *)
theory Loops
  imports Selection
begin

text \<open>
  StatementFor.cpp, StatementArrayOp.cpp and \<open>VariableSelector::itemize_array\<close>: the control of counting
  loops, the control of loops that traverse arrays, and the array members that are indexed by the
  induction variables of the enclosing loops.

  The meaning of a loop header in C is \<open>run_for\<close>: the values the induction variable has when the
  body is entered, with the wrap-around of its type.  The body does not change it, because the
  context protects the variables of \<open>iv_bounds\<close>.
\<close>

section \<open>Loop control\<close>

record loop_control =
  lc_init :: int
  lc_limit :: int
  lc_incr :: int
  lc_test :: binary_op
  lc_op :: assign_op

definition coin_or_upto :: "int \<Rightarrow> nat \<Rightarrow> (nat \<Rightarrow> int) \<Rightarrow> rng \<Rightarrow> (int \<times> rng) option" where
  "coin_or_upto fixed n f s = do {
     (b, s1) \<leftarrow> pure_rnd_flipcoin 50 None s;
     if b then Some (fixed, s1)
     else do { (k, s2) \<leftarrow> pure_rnd_upto n None None s1; Some (f k, s2) } }"

definition make_random_loop_control :: "cgoptions \<Rightarrow> bool \<Rightarrow> rng \<Rightarrow> (loop_control \<times> rng) option" where
  "make_random_loop_control o1 iv_signed s = do {
     (init, s1) \<leftarrow> coin_or_upto 0 60 (\<lambda>k. s32 (u32 (int k - 30))) s;
     (k, s2) \<leftarrow> pure_rnd_upto 60 None None s1;
     let limit = (if iv_signed then s32 (u32 (int k - 30)) else s32 (u32 (int k + 1)));
     (t, s3) \<leftarrow> pure_rnd_upto 6 None None s2;
     let test_op = [eCmpLt, eCmpLe, eCmpGt, eCmpGe, eCmpEq, eCmpNe] ! t;
     let plain_op = (if limit \<ge> init then eAddAssign else eSubAssign);
     (b, s4) \<leftarrow> pure_rnd_flipcoin 50 None s3;
     if b then do {
       (n, s5) \<leftarrow> pure_rnd_upto 10 None None s4;
       Some (\<lparr>lc_init = init, lc_limit = limit, lc_incr = (if n = 0 then 1 else int n), lc_test = test_op,
         lc_op = plain_op\<rparr>, s5) }
     else do {
       (pre, s5) \<leftarrow> pure_rnd_flipcoin 50 None s4;
       let op = (if limit \<ge> init then (if pre then ePreIncr else ePostIncr) else (if pre then ePreDecr else ePostDecr));
       let off = (op = ePreIncr \<and> \<not> opt_pre_incr_operator o1 \<or> op = ePostIncr \<and> \<not> opt_post_incr_operator o1 \<or>
         op = ePreDecr \<and> \<not> opt_pre_decr_operator o1 \<or> op = ePostDecr \<and> \<not> opt_post_decr_operator o1);
       Some (\<lparr>lc_init = init, lc_limit = limit, lc_incr = 1, lc_test = test_op,
         lc_op = (if off then plain_op else op)\<rparr>, s5) } }"

text \<open>The control for traversing an array whose last index is \<open>bound\<close>, in unsigned arithmetic; the first
  result is the largest value the induction variable takes.\<close>

definition make_random_array_control ::
  "32 word \<Rightarrow> bool \<Rightarrow> rng \<Rightarrow> (32 word \<times> loop_control \<times> rng) option" where
  "make_random_array_control bound iv_signed s = do {
     (up, s1) \<leftarrow> (if iv_signed then rnd_flipcoin 50 None s else Some (True, s));
     if up then do {
       (init, s2) \<leftarrow> coin_or_upto 0 (unat (bound div 2)) int s1;
       (k, s3) \<leftarrow> coin_or_upto 1 (unat (bound div 4)) int s2;
       let incr = (if k = 0 then 1 else k);
       Some (((bound - word_of_int init) div word_of_int incr) * word_of_int incr + word_of_int init,
         \<lparr>lc_init = init, lc_limit = sint bound, lc_incr = incr, lc_test = eCmpLe, lc_op = eAddAssign\<rparr>, s3) }
     else do {
       (init, s2) \<leftarrow> coin_or_upto (sint bound) (unat (bound div 2)) (\<lambda>k. sint (bound - of_nat k)) s1;
       (limit, s3) \<leftarrow> coin_or_upto 0 (unat (bound div 2)) int s2;
       (k, s4) \<leftarrow> coin_or_upto 1 (unat (bound div 4)) int s3;
       let incr = (if k = 0 then 1 else k);
       Some (word_of_int init,
         \<lparr>lc_init = init, lc_limit = limit, lc_incr = incr, lc_test = eCmpGe, lc_op = eSubAssign\<rparr>, s4) } }"

definition INVALID_BOUND :: "32 word" where "INVALID_BOUND = 0xFFFFFFFF"

text \<open>The bound chosen by \<open>make_iteration\<close>: the shortest dimension of a must-use array.\<close>

definition shortest_dimension :: "nat list \<Rightarrow> 32 word" where
  "shortest_dimension sizes = fold (\<lambda>n bound. if of_nat n < bound then of_nat n else bound) sizes INVALID_BOUND"

definition choose_loop_bound :: "nat \<Rightarrow> cgcontext \<Rightarrow> rng \<Rightarrow> (32 word \<times> rng) option" where
  "choose_loop_bound vid c r = (case directive c of
      None \<Rightarrow> Some (INVALID_BOUND, r)
    | Some d \<Rightarrow>
        if find_must_use_arrays d = [] then Some (INVALID_BOUND, r)
        else do {
          (v, r1) \<leftarrow> choose_ok_var vid (find_must_use_arrays d) r;
          av \<leftarrow> v;
          assert_that (isArray av);
          Some (shortest_dimension (array_sizes_of av), r1) })"

definition make_loop_control :: "cgoptions \<Rightarrow> 32 word \<Rightarrow> bool \<Rightarrow> rng \<Rightarrow> (32 word \<times> loop_control \<times> rng) option" where
  "make_loop_control o1 bound iv_signed r =
    (if bound \<noteq> INVALID_BOUND then make_random_array_control (bound - 1) iv_signed r
     else do { (lc, r1) \<leftarrow> make_random_loop_control o1 iv_signed r; Some (bound, lc, r1) })"

text \<open>\<open>SelectLoopCtrlVar\<close> up to the creation of a new variable: an integer that is no array, no bit-field and
  not in a union that also has pointers.\<close>

definition loop_ctrl_candidates :: "variable list \<Rightarrow> scope option \<Rightarrow> variable list" where
  "loop_ctrl_candidates globals blk = filter (\<lambda>v. case vtype v of
      None \<Rightarrow> True
    | Some t \<Rightarrow> has_int_field t \<and> \<not> (is_union t \<and> contain_pointer_field t)) (find_all_non_array_visible_vars globals blk)"

definition block_locals :: "scope option \<Rightarrow> variable list" where
  "block_locals blk = (case blk of None \<Rightarrow> [] | Some b \<Rightarrow> (case sc_chain b of [] \<Rightarrow> [] | (n, ls) # _ \<Rightarrow> ls))"

definition SelectLoopCtrlVar :: "visitor \<Rightarrow> visit_env \<Rightarrow> nat \<Rightarrow> variable list \<Rightarrow> variable list \<Rightarrow> visit_state \<Rightarrow>
    cgcontext \<Rightarrow> rng \<Rightarrow> (variable option \<times> visit_state \<times> cgcontext \<times> rng) option" where
  "SelectLoopCtrlVar vis E vid globals invalid_vars s c r =
     choose_var vis E vid
       (if atomic_context c then block_locals (get_current_block c)
        else loop_ctrl_candidates globals (get_current_block c))
       WRITE (Some (TSimple eInt)) None eConvert invalid_vars True False s c r"

section \<open>Members indexed by induction variables\<close>

fun name_less :: "string \<Rightarrow> string \<Rightarrow> bool" where
  "name_less [] ys = (ys \<noteq> [])"
| "name_less (x # xs) [] = False"
| "name_less (x # xs) (y # ys) = ((of_char x :: nat) < of_char y \<or> x = y \<and> name_less xs ys)"

fun insert_by_name :: "printer \<Rightarrow> variable \<Rightarrow> variable list \<Rightarrow> variable list" where
  "insert_by_name pr v [] = [v]"
| "insert_by_name pr v (u # us) =
    (if name_less (vname pr v) (vname pr u) then v # u # us else u # insert_by_name pr v us)"

definition usable_iv :: "cgoptions \<Rightarrow> nat \<Rightarrow> variable \<Rightarrow> 32 word \<Rightarrow> bool" where
  "usable_iv o1 dimen_len iv bound \<longleftrightarrow> bound \<noteq> INVALID_BOUND \<and> bound < of_nat dimen_len \<and>
     \<not> (\<not> opt_signed_char_index o1 \<and> (case vtype iv of None \<Rightarrow> False | Some t \<Rightarrow> is_signed_char t)) \<and>
     \<not> (opt_ccomp o1 \<and> is_packed_aggregate_field_var iv)"

definition ok_ivs :: "visit_env \<Rightarrow> nat \<Rightarrow> (variable \<times> 32 word) list \<Rightarrow> variable list" where
  "ok_ivs E dimen_len ivs = fold (\<lambda>(iv, bound) oks.
     if usable_iv (ve_opts E) dimen_len iv bound then insert_by_name (ve_printer E) iv oks else oks) ivs []"

definition add_type :: "ctype \<Rightarrow> ctype" where
  "add_type t = (if is_signed t then TSimple eInt else TSimple eUInt)"

text \<open>The subscript of the map of bounds inserts 0 for a missing variable.\<close>

definition bound_of :: "(variable \<times> 32 word) list \<Rightarrow> variable \<Rightarrow> 32 word \<times> (variable \<times> 32 word) list" where
  "bound_of ivs v = (case map_of ivs v of Some b \<Rightarrow> (b, ivs) | None \<Rightarrow> (0, ivs @ [(v, 0)]))"

fun itemize_indices :: "visit_env \<Rightarrow> nat \<Rightarrow> nat list \<Rightarrow> (variable \<times> 32 word) list \<Rightarrow> rng \<Rightarrow>
    (expr list option \<times> (variable \<times> 32 word) list \<times> rng) option" where
  "itemize_indices E vid [] ivs r = Some (Some [], ivs, r)"
| "itemize_indices E vid (n # ns) ivs r = do {
     (v, r1) \<leftarrow> choose_ok_var vid (ok_ivs E n ivs) r;
     case v of
       None \<Rightarrow> Some (None, ivs, r1)
     | Some iv \<Rightarrow> do {
         t \<leftarrow> vtype iv;
         let (bound, ivs1) = bound_of ivs iv;
         (offset, r2) \<leftarrow> (if of_nat n - bound > 1 then rnd_upto (unat (of_nat n - bound)) None None r1 else Some (0, r1));
         let e = (if offset \<noteq> 0 then EPrim (eBinaryPrim eAdd) (add_type t) [EVar iv t, index_const offset] else EVar iv t);
         (rest, ivs2, r3) \<leftarrow> itemize_indices E vid ns ivs1 r2;
         Some (map_option ((#) e) rest, ivs2, r3) } }"

text \<open>The result is no array when the loops do not fit; otherwise a member in the current block.\<close>

definition itemize_array :: "visit_env \<Rightarrow> nat \<Rightarrow> variable \<Rightarrow> cgcontext \<Rightarrow> rng \<Rightarrow>
    (variable option \<times> cgcontext \<times> rng) option" where
  "itemize_array E vid av c r =
    (if length (array_sizes_of av) > length (iv_bounds c) then Some (None, c, r)
     else do {
       (indices, ivs, r1) \<leftarrow> itemize_indices E vid (array_sizes_of av) (iv_bounds c) r;
       case indices of
         None \<Rightarrow> Some (None, c\<lparr>iv_bounds := ivs\<rparr>, r1)
       | Some es \<Rightarrow> do {
           b \<leftarrow> get_current_block c;
           blk \<leftarrow> (case sc_chain b of [] \<Rightarrow> None | (n, ls) # _ \<Rightarrow> Some n);
           item \<leftarrow> itemize_with vid av es (Some blk);
           Some (Some item, c\<lparr>iv_bounds := ivs\<rparr>, r1) } })"

section \<open>Array initialization\<close>

text \<open>\<open>StatementArrayOp::make_random_iter_ctrl\<close> and the headers of the nested loops it prints.\<close>

definition make_random_iter_ctrl :: "nat \<Rightarrow> rng \<Rightarrow> ((int \<times> int) \<times> rng) option" where
  "make_random_iter_ctrl n s = do {
     (init, s1) \<leftarrow> coin_or_upto 0 n int s;
     (incr, s2) \<leftarrow> coin_or_upto 1 n (\<lambda>k. int k + 1) s1;
     Some ((init, incr), s2) }"

definition array_op_control :: "nat \<Rightarrow> int \<Rightarrow> int \<Rightarrow> loop_control" where
  "array_op_control n init incr = \<lparr>lc_init = init, lc_limit = (if incr > 0 then int n else 0), lc_incr = incr,
     lc_test = (if incr > 0 then eCmpLt else eCmpGe), lc_op = eAddAssign\<rparr>"

section \<open>The meaning of a loop header\<close>

text \<open>The conversion to an integer type of \<open>w\<close> bits; the test converts its limit when the type is not
  promoted to \<open>int\<close>.\<close>

definition store :: "bool \<Rightarrow> nat \<Rightarrow> int \<Rightarrow> int" where
  "store signd w i = (if signd then (i + 2 ^ (w - 1)) mod 2 ^ w - 2 ^ (w - 1) else i mod 2 ^ w)"

definition test_limit :: "bool \<Rightarrow> nat \<Rightarrow> int \<Rightarrow> int" where
  "test_limit signd w limit = (if \<not> signd \<and> w \<ge> 32 then limit mod 2 ^ w else limit)"

fun compare_op :: "binary_op \<Rightarrow> int \<Rightarrow> int \<Rightarrow> bool" where
  "compare_op eCmpLt a b = (a < b)"
| "compare_op eCmpLe a b = (a \<le> b)"
| "compare_op eCmpGt a b = (a > b)"
| "compare_op eCmpGe a b = (a \<ge> b)"
| "compare_op eCmpEq a b = (a = b)"
| "compare_op _ a b = (a \<noteq> b)"

fun iv_step :: "assign_op \<Rightarrow> int \<Rightarrow> int \<Rightarrow> int" where
  "iv_step eAddAssign incr iv = iv + incr"
| "iv_step eSubAssign incr iv = iv - incr"
| "iv_step ePreIncr incr iv = iv + 1"
| "iv_step ePostIncr incr iv = iv + 1"
| "iv_step ePreDecr incr iv = iv - 1"
| "iv_step ePostDecr incr iv = iv - 1"
| "iv_step _ incr iv = incr"

partial_function (option) run_for :: "bool \<Rightarrow> nat \<Rightarrow> loop_control \<Rightarrow> int \<Rightarrow> (int list \<times> int) option" where
  "run_for signd w lc iv =
    (if compare_op (lc_test lc) iv (test_limit signd w (lc_limit lc)) then do {
       (ivs, final) \<leftarrow> run_for signd w lc (store signd w (iv_step (lc_op lc) (lc_incr lc) iv));
       Some (iv # ivs, final) }
     else Some ([], iv))"

definition run_loop :: "bool \<Rightarrow> nat \<Rightarrow> loop_control \<Rightarrow> (int list \<times> int) option" where
  "run_loop signd w lc = run_for signd w lc (store signd w (lc_init lc))"

lemma store_id:
  assumes "if signd then - (2 ^ (w - 1)) \<le> i \<and> i < 2 ^ (w - 1) else 0 \<le> i \<and> i < 2 ^ w" "0 < w"
  shows "store signd w i = i"
proof -
  have "(2::int) ^ w = 2 * 2 ^ (w - 1)" using assms(2) by (cases w) auto
  then show ?thesis using assms by (auto simp: store_def mod_pos_pos_trivial)
qed

definition upper :: "bool \<Rightarrow> nat \<Rightarrow> int" where
  "upper signd w = (if signd then 2 ^ (w - 1) else 2 ^ w)"

lemma store_small: "0 < w \<Longrightarrow> 0 \<le> i \<Longrightarrow> i < upper signd w \<Longrightarrow> store signd w i = i"
  by (rule store_id) (auto simp: upper_def intro: order_trans[of _ 0])

lemma test_limit_small: "0 < w \<Longrightarrow> 0 \<le> i \<Longrightarrow> i < upper signd w \<Longrightarrow> test_limit signd w i = i"
  by (auto simp: test_limit_def upper_def mod_pos_pos_trivial)

text \<open>Counting up by a positive step to a limit that leaves room for one more step.\<close>

lemma run_up:
  assumes "lc_test lc = eCmpLe" "lc_op lc = eAddAssign" "0 < lc_incr lc" "0 < w" "0 \<le> lc_limit lc"
    "lc_limit lc + lc_incr lc < upper signd w"
  shows "0 \<le> iv \<Longrightarrow> \<exists>ivs final. run_for signd w lc iv = Some (ivs, final) \<and>
    set ivs = {v. iv \<le> v \<and> v \<le> lc_limit lc \<and> lc_incr lc dvd v - iv}"
proof (induction "nat (lc_limit lc + 1 - iv)" arbitrary: iv rule: less_induct)
  case less
  have tl: "test_limit signd w (lc_limit lc) = lc_limit lc" using assms by (intro test_limit_small) auto
  show ?case
  proof (cases "iv \<le> lc_limit lc")
    case False
    then show ?thesis using assms(1) by (subst run_for.simps) (auto simp: tl)
  next
    case True
    let ?next = "iv + lc_incr lc"
    have st: "store signd w ?next = ?next" using True less.prems assms by (intro store_small) auto
    obtain ivs final where r: "run_for signd w lc ?next = Some (ivs, final)"
      "set ivs = {v. ?next \<le> v \<and> v \<le> lc_limit lc \<and> lc_incr lc dvd v - ?next}"
      using less.hyps[of ?next] less.prems True assms(3) by force
    have "run_for signd w lc iv = Some (iv # ivs, final)"
      using True assms(1,2) r(1) st by (subst run_for.simps) (simp add: tl)
    moreover have "set (iv # ivs) = {v. iv \<le> v \<and> v \<le> lc_limit lc \<and> lc_incr lc dvd v - iv}"
    proof -
      have d: "lc_incr lc dvd v - ?next \<longleftrightarrow> lc_incr lc dvd v - iv" for v
        using dvd_diff_left_iff[of "lc_incr lc" "lc_incr lc" "v - iv"] by (simp add: diff_diff_eq)
      have "?next \<le> v" if "iv \<le> v" "v \<noteq> iv" "lc_incr lc dvd v - iv" for v
        using zdvd_imp_le[OF that(3)] that by simp
      then show ?thesis using True assms(3) unfolding r(2) list.set d by force
    qed
    ultimately show ?thesis by blast
  qed
qed

text \<open>Counting down with a signed variable.\<close>

lemma run_down:
  assumes "lc_test lc = eCmpGe" "lc_op lc = eSubAssign" "0 < lc_incr lc" "0 < w" "0 \<le> lc_limit lc"
    "lc_incr lc < upper True w"
  shows "iv < upper True w \<Longrightarrow> \<exists>ivs final. run_for True w lc iv = Some (ivs, final) \<and>
    set ivs = {v. lc_limit lc \<le> v \<and> v \<le> iv \<and> lc_incr lc dvd iv - v}"
proof (induction "nat (iv + 1 - lc_limit lc)" arbitrary: iv rule: less_induct)
  case less
  have tl: "test_limit True w (lc_limit lc) = lc_limit lc" by (simp add: test_limit_def)
  show ?case
  proof (cases "lc_limit lc \<le> iv")
    case False
    then show ?thesis using assms(1) by (subst run_for.simps) (auto simp: tl)
  next
    case True
    let ?next = "iv - lc_incr lc"
    have st: "store True w ?next = ?next" using True less.prems assms by (intro store_id) (auto simp: upper_def)
    obtain ivs final where r: "run_for True w lc ?next = Some (ivs, final)"
      "set ivs = {v. lc_limit lc \<le> v \<and> v \<le> ?next \<and> lc_incr lc dvd ?next - v}"
      using less.hyps[of ?next] less.prems True assms(3) by force
    have "run_for True w lc iv = Some (iv # ivs, final)"
      using True assms(1,2) r(1) st by (subst run_for.simps) (simp add: tl)
    moreover have "set (iv # ivs) = {v. lc_limit lc \<le> v \<and> v \<le> iv \<and> lc_incr lc dvd iv - v}"
    proof -
      have d: "lc_incr lc dvd ?next - v \<longleftrightarrow> lc_incr lc dvd iv - v" for v
        using dvd_diff_left_iff[of "lc_incr lc" "lc_incr lc" "iv - v"] by (simp add: diff_diff_eq add.commute)
      have "v \<le> ?next" if "v \<le> iv" "v \<noteq> iv" "lc_incr lc dvd iv - v" for v
        using zdvd_imp_le[OF that(3)] that by simp
      then show ?thesis using True assms(3) unfolding r(2) list.set d by force
    qed
    ultimately show ?thesis by blast
  qed
qed

section \<open>The control of array loops\<close>

lemma coin_or_upto_SomeD:
  assumes "coin_or_upto fixed n f s = Some (i, t)"
  shows "i = fixed \<or> (\<exists>k. i = f k \<and> (k < n \<or> k = 0))"
proof -
  obtain b s1 where b: "pure_rnd_flipcoin 50 None s = Some (b, s1)"
    using assms by (auto simp: coin_or_upto_def bind_eq_Some_conv)
  show ?thesis
  proof (cases b)
    case False
    then obtain k where k: "pure_rnd_upto n None None s1 = Some (k, t)" "i = f k"
      using assms b by (auto simp: coin_or_upto_def bind_eq_Some_conv)
    then have "k < n \<or> k = 0" using pure_rnd_upto_total[of n None s1] by auto
    then show ?thesis using k(2) by blast
  qed (use assms b in \<open>auto simp: coin_or_upto_def\<close>)
qed

text \<open>The arithmetic of \<open>unsigned int\<close> is exact for the length of an array.\<close>

lemma small_word:
  assumes "n < 2 ^ 31"
  shows "unat (of_nat n :: 32 word) = n" "sint (of_nat n :: 32 word) = int n" "unat ((of_nat n :: 32 word) div 2) = n div 2"
    "unat ((of_nat n :: 32 word) div 4) = n div 4"
proof -
  show u: "unat (of_nat n :: 32 word) = n" using assms by (simp add: unat_of_nat take_bit_nat_eq_self)
  have "int n < 2 ^ 31" using assms by (metis of_nat_less_iff of_nat_numeral of_nat_power)
  then show "sint (of_nat n :: 32 word) = int n" by transfer (simp add: signed_take_bit_int_eq_self)
  show "unat ((of_nat n :: 32 word) div 2) = n div 2" "unat ((of_nat n :: 32 word) div 4) = n div 4"
    using u by (simp_all add: unat_div)
qed

lemma last_multiple_word:
  assumes "n < 2 ^ 31" "i \<le> n" "c < 2 ^ 31"
  shows "unat (((of_nat n - of_nat i) div of_nat c) * of_nat c + of_nat i :: 32 word) = ((n - i) div c) * c + i"
proof -
  have d: "(of_nat n - of_nat i :: 32 word) = of_nat (n - i)" using assms(2) by (simp add: of_nat_diff)
  have u: "unat (of_nat (n - i) :: 32 word) = n - i" "unat (of_nat c :: 32 word) = c"
    by (rule small_word(1), use assms in simp)+
  have "(of_nat (n - i) :: 32 word) div of_nat c = of_nat ((n - i) div c)"
    unfolding word_arith_nat_div u ..
  then have e: "((of_nat n - of_nat i) div of_nat c) * of_nat c + of_nat i = (of_nat (((n - i) div c) * c + i) :: 32 word)"
    unfolding d by simp
  have "(n - i) div c * c \<le> n - i" by (metis div_mult_mod_eq le_add1)
  then have "((n - i) div c) * c + i < 2 ^ 31" using assms(1,2) by linarith
  then show ?thesis unfolding e by (rule small_word(1))
qed

lemma array_control_cases:
  assumes "make_random_array_control (of_nat n) signd s = Some (b, lc, s')" "n < 2 ^ 31"
  obtains i c where "lc = \<lparr>lc_init = int i, lc_limit = int n, lc_incr = int c, lc_test = eCmpLe, lc_op = eAddAssign\<rparr>"
      "i \<le> n" "1 \<le> c" "c \<le> max 1 (n div 4)" "unat b = ((n - i) div c) * c + i"
  | i l c where "lc = \<lparr>lc_init = int i, lc_limit = int l, lc_incr = int c, lc_test = eCmpGe, lc_op = eSubAssign\<rparr>"
      "l \<le> i" "i \<le> n" "1 \<le> c" "c \<le> max 1 (n div 4)" "unat b = i" "signd"
proof -
  note sw = small_word[OF assms(2)]
  obtain up s1 where up: "(if signd then rnd_flipcoin 50 None s else Some (True, s)) = Some (up, s1)"
    using assms(1) by (auto simp: make_random_array_control_def bind_eq_Some_conv)
  have step: "\<exists>c. (if k = 0 then 1 else k) = int c \<and> 1 \<le> c \<and> c \<le> max 1 (n div 4)"
    if "coin_or_upto 1 (unat ((of_nat n :: 32 word) div 4)) int s2 = Some (k, s3)" for k s2 s3
    using coin_or_upto_SomeD[OF that] by (auto simp: sw)
  show thesis
  proof (cases up)
    case True
    obtain init s2 k where init: "coin_or_upto 0 (unat ((of_nat n :: 32 word) div 2)) int s1 = Some (init, s2)"
      and k: "coin_or_upto 1 (unat ((of_nat n :: 32 word) div 4)) int s2 = Some (k, s')"
      and b: "b = ((of_nat n - word_of_int init) div word_of_int (if k = 0 then 1 else k)) * word_of_int (if k = 0 then 1 else k) + word_of_int init"
      and lc: "lc = \<lparr>lc_init = init, lc_limit = sint (of_nat n :: 32 word), lc_incr = (if k = 0 then 1 else k), lc_test = eCmpLe, lc_op = eAddAssign\<rparr>"
      using assms(1) up True by (auto simp: make_random_array_control_def bind_eq_Some_conv Let_def)
    obtain i where i: "init = int i" "i \<le> n" using coin_or_upto_SomeD[OF init] by (auto simp: sw)
    obtain c where c: "(if k = 0 then 1 else k) = int c" "1 \<le> c" "c \<le> max 1 (n div 4)" using step[OF k] by blast
    have "c < 2 ^ 31" using c(3) assms(2) by (auto simp: max_def split: if_splits)
    then have "unat b = ((n - i) div c) * c + i"
      using last_multiple_word[OF assms(2) i(2), of c] unfolding b c(1) i(1) by (simp del: of_nat_mult)
    then show ?thesis using that(1)[of i c] lc i c sw(2) by simp
  next
    case False
    obtain init s2 limit s3 k where init: "coin_or_upto (sint (of_nat n :: 32 word)) (unat ((of_nat n :: 32 word) div 2))
        (\<lambda>k. sint (of_nat n - of_nat k :: 32 word)) s1 = Some (init, s2)"
      and limit: "coin_or_upto 0 (unat ((of_nat n :: 32 word) div 2)) int s2 = Some (limit, s3)"
      and k: "coin_or_upto 1 (unat ((of_nat n :: 32 word) div 4)) int s3 = Some (k, s')"
      and b: "b = word_of_int init"
      and lc: "lc = \<lparr>lc_init = init, lc_limit = limit, lc_incr = (if k = 0 then 1 else k), lc_test = eCmpGe, lc_op = eSubAssign\<rparr>"
      using assms(1) up False by (auto simp: make_random_array_control_def bind_eq_Some_conv Let_def)
    have "init = int n \<or> (\<exists>k. init = sint (of_nat n - of_nat k :: 32 word) \<and> (k < n div 2 \<or> k = 0))"
      using coin_or_upto_SomeD[OF init] by (simp add: sw)
    moreover have "sint (of_nat n - of_nat k :: 32 word) = int (n - k)" if "k < n div 2 \<or> k = 0" for k
    proof -
      have "(of_nat n - of_nat k :: 32 word) = of_nat (n - k)" using that by (auto simp: of_nat_diff)
      then show ?thesis using small_word(2)[of "n - k"] assms(2) by simp
    qed
    ultimately consider "init = int n" | k where "init = int (n - k)" "k < n div 2 \<or> k = 0" by blast
    then obtain i where i: "init = int i" "i \<le> n" "n - n div 2 \<le> i"
    proof cases
      case (2 k)
      then show ?thesis using that[of "n - k"] by linarith
    qed (use that[of n] in simp)
    obtain l where l: "limit = int l" "l \<le> n div 2" using coin_or_upto_SomeD[OF limit] by (auto simp: sw)
    obtain c where c: "(if k = 0 then 1 else k) = int c" "1 \<le> c" "c \<le> max 1 (n div 4)" using step[OF k] by blast
    have "signd" using up False by (auto split: if_splits)
    moreover have "unat b = i" using small_word(1)[of i] i assms(2) b by simp
    ultimately show ?thesis using that(2)[of i l c] lc i l c by simp
  qed
qed

lemma array_control_inside:
  assumes "make_random_array_control (of_nat len - 1) signd s = Some (bound, lc, s')"
    and "0 < len" "len < 2 ^ 31" "2 * int len \<le> upper signd w" "0 < w"
  shows "\<exists>ivs final. run_loop signd w lc = Some (ivs, final) \<and> ivs \<noteq> [] \<and>
    (\<forall>v \<in> set ivs. 0 \<le> v \<and> v \<le> uint bound) \<and> uint bound \<in> set ivs \<and> uint bound < int len"
proof -
  let ?n = "len - 1"
  have n: "of_nat len - 1 = (of_nat ?n :: 32 word)" using assms(2) by (simp add: of_nat_diff)
  have lt: "?n < 2 ^ 31" using assms(3) by simp
  have U: "2 * int ?n + 2 \<le> upper signd w" using assms(2,4) by linarith
  from assms(1)[unfolded n] lt show ?thesis
  proof (cases rule: array_control_cases)
    case (1 i c)
    let ?b = "((?n - i) div c) * c + i"
    have le: "?b \<le> ?n" using 1(2) by (metis add.commute add_le_mono1 div_mult_mod_eq le_add1 le_add_diff_inverse2)
    have ub: "uint bound = int ?b" using 1(5) by (simp add: uint_nat)
    have st: "store signd w (int i) = int i" using 1(2) U assms(5) by (intro store_small) auto
    have "int ?n + int c < upper signd w" using 1(4) U by (auto simp: max_def split: if_splits)
    then obtain ivs final where r: "run_for signd w lc (int i) = Some (ivs, final)"
      "set ivs = {v. int i \<le> v \<and> v \<le> int ?n \<and> int c dvd v - int i}"
      using run_up[of lc w signd "int i"] 1(1,3) assms(5) by auto
    have bn: "int ?b \<le> int ?n" using le by (rule of_nat_mono)
    then have mem: "int ?b \<in> set ivs" unfolding r(2) by simp
    have up: "v \<le> int ?b" if "v \<in> set ivs" for v
    proof -
      obtain q where q: "v = int i + int c * q" using \<open>v \<in> set ivs\<close> unfolding r(2) by (auto simp: dvd_def algebra_simps)
      have "q \<le> int ((?n - i) div c)"
      proof (rule ccontr)
        assume "\<not> q \<le> int ((?n - i) div c)"
        then have "int c * (int ((?n - i) div c) + 1) \<le> int c * q" using 1(3) by (intro mult_left_mono) auto
        moreover have "?n - i < c * ((?n - i) div c + 1)" using 1(3) dividend_less_times_div[of c "?n - i"] by simp
        then have "int (?n - i) < int (c * ((?n - i) div c + 1))" by (simp only: of_nat_less_iff)
        ultimately have "int (?n - i) < int c * q" by (simp add: algebra_simps)
        then show False using \<open>v \<in> set ivs\<close> 1(2) unfolding r(2) q by simp
      qed
      then have "int c * q \<le> int c * int ((?n - i) div c)" by (intro mult_left_mono) auto
      then show ?thesis unfolding q by (simp add: algebra_simps)
    qed
    have run: "run_loop signd w lc = Some (ivs, final)" using r(1) st 1(1) by (simp add: run_loop_def)
    have lo: "0 \<le> v" if "v \<in> set ivs" for v using that unfolding r(2) by simp
    have "int ?b < int len" using bn assms(2) by simp
    moreover have "ivs \<noteq> []" using mem by auto
    ultimately show ?thesis unfolding ub using run mem up lo by blast
  next
    case (2 i l c)
    have ub: "uint bound = int i" using 2(6) by (simp add: uint_nat)
    have U1: "2 * int ?n + 2 \<le> upper True w" using U 2(7) by simp
    have st: "store True w (int i) = int i" using 2(3) U1 assms(5) by (intro store_small) auto
    have "int c < upper True w" using 2(5) U1 by (auto simp: max_def split: if_splits)
    then obtain ivs final where r: "run_for True w lc (int i) = Some (ivs, final)"
      "set ivs = {v. int l \<le> v \<and> v \<le> int i \<and> int c dvd int i - v}"
      using run_down[of lc w "int i"] 2(1,3,4) U1 assms(5) by auto
    have mem: "int i \<in> set ivs" unfolding r(2) using 2(2) by simp
    then have "ivs \<noteq> []" by auto
    moreover have "run_loop signd w lc = Some (ivs, final)" using r(1) st 2(1,7) by (simp add: run_loop_def)
    moreover have "int i < int len" using 2(3) assms(2) by simp
    moreover have "0 \<le> v \<and> v \<le> int i" if "v \<in> set ivs" for v using that unfolding r(2) by auto
    ultimately show ?thesis unfolding ub using mem by blast
  qed
qed

lemma coin_or_upto_total: "\<exists>i t. coin_or_upto fixed n f s = Some (i, t)"
proof -
  obtain b s1 where b: "pure_rnd_flipcoin 50 None s = Some (b, s1)" using pure_rnd_flipcoin_total[of 50 s] by auto
  obtain k s2 where "pure_rnd_upto n None None s1 = Some (k, s2)" using pure_rnd_upto_total[of n None s1] by blast
  then show ?thesis using b by (simp add: coin_or_upto_def)
qed

lemma make_random_array_control_total:
  "\<exists>bound lc s'. make_random_array_control n signd s = Some (bound, lc, s')"
proof -
  obtain up s1 where up: "(if signd then rnd_flipcoin 50 None s else Some (True, s)) = Some (up, s1)"
    using rnd_flipcoin_total[of 50 None s] by (cases signd) auto
  obtain i2 s2 where 2: "coin_or_upto 0 (unat (n div 2)) int s1 = Some (i2, s2)" using coin_or_upto_total by blast
  obtain i3 s3 where 3: "coin_or_upto 1 (unat (n div 4)) int s2 = Some (i3, s3)" using coin_or_upto_total by blast
  obtain j2 t2 where 4: "coin_or_upto (sint n) (unat (n div 2)) (\<lambda>k. sint (n - of_nat k)) s1 = Some (j2, t2)"
    using coin_or_upto_total by blast
  obtain j3 t3 where 5: "coin_or_upto 0 (unat (n div 2)) int t2 = Some (j3, t3)" using coin_or_upto_total by blast
  obtain j4 t4 where 6: "coin_or_upto 1 (unat (n div 4)) int t3 = Some (j4, t4)" using coin_or_upto_total by blast
  show ?thesis
    unfolding make_random_array_control_def up by (cases up) (simp_all add: 2 3 4 5 6 Let_def)
qed

text \<open>C16: a loop that traverses an array ends and stays inside it.  Whatever the random choices, a loop is
  generated over an array dimension of \<open>len\<close> elements; with a control variable wide enough (twice
  the length fits its type) the loop ends; its body is entered at least once; every value the variable
  has in the body is an index of the dimension; and the largest of them is exactly the bound that the
  code records for the variable.\<close>

theorem make_random_array_control_correct:
  assumes "0 < len" "len < 2 ^ 31" "2 * int len \<le> upper signd w" "0 < w"
  shows "\<exists>bound lc s' ivs final. make_random_array_control (of_nat len - 1) signd s = Some (bound, lc, s') \<and>
    run_loop signd w lc = Some (ivs, final) \<and> ivs \<noteq> [] \<and>
    (\<forall>v \<in> set ivs. 0 \<le> v \<and> v \<le> uint bound) \<and> uint bound \<in> set ivs \<and> uint bound < int len"
proof -
  obtain bound lc s' where m: "make_random_array_control (of_nat len - 1) signd s = Some (bound, lc, s')"
    using make_random_array_control_total by blast
  then show ?thesis using array_control_inside[OF m assms] by blast
qed

lemma make_random_array_control_correct_witness:
  "\<exists>bound lc s' ivs final. make_random_array_control (of_nat 10 - 1) True (rng_of [1, 2, 3, 4]) = Some (bound, lc, s') \<and>
    run_loop True 8 lc = Some (ivs, final) \<and> ivs \<noteq> [] \<and>
    (\<forall>v \<in> set ivs. 0 \<le> v \<and> v \<le> uint bound) \<and> uint bound \<in> set ivs \<and> uint bound < int 10"
  by (rule make_random_array_control_correct) (simp_all add: upper_def)

text \<open>The other loops need not end, although a comment in the source says that the limit can be reached without
  wrap-around: \<open>for (i = 3; i >= 1; i -= 2)\<close> is generated for an unsigned variable, which only takes
  odd values.\<close>

definition endless_control :: loop_control where
  "endless_control = \<lparr>lc_init = 3, lc_limit = 1, lc_incr = 2, lc_test = eCmpGe, lc_op = eSubAssign\<rparr>"

lemma retry_none: "retry n None d x s = Some (x, s)"
  by (subst retry.simps) (simp add: rejects_def)

lemma endless_control_generated:
  "map_option fst (make_random_loop_control (default_settings cgoptions_zero) False (rng_of [60, 33, 0, 3, 10, 2])) =
     Some endless_control"
  by (simp add: make_random_loop_control_def coin_or_upto_def pure_rnd_upto_def rnd_upto_def pure_rnd_flipcoin_def
      rnd_flipcoin_def genrand_def rng_of_def retry_none Let_def endless_control_def default_settings_def s32_u32 INT_MIN_def INT_MAX_def)

lemma run_for_endless:
  assumes "run_for False w endless_control iv = Some r" "0 < w" "0 \<le> iv"
  shows "even iv"
proof -
  let ?P = "\<lambda>signd w lc iv (r :: int list \<times> int). \<not> signd \<longrightarrow> 0 < w \<longrightarrow> lc = endless_control \<longrightarrow> 0 \<le> iv \<longrightarrow> even (iv :: int)"
  have "?P False w endless_control iv r"
  proof (rule run_for.raw_induct[where P = ?P, OF _ assms(1)], intro impI, goal_cases)
    case (1 f signd w lc iv r)
    note a = 1(3-6)
    have tl: "test_limit False w 1 = 1" using a(2) by (intro test_limit_small) (auto simp: upper_def one_less_power)
    show "even iv"
    proof (cases "iv \<ge> 1")
      case True
      then obtain q where "f False w lc (store False w (iv - 2)) = Some q"
        using 1(2) a tl by (auto simp: endless_control_def bind_eq_Some_conv)
      then have "even (store False w (iv - 2))" using 1(1) a by (auto simp: store_def)
      then show ?thesis using a(2) by (simp add: store_def dvd_mod_iff)
    next
      case False
      then have "iv = 0" using a(4) by linarith
      then show ?thesis by simp
    qed
  qed
  then show ?thesis using assms(2,3) by blast
qed

lemma endless_loop:
  assumes "1 < w"
  shows "run_loop False w endless_control = None"
proof -
  have "(2::int) ^ 2 \<le> 2 ^ w" using assms by (intro power_increasing) auto
  then have "store False w 3 = 3" by (intro store_id) (use assms in auto)
  then show ?thesis
    using assms run_for_endless[of w 3] by (cases "run_for False w endless_control 3") (auto simp: run_loop_def endless_control_def)
qed

section \<open>Members inside the array\<close>

text \<open>The value of an index expression, given the values of the induction variables.\<close>

fun index_value :: "(variable \<Rightarrow> int) \<Rightarrow> expr \<Rightarrow> int option" where
  "index_value env (EVar v t) = Some (env v)"
| "index_value env (EConst t str) = Some (stream_dec str)"
| "index_value env (EPrim op t [a, b]) = (if op = eBinaryPrim eAdd
     then do { x \<leftarrow> index_value env a; y \<leftarrow> index_value env b; Some (x + y) } else None)"
| "index_value env _ = None"

definition inside :: "(variable \<Rightarrow> int) \<Rightarrow> expr list \<Rightarrow> nat list \<Rightarrow> bool" where
  "inside env es ns \<longleftrightarrow> list_all2 (\<lambda>e n. \<exists>i. index_value env e = Some i \<and> 0 \<le> i \<and> i < int n) es ns"

text \<open>Every loop whose bound is known keeps its variable between 0 and the bound.\<close>

definition ivs_in_bounds :: "(variable \<Rightarrow> int) \<Rightarrow> (variable \<times> 32 word) list \<Rightarrow> bool" where
  "ivs_in_bounds env ivs \<longleftrightarrow> (\<forall>(iv, b) \<in> set ivs. b \<noteq> INVALID_BOUND \<longrightarrow> 0 \<le> env iv \<and> env iv \<le> uint b)"

lemma insert_by_name_set [simp]: "set (insert_by_name pr v us) = insert v (set us)"
  by (induction us) auto

lemma ok_ivs_mem: "v \<in> set (ok_ivs E n ivs) \<longleftrightarrow> (\<exists>b. (v, b) \<in> set ivs \<and> usable_iv (ve_opts E) n v b)"
proof -
  have "set (fold (\<lambda>(iv, bound) oks. if usable_iv (ve_opts E) n iv bound then insert_by_name (ve_printer E) iv oks else oks) ivs acc) =
      set acc \<union> {v. \<exists>b. (v, b) \<in> set ivs \<and> usable_iv (ve_opts E) n v b}" for acc
  proof (induction ivs arbitrary: acc)
    case (Cons p ivs)
    obtain u b where "p = (u, b)" by (cases p)
    then show ?case using Cons.IH by (cases "usable_iv (ve_opts E) n u b") auto
  qed simp
  then show ?thesis by (simp add: ok_ivs_def)
qed

lemma stream_dec_show [simp]: "stream_dec (show_nat n) = int n"
proof -
  have d: "\<forall>c \<in> set (show_nat n). is_digit c" using show_nat_digits by blast
  have t: "takeWhile is_digit (show_nat n) = show_nat n" using d by (simp only: takeWhile_eq_all_conv)
  have "take 1 (show_nat n) \<noteq> ''-''"
  proof
    assume "take 1 (show_nat n) = ''-''"
    then have "CHR ''-'' \<in> set (show_nat n)" by (metis in_set_takeD list.set_intros(1))
    then have "is_digit (CHR ''-'')" using d by blast
    then show False by (simp add: is_digit_def)
  qed
  then show ?thesis unfolding stream_dec_def t by (simp add: Let_def)
qed

text \<open>The control variables are no arrays, so that the draw among them takes one of them.\<close>

definition scalar_ivs :: "(variable \<times> 32 word) list \<Rightarrow> bool" where
  "scalar_ivs ivs \<longleftrightarrow> distinct (map fst ivs) \<and> (\<forall>(iv, b) \<in> set ivs. \<not> isArray iv)"

lemma choose_scalar:
  assumes "choose_ok_var vid vars r = Some (Some v, r1)" "\<forall>u \<in> set vars. \<not> isArray u"
  shows "v \<in> set vars"
proof -
  obtain u r2 where u: "random_var vars r = Some (Some u, r2)" "take_member vid u r2 = Some (v, r1)"
    using assms(1) by (auto simp: choose_ok_var_def bind_eq_Some_conv split: option.splits)
  have "u \<in> set vars" using random_var_SomeD[OF u(1)] .
  moreover have "\<not> isArray u" using calculation assms(2) by blast
  then have "v = u" using u(2) by (cases u) (auto simp: take_member_def)
  ultimately show ?thesis by simp
qed

lemma itemize_indices_inside:
  assumes "scalar_ivs ivs" "ivs_in_bounds env ivs"
  shows "itemize_indices E vid ns ivs r = Some (Some es, ivs1, r1) \<Longrightarrow> \<forall>n \<in> set ns. n < 2 ^ 32 \<Longrightarrow>
    inside env es ns \<and> ivs1 = ivs"
proof (induction ns arbitrary: r es ivs1 r1)
  case (Cons n ns)
  obtain iv r2 where iv: "choose_ok_var vid (ok_ivs E n ivs) r = Some (Some iv, r2)"
    using Cons.prems(1) by (auto simp: bind_eq_Some_conv split: option.splits)
  have "\<forall>u \<in> set (ok_ivs E n ivs). \<not> isArray u" using assms(1) by (auto simp: ok_ivs_mem scalar_ivs_def)
  then obtain b where b: "(iv, b) \<in> set ivs" "usable_iv (ve_opts E) n iv b"
    using choose_scalar[OF iv] by (auto simp: ok_ivs_mem)
  then have "map_of ivs iv = Some b" using assms(1) by (simp add: scalar_ivs_def map_of_eq_Some_iff)
  then have bo: "bound_of ivs iv = (b, ivs)" by (simp add: bound_of_def)
  obtain t off r3 rest where off: "(if of_nat n - b > 1 then rnd_upto (unat (of_nat n - b)) None None r2 else Some (0, r2)) = Some (off, r3)"
    and rest: "itemize_indices E vid ns ivs r3 = Some (Some rest, ivs1, r1)"
    and es: "es = (if off \<noteq> 0 then EPrim (eBinaryPrim eAdd) (add_type t) [EVar iv t, index_const off] else EVar iv t) # rest"
    using Cons.prems(1) iv bo by (auto simp: bind_eq_Some_conv Let_def)
  have n: "n < 2 ^ 32" using Cons.prems(2) by simp
  have bn: "b < of_nat n" "b \<noteq> INVALID_BOUND" using b(2) by (simp_all add: usable_iv_def)
  have un: "unat (of_nat n :: 32 word) = n" using n by (simp add: unat_of_nat take_bit_nat_eq_self)
  then have ub: "unat b < n" using bn(1) by (simp add: word_less_nat_alt)
  have ud: "unat (of_nat n - b) = n - unat b"
    using bn(1) un by (simp add: unat_sub order.strict_implies_order)
  have offb: "off < n - unat b"
  proof (cases "of_nat n - b > (1 :: 32 word)")
    case True
    then show ?thesis using off rnd_upto_SomeD(1)[of "unat (of_nat n - b)" None None r2 off r3] ud by simp
  qed (use off ub in simp)
  have env: "0 \<le> env iv" "env iv \<le> uint b"
    using assms(2) b(1) bn(2) unfolding ivs_in_bounds_def by blast+
  have "uint b = int (unat b)" by simp
  then have "env iv + int off < int n" using env(2) offb by linarith
  then have "\<exists>i. index_value env (hd es) = Some i \<and> 0 \<le> i \<and> i < int n"
    using env(1) es by (auto simp: index_const_def)
  then show ?case using Cons.IH[OF rest] Cons.prems(2) es by (simp add: inside_def)
qed (simp add: inside_def)

lemma scalar_ivs_update:
  assumes "scalar_ivs ivs" "\<not> isArray iv"
  shows "scalar_ivs (AList.update iv bound ivs)"
proof -
  have d: "distinct (map fst (AList.update iv bound ivs))" using assms(1) by (simp add: scalar_ivs_def distinct_update)
  have "\<not> isArray u" if "(u, b) \<in> set (AList.update iv bound ivs)" for u b
  proof -
    have "map_of (AList.update iv bound ivs) u = Some b" using that d by simp
    then have "u = iv \<or> map_of ivs u = Some b" by (auto simp: update_conv' split: if_splits)
    then show ?thesis using assms by (auto simp: scalar_ivs_def dest!: map_of_SomeD)
  qed
  then show ?thesis using d unfolding scalar_ivs_def by blast
qed

lemma ivs_in_bounds_update:
  assumes "scalar_ivs ivs" "ivs_in_bounds env ivs" "0 \<le> v" "v \<le> uint bound"
  shows "ivs_in_bounds (env(iv := v)) (AList.update iv bound ivs)"
proof -
  have d: "distinct (map fst (AList.update iv bound ivs))" using assms(1) by (simp add: scalar_ivs_def distinct_update)
  have "0 \<le> (env(iv := v)) u \<and> (env(iv := v)) u \<le> uint b"
    if "(u, b) \<in> set (AList.update iv bound ivs)" "b \<noteq> INVALID_BOUND" for u b
  proof -
    have m: "map_of (AList.update iv bound ivs) u = Some b" using that(1) d by simp
    show ?thesis
    proof (cases "u = iv")
      case False
      then have "(u, b) \<in> set ivs" using m by (auto simp: update_conv' dest!: map_of_SomeD)
      then show ?thesis using assms(2) that(2) False unfolding ivs_in_bounds_def by auto
    qed (use m assms(3,4) in \<open>simp add: update_conv'\<close>)
  qed
  then show ?thesis unfolding ivs_in_bounds_def by blast
qed

lemma itemize_array_SomeD:
  assumes "itemize_array E vid av c r = Some (Some item, c', r')"
  shows "\<exists>es ivs blk. itemize_indices E vid (array_sizes_of av) (iv_bounds c) r = Some (Some es, ivs, r') \<and>
    itemize_with vid av es blk = Some item"
  using assms by (auto simp: itemize_array_def bind_eq_Some_conv split: if_splits option.splits)

text \<open>C12: the members that loops index stay inside the array.  Let the variables of the enclosing loops with a
  recorded bound lie between 0 and that bound, and let a loop over a dimension of \<open>len\<close> elements
  be generated inside them.  That loop ends, and in every iteration of it the indices of a member that
  its body gets by \<open>itemize_array\<close>, for whatever array, lie inside the dimensions of that array,
  with the random offsets added.\<close>

theorem itemize_array_inside:
  assumes "make_random_array_control (of_nat len - 1) signd s = Some (bound, lc, s')"
    and "0 < len" "len < 2 ^ 31" "2 * int len \<le> upper signd w" "0 < w"
    and "itemize_array E vid av (loop_context c d (Some iv) bound) r = Some (Some item, c', r')"
    and "scalar_ivs (iv_bounds c)" "\<not> isArray iv" "ivs_in_bounds env (iv_bounds c)"
    and "\<forall>n \<in> set (array_sizes_of av). n < 2 ^ 32" "is_collective av"
  shows "\<exists>ivs final. run_loop signd w lc = Some (ivs, final) \<and>
    (\<forall>v \<in> set ivs. inside (env(iv := v)) (get_indices item) (array_sizes_of av))"
proof -
  let ?ivs = "AList.update iv bound (iv_bounds c)"
  have ctx: "iv_bounds (loop_context c d (Some iv) bound) = ?ivs" by (simp add: loop_context_def)
  obtain es ivs1 blk where es: "itemize_indices E vid (array_sizes_of av) ?ivs r = Some (Some es, ivs1, r')"
    "itemize_with vid av es blk = Some item"
    using itemize_array_SomeD[OF assms(6)] by (auto simp: ctx)
  have len: "length es = length (array_sizes_of av)" and ins: "inside (env(iv := v)) es (array_sizes_of av)"
    if "0 \<le> v" "v \<le> uint bound" for v
    using itemize_indices_inside[OF scalar_ivs_update[OF assms(7,8)] ivs_in_bounds_update[OF assms(7,9) that] es(1) assms(10)]
    by (auto simp: inside_def dest: list_all2_lengthD)
  obtain ivs final where run: "run_loop signd w lc = Some (ivs, final)" "\<forall>v \<in> set ivs. 0 \<le> v \<and> v \<le> uint bound"
    using array_control_inside[OF assms(1-5)] by blast
  have "get_indices item = es" if "v \<in> set ivs" for v
    using es(2) assms(11) len[of v] run(2) that
    by (cases av) (auto simp: is_collective_def split: option.splits if_splits elim!: itemize_with.elims)
  then show ?thesis using run ins by metis
qed

text \<open>A loop over 3 elements indexes an array of 5: whatever offset is drawn, the loop stays inside.\<close>

definition in_block :: cgcontext where
  "in_block = function_context (Some \<lparr>f_params = [], f_rv = f_rv no_params, f_blocks = [], gf_id = 1,
     gf_stack = [\<lparr>sc_params = [], sc_chain = [(7, [])]\<rparr>]\<rparr>) empty_effect (Some empty_effect)"

definition five_ints :: variable where
  "five_ints = Arr \<lparr>vi_id = 30, vi_name = ''l_30'', vi_type = Some (TSimple eInt), vi_qfer = cvq_new [False] [False],
     vi_expanded = False\<rparr> None [] None None (Some 7) [5] []"

lemma three_elements_loop:
  "\<exists>s. make_random_array_control (of_nat 3 - 1) False t = Some (2,
     \<lparr>lc_init = 0, lc_limit = 2, lc_incr = 1, lc_test = eCmpLe, lc_op = eAddAssign\<rparr>, s)"
proof -
  have d: "unat ((2 :: 32 word) div 2) = 1" "unat ((2 :: 32 word) div 4) = 0" by simp_all
  obtain i t1 where 1: "coin_or_upto 0 1 int t = Some (i, t1)" using coin_or_upto_total by blast
  then have i: "i = 0" using coin_or_upto_SomeD by fastforce
  obtain k t2 where 2: "coin_or_upto 1 0 int t1 = Some (k, t2)" using coin_or_upto_total by blast
  then have "k = 1 \<or> k = 0" using coin_or_upto_SomeD by fastforce
  then show ?thesis using 1 2 i by (auto simp: make_random_array_control_def d Let_def)
qed

lemma itemize_five:
  "\<exists>item c' r'. itemize_array sample_env 40 five_ints (loop_context in_block None (Some int_var) 2) r = Some (Some item, c', r')"
proof -
  have ivs: "iv_bounds (loop_context in_block None (Some int_var) 2) = [(int_var, 2)]"
    by (simp add: loop_context_def in_block_def function_context_def)
  have ok: "ok_ivs sample_env 5 [(int_var, 2)] = [int_var]" by code_simp
  have ch: "choose_ok_var 40 [int_var] r = Some (Some int_var, r)"
    by (simp add: choose_ok_var_def random_var_def take_member_def int_var_def plain_var_def)
  have bo: "bound_of [(int_var, 2)] int_var = (2, [(int_var, 2)])" by (simp add: bound_of_def)
  obtain off r1 where off: "rnd_upto 3 None None r = Some (off, r1)"
    using pure_rnd_upto_total[of 3 None r] by (auto simp: pure_rnd_upto_def)
  have ty: "vtype int_var = Some (TSimple eInt)" by code_simp
  have sz: "array_sizes_of five_ints = [5]" by (simp add: five_ints_def)
  obtain es where "itemize_indices sample_env 40 [5] [(int_var, 2)] r = Some (Some es, [(int_var, 2)], r1)" "length es = 1"
    using off by (simp add: ok ch bo ty Let_def)
  moreover have "get_current_block (loop_context in_block None (Some int_var) 2) = Some \<lparr>sc_params = [], sc_chain = [(7, [])]\<rparr>"
    by (simp add: loop_context_def in_block_def function_context_def get_current_block_def)
  ultimately show ?thesis
    by (simp add: itemize_array_def ivs sz) (simp add: five_ints_def)
qed

lemma itemize_array_inside_witness:
  "\<exists>lc s' item c' r' ivs final. make_random_array_control (of_nat 3 - 1) False (rng_of []) = Some (2, lc, s') \<and>
     itemize_array sample_env 40 five_ints (loop_context in_block None (Some int_var) 2) (rng_of [4]) = Some (Some item, c', r') \<and>
     run_loop False 8 lc = Some (ivs, final) \<and>
     (\<forall>v \<in> set ivs. inside ((\<lambda>_. 0)(int_var := v)) (get_indices item) [5])"
proof -
  obtain lc s' where m: "make_random_array_control (of_nat 3 - 1) False (rng_of []) = Some (2, lc, s')"
    using three_elements_loop by blast
  obtain item c' r' where it: "itemize_array sample_env 40 five_ints (loop_context in_block None (Some int_var) 2) (rng_of [4]) =
      Some (Some item, c', r')" using itemize_five by blast
  have iv: "iv_bounds in_block = []" "\<not> isArray int_var" by (simp_all add: in_block_def function_context_def int_var_def plain_var_def)
  have av: "array_sizes_of five_ints = [5]" "is_collective five_ints" by (simp_all add: five_ints_def is_collective_def)
  have "\<exists>ivs final. run_loop False 8 lc = Some (ivs, final) \<and>
      (\<forall>v \<in> set ivs. inside ((\<lambda>_. 0)(int_var := v)) (get_indices item) (array_sizes_of five_ints))"
    by (rule itemize_array_inside[OF m _ _ _ _ it])
      (simp_all add: upper_def iv av scalar_ivs_def ivs_in_bounds_def)
  then show ?thesis using m it av(1) by auto
qed

end
