(* ===== verification/Threads.thy ===== *)
theory Threads
  imports Arrays TypeGen
begin

text \<open>
  The threads of a generated kernel (CLSmith/CLProgramGenerator.cpp, StatementComm.cpp, ExpressionID.cpp,
  ExpressionAtomic.cpp, StatementAtomicReduction.cpp): the random numbers of threads and groups, the
  expressions by which the threads communicate through permutations, the counters of atomic sections
  and the atomic reductions, and what they mean when the threads run.
\<close>

section \<open>Dimensions\<close>

definition max_threads :: nat where "max_threads = 10000"
definition max_thr_per_dim :: nat where "max_thr_per_dim = 100"
definition max_threads_per_group :: nat where "max_threads_per_group = 256"
definition no_dims :: nat where "no_dims = 3"

text \<open>\<open>i < sqrt(val)\<close> compares exactly for the small numbers in question: it is \<open>i * i < val\<close>.\<close>

function divisor_loop :: "nat \<Rightarrow> nat \<Rightarrow> nat list" where
  "divisor_loop val i =
    (if i * i < val then (if val mod i = 0 then [i, val div i] else []) @ divisor_loop val (i + 1)
     else if i * i = val then [i] else [])"
  by auto
termination
proof (relation "measure (\<lambda>(val, i). val - i)")
  fix val i :: nat
  assume "i * i < val"
  moreover have "i \<le> i * i" by simp
  ultimately have "i < val" by linarith
  then show "((val, i + 1), (val, i)) \<in> measure (\<lambda>(val, i). val - i)" by simp
qed simp

definition get_divisors :: "nat \<Rightarrow> nat list" where
  "get_divisors val = [1, val] @ divisor_loop val 2"

record runtime =
  noThreads :: nat
  noGroups :: nat
  globalDim :: "nat list"
  localDim :: "nat list"

fun global_dims :: "nat \<Rightarrow> nat \<Rightarrow> rng \<Rightarrow> (nat list \<times> nat \<times> rng) option" where
  "global_dims 0 threads s = Some ([], threads, s)"
| "global_dims (Suc n) threads s = do {
     (k, s1) \<leftarrow> rnd_upto (min max_thr_per_dim (max_threads div threads)) None None s;
     (ds, tot, s2) \<leftarrow> global_dims n (threads * (k + 1)) s1;
     Some ((k + 1) # ds, tot, s2) }"

fun local_dims :: "nat list \<Rightarrow> rng \<Rightarrow> (nat list \<times> rng) option" where
  "local_dims [] s = Some ([], s)"
| "local_dims (g # gs) s = do {
     (k, s1) \<leftarrow> rnd_upto (length (get_divisors g)) None None s;
     (ds, s2) \<leftarrow> local_dims gs s1;
     Some (get_divisors g ! k # ds, s2) }"

partial_function (option) choose_local_dims :: "nat list \<Rightarrow> rng \<Rightarrow> (nat list \<times> rng) option" where
  "choose_local_dims gs s = do {
     (ds, s1) \<leftarrow> local_dims gs s;
     if prod_list ds > max_threads_per_group then choose_local_dims gs s1 else Some (ds, s1) }"

definition InitRuntimeParameters :: "rng \<Rightarrow> (runtime \<times> rng) option" where
  "InitRuntimeParameters s = do {
     (gs, threads, s1) \<leftarrow> global_dims no_dims 1 s;
     (ls, s2) \<leftarrow> choose_local_dims gs s1;
     Some (\<lparr>noThreads = threads, noGroups = prod_list (map2 (div) gs ls), globalDim = gs, localDim = ls\<rparr>, s2) }"

definition get_total_threads :: "runtime \<Rightarrow> nat" where
  "get_total_threads p = noThreads p * noGroups p"

definition get_threads_per_group :: "runtime \<Rightarrow> nat" where
  "get_threads_per_group p = noThreads p div noGroups p"

text \<open>The divisors are listed without omission.\<close>

lemma dvd_div_mult: "(d :: nat) dvd val \<Longrightarrow> d * (val div d) = val"
  by simp

lemma divisor_loop_set: "1 \<le> i \<Longrightarrow> set (divisor_loop val i) = {d. d dvd val \<and> i \<le> d \<and> i \<le> val div d \<and> 0 < val}"
proof (induction val i rule: divisor_loop.induct)
  case (1 val i)
  let ?S = "\<lambda>i. {d. d dvd val \<and> i \<le> d \<and> i \<le> val div d \<and> 0 < val}"
  consider "i * i < val" | "i * i = val" | "val < i * i" by linarith
  then show ?case
  proof cases
    case 1
    have "?S i = (if i dvd val then {i, val div i} else {}) \<union> ?S (i + 1)"
    proof (intro equalityI subsetI)
      fix d assume d: "d \<in> ?S i"
      then have m: "d * (val div d) = val" by simp
      show "d \<in> (if i dvd val then {i, val div i} else {}) \<union> ?S (i + 1)"
      proof (cases "d = i \<or> val div d = i")
        case True
        then have "i dvd val \<and> (d = i \<or> d = val div i)"
        proof
          assume e: "val div d = i"
          then have "val = d * i" using m by simp
          then show ?thesis using "1.prems" by simp
        qed (use d in simp)
        then show ?thesis by auto
      qed (use d in auto)
    next
      fix d assume d: "d \<in> (if i dvd val then {i, val div i} else {}) \<union> ?S (i + 1)"
      have "d \<in> ?S i" if "i dvd val" "d = i \<or> d = val div i"
      proof -
        have m: "i * (val div i) = val" using that(1) by simp
        then have "i < val div i" using 1 by (metis mult_less_cancel1)
        moreover have "val div i dvd val" using m by (metis dvd_triv_right)
        moreover have "val div (val div i) = i" using m calculation(1) by (metis div_mult_self_is_m gr_implies_not0 not_gr_zero)
        ultimately show ?thesis using that 1 by auto
      qed
      then show "d \<in> ?S i" using d by (auto split: if_splits)
    qed
    then show ?thesis using "1.IH" "1.prems" 1 by (auto simp: mod_eq_0_iff_dvd)
  next
    case 2
    have "d = i" if "d dvd val" "i \<le> d" "i \<le> val div d" for d
    proof (rule ccontr)
      assume "d \<noteq> i"
      then have "i < d" using that(2) by simp
      then have "i * i < d * (val div d)" using that(3) "1.prems" by (intro mult_less_le_imp_less) auto
      then show False using that(1) 2 by simp
    qed
    moreover have "i dvd val" "val div i = i" "0 < val" using 2 "1.prems" by auto
    ultimately show ?thesis using 2 by auto
  next
    case 3
    have False if "d dvd val" "i \<le> d" "i \<le> val div d" for d
    proof -
      have "i * i \<le> d * (val div d)" using that by (intro mult_le_mono)
      then show False using that(1) 3 by simp
    qed
    then show ?thesis using 3 by auto
  qed
qed

lemma get_divisors_set: "0 < val \<Longrightarrow> set (get_divisors val) = {d. d dvd val}"
proof -
  assume v: "0 < val"
  have "d = 1 \<or> d = val" if "d dvd val" "\<not> (2 \<le> d \<and> 2 \<le> val div d)" for d
  proof -
    have m: "d * (val div d) = val" using that(1) by simp
    have "d \<noteq> 0" "val div d \<noteq> 0" using m v by (auto intro: ccontr)
    then have "d = 1 \<or> val div d = 1" using that(2) by linarith
    then show ?thesis using m by auto
  qed
  then show ?thesis using v by (auto simp: get_divisors_def divisor_loop_set simp del: divisor_loop.simps)
qed

lemma global_dims_SomeD:
  "global_dims n threads s = Some (ds, tot, s1) \<Longrightarrow> 0 < threads \<Longrightarrow> threads \<le> max_threads \<Longrightarrow>
    length ds = n \<and> tot = threads * prod_list ds \<and> tot \<le> max_threads \<and> (\<forall>d \<in> set ds. 1 \<le> d \<and> d \<le> max_thr_per_dim)"
proof (induction n arbitrary: threads s ds tot s1)
  case (Suc n)
  obtain k r rest where k: "rnd_upto (min max_thr_per_dim (max_threads div threads)) None None s = Some (k, r)"
    and rest: "global_dims n (threads * (k + 1)) r = Some (rest, tot, s1)" and ds: "ds = (k + 1) # rest"
    using Suc.prems(1) by (auto simp: bind_eq_Some_conv)
  have b: "k + 1 \<le> max_thr_per_dim" "k + 1 \<le> max_threads div threads" using rnd_upto_SomeD(1)[OF k] by auto
  then have "threads * (k + 1) \<le> threads * (max_threads div threads)" by (intro mult_left_mono) auto
  also have "... \<le> max_threads" by simp
  finally have "threads * (k + 1) \<le> max_threads" .
  then show ?case using Suc.IH[OF rest] Suc.prems(2) b(1) ds by (simp add: algebra_simps)
qed simp

lemma local_dims_SomeD:
  "local_dims gs s = Some (ls, s1) \<Longrightarrow> \<forall>g \<in> set gs. 0 < g \<Longrightarrow> list_all2 (dvd) ls gs"
proof (induction gs arbitrary: s ls s1)
  case (Cons g gs)
  obtain k r rest where k: "rnd_upto (length (get_divisors g)) None None s = Some (k, r)"
    and rest: "local_dims gs r = Some (rest, s1)" and ls: "ls = get_divisors g ! k # rest"
    using Cons.prems(1) by (auto simp: bind_eq_Some_conv)
  have "get_divisors g ! k \<in> set (get_divisors g)" using rnd_upto_SomeD(1)[OF k] by simp
  then have "get_divisors g ! k dvd g" using Cons.prems(2) by (simp add: get_divisors_set)
  then show ?case using Cons.IH[OF rest] Cons.prems(2) ls by simp
qed simp

lemma choose_local_dims_SomeD:
  assumes "choose_local_dims gs s = Some (ls, s1)" "\<forall>g \<in> set gs. 0 < g"
  shows "list_all2 (dvd) ls gs \<and> prod_list ls \<le> max_threads_per_group"
proof -
  let ?P = "\<lambda>gs s (y :: nat list \<times> rng). (\<forall>g \<in> set gs. 0 < g) \<longrightarrow> list_all2 (dvd) (fst y) gs \<and> prod_list (fst y) \<le> max_threads_per_group"
  have "?P gs s (ls, s1)"
  proof (rule choose_local_dims.raw_induct[where P = ?P, OF _ assms(1)], intro impI, goal_cases)
    case (1 ch gs s y)
    from 1(2) obtain ds s1 where ds: "local_dims gs s = Some (ds, s1)"
      "(if prod_list ds > max_threads_per_group then ch gs s1 else Some (ds, s1)) = Some y"
      by (auto simp: bind_eq_Some_conv)
    show ?case
    proof (cases "prod_list ds > max_threads_per_group")
      case True
      then show ?thesis using 1(1)[of gs s1 y] ds(2) 1(3) by simp
    next
      case False
      then show ?thesis using local_dims_SomeD[OF ds(1) 1(3)] ds(2) by auto
    qed
  qed
  then show ?thesis using assms(2) by simp
qed

lemma prod_list_quotients:
  "list_all2 (dvd) ls gs \<Longrightarrow> prod_list (map2 (div) gs ls) * prod_list ls = (prod_list gs :: nat)"
  by (induction rule: list_all2_induct) (auto simp: ac_simps elim!: dvdE)

lemma runtime_consistent:
  assumes "InitRuntimeParameters s = Some (p, s1)"
  shows "length (globalDim p) = 3 \<and> (\<forall>g \<in> set (globalDim p). 1 \<le> g \<and> g \<le> 100) \<and> noThreads p = prod_list (globalDim p) \<and>
    noThreads p \<le> 10000 \<and> list_all2 (dvd) (localDim p) (globalDim p) \<and>
    get_threads_per_group p = prod_list (localDim p) \<and> 1 \<le> get_threads_per_group p \<and> get_threads_per_group p \<le> 256 \<and>
    noGroups p * get_threads_per_group p = noThreads p"
proof -
  obtain r where g: "global_dims no_dims 1 s = Some (globalDim p, noThreads p, r)"
    and l: "choose_local_dims (globalDim p) r = Some (localDim p, s1)"
    and n: "noGroups p = prod_list (map2 (div) (globalDim p) (localDim p))"
    using assms by (auto simp: InitRuntimeParameters_def bind_eq_Some_conv)
  note gd = global_dims_SomeD[OF g]
  have pos: "\<forall>d \<in> set (globalDim p). 0 < d" using gd by (auto simp: max_threads_def)
  note ld = choose_local_dims_SomeD[OF l pos]
  have q: "noGroups p * prod_list (localDim p) = noThreads p"
    using prod_list_quotients[of "localDim p" "globalDim p"] ld gd n by (simp add: max_threads_def)
  have "prod_list ds \<noteq> 0" if "\<forall>d \<in> set ds. 0 < d" for ds :: "nat list" using that by (induction ds) auto
  then have t: "0 < noThreads p" using gd pos by (simp add: max_threads_def)
  then have ng: "0 < noGroups p" "0 < prod_list (localDim p)" using q by (metis gr0I mult_0, metis gr0I mult_0_right)
  then have "get_threads_per_group p = prod_list (localDim p)"
    unfolding get_threads_per_group_def q[symmetric] by simp
  then show ?thesis using gd ld q ng by (auto simp: no_dims_def max_threads_def max_thr_per_dim_def max_threads_per_group_def)
qed

text \<open>C35: the dimensions of the kernel are consistent: there are at most 10000 threads in three dimensions
  of at most 100; in every dimension the size of a group divides the number of threads, so the threads
  form whole groups; a group has at most 256 threads; and the quotient that the generator uses for the
  size of a group is exact.\<close>

theorem InitRuntimeParameters_correct:
  assumes "InitRuntimeParameters s = Some (p, s1)"
  shows "length (globalDim p) = 3 \<and> (\<forall>g \<in> set (globalDim p). 1 \<le> g \<and> g \<le> 100) \<and> noThreads p = prod_list (globalDim p) \<and>
    noThreads p \<le> 10000 \<and> list_all2 (dvd) (localDim p) (globalDim p) \<and>
    get_threads_per_group p = prod_list (localDim p) \<and> 1 \<le> get_threads_per_group p \<and> get_threads_per_group p \<le> 256 \<and>
    noGroups p * get_threads_per_group p = noThreads p"
  by (rule runtime_consistent[OF assms])

lemma InitRuntimeParameters_correct_witness:
  "\<exists>p s1. InitRuntimeParameters (rng_of [3, 5, 1, 0, 0, 0]) = Some (p, s1) \<and> globalDim p = [4, 6, 2] \<and>
     noGroups p * get_threads_per_group p = noThreads p"
proof -
  have d: "get_divisors 4 = [1, 4, 2]" "get_divisors 6 = [1, 6, 2, 3]" "get_divisors (Suc (Suc 0)) = [1, 2]"
    by (simp_all add: get_divisors_def)
  have "map_option (globalDim \<circ> fst) (InitRuntimeParameters (rng_of [3, 5, 1, 0, 0, 0])) = Some [4, 6, 2]"
    unfolding InitRuntimeParameters_def no_dims_def numeral_3_eq_3
    apply (simp add: rnd_upto_def genrand_def retry_None rng_of_def add_number_def seq_add_number_def max_threads_def
        max_thr_per_dim_def Let_def)
    apply (subst choose_local_dims.simps)
    apply (simp add: rnd_upto_def genrand_def retry_None add_number_def seq_add_number_def max_threads_per_group_def d
        Let_def del: divisor_loop.simps)
    done
  then obtain p s1 where "InitRuntimeParameters (rng_of [3, 5, 1, 0, 0, 0]) = Some (p, s1)" "globalDim p = [4, 6, 2]" by auto
  then show ?thesis using InitRuntimeParameters_correct by blast
qed

section \<open>Identifiers\<close>

datatype id_type = kGlobal | kLocal | kGroup | kLinearGlobal | kLinearLocal | kLinearGroup

fun OutputIDType :: "id_type \<Rightarrow> string" where
  "OutputIDType kGlobal = ''global''"
| "OutputIDType kLocal = ''local''"
| "OutputIDType kGroup = ''group''"
| "OutputIDType kLinearGlobal = ''linear_global''"
| "OutputIDType kLinearLocal = ''linear_local''"
| "OutputIDType kLinearGroup = ''linear_group''"

definition ExpressionID_Output :: "cgoptions \<Rightarrow> ctype option \<Rightarrow> id_type \<Rightarrow> nat \<Rightarrow> string" where
  "ExpressionID_Output o1 cast_type i dimension = output_cast o1 cast_type @ ''get_'' @ OutputIDType i @ ''_id('' @
     (if i \<in> {kGlobal, kLocal, kGroup} then show_nat dimension else []) @ '')''"

section \<open>Communication\<close>

definition kPermCount :: nat where "kPermCount = 10"

text \<open>The permutations; \<open>shuffle\<close> is \<open>std::shuffle\<close> with the default engine and a seed.\<close>

fun permute_values :: "(nat \<Rightarrow> nat list \<Rightarrow> nat list) \<Rightarrow> nat \<Rightarrow> nat \<Rightarrow> rng \<Rightarrow> (nat list list \<times> rng) option" where
  "permute_values shuffle perm_size 0 s = Some ([], s)"
| "permute_values shuffle perm_size (Suc k) s = do {
     (seed, s1) \<leftarrow> rnd_upto 65535 None None s;
     (rest, s2) \<leftarrow> permute_values shuffle perm_size k s1;
     Some (shuffle seed [0..<perm_size] # rest, s2) }"

datatype comm_expr = RandExpr | TidVar | IntConst int | IdExpr id_type | Binop binary_op comm_expr comm_expr
  | PermItem comm_expr comm_expr

definition tid_update :: "nat \<Rightarrow> comm_expr" where
  "tid_update gs = Binop eAdd (Binop eMul (IdExpr kLinearGroup) (IntConst (int gs)))
     (PermItem (Binop eMod RandExpr (IntConst 10)) (Binop eMod TidVar (IntConst (int gs))))"

definition tid_init :: "nat \<Rightarrow> comm_expr" where
  "tid_init perm_size = Binop eAdd (Binop eMul (IdExpr kLinearGroup) (IntConst (int perm_size)))
     (PermItem (IntConst 0) (IdExpr kLinearLocal))"

definition global_index :: comm_expr where "global_index = TidVar"

definition local_index :: "nat \<Rightarrow> comm_expr" where
  "local_index perm_size = Binop eMod TidVar (IntConst (int perm_size))"

text \<open>The values of these expressions in the kernel: the wrappers \<open>safe_..._func_uint32_t_u_u\<close> compute with
  unsigned 32-bit numbers, and an index past the end is undefined.\<close>

record work_item =
  wi_group :: nat
  wi_local :: nat
  wi_tid :: "32 word"

fun comm_value :: "nat list list \<Rightarrow> work_item \<Rightarrow> 32 word \<Rightarrow> comm_expr \<Rightarrow> 32 word option" where
  "comm_value perms wi r RandExpr = Some r"
| "comm_value perms wi r TidVar = Some (wi_tid wi)"
| "comm_value perms wi r (IntConst k) = Some (word_of_int k)"
| "comm_value perms wi r (IdExpr i) = (case i of
      kLinearGroup \<Rightarrow> Some (of_nat (wi_group wi))
    | kLinearLocal \<Rightarrow> Some (of_nat (wi_local wi))
    | _ \<Rightarrow> None)"
| "comm_value perms wi r (Binop oper a b) = do {
     x \<leftarrow> comm_value perms wi r a;
     y \<leftarrow> comm_value perms wi r b;
     (case oper of
        eAdd \<Rightarrow> Some (x + y)
      | eMul \<Rightarrow> Some (x * y)
      | eMod \<Rightarrow> Some (if y = 0 then x else x mod y)
      | _ \<Rightarrow> None) }"
| "comm_value perms wi r (PermItem a b) = do {
     i \<leftarrow> comm_value perms wi r a;
     j \<leftarrow> comm_value perms wi r b;
     row \<leftarrow> vec_at perms (unat i);
     k \<leftarrow> vec_at row (unat j);
     Some (of_nat k) }"

text \<open>The identifier of a thread after the communications in which the random expression had the values
  \<open>rs\<close>.\<close>

fun tid_after :: "nat list list \<Rightarrow> nat \<Rightarrow> nat \<Rightarrow> nat \<Rightarrow> 32 word list \<Rightarrow> 32 word option" where
  "tid_after perms n g l [] = comm_value perms \<lparr>wi_group = g, wi_local = l, wi_tid = 0\<rparr> 0 (tid_init n)"
| "tid_after perms n g l (r # rs) = do {
     t \<leftarrow> tid_after perms n g l rs;
     comm_value perms \<lparr>wi_group = g, wi_local = l, wi_tid = t\<rparr> r (tid_update n) }"

lemma permute_values_SomeD:
  "permute_values shuffle n k s = Some (perms, s1) \<Longrightarrow> \<forall>seed xs. mset (shuffle seed xs) = mset xs \<Longrightarrow>
    length perms = k \<and> (\<forall>ps \<in> set perms. mset ps = mset [0..<n])"
proof (induction k arbitrary: s perms s1)
  case (Suc k)
  obtain seed s2 rest where "permute_values shuffle n k s2 = Some (rest, s1)" "perms = shuffle seed [0..<n] # rest"
    using Suc.prems(1) by (auto simp: bind_eq_Some_conv)
  moreover have "mset (shuffle seed [0..<n]) = mset [0..<n]" using Suc.prems(2) by blast
  ultimately show ?case using Suc.IH Suc.prems(2) by simp
qed simp

lemma permutation_bij:
  assumes "mset ps = mset [0..<n]"
  shows "length ps = n" "bij_betw (\<lambda>l. ps ! l) {..<n} {..<n}"
proof -
  show l: "length ps = n" using mset_eq_length[OF assms] by simp
  have "distinct ps" using assms by (metis distinct_upt mset_eq_imp_distinct_iff)
  moreover have "set ps = set [0..<n]" by (rule mset_eq_setD[OF assms])
  then have "set ps = {..<n}" by (simp add: lessThan_atLeast0)
  ultimately show "bij_betw (\<lambda>l. ps ! l) {..<n} {..<n}" using bij_betw_nth[of ps "{..<n}" "{..<n}"] l by blast
qed

lemma word_small: "n < 2 ^ 32 \<Longrightarrow> unat (of_nat n :: 32 word) = n"
  by (simp add: unat_of_nat take_bit_nat_eq_self)

text \<open>One step: a thread with an identifier of its group gets the identifier that the permutation gives it.\<close>

lemma tid_update_value:
  assumes "\<forall>ps \<in> set perms. mset ps = mset [0..<n]" "length perms = 10" "0 < n" "g * n + n < 2 ^ 32" "k < n"
  shows "comm_value perms \<lparr>wi_group = g, wi_local = l, wi_tid = of_nat (g * n + k)\<rparr> r (tid_update n) =
    Some (of_nat (g * n + perms ! unat (r mod 10) ! k))"
proof -
  have i: "unat (r mod 10) < 10" by (simp add: unat_mod)
  then have ps: "mset (perms ! unat (r mod 10)) = mset [0..<n]" using assms(1,2) by simp
  have n: "unat (of_nat n :: 32 word) = n" by (rule word_small) (use assms(4) in linarith)
  have n0: "(of_nat n :: 32 word) \<noteq> 0"
  proof
    assume "(of_nat n :: 32 word) = 0"
    then have "n = 0" using n by (metis unat_0)
    then show False using assms(3) by simp
  qed
  have "unat (of_nat (g * n + k) mod of_nat n :: 32 word) = k"
  proof -
    have "unat (of_nat (g * n + k) :: 32 word) = g * n + k" by (rule word_small) (use assms(4,5) in linarith)
    then show ?thesis using n assms(5) by (simp only: unat_mod mod_mult_self3 mod_less)
  qed
  then show ?thesis using i n0 permutation_bij(1)[OF ps] assms(2,5)
    by (simp add: tid_update_def of_nat_mult vec_at_less)
qed

lemma tid_init_value:
  assumes "\<forall>ps \<in> set perms. mset ps = mset [0..<n]" "length perms = 10" "g * n + n < 2 ^ 32" "l < n"
  shows "comm_value perms \<lparr>wi_group = g, wi_local = l, wi_tid = t\<rparr> r (tid_init n) = Some (of_nat (g * n + perms ! 0 ! l))"
proof -
  have ps: "mset (perms ! 0) = mset [0..<n]" using assms(1,2) by simp
  have "unat (of_nat l :: 32 word) = l" using word_small[of l] assms(3,4) by simp
  then show ?thesis using permutation_bij(1)[OF ps] assms(2,4) by (simp add: tid_init_def of_nat_mult vec_at_less)
qed

text \<open>The positions of the threads of a group: one permutation of the group after another.\<close>

definition position :: "nat list list \<Rightarrow> 32 word list \<Rightarrow> nat \<Rightarrow> nat" where
  "position perms rs l = foldr (\<lambda>r k. perms ! unat (r mod 10) ! k) rs (perms ! 0 ! l)"

lemma tid_after_value:
  assumes "\<forall>ps \<in> set perms. mset ps = mset [0..<n]" "length perms = 10" "0 < n" "g * n + n < 2 ^ 32"
  shows "bij_betw (position perms rs) {..<n} {..<n} \<and>
    (\<forall>l < n. tid_after perms n g l rs = Some (of_nat (g * n + position perms rs l)))"
proof (induction rs)
  case Nil
  have "mset (perms ! 0) = mset [0..<n]" using assms(1,2) by simp
  from permutation_bij(2)[OF this] show ?case
    using tid_init_value[OF assms(1,2,4)] by (simp add: position_def cong: bij_betw_cong)
next
  case (Cons r rs)
  have "unat (r mod 10) < 10" by (simp add: unat_mod)
  then have "mset (perms ! unat (r mod 10)) = mset [0..<n]" using assms(1,2) by simp
  note b = permutation_bij(2)[OF this]
  have e: "position perms (r # rs) = (\<lambda>k. perms ! unat (r mod 10) ! k) \<circ> position perms rs"
    by (auto simp: position_def)
  have "bij_betw (position perms (r # rs)) {..<n} {..<n}" unfolding e using Cons b by (intro bij_betw_trans) auto
  moreover have "tid_after perms n g l (r # rs) = Some (of_nat (g * n + position perms (r # rs) l))" if "l < n" for l
  proof -
    have "position perms rs l < n" using Cons that by (auto simp: bij_betw_def)
    then show ?thesis using tid_update_value[OF assms] Cons that by (simp add: e)
  qed
  ultimately show ?case by blast
qed

text \<open>C6: threads that communicate never access the same element between two barriers.  Whatever permutations
  are drawn, when the threads of every group have executed any number of communications, with the same
  values of the random expression within a group, then every thread still has an identifier; within a group
  the elements \<open>tid % size\<close> of the local buffer are a permutation of the whole buffer; the elements
  \<open>tid\<close> of the global buffer are those of the group, again each used by exactly one thread, so that no
  two threads of the kernel share one; and all lie inside the buffers.\<close>

theorem comm_values_apart:
  assumes "\<And>seed xs. mset (shuffle seed xs) = mset xs" "InitRuntimeParameters s = Some (p, s1)"
    and "permute_values shuffle (get_threads_per_group p) kPermCount s2 = Some (perms, s3)"
    and "g < noGroups p"
  defines "n \<equiv> get_threads_per_group p"
  shows "\<exists>t. (\<forall>l < n. tid_after perms n g l rs = Some (t l) \<and> unat (t l) < get_total_threads p) \<and>
    bij_betw (\<lambda>l. unat (t l)) {..<n} {g * n..<g * n + n} \<and>
    (\<exists>loc. (\<forall>l < n. comm_value perms \<lparr>wi_group = g, wi_local = l, wi_tid = t l\<rparr> r (local_index n) = Some (loc l)) \<and>
       bij_betw (\<lambda>l. unat (loc l)) {..<n} {..<n})"
proof -
  note ip = runtime_consistent[OF assms(2), folded n_def]
  have perms: "length perms = 10" "\<forall>ps \<in> set perms. mset ps = mset [0..<n]"
    using permute_values_SomeD[OF assms(3)] assms(1) unfolding n_def kPermCount_def by blast+
  have ng: "noGroups p * n = noThreads p" "1 \<le> n" "noThreads p \<le> 10000" using ip by blast+
  have "g * n + n = (g + 1) * n" by simp
  also have "... \<le> noGroups p * n" using assms(4) by (intro mult_right_mono) auto
  finally have gn: "g * n + n \<le> noThreads p" unfolding ng(1) .
  then have "g * n + n \<le> 10000" using ng(3) by (rule order_trans)
  then have small: "g * n + n < 2 ^ 32" by simp
  let ?q = "position perms rs"
  let ?t = "\<lambda>l. of_nat (g * n + ?q l) :: 32 word"
  have q: "bij_betw ?q {..<n} {..<n}" "\<forall>l < n. tid_after perms n g l rs = Some (?t l)"
    using tid_after_value[OF perms(2,1) _ small] ng(2) by auto
  have lt: "?q l < n" if "l < n" for l using q(1) that by (auto simp: bij_betw_def)
  have u: "unat (?t l) = g * n + ?q l" if "l < n" for l using word_small[of "g * n + ?q l"] lt[OF that] small by simp
  have "noThreads p \<le> get_total_threads p" using assms(4) by (simp add: get_total_threads_def)
  then have bound: "unat (?t l) < get_total_threads p" if "l < n" for l using u[OF that] lt[OF that] gn by linarith
  have "bij_betw ((\<lambda>k. g * n + k) \<circ> ?q) {..<n} {g * n..<g * n + n}"
  proof (rule bij_betw_trans[OF q(1)])
    show "bij_betw (\<lambda>k. g * n + k) {..<n} {g * n..<g * n + n}"
      by (rule bij_betw_byWitness[where f' = "\<lambda>k. k - g * n"]) auto
  qed
  moreover have "bij_betw (\<lambda>l. unat (?t l)) {..<n} {g * n..<g * n + n} \<longleftrightarrow>
      bij_betw ((\<lambda>k. g * n + k) \<circ> ?q) {..<n} {g * n..<g * n + n}"
    by (rule bij_betw_cong) (simp only: lessThan_iff u o_apply)
  ultimately have b: "bij_betw (\<lambda>l. unat (?t l)) {..<n} {g * n..<g * n + n}" by blast
  have nw: "unat (of_nat n :: 32 word) = n" "(of_nat n :: 32 word) \<noteq> 0" using word_small[of n] ng(2) small by auto
  have loc: "comm_value perms \<lparr>wi_group = g, wi_local = l, wi_tid = ?t l\<rparr> r (local_index n) = Some (?t l mod of_nat n)" for l
    using nw(2) by (simp add: local_index_def)
  have m: "unat (?t l mod of_nat n) = ?q l" if "l < n" for l
    using u[OF that] nw(1) lt[OF that] by (simp only: unat_mod mod_mult_self3 mod_less)
  have "bij_betw (\<lambda>l. unat (?t l mod of_nat n)) {..<n} {..<n} \<longleftrightarrow> bij_betw ?q {..<n} {..<n}"
    by (rule bij_betw_cong) (simp only: lessThan_iff m)
  then have "bij_betw (\<lambda>l. unat (?t l mod of_nat n)) {..<n} {..<n}" using q(1) by blast
  with loc have L: "\<exists>loc. (\<forall>l < n. comm_value perms \<lparr>wi_group = g, wi_local = l, wi_tid = ?t l\<rparr> r (local_index n) = Some (loc l)) \<and>
      bij_betw (\<lambda>l. unat (loc l)) {..<n} {..<n}" by (intro exI[of _ "\<lambda>l. ?t l mod of_nat n"]) simp
  have A: "\<forall>l < n. tid_after perms n g l rs = Some (?t l) \<and> unat (?t l) < get_total_threads p" using q(2) bound by blast
  show ?thesis by (rule exI[of _ ?t]) (intro conjI A b L)
qed

lemma permute_values_total: "\<exists>perms t. permute_values shuffle n k s = Some (perms, t)"
proof (induction k arbitrary: s)
  case (Suc k)
  obtain seed s1 where "rnd_upto 65535 None None s = Some (seed, s1)"
    using pure_rnd_upto_total[of 65535 None s] by (auto simp: pure_rnd_upto_def)
  moreover obtain rest t where "permute_values shuffle n k s1 = Some (rest, t)" using Suc by blast
  ultimately show ?case by simp
qed simp

lemma comm_values_apart_witness:
  "\<exists>p s1 perms s3 t. InitRuntimeParameters (rng_of [3, 5, 1, 1, 1, 0]) = Some (p, s1) \<and>
     permute_values (\<lambda>seed. rotate seed) (get_threads_per_group p) kPermCount (rng_of [7, 3]) = Some (perms, s3) \<and>
     (\<forall>l < get_threads_per_group p. tid_after perms (get_threads_per_group p) 0 l [5, 12] = Some (t l)) \<and>
     bij_betw (\<lambda>l. unat (t l)) {..<get_threads_per_group p} {0..<get_threads_per_group p}"
proof -
  have d: "get_divisors 4 = [1, 4, 2]" "get_divisors 6 = [1, 6, 2, 3]" "get_divisors (Suc (Suc 0)) = [1, 2]"
    by (simp_all add: get_divisors_def)
  have "map_option (\<lambda>q. noGroups (fst q)) (InitRuntimeParameters (rng_of [3, 5, 1, 1, 1, 0])) = Some 2"
    unfolding InitRuntimeParameters_def no_dims_def numeral_3_eq_3
    apply (simp add: rnd_upto_def genrand_def retry_None rng_of_def add_number_def seq_add_number_def max_threads_def
        max_thr_per_dim_def Let_def)
    apply (subst choose_local_dims.simps)
    apply (simp add: rnd_upto_def genrand_def retry_None add_number_def seq_add_number_def max_threads_per_group_def d
        Let_def del: divisor_loop.simps)
    done
  then obtain p s1 where p: "InitRuntimeParameters (rng_of [3, 5, 1, 1, 1, 0]) = Some (p, s1)" "noGroups p = 2" by auto
  obtain perms s3 where perms: "permute_values (\<lambda>seed. rotate seed) (get_threads_per_group p) kPermCount (rng_of [7, 3]) = Some (perms, s3)"
    using permute_values_total by blast
  have "mset (rotate seed xs) = mset xs" for seed and xs :: "nat list"
    by (metis append_take_drop_id mset_append rotate_drop_take union_commute)
  note sh = this
  let ?n = "get_threads_per_group p"
  have g: "0 < noGroups p" using p(2) by simp
  obtain t where t: "\<forall>l < ?n. tid_after perms ?n 0 l [5, 12] = Some (t l) \<and> unat (t l) < get_total_threads p"
    and b: "bij_betw (\<lambda>l. unat (t l)) {..<?n} {0 * ?n..<0 * ?n + ?n}"
    using comm_values_apart[OF sh p(1) perms g, of "[5, 12]" 0] by blast
  have "bij_betw (\<lambda>l. unat (t l)) {..<?n} {0..<?n}" using b by simp
  then show ?thesis using p(1) perms t by blast
qed

section \<open>Atomic sections\<close>

datatype atomic_mem = AGlobal | ALocal

text \<open>The free counters; a section is guarded by \<open>atomic_inc(&buffer[access]) == constant\<close>.  The probability of
  the increment is 100%, so the other operation is never drawn.  The lists of the buffers that have been
  used, which decide what is printed, are left out.\<close>

record atomics =
  no_atomic_blocks :: nat
  free_counters :: "nat list"

record atomic_section =
  as_counter :: nat
  as_mem :: atomic_mem
  as_add :: "nat option"
  as_constant :: nat

definition InitAtomics :: "rng \<Rightarrow> (atomics \<times> rng) option" where
  "InitAtomics s = do {
     (k, s1) \<leftarrow> rnd_upto 99 None None s;
     Some (\<lparr>no_atomic_blocks = k + 1, free_counters = [0..<k + 1]\<rparr>, s1) }"

definition make_atomic :: "atomics \<Rightarrow> rng \<Rightarrow> ((nat \<times> atomic_mem \<times> nat option) option \<times> atomics \<times> rng) option" where
  "make_atomic a s =
    (if free_counters a = [] then Some (None, a, s)
     else do {
       (i, s1) \<leftarrow> rnd_upto (length (free_counters a)) None None s;
       let c = free_counters a ! i;
       (m, s2) \<leftarrow> rnd_upto 2 None None s1;
       (b, s3) \<leftarrow> rnd_flipcoin 100 None s2;
       let a1 = a\<lparr>free_counters := removeAll c (free_counters a)\<rparr>;
       let mem = (if m = 0 then AGlobal else ALocal);
       if b then Some (Some (c, mem, None), a1, s3)
       else do { (v, s4) \<leftarrow> rnd_upto 10 None None s3; Some (Some (c, mem, Some (v + 1)), a1, s4) } })"

definition make_condition :: "atomics \<Rightarrow> rng \<Rightarrow> (atomic_section option \<times> atomics \<times> rng) option" where
  "make_condition a s = do {
     (e, a1, s1) \<leftarrow> make_atomic a s;
     case e of
       None \<Rightarrow> Some (None, a1, s1)
     | Some (c, m, v) \<Rightarrow> do {
         (k, s2) \<leftarrow> rnd_upto 10 None None s1;
         Some (Some \<lparr>as_counter = c, as_mem = m, as_add = v, as_constant = k\<rparr>, a1, s2) } }"

text \<open>The buffers hold \<open>groups * blocks\<close> counters in global memory and \<open>blocks\<close> counters in the local memory of
  each group; the counter of a section for a group:\<close>

definition buffer_length :: "runtime \<Rightarrow> atomics \<Rightarrow> atomic_mem \<Rightarrow> nat" where
  "buffer_length p a m = (if m = AGlobal then noGroups p * no_atomic_blocks a else no_atomic_blocks a)"

definition access_index :: "nat \<Rightarrow> atomic_section \<Rightarrow> nat \<Rightarrow> nat" where
  "access_index blocks sec g = (if as_mem sec = AGlobal then blocks * g + as_counter sec else as_counter sec)"

fun make_conditions :: "nat \<Rightarrow> atomics \<Rightarrow> rng \<Rightarrow> (atomic_section list \<times> atomics \<times> rng) option" where
  "make_conditions 0 a s = Some ([], a, s)"
| "make_conditions (Suc n) a s = do {
     (sec, a1, s1) \<leftarrow> make_condition a s;
     (secs, a2, s2) \<leftarrow> make_conditions n a1 s1;
     Some ((case sec of None \<Rightarrow> secs | Some x \<Rightarrow> x # secs), a2, s2) }"

text \<open>The kernel runs the guards in some order: each execution adds to its counter (one, or the operand that is
  printed) and enters the section when the old value is the constant.  An address is the memory, the group for local memory, and the index.\<close>

type_synonym address = "atomic_mem \<times> nat \<times> nat"

definition address_of :: "nat \<Rightarrow> atomic_section \<Rightarrow> nat \<Rightarrow> address" where
  "address_of blocks sec g = (as_mem sec, if as_mem sec = AGlobal then 0 else g, access_index blocks sec g)"

definition as_increment :: "atomic_section \<Rightarrow> 32 word" where
  "as_increment sec = (case as_add sec of None \<Rightarrow> 1 | Some v \<Rightarrow> of_nat v)"

fun run_guards :: "nat \<Rightarrow> (atomic_section \<times> nat) list \<Rightarrow> (address \<Rightarrow> 32 word) \<Rightarrow> (atomic_section \<times> nat) list" where
  "run_guards blocks [] mem = []"
| "run_guards blocks ((sec, g) # es) mem =
    (let ad = address_of blocks sec g;
         rest = run_guards blocks es (mem(ad := mem ad + as_increment sec))
     in if mem ad = of_nat (as_constant sec) then (sec, g) # rest else rest)"

lemma make_condition_SomeD:
  assumes "make_condition a s = Some (sec, a1, s1)" "distinct (free_counters a)"
  shows "no_atomic_blocks a1 = no_atomic_blocks a \<and> distinct (free_counters a1) \<and>
    (case sec of
       None \<Rightarrow> free_counters a = [] \<and> a1 = a
     | Some x \<Rightarrow> as_counter x \<in> set (free_counters a) \<and> as_constant x < 10 \<and> as_add x = None \<and>
         set (free_counters a1) = set (free_counters a) - {as_counter x} \<and>
         length (free_counters a) = Suc (length (free_counters a1)))"
proof (cases "free_counters a = []")
  case True
  then show ?thesis using assms(1) by (auto simp: make_condition_def make_atomic_def)
next
  case False
  obtain i r1 m r2 b r3 v r4 k where
    d: "rnd_upto (length (free_counters a)) None None s = Some (i, r1)" "rnd_upto 2 None None r1 = Some (m, r2)"
      "rnd_flipcoin 100 None r2 = Some (b, r3)"
    and k: "rnd_upto 10 None None r4 = Some (k, s1)"
    and sec: "sec = Some \<lparr>as_counter = free_counters a ! i, as_mem = (if m = 0 then AGlobal else ALocal), as_add = v, as_constant = k\<rparr>" "b \<Longrightarrow> v = None"
    and a1: "a1 = a\<lparr>free_counters := removeAll (free_counters a ! i) (free_counters a)\<rparr>"
    using assms(1) False by (auto simp: make_condition_def make_atomic_def bind_eq_Some_conv Let_def split: if_splits)
  have b: b using d(3) by (auto simp: rnd_flipcoin_def case_prod_unfold Let_def split: if_splits)
  have i: "i < length (free_counters a)" using rnd_upto_SomeD(1)[OF d(1)] .
  then have "length (removeAll (free_counters a ! i) (free_counters a)) = length (free_counters a) - 1"
    using assms(2) distinct_remove1_removeAll[OF assms(2)] by (metis i length_remove1 nth_mem)
  then show ?thesis using sec(1) sec(2)[OF b] a1 i rnd_upto_SomeD(1)[OF k] assms(2) by (auto simp: distinct_removeAll)
qed

lemma make_conditions_SomeD:
  "make_conditions n a s = Some (secs, a1, s1) \<Longrightarrow> distinct (free_counters a) \<Longrightarrow>
    length secs = min n (length (free_counters a)) \<and> distinct (map as_counter secs) \<and>
    (\<forall>x \<in> set secs. as_counter x \<in> set (free_counters a) \<and> as_constant x < 10 \<and> as_add x = None)"
proof (induction n arbitrary: a s secs)
  case (Suc n)
  obtain sec a2 s2 rest where c: "make_condition a s = Some (sec, a2, s2)"
    and r: "make_conditions n a2 s2 = Some (rest, a1, s1)" and secs: "secs = (case sec of None \<Rightarrow> rest | Some x \<Rightarrow> x # rest)"
    using Suc.prems(1) by (auto simp: bind_eq_Some_conv)
  note d = make_condition_SomeD[OF c Suc.prems(2)]
  have ih: "length rest = min n (length (free_counters a2)) \<and> distinct (map as_counter rest) \<and>
      (\<forall>x \<in> set rest. as_counter x \<in> set (free_counters a2) \<and> as_constant x < 10 \<and> as_add x = None)"
    using Suc.IH[OF r] d by blast
  show ?case
  proof (cases sec)
    case None
    then show ?thesis using d ih secs by simp
  next
    case (Some x)
    have x: "as_counter x \<in> set (free_counters a)" "as_constant x < 10 \<and> as_add x = None"
      "set (free_counters a2) = set (free_counters a) - {as_counter x}"
      "length (free_counters a) = Suc (length (free_counters a2))"
      using d unfolding Some option.case by blast+
    have rest: "as_counter y \<in> set (free_counters a) \<and> as_counter y \<noteq> as_counter x \<and> as_constant y < 10 \<and> as_add y = None" if "y \<in> set rest" for y
      using ih that unfolding x(3) by blast
    have "length secs = min (Suc n) (length (free_counters a))" using secs Some ih x(4) by simp
    moreover have "distinct (map as_counter secs)" using secs Some ih rest by fastforce
    moreover have "\<forall>y \<in> set secs. as_counter y \<in> set (free_counters a) \<and> as_constant y < 10 \<and> as_add y = None"
      using secs Some x(1,2) rest by simp
    ultimately show ?thesis by blast
  qed
qed simp

lemma run_guards_count:
  assumes "\<And>sec' g'. (sec', g') \<in> set es \<Longrightarrow> address_of blocks sec' g' = address_of blocks sec g \<Longrightarrow> (sec', g') = (sec, g)"
    and "mem (address_of blocks sec g) = of_nat k" "k + length es < 2 ^ 32" "as_constant sec < 2 ^ 32" "as_add sec = None"
  shows "count_list (run_guards blocks es mem) (sec, g) =
    (if k \<le> as_constant sec \<and> as_constant sec < k + count_list es (sec, g) then 1 else 0)"
  using assms
proof (induction es arbitrary: mem k)
  case (Cons e es)
  obtain sec' g' where e: "e = (sec', g')" by (cases e)
  let ?ad = "address_of blocks sec' g'"
  show ?case
  proof (cases "e = (sec, g)")
    case True
    have "count_list (run_guards blocks es (mem(?ad := mem ?ad + as_increment sec'))) (sec, g) =
        (if k + 1 \<le> as_constant sec \<and> as_constant sec < k + 1 + count_list es (sec, g) then 1 else 0)"
    proof (rule Cons.IH)
      show "(sec', g') = (sec, g)" if "(sec', g') \<in> set es" "address_of blocks sec' g' = address_of blocks sec g" for sec' g'
        by (rule Cons.prems(1)[OF _ that(2)]) (use that(1) in simp)
      show "(mem(?ad := mem ?ad + as_increment sec')) (address_of blocks sec g) = of_nat (k + 1)"
        using Cons.prems(2,5) True e by (simp add: as_increment_def)
      show "k + 1 + length es < 2 ^ 32" using Cons.prems(3) by simp
    qed (rule Cons.prems(4,5))+
    moreover have "mem ?ad = of_nat (as_constant sec') \<longleftrightarrow> k = as_constant sec"
    proof -
      have "(of_nat k = (of_nat (as_constant sec) :: 32 word)) \<longleftrightarrow> k = as_constant sec"
      proof
        assume "(of_nat k :: 32 word) = of_nat (as_constant sec)"
        then have "unat (of_nat k :: 32 word) = unat (of_nat (as_constant sec) :: 32 word)" by (rule arg_cong)
        moreover have "unat (of_nat k :: 32 word) = k" by (rule word_small) (use Cons.prems(3) in linarith)
        moreover have "unat (of_nat (as_constant sec) :: 32 word) = as_constant sec" by (rule word_small[OF Cons.prems(4)])
        ultimately show "k = as_constant sec" by simp
      qed simp
      then show ?thesis using Cons.prems(2) True e by simp
    qed
    ultimately show ?thesis using True e by (auto simp: Let_def)
  next
    case False
    then have ne: "?ad \<noteq> address_of blocks sec g" using Cons.prems(1)[of sec' g'] e by auto
    have "count_list (run_guards blocks es (mem(?ad := mem ?ad + as_increment sec'))) (sec, g) =
        (if k \<le> as_constant sec \<and> as_constant sec < k + count_list es (sec, g) then 1 else 0)"
    proof (intro Cons.IH)
      show "(sec', g') = (sec, g)" if "(sec', g') \<in> set es" "address_of blocks sec' g' = address_of blocks sec g" for sec' g'
        by (rule Cons.prems(1)[OF _ that(2)]) (use that(1) in simp)
      show "k + length es < 2 ^ 32" using Cons.prems(3) by simp
    qed (use Cons.prems(2,4,5) ne in simp_all)
    then show ?thesis using False e by (auto simp: Let_def)
  qed
qed simp

lemma make_condition_total: "\<exists>sec a1 t. make_condition a s = Some (sec, a1, t)"
proof (cases "free_counters a = []")
  case False
  let ?u = "\<lambda>n s. rnd_upto n None None s"
  have up: "0 < n \<Longrightarrow> \<exists>v t. ?u n s = Some (v, t)" for n s
    using pure_rnd_upto_total[of n None s] by (auto simp: pure_rnd_upto_def)
  obtain i s1 where 1: "?u (length (free_counters a)) s = Some (i, s1)" using up False by blast
  obtain m s2 where 2: "?u 2 s1 = Some (m, s2)" using up[of 2 s1] by auto
  obtain b s3 where 3: "rnd_flipcoin 100 None s2 = Some (b, s3)" using rnd_flipcoin_total[of 100 None s2] by auto
  obtain v s4 where 4: "?u 10 s3 = Some (v, s4)" using up[of 10 s3] by auto
  obtain k s5 where 5: "?u 10 s4 = Some (k, s5)" using up[of 10 s4] by auto
  show ?thesis using False 1 2 3 4 5 by (cases b) (simp_all add: make_condition_def make_atomic_def Let_def)
qed (simp add: make_condition_def make_atomic_def)

lemma make_conditions_total: "\<exists>secs a1 t. make_conditions n a s = Some (secs, a1, t)"
proof (induction n arbitrary: a s)
  case (Suc n)
  obtain sec a2 s2 where "make_condition a s = Some (sec, a2, s2)" using make_condition_total by blast
  moreover obtain secs a1 t where "make_conditions n a2 s2 = Some (secs, a1, t)" using Suc by blast
  ultimately show ?case by simp
qed simp

text \<open>C9: an atomic section is executed at most once per group and its counter belongs to it alone: the guards
  generated for a kernel have different counters until the counters are used up; their accesses lie inside
  the buffers; and in whatever order the threads of the groups execute the guards (fewer than \<open>2 ^ 32\<close>
  times in all), each guard lets exactly one execution of each group in when it is executed more often
  than its constant, and none otherwise.\<close>

theorem atomic_sections_once:
  assumes "InitAtomics s = Some (a, s1)" "make_conditions m a s2 = Some (secs, a1, s3)"
    and "\<forall>(sec, g) \<in> set es. sec \<in> set secs \<and> g < noGroups p" "length es < 2 ^ 32"
    and "sec \<in> set secs" "g < noGroups p"
  shows "length secs = min m (no_atomic_blocks a) \<and> distinct (map as_counter secs) \<and>
    access_index (no_atomic_blocks a) sec g < buffer_length p a (as_mem sec) \<and>
    count_list (run_guards (no_atomic_blocks a) es (\<lambda>_. 0)) (sec, g) =
      (if as_constant sec < count_list es (sec, g) then 1 else 0)"
proof -
  let ?b = "no_atomic_blocks a"
  have fr: "free_counters a = [0..<?b]" using assms(1) by (auto simp: InitAtomics_def bind_eq_Some_conv)
  note c = make_conditions_SomeD[OF assms(2), unfolded fr]
  have cs: "length secs = min m ?b" "distinct (map as_counter secs)" "\<forall>x \<in> set secs. as_counter x < ?b \<and> as_constant x < 10 \<and> as_add x = None"
    using c by auto
  have eq: "(sec', g') = (sec, g)" if "(sec', g') \<in> set es" "address_of ?b sec' g' = address_of ?b sec g" for sec' g'
  proof -
    have m: "sec' \<in> set secs" using assms(3) that(1) by blast
    have lt: "as_counter sec' < ?b" "as_counter sec < ?b" using cs(3) m assms(5) by auto
    have "as_counter sec' = as_counter sec \<and> g' = g"
    proof (cases "as_mem sec = AGlobal")
      case True
      then have e: "?b * g' + as_counter sec' = ?b * g + as_counter sec"
        using that(2) by (simp add: address_of_def access_index_def split: if_splits)
      then have "(?b * g' + as_counter sec') mod ?b = (?b * g + as_counter sec) mod ?b" by simp
      then have "as_counter sec' = as_counter sec" using lt by simp
      then show ?thesis using e lt by auto
    next
      case False
      then show ?thesis using that(2) by (auto simp: address_of_def access_index_def split: if_splits)
    qed
    moreover have "inj_on as_counter (set secs)" using cs(2) by (simp add: distinct_map)
    ultimately show ?thesis using m assms(5) by (auto dest: inj_onD)
  qed
  have lt: "as_counter sec < ?b" "as_constant sec < 2 ^ 32" "as_add sec = None" using cs(3) assms(5) by fastforce+
  have "?b * g + as_counter sec < ?b * (g + 1)" using lt(1) by simp
  also have "... \<le> ?b * noGroups p" using assms(6) by (intro mult_left_mono) auto
  finally have "access_index ?b sec g < buffer_length p a (as_mem sec)"
    using lt(1) by (auto simp: access_index_def buffer_length_def mult.commute)
  moreover have "count_list (run_guards ?b es (\<lambda>_. 0)) (sec, g) = (if as_constant sec < count_list es (sec, g) then 1 else 0)"
    using run_guards_count[of es ?b sec g "\<lambda>_. 0" 0] eq assms(4) lt(2,3) by simp
  ultimately show ?thesis using cs(1,2) by blast
qed

lemma atomic_sections_once_witness:
  "\<exists>a s1 secs a1 s3 sec. InitAtomics (rng_of [4]) = Some (a, s1) \<and> make_conditions 3 a (rng_of [1, 0, 5, 2]) = Some (secs, a1, s3) \<and>
     length secs = 3 \<and> sec \<in> set secs \<and>
     count_list (run_guards (no_atomic_blocks a) (replicate 20 (sec, 1)) (\<lambda>_. 0)) (sec, 1) = 1"
proof -
  obtain a s1 where a: "InitAtomics (rng_of [4]) = Some (a, s1)" "no_atomic_blocks a = 5"
    by (simp add: InitAtomics_def rnd_upto_def genrand_def retry_None rng_of_def Let_def)
  obtain secs a1 s3 where secs: "make_conditions 3 a (rng_of [1, 0, 5, 2]) = Some (secs, a1, s3)"
    using make_conditions_total by blast
  have "free_counters a = [0..<no_atomic_blocks a]" using a(1) by (auto simp: InitAtomics_def bind_eq_Some_conv)
  then have l: "length secs = 3" "\<forall>x \<in> set secs. as_constant x < 10" using make_conditions_SomeD[OF secs] a(2) by auto
  then have "secs \<noteq> []" by auto
  then have sec: "hd secs \<in> set secs" by simp
  then have "as_constant (hd secs) < 10" using l(2) by blast
  then obtain sec where sec: "sec \<in> set secs" "as_constant sec < 20" using that[of "hd secs"] sec by simp
  let ?p = "\<lparr>noThreads = 8, noGroups = 2, globalDim = [8], localDim = [4]\<rparr>"
  have "count_list (run_guards (no_atomic_blocks a) (replicate 20 (sec, 1)) (\<lambda>_. 0)) (sec, 1) =
      (if as_constant sec < count_list (replicate 20 (sec, 1 :: nat)) (sec, 1) then 1 else 0)"
    using atomic_sections_once[OF a(1) secs, of "replicate 20 (sec, 1)" ?p sec 1] sec(1) by simp
  moreover have "count_list (replicate n x) x = n" for n and x :: "atomic_section \<times> nat" by (induction n) auto
  ultimately show ?thesis using a(1) secs l(1) sec by auto
qed

section \<open>Atomic reductions\<close>

datatype reduction_op = kAdd | kSub | kMin | kMax | kAnd | kOr | kXor

record reduction =
  rd_expr :: expr
  rd_add_global :: bool
  rd_op :: reduction_op
  rd_mem :: atomic_mem

definition reduction_ops :: "reduction_op list" where
  "reduction_ops = [kAdd, kSub, kMin, kMax, kAnd, kOr, kXor]"

text \<open>The random expression comes first; \<open>make\<close> generates it.\<close>

definition make_random_reduction :: "(rng \<Rightarrow> (expr \<times> rng) option) \<Rightarrow> rng \<Rightarrow> (reduction \<times> rng) option" where
  "make_random_reduction make_expr s = do {
     (e, s1) \<leftarrow> make_expr s;
     (g, s2) \<leftarrow> rnd_upto 2 None None s1;
     (k, s3) \<leftarrow> rnd_upto 7 None None s2;
     (m, s4) \<leftarrow> rnd_upto 2 None None s3;
     Some (\<lparr>rd_expr = e, rd_add_global = (g \<noteq> 0), rd_op = reduction_ops ! k, rd_mem = (if m = 0 then ALocal else AGlobal)\<rparr>, s4) }"

fun reduction_name :: "reduction_op \<Rightarrow> string" where
  "reduction_name kAdd = ''add''"
| "reduction_name kSub = ''sub''"
| "reduction_name kMin = ''min''"
| "reduction_name kMax = ''max''"
| "reduction_name kAnd = ''and''"
| "reduction_name kOr = ''or''"
| "reduction_name kXor = ''xor''"

text \<open>What the operations are meant to compute.\<close>

fun reduce_op :: "reduction_op \<Rightarrow> 32 word \<Rightarrow> 32 word \<Rightarrow> 32 word" where
  "reduce_op kAdd old v = old + v"
| "reduce_op kSub old v = old - v"
| "reduce_op kMin old v = min old v"
| "reduce_op kMax old v = max old v"
| "reduce_op kAnd old v = and old v"
| "reduce_op kOr old v = or old v"
| "reduce_op kXor old v = xor old v"

type_synonym thread = "nat \<times> nat"

lemma reduce_op_commute: "reduce_op oper (reduce_op oper m x) y = reduce_op oper (reduce_op oper m y) x"
  by (cases oper) (simp_all add: algebra_simps min.commute min.left_commute max.commute max.left_commute
      and.commute and.left_commute or.commute or.left_commute xor.commute xor.left_commute)

text \<open>The emitted text, statement by statement: the atomic update, the barriers, and the addition of the result
  to the private hash by the first thread of a group.  The cell is the only element of the local buffer, or the
  element of the global buffer that the group selects.\<close>

datatype cell_expr = LocalCell | GroupCell

datatype kernel_stmt =
    KAtomic string cell_expr expr bool
  | KBarrier
  | KFirstAdds cell_expr

definition emit_reduction :: "reduction \<Rightarrow> kernel_stmt list" where
  "emit_reduction rd =
    (let cell = (if rd_mem rd = ALocal then LocalCell else GroupCell) in
     [KAtomic (reduction_name (rd_op rd)) cell (rd_expr rd) (rd_add_global rd),
      KBarrier,
      KFirstAdds cell,
      KBarrier])"

fun print_cell :: "cgoptions \<Rightarrow> printer \<Rightarrow> cell_expr \<Rightarrow> string" where
  "print_cell o1 pr LocalCell = ''l_atomic_reduction[0]''"
| "print_cell o1 pr GroupCell = pr_name pr ''g_atomic_reduction'' @ ''['' @ ExpressionID_Output o1 None kLinearGroup 0 @ '']''"

definition OutputBarrier :: string where
  "OutputBarrier = ''barrier(CLK_LOCAL_MEM_FENCE | CLK_GLOBAL_MEM_FENCE);''"

definition output_tab :: "nat \<Rightarrow> string" where
  "output_tab indent = concat (replicate indent ''    '')"

fun print_stmt :: "cgoptions \<Rightarrow> printer \<Rightarrow> nat \<Rightarrow> kernel_stmt \<Rightarrow> string" where
  "print_stmt o1 pr indent (KAtomic f cell e add_global) =
     output_tab indent @ ''atomic_'' @ f @ ''(&'' @ print_cell o1 pr cell @ '', '' @ pr_expr pr e @
     (if add_global then '' + '' @ ExpressionID_Output o1 None kLinearGlobal 0 else []) @ '');'' @ newline"
| "print_stmt o1 pr indent KBarrier = output_tab indent @ OutputBarrier @ newline"
| "print_stmt o1 pr indent (KFirstAdds cell) =
     output_tab indent @ ''if ('' @ ExpressionID_Output o1 None kLinearLocal 0 @ '' == 0)'' @ newline @
     output_tab (indent + 1) @ ''v_collective += '' @ print_cell o1 pr cell @ '';'' @ newline"

definition StatementAtomicReduction_Output :: "cgoptions \<Rightarrow> printer \<Rightarrow> nat \<Rightarrow> reduction \<Rightarrow> string" where
  "StatementAtomicReduction_Output o1 pr indent rd = concat (map (print_stmt o1 pr indent) (emit_reduction rd))"

text \<open>What the kernel language makes of it.  The functions are known by the names that are printed.\<close>

definition opencl_atomic :: "string \<Rightarrow> 32 word \<Rightarrow> 32 word \<Rightarrow> 32 word option" where
  "opencl_atomic f old v =
    (if f = ''add'' then Some (old + v) else if f = ''sub'' then Some (old - v)
     else if f = ''min'' then Some (min old v) else if f = ''max'' then Some (max old v)
     else if f = ''and'' then Some (and old v) else if f = ''or'' then Some (or old v)
     else if f = ''xor'' then Some (xor old v) else if f = ''xchg'' then Some v
     else if f = ''inc'' then Some (old + 1) else if f = ''dec'' then Some (old - 1) else None)"

text \<open>A group has a local buffer of its own; the global buffer is indexed by the group.\<close>

fun cell_address :: "nat \<Rightarrow> cell_expr \<Rightarrow> address" where
  "cell_address g LocalCell = (ALocal, g, 0)"
| "cell_address g GroupCell = (AGlobal, 0, g)"

record kernel_state =
  ks_pc :: "thread \<Rightarrow> nat"
  ks_mem :: "address \<Rightarrow> 32 word"
  ks_hash :: "thread \<Rightarrow> 32 word"

definition kernel_threads :: "runtime \<Rightarrow> thread set" where
  "kernel_threads p = {..<noGroups p} \<times> {..<get_threads_per_group p}"

definition thread_value :: "(expr \<Rightarrow> thread \<Rightarrow> 32 word) \<Rightarrow> (thread \<Rightarrow> 32 word) \<Rightarrow> expr \<Rightarrow> bool \<Rightarrow> thread \<Rightarrow> 32 word" where
  "thread_value expr_value global_id e add_global t = expr_value e t + (if add_global then global_id t else 0)"

text \<open>One thread executes its next statement; a barrier lets the threads of a group pass together, when all
  of them have reached it.\<close>

inductive kernel_step :: "runtime \<Rightarrow> (expr \<Rightarrow> thread \<Rightarrow> 32 word) \<Rightarrow> (thread \<Rightarrow> 32 word) \<Rightarrow> kernel_stmt list \<Rightarrow>
    kernel_state \<Rightarrow> kernel_state \<Rightarrow> bool"
  for p expr_value global_id prog where
  atomic: "t \<in> kernel_threads p \<Longrightarrow> ks_pc s t = i \<Longrightarrow> i < length prog \<Longrightarrow> prog ! i = KAtomic f cell e add_global \<Longrightarrow>
     a = cell_address (fst t) cell \<Longrightarrow> opencl_atomic f (ks_mem s a) (thread_value expr_value global_id e add_global t) = Some w \<Longrightarrow>
     kernel_step p expr_value global_id prog s (s\<lparr>ks_pc := (ks_pc s)(t := Suc i), ks_mem := (ks_mem s)(a := w)\<rparr>)"
| first: "t \<in> kernel_threads p \<Longrightarrow> ks_pc s t = i \<Longrightarrow> i < length prog \<Longrightarrow> prog ! i = KFirstAdds cell \<Longrightarrow>
     h = (if snd t = 0 then ks_hash s t + ks_mem s (cell_address (fst t) cell) else ks_hash s t) \<Longrightarrow>
     kernel_step p expr_value global_id prog s (s\<lparr>ks_pc := (ks_pc s)(t := Suc i), ks_hash := (ks_hash s)(t := h)\<rparr>)"
| barrier: "t \<in> kernel_threads p \<Longrightarrow> i < length prog \<Longrightarrow> prog ! i = KBarrier \<Longrightarrow>
     \<forall>u \<in> kernel_threads p. fst u = fst t \<longrightarrow> ks_pc s u = i \<Longrightarrow>
     kernel_step p expr_value global_id prog s
       (s\<lparr>ks_pc := (\<lambda>u. if u \<in> kernel_threads p \<and> fst u = fst t then Suc i else ks_pc s u)\<rparr>)"

definition kernel_start :: "(address \<Rightarrow> 32 word) \<Rightarrow> (thread \<Rightarrow> 32 word) \<Rightarrow> kernel_state" where
  "kernel_start mem hash = \<lparr>ks_pc = (\<lambda>_. 0), ks_mem = mem, ks_hash = hash\<rparr>"

definition kernel_finished :: "runtime \<Rightarrow> kernel_stmt list \<Rightarrow> kernel_state \<Rightarrow> bool" where
  "kernel_finished p prog s \<longleftrightarrow> (\<forall>t \<in> kernel_threads p. ks_pc s t = length prog)"

text \<open>The result that is intended: the values of the threads of a group combined into its cell, one after the
  other.\<close>

definition reduced :: "runtime \<Rightarrow> reduction \<Rightarrow> (expr \<Rightarrow> thread \<Rightarrow> 32 word) \<Rightarrow> (thread \<Rightarrow> 32 word) \<Rightarrow> nat \<Rightarrow> 32 word \<Rightarrow> 32 word" where
  "reduced p rd expr_value global_id g w =
    fold (\<lambda>l m. reduce_op (rd_op rd) m (thread_value expr_value global_id (rd_expr rd) (rd_add_global rd) (g, l)))
      [0..<get_threads_per_group p] w"

lemma reduction_name_atomic: "opencl_atomic (reduction_name oper) old v = Some (reduce_op oper old v)"
  by (cases oper) (simp_all add: opencl_atomic_def)

lemma emit_reduction_nth:
  "length (emit_reduction rd) = 4"
  "emit_reduction rd ! 0 = KAtomic (reduction_name (rd_op rd)) (if rd_mem rd = ALocal then LocalCell else GroupCell) (rd_expr rd) (rd_add_global rd)"
  "emit_reduction rd ! 1 = KBarrier"
  "emit_reduction rd ! 2 = KFirstAdds (if rd_mem rd = ALocal then LocalCell else GroupCell)"
  "emit_reduction rd ! 3 = KBarrier"
  by (simp_all add: emit_reduction_def Let_def)

interpretation reducing: comp_fun_commute "\<lambda>l m. reduce_op oper m (f l)" for oper and f :: "nat \<Rightarrow> 32 word"
  by unfold_locales (simp add: fun_eq_iff reduce_op_commute)

definition own_cell :: "reduction \<Rightarrow> nat \<Rightarrow> address" where
  "own_cell rd g = cell_address g (if rd_mem rd = ALocal then LocalCell else GroupCell)"

lemma own_cell_eq: "own_cell rd g = own_cell rd g' \<longleftrightarrow> g = g'"
  by (simp add: own_cell_def)

definition combined :: "reduction \<Rightarrow> (nat \<Rightarrow> 32 word) \<Rightarrow> nat set \<Rightarrow> 32 word \<Rightarrow> 32 word" where
  "combined rd f D w = Finite_Set.fold (\<lambda>l m. reduce_op (rd_op rd) m (f l)) w D"

lemma combined_insert:
  "finite D \<Longrightarrow> l \<notin> D \<Longrightarrow> combined rd f (insert l D) w = reduce_op (rd_op rd) (combined rd f D w) (f l)"
  by (simp add: combined_def reducing.fold_insert)

definition group_value :: "reduction \<Rightarrow> (expr \<Rightarrow> thread \<Rightarrow> 32 word) \<Rightarrow> (thread \<Rightarrow> 32 word) \<Rightarrow> nat \<Rightarrow> nat \<Rightarrow> 32 word" where
  "group_value rd ev gid g l = thread_value ev gid (rd_expr rd) (rd_add_global rd) (g, l)"

lemma reduced_combined: "reduced p rd ev gid g w = combined rd (group_value rd ev gid g) {..<get_threads_per_group p} w"
  using reducing.fold_set_fold_remdups[of "rd_op rd" "group_value rd ev gid g" w "[0..<get_threads_per_group p]"]
  by (simp add: reduced_def combined_def group_value_def atLeast0LessThan distinct_remdups_id)

text \<open>Where a group is: \<open>k\<close> statements are behind all of its threads, and the threads of \<open>D\<close> have executed the
  next one, too.\<close>

definition group_at :: "runtime \<Rightarrow> reduction \<Rightarrow> (expr \<Rightarrow> thread \<Rightarrow> 32 word) \<Rightarrow> (thread \<Rightarrow> 32 word) \<Rightarrow> kernel_state \<Rightarrow>
    kernel_state \<Rightarrow> nat \<Rightarrow> nat \<Rightarrow> nat set \<Rightarrow> bool" where
  "group_at p rd ev gid s0 s g k D \<longleftrightarrow> D \<subseteq> {..<get_threads_per_group p} \<and> k \<in> {0, 2, 4} \<and> (k = 4 \<longrightarrow> D = {}) \<and>
     (\<forall>l < get_threads_per_group p. ks_pc s (g, l) = k + (if l \<in> D then 1 else 0) \<and>
        ks_hash s (g, l) = ks_hash s0 (g, l) +
          (if l = 0 \<and> (k = 4 \<or> (k = 2 \<and> l \<in> D)) then reduced p rd ev gid g (ks_mem s0 (own_cell rd g)) else 0)) \<and>
     ks_mem s (own_cell rd g) = combined rd (group_value rd ev gid g)
       (if k = 0 then D else {..<get_threads_per_group p}) (ks_mem s0 (own_cell rd g))"

definition groups_ok :: "runtime \<Rightarrow> reduction \<Rightarrow> (expr \<Rightarrow> thread \<Rightarrow> 32 word) \<Rightarrow> (thread \<Rightarrow> 32 word) \<Rightarrow> kernel_state \<Rightarrow>
    kernel_state \<Rightarrow> bool" where
  "groups_ok p rd ev gid s0 s \<longleftrightarrow> (\<forall>g < noGroups p. \<exists>k D. group_at p rd ev gid s0 s g k D) \<and>
     (\<forall>a. a \<notin> own_cell rd ` {..<noGroups p} \<longrightarrow> ks_mem s a = ks_mem s0 a) \<and>
     (\<forall>t. t \<notin> kernel_threads p \<longrightarrow> ks_hash s t = ks_hash s0 t)"

lemma group_at_cong:
  assumes "\<And>l. ks_pc s' (g, l) = ks_pc s (g, l)" "\<And>l. ks_hash s' (g, l) = ks_hash s (g, l)"
    "ks_mem s' (own_cell rd g) = ks_mem s (own_cell rd g)"
  shows "group_at p rd ev gid s0 s' g k D \<longleftrightarrow> group_at p rd ev gid s0 s g k D"
  using assms by (simp add: group_at_def)

lemma groups_ok_start: "groups_ok p rd ev gid (kernel_start mem hash) (kernel_start mem hash)"
proof -
  have "group_at p rd ev gid (kernel_start mem hash) (kernel_start mem hash) g 0 {}" for g
    by (simp add: group_at_def kernel_start_def combined_def)
  then show ?thesis unfolding groups_ok_def by blast
qed

lemma group_atomic:
  assumes "group_at p rd ev gid s0 s g k D" "l < get_threads_per_group p" "ks_pc s (g, l) = 0"
  shows "group_at p rd ev gid s0 (s\<lparr>ks_pc := (ks_pc s)((g, l) := 1),
    ks_mem := (ks_mem s)(own_cell rd g := reduce_op (rd_op rd) (ks_mem s (own_cell rd g)) (group_value rd ev gid g l))\<rparr>) g 0 (insert l D)"
proof -
  have k: "k = 0" "l \<notin> D" "finite D" using assms by (auto simp: group_at_def split: if_splits intro: finite_subset)
  show ?thesis using assms k by (simp add: group_at_def combined_insert)
qed

lemma group_first:
  assumes "group_at p rd ev gid s0 s g k D" "l < get_threads_per_group p" "ks_pc s (g, l) = 2"
  shows "group_at p rd ev gid s0 (s\<lparr>ks_pc := (ks_pc s)((g, l) := 3),
    ks_hash := (ks_hash s)((g, l) := if l = 0 then ks_hash s (g, l) + ks_mem s (own_cell rd g) else ks_hash s (g, l))\<rparr>) g 2 (insert l D)"
proof -
  have k: "k = 2" "l \<notin> D" using assms by (auto simp: group_at_def split: if_splits)
  show ?thesis using assms k by (auto simp: group_at_def reduced_combined)
qed

lemma group_barrier:
  assumes "group_at p rd ev gid s0 s g k D" "t \<in> kernel_threads p" "fst t = g"
    "\<forall>u \<in> kernel_threads p. fst u = fst t \<longrightarrow> ks_pc s u = i" "i \<in> {1, 3}"
  shows "group_at p rd ev gid s0 (s\<lparr>ks_pc := (\<lambda>u. if u \<in> kernel_threads p \<and> fst u = fst t then Suc i else ks_pc s u)\<rparr>) g (Suc i) {}"
proof -
  have pc: "ks_pc s (g, l) = i" "(g, l) \<in> kernel_threads p" if "l < get_threads_per_group p" for l
    using assms(2-4) that by (auto simp: kernel_threads_def)
  have t: "snd t < get_threads_per_group p" using assms(2) by (auto simp: kernel_threads_def)
  have g: "D \<subseteq> {..<get_threads_per_group p}" "k \<in> {0, 2, 4}"
    "\<And>l. l < get_threads_per_group p \<Longrightarrow> i = k + (if l \<in> D then 1 else 0)"
    using assms(1) pc(1) unfolding group_at_def by auto
  have k: "Suc k = i" using g(2) g(3)[OF t] assms(5) by (auto split: if_splits)
  then have d: "D = {..<get_threads_per_group p}" using g(1,3) by (fastforce split: if_splits)
  have pos: "0 < get_threads_per_group p" using t by simp
  have up: "ks_pc (s\<lparr>ks_pc := f\<rparr>) = f" "ks_mem (s\<lparr>ks_pc := f\<rparr>) = ks_mem s" "ks_hash (s\<lparr>ks_pc := f\<rparr>) = ks_hash s" for f
    by simp_all
  have "k = 0 \<or> k = 2" using k assms(5) by auto
  then show ?thesis
    using assms(1) pc(2) unfolding group_at_def up k[symmetric] d assms(3)
    by (elim disjE) (simp_all add: pos)
qed

text \<open>A step of one group leaves the other groups where they are.\<close>

lemma groups_ok_move:
  assumes ok: "groups_ok p rd ev gid s0 s" and g: "g < noGroups p" "group_at p rd ev gid s0 s' g k D"
    and pc: "\<And>u. fst u \<noteq> g \<Longrightarrow> ks_pc s' u = ks_pc s u"
    and hash: "\<And>u. fst u \<noteq> g \<or> u \<notin> kernel_threads p \<Longrightarrow> ks_hash s' u = ks_hash s u"
    and mem: "\<And>a. a \<noteq> own_cell rd g \<Longrightarrow> ks_mem s' a = ks_mem s a"
  shows "groups_ok p rd ev gid s0 s'"
proof -
  have "\<exists>k D. group_at p rd ev gid s0 s' h k D" if "h < noGroups p" for h
  proof (cases "h = g")
    case False
    then have "group_at p rd ev gid s0 s' h k D = group_at p rd ev gid s0 s h k D" for k D
      by (intro group_at_cong pc hash mem) (simp_all add: own_cell_eq)
    then show ?thesis using ok that by (simp add: groups_ok_def)
  qed (use g in blast)
  moreover have "ks_mem s' a = ks_mem s0 a" if "a \<notin> own_cell rd ` {..<noGroups p}" for a
  proof -
    have "a \<noteq> own_cell rd g" using that g(1) by blast
    then show ?thesis using ok mem[of a] that unfolding groups_ok_def by metis
  qed
  moreover have "ks_hash s' t = ks_hash s0 t" if "t \<notin> kernel_threads p" for t
    using ok hash[of t] that unfolding groups_ok_def by metis
  ultimately show ?thesis by (simp add: groups_ok_def)
qed

lemma emitted_at:
  assumes "i < length (emit_reduction rd)"
  shows "emit_reduction rd ! i = KAtomic f cell e add_global \<longleftrightarrow> i = 0 \<and> f = reduction_name (rd_op rd) \<and>
      cell = (if rd_mem rd = ALocal then LocalCell else GroupCell) \<and> e = rd_expr rd \<and> add_global = rd_add_global rd"
    "emit_reduction rd ! i = KFirstAdds cell \<longleftrightarrow> i = 2 \<and> cell = (if rd_mem rd = ALocal then LocalCell else GroupCell)"
    "emit_reduction rd ! i = KBarrier \<longleftrightarrow> i \<in> {1, 3}"
proof -
  have "i = 0 \<or> i = 1 \<or> i = 2 \<or> i = 3" using assms by (auto simp: emit_reduction_nth)
  then show "emit_reduction rd ! i = KAtomic f cell e add_global \<longleftrightarrow> i = 0 \<and> f = reduction_name (rd_op rd) \<and>
      cell = (if rd_mem rd = ALocal then LocalCell else GroupCell) \<and> e = rd_expr rd \<and> add_global = rd_add_global rd"
    "emit_reduction rd ! i = KFirstAdds cell \<longleftrightarrow> i = 2 \<and> cell = (if rd_mem rd = ALocal then LocalCell else GroupCell)"
    "emit_reduction rd ! i = KBarrier \<longleftrightarrow> i \<in> {1, 3}"
    by (auto simp: emit_reduction_nth emit_reduction_nth[unfolded One_nat_def])
qed

lemma groups_ok_step:
  assumes "kernel_step p ev gid (emit_reduction rd) s s'" "groups_ok p rd ev gid s0 s"
  shows "groups_ok p rd ev gid s0 s'"
  using assms(1)
proof cases
  case (atomic t i f cell e b a w)
  obtain g l where t: "t = (g, l)" "g < noGroups p" "l < get_threads_per_group p"
    using atomic(2) by (auto simp: kernel_threads_def)
  obtain k D where at: "group_at p rd ev gid s0 s g k D" using assms(2) t(2) by (auto simp: groups_ok_def)
  have e: "i = 0" "f = reduction_name (rd_op rd)" "a = own_cell rd g" "e = rd_expr rd" "b = rd_add_global rd"
    using atomic(5,6) emitted_at(1)[OF atomic(4)] t(1) by (auto simp: own_cell_def)
  have w: "w = reduce_op (rd_op rd) (ks_mem s (own_cell rd g)) (group_value rd ev gid g l)"
    using atomic(7) by (simp add: e t(1) reduction_name_atomic group_value_def)
  show ?thesis unfolding atomic(1)
    by (rule groups_ok_move[OF assms(2) t(2), of _ 0 "insert l D"])
      (use group_atomic[OF at t(3)] atomic(3) in \<open>auto simp: e(1,3) w t(1)\<close>)
next
  case (first t i cell h)
  obtain g l where t: "t = (g, l)" "g < noGroups p" "l < get_threads_per_group p"
    using first(2) by (auto simp: kernel_threads_def)
  obtain k D where at: "group_at p rd ev gid s0 s g k D" using assms(2) t(2) by (auto simp: groups_ok_def)
  have e: "i = 2" "cell_address g cell = own_cell rd g"
    using first(5) emitted_at(2)[OF first(4)] by (auto simp: own_cell_def)
  show ?thesis unfolding first(1)
    by (rule groups_ok_move[OF assms(2) t(2), of _ 2 "insert l D"])
      (use group_first[OF at t(3)] first(2,3,6) in \<open>auto simp: e t(1)\<close>)
next
  case (barrier t i)
  obtain g l where t: "t = (g, l)" "g < noGroups p" using barrier(2) by (auto simp: kernel_threads_def)
  obtain k D where at: "group_at p rd ev gid s0 s g k D" using assms(2) t(2) by (auto simp: groups_ok_def)
  have i: "i \<in> {1, 3}" using barrier(4) emitted_at(3)[OF barrier(3)] by simp
  have f: "fst t = g" by (simp add: t(1))
  show ?thesis unfolding barrier(1)
    by (rule groups_ok_move[OF assms(2) t(2) group_barrier[OF at barrier(2) f barrier(5) i]]) (auto simp: t(1))
qed

lemma groups_ok_steps:
  "(kernel_step p ev gid (emit_reduction rd))\<^sup>*\<^sup>* s s' \<Longrightarrow> groups_ok p rd ev gid s0 s \<Longrightarrow> groups_ok p rd ev gid s0 s'"
  by (induction rule: rtranclp_induct) (auto intro: groups_ok_step)

text \<open>As long as a thread has not finished, one can move, and only finitely many moves are possible.\<close>

lemma kernel_not_stuck:
  assumes "groups_ok p rd ev gid s0 s" "\<not> kernel_finished p (emit_reduction rd) s"
  shows "\<exists>s'. kernel_step p ev gid (emit_reduction rd) s s'"
proof -
  obtain g l where t: "(g, l) \<in> kernel_threads p" "g < noGroups p" "l < get_threads_per_group p" "ks_pc s (g, l) \<noteq> 4"
    using assms(2) by (auto simp: kernel_finished_def emit_reduction_nth kernel_threads_def)
  obtain k D where at: "group_at p rd ev gid s0 s g k D" using assms(1) t(2) by (auto simp: groups_ok_def)
  have pc: "ks_pc s (g, m) = k + (if m \<in> D then 1 else 0)" if "m < get_threads_per_group p" for m
    using at that by (simp add: group_at_def)
  have k: "k = 0 \<or> k = 2" using at t(3,4) by (auto simp: group_at_def)
  have len: "k < length (emit_reduction rd)" "Suc k < length (emit_reduction rd)" using k by (auto simp: emit_reduction_nth)
  show ?thesis
  proof (cases "\<forall>m < get_threads_per_group p. m \<in> D")
    case True
    have "\<forall>u \<in> kernel_threads p. fst u = fst (g, l) \<longrightarrow> ks_pc s u = Suc k"
      using pc True by (auto simp: kernel_threads_def)
    moreover have "emit_reduction rd ! Suc k = KBarrier" using k emitted_at(3)[OF len(2)] by auto
    ultimately show ?thesis using kernel_step.barrier[OF t(1) len(2)] by blast
  next
    case False
    then obtain m where m: "m < get_threads_per_group p" "m \<notin> D" by blast
    have mt: "(g, m) \<in> kernel_threads p" using t(2) m(1) by (simp add: kernel_threads_def)
    have pm: "ks_pc s (g, m) = k" using pc m by simp
    show ?thesis
    proof (cases "k = 0")
      case True
      show ?thesis using kernel_step.atomic[OF mt pm len(1) _ refl reduction_name_atomic] emitted_at(1)[OF len(1)] True by blast
    next
      case False
      then show ?thesis using kernel_step.first[OF mt pm len(1) _ refl] emitted_at(2)[OF len(1)] k by blast
    qed
  qed
qed

definition work_left :: "runtime \<Rightarrow> kernel_stmt list \<Rightarrow> kernel_state \<Rightarrow> nat" where
  "work_left p prog s = (\<Sum>t \<in> kernel_threads p. length prog - ks_pc s t)"

lemma kernel_step_progress:
  assumes "kernel_step p ev gid prog s s'"
  shows "work_left p prog s' < work_left p prog s"
proof -
  have fin: "finite (kernel_threads p)" by (simp add: kernel_threads_def)
  show ?thesis
    using assms unfolding work_left_def by cases (intro sum_strict_mono_ex1 fin; force)+
qed

lemma kernel_completes:
  assumes "groups_ok p rd ev gid s0 s"
  shows "\<exists>s'. (kernel_step p ev gid (emit_reduction rd))\<^sup>*\<^sup>* s s' \<and> kernel_finished p (emit_reduction rd) s'"
  using assms
proof (induction "work_left p (emit_reduction rd) s" arbitrary: s rule: less_induct)
  case less
  show ?case
  proof (cases "kernel_finished p (emit_reduction rd) s")
    case False
    then obtain s1 where s1: "kernel_step p ev gid (emit_reduction rd) s s1" using kernel_not_stuck less.prems by blast
    then show ?thesis
      using less.hyps[OF kernel_step_progress[OF s1] groups_ok_step[OF s1 less.prems]] by (meson converse_rtranclp_into_rtranclp)
  qed blast
qed

text \<open>C36: atomic reductions are deterministic. The statements that are emitted (the atomic operation by its printed
  name, the two barriers, the addition by the first thread of a group) are run by all threads in any interleaving:
  from wherever a run has got to, all threads can still reach the end; and whenever they have, the cell of every
  group holds the values of its threads combined by the operation, whatever the order was, the first thread of
  each group has this result added to its hash, and all other memory and hashes are as before. The value of
  the expression in a thread is a parameter.\<close>

theorem reduction_order_independent:
  assumes "(kernel_step p expr_value global_id (emit_reduction rd))\<^sup>*\<^sup>* (kernel_start mem hash) s"
  shows "(\<exists>s'. (kernel_step p expr_value global_id (emit_reduction rd))\<^sup>*\<^sup>* s s' \<and>
      kernel_finished p (emit_reduction rd) s') \<and>
    (kernel_finished p (emit_reduction rd) s \<longrightarrow>
      (\<forall>g < noGroups p. ks_mem s (own_cell rd g) = reduced p rd expr_value global_id g (mem (own_cell rd g))) \<and>
      (\<forall>a. a \<notin> own_cell rd ` {..<noGroups p} \<longrightarrow> ks_mem s a = mem a) \<and>
      (\<forall>t. ks_hash s t = hash t + (if t \<in> kernel_threads p \<and> snd t = 0
         then reduced p rd expr_value global_id (fst t) (mem (own_cell rd (fst t))) else 0)))"
proof -
  let ?s0 = "kernel_start mem hash"
  have ok: "groups_ok p rd expr_value global_id ?s0 s" by (rule groups_ok_steps[OF assms groups_ok_start])
  have s0: "ks_mem ?s0 = mem" "ks_hash ?s0 = hash" by (simp_all add: kernel_start_def)
  have at4: "group_at p rd expr_value global_id ?s0 s g 4 {}"
    if fin: "kernel_finished p (emit_reduction rd) s" "g < noGroups p" "l < get_threads_per_group p" for g l
  proof -
    obtain k D where at: "group_at p rd expr_value global_id ?s0 s g k D" using ok fin(2) by (auto simp: groups_ok_def)
    have "ks_pc s (g, l) = 4" using fin by (auto simp: kernel_finished_def emit_reduction_nth kernel_threads_def)
    then have "k = 4" using at fin(3) by (auto simp: group_at_def split: if_splits)
    then show ?thesis using at by (auto simp: group_at_def)
  qed
  have cell: "ks_mem s (own_cell rd g) = reduced p rd expr_value global_id g (mem (own_cell rd g))"
    if fin: "kernel_finished p (emit_reduction rd) s" "g < noGroups p" for g
  proof (cases "get_threads_per_group p = 0")
    case True
    obtain k D where "group_at p rd expr_value global_id ?s0 s g k D"
      using ok fin(2) by (auto simp: groups_ok_def)
    then show ?thesis using True by (simp add: group_at_def reduced_combined s0)
  next
    case False
    then show ?thesis using at4[OF fin, of 0] by (simp add: group_at_def reduced_combined s0)
  qed
  have hash: "ks_hash s t = hash t + (if t \<in> kernel_threads p \<and> snd t = 0
      then reduced p rd expr_value global_id (fst t) (mem (own_cell rd (fst t))) else 0)"
    if fin: "kernel_finished p (emit_reduction rd) s" for t
  proof (cases "t \<in> kernel_threads p")
    case True
    then obtain g l where t: "t = (g, l)" "g < noGroups p" "l < get_threads_per_group p" by (auto simp: kernel_threads_def)
    then show ?thesis using at4[OF fin t(2,3)] True by (simp add: group_at_def s0)
  next
    case False
    then have "ks_hash s t = hash t" using ok unfolding groups_ok_def s0 by metis
    then show ?thesis using False by simp
  qed
  have "\<forall>a. a \<notin> own_cell rd ` {..<noGroups p} \<longrightarrow> ks_mem s a = mem a" using ok unfolding groups_ok_def s0 by metis
  then show ?thesis using kernel_completes[OF ok] cell hash by blast
qed

definition sample_reduction :: reduction where
  "sample_reduction = \<lparr>rd_expr = EConst (TSimple eInt) ''5'', rd_add_global = True, rd_op = kSub, rd_mem = AGlobal\<rparr>"

lemma sample_reduction_text:
  "StatementAtomicReduction_Output default_options sample_printer 1 sample_reduction =
     ''    atomic_sub(&g_atomic_reduction[get_linear_group_id()], 5 + get_linear_global_id());'' @ newline @
     ''    barrier(CLK_LOCAL_MEM_FENCE | CLK_GLOBAL_MEM_FENCE);'' @ newline @
     ''    if (get_linear_local_id() == 0)'' @ newline @
     ''        v_collective += g_atomic_reduction[get_linear_group_id()];'' @ newline @
     ''    barrier(CLK_LOCAL_MEM_FENCE | CLK_GLOBAL_MEM_FENCE);'' @ newline"
  by code_simp

lemma reduction_order_independent_witness:
  "let p = \<lparr>noThreads = 4, noGroups = 2, globalDim = [4, 1, 1], localDim = [2, 1, 1]\<rparr>;
       step = kernel_step p (\<lambda>e t. 5) (\<lambda>t. of_nat (fst t * 2 + snd t)) (emit_reduction sample_reduction) in
     \<exists>s. step\<^sup>*\<^sup>* (kernel_start (\<lambda>_. 100) (\<lambda>_. 0)) s \<and> kernel_finished p (emit_reduction sample_reduction) s \<and>
       ks_hash s (0, 0) = 89 \<and> ks_hash s (1, 0) = 85 \<and> ks_hash s (1, 1) = 0"
proof -
  let ?p = "\<lparr>noThreads = 4, noGroups = 2, globalDim = [4, 1, 1], localDim = [2, 1, 1]\<rparr>"
  let ?step = "kernel_step ?p (\<lambda>e t. 5) (\<lambda>t. of_nat (fst t * 2 + snd t)) (emit_reduction sample_reduction)"
  let ?s0 = "kernel_start (\<lambda>_. 100) (\<lambda>_. 0)"
  obtain s where s: "?step\<^sup>*\<^sup>* ?s0 s" "kernel_finished ?p (emit_reduction sample_reduction) s"
    using reduction_order_independent[of ?p _ _ sample_reduction "\<lambda>_. 100" "\<lambda>_. 0" ?s0] by blast
  have r: "reduced ?p sample_reduction (\<lambda>e t. 5) (\<lambda>t. of_nat (fst t * 2 + snd t)) 0 100 = 89"
    "reduced ?p sample_reduction (\<lambda>e t. 5) (\<lambda>t. of_nat (fst t * 2 + snd t)) 1 100 = 85" by code_simp+
  have t: "(0, 0) \<in> kernel_threads ?p" "(1, 0) \<in> kernel_threads ?p" by (simp_all add: kernel_threads_def get_threads_per_group_def)
  have h: "ks_hash s u = (if u \<in> kernel_threads ?p \<and> snd u = 0
      then reduced ?p sample_reduction (\<lambda>e t. 5) (\<lambda>t. of_nat (fst t * 2 + snd t)) (fst u) 100 else 0)" for u
    by (rule reduction_order_independent[OF s(1), THEN conjunct2, THEN mp, OF s(2), THEN conjunct2, THEN conjunct2,
        THEN spec[of _ u], THEN trans]) (rule add_0)
  have "ks_hash s (0, 0) = 89 \<and> ks_hash s (1, 0) = 85 \<and> ks_hash s (1, 1) = 0"
    using h[of "(0, 0)"] h[of "(1, 0)"] h[of "(1, 1)"] t r by simp
  then show ?thesis using s by (auto simp: Let_def)
qed

end
